(* ===== verification/Prelude.thy ===== *)
theory Prelude
  imports Main "HOL-Library.AList" "HOL-Library.Multiset"
begin

text \<open>
  Shared vocabulary of the development: Python exceptions as values, Python's integer
  division, indexing and slicing, insertion-ordered dictionaries as association lists,
  and the generic lemmas on lists and dictionaries the component theories use.

  A dictionary is an association list with distinct keys.  \<open>AList.update\<close> overwrites
  in place or appends at the end, and \<open>AList.delete\<close> drops the key, which is what a
  Python dictionary does to its iteration order.
\<close>

section \<open>Exceptions as values\<close>

datatype py_error =
    ValueError | AssertionError | RuntimeError | KeyError | IndexError
  | AttributeError | NotImplementedError | TypeError | ZeroDivisionError

datatype 'a res = Err py_error | Ok 'a

fun rbind :: "'a res \<Rightarrow> ('a \<Rightarrow> 'b res) \<Rightarrow> 'b res" where
  "rbind (Err e) f = Err e"
| "rbind (Ok x) f = f x"

definition py_assert :: "bool \<Rightarrow> unit res" where
  "py_assert b = (if b then Ok () else Err AssertionError)"

named_theorems res_simps \<open>how results of the error monad decompose\<close>
named_theorems frame_simps \<open>fields an operation leaves alone\<close>

lemma rbind_eq_Ok [res_simps]: "rbind m f = Ok y \<longleftrightarrow> (\<exists>x. m = Ok x \<and> f x = Ok y)"
  by (cases m) auto

lemma rbind_eq_Err [res_simps]:
  "rbind m f = Err e \<longleftrightarrow> m = Err e \<or> (\<exists>x. m = Ok x \<and> f x = Err e)"
  by (cases m) auto

lemma rbind_assoc: "rbind (rbind m f) g = rbind m (\<lambda>x. rbind (f x) g)"
  by (cases m) simp_all

lemma rbind_cong [fundef_cong]:
  "m = m' \<Longrightarrow> (\<And>x. m' = Ok x \<Longrightarrow> f x = f' x) \<Longrightarrow> rbind m f = rbind m' f'"
  by (cases m') auto

lemma py_assert_Ok [res_simps]: "py_assert b = Ok u \<longleftrightarrow> b"
  by (simp add: py_assert_def)

lemma py_assert_True [simp]: "py_assert True = Ok ()"
  by (simp add: py_assert_def)

lemma py_assert_False [simp]: "py_assert False = Err AssertionError"
  by (simp add: py_assert_def)

fun rmap :: "('a \<Rightarrow> 'b res) \<Rightarrow> 'a list \<Rightarrow> 'b list res" where
  "rmap f [] = Ok []"
| "rmap f (x # xs) = rbind (f x) (\<lambda>y. rbind (rmap f xs) (\<lambda>ys. Ok (y # ys)))"

text \<open>A \<open>for\<close> loop whose body changes a state and may raise.\<close>

fun rfold :: "('a \<Rightarrow> 's \<Rightarrow> 's res) \<Rightarrow> 'a list \<Rightarrow> 's \<Rightarrow> 's res" where
  "rfold f [] s = Ok s"
| "rfold f (x # xs) s = rbind (f x s) (\<lambda>s'. rfold f xs s')"

lemma rfold_append: "rfold f (xs @ ys) s = rbind (rfold f xs s) (rfold f ys)"
proof (induction xs arbitrary: s)
  case Nil
  show ?case by simp
next
  case (Cons x xs)
  then show ?case by (cases "f x s") auto
qed

text \<open>An invariant that every round keeps holds after the loop.\<close>

lemma rfold_invariant:
  assumes "rfold f xs s = Ok s'" and "P s"
    and "\<And>x s t. x \<in> set xs \<Longrightarrow> P s \<Longrightarrow> f x s = Ok t \<Longrightarrow> P t"
  shows "P s'"
  using assms
proof (induction xs arbitrary: s)
  case Nil
  then show ?case by simp
next
  case (Cons x xs)
  then obtain t where t: "f x s = Ok t" and r: "rfold f xs t = Ok s'"
    by (auto simp: res_simps)
  from Cons.prems t have "P t" by auto
  with r show ?case by (rule Cons.IH) (use Cons.prems(3) in auto)
qed

section \<open>Python integers, indices and slices\<close>

definition cdiv :: "int \<Rightarrow> int \<Rightarrow> int" where
  "cdiv a b = - (a div (- b))"

lemma cdiv_bounds:
  assumes "0 < b"
  shows "a \<le> cdiv a b * b" and "cdiv a b * b < a + b"
proof -
  have m: "cdiv a b * b = a - a mod (- b)"
    unfolding cdiv_def using div_mult_mod_eq [of a "- b"] by (simp add: algebra_simps)
  have "- b < a mod (- b)" "a mod (- b) \<le> 0"
    using assms neg_mod_bound [of "- b" a] neg_mod_sign [of "- b" a] by auto
  with m show "a \<le> cdiv a b * b" and "cdiv a b * b < a + b" by auto
qed

lemma cdiv_least:
  assumes "0 < b" and "a \<le> k * b"
  shows "cdiv a b \<le> k"
proof (rule ccontr)
  assume "\<not> cdiv a b \<le> k"
  then have "(k + 1) * b \<le> cdiv a b * b"
    using assms(1) by (intro mult_right_mono) auto
  with cdiv_bounds(2) [OF assms(1), of a] assms(2) show False
    by (simp add: algebra_simps)
qed

lemma cdiv_nonneg: "0 < b \<Longrightarrow> 0 \<le> a \<Longrightarrow> 0 \<le> cdiv a b"
  using cdiv_bounds(1) [of b a] by (metis (full_types) mult_less_0_iff not_le order_trans leD)

lemma cdiv_mono: "0 < b \<Longrightarrow> a \<le> c \<Longrightarrow> cdiv a b \<le> cdiv c b"
  by (rule cdiv_least) (use cdiv_bounds(1) [of b c] in auto)

lemma cdiv_mult [simp]: "0 < b \<Longrightarrow> cdiv (k * b) b = k"
  using nonzero_mult_div_cancel_right [of "- b" "- k"] by (simp add: cdiv_def)

lemma div_le_cdiv: "0 < b \<Longrightarrow> a div b \<le> cdiv a b"
  using zdiv_mono1 [OF cdiv_bounds(1) [of b a], of b] by simp

lemma le_div_int_iff:
  assumes "0 < (b::int)"
  shows "k \<le> a div b \<longleftrightarrow> k * b \<le> a"
proof
  assume "k \<le> a div b"
  then have "k * b \<le> (a div b) * b" using assms by (intro mult_right_mono) auto
  also have "\<dots> \<le> a"
    using div_mult_mod_eq [of a b] pos_mod_sign [OF assms, of a] by linarith
  finally show "k * b \<le> a" .
next
  assume "k * b \<le> a"
  then have "k * b div b \<le> a div b" using assms by (rule zdiv_mono1)
  then show "k \<le> a div b" using assms by simp
qed

definition py_index :: "'a list \<Rightarrow> int \<Rightarrow> 'a res" where
  "py_index xs i =
     (let n = int (length xs); j = (if i < 0 then n + i else i)
      in if 0 \<le> j \<and> j < n then Ok (xs ! nat j) else Err IndexError)"

definition clamp_index :: "nat \<Rightarrow> int \<Rightarrow> nat" where
  "clamp_index n i = nat (if i < 0 then max 0 (int n + i) else min i (int n))"

definition py_slice :: "'a list \<Rightarrow> int \<Rightarrow> int \<Rightarrow> 'a list" where
  "py_slice xs a b =
     (let i = clamp_index (length xs) a; j = clamp_index (length xs) b
      in take (j - i) (drop i xs))"

lemma py_slice_nonneg:
  assumes "0 \<le> a" and "0 \<le> b"
  shows "py_slice xs a b = take (nat b - nat a) (drop (nat a) xs)"
proof (cases "nat a \<le> length xs")
  case True
  then have "clamp_index (length xs) a = nat a"
    using assms by (simp add: clamp_index_def)
  moreover have "clamp_index (length xs) b = min (nat b) (length xs)"
    using assms by (auto simp: clamp_index_def min_def)
  ultimately show ?thesis
    by (simp add: py_slice_def Let_def min_def take_all_iff)
next
  case False
  then have "clamp_index (length xs) a = length xs"
    using assms by (auto simp: clamp_index_def)
  with False show ?thesis by (simp add: py_slice_def Let_def)
qed

lemma length_py_slice_le:
  "0 \<le> a \<Longrightarrow> a \<le> b \<Longrightarrow> int (length (py_slice xs a b)) \<le> b - a"
  by (simp add: py_slice_nonneg)

lemma py_index_nonneg:
  "0 \<le> i \<Longrightarrow> i < int (length xs) \<Longrightarrow> py_index xs i = Ok (xs ! nat i)"
  by (simp add: py_index_def)

lemma py_index_Ok_mem: "py_index xs i = Ok x \<Longrightarrow> x \<in> set xs"
  by (auto simp: py_index_def Let_def split: if_splits intro!: nth_mem)

lemma set_py_slice_subset: "set (py_slice xs a b) \<subseteq> set xs"
  by (auto simp: py_slice_def Let_def dest: in_set_takeD in_set_dropD)

lemma in_set_py_slice:
  assumes "x \<in> set (py_slice xs a b)" and "0 \<le> a"
  obtains i where "a \<le> int i" and "i < length xs" and "x = xs ! i"
proof -
  have "x \<in> set (drop (clamp_index (length xs) a) xs)"
    using assms(1) by (auto simp: py_slice_def Let_def dest: in_set_takeD)
  then obtain k where k: "k < length xs - clamp_index (length xs) a" "x = xs ! (clamp_index (length xs) a + k)"
    by (auto simp: in_set_conv_nth)
  then have "clamp_index (length xs) a = nat a" using assms(2) by (auto simp: clamp_index_def min_def split: if_splits)
  with k assms(2) show thesis by (intro that [of "nat a + k"]) auto
qed

section \<open>Dictionaries\<close>

type_synonym ('k, 'v) dict = "('k \<times> 'v) list"

definition wf_dict :: "('k, 'v) dict \<Rightarrow> bool" where
  "wf_dict d \<longleftrightarrow> distinct (map fst d)"

definition dict_get :: "'k \<Rightarrow> ('k, 'v) dict \<Rightarrow> 'v res" where
  "dict_get k d = (case map_of d k of None \<Rightarrow> Err KeyError | Some v \<Rightarrow> Ok v)"

text \<open>Reading a \<open>defaultdict(list)\<close>: a missing key is inserted with an empty list.\<close>

definition ddict_get :: "'k \<Rightarrow> ('k, 'v list) dict \<Rightarrow> 'v list \<times> ('k, 'v list) dict" where
  "ddict_get k d = (case map_of d k of None \<Rightarrow> ([], AList.update k [] d) | Some v \<Rightarrow> (v, d))"

definition list_of :: "'k \<Rightarrow> ('k, 'v list) dict \<Rightarrow> 'v list" where
  "list_of k d = (case map_of d k of None \<Rightarrow> [] | Some v \<Rightarrow> v)"

lemma wf_dict_Nil [simp]: "wf_dict []"
  by (simp add: wf_dict_def)

lemma wf_dict_update [simp]: "wf_dict d \<Longrightarrow> wf_dict (AList.update k v d)"
  by (simp add: wf_dict_def distinct_update)

lemma wf_dict_delete [simp]: "wf_dict d \<Longrightarrow> wf_dict (AList.delete k d)"
  by (simp add: wf_dict_def distinct_delete)

lemma ddict_get_val [simp]: "fst (ddict_get k d) = list_of k d"
  by (simp add: ddict_get_def list_of_def split: option.splits)

lemma wf_dict_ddict_get [simp]: "wf_dict d \<Longrightarrow> wf_dict (snd (ddict_get k d))"
  by (simp add: ddict_get_def split: option.splits)

lemma map_of_ddict_get:
  "map_of (snd (ddict_get k d)) = (map_of d)(k \<mapsto> list_of k d)"
  by (auto simp: ddict_get_def list_of_def update_conv' fun_upd_idem split: option.splits)

lemma list_of_ddict_get [simp]: "list_of k' (snd (ddict_get k d)) = list_of k' d"
  by (simp add: list_of_def map_of_ddict_get split: option.splits)

lemma list_of_update [simp]:
  "list_of k' (AList.update k v d) = (if k' = k then v else list_of k' d)"
  by (simp add: list_of_def update_conv')

lemma list_of_delete [simp]:
  "list_of k' (AList.delete k d) = (if k' = k then [] else list_of k' d)"
  by (simp add: list_of_def delete_conv')

text \<open>The multiset of all values of a dictionary of lists, with multiplicity.\<close>

definition dict_mset :: "('k, 'v list) dict \<Rightarrow> 'v multiset" where
  "dict_mset d = mset (concat (map snd d))"

lemma dict_mset_Nil [simp]: "dict_mset [] = {#}"
  by (simp add: dict_mset_def)

lemma dict_mset_Cons [simp]: "dict_mset (p # d) = mset (snd p) + dict_mset d"
  by (simp add: dict_mset_def)

lemma dict_mset_update:
  "wf_dict d \<Longrightarrow> dict_mset (AList.update k v d) + mset (list_of k d) = dict_mset d + mset v"
proof (induction d)
  case Nil
  show ?case by (simp add: list_of_def)
next
  case (Cons p d)
  show ?case
  proof (cases "fst p = k")
    case True
    then show ?thesis by (cases p) (simp add: list_of_def)
  next
    case False
    have "wf_dict d" using Cons.prems by (simp add: wf_dict_def)
    with Cons.IH False show ?thesis by (cases p) (simp add: list_of_def union_assoc)
  qed
qed

lemma dict_mset_delete:
  "wf_dict d \<Longrightarrow> dict_mset (AList.delete k d) + mset (list_of k d) = dict_mset d"
proof (induction d)
  case Nil
  show ?case by (simp add: list_of_def)
next
  case (Cons p d)
  then have d: "wf_dict d" and fresh: "fst p \<notin> fst ` set d" by (auto simp: wf_dict_def)
  show ?case
  proof (cases "fst p = k")
    case True
    with fresh have "AList.delete k d = d" by (auto intro: delete_id)
    with True show ?thesis by (cases p) (simp add: list_of_def)
  next
    case False
    with Cons.IH [OF d] show ?thesis by (cases p) (simp add: list_of_def union_assoc)
  qed
qed

lemma dict_mset_ddict_get [simp]: "wf_dict d \<Longrightarrow> dict_mset (snd (ddict_get k d)) = dict_mset d"
  using dict_mset_update [of d k "[]"]
  by (auto simp: ddict_get_def list_of_def split: option.splits)

lemma list_of_subset_dict: "set (list_of k d) \<subseteq> set_mset (dict_mset d)"
  by (cases "map_of d k") (force simp: list_of_def dict_mset_def dest: map_of_SomeD)+

lemma in_dict_mset:
  assumes "wf_dict d"
  shows "b \<in># dict_mset d \<longleftrightarrow> (\<exists>k. b \<in> set (list_of k d))"
proof
  assume "b \<in># dict_mset d"
  then obtain k v where "(k, v) \<in> set d" "b \<in> set v" by (auto simp: dict_mset_def)
  then show "\<exists>k. b \<in> set (list_of k d)"
    using assms map_of_is_SomeI [of d k v] by (auto simp: list_of_def wf_dict_def intro!: exI [of _ k])
next
  assume "\<exists>k. b \<in> set (list_of k d)"
  then show "b \<in># dict_mset d" by (auto dest: subsetD [OF list_of_subset_dict])
qed

lemma dict_mset_empty: "wf_dict d \<Longrightarrow> \<forall>k. list_of k d = [] \<Longrightarrow> dict_mset d = {#}"
  using in_dict_mset [of d] by (metis equals0D multiset_nonemptyE list.set(1))

end
