(* ===== verification/Request_Model.thy ===== *)
theory Request_Model
  imports Prelude
begin

text \<open>
  \<open>vllm/v1/request.py\<close> and \<open>vllm/v1/core/sched/utils.py\<close>: the request object
  the scheduler moves around, its status enumeration, the constructor with its checks,
  the properties derived from its token lists, and the stop check that ends a request.

  A request is a \<open>record\<close>.  Values the scheduler only carries (multi-modal inputs,
  grammar descriptions, transfer parameters) are strings.  Times are integers.
  \<open>time.time()\<close> and event timestamps are arguments.
\<close>

section \<open>Data\<close>

datatype request_status =
    WAITING | WAITING_FOR_FSM | WAITING_FOR_REMOTE_KVS | RUNNING | PREEMPTED
  | FINISHED_STOPPED | FINISHED_LENGTH_CAPPED | FINISHED_ABORTED | FINISHED_IGNORED

datatype finish_reason = STOP | LENGTH | ABORT

text \<open>The numbering \<open>enum.auto()\<close> gives, which \<open>is_finished\<close> compares.\<close>

fun status_value :: "request_status \<Rightarrow> int" where
  "status_value WAITING = 1"
| "status_value WAITING_FOR_FSM = 2"
| "status_value WAITING_FOR_REMOTE_KVS = 3"
| "status_value RUNNING = 4"
| "status_value PREEMPTED = 5"
| "status_value FINISHED_STOPPED = 6"
| "status_value FINISHED_LENGTH_CAPPED = 7"
| "status_value FINISHED_ABORTED = 8"
| "status_value FINISHED_IGNORED = 9"

definition status_is_finished :: "request_status \<Rightarrow> bool" where
  "status_is_finished s \<longleftrightarrow> status_value s > status_value PREEMPTED"

fun get_finished_reason :: "request_status \<Rightarrow> finish_reason option" where
  "get_finished_reason FINISHED_STOPPED = Some STOP"
| "get_finished_reason FINISHED_LENGTH_CAPPED = Some LENGTH"
| "get_finished_reason FINISHED_ABORTED = Some ABORT"
| "get_finished_reason FINISHED_IGNORED = Some LENGTH"
| "get_finished_reason _ = None"

record lora_request =
  lora_name :: string
  lora_int_id :: int

record placeholder_range =
  mm_offset :: int
  mm_length :: int

record sampling_params =
  sp_max_tokens :: "int option"
  ignore_eos :: bool
  stop_token_ids :: "int list option"
  prompt_logprobs :: "int option"
  logprobs :: "int option"
  guided_decoding :: "string option"
  extra_args :: "(string, string) dict option"

datatype event_type = QUEUED | SCHEDULED | EV_PREEMPTED

record request =
  request_id :: string
  client_index :: int
  priority :: int
  sampling :: "sampling_params option"
  pooling :: "string option"
  eos_token_id :: "int option"
  lora :: "lora_request option"
  arrival_time :: int
  status :: request_status
  req_events :: "(event_type \<times> int) list"
  stop_reason :: "int option"
  kv_transfer_params :: "string option"
  max_tokens :: int
  prompt_token_ids :: "int list"
  output_token_ids :: "int list"
  all_token_ids :: "int list"
  num_output_placeholders :: int
  spec_token_ids :: "int list"
  num_computed_tokens :: int
  cache_salt :: "string option"
  mm_positions :: "placeholder_range list"
  mm_inputs :: "string list"
  mm_hashes :: "string list"
  num_cached_tokens :: int
  num_nans_in_logits :: int

section \<open>Operations\<close>

text \<open>\<open>Request.__init__\<close>; \<open>now\<close> is what \<open>time.time()\<close> returns.\<close>

definition or_empty :: "'a list option \<Rightarrow> 'a list" where
  "or_empty xs = (case xs of None \<Rightarrow> [] | Some ys \<Rightarrow> ys)"

definition Request_init ::
  "int \<Rightarrow> string \<Rightarrow> int list \<Rightarrow> string list option \<Rightarrow> string list option
   \<Rightarrow> placeholder_range list option \<Rightarrow> sampling_params option \<Rightarrow> string option \<Rightarrow> int option
   \<Rightarrow> int \<Rightarrow> int option \<Rightarrow> lora_request option \<Rightarrow> string option \<Rightarrow> int \<Rightarrow> request res" where
  "Request_init now rid prompt mmi mmh mmp sp pp eos ci arr lr salt prio =
     rbind
       (case pp of
          Some _ \<Rightarrow> Ok (1, None)
        | None \<Rightarrow>
            (case sp of
               Some s \<Rightarrow>
                 (case sp_max_tokens s of
                    None \<Rightarrow> Err AssertionError
                  | Some m \<Rightarrow>
                      Ok (m, case extra_args s of
                               None \<Rightarrow> None
                             | Some d \<Rightarrow> map_of d ''kv_transfer_params''))
             | None \<Rightarrow> Err ValueError))
       (\<lambda>(mt, kvp).
         rbind (py_assert (length (or_empty mmi) = length (or_empty mmp))) (\<lambda>_.
         rbind (py_assert (or_empty mmh \<noteq> [] \<longrightarrow> length (or_empty mmi) = length (or_empty mmh))) (\<lambda>_.
         Ok \<lparr>request_id = rid, client_index = ci, priority = prio, sampling = sp, pooling = pp,
             eos_token_id = eos, lora = lr,
             arrival_time = (case arr of Some t \<Rightarrow> t | None \<Rightarrow> now),
             status = (case sp of
                         Some s \<Rightarrow> (if guided_decoding s \<noteq> None then WAITING_FOR_FSM else WAITING)
                       | None \<Rightarrow> WAITING),
             req_events = [], stop_reason = None, kv_transfer_params = kvp, max_tokens = mt,
             prompt_token_ids = prompt, output_token_ids = [], all_token_ids = prompt,
             num_output_placeholders = 0, spec_token_ids = [], num_computed_tokens = 0,
             cache_salt = salt, mm_positions = or_empty mmp, mm_inputs = or_empty mmi,
             mm_hashes = or_empty mmh, num_cached_tokens = -1, num_nans_in_logits = 0\<rparr>)))"

definition append_output_token_ids :: "int list \<Rightarrow> request \<Rightarrow> request" where
  "append_output_token_ids ts r =
     r\<lparr>output_token_ids := output_token_ids r @ ts, all_token_ids := all_token_ids r @ ts\<rparr>"

definition is_output_corrupted :: "request \<Rightarrow> bool" where
  "is_output_corrupted r \<longleftrightarrow> num_nans_in_logits r > 0"

definition num_tokens :: "request \<Rightarrow> int" where
  "num_tokens r = int (length (all_token_ids r))"

definition num_tokens_with_spec :: "request \<Rightarrow> int" where
  "num_tokens_with_spec r = int (length (all_token_ids r)) + int (length (spec_token_ids r))"

definition num_output_tokens :: "request \<Rightarrow> int" where
  "num_output_tokens r = int (length (output_token_ids r))"

definition num_prompt_tokens :: "request \<Rightarrow> int" where
  "num_prompt_tokens r = int (length (prompt_token_ids r))"

definition has_encoder_inputs :: "request \<Rightarrow> bool" where
  "has_encoder_inputs r \<longleftrightarrow> length (mm_inputs r) > 0"

definition is_finished :: "request \<Rightarrow> bool" where
  "is_finished r = status_is_finished (status r)"

definition get_num_encoder_tokens :: "request \<Rightarrow> int \<Rightarrow> int res" where
  "get_num_encoder_tokens r i =
     rbind (py_assert (i < int (length (mm_positions r)))) (\<lambda>_.
     rbind (py_index (mm_positions r) i) (\<lambda>p. Ok (mm_length p)))"

definition use_structured_output :: "request \<Rightarrow> bool" where
  "use_structured_output r =
     (case sampling r of None \<Rightarrow> False | Some s \<Rightarrow> guided_decoding s \<noteq> None)"

definition record_event :: "event_type \<Rightarrow> int \<Rightarrow> request \<Rightarrow> request" where
  "record_event e t r = r\<lparr>req_events := req_events r @ [(e, t)]\<rparr>"

definition take_req_events :: "request \<Rightarrow> (event_type \<times> int) list option \<times> request" where
  "take_req_events r =
     (if req_events r = [] then (None, r) else (Some (req_events r), r\<lparr>req_events := []\<rparr>))"

text \<open>\<open>check_stop\<close> of \<open>sched/utils.py\<close>: the request may get a finished status.\<close>

definition check_stop :: "int \<Rightarrow> string option \<Rightarrow> request \<Rightarrow> (bool \<times> request) res" where
  "check_stop max_model_len pooler_output r =
     (if num_tokens r \<ge> max_model_len \<or> num_output_tokens r \<ge> max_tokens r
      then Ok (True, r\<lparr>status := FINISHED_LENGTH_CAPPED\<rparr>)
      else case pooling r of
        Some _ \<Rightarrow>
          (if pooler_output \<noteq> None then Ok (True, r\<lparr>status := FINISHED_STOPPED\<rparr>)
           else Ok (False, r))
      | None \<Rightarrow>
          (case sampling r of
             None \<Rightarrow> Err AssertionError
           | Some sp \<Rightarrow>
               rbind (py_index (output_token_ids r) (-1)) (\<lambda>last_token_id.
               if \<not> ignore_eos sp \<and> eos_token_id r = Some last_token_id
               then Ok (True, r\<lparr>status := FINISHED_STOPPED\<rparr>)
               else if last_token_id \<in> set (or_empty (stop_token_ids sp))
               then Ok (True, r\<lparr>status := FINISHED_STOPPED, stop_reason := Some last_token_id\<rparr>)
               else Ok (False, r))))"

section \<open>Well-formed requests\<close>

text \<open>
  What the constructor establishes and every operation keeps: all tokens are the prompt
  followed by the output, and multi-modal inputs and placeholders come in pairs.
\<close>

definition wf_request :: "request \<Rightarrow> bool" where
  "wf_request r \<longleftrightarrow>
     all_token_ids r = prompt_token_ids r @ output_token_ids r \<and>
     length (mm_inputs r) = length (mm_positions r) \<and>
     (mm_hashes r \<noteq> [] \<longrightarrow> length (mm_inputs r) = length (mm_hashes r)) \<and>
     (pooling r \<noteq> None \<or> sampling r \<noteq> None)"

lemma Request_init_wf:
  assumes "Request_init now rid prompt mmi mmh mmp sp pp eos ci arr lr salt prio = Ok r"
  shows "wf_request r" and "num_computed_tokens r = 0" and "request_id r = rid"
    and "\<not> is_finished r" and "status r \<in> {WAITING, WAITING_FOR_FSM}"
  using assms
  by (auto simp: Request_init_def wf_request_def res_simps is_finished_def
      status_is_finished_def split: option.splits if_splits)

lemma wf_request_append [simp]: "wf_request r \<Longrightarrow> wf_request (append_output_token_ids ts r)"
  by (auto simp: wf_request_def append_output_token_ids_def)

lemma append_output_simps [simp]:
  "num_tokens (append_output_token_ids ts r) = num_tokens r + int (length ts)"
  "num_output_tokens (append_output_token_ids ts r) = num_output_tokens r + int (length ts)"
  "max_tokens (append_output_token_ids ts r) = max_tokens r"
  "status (append_output_token_ids ts r) = status r"
  "request_id (append_output_token_ids ts r) = request_id r"
  by (simp_all add: append_output_token_ids_def num_tokens_def num_output_tokens_def)

lemma wf_request_counts: "wf_request r \<Longrightarrow> num_tokens r = num_prompt_tokens r + num_output_tokens r"
  by (simp add: wf_request_def num_tokens_def num_prompt_tokens_def num_output_tokens_def)

text \<open>\<open>is_finished\<close> by comparing enum values agrees with having a finish reason.\<close>

lemma is_finished_iff_reason: "is_finished r \<longleftrightarrow> get_finished_reason (status r) \<noteq> None"
  by (cases "status r") (auto simp: is_finished_def status_is_finished_def)

text \<open>
  The outcome of the check in one place: it either leaves the request alone and the token
  limits are not reached, or it finishes the request.
\<close>

definition stopped_as :: "request \<Rightarrow> request_status \<Rightarrow> int option \<Rightarrow> request" where
  "stopped_as r s sr = r\<lparr>status := s, stop_reason := sr\<rparr>"

lemma check_stop_cases:
  assumes "check_stop m po r = Ok (b, r')"
  obtains (go) "\<not> b" "r' = r" "num_tokens r < m" "num_output_tokens r < max_tokens r"
  | (halt) s sr where "b" "r' = stopped_as r s sr" "s \<in> {FINISHED_STOPPED, FINISHED_LENGTH_CAPPED}"
proof (cases "num_tokens r \<ge> m \<or> num_output_tokens r \<ge> max_tokens r")
  case True
  with assms show thesis
    by (intro halt [of FINISHED_LENGTH_CAPPED "stop_reason r"]) (auto simp: check_stop_def stopped_as_def)
next
  case limits: False
  show thesis
  proof (cases "pooling r")
    case (Some p)
    with assms limits show thesis
      by (cases "po = None")
        (auto simp: check_stop_def stopped_as_def
          intro: go halt [of FINISHED_STOPPED "stop_reason r"])
  next
    case None
    with assms limits obtain sp where sp: "sampling r = Some sp"
      by (cases "sampling r") (auto simp: check_stop_def)
    with assms limits None obtain t where t: "py_index (output_token_ids r) (-1) = Ok t"
      by (cases "py_index (output_token_ids r) (-1)") (auto simp: check_stop_def)
    show thesis
    proof (cases "\<not> ignore_eos sp \<and> eos_token_id r = Some t")
      case True
      with assms limits None sp t show thesis
        by (intro halt [of FINISHED_STOPPED "stop_reason r"]) (auto simp: check_stop_def stopped_as_def)
    next
      case eos: False
      then have eos': "(\<not> ignore_eos sp \<and> eos_token_id r = Some t) = False" by simp
      show thesis
      proof (cases "t \<in> set (or_empty (stop_token_ids sp))")
        case True
        with assms limits None sp t eos' show thesis
          by (intro halt [of FINISHED_STOPPED "Some t"])
            (simp_all add: check_stop_def stopped_as_def del: de_Morgan_conj)
      next
        case False
        with assms limits None sp t eos' show thesis
          by (intro go) (simp_all add: check_stop_def del: de_Morgan_conj)
      qed
    qed
  qed
qed

lemma stopped_as_simps [simp]:
  "request_id (stopped_as r s sr) = request_id r" "status (stopped_as r s sr) = s"
  "all_token_ids (stopped_as r s sr) = all_token_ids r"
  "output_token_ids (stopped_as r s sr) = output_token_ids r"
  "prompt_token_ids (stopped_as r s sr) = prompt_token_ids r"
  "num_computed_tokens (stopped_as r s sr) = num_computed_tokens r"
  "mm_positions (stopped_as r s sr) = mm_positions r" "mm_inputs (stopped_as r s sr) = mm_inputs r"
  "mm_hashes (stopped_as r s sr) = mm_hashes r" "client_index (stopped_as r s sr) = client_index r"
  "pooling (stopped_as r s sr) = pooling r" "sampling (stopped_as r s sr) = sampling r"
  "wf_request (stopped_as r s sr) = wf_request r"
  by (simp_all add: stopped_as_def wf_request_def)

lemma check_stop_True: "check_stop m po r = Ok (True, r') \<Longrightarrow> is_finished r'"
  by (erule check_stop_cases) (auto simp: is_finished_def status_is_finished_def)

lemma check_stop_False:
  "check_stop m po r = Ok (False, r') \<Longrightarrow>
   r' = r \<and> num_tokens r < m \<and> num_output_tokens r < max_tokens r"
  by (erule check_stop_cases) auto

text \<open>With a sampled token at hand the check never raises.\<close>

lemma check_stop_total:
  assumes "wf_request r" and "output_token_ids r \<noteq> []"
  shows "\<exists>b r'. check_stop m po r = Ok (b, r')"
proof -
  have "\<exists>t. py_index (output_token_ids r) (-1) = Ok t"
    using assms(2) by (auto simp: py_index_def Let_def neq_Nil_conv)
  then show ?thesis
    using assms(1)
    by (cases "pooling r"; cases "sampling r") (auto simp: check_stop_def wf_request_def)
qed

end
