(* ===== verification/Block_Hashing.thy ===== *)
theory Block_Hashing
  imports Request_Model "HOL-Library.Countable"
begin

text \<open>
  The hashing half of \<open>vllm/v1/core/kv_cache_utils.py\<close>: block hashes, the extra keys
  a block hash depends on (LoRA id, multi-modal hashes, cache salt), the hash of one block
  given its parent, and the chain of hashes of a request.

  The hash function (\<open>hash\<close>, \<open>sha256\<close> or \<open>sha256_cbor_64bit\<close>) and the seed
  \<open>NONE_HASH\<close> are parameters.  The soundness theorem of prefix caching names what it
  needs of them: no collisions, and neither \<open>0\<close> nor the seed is ever a hash value.
\<close>

section \<open>Data\<close>

datatype extra_key = KInt int | KStr string

datatype block_hash =
  BlockHash (hash_value: int) (bh_token_ids: "int list") (bh_extra_keys: "extra_key list option")

datatype block_hash_gid = BlockHashWithGroupId (bhg_block_hash: block_hash) (bhg_group_id: nat)

definition get_hash_value :: "block_hash_gid \<Rightarrow> int" where
  "get_hash_value b = hash_value (bhg_block_hash b)"

type_synonym hash_input = "int \<times> int list \<times> extra_key list option"
type_synonym hash_fn = "hash_input \<Rightarrow> int"

instance extra_key :: countable by countable_datatype

section \<open>Extra keys\<close>

definition need_extra_keys :: "request \<Rightarrow> bool" where
  "need_extra_keys r \<longleftrightarrow> mm_hashes r \<noteq> [] \<or> lora r \<noteq> None \<or> cache_salt r \<noteq> None"

text \<open>The \<open>while\<close> loop of \<open>_gen_mm_extra_hash_keys\<close>.\<close>

function mm_keys_loop ::
  "placeholder_range list \<Rightarrow> string list \<Rightarrow> int \<Rightarrow> int \<Rightarrow> nat \<Rightarrow> extra_key list
   \<Rightarrow> (extra_key list \<times> nat) res" where
  "mm_keys_loop ps hs start_idx end_idx cur keys =
     (if cur < length ps
      then rbind (py_index hs (int cur)) (\<lambda>h.
           let off = mm_offset (ps ! cur); len = mm_length (ps ! cur) in
           if end_idx > off then
             if start_idx > off + len
             then mm_keys_loop ps hs start_idx end_idx (Suc cur) keys
             else if end_idx \<ge> off + len
             then mm_keys_loop ps hs start_idx end_idx (Suc cur) (keys @ [KStr h])
             else Ok (keys @ [KStr h], cur)
           else Ok (keys, cur))
      else Ok (keys, cur))"
  by pat_completeness auto
termination
  by (relation "measure (\<lambda>(ps, hs, s, e, cur, keys). length ps - cur)") auto

declare mm_keys_loop.simps [simp del]

definition gen_mm_extra_hash_keys ::
  "request \<Rightarrow> int \<Rightarrow> int \<Rightarrow> int \<Rightarrow> (extra_key list \<times> int) res" where
  "gen_mm_extra_hash_keys r start_idx end_idx start_mm_idx =
     (let ps = mm_positions r; hs = mm_hashes r in
      if ps = [] then Ok ([], start_mm_idx)
      else if length ps \<noteq> length hs then Err ValueError
      else if mm_offset (last ps) + mm_length (last ps) < start_idx then Ok ([], start_mm_idx)
      else
        rbind (py_assert (start_mm_idx < 0 \<longrightarrow> - start_mm_idx \<le> int (length ps))) (\<lambda>_.
        rbind (mm_keys_loop ps hs start_idx end_idx
                 (nat (if start_mm_idx < 0 then int (length ps) + start_mm_idx else start_mm_idx)) [])
          (\<lambda>(keys, cur). Ok (keys, int cur))))"

definition gen_lora_extra_hash_keys :: "request \<Rightarrow> extra_key list" where
  "gen_lora_extra_hash_keys r = (case lora r of None \<Rightarrow> [] | Some l \<Rightarrow> [KInt (lora_int_id l)])"

definition cache_salt_keys :: "request \<Rightarrow> int \<Rightarrow> extra_key list" where
  "cache_salt_keys r start_idx =
     (case cache_salt r of
        None \<Rightarrow> []
      | Some s \<Rightarrow> (if start_idx = 0 \<and> s \<noteq> [] then [KStr s] else []))"

definition generate_block_hash_extra_keys ::
  "request \<Rightarrow> int \<Rightarrow> int \<Rightarrow> int \<Rightarrow> (extra_key list option \<times> int) res" where
  "generate_block_hash_extra_keys r start_idx end_idx start_mm_idx =
     rbind (gen_mm_extra_hash_keys r start_idx end_idx start_mm_idx) (\<lambda>(mm_keys, idx).
       let keys = gen_lora_extra_hash_keys r @ mm_keys @ cache_salt_keys r start_idx
       in Ok (if keys = [] then None else Some keys, idx))"

section \<open>Hash chains\<close>

definition parent_or_none :: "int \<Rightarrow> int option \<Rightarrow> int" where
  "parent_or_none none_hash parent =
     (case parent of None \<Rightarrow> none_hash | Some h \<Rightarrow> (if h = 0 then none_hash else h))"

definition hash_block_tokens ::
  "int \<Rightarrow> hash_fn \<Rightarrow> int option \<Rightarrow> int list \<Rightarrow> extra_key list option \<Rightarrow> block_hash" where
  "hash_block_tokens none_hash hf parent toks extra =
     BlockHash (hf (parent_or_none none_hash parent, toks, extra)) toks extra"

text \<open>
  The loop of \<open>hash_request_tokens\<close> over the start indices \<open>range(0, n, block_size)\<close>.
  The state is the current extra keys, the multi-modal index, the parent hash and the
  hashes so far.
\<close>

fun hash_request_loop ::
  "int \<Rightarrow> hash_fn \<Rightarrow> int \<Rightarrow> request \<Rightarrow> int list \<Rightarrow> extra_key list option \<Rightarrow> int \<Rightarrow> int option
   \<Rightarrow> block_hash list \<Rightarrow> block_hash list res" where
  "hash_request_loop nh hf bs r [] ek mmi parent acc = Ok acc"
| "hash_request_loop nh hf bs r (start # starts) ek mmi parent acc =
     (let block_token_ids = py_slice (all_token_ids r) start (start + bs) in
      if int (length block_token_ids) < bs then Ok acc
      else
        rbind (if need_extra_keys r
               then generate_block_hash_extra_keys r start (start + bs) mmi
               else Ok (ek, mmi)) (\<lambda>(ek', mmi').
        let bh = hash_block_tokens nh hf parent block_token_ids ek'
        in hash_request_loop nh hf bs r starts ek' mmi' (Some (hash_value bh)) (acc @ [bh])))"

definition py_range :: "int \<Rightarrow> int \<Rightarrow> int \<Rightarrow> int list" where
  "py_range a b s =
     (if 0 < s then map (\<lambda>k. a + int k * s) [0..<nat (cdiv (b - a) s)]
      else map (\<lambda>k. a + int k * s) [0..<nat (cdiv (a - b) (- s))])"

definition hash_request_tokens ::
  "int \<Rightarrow> hash_fn \<Rightarrow> int \<Rightarrow> request \<Rightarrow> block_hash list res" where
  "hash_request_tokens nh hf bs r =
     (if bs = 0 then Err ValueError
      else hash_request_loop nh hf bs r (py_range 0 (num_tokens r) bs) None 0 None [])"

section \<open>Metrics of the prefix cache\<close>

record prefix_cache_stats =
  st_reset :: bool
  st_requests :: int
  st_queries :: int
  st_hits :: int

definition PrefixCacheStats_init :: prefix_cache_stats where
  "PrefixCacheStats_init = \<lparr>st_reset = False, st_requests = 0, st_queries = 0, st_hits = 0\<rparr>"

record prefix_caching_metrics =
  max_recent_requests :: int
  aggregated_requests :: int
  aggregated_query_total :: int
  aggregated_query_hit :: int
  query_queue :: "(int \<times> int \<times> int) list"

definition metrics_init :: "int \<Rightarrow> prefix_caching_metrics" where
  "metrics_init n =
     \<lparr>max_recent_requests = n, aggregated_requests = 0, aggregated_query_total = 0,
      aggregated_query_hit = 0, query_queue = []\<rparr>"

definition metrics_reset :: "prefix_caching_metrics \<Rightarrow> prefix_caching_metrics" where
  "metrics_reset m =
     m\<lparr>aggregated_requests := 0, aggregated_query_total := 0, aggregated_query_hit := 0,
       query_queue := []\<rparr>"

definition metrics_observe ::
  "prefix_cache_stats \<Rightarrow> prefix_caching_metrics \<Rightarrow> prefix_caching_metrics" where
  "metrics_observe st m0 =
     (let m = (if st_reset st then metrics_reset m0 else m0);
          m' = m\<lparr>query_queue := query_queue m @ [(st_requests st, st_queries st, st_hits st)],
                 aggregated_requests := aggregated_requests m + st_requests st,
                 aggregated_query_total := aggregated_query_total m + st_queries st,
                 aggregated_query_hit := aggregated_query_hit m + st_hits st\<rparr>
      in if aggregated_requests m' > max_recent_requests m'
         then (case query_queue m' of
                 [] \<Rightarrow> m'
               | (old_requests, old_queries, old_hits) # rest \<Rightarrow>
                   m'\<lparr>query_queue := rest,
                      aggregated_requests := aggregated_requests m' - old_requests,
                      aggregated_query_total := aggregated_query_total m' - old_queries,
                      aggregated_query_hit := aggregated_query_hit m' - old_hits\<rparr>)
         else m')"

text \<open>The hit rate as the exact fraction the code divides in floating point.\<close>

definition hit_rate :: "prefix_caching_metrics \<Rightarrow> int \<times> int" where
  "hit_rate m =
     (if aggregated_query_total m = 0 then (0, 1)
      else (aggregated_query_hit m, aggregated_query_total m))"

text \<open>The aggregates are the sums over the window, whatever was observed.\<close>

definition metrics_inv :: "prefix_caching_metrics \<Rightarrow> bool" where
  "metrics_inv m \<longleftrightarrow>
     aggregated_requests m = sum_list (map fst (query_queue m)) \<and>
     aggregated_query_total m = sum_list (map (fst \<circ> snd) (query_queue m)) \<and>
     aggregated_query_hit m = sum_list (map (snd \<circ> snd) (query_queue m))"

lemma metrics_inv_init: "metrics_inv (metrics_init n)"
  by (simp add: metrics_inv_def metrics_init_def)

lemma metrics_inv_reset: "metrics_inv (metrics_reset m)"
  by (simp add: metrics_inv_def metrics_reset_def)

lemma metrics_inv_observe:
  assumes "metrics_inv m"
  shows "metrics_inv (metrics_observe st m)"
proof -
  define m1 where "m1 = (if st_reset st then metrics_reset m else m)"
  have "metrics_inv m1" using assms by (simp add: m1_def metrics_inv_reset)
  then show ?thesis
    by (auto simp: metrics_observe_def Let_def m1_def [symmetric] metrics_inv_def
        split: list.splits simp: append_eq_Cons_conv)
qed

section \<open>What the chain of hashes says about the tokens\<close>

text \<open>The specification: one hash per full block, each over its parent's hash value.\<close>

fun hash_chain ::
  "int \<Rightarrow> hash_fn \<Rightarrow> int option \<Rightarrow> (int list \<times> extra_key list option) list \<Rightarrow> block_hash list" where
  "hash_chain nh hf parent [] = []"
| "hash_chain nh hf parent ((toks, ek) # xs) =
     (let b = hash_block_tokens nh hf parent toks ek
      in b # hash_chain nh hf (Some (hash_value b)) xs)"

definition token_block :: "request \<Rightarrow> int \<Rightarrow> nat \<Rightarrow> int list" where
  "token_block r bs k = py_slice (all_token_ids r) (int k * bs) (int k * bs + bs)"

definition num_full_blocks_of :: "request \<Rightarrow> int \<Rightarrow> nat" where
  "num_full_blocks_of r bs = nat (num_tokens r div bs)"

lemma length_hash_chain [simp]: "length (hash_chain nh hf p xs) = length xs"
  by (induction nh hf p xs rule: hash_chain.induct) (auto simp: Let_def)

lemma token_block_eq:
  "0 < bs \<Longrightarrow> token_block r bs k = take (nat bs) (drop (k * nat bs) (all_token_ids r))"
  by (simp add: token_block_def py_slice_nonneg nat_add_distrib nat_mult_distrib)

lemma token_block_full:
  assumes "0 < bs"
  shows "int (length (token_block r bs k)) < bs \<longleftrightarrow> num_full_blocks_of r bs \<le> k"
proof -
  have "k < num_full_blocks_of r bs \<longleftrightarrow> int k + 1 \<le> num_tokens r div bs"
    by (auto simp: num_full_blocks_of_def)
  also have "\<dots> \<longleftrightarrow> (int k + 1) * bs \<le> num_tokens r"
    using assms by (simp add: le_div_int_iff)
  also have "(int k + 1) * bs = int ((k + 1) * nat bs)" using assms by (simp add: algebra_simps)
  also have "int ((k + 1) * nat bs) \<le> num_tokens r \<longleftrightarrow> (k + 1) * nat bs \<le> length (all_token_ids r)"
    unfolding num_tokens_def by (rule of_nat_le_iff)
  also have "\<dots> \<longleftrightarrow> nat bs \<le> length (token_block r bs k)"
    using assms by (auto simp: token_block_eq min_def)
  finally show ?thesis using assms by auto
qed

lemma py_range_from_0:
  "0 < bs \<Longrightarrow> py_range 0 n bs = map (\<lambda>k. int k * bs) [0..<nat (cdiv n bs)]"
  by (simp add: py_range_def)

text \<open>The loop computes the chain of the remaining full blocks.\<close>

lemma hash_request_loop_chain:
  assumes "0 < bs" and "j \<le> num_full_blocks_of r bs" and "num_full_blocks_of r bs \<le> m"
    and "hash_request_loop nh hf bs r (map (\<lambda>k. int k * bs) [j..<m]) ek mmi parent acc = Ok hs"
  shows "\<exists>ks. length ks = num_full_blocks_of r bs - j
    \<and> hs = acc @ hash_chain nh hf parent (zip (map (token_block r bs) [j..<num_full_blocks_of r bs]) ks)
    \<and> (\<not> need_extra_keys r \<longrightarrow> ks = replicate (length ks) ek)"
  using assms(2-)
proof (induction "m - j" arbitrary: j ek mmi parent acc)
  case 0
  then have "num_full_blocks_of r bs = j" "[j..<m] = []" by simp_all
  with 0 show ?case by auto
next
  case (Suc d)
  then have jm: "j < m" by simp
  then have up: "[j..<m] = j # [Suc j..<m]" by (simp add: upt_conv_Cons)
  show ?case
  proof (cases "j < num_full_blocks_of r bs")
    case False
    then have "int (length (token_block r bs j)) < bs" by (simp add: token_block_full assms(1))
    with Suc.prems(3) False show ?thesis
      by (simp add: up token_block_def)
  next
    case True
    then have full: "\<not> int (length (token_block r bs j)) < bs"
      by (simp add: token_block_full assms(1))
    from Suc.prems(3) full obtain ek' mmi' where
      ek': "(if need_extra_keys r then generate_block_hash_extra_keys r (int j * bs) (int j * bs + bs) mmi
             else Ok (ek, mmi)) = Ok (ek', mmi')"
      and rest: "hash_request_loop nh hf bs r (map (\<lambda>k. int k * bs) [Suc j..<m]) ek' mmi'
          (Some (hash_value (hash_block_tokens nh hf parent (token_block r bs j) ek')))
          (acc @ [hash_block_tokens nh hf parent (token_block r bs j) ek']) = Ok hs"
      by (auto simp: up res_simps Let_def token_block_def simp del: upt_Suc)
    have "d = m - Suc j" using Suc.hyps(2) by simp
    moreover have "Suc j \<le> num_full_blocks_of r bs" using True by simp
    ultimately obtain ks where
      ks: "length ks = num_full_blocks_of r bs - Suc j"
      "hs = (acc @ [hash_block_tokens nh hf parent (token_block r bs j) ek']) @ hash_chain nh hf
          (Some (hash_value (hash_block_tokens nh hf parent (token_block r bs j) ek')))
          (zip (map (token_block r bs) [Suc j..<num_full_blocks_of r bs]) ks)"
      "\<not> need_extra_keys r \<longrightarrow> ks = replicate (length ks) ek'"
      using Suc.hyps(1) [OF _ _ Suc.prems(2) rest] by blast
    have "[j..<num_full_blocks_of r bs] = j # [Suc j..<num_full_blocks_of r bs]"
      using True by (simp add: upt_conv_Cons)
    with ks True ek' show ?thesis
      by (intro exI [of _ "ek' # ks"]) (auto simp: Let_def simp del: upt_Suc split: if_splits)
  qed
qed

lemma num_full_blocks_le_cdiv: "0 < bs \<Longrightarrow> num_full_blocks_of r bs \<le> nat (cdiv (num_tokens r) bs)"
  unfolding num_full_blocks_of_def by (intro nat_mono div_le_cdiv)

lemma hash_request_tokens_chain:
  assumes "0 < bs" and "hash_request_tokens nh hf bs r = Ok hs"
  obtains ks where "length ks = num_full_blocks_of r bs"
    and "hs = hash_chain nh hf None (zip (map (token_block r bs) [0..<num_full_blocks_of r bs]) ks)"
    and "\<not> need_extra_keys r \<Longrightarrow> ks = replicate (length ks) None"
proof -
  from assms have "hash_request_loop nh hf bs r
      (map (\<lambda>k. int k * bs) [0..<nat (cdiv (num_tokens r) bs)]) None 0 None [] = Ok hs"
    by (simp add: hash_request_tokens_def py_range_from_0)
  from hash_request_loop_chain [OF assms(1) _ num_full_blocks_le_cdiv [OF assms(1)] this]
  obtain ks where "length ks = num_full_blocks_of r bs - 0"
    "hs = [] @ hash_chain nh hf None (zip (map (token_block r bs) [0..<num_full_blocks_of r bs]) ks)"
    "\<not> need_extra_keys r \<longrightarrow> ks = replicate (length ks) None" by blast
  then show thesis by (intro that [of ks]) simp_all
qed

lemma hash_request_tokens_length:
  assumes "0 < bs" and "hash_request_tokens nh hf bs r = Ok hs"
  shows "length hs = num_full_blocks_of r bs"
  by (rule hash_request_tokens_chain [OF assms]) simp

text \<open>Text-only requests without LoRA and salt always get their hashes.\<close>

lemma hash_request_loop_plain:
  "\<not> need_extra_keys r \<Longrightarrow> \<exists>hs. hash_request_loop nh hf bs r starts ek mmi parent acc = Ok hs"
  by (induction starts arbitrary: ek mmi parent acc) (auto simp: Let_def)

text \<open>The value at one position of a chain, from the value before it.\<close>

lemma hash_chain_nth:
  "i < length xs \<Longrightarrow> hash_chain nh hf p xs ! i =
     hash_block_tokens nh hf (if i = 0 then p else Some (hash_value (hash_chain nh hf p xs ! (i - 1))))
       (fst (xs ! i)) (snd (xs ! i))"
proof (induction nh hf p xs arbitrary: i rule: hash_chain.induct)
  case (1 nh hf parent)
  then show ?case by simp
next
  case (2 nh hf parent toks ek xs)
  show ?case
  proof (cases i)
    case 0
    then show ?thesis by (simp add: Let_def)
  next
    case (Suc k)
    with 2 show ?thesis by (cases k) (simp_all add: Let_def)
  qed
qed

definition good_hash :: "int \<Rightarrow> hash_fn \<Rightarrow> bool" where
  "good_hash nh hf \<longleftrightarrow> inj hf \<and> 0 \<notin> range hf \<and> nh \<notin> range hf"

lemma hash_chain_value:
  assumes "i < length xs"
  shows "hash_value (hash_chain nh hf None xs ! i) \<in> range hf"
  by (simp add: hash_chain_nth [OF assms] hash_block_tokens_def)

lemma good_hash_parent:
  assumes "good_hash nh hf" and "parent_or_none nh p = parent_or_none nh q"
    and "set_option p \<subseteq> range hf" and "set_option q \<subseteq> range hf"
  shows "p = q"
  using assms by (cases p; cases q) (auto simp: good_hash_def parent_or_none_def split: if_splits)

lemma hash_chain_step_inj:
  assumes good: "good_hash nh hf" and i: "i < length xs" and j: "j < length ys"
    and eq: "hash_value (hash_chain nh hf None xs ! i) = hash_value (hash_chain nh hf None ys ! j)"
  shows "xs ! i = ys ! j" and "(i = 0) = (j = 0)"
    and "i \<noteq> 0 \<Longrightarrow>
      hash_value (hash_chain nh hf None xs ! (i - 1)) = hash_value (hash_chain nh hf None ys ! (j - 1))"
proof -
  define p where "p = (if i = 0 then None else Some (hash_value (hash_chain nh hf None xs ! (i - 1))))"
  define q where "q = (if j = 0 then None else Some (hash_value (hash_chain nh hf None ys ! (j - 1))))"
  have vi: "hash_value (hash_chain nh hf None xs ! i) = hf (parent_or_none nh p, fst (xs ! i), snd (xs ! i))"
    by (subst hash_chain_nth [OF i]) (simp add: hash_block_tokens_def p_def)
  have vj: "hash_value (hash_chain nh hf None ys ! j) = hf (parent_or_none nh q, fst (ys ! j), snd (ys ! j))"
    by (subst hash_chain_nth [OF j]) (simp add: hash_block_tokens_def q_def)
  have both: "parent_or_none nh p = parent_or_none nh q \<and> xs ! i = ys ! j"
    using eq good unfolding vi vj by (simp add: good_hash_def inj_eq prod_eq_iff)
  then show "xs ! i = ys ! j" by simp
  have "set_option p \<subseteq> range hf"
    using i hash_chain_value [of "i - 1" xs nh hf] by (auto simp: p_def)
  moreover have "set_option q \<subseteq> range hf"
    using j hash_chain_value [of "j - 1" ys nh hf] by (auto simp: q_def)
  ultimately have "p = q" using good_hash_parent good both by blast
  then show "(i = 0) = (j = 0)"
    and "i \<noteq> 0 \<Longrightarrow>
      hash_value (hash_chain nh hf None xs ! (i - 1)) = hash_value (hash_chain nh hf None ys ! (j - 1))"
    by (auto simp: p_def q_def split: if_splits)
qed

lemma hash_chain_inj:
  assumes good: "good_hash nh hf"
  shows "i < length xs \<Longrightarrow> j < length ys \<Longrightarrow>
    hash_value (hash_chain nh hf None xs ! i) = hash_value (hash_chain nh hf None ys ! j) \<Longrightarrow>
    i = j \<and> take (Suc i) xs = take (Suc i) ys"
proof (induction i arbitrary: j)
  case (0 j)
  with hash_chain_step_inj [OF good 0] have "j = 0" "xs ! 0 = ys ! 0" by auto
  with 0 show ?case by (simp add: take_Suc_conv_app_nth)
next
  case (Suc i j)
  note step = hash_chain_step_inj [OF good Suc.prems]
  from step(2) obtain k where k: "j = Suc k" by (cases j) auto
  have "i = k \<and> take (Suc i) xs = take (Suc i) ys"
    by (rule Suc.IH) (use Suc.prems step(3) k in simp_all)
  with step(1) k Suc.prems show ?case
    by (metis take_Suc_conv_app_nth)
qed

text \<open>Equal blocks up to some index are an equal token prefix.\<close>

lemma concat_token_blocks:
  assumes "0 < bs" and "n \<le> num_full_blocks_of r bs"
  shows "concat (map (token_block r bs) [0..<n]) = take (n * nat bs) (all_token_ids r)"
proof (induction n)
  case 0
  show ?case by simp
next
  case (Suc n)
  then show ?case using assms(1) take_add [of "n * nat bs" "nat bs" "all_token_ids r"]
    by (simp add: token_block_eq add.commute)
qed

lemma take_blocks_eq:
  assumes "0 < bs" and "n \<le> num_full_blocks_of r bs" and "n \<le> num_full_blocks_of r' bs"
    and "map (token_block r bs) [0..<n] = map (token_block r' bs) [0..<n]"
  shows "take (n * nat bs) (all_token_ids r) = take (n * nat bs) (all_token_ids r')"
  using concat_token_blocks [OF assms(1,2)] concat_token_blocks [OF assms(1,3)] assms(4) by simp

lemma token_block_of_prefix:
  assumes "0 < bs" and "take (n * nat bs) (all_token_ids r) = take (n * nat bs) (all_token_ids r')"
    and "k < n"
  shows "token_block r bs k = token_block r' bs k"
proof -
  have "nat bs + k * nat bs \<le> n * nat bs"
    using assms(3) mult_le_mono1 [of "Suc k" n "nat bs"] by simp
  then have "take (nat bs + k * nat bs) (all_token_ids r) = take (nat bs + k * nat bs) (all_token_ids r')"
    using assms(2) by (metis min.absorb1 take_take)
  then show ?thesis using assms(1) by (simp add: token_block_eq take_drop)
qed

lemma hash_chain_take: "take n (hash_chain nh hf p xs) = hash_chain nh hf p (take n xs)"
proof (induction nh hf p xs arbitrary: n rule: hash_chain.induct)
  case (2 nh hf parent toks ek xs)
  then show ?case by (cases n) (simp_all add: Let_def)
qed simp

text \<open>
  C6.  Soundness of prefix caching: with a collision-free hash function that never
  produces \<open>0\<close> or the seed, two requests whose block hashes agree at some positions
  agree on the position and on every token up to the end of that block.  So a cached
  block found by its hash holds the keys and values of exactly the requested prefix.
\<close>

theorem prefix_hash_sound:
  assumes "good_hash nh hf" and "0 < bs"
    and "hash_request_tokens nh hf bs r1 = Ok h1" and "hash_request_tokens nh hf bs r2 = Ok h2"
    and "i < length h1" and "j < length h2" and "h1 ! i = h2 ! j"
  shows "i = j \<and> take (Suc i * nat bs) (all_token_ids r1) = take (Suc i * nat bs) (all_token_ids r2)"
proof -
  obtain k1 where k1: "length k1 = num_full_blocks_of r1 bs"
    and c1: "h1 = hash_chain nh hf None (zip (map (token_block r1 bs) [0..<num_full_blocks_of r1 bs]) k1)"
    by (rule hash_request_tokens_chain [OF assms(2,3)]) blast
  obtain k2 where k2: "length k2 = num_full_blocks_of r2 bs"
    and c2: "h2 = hash_chain nh hf None (zip (map (token_block r2 bs) [0..<num_full_blocks_of r2 bs]) k2)"
    by (rule hash_request_tokens_chain [OF assms(2,4)]) blast
  let ?x1 = "zip (map (token_block r1 bs) [0..<num_full_blocks_of r1 bs]) k1"
  let ?x2 = "zip (map (token_block r2 bs) [0..<num_full_blocks_of r2 bs]) k2"
  have len: "Suc i \<le> num_full_blocks_of r1 bs" "Suc j \<le> num_full_blocks_of r2 bs"
    using assms(5,6) k1 k2 by (simp_all add: c1 c2)
  have ij: "i = j \<and> take (Suc i) ?x1 = take (Suc i) ?x2"
    by (rule hash_chain_inj [OF assms(1)]) (use assms(5-7) in \<open>simp_all add: c1 c2\<close>)
  then have "map fst (take (Suc i) ?x1) = map fst (take (Suc i) ?x2)" by metis
  then have "map (token_block r1 bs) [0..<Suc i] = map (token_block r2 bs) [0..<Suc i]"
    using len ij k1 k2 by (simp add: take_map take_zip take_upt del: upt_Suc map_eq_conv)
  with ij len assms(2) show ?thesis by (intro conjI take_blocks_eq) auto
qed

definition sample_request :: "string \<Rightarrow> int list \<Rightarrow> request" where
  "sample_request rid toks =
     \<lparr>request_id = rid, client_index = 0, priority = 0,
      sampling = Some \<lparr>sp_max_tokens = Some 16, ignore_eos = False, stop_token_ids = None,
                       prompt_logprobs = None, logprobs = None, guided_decoding = None,
                       extra_args = None\<rparr>,
      pooling = None, eos_token_id = Some 2, lora = None, arrival_time = 0, status = WAITING,
      req_events = [], stop_reason = None, kv_transfer_params = None, max_tokens = 16,
      prompt_token_ids = toks, output_token_ids = [], all_token_ids = toks,
      num_output_placeholders = 0, spec_token_ids = [], num_computed_tokens = 0,
      cache_salt = None, mm_positions = [], mm_inputs = [], mm_hashes = [],
      num_cached_tokens = -1, num_nans_in_logits = 0\<rparr>"

text \<open>A hash function without collisions: a numbering of all inputs, shifted past zero.\<close>

definition count_hash :: hash_fn where
  "count_hash x = int (to_nat x) + 1"

lemma count_hash_good: "good_hash (-1) count_hash"
  by (auto simp: good_hash_def count_hash_def inj_def)

lemma prefix_hash_sound_witness:
  "\<exists>h1 h2. hash_request_tokens (-1) count_hash 2 (sample_request ''a'' [7, 8, 9, 10]) = Ok h1
     \<and> hash_request_tokens (-1) count_hash 2 (sample_request ''b'' [7, 8, 5]) = Ok h2
     \<and> take 2 [7::int, 8, 9, 10] = take 2 [7, 8, 5] \<and> h1 ! 0 = h2 ! 0"
proof -
  let ?r1 = "sample_request ''a'' [7, 8, 9, 10]" and ?r2 = "sample_request ''b'' [7, 8, 5]"
  have plain: "\<not> need_extra_keys ?r1" "\<not> need_extra_keys ?r2"
    by (simp_all add: need_extra_keys_def sample_request_def)
  obtain h1 h2 where h: "hash_request_tokens (-1) count_hash 2 ?r1 = Ok h1"
      "hash_request_tokens (-1) count_hash 2 ?r2 = Ok h2"
    using hash_request_loop_plain [OF plain(1)] hash_request_loop_plain [OF plain(2)]
    by (fastforce simp: hash_request_tokens_def)
  have eq: "h1 ! 0 = h2 ! 0" and len: "0 < length h1" "0 < length h2"
    using h plain
    by (auto simp: hash_request_tokens_def py_range_def cdiv_def num_tokens_def sample_request_def
        py_slice_def clamp_index_def Let_def upt_rec nat_numeral need_extra_keys_def)
  from prefix_hash_sound [OF count_hash_good _ h len eq] h eq
  show ?thesis by (intro exI [of _ h1] exI [of _ h2]) (simp add: sample_request_def)
qed

text \<open>
  C18.  Completeness of prefix caching: two requests without extra keys that share a token
  prefix of \<open>n\<close> full blocks get the same first \<open>n\<close> block hashes, whatever the hash
  function and whatever follows.
\<close>

theorem shared_prefix_same_hashes:
  assumes "0 < bs" and "\<not> need_extra_keys r1" and "\<not> need_extra_keys r2"
    and "hash_request_tokens nh hf bs r1 = Ok h1" and "hash_request_tokens nh hf bs r2 = Ok h2"
    and "n \<le> num_full_blocks_of r1 bs" and "n \<le> num_full_blocks_of r2 bs"
    and "take (n * nat bs) (all_token_ids r1) = take (n * nat bs) (all_token_ids r2)"
  shows "take n h1 = take n h2"
proof -
  obtain k1 where k1: "length k1 = num_full_blocks_of r1 bs" "k1 = replicate (length k1) None"
    and c1: "h1 = hash_chain nh hf None (zip (map (token_block r1 bs) [0..<num_full_blocks_of r1 bs]) k1)"
    by (rule hash_request_tokens_chain [OF assms(1,4)]) (use assms(2) in blast)
  obtain k2 where k2: "length k2 = num_full_blocks_of r2 bs" "k2 = replicate (length k2) None"
    and c2: "h2 = hash_chain nh hf None (zip (map (token_block r2 bs) [0..<num_full_blocks_of r2 bs]) k2)"
    by (rule hash_request_tokens_chain [OF assms(1,5)]) (use assms(3) in blast)
  have "map (token_block r1 bs) [0..<n] = map (token_block r2 bs) [0..<n]"
    using token_block_of_prefix [OF assms(1,8)] by simp
  moreover have "take n k1 = take n k2"
    using assms(6,7) k1 k2 by (metis min.absorb1 take_replicate)
  ultimately show ?thesis
    using assms(6,7) by (simp add: c1 c2 hash_chain_take take_zip take_map take_upt del: map_eq_conv)
qed

lemma shared_prefix_same_hashes_witness:
  "\<exists>h1 h2. hash_request_tokens 3 (\<lambda>(p, ts, ek). p + sum_list ts) 2 (sample_request ''a'' [7, 8, 9, 10]) = Ok h1
     \<and> hash_request_tokens 3 (\<lambda>(p, ts, ek). p + sum_list ts) 2 (sample_request ''b'' [7, 8, 5]) = Ok h2
     \<and> take 1 h1 = take 1 h2 \<and> length h1 = 2"
proof -
  let ?r1 = "sample_request ''a'' [7, 8, 9, 10]" and ?r2 = "sample_request ''b'' [7, 8, 5]"
  let ?f = "\<lambda>(p, ts, ek). p + sum_list ts"
  have plain: "\<not> need_extra_keys ?r1" "\<not> need_extra_keys ?r2"
    by (simp_all add: need_extra_keys_def sample_request_def)
  have h: "\<exists>h1. hash_request_tokens 3 ?f 2 ?r1 = Ok h1 \<and> length h1 = 2"
      "\<exists>h2. hash_request_tokens 3 ?f 2 ?r2 = Ok h2"
    by (simp_all add: hash_request_tokens_def py_range_def cdiv_def num_tokens_def sample_request_def
        py_slice_def clamp_index_def Let_def upt_rec nat_numeral need_extra_keys_def)
  have n: "1 \<le> num_full_blocks_of ?r1 2" "1 \<le> num_full_blocks_of ?r2 2"
    by (simp_all add: num_full_blocks_of_def num_tokens_def sample_request_def)
  from h obtain h1 h2 where e: "hash_request_tokens 3 ?f 2 ?r1 = Ok h1" "length h1 = 2"
      "hash_request_tokens 3 ?f 2 ?r2 = Ok h2" by blast
  have "take 1 h1 = take 1 h2"
    by (rule shared_prefix_same_hashes [OF _ plain e(1,3) n]) (simp_all add: sample_request_def)
  with e show ?thesis by blast
qed

end
