(* ===== verification/Free_Block_Queue.thy ===== *)
theory Free_Block_Queue
  imports Block_Hashing
begin

text \<open>
  \<open>KVCacheBlock\<close> and \<open>FreeKVCacheBlockQueue\<close> of \<open>vllm/v1/core/kv_cache_utils.py\<close>.

  The queue is a doubly linked list threaded through the block objects themselves, between
  two sentinel objects.  Objects have identities (\<open>blk_ref\<close>) and live in a heap; every
  assignment to an attribute is a heap update, in the order of the source, so aliasing is
  as in the program.  The specification is a plain list of references; the relation
  \<open>free_list\<close> says which list a heap represents, and every operation is shown to act
  on that list.  The laws are collected in the locale \<open>block_queue\<close>, which the pool uses.
\<close>

section \<open>Blocks and the heap\<close>

datatype blk_ref = Blk nat | FakeHead | FakeTail

record kv_block =
  block_id :: int
  ref_cnt :: int
  blk_hash :: "block_hash_gid option"
  prev_free_block :: "blk_ref option"
  next_free_block :: "blk_ref option"
  is_null :: bool

type_synonym block_heap = "blk_ref \<Rightarrow> kv_block"

text \<open>The dataclass constructor with its defaults.\<close>

definition KVCacheBlock_init :: "int \<Rightarrow> kv_block" where
  "KVCacheBlock_init i =
     \<lparr>block_id = i, ref_cnt = 0, blk_hash = None, prev_free_block = None,
      next_free_block = None, is_null = False\<rparr>"

record free_queue =
  heap :: block_heap
  num_free_blocks :: int

text \<open>Attribute assignments.\<close>

definition set_prev :: "blk_ref \<Rightarrow> blk_ref option \<Rightarrow> free_queue \<Rightarrow> free_queue" where
  "set_prev r v q = q\<lparr>heap := (heap q)(r := (heap q r)\<lparr>prev_free_block := v\<rparr>)\<rparr>"

definition set_next :: "blk_ref \<Rightarrow> blk_ref option \<Rightarrow> free_queue \<Rightarrow> free_queue" where
  "set_next r v q = q\<lparr>heap := (heap q)(r := (heap q r)\<lparr>next_free_block := v\<rparr>)\<rparr>"

definition set_ref_cnt :: "blk_ref \<Rightarrow> int \<Rightarrow> free_queue \<Rightarrow> free_queue" where
  "set_ref_cnt r v q = q\<lparr>heap := (heap q)(r := (heap q r)\<lparr>ref_cnt := v\<rparr>)\<rparr>"

text \<open>The \<open>block_hash\<close> setter asserts that no hash is set; \<open>reset_hash\<close> clears it.\<close>

definition set_block_hash :: "blk_ref \<Rightarrow> block_hash_gid \<Rightarrow> free_queue \<Rightarrow> free_queue res" where
  "set_block_hash r h q =
     rbind (py_assert (blk_hash (heap q r) = None)) (\<lambda>_.
     Ok (q\<lparr>heap := (heap q)(r := (heap q r)\<lparr>blk_hash := Some h\<rparr>)\<rparr>))"

definition reset_hash :: "blk_ref \<Rightarrow> free_queue \<Rightarrow> free_queue" where
  "reset_hash r q = q\<lparr>heap := (heap q)(r := (heap q r)\<lparr>blk_hash := None\<rparr>)\<rparr>"

section \<open>Operations of the queue\<close>

text \<open>The constructor: first the links between neighbours, then the two sentinels.\<close>

fun init_links :: "blk_ref list \<Rightarrow> nat list \<Rightarrow> free_queue \<Rightarrow> free_queue" where
  "init_links blocks [] q = q"
| "init_links blocks (i # is) q =
     (let q1 = (if i > 0 then set_prev (blocks ! i) (Some (blocks ! (i - 1))) q else q);
          q2 = (if i + 1 < length blocks
                then set_next (blocks ! i) (Some (blocks ! (i + 1))) q1 else q1)
      in init_links blocks is q2)"

definition FreeKVCacheBlockQueue_init :: "block_heap \<Rightarrow> blk_ref list \<Rightarrow> free_queue" where
  "FreeKVCacheBlockQueue_init h blocks =
     (let q0 = \<lparr>heap = h, num_free_blocks = int (length blocks)\<rparr>;
          q1 = init_links blocks [0..<length blocks] q0;
          q2 = q1\<lparr>heap := (heap q1)(FakeHead := KVCacheBlock_init (-1),
                                   FakeTail := KVCacheBlock_init (-1))\<rparr>
      in if length blocks > 0
         then set_next (last blocks) (Some FakeTail)
                (set_prev FakeTail (Some (last blocks))
                  (set_prev (hd blocks) (Some FakeHead)
                    (set_next FakeHead (Some (hd blocks)) q2)))
         else set_prev FakeTail (Some FakeHead) (set_next FakeHead (Some FakeTail) q2))"

definition popleft :: "free_queue \<Rightarrow> (blk_ref \<times> free_queue) res" where
  "popleft q =
     (let first = next_free_block (heap q FakeHead) in
      if first = Some FakeTail \<or> first = None
      then (if num_free_blocks q = 0 then Err ValueError else Err AssertionError)
      else (case first of
              None \<Rightarrow> Err ValueError
            | Some b \<Rightarrow>
                (case next_free_block (heap q b) of
                   None \<Rightarrow> Err RuntimeError
                 | Some nx \<Rightarrow>
                     let q1 = set_next FakeHead (Some nx) q;
                         q2 = set_prev nx (Some FakeHead) q1;
                         q3 = set_prev b None (set_next b None q2)
                     in Ok (b, q3\<lparr>num_free_blocks := num_free_blocks q3 - 1\<rparr>))))"

fun popleft_n_loop ::
  "nat \<Rightarrow> blk_ref option \<Rightarrow> blk_ref list \<Rightarrow> free_queue
   \<Rightarrow> (blk_ref list \<times> blk_ref option \<times> free_queue) res" where
  "popleft_n_loop 0 cur ret q = Ok (ret, cur, q)"
| "popleft_n_loop (Suc n) cur ret q =
     (case cur of
        None \<Rightarrow> Err AssertionError
      | Some c \<Rightarrow>
          let nx = next_free_block (heap q c);
              q' = set_next c None (set_prev c None q)
          in popleft_n_loop n nx (ret @ [c]) q')"

definition popleft_n :: "int \<Rightarrow> free_queue \<Rightarrow> (blk_ref list \<times> free_queue) res" where
  "popleft_n n q =
     (if n = 0 then Ok ([], q)
      else
        rbind (py_assert (num_free_blocks q \<ge> n)) (\<lambda>_.
        let q0 = q\<lparr>num_free_blocks := num_free_blocks q - n\<rparr> in
        rbind (popleft_n_loop (nat n) (next_free_block (heap q0 FakeHead)) [] q0)
          (\<lambda>(ret, cur, q1).
             case cur of
               None \<Rightarrow> Ok (ret, q1)
             | Some c \<Rightarrow> Ok (ret, set_prev c (Some FakeHead) (set_next FakeHead (Some c) q1)))))"

definition queue_remove :: "blk_ref \<Rightarrow> free_queue \<Rightarrow> free_queue res" where
  "queue_remove b q =
     (case prev_free_block (heap q b) of
        None \<Rightarrow> Err RuntimeError
      | Some p \<Rightarrow>
          (case next_free_block (heap q b) of
             None \<Rightarrow> Err RuntimeError
           | Some n \<Rightarrow>
               let q1 = set_next p (Some n) q;
                   q2 = set_prev n (Some p) q1;
                   q3 = set_next b None (set_prev b None q2)
               in Ok (q3\<lparr>num_free_blocks := num_free_blocks q3 - 1\<rparr>)))"

definition queue_append :: "blk_ref \<Rightarrow> free_queue \<Rightarrow> free_queue res" where
  "queue_append b q =
     (case prev_free_block (heap q FakeTail) of
        None \<Rightarrow> Err RuntimeError
      | Some l \<Rightarrow>
          let q1 = set_next l (Some b) q;
              q2 = set_prev b (Some l) q1;
              q3 = set_next b (Some FakeTail) q2;
              q4 = set_prev FakeTail (Some b) q3
          in Ok (q4\<lparr>num_free_blocks := num_free_blocks q4 + 1\<rparr>))"

fun append_n_loop :: "blk_ref list \<Rightarrow> blk_ref \<Rightarrow> free_queue \<Rightarrow> blk_ref \<times> free_queue" where
  "append_n_loop [] l q = (l, q)"
| "append_n_loop (b # bs) l q = append_n_loop bs b (set_next l (Some b) (set_prev b (Some l) q))"

definition append_n :: "blk_ref list \<Rightarrow> free_queue \<Rightarrow> free_queue res" where
  "append_n bs q =
     (if length bs = 0 then Ok q
      else
        let q0 = q\<lparr>num_free_blocks := num_free_blocks q + int (length bs)\<rparr> in
        (case prev_free_block (heap q0 FakeTail) of
           None \<Rightarrow> Err AssertionError
         | Some l \<Rightarrow>
             let (l', q1) = append_n_loop bs l q0
             in Ok (set_prev FakeTail (Some l') (set_next l' (Some FakeTail) q1))))"

text \<open>
  The walk of \<open>get_all_free_blocks\<close> ends at the first block without successor; on a
  damaged list it may not end, so it is an \<open>option\<close>.
\<close>

partial_function (option) walk_free ::
  "block_heap \<Rightarrow> blk_ref \<Rightarrow> blk_ref list \<Rightarrow> blk_ref list option" where
  "walk_free h cur ret =
     (case next_free_block (h cur) of
        None \<Rightarrow> Some ret
      | Some nx \<Rightarrow> walk_free h nx (ret @ [cur]))"

definition get_all_free_blocks :: "free_queue \<Rightarrow> blk_ref list option res" where
  "get_all_free_blocks q =
     (case next_free_block (heap q FakeHead) of
        None \<Rightarrow> Err RuntimeError
      | Some c \<Rightarrow> Ok (walk_free (heap q) c []))"

section \<open>The list a heap represents\<close>

text \<open>\<open>dseg h p xs t\<close>: from \<open>p\<close>, the links run through \<open>xs\<close> to \<open>t\<close>, both ways.\<close>

fun dseg :: "block_heap \<Rightarrow> blk_ref \<Rightarrow> blk_ref list \<Rightarrow> blk_ref \<Rightarrow> bool" where
  "dseg h p [] t \<longleftrightarrow> next_free_block (h p) = Some t \<and> prev_free_block (h t) = Some p"
| "dseg h p (x # xs) t \<longleftrightarrow>
     next_free_block (h p) = Some x \<and> prev_free_block (h x) = Some p \<and> dseg h x xs t"

definition is_block :: "blk_ref \<Rightarrow> bool" where
  "is_block r \<longleftrightarrow> r \<noteq> FakeHead \<and> r \<noteq> FakeTail"

definition free_list :: "free_queue \<Rightarrow> blk_ref list \<Rightarrow> bool" where
  "free_list q xs \<longleftrightarrow>
     distinct xs \<and> (\<forall>x \<in> set xs. is_block x) \<and> dseg (heap q) FakeHead xs FakeTail \<and>
     next_free_block (heap q FakeTail) = None \<and>
     (\<forall>r. is_block r \<and> r \<notin> set xs \<longrightarrow>
        prev_free_block (heap q r) = None \<and> next_free_block (heap q r) = None) \<and>
     num_free_blocks q = int (length xs)"

text \<open>What the queue operations never change.\<close>

definition same_payload :: "free_queue \<Rightarrow> free_queue \<Rightarrow> bool" where
  "same_payload q q' \<longleftrightarrow>
     (\<forall>r. is_block r \<longrightarrow>
        block_id (heap q' r) = block_id (heap q r) \<and> ref_cnt (heap q' r) = ref_cnt (heap q r) \<and>
        blk_hash (heap q' r) = blk_hash (heap q r) \<and> is_null (heap q' r) = is_null (heap q r))"

named_theorems link_simps \<open>reading the heap after an attribute assignment\<close>

lemma heap_set_next [link_simps]:
  "heap (set_next r v q) x = (if x = r then (heap q r)\<lparr>next_free_block := v\<rparr> else heap q x)"
  by (simp add: set_next_def)

lemma heap_set_prev [link_simps]:
  "heap (set_prev r v q) x = (if x = r then (heap q r)\<lparr>prev_free_block := v\<rparr> else heap q x)"
  by (simp add: set_prev_def)

lemma num_set_links [link_simps]:
  "num_free_blocks (set_next r v q) = num_free_blocks q"
  "num_free_blocks (set_prev r v q) = num_free_blocks q"
  by (simp_all add: set_next_def set_prev_def)

lemma same_payload_refl [simp]: "same_payload q q"
  by (simp add: same_payload_def)

lemma same_payload_trans: "same_payload q q' \<Longrightarrow> same_payload q' q'' \<Longrightarrow> same_payload q q''"
  by (simp add: same_payload_def)

lemma same_payload_set [simp]:
  "same_payload q (set_next r v q') = same_payload q q'"
  "same_payload q (set_prev r v q') = same_payload q q'"
  "same_payload q (q'\<lparr>num_free_blocks := n\<rparr>) = same_payload q q'"
  by (auto simp: same_payload_def link_simps)

lemma same_payload_num [simp]: "same_payload (q\<lparr>num_free_blocks := n\<rparr>) q' = same_payload q q'"
  by (simp add: same_payload_def)

text \<open>Segments compose, and depend only on the links inside them.\<close>

lemma dseg_append: "dseg h p (xs @ y # ys) t \<longleftrightarrow> dseg h p xs y \<and> dseg h y ys t"
  by (induction xs arbitrary: p) auto

lemma dseg_cong:
  assumes "\<And>x. x \<in> insert p (set xs) \<Longrightarrow> next_free_block (h' x) = next_free_block (h x)"
    and "\<And>x. x \<in> insert t (set xs) \<Longrightarrow> prev_free_block (h' x) = prev_free_block (h x)"
  shows "dseg h' p xs t = dseg h p xs t"
  using assms by (induction xs arbitrary: p) auto

lemma dseg_first: "dseg h p xs t \<Longrightarrow> next_free_block (h p) = Some (hd (xs @ [t]))"
  by (cases xs) auto

lemma dseg_last: "dseg h p xs t \<Longrightarrow> prev_free_block (h t) = Some (last (p # xs))"
  by (induction xs arbitrary: p) auto

lemma free_listD:
  assumes "free_list q xs"
  shows "distinct xs" and "x \<in> set xs \<Longrightarrow> is_block x" and "dseg (heap q) FakeHead xs FakeTail"
    and "next_free_block (heap q FakeTail) = None" and "num_free_blocks q = int (length xs)"
    and "is_block r \<Longrightarrow> r \<notin> set xs \<Longrightarrow> prev_free_block (heap q r) = None"
    and "is_block r \<Longrightarrow> r \<notin> set xs \<Longrightarrow> next_free_block (heap q r) = None"
    and "FakeHead \<notin> set xs" and "FakeTail \<notin> set xs"
  using assms by (auto simp: free_list_def is_block_def)

lemma is_block_neq [simp]: "is_block x \<Longrightarrow> x \<noteq> FakeHead" "is_block x \<Longrightarrow> x \<noteq> FakeTail"
  "is_block x \<Longrightarrow> FakeHead \<noteq> x" "is_block x \<Longrightarrow> FakeTail \<noteq> x"
  "\<not> is_block FakeHead" "\<not> is_block FakeTail" "is_block (Blk n)"
  by (auto simp: is_block_def)

section \<open>Each operation acts on the represented list\<close>

lemma popleft_spec:
  assumes "free_list q (x # xs)"
  shows "\<exists>q'. popleft q = Ok (x, q') \<and> free_list q' xs \<and> same_payload q q'"
proof -
  note inv = free_listD [OF assms]
  define nx where "nx = hd (xs @ [FakeTail])"
  have x: "is_block x" "x \<notin> set xs" and seg: "dseg (heap q) x xs FakeTail"
    and head: "next_free_block (heap q FakeHead) = Some x"
    using inv by auto
  then have next_x: "next_free_block (heap q x) = Some nx" by (simp add: dseg_first nx_def)
  have nx: "nx = FakeTail \<or> nx \<in> set xs" by (cases xs) (auto simp: nx_def)
  define q' where "q' = (set_prev x None (set_next x None
      (set_prev nx (Some FakeHead) (set_next FakeHead (Some nx) q))))
      \<lparr>num_free_blocks := num_free_blocks q - 1\<rparr>"
  have "popleft q = Ok (x, q')"
    using head x next_x by (simp add: popleft_def q'_def link_simps Let_def)
  moreover have "dseg (heap q') FakeHead xs FakeTail"
  proof (cases xs)
    case Nil
    then show ?thesis using x by (simp add: q'_def link_simps nx_def)
  next
    case (Cons y ys)
    have y: "is_block y" using inv(2) [of y] Cons by simp
    have "dseg (heap q') y ys FakeTail = dseg (heap q) y ys FakeTail"
      using inv(1,8,9) x y Cons by (intro dseg_cong) (auto simp: q'_def link_simps nx_def)
    with seg Cons x y show ?thesis by (auto simp: q'_def link_simps nx_def)
  qed
  moreover have "\<forall>r. is_block r \<and> r \<notin> set xs \<longrightarrow>
      prev_free_block (heap q' r) = None \<and> next_free_block (heap q' r) = None"
    using inv(6,7) nx by (auto simp: q'_def link_simps)
  moreover have "next_free_block (heap q' FakeTail) = None"
    using inv(4) x by (auto simp: q'_def link_simps)
  moreover have "distinct xs" "\<forall>y \<in> set xs. is_block y" "num_free_blocks q' = int (length xs)"
    using inv(1,2,5) by (auto simp: q'_def)
  ultimately have "popleft q = Ok (x, q')" "free_list q' xs" by (simp_all add: free_list_def)
  moreover have "same_payload q q'" by (simp add: q'_def)
  ultimately show ?thesis by blast
qed

lemma popleft_empty: "free_list q [] \<Longrightarrow> popleft q = Err ValueError"
  by (simp add: popleft_def free_list_def Let_def)

text \<open>
  \<open>popleft_n\<close> detaches blocks without touching the head; \<open>detached q xs ys\<close> is the state in
  the middle of its loop: the list still starts at the old head, \<open>xs\<close> are loose, \<open>ys\<close> follow.
\<close>

lemma popleft_n_loop_spec:
  assumes "distinct (xs @ ys)" and "\<forall>x \<in> set (xs @ ys). is_block x"
    and "cur = Some (hd (xs @ ys @ [FakeTail]))"
    and "xs \<noteq> [] \<Longrightarrow> dseg (heap q) (hd xs) (tl xs @ ys) FakeTail"
  shows "\<exists>q'. popleft_n_loop (length xs) cur ret q = Ok (ret @ xs, Some (hd (ys @ [FakeTail])), q')
    \<and> (\<forall>r. r \<notin> set xs \<longrightarrow> heap q' r = heap q r)
    \<and> (\<forall>r \<in> set xs. prev_free_block (heap q' r) = None \<and> next_free_block (heap q' r) = None)
    \<and> num_free_blocks q' = num_free_blocks q \<and> same_payload q q'"
  using assms
proof (induction xs arbitrary: cur ret q)
  case Nil
  then show ?case by simp
next
  case (Cons x xs)
  define q1 where "q1 = set_next x None (set_prev x None q)"
  have seg: "dseg (heap q) x (xs @ ys) FakeTail" using Cons.prems(4) by simp
  then have nx: "next_free_block (heap q x) = Some (hd (xs @ ys @ [FakeTail]))"
    using dseg_first by fastforce
  have "xs \<noteq> [] \<Longrightarrow> dseg (heap q1) (hd xs) (tl xs @ ys) FakeTail"
  proof -
    assume "xs \<noteq> []"
    then obtain z zs where z: "xs = z # zs" by (cases xs) auto
    have "dseg (heap q1) z (zs @ ys) FakeTail = dseg (heap q) z (zs @ ys) FakeTail"
      using Cons.prems(1,2) z by (intro dseg_cong) (auto simp: q1_def link_simps)
    with seg z show ?thesis by simp
  qed
  with Cons.IH [of "Some (hd (xs @ ys @ [FakeTail]))" q1 "ret @ [x]"] Cons.prems obtain q' where q':
    "popleft_n_loop (length xs) (Some (hd (xs @ ys @ [FakeTail]))) (ret @ [x]) q1
       = Ok ((ret @ [x]) @ xs, Some (hd (ys @ [FakeTail])), q')"
    "\<forall>r. r \<notin> set xs \<longrightarrow> heap q' r = heap q1 r"
    "\<forall>r \<in> set xs. prev_free_block (heap q' r) = None \<and> next_free_block (heap q' r) = None"
    "num_free_blocks q' = num_free_blocks q1" "same_payload q1 q'"
    by auto
  have "same_payload q q'" using q'(5) by (rule same_payload_trans [rotated]) (simp add: q1_def)
  with q' Cons.prems nx show ?case
    by (intro exI [of _ q']) (auto simp: q1_def link_simps)
qed

lemma popleft_n_spec:
  assumes "free_list q (xs @ ys)"
  shows "\<exists>q'. popleft_n (int (length xs)) q = Ok (xs, q') \<and> free_list q' ys \<and> same_payload q q'"
proof (cases "xs = []")
  case True
  then show ?thesis using assms by (simp add: popleft_n_def)
next
  case False
  note inv = free_listD [OF assms]
  define q0 where "q0 = q\<lparr>num_free_blocks := num_free_blocks q - int (length xs)\<rparr>"
  have head: "next_free_block (heap q0 FakeHead) = Some (hd (xs @ ys @ [FakeTail]))"
    using dseg_first [OF inv(3)] by (simp add: q0_def)
  have "dseg (heap q0) (hd xs) (tl xs @ ys) FakeTail"
    using inv(3) False by (cases xs) (simp_all add: q0_def)
  then obtain q1 where q1:
    "popleft_n_loop (length xs) (Some (hd (xs @ ys @ [FakeTail]))) [] q0
       = Ok (xs, Some (hd (ys @ [FakeTail])), q1)"
    "\<forall>r. r \<notin> set xs \<longrightarrow> heap q1 r = heap q0 r"
    "\<forall>r \<in> set xs. prev_free_block (heap q1 r) = None \<and> next_free_block (heap q1 r) = None"
    "num_free_blocks q1 = num_free_blocks q0" "same_payload q0 q1"
    using popleft_n_loop_spec [of xs ys _ q0 "[]"] inv by auto
  define nx where "nx = hd (ys @ [FakeTail])"
  define q' where "q' = set_prev nx (Some FakeHead) (set_next FakeHead (Some nx) q1)"
  have nx: "nx = FakeTail \<or> nx \<in> set ys" by (cases ys) (auto simp: nx_def)
  have "popleft_n (int (length xs)) q =
      rbind (popleft_n_loop (length xs) (next_free_block (heap q0 FakeHead)) [] q0)
        (\<lambda>(ret, cur, q1). case cur of None \<Rightarrow> Ok (ret, q1)
          | Some c \<Rightarrow> Ok (ret, set_prev c (Some FakeHead) (set_next FakeHead (Some c) q1)))"
    using False inv(5) by (simp add: popleft_n_def q0_def Let_def)
  then have "popleft_n (int (length xs)) q = Ok (xs, q')"
    unfolding head q1(1) by (simp add: q'_def nx_def)
  moreover have "dseg (heap q') FakeHead ys FakeTail"
  proof (cases ys)
    case Nil
    then show ?thesis by (simp add: q'_def link_simps nx_def)
  next
    case (Cons y zs)
    have "dseg (heap q) y zs FakeTail" using inv(3) Cons by (simp add: dseg_append)
    moreover have "dseg (heap q') y zs FakeTail = dseg (heap q) y zs FakeTail"
      using inv(1,8,9) Cons q1(2)
      by (intro dseg_cong) (auto simp: q'_def link_simps nx_def q0_def)
    ultimately show ?thesis using Cons inv(8) by (auto simp: q'_def link_simps nx_def)
  qed
  moreover have "same_payload q q'" using q1(5) by (simp add: q'_def q0_def)
  moreover have "\<forall>r. is_block r \<and> r \<notin> set ys \<longrightarrow>
      prev_free_block (heap q' r) = None \<and> next_free_block (heap q' r) = None"
    using inv(6,7) q1(2,3) nx by (auto simp: q'_def link_simps q0_def)
  ultimately show ?thesis
    using inv q1(2,4) nx unfolding free_list_def
    by (intro exI [of _ q']) (auto simp: q'_def link_simps q0_def)
qed

lemma popleft_n_too_many:
  assumes "free_list q xs" and "int (length xs) < n"
  shows "popleft_n n q = Err AssertionError"
  using assms free_listD(5) [OF assms(1)] by (simp add: popleft_n_def)

lemma queue_remove_spec:
  assumes "free_list q (xs @ b # ys)"
  shows "\<exists>q'. queue_remove b q = Ok q' \<and> free_list q' (xs @ ys) \<and> same_payload q q'"
proof -
  note inv = free_listD [OF assms]
  define p where "p = last (FakeHead # xs)"
  define n where "n = hd (ys @ [FakeTail])"
  have s1: "dseg (heap q) FakeHead xs b" and s2: "dseg (heap q) b ys FakeTail"
    using inv(3) by (simp_all add: dseg_append)
  have b: "is_block b" "b \<notin> set xs" "b \<notin> set ys" using inv by auto
  have pb: "prev_free_block (heap q b) = Some p" and nb: "next_free_block (heap q b) = Some n"
    using dseg_last [OF s1] dseg_first [OF s2] by (simp_all add: p_def n_def)
  have p: "p = FakeHead \<or> p \<in> set xs" by (cases xs) (auto simp: p_def)
  have n: "n = FakeTail \<or> n \<in> set ys" by (cases ys) (auto simp: n_def)
  define q' where "q' = (set_next b None (set_prev b None (set_prev n (Some p) (set_next p (Some n) q))))
      \<lparr>num_free_blocks := num_free_blocks q - 1\<rparr>"
  have ok: "queue_remove b q = Ok q'"
    using pb nb by (simp add: queue_remove_def q'_def link_simps Let_def)
  have "dseg (heap q') FakeHead (xs @ ys) FakeTail"
  proof (cases xs rule: rev_cases)
    case Nil
    then show ?thesis
    proof (cases ys)
      case Nil2: Nil
      with Nil b show ?thesis by (auto simp: q'_def link_simps p_def n_def)
    next
      case (Cons y zs)
      have "dseg (heap q') y zs FakeTail = dseg (heap q) y zs FakeTail"
        using inv(1,8,9) Cons Nil b by (intro dseg_cong) (auto simp: q'_def link_simps p_def n_def)
      with s2 Cons Nil inv b show ?thesis by (auto simp: q'_def link_simps p_def n_def)
    qed
  next
    case (snoc zs z)
    have zp: "p = z" using snoc by (simp add: p_def)
    have front: "dseg (heap q) FakeHead zs z" using s1 snoc by (simp add: dseg_append)
    have "dseg (heap q') FakeHead zs z = dseg (heap q) FakeHead zs z"
      using inv(1,8,9) snoc b n by (intro dseg_cong) (auto simp: q'_def link_simps zp)
    moreover have "dseg (heap q') z ys FakeTail"
    proof (cases ys)
      case Nil
      with b snoc inv show ?thesis by (auto simp: q'_def link_simps zp n_def)
    next
      case (Cons y us)
      have "dseg (heap q') y us FakeTail = dseg (heap q) y us FakeTail"
        using inv(1,8,9) Cons snoc b by (intro dseg_cong) (auto simp: q'_def link_simps zp n_def)
      with s2 Cons snoc inv(1) b show ?thesis by (auto simp: q'_def link_simps zp n_def)
    qed
    ultimately show ?thesis using front snoc by (simp add: dseg_append)
  qed
  moreover have "\<forall>r. is_block r \<and> r \<notin> set (xs @ ys) \<longrightarrow>
      prev_free_block (heap q' r) = None \<and> next_free_block (heap q' r) = None"
    using inv(6,7) p n by (auto simp: q'_def link_simps)
  moreover have "next_free_block (heap q' FakeTail) = None"
    using inv(4,9) b p by (auto simp: q'_def link_simps)
  moreover have "same_payload q q'" by (simp add: q'_def)
  ultimately show ?thesis
    using ok inv unfolding free_list_def by (intro exI [of _ q']) (auto simp: q'_def link_simps)
qed

text \<open>Removing a block that is not in the list raises.\<close>

lemma queue_remove_not_free:
  "free_list q xs \<Longrightarrow> is_block b \<Longrightarrow> b \<notin> set xs \<Longrightarrow> queue_remove b q = Err RuntimeError"
  by (simp add: queue_remove_def free_listD(6))

lemma queue_append_spec:
  assumes "free_list q xs" and "is_block b" and "b \<notin> set xs"
  shows "\<exists>q'. queue_append b q = Ok q' \<and> free_list q' (xs @ [b]) \<and> same_payload q q'"
proof -
  note inv = free_listD [OF assms(1)]
  define l where "l = last (FakeHead # xs)"
  have l: "l = FakeHead \<or> l \<in> set xs" by (cases xs) (auto simp: l_def)
  have tl: "prev_free_block (heap q FakeTail) = Some l" using dseg_last [OF inv(3)] by (simp add: l_def)
  define q' where "q' = (set_prev FakeTail (Some b) (set_next b (Some FakeTail)
      (set_prev b (Some l) (set_next l (Some b) q))))\<lparr>num_free_blocks := num_free_blocks q + 1\<rparr>"
  have ok: "queue_append b q = Ok q'"
    using tl by (simp add: queue_append_def q'_def link_simps Let_def)
  have "dseg (heap q') FakeHead xs b"
  proof (cases xs rule: rev_cases)
    case Nil
    then show ?thesis using assms(2) by (auto simp: q'_def link_simps l_def)
  next
    case (snoc zs z)
    have "dseg (heap q) FakeHead zs z" using inv(3) snoc by (simp add: dseg_append)
    moreover have "dseg (heap q') FakeHead zs z = dseg (heap q) FakeHead zs z"
      using inv(1,8,9) assms(2,3) snoc by (intro dseg_cong) (auto simp: q'_def link_simps l_def)
    ultimately show ?thesis
      using snoc assms(2,3) inv(9) by (auto simp: dseg_append q'_def link_simps l_def)
  qed
  moreover have "dseg (heap q') b [] FakeTail" using assms(2) by (auto simp: q'_def link_simps)
  ultimately have "dseg (heap q') FakeHead (xs @ [b]) FakeTail" by (simp add: dseg_append)
  moreover have "next_free_block (heap q' FakeTail) = None"
    using inv(4,9) assms(2) l by (auto simp: q'_def link_simps)
  moreover have "same_payload q q'" by (simp add: q'_def)
  ultimately show ?thesis
    using ok inv assms(2,3) l unfolding free_list_def
    by (intro exI [of _ q']) (auto simp: q'_def link_simps)
qed

text \<open>
  \<open>append_n\<close> links all blocks first and attaches the tail sentinel once.  Closing the list
  after each round instead gives the same heap, so the loop is a sequence of appends.
\<close>

definition close_list :: "blk_ref \<Rightarrow> free_queue \<Rightarrow> free_queue" where
  "close_list l q = set_prev FakeTail (Some l) (set_next l (Some FakeTail) q)"

lemma free_queue_eqI:
  "(\<And>r. heap q r = heap q' r) \<Longrightarrow> num_free_blocks q = num_free_blocks q' \<Longrightarrow> q = (q' :: free_queue)"
  by (cases q; cases q') auto

lemma close_list_step:
  assumes "is_block b" and "b \<noteq> l" and "l \<noteq> FakeTail"
  shows "queue_append b ((close_list l q)\<lparr>num_free_blocks := n\<rparr>) =
    Ok ((close_list b (set_next l (Some b) (set_prev b (Some l) q)))\<lparr>num_free_blocks := n + 1\<rparr>)"
  using assms
  by (auto simp: queue_append_def close_list_def link_simps Let_def intro!: free_queue_eqI)

lemma close_list_idle:
  assumes "free_list q xs"
  shows "close_list (last (FakeHead # xs)) q = q"
proof (rule free_queue_eqI)
  have "dseg (heap q) FakeHead xs FakeTail" by (rule free_listD [OF assms])
  then have "next_free_block (heap q (last (FakeHead # xs))) = Some FakeTail"
    and "prev_free_block (heap q FakeTail) = Some (last (FakeHead # xs))"
    by (induction xs arbitrary: rule: rev_induct) (auto simp: dseg_append dseg_last)
  then show "heap (close_list (last (FakeHead # xs)) q) r = heap q r" for r
    by (auto simp: close_list_def link_simps)
qed (simp add: close_list_def link_simps)

lemma append_n_loop_spec:
  assumes "free_list ((close_list l q)\<lparr>num_free_blocks := int (length xs)\<rparr>) xs"
    and "l = last (FakeHead # xs)" and "distinct bs" and "\<forall>b \<in> set bs. is_block b"
    and "set bs \<inter> set xs = {}"
  shows "\<exists>l' q'. append_n_loop bs l q = (l', q') \<and> same_payload q q'
    \<and> num_free_blocks q' = num_free_blocks q
    \<and> free_list ((close_list l' q')\<lparr>num_free_blocks := int (length (xs @ bs))\<rparr>) (xs @ bs)"
  using assms
proof (induction bs arbitrary: l q xs)
  case Nil
  then show ?case by simp
next
  case (Cons b bs)
  note fl = free_listD [OF Cons.prems(1)]
  have b: "is_block b" "b \<notin> set xs" using Cons.prems(4,5) by auto
  have l: "l = FakeHead \<or> l \<in> set xs" using Cons.prems(2) by (cases xs) auto
  then have bl: "b \<noteq> l" "l \<noteq> FakeTail" using b fl(9) by auto
  define q1 where "q1 = set_next l (Some b) (set_prev b (Some l) q)"
  from queue_append_spec [OF Cons.prems(1) b]
  have "free_list ((close_list b q1)\<lparr>num_free_blocks := int (length (xs @ [b]))\<rparr>) (xs @ [b])"
    unfolding close_list_step [OF b(1) bl] by (simp add: q1_def add.commute)
  then have "\<exists>l' q'. append_n_loop bs b q1 = (l', q') \<and> same_payload q1 q'
    \<and> num_free_blocks q' = num_free_blocks q1
    \<and> free_list ((close_list l' q')\<lparr>num_free_blocks := int (length ((xs @ [b]) @ bs))\<rparr>) ((xs @ [b]) @ bs)"
    by (rule Cons.IH) (use Cons.prems in auto)
  then obtain l' q' where q': "append_n_loop bs b q1 = (l', q')" "same_payload q1 q'"
    "num_free_blocks q' = num_free_blocks q1"
    "free_list ((close_list l' q')\<lparr>num_free_blocks := int (length ((xs @ [b]) @ bs))\<rparr>) ((xs @ [b]) @ bs)"
    by blast
  have "same_payload q q'" using q'(2) by (rule same_payload_trans [rotated]) (simp add: q1_def)
  with q' show ?case
    by (intro exI [of _ l'] exI [of _ q']) (auto simp: q1_def link_simps)
qed

lemma append_n_spec:
  assumes "free_list q xs" and "distinct bs" and "\<forall>b \<in> set bs. is_block b" and "set bs \<inter> set xs = {}"
  shows "\<exists>q'. append_n bs q = Ok q' \<and> free_list q' (xs @ bs) \<and> same_payload q q'"
proof (cases "bs = []")
  case True
  with assms(1) show ?thesis by (simp add: append_n_def)
next
  case False
  define q0 where "q0 = q\<lparr>num_free_blocks := num_free_blocks q + int (length bs)\<rparr>"
  define l where "l = last (FakeHead # xs)"
  have num: "num_free_blocks q = int (length xs)" by (rule free_listD [OF assms(1)])
  have "(close_list l q0)\<lparr>num_free_blocks := int (length xs)\<rparr> = close_list l q"
    using num by (auto intro!: free_queue_eqI simp: q0_def close_list_def link_simps)
  then have "free_list ((close_list l q0)\<lparr>num_free_blocks := int (length xs)\<rparr>) xs"
    using assms(1) close_list_idle [OF assms(1)] unfolding l_def by metis
  from append_n_loop_spec [OF this l_def assms(2-4)] obtain l' q1 where
    q1: "append_n_loop bs l q0 = (l', q1)" "same_payload q0 q1" "num_free_blocks q1 = num_free_blocks q0"
      "free_list ((close_list l' q1)\<lparr>num_free_blocks := int (length (xs @ bs))\<rparr>) (xs @ bs)"
    by blast
  have "(close_list l' q1)\<lparr>num_free_blocks := int (length (xs @ bs))\<rparr> = close_list l' q1"
    using q1(3) num by (auto intro!: free_queue_eqI simp: q0_def close_list_def link_simps)
  with q1(4) have "free_list (close_list l' q1) (xs @ bs)" by simp
  moreover have "prev_free_block (heap q0 FakeTail) = Some l"
    using dseg_last [OF free_listD(3) [OF assms(1)]] by (simp add: q0_def l_def)
  then have "append_n bs q = Ok (close_list l' q1)"
    using False q1(1) by (simp add: append_n_def flip: q0_def) (simp add: close_list_def)
  moreover have "same_payload q (close_list l' q1)"
    using q1(2) by (simp add: q0_def close_list_def)
  ultimately show ?thesis by blast
qed

section \<open>The constructor and the walk\<close>

lemma init_links_outside:
  "r \<notin> (!) blocks ` set is \<Longrightarrow> heap (init_links blocks is q) r = heap q r"
  by (induction blocks "is" q rule: init_links.induct) (auto simp: Let_def link_simps)

lemma init_links_inside:
  assumes "distinct blocks" and "distinct is" and "\<forall>i \<in> set is. i < length blocks" and "i \<in> set is"
  shows "prev_free_block (heap (init_links blocks is q) (blocks ! i)) =
      (if i > 0 then Some (blocks ! (i - 1)) else prev_free_block (heap q (blocks ! i)))
    \<and> next_free_block (heap (init_links blocks is q) (blocks ! i)) =
      (if i + 1 < length blocks then Some (blocks ! (i + 1)) else next_free_block (heap q (blocks ! i)))"
  using assms
proof (induction "is" arbitrary: q)
  case Nil
  then show ?case by simp
next
  case (Cons j js)
  define q1 where "q1 = (if j > 0 then set_prev (blocks ! j) (Some (blocks ! (j - 1))) q else q)"
  define q2 where "q2 = (if j + 1 < length blocks
      then set_next (blocks ! j) (Some (blocks ! (j + 1))) q1 else q1)"
  have unfold: "init_links blocks (j # js) q = init_links blocks js q2"
    by (simp add: q1_def q2_def)
  show ?case
  proof (cases "i = j")
    case True
    have "blocks ! j \<notin> (!) blocks ` set js"
      using Cons.prems by (auto simp: nth_eq_iff_index_eq)
    then have keep: "heap (init_links blocks js q2) (blocks ! j) = heap q2 (blocks ! j)"
      by (rule init_links_outside)
    show ?thesis unfolding True unfold keep by (auto simp: q1_def q2_def link_simps)
  next
    case False
    then have "blocks ! i \<noteq> blocks ! j" using Cons.prems by (auto simp: nth_eq_iff_index_eq)
    then have keep: "heap q2 (blocks ! i) = heap q (blocks ! i)" by (simp add: q1_def q2_def link_simps)
    show ?thesis unfolding unfold keep [symmetric] by (rule Cons.IH) (use False Cons.prems in auto)
  qed
qed

lemma same_payload_init_links: "same_payload r (init_links bs js r)"
proof (induction bs js r rule: init_links.induct)
  case (2 blocks i js q)
  define q1 where "q1 = (if i > 0 then set_prev (blocks ! i) (Some (blocks ! (i - 1))) q else q)"
  define q2 where "q2 = (if i + 1 < length blocks
      then set_next (blocks ! i) (Some (blocks ! (i + 1))) q1 else q1)"
  have "same_payload q2 (init_links blocks js q2)" by (rule 2) (simp_all add: q1_def q2_def)
  moreover have "same_payload q q2" by (simp add: q1_def q2_def)
  ultimately have "same_payload q (init_links blocks js q2)" by (rule same_payload_trans [rotated])
  then show ?case by (simp only: init_links.simps Let_def q1_def q2_def)
qed simp

lemma num_init_links [simp]: "num_free_blocks (init_links bs js r) = num_free_blocks r"
  by (induction bs js r rule: init_links.induct) (auto simp: Let_def link_simps)

lemma dseg_nthI:
  assumes "next_free_block (h p) = Some (hd (xs @ [t]))" and "prev_free_block (h t) = Some (last (p # xs))"
    and "\<And>i. Suc i < length xs \<Longrightarrow> next_free_block (h (xs ! i)) = Some (xs ! Suc i)"
    and "\<And>i. Suc i < length xs \<Longrightarrow> prev_free_block (h (xs ! Suc i)) = Some (xs ! i)"
    and "xs \<noteq> [] \<Longrightarrow> prev_free_block (h (hd xs)) = Some p"
    and "xs \<noteq> [] \<Longrightarrow> next_free_block (h (last xs)) = Some t"
  shows "dseg h p xs t"
  using assms
proof (induction xs arbitrary: p)
  case Nil
  then show ?case by simp
next
  case (Cons x xs)
  have "dseg h x xs t"
  proof (rule Cons.IH)
    show "next_free_block (h x) = Some (hd (xs @ [t]))"
      using Cons.prems(3) [of 0] Cons.prems(6) by (cases xs) auto
    show "xs \<noteq> [] \<Longrightarrow> prev_free_block (h (hd xs)) = Some x"
      using Cons.prems(4) [of 0] by (cases xs) auto
    show "Suc i < length xs \<Longrightarrow> next_free_block (h (xs ! i)) = Some (xs ! Suc i)" for i
      using Cons.prems(3) [of "Suc i"] by simp
    show "Suc i < length xs \<Longrightarrow> prev_free_block (h (xs ! Suc i)) = Some (xs ! i)" for i
      using Cons.prems(4) [of "Suc i"] by simp
  qed (use Cons.prems in auto)
  with Cons.prems show ?case by simp
qed

lemma queue_init_spec:
  assumes "distinct blocks" and "\<forall>b \<in> set blocks. is_block b"
    and "\<And>r. is_block r \<Longrightarrow> prev_free_block (h r) = None \<and> next_free_block (h r) = None"
  shows "free_list (FreeKVCacheBlockQueue_init h blocks) blocks"
    and "same_payload \<lparr>heap = h, num_free_blocks = 0\<rparr> (FreeKVCacheBlockQueue_init h blocks)"
proof -
  define q where "q = FreeKVCacheBlockQueue_init h blocks"
  define q0 where "q0 = \<lparr>heap = h, num_free_blocks = int (length blocks)\<rparr>"
  define q1 where "q1 = init_links blocks [0..<length blocks] q0"
  define q2 where "q2 = q1\<lparr>heap := (heap q1)(FakeHead := KVCacheBlock_init (-1),
      FakeTail := KVCacheBlock_init (-1))\<rparr>"
  have q: "q = (if blocks = [] then set_prev FakeTail (Some FakeHead) (set_next FakeHead (Some FakeTail) q2)
    else set_next (last blocks) (Some FakeTail) (set_prev FakeTail (Some (last blocks))
           (set_prev (hd blocks) (Some FakeHead) (set_next FakeHead (Some (hd blocks)) q2))))"
    by (simp add: q_def FreeKVCacheBlockQueue_init_def Let_def q0_def q1_def q2_def)
  have outside: "heap q1 r = h r" if "r \<notin> set blocks" for r
  proof -
    have "r \<notin> (!) blocks ` set [0..<length blocks]" using that by (auto simp: in_set_conv_nth)
    then show ?thesis by (simp add: q1_def init_links_outside q0_def)
  qed
  have inside: "prev_free_block (heap q1 (blocks ! i)) = (if i > 0 then Some (blocks ! (i - 1)) else None)
      \<and> next_free_block (heap q1 (blocks ! i)) =
        (if i + 1 < length blocks then Some (blocks ! (i + 1)) else None)"
    if "i < length blocks" for i
  proof -
    have "is_block (blocks ! i)" using assms(2) nth_mem [OF that] by blast
    then have old: "prev_free_block (heap q0 (blocks ! i)) = None"
        "next_free_block (heap q0 (blocks ! i)) = None"
      using assms(3) by (simp_all add: q0_def)
    show ?thesis
      using init_links_inside [OF assms(1), of "[0..<length blocks]" i q0] that
      unfolding old q1_def by simp
  qed
  have fake: "FakeHead \<notin> set blocks" "FakeTail \<notin> set blocks" using assms(2) by auto
  have in_q2: "heap q2 (blocks ! i) = heap q1 (blocks ! i)" if "i < length blocks" for i
    using fake nth_mem [OF that] by (auto simp: q2_def)
  have nxt: "next_free_block (heap q (blocks ! i)) = Some (blocks ! Suc i)"
    and prv: "prev_free_block (heap q (blocks ! Suc i)) = Some (blocks ! i)" if i: "Suc i < length blocks" for i
  proof -
    have "blocks ! i \<noteq> last blocks" "blocks ! Suc i \<noteq> hd blocks"
      using i assms(1) nth_eq_iff_index_eq [OF assms(1), of i "length blocks - 1"]
        nth_eq_iff_index_eq [OF assms(1), of "Suc i" 0]
      by (simp_all add: last_conv_nth hd_conv_nth flip: length_greater_0_conv)
    moreover have "blocks ! i \<noteq> FakeHead" "blocks ! i \<noteq> FakeTail" "blocks ! Suc i \<noteq> FakeTail"
        "blocks ! Suc i \<noteq> FakeHead"
      using fake i nth_mem by (metis Suc_lessD)+
    ultimately show "next_free_block (heap q (blocks ! i)) = Some (blocks ! Suc i)"
      and "prev_free_block (heap q (blocks ! Suc i)) = Some (blocks ! i)"
      using i inside [of i] inside [of "Suc i"] in_q2 [of i] in_q2 [of "Suc i"]
      by (auto simp: q link_simps)
  qed
  have ends: "blocks \<noteq> [] \<Longrightarrow> hd blocks \<noteq> FakeTail \<and> hd blocks \<noteq> FakeHead
      \<and> last blocks \<noteq> FakeTail \<and> last blocks \<noteq> FakeHead"
    using fake by (metis hd_in_set last_in_set)
  have seg: "dseg (heap q) FakeHead blocks FakeTail"
  proof (cases "blocks = []")
    case True
    then show ?thesis by (simp add: q link_simps)
  next
    case False
    have "next_free_block (heap q FakeHead) = Some (hd blocks)"
      "prev_free_block (heap q FakeTail) = Some (last blocks)"
      "prev_free_block (heap q (hd blocks)) = Some FakeHead"
      "next_free_block (heap q (last blocks)) = Some FakeTail"
      using False ends by (auto simp: q link_simps)
    with False nxt prv show ?thesis by (intro dseg_nthI) simp_all
  qed
  have out: "prev_free_block (heap q r) = None \<and> next_free_block (heap q r) = None"
    if "is_block r" "r \<notin> set blocks" for r
  proof -
    have "r \<noteq> hd blocks" "r \<noteq> last blocks" if "blocks \<noteq> []"
      using that \<open>r \<notin> set blocks\<close> by (metis hd_in_set, metis last_in_set)
    then have "heap q r = h r" using that outside by (auto simp: q link_simps q2_def)
    then show ?thesis using assms(3) that by simp
  qed
  have "free_list q blocks"
    unfolding free_list_def using assms(1,2) seg out ends
    by (simp add: q link_simps q2_def KVCacheBlock_init_def q1_def q0_def)
  then show "free_list (FreeKVCacheBlockQueue_init h blocks) blocks" by (simp add: q_def)
  have "same_payload q0 q1" unfolding q1_def by (rule same_payload_init_links)
  then have "same_payload \<lparr>heap = h, num_free_blocks = 0\<rparr> q2"
    by (auto simp: same_payload_def q2_def q0_def)
  then show "same_payload \<lparr>heap = h, num_free_blocks = 0\<rparr> (FreeKVCacheBlockQueue_init h blocks)"
    by (simp add: q_def [symmetric] q)
qed

text \<open>The walk of a well-formed list ends and returns the list.\<close>

lemma walk_free_spec:
  assumes "dseg h x xs FakeTail" and "next_free_block (h FakeTail) = None"
  shows "walk_free h x ret = Some (ret @ x # xs)"
  using assms(1)
proof (induction xs arbitrary: x ret)
  case Nil
  then show ?case using assms(2) by (simp add: walk_free.simps [of h x] walk_free.simps [of h FakeTail])
next
  case (Cons y ys)
  then show ?case by (simp add: walk_free.simps [of h x])
qed

lemma get_all_free_blocks_spec:
  assumes "free_list q xs"
  shows "get_all_free_blocks q = Ok (Some xs)"
proof (cases xs)
  case Nil
  then show ?thesis using free_listD(3,4) [OF assms]
    by (simp add: get_all_free_blocks_def walk_free.simps [of _ FakeTail])
next
  case (Cons x ys)
  then show ?thesis using free_listD(3,4) [OF assms]
    using walk_free_spec [of "heap q" x ys "[]"] by (simp add: get_all_free_blocks_def)
qed

lemma free_list_unique: "free_list q xs \<Longrightarrow> free_list q ys \<Longrightarrow> xs = ys"
  by (metis get_all_free_blocks_spec option.inject res.inject(2))

section \<open>The interface the block pool relies on\<close>

text \<open>
  A queue of block references with removal from the middle.  \<open>repr q xs\<close> says that \<open>q\<close>
  holds \<open>xs\<close>, first to be handed out first; \<open>frame q q'\<close> that nothing but the queue's
  own links changed.
\<close>

locale block_queue =
  fixes repr :: "'q \<Rightarrow> 'b list \<Rightarrow> bool"
    and valid :: "'b \<Rightarrow> bool"
    and frame :: "'q \<Rightarrow> 'q \<Rightarrow> bool"
    and pop :: "'q \<Rightarrow> ('b \<times> 'q) res"
    and pop_n :: "int \<Rightarrow> 'q \<Rightarrow> ('b list \<times> 'q) res"
    and rem :: "'b \<Rightarrow> 'q \<Rightarrow> 'q res"
    and app :: "'b \<Rightarrow> 'q \<Rightarrow> 'q res"
    and app_n :: "'b list \<Rightarrow> 'q \<Rightarrow> 'q res"
  assumes repr_distinct: "repr q xs \<Longrightarrow> distinct xs"
    and repr_valid: "repr q xs \<Longrightarrow> x \<in> set xs \<Longrightarrow> valid x"
    and repr_unique: "repr q xs \<Longrightarrow> repr q ys \<Longrightarrow> xs = ys"
    and frame_refl: "frame q q"
    and frame_trans: "frame q q' \<Longrightarrow> frame q' q'' \<Longrightarrow> frame q q''"
    and pop_law: "repr q (x # xs) \<Longrightarrow> \<exists>q'. pop q = Ok (x, q') \<and> repr q' xs \<and> frame q q'"
    and pop_n_law: "repr q (xs @ ys) \<Longrightarrow>
      \<exists>q'. pop_n (int (length xs)) q = Ok (xs, q') \<and> repr q' ys \<and> frame q q'"
    and rem_law: "repr q (xs @ b # ys) \<Longrightarrow> \<exists>q'. rem b q = Ok q' \<and> repr q' (xs @ ys) \<and> frame q q'"
    and app_law: "repr q xs \<Longrightarrow> valid b \<Longrightarrow> b \<notin> set xs \<Longrightarrow>
      \<exists>q'. app b q = Ok q' \<and> repr q' (xs @ [b]) \<and> frame q q'"
    and app_n_law: "repr q xs \<Longrightarrow> distinct bs \<Longrightarrow> \<forall>b \<in> set bs. valid b \<Longrightarrow> set bs \<inter> set xs = {} \<Longrightarrow>
      \<exists>q'. app_n bs q = Ok q' \<and> repr q' (xs @ bs) \<and> frame q q'"
begin

lemma pop_n_take:
  assumes "repr q ys" and "0 \<le> n" and "n \<le> int (length ys)"
  obtains q' where "pop_n n q = Ok (take (nat n) ys, q')" "repr q' (drop (nat n) ys)" "frame q q'"
proof -
  have "repr q (take (nat n) ys @ drop (nat n) ys)" using assms(1) by simp
  from pop_n_law [OF this] obtain q' where
    "pop_n (int (length (take (nat n) ys))) q = Ok (take (nat n) ys, q')"
    "repr q' (drop (nat n) ys)" "frame q q'" by blast
  moreover have "int (length (take (nat n) ys)) = n" using assms by simp
  ultimately show thesis using that by simp
qed

lemma rem_member:
  assumes "repr q ys" and "b \<in> set ys"
  obtains q' where "rem b q = Ok q'" "repr q' (remove1 b ys)" "frame q q'"
proof -
  obtain xs zs where ys: "ys = xs @ b # zs" "b \<notin> set xs"
    using split_list_first [OF assms(2)] by blast
  then have "remove1 b ys = xs @ zs" by (simp add: remove1_append)
  with rem_law [of q xs b zs] assms(1) ys that show thesis by metis
qed

text \<open>
  Release order is reuse order: blocks given back are handed out after every block that was
  free before, in the order in which they were given back.
\<close>

lemma release_then_reuse:
  assumes "repr q xs" and "distinct bs" and "\<forall>b \<in> set bs. valid b" and "set bs \<inter> set xs = {}"
  shows "\<exists>q' q''. app_n bs q = Ok q' \<and> pop_n (int (length xs + length bs)) q' = Ok (xs @ bs, q'')
    \<and> repr q'' []"
proof -
  from app_n_law [OF assms] obtain q' where q': "app_n bs q = Ok q'" "repr q' (xs @ bs)" by blast
  from pop_n_law [of q' "xs @ bs" "[]"] q'(2) obtain q'' where
    "pop_n (int (length (xs @ bs))) q' = Ok (xs @ bs, q'')" "repr q'' []" by auto
  with q'(1) show ?thesis by auto
qed

text \<open>Taking a block out of the middle and giving it back makes it the last to be reused.\<close>

lemma touch_then_release:
  assumes "repr q xs" and "b \<in> set xs"
  shows "\<exists>q' q''. rem b q = Ok q' \<and> app b q' = Ok q'' \<and> repr q'' (remove1 b xs @ [b])"
proof -
  obtain q' where q': "rem b q = Ok q'" "repr q' (remove1 b xs)" by (rule rem_member [OF assms])
  have "b \<notin> set (remove1 b xs)" using repr_distinct [OF assms(1)] by simp
  with app_law [OF q'(2) repr_valid [OF assms]] q'(1) show ?thesis by blast
qed

text \<open>Taking \<open>n\<close> blocks at once is taking them one by one.\<close>

lemma pop_pop_n:
  assumes "repr q (x # xs @ ys)"
  shows "\<exists>q1 q2 q3. pop q = Ok (x, q1) \<and> pop_n (int (length xs)) q1 = Ok (xs, q2) \<and> repr q2 ys
    \<and> pop_n (int (Suc (length xs))) q = Ok (x # xs, q3) \<and> repr q3 ys"
proof -
  from pop_law [OF assms] obtain q1 where q1: "pop q = Ok (x, q1)" "repr q1 (xs @ ys)" by blast
  from pop_n_law [OF q1(2)] obtain q2 where q2: "pop_n (int (length xs)) q1 = Ok (xs, q2)" "repr q2 ys"
    by blast
  from pop_n_law [of q "x # xs" ys] assms obtain q3 where
    "pop_n (int (length (x # xs))) q = Ok (x # xs, q3)" "repr q3 ys" by auto
  with q1 q2 show ?thesis by auto
qed

end

interpretation fq: block_queue free_list is_block same_payload
  popleft popleft_n queue_remove queue_append append_n
  by unfold_locales
    (auto simp: free_listD(1) free_listD(2) popleft_spec popleft_n_spec queue_remove_spec
      queue_append_spec append_n_spec intro: free_list_unique same_payload_trans)

section \<open>Sequences of queue operations\<close>

datatype queue_op = PopLeft | PopLeftN nat | Remove blk_ref | Append blk_ref | AppendN "blk_ref list"

text \<open>What a client of the queue sees: a list, and an error outside the intended use.\<close>

fun spec_op :: "queue_op \<Rightarrow> blk_ref list \<Rightarrow> (blk_ref list \<times> blk_ref list) option" where
  "spec_op PopLeft xs = (case xs of [] \<Rightarrow> None | y # ys \<Rightarrow> Some ([y], ys))"
| "spec_op (PopLeftN n) xs = (if n \<le> length xs then Some (take n xs, drop n xs) else None)"
| "spec_op (Remove b) xs = (if b \<in> set xs then Some ([], remove1 b xs) else None)"
| "spec_op (Append b) xs = (if is_block b \<and> b \<notin> set xs then Some ([], xs @ [b]) else None)"
| "spec_op (AppendN bs) xs =
     (if distinct bs \<and> (\<forall>b \<in> set bs. is_block b) \<and> set bs \<inter> set xs = {} then Some ([], xs @ bs) else None)"

fun impl_op :: "queue_op \<Rightarrow> free_queue \<Rightarrow> (blk_ref list \<times> free_queue) res" where
  "impl_op PopLeft q = rbind (popleft q) (\<lambda>(b, q'). Ok ([b], q'))"
| "impl_op (PopLeftN n) q = popleft_n (int n) q"
| "impl_op (Remove b) q = rbind (queue_remove b q) (\<lambda>q'. Ok ([], q'))"
| "impl_op (Append b) q = rbind (queue_append b q) (\<lambda>q'. Ok ([], q'))"
| "impl_op (AppendN bs) q = rbind (append_n bs q) (\<lambda>q'. Ok ([], q'))"

fun spec_run :: "queue_op list \<Rightarrow> blk_ref list \<Rightarrow> (blk_ref list list \<times> blk_ref list) option" where
  "spec_run [] xs = Some ([], xs)"
| "spec_run (op # ops) xs =
     (case spec_op op xs of
        None \<Rightarrow> None
      | Some (out, xs') \<Rightarrow>
          (case spec_run ops xs' of None \<Rightarrow> None | Some (outs, ys) \<Rightarrow> Some (out # outs, ys)))"

fun impl_run :: "queue_op list \<Rightarrow> free_queue \<Rightarrow> (blk_ref list list \<times> free_queue) res" where
  "impl_run [] q = Ok ([], q)"
| "impl_run (op # ops) q =
     rbind (impl_op op q) (\<lambda>(out, q'). rbind (impl_run ops q') (\<lambda>(outs, q''). Ok (out # outs, q'')))"

lemma impl_op_simulates:
  assumes "free_list q xs" and "spec_op op xs = Some (out, xs')"
  shows "\<exists>q'. impl_op op q = Ok (out, q') \<and> free_list q' xs' \<and> same_payload q q'"
proof (cases op)
  case PopLeft
  with assms fq.pop_law [of q] show ?thesis by (cases xs) fastforce+
next
  case (PopLeftN n)
  with assms have n: "0 \<le> int n" "int n \<le> int (length xs)" by (auto split: if_splits)
  show ?thesis by (rule fq.pop_n_take [OF assms(1) n]) (use PopLeftN assms(2) n in auto)
next
  case (Remove b)
  with assms(2) have "b \<in> set xs" by (auto split: if_splits)
  then show ?thesis
    by (rule fq.rem_member [OF assms(1)]) (use Remove assms(2) \<open>b \<in> set xs\<close> in auto)
next
  case (Append b)
  with assms fq.app_law [OF assms(1), of b] show ?thesis by (auto split: if_splits)
next
  case (AppendN bs)
  with assms fq.app_n_law [OF assms(1), of bs] show ?thesis by (auto split: if_splits)
qed

lemma impl_run_simulates:
  assumes "free_list q xs" and "spec_run ops xs = Some (outs, ys)"
  shows "\<exists>q'. impl_run ops q = Ok (outs, q') \<and> free_list q' ys \<and> same_payload q q'"
  using assms
proof (induction ops arbitrary: q xs outs)
  case Nil
  then show ?case by simp
next
  case (Cons op ops)
  from Cons.prems(2) obtain out xs' outs' where
    o: "spec_op op xs = Some (out, xs')" "spec_run ops xs' = Some (outs', ys)" "outs = out # outs'"
    by (auto split: option.splits)
  from impl_op_simulates [OF Cons.prems(1) o(1)] obtain q1 where
    q1: "impl_op op q = Ok (out, q1)" "free_list q1 xs'" "same_payload q q1" by blast
  from Cons.IH [OF q1(2) o(2)] obtain q2 where
    "impl_run ops q1 = Ok (outs', q2)" "free_list q2 ys" "same_payload q1 q2" by blast
  with q1 o(3) show ?case by (auto intro: same_payload_trans)
qed

definition fresh_heap :: block_heap where
  "fresh_heap r = KVCacheBlock_init (case r of Blk i \<Rightarrow> int i | _ \<Rightarrow> -1)"

text \<open>
  C10.  The linked list is a queue: from a freshly constructed queue over distinct blocks,
  every sequence of \<open>popleft\<close>, \<open>popleft_n\<close>, \<open>remove\<close>, \<open>append\<close> and
  \<open>append_n\<close> that is meaningful on a list of blocks runs without raising, returns
  what the list returns, and leaves a heap from which \<open>get_all_free_blocks\<close> reads
  exactly the remaining list, with \<open>num_free_blocks\<close> its length.
\<close>

theorem free_queue_refines_list:
  assumes "distinct bs" and "\<forall>b \<in> set bs. is_block b" and "spec_run ops bs = Some (outs, ys)"
  shows "\<exists>q. impl_run ops (FreeKVCacheBlockQueue_init fresh_heap bs) = Ok (outs, q)
    \<and> get_all_free_blocks q = Ok (Some ys) \<and> num_free_blocks q = int (length ys)"
proof -
  have "free_list (FreeKVCacheBlockQueue_init fresh_heap bs) bs"
    by (rule queue_init_spec [OF assms(1,2)]) (simp add: fresh_heap_def KVCacheBlock_init_def)
  from impl_run_simulates [OF this assms(3)] show ?thesis
    using get_all_free_blocks_spec free_listD(5) by blast
qed

lemma free_queue_refines_list_witness:
  "\<exists>q. impl_run [PopLeft, Remove (Blk 2), AppendN [Blk 0, Blk 2], PopLeftN 2]
      (FreeKVCacheBlockQueue_init fresh_heap [Blk 0, Blk 1, Blk 2, Blk 3])
    = Ok ([[Blk 0], [], [], [Blk 1, Blk 3]], q)
    \<and> get_all_free_blocks q = Ok (Some [Blk 0, Blk 2]) \<and> num_free_blocks q = 2"
  using free_queue_refines_list [of "[Blk 0, Blk 1, Blk 2, Blk 3]"
      "[PopLeft, Remove (Blk 2), AppendN [Blk 0, Blk 2], PopLeftN 2]"
      "[[Blk 0], [], [], [Blk 1, Blk 3]]" "[Blk 0, Blk 2]"]
  by (simp add: numeral_eq_Suc)

end
