(* ===== verification/Block_Pool.thy ===== *)
theory Block_Pool
  imports Free_Block_Queue
begin

text \<open>
  \<open>BlockPool\<close> of \<open>vllm/v1/core/block_pool.py\<close>: the pool of KV-cache blocks with
  reference counts, the free queue as eviction order, and the table from block hashes to
  cached blocks.

  The block objects live in the heap of the free queue (\<open>free_block_queue\<close>); block \<open>i\<close> of
  \<open>self.blocks\<close> is the reference \<open>Blk i\<close>.  The table is a dictionary of dictionaries in
  insertion order.  The invariant \<open>pool_inv\<close> ties the three together: a block is in the
  free queue exactly when its count is zero, and the table holds exactly the blocks that
  carry a hash, under that hash.
\<close>

section \<open>State\<close>

datatype kv_event =
    BlockStored "int list" "int option" "int list" int "int option"
  | BlockRemoved "int list"
  | AllBlocksCleared

type_synonym block_table = "(block_hash_gid, (int, blk_ref) dict) dict"

record block_pool =
  num_gpu_blocks :: int
  enable_caching :: bool
  free_block_queue :: free_queue
  cached_block_hash_to_block :: block_table
  null_block :: blk_ref
  enable_kv_cache_events :: bool
  kv_event_queue :: "kv_event list"

abbreviation blk :: "block_pool \<Rightarrow> blk_ref \<Rightarrow> kv_block" where
  "blk p r \<equiv> heap (free_block_queue p) r"

definition set_is_null :: "blk_ref \<Rightarrow> free_queue \<Rightarrow> free_queue" where
  "set_is_null r q = q\<lparr>heap := (heap q)(r := (heap q r)\<lparr>is_null := True\<rparr>)\<rparr>"

definition pool_blocks :: "block_pool \<Rightarrow> blk_ref list" where
  "pool_blocks p = map Blk [0..<nat (num_gpu_blocks p)]"

text \<open>
  The table: \<open>cached[h][i] = b\<close> on a \<open>defaultdict(dict)\<close>, and the removal of one entry,
  which deletes the outer key when the inner dictionary becomes empty.
\<close>

definition table_put :: "block_hash_gid \<Rightarrow> int \<Rightarrow> blk_ref \<Rightarrow> block_table \<Rightarrow> block_table" where
  "table_put h i b t =
     AList.update h (AList.update i b (case map_of t h of None \<Rightarrow> [] | Some d \<Rightarrow> d)) t"

definition table_del :: "block_hash_gid \<Rightarrow> int \<Rightarrow> (int, blk_ref) dict \<Rightarrow> block_table \<Rightarrow> block_table" where
  "table_del h i d t =
     (let d' = AList.delete i d in
      if length d' = 0 then AList.delete h t else AList.update h d' t)"

section \<open>Operations\<close>

definition BlockPool_init :: "int \<Rightarrow> bool \<Rightarrow> bool \<Rightarrow> block_pool res" where
  "BlockPool_init n caching events =
     rbind (py_assert (n > 0)) (\<lambda>_.
     rbind (popleft (FreeKVCacheBlockQueue_init fresh_heap (map Blk [0..<nat n]))) (\<lambda>(nb, q).
     Ok \<lparr>num_gpu_blocks = n, enable_caching = caching, free_block_queue = set_is_null nb q,
         cached_block_hash_to_block = [], null_block = nb, enable_kv_cache_events = events,
         kv_event_queue = []\<rparr>))"

fun get_cached_block :: "block_hash \<Rightarrow> nat list \<Rightarrow> block_pool \<Rightarrow> blk_ref list option" where
  "get_cached_block h [] p = Some []"
| "get_cached_block h (g # gs) p =
     (case map_of (cached_block_hash_to_block p) (BlockHashWithGroupId h g) of
        None \<Rightarrow> None
      | Some [] \<Rightarrow> None
      | Some ((_, b) # _) \<Rightarrow>
          (case get_cached_block h gs p of None \<Rightarrow> None | Some bs \<Rightarrow> Some (b # bs)))"

text \<open>
  The body of the loop of \<open>cache_full_blocks\<close>: the hash of block \<open>i\<close>, taken from the
  request or computed and appended to the request's list, and its entry into the table.
  \<open>bhs\<close> is the caller's list of block hashes, \<open>nbh\<close> the copy of its tail taken before
  the loop, \<open>prev\<close> the hash value of the previous block.
\<close>

definition next_block_hash ::
  "int \<Rightarrow> hash_fn \<Rightarrow> request \<Rightarrow> int \<Rightarrow> int \<Rightarrow> nat \<Rightarrow> block_hash list \<Rightarrow> block_hash list
   \<Rightarrow> int option \<Rightarrow> (block_hash \<times> block_hash list) res" where
  "next_block_hash nh hf r bs nc i nbh bhs prev =
     (if i < length nbh then Ok (nbh ! i, bhs)
      else
        let blk_idx = nc + int i;
            start_token_idx = blk_idx * bs;
            end_token_idx = (blk_idx + 1) * bs;
            block_tokens = py_slice (all_token_ids r) start_token_idx end_token_idx
        in rbind (py_assert (int (length block_tokens) = bs)) (\<lambda>_.
           rbind (generate_block_hash_extra_keys r start_token_idx end_token_idx (-1))
             (\<lambda>(extra_keys, _).
                let h = hash_block_tokens nh hf prev block_tokens extra_keys
                in Ok (h, bhs @ [h]))))"

definition cache_one :: "blk_ref \<Rightarrow> block_hash_gid \<Rightarrow> block_pool \<Rightarrow> block_pool res" where
  "cache_one b hg p =
     rbind (set_block_hash b hg (free_block_queue p)) (\<lambda>q.
     Ok (p\<lparr>free_block_queue := q,
           cached_block_hash_to_block :=
             table_put hg (block_id (heap q b)) b (cached_block_hash_to_block p)\<rparr>))"

text \<open>The loop; \<open>nhs\<close> holds the new hash values, kept only for events.\<close>

fun cache_full_loop ::
  "int \<Rightarrow> hash_fn \<Rightarrow> request \<Rightarrow> int \<Rightarrow> nat \<Rightarrow> int \<Rightarrow> nat \<Rightarrow> blk_ref list \<Rightarrow> block_hash list
   \<Rightarrow> block_hash list \<Rightarrow> int option \<Rightarrow> int list option \<Rightarrow> block_pool
   \<Rightarrow> (block_hash list \<times> int list option \<times> block_pool) res" where
  "cache_full_loop nh hf r bs gid nc i [] nbh bhs prev nhs p = Ok (bhs, nhs, p)"
| "cache_full_loop nh hf r bs gid nc i (b # bls) nbh bhs prev nhs p =
     rbind (py_assert (blk_hash (blk p b) = None)) (\<lambda>_.
     rbind (next_block_hash nh hf r bs nc i nbh bhs prev) (\<lambda>(h, bhs').
     rbind (cache_one b (BlockHashWithGroupId h gid) p) (\<lambda>p'.
     cache_full_loop nh hf r bs gid nc (Suc i) bls nbh bhs' (Some (hash_value h))
       (map_option (\<lambda>ns. ns @ [hash_value h]) nhs) p')))"

text \<open>
  \<open>request.lora_request.id\<close> reads an attribute that \<open>LoRARequest\<close> does not have, so the
  event of a request with an adapter raises.
\<close>

definition cache_full_blocks ::
  "int \<Rightarrow> hash_fn \<Rightarrow> request \<Rightarrow> blk_ref list \<Rightarrow> block_hash list \<Rightarrow> int \<Rightarrow> int \<Rightarrow> int \<Rightarrow> nat
   \<Rightarrow> block_pool \<Rightarrow> (block_hash list \<times> block_pool) res" where
  "cache_full_blocks nh hf r blocks bhs num_cached num_full bs gid p =
     (if num_cached = num_full then Ok (bhs, p)
      else
        let new_full_blocks = py_slice blocks num_cached num_full in
        rbind (py_assert (int (length bhs) \<ge> num_cached)) (\<lambda>_.
        let new_block_hashes = py_slice bhs num_cached (int (length bhs)) in
        rbind
          (if num_cached = 0 then Ok None
           else rbind (py_index blocks (num_cached - 1)) (\<lambda>prev_block.
                case blk_hash (blk p prev_block) of
                  None \<Rightarrow> Err AssertionError
                | Some hg \<Rightarrow> Ok (Some (get_hash_value hg))))
          (\<lambda>parent.
             rbind (cache_full_loop nh hf r bs gid num_cached 0 new_full_blocks new_block_hashes
                      bhs parent (if enable_kv_cache_events p then Some [] else None) p)
               (\<lambda>(bhs', nhs, p').
                  if enable_kv_cache_events p'
                  then (case lora r of
                          Some _ \<Rightarrow> Err AttributeError
                        | None \<Rightarrow>
                            Ok (bhs', p'\<lparr>kv_event_queue := kv_event_queue p' @
                              [BlockStored (or_empty nhs) parent
                                 (py_slice (all_token_ids r) (num_cached * bs) (num_full * bs))
                                 bs None]\<rparr>))
                  else Ok (bhs', p')))))"

definition get_num_free_blocks :: "block_pool \<Rightarrow> int" where
  "get_num_free_blocks p = num_free_blocks (free_block_queue p)"

definition maybe_evict_cached_block :: "blk_ref \<Rightarrow> block_pool \<Rightarrow> bool \<times> block_pool" where
  "maybe_evict_cached_block b p =
     (case blk_hash (blk p b) of
        None \<Rightarrow> (False, p)
      | Some h \<Rightarrow>
          (case map_of (cached_block_hash_to_block p) h of
             None \<Rightarrow> (False, p)
           | Some blocks_by_id \<Rightarrow>
               let p1 = p\<lparr>free_block_queue := reset_hash b (free_block_queue p)\<rparr>;
                   p2 = p1\<lparr>cached_block_hash_to_block :=
                            table_del h (block_id (blk p1 b)) blocks_by_id
                              (cached_block_hash_to_block p1)\<rparr>
               in (True,
                   if enable_kv_cache_events p2
                   then p2\<lparr>kv_event_queue := kv_event_queue p2 @ [BlockRemoved [get_hash_value h]]\<rparr>
                   else p2)))"

definition incr_ref :: "blk_ref \<Rightarrow> block_pool \<Rightarrow> block_pool" where
  "incr_ref b p =
     p\<lparr>free_block_queue := set_ref_cnt b (ref_cnt (blk p b) + 1) (free_block_queue p)\<rparr>"

definition decr_ref :: "blk_ref \<Rightarrow> block_pool \<Rightarrow> block_pool" where
  "decr_ref b p =
     p\<lparr>free_block_queue := set_ref_cnt b (ref_cnt (blk p b) - 1) (free_block_queue p)\<rparr>"

definition take_new_block :: "blk_ref \<Rightarrow> block_pool \<Rightarrow> block_pool res" where
  "take_new_block b p =
     (let p1 = (if enable_caching p then snd (maybe_evict_cached_block b p) else p)
      in rbind (py_assert (ref_cnt (blk p1 b) = 0)) (\<lambda>_. Ok (incr_ref b p1)))"

definition get_new_blocks :: "int \<Rightarrow> block_pool \<Rightarrow> (blk_ref list \<times> block_pool) res" where
  "get_new_blocks n p =
     (if n > get_num_free_blocks p then Err ValueError
      else
        rbind (popleft_n n (free_block_queue p)) (\<lambda>(ret, q).
        rbind (rfold take_new_block ret (p\<lparr>free_block_queue := q\<rparr>)) (\<lambda>p'. Ok (ret, p'))))"

definition touch_block :: "blk_ref \<Rightarrow> block_pool \<Rightarrow> block_pool res" where
  "touch_block b p =
     rbind
       (if ref_cnt (blk p b) = 0 \<and> \<not> is_null (blk p b)
        then rbind (queue_remove b (free_block_queue p)) (\<lambda>q. Ok (p\<lparr>free_block_queue := q\<rparr>))
        else Ok p)
       (\<lambda>p'. Ok (incr_ref b p'))"

definition touch :: "blk_ref list list \<Rightarrow> block_pool \<Rightarrow> block_pool res" where
  "touch blocks p = rfold (rfold touch_block) blocks p"

definition free_blocks :: "blk_ref list \<Rightarrow> block_pool \<Rightarrow> block_pool res" where
  "free_blocks ordered_blocks p =
     (let p1 = fold decr_ref ordered_blocks p in
      rbind (append_n (filter (\<lambda>b. ref_cnt (blk p1 b) = 0 \<and> \<not> is_null (blk p1 b)) ordered_blocks)
               (free_block_queue p1))
        (\<lambda>q. Ok (p1\<lparr>free_block_queue := q\<rparr>)))"

definition reset_prefix_cache :: "block_pool \<Rightarrow> bool \<times> block_pool" where
  "reset_prefix_cache p =
     (if num_gpu_blocks p - get_num_free_blocks p \<noteq> 1 then (False, p)
      else
        let p1 = p\<lparr>cached_block_hash_to_block := []\<rparr>;
            p2 = p1\<lparr>free_block_queue := fold reset_hash (pool_blocks p1) (free_block_queue p1)\<rparr>
        in (True,
            if enable_kv_cache_events p2
            then p2\<lparr>kv_event_queue := kv_event_queue p2 @ [AllBlocksCleared]\<rparr> else p2))"

text \<open>The usage as the exact fraction the code computes in floating point.\<close>

definition get_usage :: "block_pool \<Rightarrow> int \<times> int" where
  "get_usage p = (num_gpu_blocks p - get_num_free_blocks p, num_gpu_blocks p)"

definition take_events :: "block_pool \<Rightarrow> kv_event list \<times> block_pool" where
  "take_events p =
     (if \<not> enable_kv_cache_events p then ([], p)
      else (kv_event_queue p, p\<lparr>kv_event_queue := []\<rparr>))"

section \<open>The invariant\<close>

text \<open>The blocks the pool hands out: all but the null block.\<close>

definition real_block :: "block_pool \<Rightarrow> blk_ref \<Rightarrow> bool" where
  "real_block p r \<longleftrightarrow> (\<exists>i. r = Blk i \<and> 0 < i \<and> int i < num_gpu_blocks p)"

definition real_blocks :: "block_pool \<Rightarrow> blk_ref list" where
  "real_blocks p = map Blk [1..<nat (num_gpu_blocks p)]"

definition table_lookup :: "block_table \<Rightarrow> block_hash_gid \<Rightarrow> int \<Rightarrow> blk_ref option" where
  "table_lookup t h i = (case map_of t h of None \<Rightarrow> None | Some d \<Rightarrow> map_of d i)"

definition table_wf :: "block_table \<Rightarrow> bool" where
  "table_wf t \<longleftrightarrow> wf_dict t \<and> (\<forall>h d. map_of t h = Some d \<longrightarrow> d \<noteq> [] \<and> wf_dict d)"

text \<open>Identifiers and the null block, which no operation changes.\<close>

definition static_inv :: "block_pool \<Rightarrow> bool" where
  "static_inv p \<longleftrightarrow> 0 < num_gpu_blocks p \<and> null_block p = Blk 0 \<and>
     is_null (blk p (Blk 0)) \<and> blk_hash (blk p (Blk 0)) = None \<and>
     (\<forall>r. real_block p r \<longrightarrow> \<not> is_null (blk p r)) \<and>
     (\<forall>i. real_block p (Blk i) \<longrightarrow> block_id (blk p (Blk i)) = int i)"

definition ref_inv :: "block_pool \<Rightarrow> blk_ref list \<Rightarrow> bool" where
  "ref_inv p xs \<longleftrightarrow> free_list (free_block_queue p) xs \<and>
     (\<forall>r. r \<in> set xs \<longleftrightarrow> real_block p r \<and> ref_cnt (blk p r) = 0) \<and>
     (\<forall>r. real_block p r \<longrightarrow> 0 \<le> ref_cnt (blk p r))"

definition table_inv :: "block_pool \<Rightarrow> bool" where
  "table_inv p \<longleftrightarrow> table_wf (cached_block_hash_to_block p) \<and>
     (\<forall>h i b. table_lookup (cached_block_hash_to_block p) h i = Some b \<longleftrightarrow>
        real_block p b \<and> i = block_id (blk p b) \<and> blk_hash (blk p b) = Some h) \<and>
     (\<not> enable_caching p \<longrightarrow> cached_block_hash_to_block p = [])"

definition pool_inv :: "block_pool \<Rightarrow> blk_ref list \<Rightarrow> bool" where
  "pool_inv p xs \<longleftrightarrow> static_inv p \<and> ref_inv p xs \<and> table_inv p"

text \<open>
  \<open>p'\<close> differs from \<open>p\<close> in at most the counts, the hashes, the table, the queue and
  the events.
\<close>

definition same_pool :: "block_pool \<Rightarrow> block_pool \<Rightarrow> bool" where
  "same_pool p p' \<longleftrightarrow> num_gpu_blocks p' = num_gpu_blocks p \<and> enable_caching p' = enable_caching p \<and>
     null_block p' = null_block p \<and> enable_kv_cache_events p' = enable_kv_cache_events p \<and>
     (\<forall>r. is_block r \<longrightarrow> block_id (blk p' r) = block_id (blk p r) \<and> is_null (blk p' r) = is_null (blk p r))"

lemma same_pool_refl [simp]: "same_pool p p"
  by (simp add: same_pool_def)

lemma same_pool_trans: "same_pool p p' \<Longrightarrow> same_pool p' p'' \<Longrightarrow> same_pool p p''"
  by (simp add: same_pool_def)

lemma same_pool_real: "same_pool p p' \<Longrightarrow> real_block p' r = real_block p r"
  by (simp add: same_pool_def real_block_def)

lemma real_block_is_block [simp]: "real_block p r \<Longrightarrow> is_block r"
  by (auto simp: real_block_def)

lemma set_real_blocks: "0 < num_gpu_blocks p \<Longrightarrow> r \<in> set (real_blocks p) \<longleftrightarrow> real_block p r"
  by (auto simp: real_blocks_def real_block_def image_iff)

lemma distinct_real_blocks [simp]: "distinct (real_blocks p)"
  by (simp add: real_blocks_def distinct_map inj_on_def)

lemma static_inv_mono:
  assumes "static_inv p" and "same_pool p p'" and "blk_hash (blk p' (Blk 0)) = blk_hash (blk p (Blk 0))"
  shows "static_inv p'"
  using assms same_pool_real [OF assms(2)] by (auto simp: static_inv_def same_pool_def)

subsection \<open>The table\<close>

lemma table_lookup_put:
  "table_lookup (table_put h i b t) h' i' = (if h' = h \<and> i' = i then Some b else table_lookup t h' i')"
  by (simp add: table_lookup_def table_put_def update_conv' split: option.splits)

lemma table_wf_put: "table_wf t \<Longrightarrow> table_wf (table_put h i b t)"
  by (auto simp: table_wf_def table_put_def update_conv' split: option.splits if_splits
      dest: arg_cong [where f = length])

lemma table_lookup_del:
  assumes "map_of t h = Some d"
  shows "table_lookup (table_del h i d t) h' i' =
    (if h' = h \<and> i' = i then None else table_lookup t h' i')"
proof -
  have "map_of d i' = None" if "AList.delete i d = []" "i' \<noteq> i"
    using that delete_conv [of i d i'] by simp
  then show ?thesis using assms
    by (auto simp: table_lookup_def table_del_def Let_def update_conv' delete_conv' split: if_splits)
qed

lemma table_wf_del: "table_wf t \<Longrightarrow> map_of t h = Some d \<Longrightarrow> table_wf (table_del h i d t)"
  by (auto simp: table_wf_def table_del_def Let_def update_conv' delete_conv' split: if_splits)

lemma table_wf_Nil [simp]: "table_wf []"
  by (simp add: table_wf_def)

lemma table_lookup_Nil [simp]: "table_lookup [] h i = None"
  by (simp add: table_lookup_def)

subsection \<open>What one assignment changes\<close>

named_theorems pool_simps \<open>reading the pool after an update\<close>

lemma heap_set_ref_cnt [link_simps]:
  "heap (set_ref_cnt r v q) x = (if x = r then (heap q r)\<lparr>ref_cnt := v\<rparr> else heap q x)"
  "num_free_blocks (set_ref_cnt r v q) = num_free_blocks q"
  by (simp_all add: set_ref_cnt_def)

lemma heap_reset_hash [link_simps]:
  "heap (reset_hash r q) x = (if x = r then (heap q r)\<lparr>blk_hash := None\<rparr> else heap q x)"
  "num_free_blocks (reset_hash r q) = num_free_blocks q"
  by (simp_all add: reset_hash_def)

lemma blk_incr_ref [pool_simps]:
  "blk (incr_ref b p) r = (if r = b then (blk p b)\<lparr>ref_cnt := ref_cnt (blk p b) + 1\<rparr> else blk p r)"
  "num_free_blocks (free_block_queue (incr_ref b p)) = num_free_blocks (free_block_queue p)"
  "cached_block_hash_to_block (incr_ref b p) = cached_block_hash_to_block p"
  by (simp_all add: incr_ref_def link_simps)

lemma blk_decr_ref [pool_simps]:
  "blk (decr_ref b p) r = (if r = b then (blk p b)\<lparr>ref_cnt := ref_cnt (blk p b) - 1\<rparr> else blk p r)"
  "num_free_blocks (free_block_queue (decr_ref b p)) = num_free_blocks (free_block_queue p)"
  "cached_block_hash_to_block (decr_ref b p) = cached_block_hash_to_block p"
  by (simp_all add: decr_ref_def link_simps)

text \<open>The queue of \<open>p\<close> and \<open>p'\<close> is linked the same way.\<close>

definition same_links :: "free_queue \<Rightarrow> free_queue \<Rightarrow> bool" where
  "same_links q q' \<longleftrightarrow> num_free_blocks q' = num_free_blocks q \<and>
     (\<forall>r. prev_free_block (heap q' r) = prev_free_block (heap q r) \<and>
          next_free_block (heap q' r) = next_free_block (heap q r))"

lemma free_list_same_links:
  assumes "same_links q q'"
  shows "free_list q' xs = free_list q xs"
proof -
  have "dseg (heap q') FakeHead xs FakeTail = dseg (heap q) FakeHead xs FakeTail"
    using assms by (intro dseg_cong) (simp_all add: same_links_def)
  then show ?thesis using assms by (simp add: free_list_def same_links_def)
qed

text \<open>The hashes and the table are untouched.\<close>

definition same_hashes :: "block_pool \<Rightarrow> block_pool \<Rightarrow> bool" where
  "same_hashes p p' \<longleftrightarrow> same_pool p p' \<and>
     cached_block_hash_to_block p' = cached_block_hash_to_block p \<and>
     (\<forall>r. is_block r \<longrightarrow> blk_hash (blk p' r) = blk_hash (blk p r))"

lemma same_hashes_refl [simp]: "same_hashes p p"
  by (simp add: same_hashes_def)

lemma same_hashes_trans: "same_hashes p p' \<Longrightarrow> same_hashes p' p'' \<Longrightarrow> same_hashes p p''"
  by (auto simp: same_hashes_def intro: same_pool_trans)

lemma same_hashes_inv:
  assumes "same_hashes p p'"
  shows "static_inv p \<Longrightarrow> static_inv p'" and "table_inv p \<Longrightarrow> table_inv p'"
proof -
  have sp: "same_pool p p'" using assms by (simp add: same_hashes_def)
  note real = same_pool_real [OF sp]
  show "static_inv p \<Longrightarrow> static_inv p'"
    using assms by (auto intro: static_inv_mono [OF _ sp] simp: same_hashes_def)
  have "real_block p b \<Longrightarrow> block_id (blk p' b) = block_id (blk p b) \<and> blk_hash (blk p' b) = blk_hash (blk p b)" for b
    using assms by (simp add: same_hashes_def same_pool_def)
  then show "table_inv p \<Longrightarrow> table_inv p'"
    using assms sp real by (auto simp: table_inv_def same_hashes_def same_pool_def)
qed

lemma same_hashes_queue:
  "same_payload (free_block_queue p) q \<Longrightarrow> same_hashes p (p\<lparr>free_block_queue := q\<rparr>)"
  by (simp add: same_hashes_def same_pool_def same_payload_def)

lemma same_hashes_refs [simp]: "same_hashes p (incr_ref b p)" "same_hashes p (decr_ref b p)"
  by (auto simp: same_hashes_def same_pool_def pool_simps incr_ref_def decr_ref_def link_simps)

lemma same_links_refs [simp]:
  "same_links (free_block_queue p) (free_block_queue (incr_ref b p))"
  "same_links (free_block_queue p) (free_block_queue (decr_ref b p))"
  by (simp_all add: same_links_def pool_simps)

lemma same_links_trans: "same_links q q' \<Longrightarrow> same_links q' q'' \<Longrightarrow> same_links q q''"
  by (simp add: same_links_def)

lemma same_links_refl [simp]: "same_links q q"
  by (simp add: same_links_def)

section \<open>Allocation evicts\<close>

lemma table_inv_hashD:
  assumes "table_inv p" and "real_block p b" and "blk_hash (blk p b) = Some h"
  obtains d where "map_of (cached_block_hash_to_block p) h = Some d"
    and "map_of d (block_id (blk p b)) = Some b"
proof -
  have "table_lookup (cached_block_hash_to_block p) h (block_id (blk p b)) = Some b"
    using assms by (simp add: table_inv_def)
  then show thesis using that by (auto simp: table_lookup_def split: option.splits)
qed

lemma static_inv_ids:
  assumes "static_inv p" and "real_block p a" and "real_block p b"
    and "block_id (blk p a) = block_id (blk p b)"
  shows "a = b"
proof -
  obtain i j where "a = Blk i" "b = Blk j" using assms(2,3) by (auto simp: real_block_def)
  then show ?thesis using assms by (auto simp: static_inv_def)
qed

lemma evict_spec:
  assumes "static_inv p" and "table_inv p" and "real_block p b"
  defines "p' \<equiv> snd (maybe_evict_cached_block b p)"
  shows "table_inv p'" and "static_inv p'" and "same_pool p p'"
    and "blk p' r = (if r = b then (blk p b)\<lparr>blk_hash := None\<rparr> else blk p r)"
    and "num_free_blocks (free_block_queue p') = num_free_blocks (free_block_queue p)"
proof -
  have "table_inv p' \<and> static_inv p' \<and> same_pool p p' \<and>
    (\<forall>r. blk p' r = (if r = b then (blk p b)\<lparr>blk_hash := None\<rparr> else blk p r)) \<and>
    num_free_blocks (free_block_queue p') = num_free_blocks (free_block_queue p)"
  proof (cases "blk_hash (blk p b)")
    case None
    then have "p' = p" by (simp add: p'_def maybe_evict_cached_block_def)
    moreover have "(blk p b)\<lparr>blk_hash := None\<rparr> = blk p b" using None by simp
    ultimately show ?thesis using assms by simp
  next
    case (Some h)
    from table_inv_hashD [OF assms(2,3) Some] obtain d where
      d: "map_of (cached_block_hash_to_block p) h = Some d" by blast
    have cached: "cached_block_hash_to_block p' =
        table_del h (block_id (blk p b)) d (cached_block_hash_to_block p)"
      and heap: "blk p' r = (if r = b then (blk p b)\<lparr>blk_hash := None\<rparr> else blk p r)" for r
      using Some d by (simp_all add: p'_def maybe_evict_cached_block_def Let_def link_simps)
    have num: "num_free_blocks (free_block_queue p') = num_free_blocks (free_block_queue p)"
      using Some d by (simp add: p'_def maybe_evict_cached_block_def Let_def link_simps)
    have sp: "same_pool p p'" using Some d heap
      by (simp add: same_pool_def p'_def maybe_evict_cached_block_def Let_def)
    note real = same_pool_real [OF sp]
    have "b \<noteq> Blk 0" using assms(3) by (auto simp: real_block_def)
    then have st: "static_inv p'" using heap by (intro static_inv_mono [OF assms(1) sp]) simp
    have look: "table_lookup (cached_block_hash_to_block p') h' i = Some a \<longleftrightarrow>
        real_block p' a \<and> i = block_id (blk p' a) \<and> blk_hash (blk p' a) = Some h'" for h' i a
    proof (cases "a = b")
      case True
      then show ?thesis using assms(2) Some
        by (auto simp: cached table_lookup_del [OF d] table_inv_def heap)
    next
      case False
      then show ?thesis using assms(2) Some static_inv_ids [OF assms(1) _ assms(3)]
        by (auto simp: cached table_lookup_del [OF d] table_inv_def heap real)
    qed
    have "enable_caching p' = enable_caching p" using sp by (simp add: same_pool_def)
    moreover have "table_wf (cached_block_hash_to_block p')"
      using assms(2) d by (simp add: cached table_wf_del table_inv_def)
    moreover have "enable_caching p" using assms(2) d by (auto simp: table_inv_def)
    ultimately have "table_inv p'" using look by (simp add: table_inv_def)
    with st sp heap num show ?thesis by blast
  qed
  then show "table_inv p'" "static_inv p'" "same_pool p p'"
    "blk p' r = (if r = b then (blk p b)\<lparr>blk_hash := None\<rparr> else blk p r)"
    "num_free_blocks (free_block_queue p') = num_free_blocks (free_block_queue p)" by auto
qed

text \<open>One block taken from the queue: counted once, without hash; nothing else moves.\<close>

lemma take_new_block_spec:
  assumes "static_inv p" and "table_inv p" and "real_block p b" and "ref_cnt (blk p b) = 0"
  shows "\<exists>p'. take_new_block b p = Ok p' \<and> static_inv p' \<and> table_inv p' \<and> same_pool p p' \<and>
    same_links (free_block_queue p) (free_block_queue p') \<and>
    (\<forall>r. ref_cnt (blk p' r) = (if r = b then 1 else ref_cnt (blk p r))) \<and>
    (\<forall>r. blk_hash (blk p' r) = (if r = b then None else blk_hash (blk p r)))"
proof (cases "enable_caching p")
  case True
  let ?e = "snd (maybe_evict_cached_block b p)"
  note e = evict_spec [OF assms(1-3)]
  have links: "same_links (free_block_queue p) (free_block_queue ?e)"
    using e(4,5) by (simp add: same_links_def)
  have "take_new_block b p = Ok (incr_ref b ?e)"
    using True assms(4) by (simp add: take_new_block_def e(4))
  moreover have "static_inv (incr_ref b ?e)" "table_inv (incr_ref b ?e)" "same_pool p (incr_ref b ?e)"
    using same_hashes_inv [OF same_hashes_refs(1)] e(1-3) same_hashes_refs(1) [of ?e b]
    by (auto simp: same_hashes_def intro: same_pool_trans)
  ultimately show ?thesis
    using same_links_trans [OF links same_links_refs(1)] assms(4) by (simp add: pool_simps e(4))
next
  case False
  have "blk_hash (blk p b) = None"
  proof (rule ccontr)
    assume "blk_hash (blk p b) \<noteq> None"
    then obtain h where "blk_hash (blk p b) = Some h" by blast
    from table_inv_hashD [OF assms(2,3) this] False assms(2) show False by (auto simp: table_inv_def)
  qed
  moreover have "take_new_block b p = Ok (incr_ref b p)"
    using False assms(4) by (simp add: take_new_block_def)
  ultimately show ?thesis
    using same_hashes_inv [OF same_hashes_refs(1) [of p b]] assms same_hashes_refs(1) [of p b]
    by (simp add: pool_simps same_hashes_def)
qed

lemma take_new_blocks_spec:
  assumes "static_inv p" and "table_inv p" and "distinct bs"
    and "\<forall>b \<in> set bs. real_block p b \<and> ref_cnt (blk p b) = 0"
  shows "\<exists>p'. rfold take_new_block bs p = Ok p' \<and> static_inv p' \<and> table_inv p' \<and> same_pool p p' \<and>
    same_links (free_block_queue p) (free_block_queue p') \<and>
    (\<forall>r. ref_cnt (blk p' r) = (if r \<in> set bs then 1 else ref_cnt (blk p r))) \<and>
    (\<forall>r. blk_hash (blk p' r) = (if r \<in> set bs then None else blk_hash (blk p r)))"
  using assms
proof (induction bs arbitrary: p)
  case Nil
  then show ?case by simp
next
  case (Cons b bs)
  have "real_block p b" "ref_cnt (blk p b) = 0" using Cons.prems(4) by auto
  from take_new_block_spec [OF Cons.prems(1,2) this] obtain p1 where
    p1: "take_new_block b p = Ok p1" "static_inv p1" "table_inv p1" "same_pool p p1"
      "same_links (free_block_queue p) (free_block_queue p1)"
      "\<forall>r. ref_cnt (blk p1 r) = (if r = b then 1 else ref_cnt (blk p r))"
      "\<forall>r. blk_hash (blk p1 r) = (if r = b then None else blk_hash (blk p r))" by blast
  have "\<forall>x \<in> set bs. real_block p1 x \<and> ref_cnt (blk p1 x) = 0"
    using Cons.prems(3,4) p1(6) same_pool_real [OF p1(4)] by auto
  with Cons.IH [OF p1(2,3)] Cons.prems(3) obtain p2 where
    p2: "rfold take_new_block bs p1 = Ok p2" "static_inv p2" "table_inv p2" "same_pool p1 p2"
      "same_links (free_block_queue p1) (free_block_queue p2)"
      "\<forall>r. ref_cnt (blk p2 r) = (if r \<in> set bs then 1 else ref_cnt (blk p1 r))"
      "\<forall>r. blk_hash (blk p2 r) = (if r \<in> set bs then None else blk_hash (blk p1 r))" by auto
  have "same_pool p p2" "same_links (free_block_queue p) (free_block_queue p2)"
    using p1(4,5) p2(4,5) by (blast intro: same_pool_trans same_links_trans)+
  with p1 p2 show ?case by auto
qed

text \<open>The pool either refuses, or hands out the first \<open>n\<close> blocks of the eviction order.\<close>

lemma get_new_blocks_spec:
  assumes "pool_inv p xs" and "0 \<le> n" and "n \<le> int (length xs)"
  obtains p' where "get_new_blocks n p = Ok (take (nat n) xs, p')" and "pool_inv p' (drop (nat n) xs)"
    and "same_pool p p'"
    and "\<forall>r. is_block r \<longrightarrow> ref_cnt (blk p' r) = (if r \<in> set (take (nat n) xs) then 1 else ref_cnt (blk p r))"
    and "\<forall>r. is_block r \<longrightarrow> blk_hash (blk p' r) = (if r \<in> set (take (nat n) xs) then None else blk_hash (blk p r))"
proof -
  let ?ys = "take (nat n) xs"
  have inv: "static_inv p" "table_inv p" "free_list (free_block_queue p) xs" "distinct xs"
    and mem: "\<And>r. r \<in> set xs \<longleftrightarrow> real_block p r \<and> ref_cnt (blk p r) = 0"
    and nonneg: "\<And>r. real_block p r \<Longrightarrow> 0 \<le> ref_cnt (blk p r)"
    using assms(1) fq.repr_distinct by (auto simp: pool_inv_def ref_inv_def)
  obtain q where q: "popleft_n n (free_block_queue p) = Ok (?ys, q)" "free_list q (drop (nat n) xs)"
      "same_payload (free_block_queue p) q"
    by (rule fq.pop_n_take [OF inv(3) assms(2,3)])
  let ?p1 = "p\<lparr>free_block_queue := q\<rparr>"
  have sh: "same_hashes p ?p1" by (rule same_hashes_queue [OF q(3)])
  then have sp: "same_pool p ?p1" by (simp add: same_hashes_def)
  have pay: "is_block r \<Longrightarrow> ref_cnt (heap q r) = ref_cnt (blk p r) \<and> blk_hash (heap q r) = blk_hash (blk p r)" for r
    using q(3) by (simp add: same_payload_def)
  have "\<forall>b \<in> set ?ys. real_block ?p1 b \<and> ref_cnt (blk ?p1 b) = 0"
    using mem pay same_pool_real [OF sp] by (auto dest!: in_set_takeD)
  moreover have "distinct ?ys" using inv(4) by simp
  ultimately obtain p' where
    p': "rfold take_new_block ?ys ?p1 = Ok p'" "static_inv p'" "table_inv p'" "same_pool ?p1 p'"
      "same_links q (free_block_queue p')"
      "\<forall>r. ref_cnt (blk p' r) = (if r \<in> set ?ys then 1 else ref_cnt (heap q r))"
      "\<forall>r. blk_hash (blk p' r) = (if r \<in> set ?ys then None else blk_hash (heap q r))"
    using take_new_blocks_spec [of ?p1 ?ys] same_hashes_inv [OF sh] inv(1,2) by auto
  have spp: "same_pool p p'" using sp p'(4) by (rule same_pool_trans)
  have split: "r \<in> set xs \<longleftrightarrow> r \<in> set ?ys \<or> r \<in> set (drop (nat n) xs)" for r
    by (metis append_take_drop_id set_append Un_iff)
  have disj: "r \<in> set ?ys \<Longrightarrow> r \<notin> set (drop (nat n) xs)" for r
    using inv(4) by (metis append_take_drop_id disjoint_iff distinct_append)
  have rc: "is_block r \<Longrightarrow> ref_cnt (blk p' r) = (if r \<in> set ?ys then 1 else ref_cnt (blk p r))" for r
    using p'(6) pay by simp
  have "ref_inv p' (drop (nat n) xs)"
    unfolding ref_inv_def same_pool_real [OF spp]
  proof (intro conjI allI impI)
    show "free_list (free_block_queue p') (drop (nat n) xs)"
      using q(2) p'(5) by (simp add: free_list_same_links)
    show "r \<in> set (drop (nat n) xs) \<longleftrightarrow> real_block p r \<and> ref_cnt (blk p' r) = 0" for r
      using mem [of r] split [of r] disj [of r] rc [of r] by auto
    show "0 \<le> ref_cnt (blk p' r)" if "real_block p r" for r
      using nonneg [OF that] rc [of r] that by simp
  qed
  then have "pool_inv p' (drop (nat n) xs)" using p' by (simp add: pool_inv_def)
  moreover have "get_num_free_blocks p = int (length xs)"
    using free_listD(5) [OF inv(3)] by (simp add: get_num_free_blocks_def)
  moreover have "get_new_blocks n p = Ok (?ys, p')"
    using q(1) p'(1) assms(3) calculation(2) by (simp add: get_new_blocks_def)
  ultimately show thesis using that spp rc p'(7) pay by simp
qed

lemma pool_inv_num_free: "pool_inv p xs \<Longrightarrow> get_num_free_blocks p = int (length xs)"
  by (simp add: pool_inv_def ref_inv_def get_num_free_blocks_def free_listD(5))

lemma get_new_blocks_refuses: "get_num_free_blocks p < n \<Longrightarrow> get_new_blocks n p = Err ValueError"
  by (simp add: get_new_blocks_def)

section \<open>Sharing and release\<close>

text \<open>A reference a client of the pool may hold.\<close>

definition pool_ref :: "block_pool \<Rightarrow> blk_ref \<Rightarrow> bool" where
  "pool_ref p b \<longleftrightarrow> real_block p b \<or> b = null_block p"

lemma pool_ref_is_block [simp]: "static_inv p \<Longrightarrow> pool_ref p b \<Longrightarrow> is_block b"
  by (auto simp: pool_ref_def static_inv_def)

lemma same_pool_ref: "same_pool p p' \<Longrightarrow> pool_ref p' b = pool_ref p b"
  by (simp add: pool_ref_def same_pool_real) (simp add: same_pool_def)

lemma null_not_real: "static_inv p \<Longrightarrow> \<not> real_block p (null_block p)"
  by (auto simp: static_inv_def real_block_def)

lemma is_null_iff: "static_inv p \<Longrightarrow> pool_ref p b \<Longrightarrow> is_null (blk p b) \<longleftrightarrow> \<not> real_block p b"
  by (auto simp: pool_ref_def null_not_real) (auto simp: static_inv_def)

lemma pool_inv_free:
  assumes "pool_inv p xs"
  shows "static_inv p" and "table_inv p" and "free_list (free_block_queue p) xs" and "distinct xs"
    and "r \<in> set xs \<longleftrightarrow> real_block p r \<and> ref_cnt (blk p r) = 0"
    and "real_block p r \<Longrightarrow> 0 \<le> ref_cnt (blk p r)"
  using assms fq.repr_distinct by (auto simp: pool_inv_def ref_inv_def)

text \<open>The invariant after a change of queue and counts that leaves the hashes alone.\<close>

lemma pool_invI:
  assumes "pool_inv p xs" and "same_hashes p p'" and "free_list (free_block_queue p') ys"
    and "\<And>r. real_block p r \<Longrightarrow> r \<in> set ys \<longleftrightarrow> ref_cnt (blk p' r) = 0"
    and "\<And>r. r \<in> set ys \<Longrightarrow> real_block p r"
    and "\<And>r. real_block p r \<Longrightarrow> 0 \<le> ref_cnt (blk p' r)"
  shows "pool_inv p' ys"
proof -
  have "same_pool p p'" using assms(2) by (simp add: same_hashes_def)
  note real = same_pool_real [OF this]
  have "static_inv p'" "table_inv p'"
    using same_hashes_inv [OF assms(2)] pool_inv_free(1,2) [OF assms(1)] by auto
  then show ?thesis using assms(3-6) by (auto simp: pool_inv_def ref_inv_def real)
qed

lemma touch_block_spec:
  assumes "pool_inv p xs" and "pool_ref p b"
  shows "\<exists>p'. touch_block b p = Ok p' \<and> pool_inv p' (remove1 b xs) \<and> same_hashes p p' \<and>
    (\<forall>r. is_block r \<longrightarrow> ref_cnt (blk p' r) = ref_cnt (blk p r) + (if r = b then 1 else 0))"
proof (cases "b \<in> set xs")
  case True
  note inv = pool_inv_free [OF assms(1)]
  from inv(3) True obtain q where q: "queue_remove b (free_block_queue p) = Ok q"
      "free_list q (remove1 b xs)" "same_payload (free_block_queue p) q" by (rule fq.rem_member)
  let ?p1 = "p\<lparr>free_block_queue := q\<rparr>"
  have b: "real_block p b" "ref_cnt (blk p b) = 0" using True inv(5) by auto
  then have "\<not> is_null (blk p b)" using inv(1) by (simp add: static_inv_def)
  with b q(1) have "touch_block b p = Ok (incr_ref b ?p1)" by (simp add: touch_block_def)
  moreover have sh: "same_hashes p (incr_ref b ?p1)"
    by (rule same_hashes_trans [OF same_hashes_queue [OF q(3)]]) simp
  moreover have rc: "ref_cnt (blk (incr_ref b ?p1) r) = ref_cnt (blk p r) + (if r = b then 1 else 0)"
    if "is_block r" for r
    using q(3) that by (auto simp: pool_simps same_payload_def)
  moreover have "free_list (free_block_queue (incr_ref b ?p1)) (remove1 b xs)"
    using q(2) free_list_same_links [OF same_links_refs(1) [of ?p1]] by simp
  then have "pool_inv (incr_ref b ?p1) (remove1 b xs)"
    using inv(4-6) rc b by (intro pool_invI [OF assms(1) sh]) auto
  ultimately show ?thesis by blast
next
  case False
  note inv = pool_inv_free [OF assms(1)]
  have "touch_block b p = Ok (incr_ref b p)"
    using False inv(5) is_null_iff [OF inv(1) assms(2)] by (auto simp: touch_block_def)
  moreover have rc: "ref_cnt (blk (incr_ref b p) r) = ref_cnt (blk p r) + (if r = b then 1 else 0)" for r
    by (simp add: pool_simps)
  moreover have "free_list (free_block_queue (incr_ref b p)) xs"
    using inv(3) by (simp add: free_list_same_links [OF same_links_refs(1)])
  then have "pool_inv (incr_ref b p) xs"
    using inv(5,6) rc False by (intro pool_invI [OF assms(1) same_hashes_refs(1)]) (auto simp: add_nonneg_eq_0_iff)
  ultimately show ?thesis using False by (auto simp: remove1_idem)
qed

lemma touch_list_spec:
  assumes "pool_inv p xs" and "\<forall>b \<in> set bs. pool_ref p b"
  shows "\<exists>p'. rfold touch_block bs p = Ok p' \<and> pool_inv p' (filter (\<lambda>x. x \<notin> set bs) xs) \<and>
    same_hashes p p' \<and>
    (\<forall>r. is_block r \<longrightarrow> ref_cnt (blk p' r) = ref_cnt (blk p r) + int (count (mset bs) r))"
  using assms
proof (induction bs arbitrary: p xs)
  case Nil
  then show ?case by simp
next
  case (Cons b bs)
  have "pool_ref p b" using Cons.prems(2) by simp
  from touch_block_spec [OF Cons.prems(1) this] obtain p1 where
    p1: "touch_block b p = Ok p1" "pool_inv p1 (remove1 b xs)" "same_hashes p p1"
      "\<And>r. is_block r \<Longrightarrow> ref_cnt (blk p1 r) = ref_cnt (blk p r) + (if r = b then 1 else 0)" by blast
  have "\<forall>c \<in> set bs. pool_ref p1 c"
    using Cons.prems(2) p1(3) same_pool_ref [of p p1] by (auto simp: same_hashes_def)
  from Cons.IH [OF p1(2) this] obtain p2 where
    p2: "rfold touch_block bs p1 = Ok p2" "pool_inv p2 (filter (\<lambda>x. x \<notin> set bs) (remove1 b xs))"
      "same_hashes p1 p2"
      "\<And>r. is_block r \<Longrightarrow> ref_cnt (blk p2 r) = ref_cnt (blk p1 r) + int (count (mset bs) r)" by blast
  have "filter (\<lambda>x. x \<notin> set bs) (remove1 b xs) = filter (\<lambda>x. x \<notin> set (b # bs)) xs"
    using pool_inv_free(4) [OF Cons.prems(1)]
    by (auto simp: distinct_remove1_removeAll removeAll_filter_not_eq intro: filter_cong)
  with p1 p2 show ?case by (auto intro: same_hashes_trans)
qed

lemma rfold_concat: "rfold (rfold f) xss s = rfold f (concat xss) s"
proof (induction xss arbitrary: s)
  case Nil
  show ?case by simp
next
  case (Cons xs xss)
  then have "rfold (rfold f) xss = rfold f (concat xss)" by blast
  then show ?case by (simp add: rfold_append)
qed

lemma touch_spec:
  assumes "pool_inv p xs" and "\<forall>b \<in> set (concat bss). pool_ref p b"
  obtains p' where "touch bss p = Ok p'" and "pool_inv p' (filter (\<lambda>x. x \<notin> set (concat bss)) xs)"
    and "same_hashes p p'"
    and "\<forall>r. is_block r \<longrightarrow> ref_cnt (blk p' r) = ref_cnt (blk p r) + int (count (mset (concat bss)) r)"
  using touch_list_spec [OF assms] that unfolding touch_def rfold_concat by blast

lemma blk_fold_decr:
  "blk (fold decr_ref bs p) r = (blk p r)\<lparr>ref_cnt := ref_cnt (blk p r) - int (count (mset bs) r)\<rparr>"
  by (induction bs arbitrary: p) (auto simp: pool_simps)

lemma same_fold_decr:
  "same_hashes p (fold decr_ref bs p)" "same_links (free_block_queue p) (free_block_queue (fold decr_ref bs p))"
  by (induction bs arbitrary: p)
    (auto intro: same_hashes_trans [OF same_hashes_refs(2)] same_links_trans [OF same_links_refs(2)])

text \<open>
  The blocks whose last reference goes are appended to the eviction order, in the order
  given.  A block may be given several times only if it is the null block.
\<close>

lemma free_blocks_spec:
  assumes "pool_inv p xs" and "\<forall>b \<in> set bs. pool_ref p b" and "distinct (filter (real_block p) bs)"
    and "\<forall>b \<in> set bs. real_block p b \<longrightarrow> 0 < ref_cnt (blk p b)"
  obtains p' where "free_blocks bs p = Ok p'"
    and "pool_inv p' (xs @ filter (\<lambda>b. real_block p b \<and> ref_cnt (blk p b) = 1) bs)"
    and "same_hashes p p'"
    and "\<forall>r. is_block r \<longrightarrow> ref_cnt (blk p' r) = ref_cnt (blk p r) - int (count (mset bs) r)"
proof -
  note inv = pool_inv_free [OF assms(1)]
  let ?p1 = "fold decr_ref bs p" and ?ys = "filter (\<lambda>b. real_block p b \<and> ref_cnt (blk p b) = 1) bs"
  note blk1 = blk_fold_decr [of bs p] and sh1 = same_fold_decr(1) [of p bs]
  have once: "count (mset bs) b = (if b \<in> set bs then 1 else 0)" if "real_block p b" for b
    using assms(3) that distinct_count_atmost_1 [of "filter (real_block p) bs"]
    by (auto simp: mset_filter dest: spec [of _ b])
  have null: "is_null (blk ?p1 b) \<longleftrightarrow> \<not> real_block p b" if "b \<in> set bs" for b
    using assms(2) that is_null_iff [OF inv(1)] by (simp add: blk1)
  have sel: "filter (\<lambda>b. ref_cnt (blk ?p1 b) = 0 \<and> \<not> is_null (blk ?p1 b)) bs = ?ys"
    by (rule filter_cong) (use null once in \<open>auto simp: blk1\<close>)
  have free1: "free_list (free_block_queue ?p1) xs"
    using inv(3) free_list_same_links [OF same_fold_decr(2)] by blast
  have "distinct ?ys"
  proof -
    have "?ys = filter (\<lambda>b. ref_cnt (blk p b) = 1) (filter (real_block p) bs)" by (simp add: conj_commute)
    with assms(3) show ?thesis by (metis distinct_filter)
  qed
  moreover have "set ?ys \<inter> set xs = {}" using inv(5) by auto
  moreover have "\<forall>b \<in> set ?ys. is_block b" by auto
  ultimately obtain q where q: "append_n ?ys (free_block_queue ?p1) = Ok q" "free_list q (xs @ ?ys)"
      "same_payload (free_block_queue ?p1) q"
    using fq.app_n_law [OF free1] by blast
  let ?p' = "?p1\<lparr>free_block_queue := q\<rparr>"
  have sh: "same_hashes p ?p'" by (rule same_hashes_trans [OF sh1 same_hashes_queue [OF q(3)]])
  have rc: "ref_cnt (blk ?p' r) = ref_cnt (blk p r) - int (count (mset bs) r)" if "is_block r" for r
    using q(3) that by (simp add: same_payload_def blk1)
  have "free_blocks bs p = Ok ?p'" using q(1) unfolding free_blocks_def Let_def sel by simp
  moreover have "pool_inv ?p' (xs @ ?ys)"
  proof (rule pool_invI [OF assms(1) sh])
    show "free_list (free_block_queue ?p') (xs @ ?ys)" using q(2) by simp
    show "r \<in> set (xs @ ?ys) \<longleftrightarrow> ref_cnt (blk ?p' r) = 0" if "real_block p r" for r
      using that rc [of r] once [OF that] inv(5) [of r] assms(4) by auto
    show "real_block p r" if "r \<in> set (xs @ ?ys)" for r using that inv(5) [of r] by auto
    show "0 \<le> ref_cnt (blk ?p' r)" if "real_block p r" for r
      using that rc [of r] once [OF that] inv(6) [OF that] assms(4) by fastforce
  qed
  ultimately show thesis using that sh rc by blast
qed

section \<open>Caching full blocks\<close>

text \<open>
  A list of block hashes that belongs to a request: each hash is that of the request's
  tokens at its position, over the hash before it.
\<close>

definition chained :: "int \<Rightarrow> hash_fn \<Rightarrow> int \<Rightarrow> request \<Rightarrow> block_hash list \<Rightarrow> bool" where
  "chained nh hf bs r hs \<longleftrightarrow> (\<forall>j < length hs. \<exists>ek.
     hs ! j = hash_block_tokens nh hf (if j = 0 then None else Some (hash_value (hs ! (j - 1))))
       (token_block r bs j) ek \<and> (\<not> need_extra_keys r \<longrightarrow> ek = None))"

lemma chained_Nil [simp]: "chained nh hf bs r []"
  by (simp add: chained_def)

lemma chained_snoc:
  assumes "chained nh hf bs r hs"
    and "h = hash_block_tokens nh hf (if hs = [] then None else Some (hash_value (last hs)))
               (token_block r bs (length hs)) ek"
    and "\<not> need_extra_keys r \<Longrightarrow> ek = None"
  shows "chained nh hf bs r (hs @ [h])"
  unfolding chained_def
proof (intro allI impI)
  fix j
  assume "j < length (hs @ [h])"
  then consider "j < length hs" | "j = length hs" by fastforce
  then show "\<exists>ek. (hs @ [h]) ! j = hash_block_tokens nh hf
      (if j = 0 then None else Some (hash_value ((hs @ [h]) ! (j - 1)))) (token_block r bs j) ek \<and>
      (\<not> need_extra_keys r \<longrightarrow> ek = None)"
  proof cases
    case 1
    then have "(hs @ [h]) ! j = hs ! j" "(hs @ [h]) ! (j - 1) = hs ! (j - 1)"
      using less_imp_diff_less [OF 1] by (simp_all add: nth_append)
    then show ?thesis using assms(1) 1 unfolding chained_def by metis
  next
    case 2
    then show ?thesis using assms(2,3)
      by (intro exI [of _ ek]) (auto simp: nth_append last_conv_nth)
  qed
qed

definition mm_hashed :: "request \<Rightarrow> bool" where
  "mm_hashed r \<longleftrightarrow> length (mm_positions r) = length (mm_hashes r)"

lemma mm_keys_loop_total:
  "length ps = length hs \<Longrightarrow> \<exists>x. mm_keys_loop ps hs s e cur keys = Ok x"
proof (induction ps hs s e cur keys rule: mm_keys_loop.induct)
  case (1 ps hs s e cur keys)
  show ?case
  proof (cases "cur < length ps")
    case True
    then have "py_index hs (int cur) = Ok (hs ! cur)" using 1(3) by (simp add: py_index_nonneg)
    with 1 True show ?thesis by (subst mm_keys_loop.simps) (auto simp: Let_def)
  qed (subst mm_keys_loop.simps, simp)
qed

lemma extra_keys_total:
  assumes "mm_hashed r"
  obtains ek i where "generate_block_hash_extra_keys r s e (-1) = Ok (ek, i)"
    and "\<not> need_extra_keys r \<Longrightarrow> ek = None"
proof -
  have "\<exists>ks i. gen_mm_extra_hash_keys r s e (-1) = Ok (ks, i) \<and> (mm_hashes r = [] \<longrightarrow> ks = [])"
  proof (cases "mm_positions r = []")
    case True
    then show ?thesis by (simp add: gen_mm_extra_hash_keys_def)
  next
    case False
    then have ne: "mm_hashes r \<noteq> []" "length (mm_positions r) = length (mm_hashes r)"
      using assms by (auto simp: mm_hashed_def)
    from mm_keys_loop_total [OF ne(2)]
    obtain ks i where "mm_keys_loop (mm_positions r) (mm_hashes r) s e (nat (int (length (mm_positions r)) - 1)) [] = Ok (ks, i)"
      by fast
    with False ne show ?thesis by (auto simp: gen_mm_extra_hash_keys_def Let_def Suc_le_eq)
  qed
  then obtain ks i where k: "gen_mm_extra_hash_keys r s e (-1) = Ok (ks, i)" "mm_hashes r = [] \<longrightarrow> ks = []" by blast
  then show thesis
    using that [of "if gen_lora_extra_hash_keys r @ ks @ cache_salt_keys r s = [] then None
        else Some (gen_lora_extra_hash_keys r @ ks @ cache_salt_keys r s)" i]
    by (auto simp: generate_block_hash_extra_keys_def Let_def need_extra_keys_def
        gen_lora_extra_hash_keys_def cache_salt_keys_def)
qed

text \<open>What caching leaves alone.\<close>

definition cache_frame :: "block_pool \<Rightarrow> block_pool \<Rightarrow> bool" where
  "cache_frame p p' \<longleftrightarrow> same_pool p p' \<and> same_links (free_block_queue p) (free_block_queue p') \<and>
     (\<forall>r. ref_cnt (blk p' r) = ref_cnt (blk p r))"

definition hashed_as :: "block_pool \<Rightarrow> blk_ref list \<Rightarrow> nat \<Rightarrow> block_hash list \<Rightarrow> bool" where
  "hashed_as p bls gid hs \<longleftrightarrow>
     (\<forall>k < length bls. blk_hash (blk p (bls ! k)) = Some (BlockHashWithGroupId (hs ! k) gid))"

lemma cache_frame_trans: "cache_frame p p' \<Longrightarrow> cache_frame p' p'' \<Longrightarrow> cache_frame p p''"
  by (auto simp: cache_frame_def intro: same_pool_trans same_links_trans)

lemma cache_frame_inv:
  assumes "pool_inv p xs" and "cache_frame p p'" and "static_inv p'" and "table_inv p'"
  shows "pool_inv p' xs"
  using assms same_pool_real [of p p'] free_list_same_links [of "free_block_queue p" "free_block_queue p'"]
  by (simp add: pool_inv_def ref_inv_def cache_frame_def)

text \<open>Giving one block its hash and entering it into the table.\<close>

lemma cache_one_spec:
  assumes "static_inv p" and "table_inv p" and "enable_caching p"
    and "real_block p b" and "blk_hash (blk p b) = None"
  obtains p' where "cache_one b hg p = Ok p'" and "static_inv p'" and "table_inv p'"
    and "cache_frame p p'"
    and "\<forall>r. blk_hash (blk p' r) = (if r = b then Some hg else blk_hash (blk p r))"
proof -
  define q where "q = (free_block_queue p)\<lparr>heap := (heap (free_block_queue p))(b := (blk p b)\<lparr>blk_hash := Some hg\<rparr>)\<rparr>"
  let ?p = "p\<lparr>free_block_queue := q, cached_block_hash_to_block :=
    table_put hg (block_id (heap q b)) b (cached_block_hash_to_block p)\<rparr>"
  have set: "cache_one b hg p = Ok ?p"
    using assms(5) by (simp add: set_block_hash_def cache_one_def q_def)
  have hq: "heap q r = (if r = b then (blk p b)\<lparr>blk_hash := Some hg\<rparr> else blk p r)" for r
    by (simp add: q_def)
  have sp: "same_pool p ?p" by (simp add: same_pool_def hq)
  note real = same_pool_real [OF sp]
  have "b \<noteq> Blk 0" using assms(4) by (auto simp: real_block_def)
  then have st: "static_inv ?p" by (intro static_inv_mono [OF assms(1) sp]) (simp add: hq)
  have "table_inv ?p"
    unfolding table_inv_def
  proof (intro conjI allI)
    show "table_wf (cached_block_hash_to_block ?p)"
      using assms(2) by (simp add: table_inv_def table_wf_put)
    show "\<not> enable_caching ?p \<longrightarrow> cached_block_hash_to_block ?p = []" using assms(3) by simp
    show "table_lookup (cached_block_hash_to_block ?p) h i = Some a \<longleftrightarrow>
        real_block ?p a \<and> i = block_id (blk ?p a) \<and> blk_hash (blk ?p a) = Some h" for h i a
    proof (cases "a = b")
      case True
      then show ?thesis using assms(2,4,5) unfolding real by (auto simp: table_lookup_put table_inv_def hq)
    next
      case False
      then show ?thesis using assms(2) static_inv_ids [OF assms(1) _ assms(4)] unfolding real
        by (auto simp: table_lookup_put table_inv_def hq)
    qed
  qed
  moreover have "cache_frame p ?p" using sp by (simp add: cache_frame_def same_links_def hq) (simp add: q_def)
  ultimately show thesis using that [OF set st] by (simp add: hq)
qed

text \<open>The hash of the next block, reused or computed.\<close>

lemma next_block_hash_spec:
  assumes "0 < bs" and "mm_hashed r" and "nc + i < num_full_blocks_of r bs"
    and "nc + i \<le> length bhs" and "i < length nbh \<Longrightarrow> bhs = take nc bhs @ nbh"
    and "length nbh \<le> i \<Longrightarrow> length bhs = nc + i" and "chained nh hf bs r bhs"
    and "prev = (if nc + i = 0 then None else Some (hash_value (bhs ! (nc + i - 1))))"
  obtains h bhs' where "next_block_hash nh hf r bs (int nc) i nbh bhs prev = Ok (h, bhs')"
    and "chained nh hf bs r bhs'" and "bhs' ! (nc + i) = h" and "take (length bhs) bhs' = bhs"
    and "length bhs' = max (length bhs) (Suc (nc + i))"
    and "i < length nbh \<longrightarrow> bhs' = bhs \<and> length bhs = nc + length nbh"
proof (cases "i < length nbh")
  case True
  have e: "bhs = take nc bhs @ nbh" using assms(5) True .
  have t: "length (take nc bhs) = nc" using assms(4) by simp
  have "length bhs = nc + length nbh" using arg_cong [OF e, of length] t by simp
  moreover have "bhs ! (nc + i) = nbh ! i"
    using t by (subst e) (simp add: nth_append)
  ultimately show thesis
    using True assms(7) by (intro that [of "nbh ! i" bhs]) (simp_all add: next_block_hash_def)
next
  case False
  then have len: "length bhs = nc + i" using assms(6) by simp
  obtain ek j where ek: "generate_block_hash_extra_keys r ((int nc + int i) * bs)
        ((int nc + int i + 1) * bs) (-1) = Ok (ek, j)" "\<not> need_extra_keys r \<Longrightarrow> ek = None"
    using extra_keys_total [OF assms(2), of "(int nc + int i) * bs" "(int nc + int i + 1) * bs"] by blast
  have full: "int (length (token_block r bs (nc + i))) = bs"
    using token_block_full [OF assms(1), of r "nc + i"] assms(1,3) by (auto simp: token_block_eq)
  have slice: "py_slice (all_token_ids r) ((int nc + int i) * bs) ((int nc + int i + 1) * bs)
      = token_block r bs (nc + i)"
    by (simp add: token_block_def algebra_simps)
  let ?h = "hash_block_tokens nh hf prev (token_block r bs (nc + i)) ek"
  have "next_block_hash nh hf r bs (int nc) i nbh bhs prev = Ok (?h, bhs @ [?h])"
    using False full ek(1) by (simp add: next_block_hash_def Let_def slice)
  moreover have "chained nh hf bs r (bhs @ [?h])"
    using ek(2) by (intro chained_snoc [OF assms(7), where ek = ek])
      (auto simp: assms(8) len [symmetric] last_conv_nth)
  ultimately show thesis using that len False by (simp add: nth_append)
qed

text \<open>
  The loop of \<open>cache_full_blocks\<close>, at position \<open>nc + i\<close> of the request: it cannot raise
  when the tokens of the blocks exist, every block gets the hash of its position, and the
  request's list of hashes is extended to cover the new blocks.
\<close>

lemma cache_full_loop_spec:
  assumes "0 < bs" and "mm_hashed r" and "enable_caching p" and "static_inv p" and "table_inv p"
    and "distinct bls" and "\<forall>b \<in> set bls. real_block p b \<and> blk_hash (blk p b) = None"
    and "nc + i + length bls \<le> num_full_blocks_of r bs"
    and "nc + i \<le> length bhs" and "i < length nbh \<Longrightarrow> bhs = take nc bhs @ nbh"
    and "length nbh \<le> i \<Longrightarrow> length bhs = nc + i" and "chained nh hf bs r bhs"
    and "prev = (if nc + i = 0 then None else Some (hash_value (bhs ! (nc + i - 1))))"
  shows "\<exists>bhs' nhs' p'.
    cache_full_loop nh hf r bs gid (int nc) i bls nbh bhs prev nhs p = Ok (bhs', nhs', p') \<and>
    static_inv p' \<and> table_inv p' \<and> cache_frame p p' \<and>
    (\<forall>r. r \<notin> set bls \<longrightarrow> blk_hash (blk p' r) = blk_hash (blk p r)) \<and>
    hashed_as p' bls gid (drop (nc + i) bhs') \<and> chained nh hf bs r bhs' \<and>
    length bhs' = max (length bhs) (nc + i + length bls) \<and> take (length bhs) bhs' = bhs"
  using assms(3-)
proof (induction bls arbitrary: i bhs prev nhs p)
  case Nil
  then show ?case by (simp add: max_def cache_frame_def hashed_as_def)
next
  case (Cons b bls)
  have "nc + i < num_full_blocks_of r bs" using Cons.prems(6) by simp
  then obtain h bhs1 where nx: "next_block_hash nh hf r bs (int nc) i nbh bhs prev = Ok (h, bhs1)"
      "chained nh hf bs r bhs1" "bhs1 ! (nc + i) = h" "take (length bhs) bhs1 = bhs"
      "length bhs1 = max (length bhs) (Suc (nc + i))"
      "i < length nbh \<longrightarrow> bhs1 = bhs \<and> length bhs = nc + length nbh"
    using Cons.prems(7-) by (rule next_block_hash_spec [OF assms(1,2)])
  let ?hg = "BlockHashWithGroupId h gid"
  have b: "real_block p b" "blk_hash (blk p b) = None" using Cons.prems(5) by auto
  obtain p1 where p1: "cache_one b ?hg p = Ok p1" "static_inv p1" "table_inv p1" "cache_frame p p1"
      "\<forall>r. blk_hash (blk p1 r) = (if r = b then Some ?hg else blk_hash (blk p r))"
    by (rule cache_one_spec [OF Cons.prems(2,3,1) b, of ?hg])
  have step: "cache_full_loop nh hf r bs gid (int nc) i (b # bls) nbh bhs prev nhs p =
      cache_full_loop nh hf r bs gid (int nc) (Suc i) bls nbh bhs1 (Some (hash_value h))
        (map_option (\<lambda>ns. ns @ [hash_value h]) nhs) p1"
    using b(2) nx(1) p1(1) by (simp add: Let_def)
  have sp1: "same_pool p p1" using p1(4) by (simp add: cache_frame_def)
  have "\<exists>bhs' nhs' p'. cache_full_loop nh hf r bs gid (int nc) i (b # bls) nbh bhs prev nhs p
      = Ok (bhs', nhs', p') \<and> static_inv p' \<and> table_inv p' \<and> cache_frame p1 p' \<and>
    (\<forall>r. r \<notin> set bls \<longrightarrow> blk_hash (blk p' r) = blk_hash (blk p1 r)) \<and>
    hashed_as p' bls gid (drop (nc + Suc i) bhs') \<and> chained nh hf bs r bhs' \<and>
    length bhs' = max (length bhs1) (nc + Suc i + length bls) \<and> take (length bhs1) bhs' = bhs1"
    unfolding step
  proof (rule Cons.IH [OF _ p1(2,3)])
    show "enable_caching p1" using sp1 Cons.prems(1) by (simp add: same_pool_def)
    show "\<forall>x \<in> set bls. real_block p1 x \<and> blk_hash (blk p1 x) = None"
      using Cons.prems(4,5) same_pool_real [OF sp1] p1(5) by auto
    show "bhs1 = take nc bhs1 @ nbh" if "Suc i < length nbh"
      using that nx(6) Cons.prems(8) by simp
    show "length bhs1 = nc + Suc i" if "length nbh \<le> Suc i"
      using that nx(5,6) Cons.prems(9) by (cases "i < length nbh") auto
  qed (use Cons.prems nx in simp_all)
  then obtain bhs' nhs' p' where ih:
    "cache_full_loop nh hf r bs gid (int nc) i (b # bls) nbh bhs prev nhs p = Ok (bhs', nhs', p')"
    "static_inv p'" "table_inv p'" "cache_frame p1 p'"
    "\<forall>r. r \<notin> set bls \<longrightarrow> blk_hash (blk p' r) = blk_hash (blk p1 r)"
    "hashed_as p' bls gid (drop (nc + Suc i) bhs')" "chained nh hf bs r bhs'"
    "length bhs' = max (length bhs1) (nc + Suc i + length bls)" "take (length bhs1) bhs' = bhs1" by blast
  have "bhs' ! (nc + i) = bhs1 ! (nc + i)"
    using ih(9) nx(5) by (metis lessI max.strict_coboundedI2 nth_take)
  then have h0: "blk_hash (blk p' b) = Some (BlockHashWithGroupId (bhs' ! (nc + i)) gid)"
    using ih(5) Cons.prems(4) nx(3) p1(5) by simp
  have "hashed_as p' (b # bls) gid (drop (nc + i) bhs')"
    unfolding hashed_as_def
  proof (intro allI impI)
    show "blk_hash (blk p' ((b # bls) ! k)) = Some (BlockHashWithGroupId (drop (nc + i) bhs' ! k) gid)"
      if "k < length (b # bls)" for k
      using that h0 ih(6,8) nx(5) by (cases k) (auto simp: hashed_as_def)
  qed
  moreover have "take (length bhs) bhs' = bhs"
    using ih(9) nx(4,5) by (metis max.cobounded1 min.absorb1 take_take)
  moreover have "length bhs' = max (length bhs) (nc + i + length (b # bls))"
    using ih(8) nx(5) by simp
  moreover have "cache_frame p p'" using p1(4) ih(4) by (rule cache_frame_trans)
  moreover have "\<forall>r. r \<notin> set (b # bls) \<longrightarrow> blk_hash (blk p' r) = blk_hash (blk p r)"
    using ih(5) p1(5) by simp
  ultimately show ?case using ih(1-3,7) by blast
qed

lemma cache_full_blocks_spec:
  assumes "pool_inv p xs" and "enable_caching p" and "0 < bs" and "mm_hashed r"
    and "enable_kv_cache_events p \<longrightarrow> lora r = None"
    and "nc \<le> nf" and "nf \<le> length blocks" and "nf \<le> num_full_blocks_of r bs"
    and "nc \<le> length bhs" and "chained nh hf bs r bhs"
    and "distinct (drop nc (take nf blocks))"
    and "\<forall>b \<in> set (drop nc (take nf blocks)). real_block p b \<and> blk_hash (blk p b) = None"
    and "nc = 0 \<or> (\<exists>hg. blk_hash (blk p (blocks ! (nc - 1))) = Some hg \<and>
           get_hash_value hg = hash_value (bhs ! (nc - 1)))"
  obtains bhs' p' where
    "cache_full_blocks nh hf r blocks bhs (int nc) (int nf) bs gid p = Ok (bhs', p')"
    and "pool_inv p' xs" and "cache_frame p p'"
    and "\<forall>r. r \<notin> set (drop nc (take nf blocks)) \<longrightarrow> blk_hash (blk p' r) = blk_hash (blk p r)"
    and "hashed_as p' (drop nc (take nf blocks)) gid (drop nc bhs')"
    and "chained nh hf bs r bhs'" and "length bhs' = max (length bhs) nf" and "take (length bhs) bhs' = bhs"
proof (cases "nc = nf")
  case True
  then show thesis using that [of bhs p] assms
    by (simp add: cache_full_blocks_def hashed_as_def cache_frame_def max_def)
next
  case False
  note inv = pool_inv_free [OF assms(1)]
  define parent where "parent = (if nc = 0 then None else Some (hash_value (bhs ! (nc - 1))))"
  have bl: "py_slice blocks (int nc) (int nf) = drop nc (take nf blocks)"
    by (simp add: py_slice_nonneg drop_take)
  have hl: "py_slice bhs (int nc) (int (length bhs)) = drop nc bhs"
    by (simp add: py_slice_nonneg)
  have par: "(if int nc = 0 then Ok None else rbind (py_index blocks (int nc - 1)) (\<lambda>b.
      case blk_hash (blk p b) of None \<Rightarrow> Err AssertionError | Some hg \<Rightarrow> Ok (Some (get_hash_value hg)))) = Ok parent"
    using assms(6,7,13) by (auto simp: parent_def py_index_def Let_def nat_diff_distrib')
  have len: "nc + 0 + length (drop nc (take nf blocks)) = nf" using assms(6,7) by simp
  have "\<exists>bhs' nhs' p'. cache_full_loop nh hf r bs gid (int nc) 0 (drop nc (take nf blocks)) (drop nc bhs) bhs
      parent (if enable_kv_cache_events p then Some [] else None) p = Ok (bhs', nhs', p') \<and>
    static_inv p' \<and> table_inv p' \<and> cache_frame p p' \<and>
    (\<forall>r. r \<notin> set (drop nc (take nf blocks)) \<longrightarrow> blk_hash (blk p' r) = blk_hash (blk p r)) \<and>
    hashed_as p' (drop nc (take nf blocks)) gid (drop (nc + 0) bhs') \<and> chained nh hf bs r bhs' \<and>
    length bhs' = max (length bhs) (nc + 0 + length (drop nc (take nf blocks))) \<and> take (length bhs) bhs' = bhs"
    by (rule cache_full_loop_spec [OF assms(3,4,2) inv(1,2) assms(11,12)])
      (use assms(6-10) len in \<open>simp_all add: parent_def\<close>)
  then obtain bhs' nhs' p' where l: "cache_full_loop nh hf r bs gid (int nc) 0 (drop nc (take nf blocks)) (drop nc bhs) bhs
      parent (if enable_kv_cache_events p then Some [] else None) p = Ok (bhs', nhs', p')"
    "static_inv p'" "table_inv p'" "cache_frame p p'"
    "\<forall>r. r \<notin> set (drop nc (take nf blocks)) \<longrightarrow> blk_hash (blk p' r) = blk_hash (blk p r)"
    "hashed_as p' (drop nc (take nf blocks)) gid (drop nc bhs')" "chained nh hf bs r bhs'"
    "length bhs' = max (length bhs) nf" "take (length bhs) bhs' = bhs"
    unfolding len by auto
  have ev: "enable_kv_cache_events p' = enable_kv_cache_events p"
    using l(4) by (simp add: cache_frame_def same_pool_def)
  have pi: "pool_inv p' xs" by (rule cache_frame_inv [OF assms(1) l(4,2,3)])
  let ?p2 = "if enable_kv_cache_events p then p'\<lparr>kv_event_queue := kv_event_queue p' @
      [BlockStored (or_empty nhs') parent (py_slice (all_token_ids r) (int nc * bs) (int nf * bs)) bs None]\<rparr> else p'"
  have "cache_full_blocks nh hf r blocks bhs (int nc) (int nf) bs gid p = Ok (bhs', ?p2)"
    using False assms(5,9) l(1) ev
    by (simp add: cache_full_blocks_def Let_def bl hl par del: of_nat_eq_0_iff)
  then show thesis
  proof (rule that)
    show "pool_inv ?p2 xs" using pi
      by (simp add: pool_inv_def static_inv_def ref_inv_def table_inv_def real_block_def)
    show "cache_frame p ?p2" using l(4) by (simp add: cache_frame_def same_pool_def)
    show "hashed_as ?p2 (drop nc (take nf blocks)) gid (drop nc bhs')" using l(6) by (simp add: hashed_as_def)
  qed (use l in simp_all)
qed

section \<open>Construction, lookup and reset\<close>

lemma BlockPool_init_spec:
  assumes "0 < n"
  obtains p where "BlockPool_init n caching events = Ok p" and "pool_inv p (map Blk [1..<nat n])"
    and "num_gpu_blocks p = n" and "enable_caching p = caching" and "null_block p = Blk 0"
    and "cached_block_hash_to_block p = []" and "\<forall>r. real_block p r \<longrightarrow> blk_hash (blk p r) = None"
proof -
  have up: "map Blk [0..<nat n] = Blk 0 # map Blk [1..<nat n]"
    using assms by (simp add: upt_conv_Cons)
  let ?q0 = "FreeKVCacheBlockQueue_init fresh_heap (map Blk [0..<nat n])"
  have "free_list ?q0 (map Blk [0..<nat n])"
    and pay: "same_payload \<lparr>heap = fresh_heap, num_free_blocks = 0\<rparr> ?q0"
    using queue_init_spec [of "map Blk [0..<nat n]" fresh_heap]
    by (auto simp: distinct_map inj_on_def fresh_heap_def KVCacheBlock_init_def)
  then have "free_list ?q0 (Blk 0 # map Blk [1..<nat n])" by (simp only: up)
  then obtain q where q: "popleft ?q0 = Ok (Blk 0, q)" "free_list q (map Blk [1..<nat n])" "same_payload ?q0 q"
    using fq.pop_law by blast
  define p where "p = \<lparr>num_gpu_blocks = n, enable_caching = caching, free_block_queue = set_is_null (Blk 0) q,
     cached_block_hash_to_block = [], null_block = Blk 0, enable_kv_cache_events = events, kv_event_queue = []\<rparr>"
  have heap: "is_block r \<Longrightarrow> block_id (heap q r) = block_id (fresh_heap r) \<and> ref_cnt (heap q r) = 0 \<and>
      blk_hash (heap q r) = None \<and> \<not> is_null (heap q r)" for r
    using same_payload_trans [OF pay q(3)] by (simp add: same_payload_def fresh_heap_def KVCacheBlock_init_def)
  have blk: "blk p r = (if r = Blk 0 then (heap q r)\<lparr>is_null := True\<rparr> else heap q r)" for r
    by (simp add: p_def set_is_null_def)
  have "same_links q (free_block_queue p)" by (simp add: same_links_def blk) (simp add: p_def set_is_null_def)
  then have "free_list (free_block_queue p) (map Blk [1..<nat n])" using q(2) free_list_same_links by blast
  moreover have "r \<in> set (map Blk [1..<nat n]) \<longleftrightarrow> real_block p r" for r
    by (auto simp: real_block_def p_def image_iff)
  moreover have "real_block p r \<Longrightarrow> r \<noteq> Blk 0" for r by (auto simp: real_block_def)
  ultimately have "pool_inv p (map Blk [1..<nat n])"
    using assms heap unfolding pool_inv_def static_inv_def ref_inv_def table_inv_def
    by (auto simp: blk fresh_heap_def KVCacheBlock_init_def) (auto simp: p_def)
  moreover have "BlockPool_init n caching events = Ok p"
    using assms q(1) by (simp add: BlockPool_init_def p_def)
  moreover have "\<forall>r. real_block p r \<longrightarrow> blk_hash (blk p r) = None" using heap by (simp add: blk)
  ultimately show thesis using that by (simp add: p_def)
qed

text \<open>A hit returns, for every group, a block that carries the hash; a miss means none does.\<close>

lemma get_cached_block_hit:
  assumes "table_inv p" and "get_cached_block h gs p = Some bs"
  shows "list_all2 (\<lambda>g b. real_block p b \<and> blk_hash (blk p b) = Some (BlockHashWithGroupId h g)) gs bs"
  using assms(2)
proof (induction gs arbitrary: bs)
  case Nil
  then show ?case by simp
next
  case (Cons g gs)
  then obtain i b d bs' where d: "map_of (cached_block_hash_to_block p) (BlockHashWithGroupId h g) = Some ((i, b) # d)"
      "get_cached_block h gs p = Some bs'" "bs = b # bs'"
    by (auto split: option.splits list.splits)
  then have "table_lookup (cached_block_hash_to_block p) (BlockHashWithGroupId h g) i = Some b"
    by (simp add: table_lookup_def)
  with assms(1) d Cons.IH show ?case by (simp add: table_inv_def)
qed

lemma get_cached_block_miss:
  assumes "table_inv p" and "get_cached_block h gs p = None"
  shows "\<exists>g \<in> set gs. \<forall>b. real_block p b \<longrightarrow> blk_hash (blk p b) \<noteq> Some (BlockHashWithGroupId h g)"
  using assms(2)
proof (induction gs)
  case Nil
  then show ?case by simp
next
  case (Cons g gs)
  show ?case
  proof (cases "map_of (cached_block_hash_to_block p) (BlockHashWithGroupId h g)")
    case None
    then have "table_lookup (cached_block_hash_to_block p) (BlockHashWithGroupId h g) i = None" for i
      by (simp add: table_lookup_def)
    then have "\<forall>b. real_block p b \<longrightarrow> blk_hash (blk p b) \<noteq> Some (BlockHashWithGroupId h g)"
      using assms(1) by (metis option.distinct(1) table_inv_def)
    then show ?thesis by simp
  next
    case (Some d)
    then have "d \<noteq> []" using assms(1) by (auto simp: table_inv_def table_wf_def)
    with Cons Some show ?thesis by (auto split: list.splits option.splits)
  qed
qed

lemma all_free_iff:
  assumes "pool_inv p xs"
  shows "num_gpu_blocks p - get_num_free_blocks p = 1 \<longleftrightarrow> (\<forall>b. real_block p b \<longrightarrow> ref_cnt (blk p b) = 0)"
proof -
  note inv = pool_inv_free [OF assms]
  have pos: "0 < num_gpu_blocks p" using inv(1) by (simp add: static_inv_def)
  have sub: "set xs \<subseteq> set (real_blocks p)" using inv(5) by (auto simp: set_real_blocks [OF pos])
  have "int (length (real_blocks p)) = num_gpu_blocks p - 1" using pos by (simp add: real_blocks_def)
  then have "num_gpu_blocks p - get_num_free_blocks p = 1 \<longleftrightarrow> card (set xs) = card (set (real_blocks p))"
    using pool_inv_num_free [OF assms] distinct_card [OF inv(4)] distinct_card [OF distinct_real_blocks, of p]
    by simp linarith
  also have "\<dots> \<longleftrightarrow> set xs = set (real_blocks p)" using sub by (auto dest: card_subset_eq [rotated 1])
  also have "\<dots> \<longleftrightarrow> (\<forall>b. real_block p b \<longrightarrow> ref_cnt (blk p b) = 0)"
    using inv(5) sub by (auto simp: set_real_blocks [OF pos])
  finally show ?thesis .
qed

lemma fold_reset_hash:
  "heap (fold reset_hash bs q) r = (if r \<in> set bs then (heap q r)\<lparr>blk_hash := None\<rparr> else heap q r)"
  "num_free_blocks (fold reset_hash bs q) = num_free_blocks q"
  by (induction bs arbitrary: q) (auto simp: link_simps)

lemma reset_prefix_cache_spec:
  assumes "pool_inv p xs" and "\<forall>b. real_block p b \<longrightarrow> ref_cnt (blk p b) = 0"
  obtains p' where "reset_prefix_cache p = (True, p')" and "pool_inv p' xs" and "same_pool p p'"
    and "\<forall>r. real_block p r \<longrightarrow> blk_hash (blk p' r) = None" and "\<forall>r. ref_cnt (blk p' r) = ref_cnt (blk p r)"
    and "cached_block_hash_to_block p' = []"
proof -
  note inv = pool_inv_free [OF assms(1)]
  define p' where "p' = snd (reset_prefix_cache p)"
  have one: "num_gpu_blocks p - get_num_free_blocks p = 1" using all_free_iff [OF assms(1)] assms(2) by simp
  then have res: "reset_prefix_cache p = (True, p')" by (simp add: p'_def reset_prefix_cache_def Let_def)
  have blk: "blk p' r = (if r \<in> set (pool_blocks p) then (blk p r)\<lparr>blk_hash := None\<rparr> else blk p r)"
    and num: "num_free_blocks (free_block_queue p') = num_free_blocks (free_block_queue p)"
    and tab: "cached_block_hash_to_block p' = []" for r
    using one by (simp_all add: p'_def reset_prefix_cache_def Let_def fold_reset_hash pool_blocks_def)
  have sp: "same_pool p p'" using one blk
    by (simp add: same_pool_def p'_def reset_prefix_cache_def Let_def)
  have in_pool: "real_block p r \<Longrightarrow> r \<in> set (pool_blocks p)" for r
    by (auto simp: real_block_def pool_blocks_def)
  then have none: "\<forall>r. real_block p r \<longrightarrow> blk_hash (blk p' r) = None" by (simp add: blk)
  have cf: "cache_frame p p'" using sp by (auto simp: cache_frame_def same_links_def num blk)
  have st: "static_inv p'" using inv(1) by (intro static_inv_mono [OF inv(1) sp]) (simp add: blk static_inv_def)
  have "table_inv p'" using none same_pool_real [OF sp] by (auto simp: table_inv_def tab)
  with cf st have "pool_inv p' xs" by (intro cache_frame_inv [OF assms(1)])
  with res sp none tab show thesis by (intro that) (auto simp: blk)
qed

section \<open>The interface of the pool\<close>

text \<open>
  A pool of reference-counted blocks: \<open>inv p xs\<close> says that the pool is consistent and \<open>xs\<close>
  are its free blocks in eviction order, \<open>blocks p\<close> are the blocks it manages, \<open>ref p\<close> the
  references a client may hold (a null block included) and \<open>rc p b\<close> the count of \<open>b\<close>.
  The lemmas are those of a client that keeps a ledger \<open>M\<close> of the references it holds.
\<close>

locale ref_counted_pool =
  fixes inv :: "'p \<Rightarrow> 'b list \<Rightarrow> bool"
    and blocks :: "'p \<Rightarrow> 'b list"
    and ref :: "'p \<Rightarrow> 'b \<Rightarrow> bool"
    and rc :: "'p \<Rightarrow> 'b \<Rightarrow> int"
    and alloc :: "int \<Rightarrow> 'p \<Rightarrow> ('b list \<times> 'p) res"
    and share :: "'b list \<Rightarrow> 'p \<Rightarrow> 'p res"
    and release :: "'b list \<Rightarrow> 'p \<Rightarrow> 'p res"
  assumes blocks_distinct: "distinct (blocks p)"
    and free_distinct: "inv p xs \<Longrightarrow> distinct xs"
    and free_iff: "inv p xs \<Longrightarrow> b \<in> set xs \<longleftrightarrow> b \<in> set (blocks p) \<and> rc p b = 0"
    and alloc_law: "inv p xs \<Longrightarrow> 0 \<le> n \<Longrightarrow> n \<le> int (length xs) \<Longrightarrow>
      \<exists>p'. alloc n p = Ok (take (nat n) xs, p') \<and> inv p' (drop (nat n) xs) \<and> blocks p' = blocks p \<and>
        (\<forall>b \<in> set (blocks p). rc p' b = (if b \<in> set (take (nat n) xs) then 1 else rc p b))"
    and alloc_refuses: "inv p xs \<Longrightarrow> int (length xs) < n \<Longrightarrow> alloc n p = Err ValueError"
    and share_law: "inv p xs \<Longrightarrow> \<forall>b \<in> set bs. ref p b \<Longrightarrow>
      \<exists>p' ys. share bs p = Ok p' \<and> inv p' ys \<and> blocks p' = blocks p \<and>
        (\<forall>b \<in> set (blocks p). rc p' b = rc p b + int (count (mset bs) b))"
    and release_law: "inv p xs \<Longrightarrow> \<forall>b \<in> set bs. ref p b \<Longrightarrow>
      distinct (filter (\<lambda>b. b \<in> set (blocks p)) bs) \<Longrightarrow>
      \<forall>b \<in> set bs. b \<in> set (blocks p) \<longrightarrow> 0 < rc p b \<Longrightarrow>
      \<exists>p'. release bs p = Ok p' \<and>
        inv p' (xs @ filter (\<lambda>b. b \<in> set (blocks p) \<and> rc p b = 1) bs) \<and> blocks p' = blocks p \<and>
        (\<forall>b \<in> set (blocks p). rc p' b = rc p b - int (count (mset bs) b))"
begin

text \<open>Blocks handed out are exactly \<open>n\<close> distinct ones that nobody holds.\<close>

lemma alloc_fresh:
  assumes "inv p xs" and "\<forall>b \<in> set (blocks p). rc p b = int (count M b)" and "0 \<le> n"
    and "alloc n p = Ok (bs, p')"
  shows "distinct bs" and "int (length bs) = n" and "set bs \<subseteq> set (blocks p)" and "set bs \<inter> set_mset M = {}"
    and "inv p' (drop (nat n) xs)" and "blocks p' = blocks p"
    and "\<forall>b \<in> set (blocks p). rc p' b = int (count (M + mset bs) b)"
proof -
  have n: "n \<le> int (length xs)" using assms(4) alloc_refuses [OF assms(1), of n] by force
  from alloc_law [OF assms(1,3) n] assms(4) have p': "bs = take (nat n) xs" "inv p' (drop (nat n) xs)"
    "blocks p' = blocks p" "\<forall>b \<in> set (blocks p). rc p' b = (if b \<in> set bs then 1 else rc p b)" by auto
  show d: "distinct bs" using free_distinct [OF assms(1)] p'(1) by simp
  show "int (length bs) = n" using n assms(3) p'(1) by simp
  have zero: "b \<in> set (blocks p) \<and> rc p b = 0" if "b \<in> set bs" for b
    using that free_iff [OF assms(1)] p'(1) by (auto dest: in_set_takeD)
  then show "set bs \<subseteq> set (blocks p)" by blast
  have out: "b \<notin># M" if "b \<in> set bs" for b
    using zero [OF that] assms(2) by (metis not_in_iff of_nat_eq_0_iff)
  then show "set bs \<inter> set_mset M = {}" by blast
  show "inv p' (drop (nat n) xs)" "blocks p' = blocks p" using p' by auto
  show "\<forall>b \<in> set (blocks p). rc p' b = int (count (M + mset bs) b)"
  proof
    fix b
    assume b: "b \<in> set (blocks p)"
    have "count (mset bs) b = (if b \<in> set bs then 1 else 0)"
      using d by (simp add: distinct_count_atmost_1)
    then show "rc p' b = int (count (M + mset bs) b)"
      using b p'(4) assms(2) zero [of b] by (cases "b \<in> set bs") auto
  qed
qed

lemma alloc_total:
  assumes "inv p xs" and "0 \<le> n"
  shows "(\<exists>bs p'. alloc n p = Ok (bs, p')) \<longleftrightarrow> n \<le> int (length xs)"
  using alloc_law [OF assms] alloc_refuses [OF assms(1), of n] by fastforce

text \<open>Free and held blocks are all blocks.\<close>

lemma conservation:
  assumes "inv p xs" and "\<forall>b \<in> set (blocks p). rc p b = int (count M b)"
  shows "set xs = {b \<in> set (blocks p). b \<notin># M}"
    and "length xs + card (set (blocks p) \<inter> set_mset M) = length (blocks p)"
proof -
  show eq: "set xs = {b \<in> set (blocks p). b \<notin># M}"
    using free_iff [OF assms(1)] assms(2) by (auto simp: not_in_iff)
  have "set (blocks p) = set xs \<union> (set (blocks p) \<inter> set_mset M)" "set xs \<inter> (set (blocks p) \<inter> set_mset M) = {}"
    using eq by auto
  then have "card (set (blocks p)) = card (set xs) + card (set (blocks p) \<inter> set_mset M)"
    by (metis List.finite_set card_Un_disjoint finite_Int)
  then show "length xs + card (set (blocks p) \<inter> set_mset M) = length (blocks p)"
    using distinct_card [OF free_distinct [OF assms(1)]] distinct_card [OF blocks_distinct, of p] by simp
qed

text \<open>A ledger that becomes empty leaves every block free.\<close>

lemma no_leak:
  assumes "inv p xs" and "\<forall>b \<in> set (blocks p). rc p b = 0"
  shows "length xs = length (blocks p)" and "\<exists>bs p'. alloc (int (length (blocks p))) p = Ok (bs, p')"
proof -
  show l: "length xs = length (blocks p)" using conservation(2) [OF assms(1), of "{#}"] assms(2) by simp
  then show "\<exists>bs p'. alloc (int (length (blocks p))) p = Ok (bs, p')" using alloc_total [OF assms(1)] by simp
qed

text \<open>Sharing blocks and giving them back restores every count.\<close>

lemma share_release:
  assumes "inv p xs" and "\<forall>b \<in> set bs. ref p b" and "distinct (filter (\<lambda>b. b \<in> set (blocks p)) bs)"
    and "\<And>p'. blocks p' = blocks p \<Longrightarrow> share bs p = Ok p' \<Longrightarrow> \<forall>b \<in> set bs. ref p' b"
    and "\<And>b. b \<in> set (blocks p) \<Longrightarrow> 0 \<le> rc p b"
  shows "\<exists>p' p''. share bs p = Ok p' \<and> release bs p' = Ok p'' \<and> (\<forall>b \<in> set (blocks p). rc p'' b = rc p b)"
proof -
  from share_law [OF assms(1,2)] obtain p' ys where
    p': "share bs p = Ok p'" "inv p' ys" "blocks p' = blocks p"
      "\<forall>b \<in> set (blocks p). rc p' b = rc p b + int (count (mset bs) b)" by blast
  have "\<forall>b \<in> set bs. b \<in> set (blocks p') \<longrightarrow> 0 < rc p' b"
    using p'(3,4) assms(5) by (auto simp: add_nonneg_pos count_greater_zero_iff)
  with release_law [OF p'(2)] assms(3,4) p' show ?thesis by fastforce
qed

end

lemma real_blocks_cong: "same_pool p p' \<Longrightarrow> real_blocks p' = real_blocks p"
  by (simp add: real_blocks_def same_pool_def)

lemma same_hashes_pool: "same_hashes p p' \<Longrightarrow> same_pool p p'"
  by (simp add: same_hashes_def)

lemma pool_inv_real: "pool_inv p xs \<Longrightarrow> b \<in> set (real_blocks p) \<longleftrightarrow> real_block p b"
  using set_real_blocks by (simp add: pool_inv_def static_inv_def)

interpretation bp: ref_counted_pool pool_inv real_blocks pool_ref "\<lambda>p b. ref_cnt (blk p b)"
  get_new_blocks "\<lambda>bs. touch [bs]" free_blocks
proof unfold_locales
  show "distinct (real_blocks p)" for p by simp
  show "distinct xs" if "pool_inv p xs" for p xs using pool_inv_free(4) [OF that] .
  show "b \<in> set xs \<longleftrightarrow> b \<in> set (real_blocks p) \<and> ref_cnt (blk p b) = 0" if "pool_inv p xs" for p xs b
    using pool_inv_free(5) [OF that] pool_inv_real [OF that] by blast
  show "\<exists>p'. get_new_blocks n p = Ok (take (nat n) xs, p') \<and> pool_inv p' (drop (nat n) xs) \<and>
      real_blocks p' = real_blocks p \<and> (\<forall>b \<in> set (real_blocks p).
        ref_cnt (blk p' b) = (if b \<in> set (take (nat n) xs) then 1 else ref_cnt (blk p b)))"
    if "pool_inv p xs" "0 \<le> n" "n \<le> int (length xs)" for p xs n
    using that by (rule get_new_blocks_spec)
      (use pool_inv_real [OF that(1)] real_blocks_cong in \<open>metis real_block_is_block\<close>)
  show "get_new_blocks n p = Err ValueError" if "pool_inv p xs" "int (length xs) < n" for p xs n
    using get_new_blocks_refuses pool_inv_num_free that by simp
  show "\<exists>p' ys. touch [bs] p = Ok p' \<and> pool_inv p' ys \<and> real_blocks p' = real_blocks p \<and>
      (\<forall>b \<in> set (real_blocks p). ref_cnt (blk p' b) = ref_cnt (blk p b) + int (count (mset bs) b))"
    if "pool_inv p xs" "\<forall>b \<in> set bs. pool_ref p b" for p xs bs
    by (rule touch_spec [of p xs "[bs]"])
      (use that pool_inv_real [OF that(1)] real_blocks_cong same_hashes_pool in \<open>auto 4 4\<close>)
  show "\<exists>p'. free_blocks bs p = Ok p' \<and>
      pool_inv p' (xs @ filter (\<lambda>b. b \<in> set (real_blocks p) \<and> ref_cnt (blk p b) = 1) bs) \<and>
      real_blocks p' = real_blocks p \<and>
      (\<forall>b \<in> set (real_blocks p). ref_cnt (blk p' b) = ref_cnt (blk p b) - int (count (mset bs) b))"
    if "pool_inv p xs" "\<forall>b \<in> set bs. pool_ref p b" "distinct (filter (\<lambda>b. b \<in> set (real_blocks p)) bs)"
      "\<forall>b \<in> set bs. b \<in> set (real_blocks p) \<longrightarrow> 0 < ref_cnt (blk p b)" for p xs bs
    unfolding pool_inv_real [OF that(1)]
    by (rule free_blocks_spec [OF that(1,2)])
      (use that pool_inv_real [OF that(1)] real_blocks_cong same_hashes_pool in \<open>auto\<close>)
qed

section \<open>The pool in use\<close>

text \<open>
  The states a pool can reach, with the multiset of references its clients hold on blocks
  other than the null block.  Clients give back only what they hold, and each block once per
  call, as the managers do.
\<close>

inductive pool_reach :: "int \<Rightarrow> hash_fn \<Rightarrow> block_pool \<Rightarrow> blk_ref multiset \<Rightarrow> bool" for nh hf where
  start: "BlockPool_init n caching events = Ok p \<Longrightarrow> pool_reach nh hf p {#}"
| alloc: "pool_reach nh hf p M \<Longrightarrow> 0 \<le> n \<Longrightarrow> get_new_blocks n p = Ok (bs, p') \<Longrightarrow>
    pool_reach nh hf p' (M + mset bs)"
| share: "pool_reach nh hf p M \<Longrightarrow> \<forall>b \<in> set (concat bss). pool_ref p b \<Longrightarrow> touch bss p = Ok p' \<Longrightarrow>
    pool_reach nh hf p' (M + mset (filter (real_block p) (concat bss)))"
| release: "pool_reach nh hf p M \<Longrightarrow> \<forall>b \<in> set bs. pool_ref p b \<Longrightarrow> mset (filter (real_block p) bs) \<subseteq># M \<Longrightarrow>
    distinct (filter (real_block p) bs) \<Longrightarrow> free_blocks bs p = Ok p' \<Longrightarrow>
    pool_reach nh hf p' (M - mset (filter (real_block p) bs))"
| cache: "pool_reach nh hf p M \<Longrightarrow> enable_caching p \<Longrightarrow>
    \<forall>b \<in> set (py_slice bs nc nf). real_block p b \<Longrightarrow>
    cache_full_blocks nh hf r bs bhs nc nf bsz gid p = Ok (bhs', p') \<Longrightarrow> pool_reach nh hf p' M"
| reset: "pool_reach nh hf p M \<Longrightarrow> reset_prefix_cache p = (done, p') \<Longrightarrow> pool_reach nh hf p' M"
| events: "pool_reach nh hf p M \<Longrightarrow> take_events p = (evs, p') \<Longrightarrow> pool_reach nh hf p' M"

definition ledger :: "block_pool \<Rightarrow> blk_ref list \<Rightarrow> blk_ref multiset \<Rightarrow> bool" where
  "ledger p xs M \<longleftrightarrow> pool_inv p xs \<and> (\<forall>b \<in># M. real_block p b) \<and>
     (\<forall>b. real_block p b \<longrightarrow> ref_cnt (blk p b) = int (count M b))"

lemma cache_full_loop_keeps:
  assumes "cache_full_loop nh hf r bs gid nc i bls nbh bhs prev nhs p = Ok (bhs', nhs', p')"
    and "static_inv p" and "table_inv p" and "enable_caching p" and "\<forall>b \<in> set bls. real_block p b"
  shows "static_inv p' \<and> table_inv p' \<and> cache_frame p p'"
  using assms
proof (induction bls arbitrary: i bhs prev nhs p)
  case Nil
  then show ?case by (simp add: cache_frame_def)
next
  case (Cons b bls)
  then obtain h bhs1 p1 where s: "blk_hash (blk p b) = None" "cache_one b (BlockHashWithGroupId h gid) p = Ok p1"
      "cache_full_loop nh hf r bs gid nc (Suc i) bls nbh bhs1 (Some (hash_value h))
         (map_option (\<lambda>ns. ns @ [hash_value h]) nhs) p1 = Ok (bhs', nhs', p')"
    by (auto simp: res_simps)
  have b: "real_block p b" using Cons.prems(5) by simp
  have p1: "static_inv p1" "table_inv p1" "cache_frame p p1"
    using cache_one_spec [OF Cons.prems(2-4) b s(1), of "BlockHashWithGroupId h gid"] s(2) by auto
  then have "same_pool p p1" by (simp add: cache_frame_def)
  then have "enable_caching p1" "\<forall>b \<in> set bls. real_block p1 b"
    using Cons.prems(4,5) same_pool_real by (auto simp: same_pool_def)
  with Cons.IH [OF s(3) p1(1,2)] p1(3) show ?case by (auto intro: cache_frame_trans)
qed

lemma pool_inv_events:
  "pool_inv p xs \<Longrightarrow> pool_inv (p\<lparr>kv_event_queue := es\<rparr>) xs"
  "cache_frame p p' \<Longrightarrow> cache_frame p (p'\<lparr>kv_event_queue := es\<rparr>)"
  by (simp_all add: pool_inv_def static_inv_def ref_inv_def table_inv_def real_block_def
      cache_frame_def same_pool_def)

lemma cache_full_blocks_keeps:
  assumes "cache_full_blocks nh hf r bls bhs nc nf bs gid p = Ok (bhs', p')"
    and "pool_inv p xs" and "enable_caching p" and "\<forall>b \<in> set (py_slice bls nc nf). real_block p b"
  shows "pool_inv p' xs" and "cache_frame p p'"
proof -
  have "pool_inv p' xs \<and> cache_frame p p'"
  proof (cases "nc = nf")
    case True
    then show ?thesis using assms by (simp add: cache_full_blocks_def cache_frame_def)
  next
    case False
    with assms(1) obtain parent nhs' p1 where l:
      "cache_full_loop nh hf r bs gid nc 0 (py_slice bls nc nf) (py_slice bhs nc (int (length bhs))) bhs parent
        (if enable_kv_cache_events p then Some [] else None) p = Ok (bhs', nhs', p1)"
      and p': "p' = p1 \<or> (\<exists>es. p' = p1\<lparr>kv_event_queue := es\<rparr>)"
      by (auto simp: cache_full_blocks_def Let_def res_simps split: if_splits option.splits)
    from cache_full_loop_keeps [OF l pool_inv_free(1,2) [OF assms(2)] assms(3,4)]
    show ?thesis using p' cache_frame_inv [OF assms(2)] pool_inv_events by blast
  qed
  then show "pool_inv p' xs" "cache_frame p p'" by auto
qed

lemma reset_prefix_cache_keeps:
  assumes "reset_prefix_cache p = (d, p')" and "pool_inv p xs"
  shows "pool_inv p' xs" and "same_pool p p'" and "ref_cnt (blk p' r) = ref_cnt (blk p r)"
proof -
  have "pool_inv p' xs \<and> same_pool p p' \<and> (\<forall>r. ref_cnt (blk p' r) = ref_cnt (blk p r))"
  proof (cases "num_gpu_blocks p - get_num_free_blocks p = 1")
    case True
    then have z: "\<forall>b. real_block p b \<longrightarrow> ref_cnt (blk p b) = 0" using all_free_iff [OF assms(2)] by simp
    show ?thesis by (rule reset_prefix_cache_spec [OF assms(2) z]) (use assms(1) in auto)
  next
    case False
    then show ?thesis using assms by (simp add: reset_prefix_cache_def)
  qed
  then show "pool_inv p' xs" "same_pool p p'" "ref_cnt (blk p' r) = ref_cnt (blk p r)" by auto
qed

lemma mset_filter_count: "P b \<Longrightarrow> count (mset (filter P bs)) b = count (mset bs) b"
  by (simp add: mset_filter)

lemma ledger_alloc:
  assumes "ledger p xs M" and "0 \<le> n" and "get_new_blocks n p = Ok (bs, p')"
  shows "ledger p' (drop (nat n) xs) (M + mset bs)" and "distinct bs" and "int (length bs) = n"
    and "\<forall>b \<in> set bs. real_block p b \<and> b \<notin># M" and "same_pool p p'"
    and "\<forall>r. is_block r \<longrightarrow> blk_hash (blk p' r) = (if r \<in> set bs then None else blk_hash (blk p r))"
proof -
  have inv: "pool_inv p xs" using assms(1) by (simp add: ledger_def)
  note real = pool_inv_real [OF inv]
  have rc: "\<forall>b \<in> set (real_blocks p). ref_cnt (blk p b) = int (count M b)"
    using assms(1) real by (simp add: ledger_def)
  note f = bp.alloc_fresh [OF inv rc assms(2,3)]
  have n: "n \<le> int (length xs)" using bp.alloc_total [OF inv assms(2)] assms(3) by blast
  have "same_pool p p' \<and> (\<forall>r. is_block r \<longrightarrow> blk_hash (blk p' r) = (if r \<in> set bs then None else blk_hash (blk p r)))"
    by (rule get_new_blocks_spec [OF inv assms(2) n]) (use assms(3) in auto)
  then show sp: "same_pool p p'"
    and "\<forall>r. is_block r \<longrightarrow> blk_hash (blk p' r) = (if r \<in> set bs then None else blk_hash (blk p r))" by auto
  show "distinct bs" "int (length bs) = n" "\<forall>b \<in> set bs. real_block p b \<and> b \<notin># M"
    using f(1-4) real by auto
  then show "ledger p' (drop (nat n) xs) (M + mset bs)"
    using f(5-7) real assms(1) same_pool_real [OF sp] by (auto simp: ledger_def)
qed

lemma ledger_share:
  assumes "ledger p xs M" and "\<forall>b \<in> set (concat bss). pool_ref p b" and "touch bss p = Ok p'"
  shows "ledger p' (filter (\<lambda>x. x \<notin> set (concat bss)) xs) (M + mset (filter (real_block p) (concat bss)))"
    and "same_hashes p p'"
proof -
  have inv: "pool_inv p xs" using assms(1) by (simp add: ledger_def)
  obtain q where q: "touch bss p = Ok q" "pool_inv q (filter (\<lambda>x. x \<notin> set (concat bss)) xs)" "same_hashes p q"
      "\<forall>r. is_block r \<longrightarrow> ref_cnt (blk q r) = ref_cnt (blk p r) + int (count (mset (concat bss)) r)"
    by (rule touch_spec [OF inv assms(2)])
  then have "q = p'" using assms(3) by simp
  with q show "same_hashes p p'" by simp
  note real = same_pool_real [OF same_hashes_pool [OF this]]
  show "ledger p' (filter (\<lambda>x. x \<notin> set (concat bss)) xs) (M + mset (filter (real_block p) (concat bss)))"
    using q(2,4) assms(1) \<open>q = p'\<close> by (auto simp: ledger_def real mset_filter_count)
qed

lemma ledger_release:
  assumes "ledger p xs M" and "\<forall>b \<in> set bs. pool_ref p b" and "mset (filter (real_block p) bs) \<subseteq># M"
    and "distinct (filter (real_block p) bs)"
  obtains p' where "free_blocks bs p = Ok p'"
    and "ledger p' (xs @ filter (\<lambda>b. real_block p b \<and> count M b = 1) bs) (M - mset (filter (real_block p) bs))"
    and "same_hashes p p'"
proof -
  have inv: "pool_inv p xs" and rc: "\<And>b. real_block p b \<Longrightarrow> ref_cnt (blk p b) = int (count M b)"
    using assms(1) by (auto simp: ledger_def)
  have held: "\<forall>b \<in> set bs. real_block p b \<longrightarrow> 0 < ref_cnt (blk p b)"
    using rc assms(3) by (auto dest!: mset_subset_eqD)
  obtain p' where p': "free_blocks bs p = Ok p'"
      "pool_inv p' (xs @ filter (\<lambda>b. real_block p b \<and> ref_cnt (blk p b) = 1) bs)" "same_hashes p p'"
      "\<forall>r. is_block r \<longrightarrow> ref_cnt (blk p' r) = ref_cnt (blk p r) - int (count (mset bs) r)"
    by (rule free_blocks_spec [OF inv assms(2,4) held])
  note real = same_pool_real [OF same_hashes_pool [OF p'(3)]]
  have "filter (\<lambda>b. real_block p b \<and> ref_cnt (blk p b) = 1) bs = filter (\<lambda>b. real_block p b \<and> count M b = 1) bs"
    by (rule filter_cong) (auto simp: rc)
  moreover have "int (count M b) - int (count (mset bs) b) = int (count (M - mset (filter (real_block p) bs)) b)"
    if "real_block p b" for b
    using mset_subset_eq_count [OF assms(3), of b] that by (simp add: mset_filter_count)
  ultimately have "ledger p' (xs @ filter (\<lambda>b. real_block p b \<and> count M b = 1) bs) (M - mset (filter (real_block p) bs))"
    using p'(2,4) assms(1) rc by (auto simp: ledger_def real dest: in_diffD)
  with p' show thesis by (intro that)
qed

lemma ledger_frame:
  assumes "ledger p xs M" and "pool_inv p' xs" and "same_pool p p'"
    and "\<And>r. real_block p r \<Longrightarrow> ref_cnt (blk p' r) = ref_cnt (blk p r)"
  shows "ledger p' xs M"
  using assms same_pool_real [OF assms(3)] by (simp add: ledger_def)

lemma ledger_reset:
  assumes "ledger p xs M" and "reset_prefix_cache p = (d, p')"
  shows "ledger p' xs M" and "same_pool p p'"
proof -
  have inv: "pool_inv p xs" using assms(1) by (simp add: ledger_def)
  note k = reset_prefix_cache_keeps [OF assms(2) inv]
  show "ledger p' xs M" "same_pool p p'" using ledger_frame [OF assms(1)] k by blast+
qed

lemma ledger_events:
  assumes "ledger p xs M" and "take_events p = (evs, p')"
  shows "ledger p' xs M" and "same_pool p p'"
proof -
  have "p' = p \<or> p' = p\<lparr>kv_event_queue := []\<rparr>"
    using assms(2) by (auto simp: take_events_def split: if_splits)
  then show "ledger p' xs M" "same_pool p p'"
    using assms(1) pool_inv_events(1) by (auto simp: ledger_def real_block_def same_pool_def)
qed

lemma pool_reach_ledger: "pool_reach nh hf p M \<Longrightarrow> \<exists>xs. ledger p xs M"
proof (induction rule: pool_reach.induct)
  case (start n caching events p)
  then have n: "0 < n" by (simp add: BlockPool_init_def res_simps)
  obtain q where q: "BlockPool_init n caching events = Ok q" "pool_inv q (map Blk [1..<nat n])" "num_gpu_blocks q = n"
    by (rule BlockPool_init_spec [OF n])
  moreover have "q = p" using q(1) start by simp
  moreover have "real_block q r \<Longrightarrow> r \<in> set (map Blk [1..<nat n])" for r
    using q(3) by (auto simp: real_block_def)
  ultimately show ?case using pool_inv_free(5) [OF q(2)] by (auto simp: ledger_def)
next
  case (alloc p M n bs p')
  then show ?case using ledger_alloc(1) by blast
next
  case (share p M bss p')
  then show ?case using ledger_share(1) by blast
next
  case (release p M bs p')
  then obtain xs where "ledger p xs M" by blast
  from this release.hyps(2-4) show ?case by (rule ledger_release) (use release.hyps(5) in auto)
next
  case (cache p M bs r bhs nc nf bsz gid bhs' p')
  then obtain xs where l: "ledger p xs M" by blast
  then have "pool_inv p' xs" "cache_frame p p'"
    using cache_full_blocks_keeps [OF cache.hyps(4) _ cache.hyps(2,3)] by (auto simp: ledger_def)
  then show ?case using ledger_frame [OF l] by (auto simp: cache_frame_def)
next
  case (reset p M d p')
  then show ?case using ledger_reset(1) by blast
next
  case (events p M evs p')
  then show ?case using ledger_events(1) by blast
qed

lemma get_cached_block_one:
  assumes "table_inv p"
  shows "get_cached_block h [g] p \<noteq> None \<longleftrightarrow>
    (\<exists>b. real_block p b \<and> blk_hash (blk p b) = Some (BlockHashWithGroupId h g))"
proof
  assume "get_cached_block h [g] p \<noteq> None"
  then obtain bs where "get_cached_block h [g] p = Some bs" by blast
  from get_cached_block_hit [OF assms this]
  show "\<exists>b. real_block p b \<and> blk_hash (blk p b) = Some (BlockHashWithGroupId h g)"
    by (auto simp: list_all2_Cons1)
next
  assume "\<exists>b. real_block p b \<and> blk_hash (blk p b) = Some (BlockHashWithGroupId h g)"
  then show "get_cached_block h [g] p \<noteq> None" using get_cached_block_miss [OF assms, of h "[g]"] by auto
qed

text \<open>The accounts of a pool with the ledger \<open>M\<close>.\<close>

lemma ledger_accounting:
  assumes "ledger p xs M"
  shows "(\<exists>xs. get_all_free_blocks (free_block_queue p) = Ok (Some xs) \<and> distinct xs \<and>
      set xs = {b. real_block p b \<and> b \<notin># M}) \<and>
    get_num_free_blocks p = num_gpu_blocks p - 1 - int (card (set_mset M)) \<and>
    (\<forall>b. real_block p b \<longrightarrow> ref_cnt (blk p b) = int (count M b))"
proof -
  have inv: "pool_inv p xs" and rc: "\<And>b. real_block p b \<Longrightarrow> ref_cnt (blk p b) = int (count M b)"
    and M: "set_mset M \<subseteq> set (real_blocks p)"
    using assms pool_inv_real by (auto simp: ledger_def)
  note f = pool_inv_free [OF inv]
  have rc': "\<forall>b \<in> set (real_blocks p). ref_cnt (blk p b) = int (count M b)"
    using rc pool_inv_real [OF inv] by simp
  have "0 < num_gpu_blocks p" using f(1) by (simp add: static_inv_def)
  then have "int (length (real_blocks p)) = num_gpu_blocks p - 1" by (simp add: real_blocks_def)
  then have "get_num_free_blocks p = num_gpu_blocks p - 1 - int (card (set_mset M))"
    using bp.conservation(2) [OF inv rc'] pool_inv_num_free [OF inv] M by (simp add: Int_absorb1)
  moreover have "set xs = {b. real_block p b \<and> b \<notin># M}"
    using bp.conservation(1) [OF inv rc'] pool_inv_real [OF inv] by simp
  ultimately show ?thesis using get_all_free_blocks_spec [OF f(3)] f(4) rc by blast
qed

section \<open>Properties\<close>

text \<open>
  C9.  The accounts of the pool balance in every reachable state: walking the free queue
  gives exactly the blocks nobody holds, each once; the stored number of free blocks is the
  number of blocks less the null block and the held ones; and every reference count is the
  number of references held.
\<close>

theorem pool_accounting:
  assumes "pool_reach nh hf p M"
  shows "(\<exists>xs. get_all_free_blocks (free_block_queue p) = Ok (Some xs) \<and> distinct xs \<and>
      set xs = {b. real_block p b \<and> b \<notin># M}) \<and>
    get_num_free_blocks p = num_gpu_blocks p - 1 - int (card (set_mset M)) \<and>
    (\<forall>b. real_block p b \<longrightarrow> ref_cnt (blk p b) = int (count M b))"
  using pool_reach_ledger [OF assms] ledger_accounting by blast

lemma pool_accounting_witness:
  "\<exists>p. BlockPool_init 3 True False = Ok p \<and> get_num_free_blocks p = 2"
proof -
  obtain p where p: "BlockPool_init 3 True False = Ok p" "num_gpu_blocks p = 3"
    by (rule BlockPool_init_spec [of 3 True False]) simp_all
  have "pool_reach 0 (\<lambda>_. 1) p {#}" using p(1) by (rule pool_reach.start)
  from pool_accounting [OF this] p show ?thesis by simp
qed

text \<open>
  C19.  Allocation is exclusive and total: with \<open>n\<close> free blocks available the pool returns
  \<open>n\<close> distinct blocks, none of them the null block or held by anyone, all stripped of
  their cache hash; with fewer it raises \<open>ValueError\<close> and never a different error.
\<close>

theorem allocation_exclusive:
  assumes "pool_reach nh hf p M" and "0 \<le> n"
  shows "if n \<le> get_num_free_blocks p
    then \<exists>bs p'. get_new_blocks n p = Ok (bs, p') \<and> pool_reach nh hf p' (M + mset bs) \<and>
      int (length bs) = n \<and> distinct bs \<and> set bs \<inter> set_mset M = {} \<and> null_block p \<notin> set bs \<and>
      (\<forall>b \<in> set bs. real_block p b \<and> blk_hash (blk p' b) = None \<and> ref_cnt (blk p' b) = 1)
    else get_new_blocks n p = Err ValueError"
proof (cases "n \<le> get_num_free_blocks p")
  case True
  from pool_reach_ledger [OF assms(1)] obtain xs where l: "ledger p xs M" by blast
  then have inv: "pool_inv p xs" by (simp add: ledger_def)
  then obtain bs p' where g: "get_new_blocks n p = Ok (bs, p')"
    using bp.alloc_total [OF inv assms(2)] True pool_inv_num_free [OF inv] by auto
  note a = ledger_alloc [OF l assms(2) g]
  have "pool_reach nh hf p' (M + mset bs)" using assms g by (rule pool_reach.alloc)
  moreover have "null_block p \<notin> set bs" using a(4) null_not_real pool_inv_free(1) [OF inv] by blast
  moreover have "ref_cnt (blk p' b) = 1" if "b \<in> set bs" for b
  proof -
    have "real_block p' b" "b \<notin># M" using a(4,5) that same_pool_real by auto
    moreover have "count (mset bs) b = 1" using a(2) that by (simp add: distinct_count_atmost_1)
    ultimately show ?thesis using a(1) by (simp add: ledger_def not_in_iff)
  qed
  moreover have "blk_hash (blk p' b) = None" if "b \<in> set bs" for b
    using a(4,6) that real_block_is_block [of p b] by auto
  ultimately show ?thesis using True g a(2-4) by auto
next
  case False
  then show ?thesis by (simp add: get_new_blocks_def)
qed

lemma allocation_exclusive_witness:
  "\<exists>p bs p'. BlockPool_init 3 True False = Ok p \<and> get_new_blocks 2 p = Ok (bs, p') \<and> distinct bs \<and>
     length bs = 2 \<and> get_new_blocks 3 p = Err ValueError"
proof -
  obtain p where p: "BlockPool_init 3 True False = Ok p" "pool_inv p (map Blk [1..<nat 3])"
    by (rule BlockPool_init_spec [of 3 True False]) simp_all
  have free: "get_num_free_blocks p = 2" using pool_inv_num_free [OF p(2)] by simp
  have r: "pool_reach 0 (\<lambda>_. 1) p {#}" using p(1) by (rule pool_reach.start)
  from allocation_exclusive [OF r, of 2] allocation_exclusive [OF r, of 3] p(1)
  show ?thesis by (auto simp: free)
qed

text \<open>
  C20.  Eviction is exact: after an allocation a hash is still found in the cache if and
  only if some block that carried it was not among the blocks just handed out.
\<close>

theorem eviction_exact:
  assumes "pool_reach nh hf p M" and "0 \<le> n" and "get_new_blocks n p = Ok (bs, p')"
  shows "get_cached_block h [g] p' \<noteq> None \<longleftrightarrow>
    (\<exists>b. real_block p b \<and> blk_hash (blk p b) = Some (BlockHashWithGroupId h g) \<and> b \<notin> set bs)"
proof -
  from pool_reach_ledger [OF assms(1)] obtain xs where l: "ledger p xs M" by blast
  note a = ledger_alloc [OF l assms(2,3)]
  have "table_inv p'" using a(1) by (simp add: ledger_def pool_inv_def)
  moreover have "blk_hash (blk p' b) = Some x \<longleftrightarrow> blk_hash (blk p b) = Some x \<and> b \<notin> set bs"
    if "real_block p b" for b x
    using a(6) real_block_is_block [OF that] by auto
  ultimately show ?thesis using get_cached_block_one [of p' h g] same_pool_real [OF a(5)] by metis
qed

lemma eviction_exact_witness:
  "\<exists>p bs p'. BlockPool_init 3 True False = Ok p \<and> get_new_blocks 1 p = Ok (bs, p') \<and>
     get_cached_block (BlockHash 5 [1] None) [0] p' = None"
proof -
  obtain p where p: "BlockPool_init 3 True False = Ok p" "pool_inv p (map Blk [1..<nat 3])"
      "\<forall>r. real_block p r \<longrightarrow> blk_hash (blk p r) = None"
    by (rule BlockPool_init_spec [of 3 True False]) simp_all
  obtain bs p' where g: "get_new_blocks 1 p = Ok (bs, p')" using bp.alloc_total [OF p(2), of 1] by auto
  have "pool_reach 0 (\<lambda>_. 1) p {#}" using p(1) by (rule pool_reach.start)
  from eviction_exact [OF this _ g, of "BlockHash 5 [1] None" 0] p g show ?thesis by auto
qed

text \<open>
  C21.  The prefix cache is reset exactly when no reference is held; afterwards every lookup
  of at least one group misses, and otherwise nothing changes.
\<close>

theorem reset_exact:
  assumes "pool_reach nh hf p M"
  shows "if M = {#} then fst (reset_prefix_cache p) \<and> get_cached_block h (g # gs) (snd (reset_prefix_cache p)) = None
    else reset_prefix_cache p = (False, p)"
proof -
  from pool_reach_ledger [OF assms] obtain xs where l: "ledger p xs M" by blast
  then have inv: "pool_inv p xs" by (simp add: ledger_def)
  have "M = {#} \<longleftrightarrow> (\<forall>b. real_block p b \<longrightarrow> ref_cnt (blk p b) = 0)"
  proof
    assume z: "\<forall>b. real_block p b \<longrightarrow> ref_cnt (blk p b) = 0"
    have "b \<notin># M" for b
      using l z by (metis ledger_def not_in_iff of_nat_eq_0_iff)
    then show "M = {#}" by (simp add: multiset_eq_iff not_in_iff)
  qed (use l in \<open>auto simp: ledger_def\<close>)
  also have "\<dots> \<longleftrightarrow> num_gpu_blocks p - get_num_free_blocks p = 1" using all_free_iff [OF inv] by simp
  finally show ?thesis by (auto simp: reset_prefix_cache_def Let_def)
qed

lemma reset_exact_witness:
  "\<exists>p. BlockPool_init 3 True False = Ok p \<and> fst (reset_prefix_cache p) \<and>
     get_cached_block (BlockHash 5 [1] None) [0] (snd (reset_prefix_cache p)) = None"
proof -
  obtain p where p: "BlockPool_init 3 True False = Ok p" "num_gpu_blocks p = 3"
    by (rule BlockPool_init_spec [of 3 True False]) simp_all
  have "pool_reach 0 (\<lambda>_. 1) p {#}" using p(1) by (rule pool_reach.start)
  from reset_exact [OF this, of "BlockHash 5 [1] None" 0 "[]"] p show ?thesis by auto
qed

text \<open>
  C25.  Publishing full blocks, from the block at \<open>nc\<close>, where earlier ones are already published, up
  to \<open>nf\<close>.  The hypotheses are what a caller has to see to: the tokens of the request fill the
  blocks, the new blocks have no hash yet, the last published block still carries the hash of its
  position, and a request with an adapter is not published while events are on.  Then
  \<open>cache_full_blocks\<close> does not raise; it extends the request's list of hashes to one hash per full
  block, each hash being that of the request's own tokens over its predecessor; afterwards each of
  the published blocks carries its hash and a lookup of that hash hits; and no other block changes
  its hash.
\<close>

theorem cache_full_blocks_publishes:
  assumes "pool_reach nh hf p M" and "enable_caching p" and "0 < bs" and "mm_hashed r"
    and "enable_kv_cache_events p \<longrightarrow> lora r = None"
    and "nc \<le> nf" and "nf \<le> length blocks" and "nf \<le> num_full_blocks_of r bs"
    and "nc \<le> length bhs" and "chained nh hf bs r bhs" and "distinct (drop nc (take nf blocks))"
    and "\<forall>b \<in> set (drop nc (take nf blocks)). real_block p b \<and> blk_hash (blk p b) = None"
    and "nc = 0 \<or> blk_hash (blk p (blocks ! (nc - 1))) = Some (BlockHashWithGroupId (bhs ! (nc - 1)) gid)"
  shows "\<exists>bhs' p'. cache_full_blocks nh hf r blocks bhs (int nc) (int nf) bs gid p = Ok (bhs', p') \<and>
    chained nh hf bs r bhs' \<and> length bhs' = max (length bhs) nf \<and> take (length bhs) bhs' = bhs \<and>
    (\<forall>k. nc \<le> k \<and> k < nf \<longrightarrow> blk_hash (blk p' (blocks ! k)) = Some (BlockHashWithGroupId (bhs' ! k) gid) \<and>
       get_cached_block (bhs' ! k) [gid] p' \<noteq> None) \<and>
    (\<forall>b. b \<notin> set (drop nc (take nf blocks)) \<longrightarrow> blk_hash (blk p' b) = blk_hash (blk p b))"
proof -
  from pool_reach_ledger [OF assms(1)] obtain xs where inv: "pool_inv p xs" by (auto simp: ledger_def)
  let ?new = "drop nc (take nf blocks)"
  obtain bhs' p' where c: "cache_full_blocks nh hf r blocks bhs (int nc) (int nf) bs gid p = Ok (bhs', p')"
      "pool_inv p' xs" "cache_frame p p'" "\<forall>r. r \<notin> set ?new \<longrightarrow> blk_hash (blk p' r) = blk_hash (blk p r)"
      "hashed_as p' ?new gid (drop nc bhs')"
      "chained nh hf bs r bhs'" "length bhs' = max (length bhs) nf" "take (length bhs) bhs' = bhs"
    by (rule cache_full_blocks_spec [OF inv assms(2-12)]) (use assms(13) in \<open>auto simp: get_hash_value_def\<close>)
  have k: "blk_hash (blk p' (blocks ! k)) = Some (BlockHashWithGroupId (bhs' ! k) gid) \<and>
       get_cached_block (bhs' ! k) [gid] p' \<noteq> None" if "nc \<le> k \<and> k < nf" for k
  proof -
    have idx: "k - nc < length ?new" "?new ! (k - nc) = blocks ! k" "drop nc bhs' ! (k - nc) = bhs' ! k"
      using that assms(7) c(7) by auto
    then have h: "blk_hash (blk p' (blocks ! k)) = Some (BlockHashWithGroupId (bhs' ! k) gid)"
      using c(5) unfolding hashed_as_def by metis
    have "blocks ! k \<in> set ?new" using idx nth_mem by metis
    then have "real_block p' (blocks ! k)"
      using assms(12) c(3) same_pool_real by (auto simp: cache_frame_def)
    with h show ?thesis using get_cached_block_one [OF pool_inv_free(2) [OF c(2)]] by blast
  qed
  with c show ?thesis by blast
qed

text \<open>Two blocks one after the other: the second call reads the hash of the first block.\<close>

lemma cache_full_blocks_publishes_witness:
  "\<exists>p b1 p1 b2 p2. BlockPool_init 3 True False = Ok p \<and>
     cache_full_blocks 0 (\<lambda>(q, ts, ek). q + sum_list ts) (sample_request ''a'' [7, 8, 9, 10, 11]) [Blk 1, Blk 2] [] 0 1 2 0 p = Ok (b1, p1) \<and>
     cache_full_blocks 0 (\<lambda>(q, ts, ek). q + sum_list ts) (sample_request ''a'' [7, 8, 9, 10, 11]) [Blk 1, Blk 2] b1 1 2 2 0 p1 = Ok (b2, p2) \<and>
     length b2 = 2 \<and> get_cached_block (b2 ! 1) [0] p2 \<noteq> None"
proof -
  let ?r = "sample_request ''a'' [7, 8, 9, 10, 11]" and ?f = "\<lambda>(q, ts, ek). q + sum_list ts"
  obtain p where p: "BlockPool_init 3 True False = Ok p" "num_gpu_blocks p = 3" "enable_caching p = True"
      "\<forall>r. real_block p r \<longrightarrow> blk_hash (blk p r) = None"
    by (rule BlockPool_init_spec [of 3 True False]) simp_all
  have reach: "pool_reach 0 ?f p {#}" using p(1) by (rule pool_reach.start)
  have r: "mm_hashed ?r" "lora ?r = None" "2 \<le> num_full_blocks_of ?r 2" "1 \<le> num_full_blocks_of ?r 2"
    by (simp_all add: sample_request_def mm_hashed_def num_full_blocks_of_def num_tokens_def)
  have real: "real_block p (Blk 1)" "real_block p (Blk 2)" using p(2) by (simp_all add: real_block_def)
  from cache_full_blocks_publishes [OF reach, of 2 ?r 0 1 "[Blk 1, Blk 2]" "[]" 0]
  obtain b1 p1 where one: "cache_full_blocks 0 ?f ?r [Blk 1, Blk 2] [] 0 1 2 0 p = Ok (b1, p1)" "chained 0 ?f 2 ?r b1" "length b1 = 1"
      "blk_hash (blk p1 (Blk 1)) = Some (BlockHashWithGroupId (b1 ! 0) 0)" "blk_hash (blk p1 (Blk 2)) = blk_hash (blk p (Blk 2))"
    using p r real by auto
  have "\<forall>b \<in> set (py_slice [Blk 1, Blk 2] 0 1). real_block p b" using real by (simp add: py_slice_nonneg)
  then have reach1: "pool_reach 0 ?f p1 {#}" using pool_reach.cache [OF reach _ _ one(1)] p(3) by simp
  have keep: "same_pool p p1"
    using cache_full_blocks_keeps [OF one(1)] reach pool_reach_ledger [OF reach] p(3) real
    by (auto simp: cache_frame_def ledger_def pool_inv_def py_slice_nonneg)
  then have "enable_caching p1" "real_block p1 (Blk 2)"
    using p(3) real same_pool_real by (auto simp: same_pool_def)
  with cache_full_blocks_publishes [OF reach1, of 2 ?r 1 2 "[Blk 1, Blk 2]" b1 0] one p(4) r real
  obtain b2 p2 where "cache_full_blocks 0 ?f ?r [Blk 1, Blk 2] b1 1 2 2 0 p1 = Ok (b2, p2)" "length b2 = 2"
      "get_cached_block (b2 ! 1) [0] p2 \<noteq> None" by auto
  with p(1) one(1) show ?thesis by blast
qed

text \<open>With events enabled, publishing blocks of a request with an adapter always raises.\<close>

lemma cache_full_loop_events:
  assumes "cache_full_loop nh hf r bs gid nc i bls nbh hs prev nhs p = Ok (hs', nhs', p')"
  shows "enable_kv_cache_events p' = enable_kv_cache_events p"
  using assms
proof (induction bls arbitrary: i hs prev nhs p)
  case Nil
  then show ?case by simp
next
  case (Cons b bls)
  then obtain h hs1 p1 where "cache_one b (BlockHashWithGroupId h gid) p = Ok p1"
    "cache_full_loop nh hf r bs gid nc (Suc i) bls nbh hs1 (Some (hash_value h))
       (map_option (\<lambda>ns. ns @ [hash_value h]) nhs) p1 = Ok (hs', nhs', p')"
    by (auto simp: res_simps)
  with Cons.IH show ?case by (auto simp: cache_one_def res_simps)
qed

lemma cache_full_blocks_lora_event:
  assumes "enable_kv_cache_events p" and "lora r \<noteq> None" and "nc \<noteq> nf"
  shows "\<exists>e. cache_full_blocks nh hf r blocks bhs nc nf bs gid p = Err e"
proof (cases "cache_full_blocks nh hf r blocks bhs nc nf bs gid p")
  case (Ok a)
  then show ?thesis using assms
    by (auto simp: cache_full_blocks_def Let_def res_simps split: if_splits option.splits
        dest: cache_full_loop_events)
qed blast

end
