(* ===== verification/KV_Cache_Spec.thy ===== *)
theory KV_Cache_Spec
  imports Prelude
begin

text \<open>
  \<open>vllm/v1/kv_cache_interface.py\<close>: the format of the KV cache of one layer, the bytes
  of a page, the bytes a request may need at most, and merging the formats of the layers of
  one group.

  A class of the hierarchy is a constructor; the fields all attention formats share are the
  record \<open>attention_spec\<close>.  A \<open>torch.dtype\<close> is its name, and its element size
  (\<open>get_dtype_size\<close>, which asks the tensor library) is the parameter \<open>dsz\<close>.  The
  parts of \<open>VllmConfig\<close> that are read are the record \<open>vllm_config\<close>.
\<close>

section \<open>Formats\<close>

record attention_spec =
  as_block_size :: int
  num_kv_heads :: int
  head_size :: int
  as_dtype :: string
  use_mla :: bool

datatype kv_cache_spec =
    FullAttentionSpec attention_spec "int option" "int option"
  | ChunkedLocalAttentionSpec attention_spec int
  | SlidingWindowSpec attention_spec int
  | MambaSpec int "int list list" string "int option" string

record vllm_config =
  cfg_max_model_len :: int
  max_num_batched_tokens :: int
  num_gpu_blocks_override :: "int option"
  cfg_block_size :: int
  disable_hybrid_kv_cache_manager :: bool

fun spec_block_size :: "kv_cache_spec \<Rightarrow> int" where
  "spec_block_size (FullAttentionSpec a _ _) = as_block_size a"
| "spec_block_size (ChunkedLocalAttentionSpec a _) = as_block_size a"
| "spec_block_size (SlidingWindowSpec a _) = as_block_size a"
| "spec_block_size (MambaSpec b _ _ _ _) = b"

text \<open>\<open>isinstance(spec, FullAttentionSpec)\<close>.\<close>

fun is_full_attention :: "kv_cache_spec \<Rightarrow> bool" where
  "is_full_attention (FullAttentionSpec _ _ _) = True"
| "is_full_attention _ = False"

text \<open>The constructor of a sliding window format refuses latent attention.\<close>

definition SlidingWindowSpec_init :: "attention_spec \<Rightarrow> int \<Rightarrow> kv_cache_spec res" where
  "SlidingWindowSpec_init a w = rbind (py_assert (\<not> use_mla a)) (\<lambda>_. Ok (SlidingWindowSpec a w))"

section \<open>Sizes\<close>

definition attn_page_size_bytes :: "(string \<Rightarrow> int) \<Rightarrow> attention_spec \<Rightarrow> int" where
  "attn_page_size_bytes dsz a =
     (let coef = (if use_mla a then 1 else 2)
      in coef * as_block_size a * num_kv_heads a * head_size a * dsz (as_dtype a))"

fun page_size_bytes :: "(string \<Rightarrow> int) \<Rightarrow> kv_cache_spec \<Rightarrow> int res" where
  "page_size_bytes dsz (FullAttentionSpec a _ _) = Ok (attn_page_size_bytes dsz a)"
| "page_size_bytes dsz (ChunkedLocalAttentionSpec a _) = Ok (attn_page_size_bytes dsz a)"
| "page_size_bytes dsz (SlidingWindowSpec a _) = Ok (attn_page_size_bytes dsz a)"
| "page_size_bytes dsz (MambaSpec b shapes dt padded _) =
     (let num_elements = sum_list (map prod_list shapes);
          page_size = num_elements * dsz dt
      in case padded of
           None \<Rightarrow> Ok page_size
         | Some pad \<Rightarrow> rbind (py_assert (pad \<ge> page_size)) (\<lambda>_. Ok pad))"

text \<open>\<open>cdiv(a, b)\<close> raises on a zero divisor.\<close>

definition py_cdiv :: "int \<Rightarrow> int \<Rightarrow> int res" where
  "py_cdiv a b = (if b = 0 then Err ZeroDivisionError else Ok (cdiv a b))"

fun spec_max_memory_usage_bytes :: "(string \<Rightarrow> int) \<Rightarrow> vllm_config \<Rightarrow> kv_cache_spec \<Rightarrow> int res" where
  "spec_max_memory_usage_bytes dsz c (FullAttentionSpec a _ _) =
     rbind (py_cdiv (cfg_max_model_len c) (as_block_size a)) (\<lambda>n.
     Ok (n * attn_page_size_bytes dsz a))"
| "spec_max_memory_usage_bytes dsz c (ChunkedLocalAttentionSpec a chunk) =
     (let num_tokens = min (chunk + max_num_batched_tokens c) (cfg_max_model_len c)
      in rbind (py_cdiv num_tokens (as_block_size a)) (\<lambda>n. Ok (n * attn_page_size_bytes dsz a)))"
| "spec_max_memory_usage_bytes dsz c (SlidingWindowSpec a w) =
     (let num_tokens = min (w - 1 + max_num_batched_tokens c) (cfg_max_model_len c)
      in rbind (py_cdiv num_tokens (as_block_size a)) (\<lambda>n.
         Ok ((n + 1) * attn_page_size_bytes dsz a)))"
| "spec_max_memory_usage_bytes dsz c (MambaSpec b shapes dt padded ty) =
     page_size_bytes dsz (MambaSpec b shapes dt padded ty)"

section \<open>Merging the formats of one group\<close>

definition merge_window_sizes :: "int list \<Rightarrow> int option res" where
  "merge_window_sizes ws =
     (case remdups ws of [] \<Rightarrow> Ok None | [w] \<Rightarrow> Ok (Some w) | _ \<Rightarrow> Err ValueError)"

fun full_attention_parts ::
  "kv_cache_spec \<Rightarrow> (attention_spec \<times> int option \<times> int option) option" where
  "full_attention_parts (FullAttentionSpec a w c) = Some (a, w, c)"
| "full_attention_parts _ = None"

definition merge_full :: "kv_cache_spec list \<Rightarrow> kv_cache_spec res" where
  "merge_full specs =
     rbind (py_assert (\<forall>s \<in> set specs. full_attention_parts s \<noteq> None)) (\<lambda>_.
     let parts = List.map_filter full_attention_parts specs;
         windows = List.map_filter (\<lambda>(a, w, c). w) parts;
         chunks = List.map_filter (\<lambda>(a, w, c). c) parts
     in rbind (py_index parts 0) (\<lambda>(a0, _, _).
        rbind (merge_window_sizes windows) (\<lambda>w.
        rbind (merge_window_sizes chunks) (\<lambda>c.
        rbind (py_assert (\<forall>(a, _, _) \<in> set parts. a = a0)) (\<lambda>_.
        rbind (py_assert (w = None \<or> c = None)) (\<lambda>_.
        Ok (FullAttentionSpec a0 w c)))))))"

definition merge_same :: "kv_cache_spec list \<Rightarrow> kv_cache_spec res" where
  "merge_same specs =
     (case specs of
        [] \<Rightarrow> Err IndexError
      | s # rest \<Rightarrow> rbind (py_assert (\<forall>t \<in> set rest. t = s)) (\<lambda>_. Ok s))"

text \<open>\<open>specs[0].merge(specs)\<close>: the class of the first format decides.\<close>

definition merge_specs :: "kv_cache_spec list \<Rightarrow> kv_cache_spec res" where
  "merge_specs specs =
     rbind (py_index specs 0) (\<lambda>s.
     case s of FullAttentionSpec _ _ _ \<Rightarrow> merge_full specs | _ \<Rightarrow> merge_same specs)"

record kv_cache_tensor =
  kt_size :: int
  shared_by :: "string list"

record kv_cache_group_spec =
  layer_names :: "string list"
  group_spec :: kv_cache_spec

record kv_cache_config =
  cc_num_blocks :: int
  kv_cache_tensors :: "kv_cache_tensor list"
  kv_cache_groups :: "kv_cache_group_spec list"

section \<open>Sizes are sizes\<close>

definition spec_ok :: "(string \<Rightarrow> int) \<Rightarrow> kv_cache_spec \<Rightarrow> bool" where
  "spec_ok dsz s \<longleftrightarrow> 0 < spec_block_size s \<and>
     (case s of
        FullAttentionSpec a _ _ \<Rightarrow> 0 < num_kv_heads a \<and> 0 < head_size a \<and> 0 < dsz (as_dtype a)
      | ChunkedLocalAttentionSpec a c \<Rightarrow> 0 < num_kv_heads a \<and> 0 < head_size a \<and> 0 < dsz (as_dtype a) \<and> 0 < c
      | SlidingWindowSpec a w \<Rightarrow> 0 < num_kv_heads a \<and> 0 < head_size a \<and> 0 < dsz (as_dtype a) \<and> 0 < w
      | MambaSpec b shapes dt pad _ \<Rightarrow> 0 < sum_list (map prod_list shapes) * dsz dt \<and>
          (\<forall>n. pad = Some n \<longrightarrow> sum_list (map prod_list shapes) * dsz dt \<le> n))"

lemma attn_page_pos:
  "0 < as_block_size a \<Longrightarrow> 0 < num_kv_heads a \<Longrightarrow> 0 < head_size a \<Longrightarrow> 0 < dsz (as_dtype a) \<Longrightarrow>
   0 < attn_page_size_bytes dsz a"
  by (simp add: attn_page_size_bytes_def)

lemma page_size_pos:
  assumes "spec_ok dsz s"
  shows "\<exists>n. page_size_bytes dsz s = Ok n \<and> 0 < n"
proof (cases s)
  case (MambaSpec b shapes dt pad ty)
  then show ?thesis using assms by (cases pad) (auto simp: spec_ok_def Let_def)
qed (use assms in \<open>auto simp: spec_ok_def intro!: attn_page_pos\<close>)

text \<open>A longer model never needs less memory.\<close>

lemma spec_max_memory_mono:
  assumes "spec_ok dsz s" and "m \<le> n"
  shows "\<exists>x y. spec_max_memory_usage_bytes dsz (c\<lparr>cfg_max_model_len := m\<rparr>) s = Ok x \<and>
    spec_max_memory_usage_bytes dsz (c\<lparr>cfg_max_model_len := n\<rparr>) s = Ok y \<and> x \<le> y"
proof -
  have step: "cdiv k b * p \<le> cdiv l b * p" if "0 < b" "k \<le> l" "0 < p" for k l b p :: int
    using that cdiv_mono by (intro mult_right_mono) auto
  show ?thesis
  proof (cases s)
    case (FullAttentionSpec a w ch)
    then show ?thesis using assms attn_page_pos [of a dsz] step [of "as_block_size a" m n]
      by (auto simp: spec_ok_def py_cdiv_def)
  next
    case (ChunkedLocalAttentionSpec a ch)
    then show ?thesis using assms attn_page_pos [of a dsz]
      by (auto simp: spec_ok_def py_cdiv_def Let_def intro!: cdiv_mono min.mono)
  next
    case (SlidingWindowSpec a w)
    then show ?thesis using assms attn_page_pos [of a dsz]
      by (auto simp: spec_ok_def py_cdiv_def Let_def distrib_right intro!: cdiv_mono min.mono)
  next
    case (MambaSpec b shapes dt pad ty)
    then show ?thesis using page_size_pos [OF assms(1)] by auto
  qed
qed

text \<open>The merged format of a group is the format of each of its layers, up to window sizes.\<close>

lemma merge_specs_block_size:
  assumes "merge_specs specs = Ok m" and "s \<in> set specs"
  shows "spec_block_size s = spec_block_size m" and "page_size_bytes dsz s = page_size_bytes dsz m"
    and "spec_max_memory_usage_bytes dsz cfg s = spec_max_memory_usage_bytes dsz cfg m"
proof -
  obtain s0 rest where specs: "specs = s0 # rest"
    using assms(2) by (cases specs) auto
  have "spec_block_size s = spec_block_size m \<and> page_size_bytes dsz s = page_size_bytes dsz m \<and>
      spec_max_memory_usage_bytes dsz cfg s = spec_max_memory_usage_bytes dsz cfg m"
  proof (cases "\<exists>a w c. s0 = FullAttentionSpec a w c")
    case True
    then have full: "merge_full specs = Ok m"
      using assms(1) by (auto simp: merge_specs_def specs py_index_def)
    then have "full_attention_parts s \<noteq> None" using assms(2) by (auto simp: merge_full_def res_simps)
    then obtain a w c where s: "s = FullAttentionSpec a w c" by (cases s) auto
    then have "(a, w, c) \<in> set (List.map_filter full_attention_parts specs)"
      using assms(2) by (force simp: List.map_filter_def)
    then show ?thesis using full s by (fastforce simp: merge_full_def res_simps Let_def)
  next
    case False
    then have "merge_same specs = Ok m"
      using assms(1) by (cases s0) (auto simp: merge_specs_def specs py_index_def)
    then have "s = m" using assms(2) by (auto simp: merge_same_def specs res_simps)
    then show ?thesis by simp
  qed
  then show "spec_block_size s = spec_block_size m" "page_size_bytes dsz s = page_size_bytes dsz m"
      "spec_max_memory_usage_bytes dsz cfg s = spec_max_memory_usage_bytes dsz cfg m" by auto
qed

end
