(* ===== verification/Single_Type_Manager.thy ===== *)
theory Single_Type_Manager
  imports Block_Pool KV_Cache_Spec
begin

text \<open>
  \<open>vllm/v1/core/single_type_kv_cache_manager.py\<close>: the manager of one KV-cache group, which
  records the blocks of every request, and its four variants (full attention, sliding window,
  chunked local attention, mamba).  The variant is the constructor of the group's format, as
  \<open>spec_manager_map\<close> has it.

  The pool is shared by all managers, so every operation takes it and returns it.
\<close>

section \<open>State\<close>

record st_manager =
  mgr_spec :: kv_cache_spec
  req_to_blocks :: "(string, blk_ref list) dict"
  num_cached_block :: "(string, int) dict"
  kv_cache_group_id :: nat

abbreviation mgr_block_size :: "st_manager \<Rightarrow> int" where
  "mgr_block_size m \<equiv> spec_block_size (mgr_spec m)"

abbreviation blocks_of :: "string \<Rightarrow> st_manager \<Rightarrow> blk_ref list" where
  "blocks_of rid m \<equiv> list_of rid (req_to_blocks m)"

definition get_manager_for_kv_cache_spec :: "kv_cache_spec \<Rightarrow> nat \<Rightarrow> st_manager" where
  "get_manager_for_kv_cache_spec spec gid =
     \<lparr>mgr_spec = spec, req_to_blocks = [], num_cached_block = [], kv_cache_group_id = gid\<rparr>"

text \<open>\<open>self.req_to_blocks[request_id]\<close>, which inserts an empty list for a new key.\<close>

definition read_blocks :: "string \<Rightarrow> st_manager \<Rightarrow> blk_ref list \<times> st_manager" where
  "read_blocks rid m =
     (let (bs, d) = ddict_get rid (req_to_blocks m) in (bs, m\<lparr>req_to_blocks := d\<rparr>))"

definition write_blocks :: "string \<Rightarrow> blk_ref list \<Rightarrow> st_manager \<Rightarrow> st_manager" where
  "write_blocks rid bs m = m\<lparr>req_to_blocks := AList.update rid bs (req_to_blocks m)\<rparr>"

definition py_floordiv :: "int \<Rightarrow> int \<Rightarrow> int res" where
  "py_floordiv a b = (if b = 0 then Err ZeroDivisionError else Ok (a div b))"

section \<open>Operations common to all variants\<close>

definition get_num_blocks_to_allocate ::
  "string \<Rightarrow> int \<Rightarrow> blk_ref list \<Rightarrow> block_pool \<Rightarrow> st_manager \<Rightarrow> (int \<times> st_manager) res" where
  "get_num_blocks_to_allocate rid ntok new_computed p m =
     rbind (py_cdiv ntok (mgr_block_size m)) (\<lambda>num_required_blocks.
     let (bs, m') = read_blocks rid m;
         num_new_blocks = num_required_blocks - int (length new_computed) - int (length bs);
         num_evictable = int (length (filter (\<lambda>b. ref_cnt (blk p b) = 0 \<and> \<not> is_null (blk p b)) new_computed))
     in Ok (num_new_blocks + num_evictable, m'))"

definition save_new_computed_blocks ::
  "string \<Rightarrow> blk_ref list \<Rightarrow> st_manager \<Rightarrow> st_manager res" where
  "save_new_computed_blocks rid new_computed m =
     (if map_of (num_cached_block m) rid = None
      then let (bs, m') = read_blocks rid m in
           rbind (py_assert (length bs = 0)) (\<lambda>_.
           let m'' = write_blocks rid (bs @ new_computed) m'
           in Ok (m''\<lparr>num_cached_block :=
                       AList.update rid (int (length new_computed)) (num_cached_block m'')\<rparr>))
      else rbind (py_assert (length new_computed = 0)) (\<lambda>_. Ok m))"

definition base_allocate_new_blocks ::
  "string \<Rightarrow> int \<Rightarrow> block_pool \<Rightarrow> st_manager \<Rightarrow> (blk_ref list \<times> block_pool \<times> st_manager) res" where
  "base_allocate_new_blocks rid ntok p m =
     (let (bs, m') = read_blocks rid m in
      rbind (py_cdiv ntok (mgr_block_size m)) (\<lambda>num_required_blocks.
      let num_new_blocks = num_required_blocks - int (length bs) in
      if num_new_blocks \<le> 0 then Ok ([], p, m')
      else rbind (get_new_blocks num_new_blocks p) (\<lambda>(new_blocks, p').
           Ok (new_blocks, p', write_blocks rid (bs @ new_blocks) m'))))"

text \<open>The mamba variant checks that the request ends up with exactly one block.\<close>

definition allocate_new_blocks ::
  "string \<Rightarrow> int \<Rightarrow> block_pool \<Rightarrow> st_manager \<Rightarrow> (blk_ref list \<times> block_pool \<times> st_manager) res" where
  "allocate_new_blocks rid ntok p m =
     (case mgr_spec m of
        MambaSpec _ _ _ _ _ \<Rightarrow>
          rbind (base_allocate_new_blocks rid ntok p m) (\<lambda>(new_blocks, p', m').
          let (bs, m'') = read_blocks rid m' in
          rbind (py_assert (length bs = 1)) (\<lambda>_. Ok (new_blocks, p', m'')))
      | _ \<Rightarrow> base_allocate_new_blocks rid ntok p m)"

definition cache_blocks ::
  "int \<Rightarrow> hash_fn \<Rightarrow> request \<Rightarrow> block_hash list \<Rightarrow> int \<Rightarrow> block_pool \<Rightarrow> st_manager
   \<Rightarrow> (block_hash list \<times> block_pool \<times> st_manager) res" where
  "cache_blocks nh hf r bhs ntok p m =
     rbind (dict_get (request_id r) (num_cached_block m)) (\<lambda>num_cached_blocks.
     rbind (py_floordiv ntok (mgr_block_size m)) (\<lambda>num_full_blocks.
     let (bs, m') = read_blocks (request_id r) m in
     rbind (cache_full_blocks nh hf r bs bhs num_cached_blocks num_full_blocks (mgr_block_size m)
              (kv_cache_group_id m) p) (\<lambda>(bhs', p').
     Ok (bhs', p', m'\<lparr>num_cached_block :=
                       AList.update (request_id r) num_full_blocks (num_cached_block m')\<rparr>))))"

definition mgr_free :: "string \<Rightarrow> block_pool \<Rightarrow> st_manager \<Rightarrow> (block_pool \<times> st_manager) res" where
  "mgr_free rid p m =
     (let bs = list_of rid (req_to_blocks m);
          m' = m\<lparr>req_to_blocks := AList.delete rid (req_to_blocks m)\<rparr>
      in rbind (free_blocks (rev bs) p) (\<lambda>p'.
         Ok (p', m'\<lparr>num_cached_block := AList.delete rid (num_cached_block m')\<rparr>)))"

section \<open>The longest cached prefix\<close>

text \<open>Appending the cached block of every group to that group's list.\<close>

definition append_cols :: "'a list list \<Rightarrow> 'a list \<Rightarrow> 'a list list" where
  "append_cols xss ys = map2 (\<lambda>xs y. xs @ [y]) xss ys"

fun full_hit_loop ::
  "nat list \<Rightarrow> block_pool \<Rightarrow> block_hash list \<Rightarrow> blk_ref list list \<Rightarrow> blk_ref list list" where
  "full_hit_loop gids p [] computed = computed"
| "full_hit_loop gids p (h # hs) computed =
     (case get_cached_block h gids p of
        None \<Rightarrow> computed
      | Some cached \<Rightarrow>
          (if cached = [] then computed else full_hit_loop gids p hs (append_cols computed cached)))"

text \<open>\<open>if use_eagle and computed_blocks[0]: computed.pop()\<close> for every group.\<close>

definition eagle_pop :: "bool \<Rightarrow> blk_ref list list \<Rightarrow> blk_ref list list res" where
  "eagle_pop use_eagle computed =
     (if use_eagle
      then rbind (py_index computed 0) (\<lambda>c.
           if c \<noteq> [] then Ok (map butlast computed) else Ok computed)
      else Ok computed)"

definition find_full ::
  "block_hash list \<Rightarrow> int \<Rightarrow> nat list \<Rightarrow> block_pool \<Rightarrow> int \<Rightarrow> bool \<Rightarrow> blk_ref list list res" where
  "find_full hs max_length gids p bs use_eagle =
     rbind (py_floordiv max_length bs) (\<lambda>max_num_blocks.
     if max_num_blocks < 0 then Err ValueError
     else eagle_pop use_eagle
            (full_hit_loop gids p (take (nat max_num_blocks) hs) (map (\<lambda>_. []) gids)))"

text \<open>
  The search from right to left of the sliding window variant; the first argument is one
  more than the index.  The result says whether a long enough run was found.
\<close>

fun sw_hit_loop ::
  "nat \<Rightarrow> block_hash list \<Rightarrow> nat list \<Rightarrow> block_pool \<Rightarrow> int \<Rightarrow> blk_ref list list \<Rightarrow> nat
   \<Rightarrow> (blk_ref list list \<times> nat \<times> bool) res" where
  "sw_hit_loop 0 hs gids p need computed contig = Ok (computed, contig, False)"
| "sw_hit_loop (Suc i) hs gids p need computed contig =
     rbind (py_index hs (int i)) (\<lambda>h.
     case get_cached_block h gids p of
       None \<Rightarrow> sw_hit_loop i hs gids p need computed 0
     | Some cached \<Rightarrow>
         (if cached = [] then sw_hit_loop i hs gids p need computed 0
          else
            let computed' = map2 (\<lambda>xs y. xs[i := y]) computed cached; contig' = contig + 1
            in if int contig' \<ge> need then Ok (map (take (i + contig')) computed', contig', True)
               else sw_hit_loop i hs gids p need computed' contig'))"

definition find_sliding ::
  "block_hash list \<Rightarrow> int \<Rightarrow> nat list \<Rightarrow> block_pool \<Rightarrow> int \<Rightarrow> int \<Rightarrow> bool \<Rightarrow> blk_ref list list res" where
  "find_sliding hs max_length gids p bs window use_eagle =
     rbind (py_cdiv (window - 1) bs) (\<lambda>n.
     let need = (if use_eagle then n + 1 else n) in
     rbind (py_floordiv max_length bs) (\<lambda>max_num_blocks.
     rbind (sw_hit_loop (nat max_num_blocks) hs gids p need
              (map (\<lambda>_. replicate (nat max_num_blocks) (null_block p)) gids) 0)
       (\<lambda>(computed, contig, found).
          eagle_pop use_eagle (if found then computed else map (take contig) computed))))"

fun chunk_hit_loop ::
  "nat list \<Rightarrow> block_hash list \<Rightarrow> nat list \<Rightarrow> block_pool \<Rightarrow> blk_ref list list \<Rightarrow> blk_ref list list res" where
  "chunk_hit_loop [] hs gids p computed = Ok computed"
| "chunk_hit_loop (i # is) hs gids p computed =
     rbind (py_index hs (int i)) (\<lambda>h.
     case get_cached_block h gids p of
       None \<Rightarrow> Ok computed
     | Some cached \<Rightarrow>
         (if cached = [] then Ok computed
          else chunk_hit_loop is hs gids p (append_cols computed cached)))"

definition find_chunked ::
  "block_hash list \<Rightarrow> int \<Rightarrow> nat list \<Rightarrow> block_pool \<Rightarrow> int \<Rightarrow> int \<Rightarrow> bool \<Rightarrow> blk_ref list list res" where
  "find_chunked hs max_length gids p bs chunk use_eagle =
     rbind (py_assert (\<not> use_eagle)) (\<lambda>_.
     rbind (py_floordiv max_length bs) (\<lambda>max_num_blocks.
     rbind (if max_length > 0
            then rbind (py_floordiv max_length chunk) (\<lambda>q. Ok (q * chunk)) else Ok 0)
       (\<lambda>local_attention_start_idx.
          let start_block = nat (local_attention_start_idx div bs)
          in chunk_hit_loop [start_block..<nat max_num_blocks] hs gids p
               (map (\<lambda>_. replicate start_block (null_block p)) gids))))"

definition find_longest_cache_hit ::
  "block_hash list \<Rightarrow> int \<Rightarrow> nat list \<Rightarrow> block_pool \<Rightarrow> kv_cache_spec \<Rightarrow> bool \<Rightarrow> blk_ref list list res" where
  "find_longest_cache_hit hs max_length gids p spec use_eagle =
     (case spec of
        FullAttentionSpec a _ _ \<Rightarrow> find_full hs max_length gids p (as_block_size a) use_eagle
      | SlidingWindowSpec a w \<Rightarrow> find_sliding hs max_length gids p (as_block_size a) w use_eagle
      | ChunkedLocalAttentionSpec a c \<Rightarrow> find_chunked hs max_length gids p (as_block_size a) c use_eagle
      | MambaSpec _ _ _ _ _ \<Rightarrow> Ok (map (\<lambda>_. []) gids))"

section \<open>Blocks that are no longer needed\<close>

text \<open>The loop runs from index \<open>n - 1\<close> down and stops at the first null block.\<close>

fun remove_loop :: "blk_ref \<Rightarrow> nat \<Rightarrow> blk_ref list \<Rightarrow> blk_ref list \<Rightarrow> (blk_ref list \<times> blk_ref list) res" where
  "remove_loop null 0 bs removed = Ok (bs, removed)"
| "remove_loop null (Suc i) bs removed =
     rbind (py_index bs (int i)) (\<lambda>b.
     if b = null then Ok (bs, removed) else remove_loop null i (bs[i := null]) (removed @ [b]))"

definition remove_below :: "string \<Rightarrow> int \<Rightarrow> block_pool \<Rightarrow> st_manager \<Rightarrow> (block_pool \<times> st_manager) res" where
  "remove_below rid n p m =
     (let (bs, m') = read_blocks rid m in
      rbind (remove_loop (null_block p) (nat n) bs []) (\<lambda>(bs', removed).
      rbind (free_blocks removed p) (\<lambda>p'. Ok (p', write_blocks rid bs' m'))))"

definition remove_skipped_blocks ::
  "string \<Rightarrow> int \<Rightarrow> block_pool \<Rightarrow> st_manager \<Rightarrow> (block_pool \<times> st_manager) res" where
  "remove_skipped_blocks rid ncomp p m =
     (case mgr_spec m of
        SlidingWindowSpec _ window \<Rightarrow>
          let last_useful_token = ncomp - window + 1 in
          rbind (py_floordiv last_useful_token (mgr_block_size m)) (\<lambda>last_useful_block.
          remove_below rid last_useful_block p m)
      | ChunkedLocalAttentionSpec _ chunk \<Rightarrow>
          let num_cached = (case map_of (num_cached_block m) rid of None \<Rightarrow> 0 | Some n \<Rightarrow> n) in
          rbind (py_floordiv ncomp chunk) (\<lambda>q.
          rbind (py_floordiv (q * chunk) (mgr_block_size m)) (\<lambda>first0.
          remove_below rid (if num_cached > 0 then min first0 (num_cached - 1) else first0) p m))
      | _ \<Rightarrow> Ok (p, m))"

text \<open>Only full attention counts the leading blocks every running request holds.\<close>

definition get_num_common_prefix_blocks ::
  "string \<Rightarrow> int \<Rightarrow> block_pool \<Rightarrow> st_manager \<Rightarrow> int \<times> st_manager" where
  "get_num_common_prefix_blocks rid num_running p m =
     (case mgr_spec m of
        FullAttentionSpec _ _ _ \<Rightarrow>
          let (bs, m') = read_blocks rid m
          in (int (length (takeWhile (\<lambda>b. ref_cnt (blk p b) = num_running) bs)), m')
      | _ \<Rightarrow> (0, m))"

section \<open>What a lookup returns\<close>

definition hit_block :: "block_pool \<Rightarrow> block_hash \<Rightarrow> nat \<Rightarrow> blk_ref \<Rightarrow> bool" where
  "hit_block p h g b \<longleftrightarrow> real_block p b \<and> blk_hash (blk p b) = Some (BlockHashWithGroupId h g)"

text \<open>
  The contract all variants share: one list per group, all of length \<open>n\<close>, in which every
  entry is the null block or a block that carries the hash of its position for its group.  Which
  entries may be the null block depends on the kind of attention and is said by \<open>filled\<close>.
\<close>

definition hits_ok :: "block_pool \<Rightarrow> block_hash list \<Rightarrow> nat list \<Rightarrow> nat \<Rightarrow> blk_ref list list \<Rightarrow> bool" where
  "hits_ok p hs gids n res \<longleftrightarrow> list_all2 (\<lambda>g c. length c = n \<and>
     (\<forall>i < n. c ! i = null_block p \<or> (i < length hs \<and> hit_block p (hs ! i) g (c ! i)))) gids res"

text \<open>The entries from \<open>a\<close> to \<open>b\<close> are blocks, not placeholders.\<close>

definition filled :: "block_pool \<Rightarrow> nat \<Rightarrow> nat \<Rightarrow> blk_ref list list \<Rightarrow> bool" where
  "filled p a b res \<longleftrightarrow> (\<forall>c \<in> set res. \<forall>i. a \<le> i \<and> i < b \<longrightarrow> i < length c \<and> real_block p (c ! i))"

abbreviation in_cache :: "block_pool \<Rightarrow> nat list \<Rightarrow> block_hash \<Rightarrow> bool" where
  "in_cache p gids h \<equiv> get_cached_block h gids p \<noteq> None"

lemma get_cached_block_length: "get_cached_block h gids p = Some cs \<Longrightarrow> length cs = length gids"
  by (induction gids arbitrary: cs) (auto split: option.splits list.splits)

lemma get_cached_block_Nil: "get_cached_block h gids p = Some [] \<Longrightarrow> gids = []"
  using get_cached_block_length by fastforce

lemma list_all2_map2:
  assumes "list_all2 P gs xs" and "list_all2 Q gs ys" and "\<And>g x y. P g x \<Longrightarrow> Q g y \<Longrightarrow> R g (f x y)"
  shows "list_all2 R gs (map2 f xs ys)"
  using assms by (auto simp: list_all2_conv_all_nth)

lemma hit_cols: "table_inv p \<Longrightarrow> get_cached_block h gids p = Some cs \<Longrightarrow> list_all2 (hit_block p h) gids cs"
  using get_cached_block_hit by (simp add: hit_block_def list_all2_conv_all_nth)

lemma hits_ok_append:
  assumes "table_inv p" and "hits_ok p hs gids n res" and "n < length hs"
    and "get_cached_block (hs ! n) gids p = Some cs"
  shows "hits_ok p hs gids (Suc n) (append_cols res cs)"
  unfolding hits_ok_def append_cols_def
  by (rule list_all2_map2 [OF assms(2) [unfolded hits_ok_def] hit_cols [OF assms(1,4)]])
    (use assms(3) in \<open>auto simp: nth_append less_Suc_eq\<close>)

lemma nth_update_case: "j < length xs \<Longrightarrow> xs[i := y] ! j = (if j = i then y else xs ! j)"
  by simp

lemma hits_ok_update:
  assumes "table_inv p" and "hits_ok p hs gids n res" and "i < length hs"
    and "get_cached_block (hs ! i) gids p = Some cs"
  shows "hits_ok p hs gids n (map2 (\<lambda>xs y. xs[i := y]) res cs)"
  unfolding hits_ok_def
  by (rule list_all2_map2 [OF assms(2) [unfolded hits_ok_def] hit_cols [OF assms(1,4)]])
    (use assms(3) in \<open>auto simp: nth_update_case\<close>)

lemma hits_ok_take: "hits_ok p hs gids n res \<Longrightarrow> k \<le> n \<Longrightarrow> hits_ok p hs gids k (map (take k) res)"
  by (auto simp: hits_ok_def list_all2_conv_all_nth)

lemma hits_ok_butlast: "hits_ok p hs gids n res \<Longrightarrow> hits_ok p hs gids (n - 1) (map butlast res)"
  by (auto simp: hits_ok_def list_all2_conv_all_nth nth_butlast)

lemma hits_ok_nulls: "hits_ok p hs gids n (map (\<lambda>_. replicate n (null_block p)) gids)"
  by (auto simp: hits_ok_def list_all2_conv_all_nth)

lemma hits_ok_length: "hits_ok p hs gids n res \<Longrightarrow> c \<in> set res \<Longrightarrow> length c = n"
  by (auto simp: hits_ok_def list_all2_conv_all_nth in_set_conv_nth)

lemma hits_ok_nth:
  assumes "hits_ok p hs gids n res" and "k < length gids" and "i < n"
  shows "res ! k ! i = null_block p \<or> (i < length hs \<and> hit_block p (hs ! i) (gids ! k) (res ! k ! i))"
  using assms by (simp add: hits_ok_def list_all2_conv_all_nth)

lemma hits_ok_column:
  assumes "hits_ok p hs gids n res" and "c \<in> set res"
  obtains k where "k < length gids" and "c = res ! k" and "length c = n"
  using assms hits_ok_length [OF assms] by (auto simp: hits_ok_def list_all2_conv_all_nth in_set_conv_nth)

lemma filled_append:
  assumes "table_inv p" and "filled p a n res" and "\<forall>c \<in> set res. length c = n" and "get_cached_block h gids p = Some cs"
  shows "filled p a (Suc n) (append_cols res cs)"
proof -
  have "\<forall>y \<in> set cs. real_block p y"
    using hit_cols [OF assms(1,4)] by (auto simp: hit_block_def list_all2_conv_all_nth in_set_conv_nth)
  moreover have "length xs = n" "\<forall>k. a \<le> k \<and> k < n \<longrightarrow> real_block p (xs ! k)" if "xs \<in> set res" for xs
    using assms(2,3) that by (auto simp: filled_def)
  ultimately have "k < length (xs @ [y]) \<and> real_block p ((xs @ [y]) ! k)"
    if "xs \<in> set res" "y \<in> set cs" "a \<le> k" "k < Suc n" for xs y k
    using that by (cases "k = n") (auto simp: nth_append)
  moreover have "x \<in> set res" "y \<in> set cs" if "(x, y) \<in> set (zip res cs)" for x y
    using that by (auto dest: set_zip_leftD set_zip_rightD)
  ultimately show ?thesis unfolding filled_def append_cols_def by fastforce
qed

lemma filled_take: "filled p a b res \<Longrightarrow> k \<le> b \<Longrightarrow> filled p a k (map (take k) res)"
  by (auto simp: filled_def)

lemma filled_butlast: "filled p a b res \<Longrightarrow> \<forall>c \<in> set res. length c = b \<Longrightarrow> filled p a (b - 1) (map butlast res)"
  by (auto simp: filled_def nth_butlast)

lemma filled_mono: "filled p a b res \<Longrightarrow> a \<le> a' \<Longrightarrow> b' \<le> b \<Longrightarrow> filled p a' b' res"
  by (auto simp: filled_def)

lemma hits_filled:
  assumes "static_inv p" and "hits_ok p hs gids n res" and "filled p a n res"
  shows "list_all2 (\<lambda>g col. length col = n \<and> (\<forall>i < n. a \<le> i \<longrightarrow> hit_block p (hs ! i) g (col ! i))) gids res"
  using assms null_not_real [OF assms(1)] unfolding hits_ok_def filled_def list_all2_conv_all_nth
  by (metis (no_types, lifting) nth_mem)

lemma eagle_pop_spec:
  assumes "hits_ok p hs gids n res" and "gids \<noteq> []" and "filled p a n res"
  obtains res' where "eagle_pop e res = Ok res'" and "hits_ok p hs gids (n - (if e then 1 else 0)) res'"
    and "filled p a (n - (if e then 1 else 0)) res'"
proof -
  have len: "length res = length gids" using assms(1) by (auto simp: hits_ok_def dest: list_all2_lengthD)
  then obtain c cs where res: "res = c # cs" using assms(2) by (cases res) auto
  have all: "\<forall>c \<in> set res. length c = n" using hits_ok_length [OF assms(1)] by blast
  show thesis
  proof (cases "e \<and> c \<noteq> []")
    case True
    then have "eagle_pop e res = Ok (map butlast res)" by (simp add: eagle_pop_def res py_index_def)
    then show thesis using that hits_ok_butlast [OF assms(1)] filled_butlast [OF assms(3) all] True by simp
  next
    case False
    then have "eagle_pop e res = Ok res" by (auto simp: eagle_pop_def res py_index_def)
    moreover have "n - (if e then 1 else 0) = n" using False all res by auto
    ultimately show thesis using that assms by metis
  qed
qed

subsection \<open>Full attention\<close>

lemma full_hit_loop_spec:
  assumes "table_inv p" and "gids \<noteq> []" and "hits_ok p (pre @ hs) gids (length pre) res" and "filled p 0 (length pre) res"
  shows "hits_ok p (pre @ hs) gids (length pre + length (takeWhile (in_cache p gids) hs)) (full_hit_loop gids p hs res) \<and>
    filled p 0 (length pre + length (takeWhile (in_cache p gids) hs)) (full_hit_loop gids p hs res)"
  using assms(3,4)
proof (induction hs arbitrary: pre res)
  case Nil
  then show ?case by simp
next
  case (Cons h hs)
  show ?case
  proof (cases "get_cached_block h gids p")
    case None
    then show ?thesis using Cons.prems by simp
  next
    case (Some cs)
    then have ne: "cs \<noteq> []" using get_cached_block_Nil assms(2) by auto
    have "hits_ok p (pre @ h # hs) gids (Suc (length pre)) (append_cols res cs)"
      by (rule hits_ok_append [OF assms(1) Cons.prems(1)]) (use Some in simp_all)
    then have h: "hits_ok p ((pre @ [h]) @ hs) gids (length (pre @ [h])) (append_cols res cs)" by simp
    have "\<forall>c \<in> set res. length c = length pre" using hits_ok_length [OF Cons.prems(1)] by blast
    then have "filled p 0 (length (pre @ [h])) (append_cols res cs)"
      using filled_append [OF assms(1) Cons.prems(2) _ Some] by simp
    from Cons.IH [OF h this] show ?thesis using Some ne by simp
  qed
qed

lemma hits_ok_prefix: "hits_ok p (take k hs) gids n res \<Longrightarrow> hits_ok p hs gids n res"
  unfolding hits_ok_def by (erule list_all2_mono) auto

lemma find_full_spec:
  assumes "table_inv p" and "gids \<noteq> []" and "0 < bs" and "0 \<le> ml"
    and "n = length (takeWhile (in_cache p gids) (take (nat (ml div bs)) hs)) - (if e then 1 else 0)"
  obtains res where "find_full hs ml gids p bs e = Ok res" and "hits_ok p hs gids n res" and "filled p 0 n res"
proof -
  let ?hs = "take (nat (ml div bs)) hs"
  have start: "hits_ok p ([] @ ?hs) gids (length []) (map (\<lambda>_. []) gids)" "filled p 0 (length []) (map (\<lambda>_. []) gids)"
    by (auto simp: hits_ok_def list_all2_conv_all_nth filled_def)
  let ?r = "full_hit_loop gids p ?hs (map (\<lambda>_. []) gids)" and ?n = "length (takeWhile (in_cache p gids) ?hs)"
  have h: "hits_ok p ?hs gids ?n ?r" "filled p 0 ?n ?r" using full_hit_loop_spec [OF assms(1,2) start] by simp_all
  obtain res where res: "eagle_pop e ?r = Ok res" "hits_ok p ?hs gids (?n - (if e then 1 else 0)) res"
      "filled p 0 (?n - (if e then 1 else 0)) res"
    by (rule eagle_pop_spec [OF h(1) assms(2) h(2)])
  have "0 \<le> ml div bs" using assms(3,4) by (simp add: pos_imp_zdiv_nonneg_iff)
  then have "find_full hs ml gids p bs e = Ok res" using assms(3) res(1) by (simp add: find_full_def py_floordiv_def)
  then show thesis using that hits_ok_prefix [OF res(2)] res(3) unfolding assms(5) by blast
qed

subsection \<open>Sliding window\<close>

text \<open>A prefix of \<open>j\<close> blocks is usable when the last \<open>w\<close> of them are cached.\<close>

definition window_hit :: "block_pool \<Rightarrow> nat list \<Rightarrow> block_hash list \<Rightarrow> nat \<Rightarrow> nat \<Rightarrow> bool" where
  "window_hit p gids hs w j \<longleftrightarrow> (\<forall>i < j. j - w \<le> i \<longrightarrow> in_cache p gids (hs ! i))"

lemma filled_update:
  assumes "table_inv p" and "filled p (Suc i) b res" and "get_cached_block h gids p = Some cs"
    and "\<forall>c \<in> set res. i < length c"
  shows "filled p i b (map2 (\<lambda>xs y. xs[i := y]) res cs)"
proof -
  have "\<forall>y \<in> set cs. real_block p y"
    using hit_cols [OF assms(1,3)] by (auto simp: hit_block_def list_all2_conv_all_nth in_set_conv_nth)
  moreover have "i < length xs" "\<forall>k. Suc i \<le> k \<and> k < b \<longrightarrow> k < length xs \<and> real_block p (xs ! k)"
    if "xs \<in> set res" for xs
    using assms(2,4) that by (auto simp: filled_def)
  ultimately have "k < length (xs[i := y]) \<and> real_block p (xs[i := y] ! k)"
    if "xs \<in> set res" "y \<in> set cs" "i \<le> k" "k < b" for xs y k
    using that by (cases "k = i") auto
  moreover have "a \<in> set res" "b \<in> set cs" if "(a, b) \<in> set (zip res cs)" for a b
    using that by (auto dest: set_zip_leftD set_zip_rightD)
  ultimately show ?thesis unfolding filled_def by fastforce
qed

definition sw_result ::
  "block_pool \<Rightarrow> nat list \<Rightarrow> block_hash list \<Rightarrow> nat \<Rightarrow> nat \<Rightarrow> (blk_ref list list \<times> nat \<times> bool) res \<Rightarrow> bool" where
  "sw_result p gids hs w mx out \<longleftrightarrow> (\<exists>res contig found n. out = Ok (res, contig, found) \<and> n \<le> mx \<and>
     hits_ok p hs gids n (if found then res else map (take contig) res) \<and>
     filled p (n - w) n (if found then res else map (take contig) res) \<and>
     window_hit p gids hs w n \<and> (\<forall>j. n < j \<and> j \<le> mx \<longrightarrow> \<not> window_hit p gids hs w j))"

lemma sw_hit_loop_spec:
  assumes "table_inv p" and "gids \<noteq> []" and "mx \<le> length hs" and "w = nat (max need 1)"
  shows "i + contig \<le> mx \<Longrightarrow> hits_ok p hs gids mx res \<Longrightarrow> filled p i (i + contig) res \<Longrightarrow> contig < w \<Longrightarrow>
    (\<forall>k. i \<le> k \<and> k < i + contig \<longrightarrow> in_cache p gids (hs ! k)) \<Longrightarrow>
    (\<forall>j. i + contig < j \<and> j \<le> mx \<longrightarrow> \<not> window_hit p gids hs w j) \<Longrightarrow>
    sw_result p gids hs w mx (sw_hit_loop i hs gids p need res contig)"
proof (induction i arbitrary: res contig)
  case 0
  then have "hits_ok p hs gids contig (map (take contig) res)" by (intro hits_ok_take) auto
  moreover have "filled p 0 contig (map (take contig) res)" using 0(3) by (auto simp: filled_def)
  then have "filled p (contig - w) contig (map (take contig) res)" using 0(4) by simp
  moreover have "window_hit p gids hs w contig" using 0(5) by (auto simp: window_hit_def)
  ultimately show ?case using 0(1,6) unfolding sw_result_def
    by (intro exI [of _ res] exI [of _ contig] exI [of _ False]) simp
next
  case (Suc i)
  have idx: "py_index hs (int i) = Ok (hs ! i)" using Suc.prems(1) assms(3) by (simp add: py_index_nonneg)
  show ?case
  proof (cases "get_cached_block (hs ! i) gids p")
    case None
    have "\<not> window_hit p gids hs w j" if j: "i < j" "j \<le> mx" for j
    proof (cases "Suc i + contig < j")
      case False
      then have "j - w \<le> i" using Suc.prems(4) by simp
      with j(1) show ?thesis using None by (auto simp: window_hit_def)
    qed (use Suc.prems(6) j in blast)
    then have "sw_result p gids hs w mx (sw_hit_loop i hs gids p need res 0)"
      using Suc.prems(1,2) assms(4) by (intro Suc.IH) (auto simp: filled_def)
    then show ?thesis using None idx by simp
  next
    case (Some cs)
    then have ne: "cs \<noteq> []" using get_cached_block_Nil assms(2) by auto
    let ?res = "map2 (\<lambda>xs y. xs[i := y]) res cs" and ?n = "i + Suc contig"
    have h: "hits_ok p hs gids mx ?res"
      by (rule hits_ok_update [OF assms(1) Suc.prems(2) _ Some]) (use Suc.prems(1) assms(3) in simp)
    have "\<forall>c \<in> set res. i < length c" using Suc.prems(1) hits_ok_length [OF Suc.prems(2)] by auto
    then have f: "filled p i ?n ?res"
      using Suc.prems(3) by (intro filled_update [OF assms(1) _ Some]) simp_all
    have c: "in_cache p gids (hs ! k)" if "i \<le> k" "k < ?n" for k
      using Suc.prems(5) Some that by (cases "k = i") auto
    show ?thesis
    proof (cases "int (Suc contig) \<ge> need")
      case True
      then have w: "Suc contig = w" using Suc.prems(4) assms(4) by auto
      have "hits_ok p hs gids ?n (map (take ?n) ?res)" using Suc.prems(1) by (intro hits_ok_take [OF h]) simp
      moreover have "filled p (?n - w) ?n (map (take ?n) ?res)" using f w by (auto simp: filled_def)
      moreover have "window_hit p gids hs w ?n" using c w by (auto simp: window_hit_def)
      moreover have "sw_hit_loop (Suc i) hs gids p need res contig = Ok (map (take ?n) ?res, Suc contig, True)"
        using Some ne idx True by (simp add: Let_def)
      ultimately show ?thesis using Suc.prems(1,6) unfolding sw_result_def
        by (intro exI [of _ "map (take ?n) ?res"] exI [of _ "Suc contig"] exI [of _ True] exI [of _ ?n]) simp
    next
      case False
      have "sw_result p gids hs w mx (sw_hit_loop i hs gids p need ?res (Suc contig))"
        by (rule Suc.IH) (use Suc.prems(1,6) h f c False assms(4) in simp_all)
      then show ?thesis using Some ne idx False by (simp add: Let_def)
    qed
  qed
qed

lemma cdiv_window: "0 < bs \<Longrightarrow> 0 < w \<Longrightarrow> 0 \<le> cdiv (w - 1) bs"
  by (simp add: cdiv_nonneg)

lemma find_sliding_spec:
  assumes "table_inv p" and "gids \<noteq> []" and "0 < bs" and "nat (ml div bs) \<le> length hs"
    and "w = nat (max (cdiv (window - 1) bs + (if e then 1 else 0)) 1)"
  obtains res n where "find_sliding hs ml gids p bs window e = Ok res"
    and "n \<le> nat (ml div bs)" and "hits_ok p hs gids (n - (if e then 1 else 0)) res"
    and "filled p (n - w) (n - (if e then 1 else 0)) res"
    and "window_hit p gids hs w n" and "\<forall>j. n < j \<and> j \<le> nat (ml div bs) \<longrightarrow> \<not> window_hit p gids hs w j"
proof -
  let ?mx = "nat (ml div bs)" and ?need = "if e then cdiv (window - 1) bs + 1 else cdiv (window - 1) bs"
  have w: "w = nat (max ?need 1)" using assms(5) by simp
  have "sw_result p gids hs w ?mx
      (sw_hit_loop ?mx hs gids p ?need (map (\<lambda>_. replicate ?mx (null_block p)) gids) 0)"
    by (rule sw_hit_loop_spec [OF assms(1,2,4) w]) (use w in \<open>auto simp: hits_ok_nulls filled_def\<close>)
  then obtain res contig found n where
    l: "sw_hit_loop ?mx hs gids p ?need (map (\<lambda>_. replicate ?mx (null_block p)) gids) 0 = Ok (res, contig, found)"
      "n \<le> ?mx" "hits_ok p hs gids n (if found then res else map (take contig) res)"
      "filled p (n - w) n (if found then res else map (take contig) res)"
      "window_hit p gids hs w n" "\<forall>j. n < j \<and> j \<le> ?mx \<longrightarrow> \<not> window_hit p gids hs w j"
    unfolding sw_result_def by blast
  let ?r = "if found then res else map (take contig) res"
  obtain res' where e: "eagle_pop e ?r = Ok res'" "hits_ok p hs gids (n - (if e then 1 else 0)) res'"
      "filled p (n - w) (n - (if e then 1 else 0)) res'"
    by (rule eagle_pop_spec [OF l(3) assms(2) l(4)])
  have "find_sliding hs ml gids p bs window e = Ok res'"
    using assms(3) l(1) e(1) by (simp add: find_sliding_def py_cdiv_def py_floordiv_def Let_def)
  then show thesis using l e(2,3) by (intro that [of res' n])
qed

subsection \<open>Chunked local attention\<close>

lemma chunk_hit_loop_spec:
  assumes "table_inv p" and "gids \<noteq> []" and "mx \<le> length hs"
  shows "n \<le> mx \<Longrightarrow> hits_ok p hs gids n res \<Longrightarrow> filled p a n res \<Longrightarrow>
    \<exists>res'. chunk_hit_loop [n..<mx] hs gids p res = Ok res' \<and>
      hits_ok p hs gids (n + length (takeWhile (in_cache p gids) (drop n (take mx hs)))) res' \<and>
      filled p a (n + length (takeWhile (in_cache p gids) (drop n (take mx hs)))) res'"
proof (induction "mx - n" arbitrary: n res)
  case 0
  then show ?case by simp
next
  case (Suc d)
  then have n: "n < mx" by simp
  then have up: "[n..<mx] = n # [Suc n..<mx]" by (simp add: upt_conv_Cons)
  have dr: "drop n (take mx hs) = hs ! n # drop (Suc n) (take mx hs)"
    using n assms(3) by (subst Cons_nth_drop_Suc [symmetric]) simp_all
  have idx: "py_index hs (int n) = Ok (hs ! n)" using n assms(3) by (simp add: py_index_nonneg)
  show ?case
  proof (cases "get_cached_block (hs ! n) gids p")
    case None
    then show ?thesis using Suc.prems(2,3) idx by (simp add: up dr)
  next
    case (Some cs)
    then have ne: "cs \<noteq> []" using get_cached_block_Nil assms(2) by auto
    have "hits_ok p hs gids (Suc n) (append_cols res cs)"
      by (rule hits_ok_append [OF assms(1) Suc.prems(2) _ Some]) (use n assms(3) in simp)
    moreover have "filled p a (Suc n) (append_cols res cs)"
      using hits_ok_length [OF Suc.prems(2)] by (intro filled_append [OF assms(1) Suc.prems(3) _ Some]) blast
    moreover have "d = mx - Suc n" "Suc n \<le> mx" using Suc.hyps(2) n by auto
    ultimately show ?thesis using Suc.hyps(1) [of "Suc n"] Some ne idx by (auto simp: up dr)
  qed
qed

lemma find_chunked_spec:
  assumes "table_inv p" and "gids \<noteq> []" and "0 < bs" and "0 < chunk" and "0 \<le> ml"
    and "nat (ml div bs) \<le> length hs" and "s = nat (ml div chunk * chunk div bs)"
  obtains res n where "find_chunked hs ml gids p bs chunk False = Ok res"
    and "hits_ok p hs gids n res" and "filled p s n res" and "s \<le> n" and "n \<le> nat (ml div bs)"
proof -
  have "ml div chunk * chunk \<le> ml"
    using assms(4) le_div_int_iff [of chunk "ml div chunk" ml] by simp
  then have s: "s \<le> nat (ml div bs)" using assms(3,7) by (auto intro: nat_mono zdiv_mono1)
  let ?n = "s + length (takeWhile (in_cache p gids) (drop s (take (nat (ml div bs)) hs)))"
  have "filled p s s (map (\<lambda>_. replicate s (null_block p)) gids)" by (auto simp: filled_def)
  from chunk_hit_loop_spec [OF assms(1,2,6) s hits_ok_nulls this] obtain res where
    "chunk_hit_loop [s..<nat (ml div bs)] hs gids p (map (\<lambda>_. replicate s (null_block p)) gids) = Ok res"
    "hits_ok p hs gids ?n res" "filled p s ?n res"
    by blast
  moreover have "?n \<le> nat (ml div bs)"
    using s length_takeWhile_le [of "in_cache p gids" "drop s (take (nat (ml div bs)) hs)"] by simp
  ultimately show thesis using assms(3,4,5,7)
    by (intro that [of res ?n]) (auto simp: find_chunked_def py_floordiv_def Let_def)
qed

text \<open>
  The blocks a request needs to go on after \<open>n\<close> computed blocks: all for full attention, those of
  the window before the next token for a sliding window, those of the chunk of the next token for
  chunked local attention (the kernels require that blocks divide chunks evenly), and none for Mamba layers,
  for which nothing is found.
\<close>

fun needed_from :: "kv_cache_spec \<Rightarrow> nat \<Rightarrow> nat" where
  "needed_from (FullAttentionSpec a w c) n = 0"
| "needed_from (SlidingWindowSpec a w) n = n - nat (cdiv (w - 1) (as_block_size a))"
| "needed_from (ChunkedLocalAttentionSpec a c) n =
     (if c mod as_block_size a = 0 then nat (int n * as_block_size a div c * c div as_block_size a) else n)"
| "needed_from (MambaSpec b sh dt pd ty) n = n"

lemma chunk_start:
  assumes "0 < bs" and "0 < c" and "c mod bs = 0" and "0 \<le> ml" and "nat (ml div c * c div bs) \<le> n" and "n \<le> nat (ml div bs)"
  shows "int n * bs div c * c div bs = ml div c * c div bs"
proof -
  obtain q where q: "c = bs * q" using assms(3) by (metis dvd_def mod_0_imp_dvd)
  have nn: "0 \<le> ml div c" "0 \<le> ml div bs" using assms by (simp_all add: pos_imp_zdiv_nonneg_iff)
  have "ml div c * c div bs = ml div c * q" using assms(1) q by (simp add: algebra_simps)
  then have "ml div c * q \<le> int n" using assms(5) by simp
  then have "ml div c * c \<le> int n * bs" using assms(1) q mult_right_mono [of "ml div c * q" "int n" bs] by (simp add: algebra_simps)
  then have lo: "ml div c \<le> int n * bs div c" using assms(2) by (simp add: le_div_int_iff)
  have "int n \<le> ml div bs" using assms(6) nn(2) by simp
  then have "int n * bs \<le> ml" using assms(1) by (simp add: le_div_int_iff)
  then have "int n * bs div c \<le> ml div c" using assms(2) by (rule zdiv_mono1)
  with lo show ?thesis by simp
qed

text \<open>All variants keep the contract.\<close>

lemma find_longest_cache_hit_ok:
  assumes "table_inv p" and "gids \<noteq> []" and "0 < spec_block_size spec" and "0 \<le> ml"
    and "nat (ml div spec_block_size spec) \<le> length hs"
    and "find_longest_cache_hit hs ml gids p spec e = Ok res"
    and "\<And>a c. spec = ChunkedLocalAttentionSpec a c \<Longrightarrow> 0 < c"
  shows "\<exists>n. hits_ok p hs gids n res \<and> filled p (needed_from spec n) n res \<and> int n * spec_block_size spec \<le> ml"
proof -
  have le: "int n * b \<le> ml" if "n \<le> nat (ml div b)" "0 < b" for n b
  proof -
    have "0 \<le> ml div b" using assms(4) that(2) by (simp add: pos_imp_zdiv_nonneg_iff)
    then have "int n \<le> ml div b" using that(1) by simp
    then show ?thesis using that(2) by (simp add: le_div_int_iff)
  qed
  show ?thesis
  proof (cases spec)
    case (FullAttentionSpec a w c)
    let ?b = "as_block_size a"
    let ?n = "length (takeWhile (in_cache p gids) (take (nat (ml div ?b)) hs)) - (if e then 1 else 0)"
    have b: "0 < ?b" "find_full hs ml gids p ?b e = Ok res"
      using FullAttentionSpec assms(3,6) by (auto simp: find_longest_cache_hit_def)
    obtain res' where r: "find_full hs ml gids p ?b e = Ok res'" "hits_ok p hs gids ?n res'" "filled p 0 ?n res'"
      by (rule find_full_spec [OF assms(1,2) b(1) assms(4) refl])
    then have "hits_ok p hs gids ?n res \<and> filled p 0 ?n res" using b(2) by (metis res.inject(2))
    moreover have "?n \<le> nat (ml div ?b)"
      using length_takeWhile_le [of "in_cache p gids" "take (nat (ml div ?b)) hs"] by (auto intro: le_trans [OF diff_le_self])
    ultimately show ?thesis using le FullAttentionSpec b(1) by auto
  next
    case (SlidingWindowSpec a w)
    let ?b = "as_block_size a" let ?w = "nat (max (cdiv (w - 1) ?b + (if e then 1 else 0)) 1)"
    have b: "0 < ?b" "nat (ml div ?b) \<le> length hs" "find_sliding hs ml gids p ?b w e = Ok res"
      using SlidingWindowSpec assms(3,5,6) by (auto simp: find_longest_cache_hit_def)
    obtain n where n: "n \<le> nat (ml div ?b)" "hits_ok p hs gids (n - (if e then 1 else 0)) res"
        "filled p (n - ?w) (n - (if e then 1 else 0)) res"
      by (rule find_sliding_spec [OF assms(1,2) b(1,2) refl, of w e]) (use b(3) in auto)
    have "n - ?w \<le> n - (if e then 1 else 0) - nat (cdiv (w - 1) ?b)" by (auto simp: max_def)
    then have "filled p (needed_from spec (n - (if e then 1 else 0))) (n - (if e then 1 else 0)) res"
      using filled_mono [OF n(3)] SlidingWindowSpec by simp
    moreover have "int (n - (if e then 1 else 0)) * ?b \<le> ml" using n(1) b(1) by (intro le) auto
    ultimately show ?thesis using n(2) SlidingWindowSpec by (intro exI [of _ "n - (if e then 1 else 0)"]) simp
  next
    case (ChunkedLocalAttentionSpec a c)
    then have e: "\<not> e" using assms(6) by (auto simp: find_longest_cache_hit_def find_chunked_def)
    let ?b = "as_block_size a"
    have c: "0 < c" using assms(7) ChunkedLocalAttentionSpec by blast
    have b: "0 < ?b" "nat (ml div ?b) \<le> length hs" "find_chunked hs ml gids p ?b c False = Ok res"
      using ChunkedLocalAttentionSpec assms(3,5,6) e by (auto simp: find_longest_cache_hit_def)
    obtain n where n: "hits_ok p hs gids n res" "filled p (nat (ml div c * c div ?b)) n res"
        "nat (ml div c * c div ?b) \<le> n" "n \<le> nat (ml div ?b)"
      by (rule find_chunked_spec [OF assms(1,2) b(1) c assms(4) b(2) refl]) (use b(3) in auto)
    have "filled p (needed_from spec n) n res"
      using n(2) chunk_start [OF b(1) c _ assms(4) n(3,4)] ChunkedLocalAttentionSpec by (auto simp: filled_def)
    then show ?thesis using n(1) le [OF n(4) b(1)] ChunkedLocalAttentionSpec by auto
  next
    case (MambaSpec b sh dt pd ty)
    then have "res = map (\<lambda>_. []) gids" using assms(6) by (simp add: find_longest_cache_hit_def)
    then have "hits_ok p hs gids 0 res \<and> filled p 0 0 res" by (auto simp: hits_ok_def list_all2_conv_all_nth filled_def)
    then show ?thesis using assms(4) MambaSpec by (intro exI [of _ 0]) simp
  qed
qed

section \<open>The blocks a manager holds\<close>

definition held :: "block_pool \<Rightarrow> st_manager \<Rightarrow> blk_ref multiset" where
  "held p m = filter_mset (real_block p) (dict_mset (req_to_blocks m))"

text \<open>
  The invariant of a manager: it records references of the pool, no block twice in one
  request, nothing for a request it does not know, and, when prefix caching is on, null
  blocks only among the blocks already counted as cached.
\<close>

definition mgr_ok :: "block_pool \<Rightarrow> st_manager \<Rightarrow> bool" where
  "mgr_ok p m \<longleftrightarrow> wf_dict (req_to_blocks m) \<and> wf_dict (num_cached_block m) \<and> 0 < mgr_block_size m \<and>
     (\<forall>rid. (\<forall>b \<in> set (blocks_of rid m). pool_ref p b) \<and> distinct (filter (real_block p) (blocks_of rid m)) \<and>
        (map_of (num_cached_block m) rid = None \<longrightarrow> blocks_of rid m = []) \<and>
        (enable_caching p \<longrightarrow> (\<forall>n. map_of (num_cached_block m) rid = Some n \<longrightarrow>
           (\<forall>i < length (blocks_of rid m). n \<le> int i \<longrightarrow> real_block p (blocks_of rid m ! i)))))"

definition same_mgr :: "st_manager \<Rightarrow> st_manager \<Rightarrow> bool" where
  "same_mgr m m' \<longleftrightarrow> mgr_spec m' = mgr_spec m \<and> kv_cache_group_id m' = kv_cache_group_id m"

lemma same_pool_real_fun: "same_pool p p' \<Longrightarrow> real_block p' = real_block p"
  by (rule ext) (rule same_pool_real)

lemma same_pool_held: "same_pool p p' \<Longrightarrow> held p' m = held p m"
  by (simp add: held_def same_pool_real_fun)

lemma same_pool_mgr_ok: "same_pool p p' \<Longrightarrow> mgr_ok p m \<Longrightarrow> mgr_ok p' m"
  by (simp add: mgr_ok_def same_pool_real_fun same_pool_ref) (simp add: same_pool_def)

lemma mgr_okD:
  assumes "mgr_ok p m"
  shows "wf_dict (req_to_blocks m)" and "wf_dict (num_cached_block m)" and "0 < mgr_block_size m"
    and "b \<in> set (blocks_of rid m) \<Longrightarrow> pool_ref p b" and "distinct (filter (real_block p) (blocks_of rid m))"
    and "map_of (num_cached_block m) rid = None \<Longrightarrow> blocks_of rid m = []"
    and "enable_caching p \<Longrightarrow> map_of (num_cached_block m) rid = Some n \<Longrightarrow> i < length (blocks_of rid m) \<Longrightarrow>
           n \<le> int i \<Longrightarrow> real_block p (blocks_of rid m ! i)"
  using assms by (auto simp: mgr_ok_def)

lemma read_blocks_val [simp]: "fst (read_blocks rid m) = blocks_of rid m"
  by (simp add: read_blocks_def split_beta)

lemma read_blocks_simps [simp]:
  "blocks_of rid' (snd (read_blocks rid m)) = blocks_of rid' m"
  "num_cached_block (snd (read_blocks rid m)) = num_cached_block m"
  "mgr_spec (snd (read_blocks rid m)) = mgr_spec m"
  "kv_cache_group_id (snd (read_blocks rid m)) = kv_cache_group_id m"
  "wf_dict (req_to_blocks m) \<Longrightarrow> wf_dict (req_to_blocks (snd (read_blocks rid m)))"
  "wf_dict (req_to_blocks m) \<Longrightarrow> held p (snd (read_blocks rid m)) = held p m"
  by (simp_all add: read_blocks_def split_beta held_def)

lemma read_blocks_ok: "mgr_ok p m \<Longrightarrow> mgr_ok p (snd (read_blocks rid m))"
  by (simp add: mgr_ok_def)

lemma write_blocks_simps [simp]:
  "blocks_of rid' (write_blocks rid bs m) = (if rid' = rid then bs else blocks_of rid' m)"
  "num_cached_block (write_blocks rid bs m) = num_cached_block m"
  "mgr_spec (write_blocks rid bs m) = mgr_spec m" "kv_cache_group_id (write_blocks rid bs m) = kv_cache_group_id m"
  "wf_dict (req_to_blocks m) \<Longrightarrow> wf_dict (req_to_blocks (write_blocks rid bs m))"
  by (simp_all add: write_blocks_def)

lemma mgr_ok_write:
  assumes "mgr_ok p m" and "\<forall>b \<in> set bs. pool_ref p b" and "distinct (filter (real_block p) bs)"
    and "map_of (num_cached_block m) rid = None \<Longrightarrow> bs = []"
    and "\<And>n i. enable_caching p \<Longrightarrow> map_of (num_cached_block m) rid = Some n \<Longrightarrow> i < length bs \<Longrightarrow> n \<le> int i \<Longrightarrow>
      real_block p (bs ! i)"
  shows "mgr_ok p (write_blocks rid bs m)"
  using assms by (auto simp: mgr_ok_def)

lemma mgr_ok_cached:
  assumes "mgr_ok p m"
    and "\<And>i. i < length (blocks_of rid m) \<Longrightarrow> c \<le> int i \<Longrightarrow> real_block p (blocks_of rid m ! i)"
  shows "mgr_ok p (m\<lparr>num_cached_block := AList.update rid c (num_cached_block m)\<rparr>)"
  using assms by (auto simp: mgr_ok_def update_conv')

lemma held_write:
  assumes "wf_dict (req_to_blocks m)"
  shows "held p (write_blocks rid bs m) + mset (filter (real_block p) (blocks_of rid m))
    = held p m + mset (filter (real_block p) bs)"
  using arg_cong [OF dict_mset_update [OF assms, of rid bs], of "filter_mset (real_block p)"]
  by (simp add: held_def write_blocks_def)

lemma held_num_cached [simp]: "held p (m\<lparr>num_cached_block := d\<rparr>) = held p m"
  by (simp add: held_def)

lemma held_delete:
  assumes "wf_dict (req_to_blocks m)"
  shows "held p (m\<lparr>req_to_blocks := AList.delete rid (req_to_blocks m)\<rparr>) + mset (filter (real_block p) (blocks_of rid m)) = held p m"
  using arg_cong [OF dict_mset_delete [OF assms, of rid], of "filter_mset (real_block p)"] by (simp add: held_def)

lemma blocks_of_held:
  assumes "wf_dict (req_to_blocks m)"
  shows "mset (filter (real_block p) (blocks_of rid m)) \<subseteq># held p m"
  using held_delete [OF assms, of p rid] by (metis mset_subset_eq_add_right)

text \<open>The state of one manager next to the rest of the system, which holds \<open>R\<close>.\<close>

definition mgr_state :: "block_pool \<Rightarrow> blk_ref list \<Rightarrow> blk_ref multiset \<Rightarrow> st_manager \<Rightarrow> bool" where
  "mgr_state p xs R m \<longleftrightarrow> ledger p xs (R + held p m) \<and> mgr_ok p m"

lemma mgr_stateI:
  "same_pool p p' \<Longrightarrow> ledger p' xs (R + held p m) \<Longrightarrow> mgr_ok p m \<Longrightarrow> mgr_state p' xs R m"
  by (simp add: mgr_state_def same_pool_held same_pool_mgr_ok)

lemma mgr_state_read: "mgr_state p xs R m \<Longrightarrow> mgr_state p xs R (snd (read_blocks rid m))"
  by (auto simp: mgr_state_def read_blocks_ok dest: mgr_okD(1))

subsection \<open>Freeing a request\<close>

lemma mgr_free_spec:
  assumes "mgr_state p xs R m"
  obtains p' m' ys where "mgr_free rid p m = Ok (p', m')" and "mgr_state p' (xs @ ys) R m'"
    and "same_hashes p p'" and "same_mgr m m'"
    and "\<forall>rid'. blocks_of rid' m' = (if rid' = rid then [] else blocks_of rid' m)"
    and "num_cached_block m' = AList.delete rid (num_cached_block m)"
proof -
  have l: "ledger p xs (R + held p m)" and ok: "mgr_ok p m" using assms by (auto simp: mgr_state_def)
  note D = mgr_okD [OF ok]
  let ?bs = "rev (blocks_of rid m)"
  have sub: "mset (filter (real_block p) ?bs) \<subseteq># R + held p m"
    using blocks_of_held [OF D(1), of p rid] by (simp add: mset_filter subset_mset.add_increasing)
  obtain p' where p': "free_blocks ?bs p = Ok p'" "same_hashes p p'"
      "ledger p' (xs @ filter (\<lambda>b. real_block p b \<and> count (R + held p m) b = 1) ?bs) (R + held p m - mset (filter (real_block p) ?bs))"
    by (rule ledger_release [OF l _ sub]) (use D(4,5) in \<open>auto simp: rev_filter [symmetric]\<close>)
  let ?m = "m\<lparr>req_to_blocks := AList.delete rid (req_to_blocks m)\<rparr>"
  let ?m' = "?m\<lparr>num_cached_block := AList.delete rid (num_cached_block m)\<rparr>"
  have "held p ?m' + mset (filter (real_block p) (blocks_of rid m)) = held p m"
    using held_delete [OF D(1), of p rid] by simp
  then have M: "R + held p m - mset (filter (real_block p) ?bs) = R + held p ?m'"
    by (metis add.assoc add_diff_cancel_right' mset_filter mset_rev)
  have "mgr_ok p ?m'" using ok by (auto simp: mgr_ok_def delete_conv')
  then have "mgr_state p' (xs @ filter (\<lambda>b. real_block p b \<and> count (R + held p m) b = 1) ?bs) R ?m'"
    using p'(3) unfolding M by (intro mgr_stateI [OF same_hashes_pool [OF p'(2)]])
  moreover have "mgr_free rid p m = Ok (p', ?m')" using p'(1) by (simp add: mgr_free_def)
  ultimately show thesis using that p'(2) by (simp add: same_mgr_def)
qed

subsection \<open>Adding cached blocks and allocating new ones\<close>

lemma save_new_computed_blocks_spec:
  assumes "mgr_state p xs (R + mset (filter (real_block p) ncb)) m" and "map_of (num_cached_block m) rid = None"
    and "\<forall>b \<in> set ncb. pool_ref p b" and "distinct (filter (real_block p) ncb)"
  obtains m' where "save_new_computed_blocks rid ncb m = Ok m'" and "mgr_state p xs R m'" and "same_mgr m m'"
    and "\<forall>rid'. blocks_of rid' m' = (if rid' = rid then ncb else blocks_of rid' m)"
    and "map_of (num_cached_block m') = (map_of (num_cached_block m))(rid \<mapsto> int (length ncb))"
proof -
  have l: "ledger p xs (R + mset (filter (real_block p) ncb) + held p m)" and ok: "mgr_ok p m"
    using assms(1) by (auto simp: mgr_state_def)
  note D = mgr_okD [OF ok]
  have empty: "blocks_of rid m = []" using D(6) assms(2) .
  let ?m1 = "write_blocks rid ncb (snd (read_blocks rid m))"
  let ?m' = "?m1\<lparr>num_cached_block := AList.update rid (int (length ncb)) (num_cached_block ?m1)\<rparr>"
  have "save_new_computed_blocks rid ncb m = Ok ?m'"
    using assms(2) empty by (simp add: save_new_computed_blocks_def split_beta)
  moreover have "held p ?m' = held p m + mset (filter (real_block p) ncb)"
    using held_write [of "snd (read_blocks rid m)" p rid ncb] D(1) empty by simp
  moreover have "mgr_ok p ?m'" using ok assms(3,4) by (auto simp: mgr_ok_def update_conv')
  ultimately show thesis using that l
    by (simp add: mgr_state_def same_mgr_def update_conv' add.commute add.left_commute)
qed

lemma base_allocate_new_blocks_spec:
  assumes "mgr_state p xs R m" and "map_of (num_cached_block m) rid \<noteq> None"
    and "cdiv ntok (mgr_block_size m) - int (length (blocks_of rid m)) \<le> int (length xs)"
  obtains new p' m' ys where "base_allocate_new_blocks rid ntok p m = Ok (new, p', m')"
    and "mgr_state p' ys R m'" and "same_pool p p'" and "same_mgr m m'"
    and "\<forall>rid'. blocks_of rid' m' = (if rid' = rid then blocks_of rid m @ new else blocks_of rid' m)"
    and "num_cached_block m' = num_cached_block m"
    and "int (length new) = max 0 (cdiv ntok (mgr_block_size m) - int (length (blocks_of rid m)))"
    and "length ys + length new = length xs"
    and "distinct new" and "\<forall>b \<in> set new. real_block p b \<and> b \<notin># R + held p m"
    and "\<forall>b. real_block p b \<and> b \<in># R + held p m \<longrightarrow> blk_hash (blk p' b) = blk_hash (blk p b)"
    and "\<forall>b \<in> set new. blk_hash (blk p' b) = None"
proof -
  have l: "ledger p xs (R + held p m)" and ok: "mgr_ok p m" using assms(1) by (auto simp: mgr_state_def)
  note D = mgr_okD [OF ok]
  let ?m1 = "snd (read_blocks rid m)" and ?n = "cdiv ntok (mgr_block_size m) - int (length (blocks_of rid m))"
  show thesis
  proof (cases "?n \<le> 0")
    case True
    then have "base_allocate_new_blocks rid ntok p m = Ok ([], p, ?m1)"
      using D(3) True by (simp add: base_allocate_new_blocks_def py_cdiv_def split_beta)
    then show thesis using that [of "[]" p ?m1 xs] mgr_state_read [OF assms(1)] True by (simp add: same_mgr_def)
  next
    case False
    have inv: "pool_inv p xs" using l by (simp add: ledger_def)
    obtain new p' where g: "get_new_blocks ?n p = Ok (new, p')"
      using bp.alloc_total [OF inv, of ?n] False assms(3) by auto
    note a = ledger_alloc [OF l _ g]
    have n0: "0 \<le> ?n" using False by simp
    let ?m' = "write_blocks rid (blocks_of rid m @ new) ?m1"
    have "base_allocate_new_blocks rid ntok p m = Ok (new, p', ?m')"
      using D(3) False g
      by (simp add: base_allocate_new_blocks_def py_cdiv_def split_beta)
    moreover have real: "\<forall>b \<in> set new. real_block p b \<and> b \<notin># R + held p m" using a(4) n0 by auto
    then have rf: "filter (real_block p) new = new" by (simp add: filter_id_conv)
    have "held p ?m' + mset (filter (real_block p) (blocks_of rid m)) =
        held p m + (mset (filter (real_block p) (blocks_of rid m)) + mset new)"
      using held_write [of ?m1 p rid "blocks_of rid m @ new"] D(1) rf by simp
    then have h: "held p ?m' = held p m + mset new" by (simp add: ac_simps)
    have "b \<in># held p m" if "b \<in> set (blocks_of rid m)" "real_block p b" for b
      by (rule mset_subset_eqD [OF blocks_of_held [OF D(1), of p rid]]) (use that in simp)
    then have "distinct (filter (real_block p) (blocks_of rid m @ new))"
      using D(5) a(2) n0 real rf by auto
    then have ok': "mgr_ok p ?m'"
      using ok real assms(2) by (auto simp: mgr_ok_def nth_append pool_ref_def)
    have "mgr_state p' (drop (nat ?n) xs) R ?m'"
      using a(1,5) n0 ok' by (intro mgr_stateI [of p p']) (simp_all add: h add.assoc)
    moreover have "int (length new) = max 0 ?n" "length (drop (nat ?n) xs) + length new = length xs"
      using a(3) n0 assms(3) by auto
    moreover have "\<forall>b. real_block p b \<and> b \<in># R + held p m \<longrightarrow> blk_hash (blk p' b) = blk_hash (blk p b)"
      "\<forall>b \<in> set new. blk_hash (blk p' b) = None"
      using a(6) n0 real real_block_is_block by metis+
    ultimately show thesis using a(2,5) n0 real
      by (intro that [of new p' ?m' "drop (nat ?n) xs"]) (auto simp: same_mgr_def)
  qed
qed

lemma allocate_new_blocks_Ok:
  assumes "allocate_new_blocks rid ntok p m = Ok (new, p', m')"
  shows "\<exists>m1. base_allocate_new_blocks rid ntok p m = Ok (new, p', m1) \<and> (m' = m1 \<or> m' = snd (read_blocks rid m1))"
  using assms by (auto simp: allocate_new_blocks_def res_simps split_beta split: kv_cache_spec.splits)

subsection \<open>Dropping blocks that are out of the window\<close>

lemma remove_loop_spec:
  assumes "n \<le> length bs" and "null \<notin> set rm"
  shows "\<exists>k \<le> n. remove_loop null n bs rm =
    Ok (take k bs @ replicate (n - k) null @ drop n bs, rm @ rev (drop k (take n bs))) \<and>
    null \<notin> set (drop k (take n bs))"
  using assms
proof (induction n arbitrary: bs rm)
  case 0
  then show ?case by simp
next
  case (Suc n)
  then have n: "n < length bs" by simp
  then have idx: "py_index bs (int n) = Ok (bs ! n)" by (simp add: py_index_nonneg)
  show ?case
  proof (cases "bs ! n = null")
    case True
    then show ?thesis using idx by (intro exI [of _ "Suc n"]) simp
  next
    case False
    have "\<exists>k \<le> n. remove_loop null n (bs[n := null]) (rm @ [bs ! n]) =
      Ok (take k (bs[n := null]) @ replicate (n - k) null @ drop n (bs[n := null]),
        (rm @ [bs ! n]) @ rev (drop k (take n (bs[n := null])))) \<and> null \<notin> set (drop k (take n (bs[n := null])))"
      by (rule Suc.IH) (use Suc.prems False n in auto)
    then obtain k where k: "k \<le> n" "remove_loop null n (bs[n := null]) (rm @ [bs ! n]) =
      Ok (take k (bs[n := null]) @ replicate (n - k) null @ drop n (bs[n := null]),
        (rm @ [bs ! n]) @ rev (drop k (take n (bs[n := null]))))" "null \<notin> set (drop k (take n (bs[n := null])))" by blast
    have t: "take k (bs[n := null]) = take k bs" "take n (bs[n := null]) = take n bs" using k(1) by simp_all
    have d: "drop n (bs[n := null]) = null # drop (Suc n) bs"
      using n by (simp add: drop_update_swap Cons_nth_drop_Suc [symmetric])
    have "replicate (n - k) null @ null # drop (Suc n) bs = replicate (Suc n - k) null @ drop (Suc n) bs"
      using k(1) by (simp add: Suc_diff_le replicate_app_Cons_same)
    moreover have "drop k (take (Suc n) bs) = drop k (take n bs) @ [bs ! n]"
      using n k(1) by (simp add: take_Suc_conv_app_nth)
    ultimately show ?thesis using k idx False t d by (intro exI [of _ k]) auto
  qed
qed

lemma remove_below_spec:
  assumes "mgr_state p xs R m" and "n \<le> int (length (blocks_of rid m))"
    and "enable_caching p \<longrightarrow> (\<forall>c. map_of (num_cached_block m) rid = Some c \<longrightarrow> n \<le> c)"
  obtains p' m' ys where "remove_below rid n p m = Ok (p', m')" and "mgr_state p' (xs @ ys) R m'"
    and "same_hashes p p'" and "same_mgr m m'" and "num_cached_block m' = num_cached_block m"
    and "\<forall>rid'. length (blocks_of rid' m') = length (blocks_of rid' m)"
    and "\<forall>rid'. rid' \<noteq> rid \<longrightarrow> blocks_of rid' m' = blocks_of rid' m"
    and "\<forall>i < length (blocks_of rid m). n \<le> int i \<longrightarrow> blocks_of rid m' ! i = blocks_of rid m ! i"
proof -
  have l: "ledger p xs (R + held p m)" and ok: "mgr_ok p m" using assms(1) by (auto simp: mgr_state_def)
  note D = mgr_okD [OF ok]
  let ?bs = "blocks_of rid m" and ?n = "nat n"
  have nl: "?n \<le> length ?bs" using assms(2) by simp
  obtain k where k: "k \<le> ?n" "remove_loop (null_block p) ?n ?bs [] =
      Ok (take k ?bs @ replicate (?n - k) (null_block p) @ drop ?n ?bs, [] @ rev (drop k (take ?n ?bs)))"
      "null_block p \<notin> set (drop k (take ?n ?bs))"
    using remove_loop_spec [OF nl, of "null_block p" "[]"] by auto
  define bs' where "bs' = take k ?bs @ replicate (?n - k) (null_block p) @ drop ?n ?bs"
  define rm where "rm = rev (drop k (take ?n ?bs))"
  have st: "static_inv p" using l by (simp add: ledger_def pool_inv_def)
  have split: "?bs = take k ?bs @ drop k (take ?n ?bs) @ drop ?n ?bs"
    using k(1) by (metis append_take_drop_id append.assoc min.absorb1 take_take)
  have "set rm \<subseteq> set ?bs" by (subst split) (auto simp: rm_def)
  then have refs: "\<forall>b \<in> set rm. pool_ref p b \<and> b \<noteq> null_block p" using D(4) k(3) by (auto simp: rm_def)
  then have real: "\<forall>b \<in> set rm. real_block p b" by (auto simp: pool_ref_def)
  then have rf: "filter (real_block p) rm = rm" by (simp add: filter_id_conv)
  have "filter (real_block p) ?bs = filter (real_block p) (take k ?bs) @ rev rm @ filter (real_block p) (drop ?n ?bs)"
    using real by (subst split) (simp add: rm_def filter_id_conv)
  then have ms: "mset (filter (real_block p) ?bs) = mset (filter (real_block p) bs') + mset rm" and d: "distinct rm"
    and d': "distinct (filter (real_block p) bs')"
    using D(5) [of rid] null_not_real [OF st] by (auto simp: bs'_def)
  have len: "length bs' = length ?bs" using nl k(1) by (simp add: bs'_def)
  have sub: "mset (filter (real_block p) rm) \<subseteq># R + held p m"
    using blocks_of_held [OF D(1), of p rid] ms rf
    by (metis mset_subset_eq_add_right subset_mset.order_trans subset_mset.add_increasing subset_mset.zero_le)
  obtain p' where p': "free_blocks rm p = Ok p'" "same_hashes p p'"
      "ledger p' (xs @ filter (\<lambda>b. real_block p b \<and> count (R + held p m) b = 1) rm) (R + held p m - mset (filter (real_block p) rm))"
    by (rule ledger_release [OF l _ sub]) (use refs d rf in auto)
  let ?m' = "write_blocks rid bs' (snd (read_blocks rid m))"
  have "held p ?m' + (mset (filter (real_block p) bs') + mset rm) = held p m + mset (filter (real_block p) bs')"
    using held_write [of "snd (read_blocks rid m)" p rid bs'] D(1) ms by simp
  then have "held p m = held p ?m' + mset rm" by (simp add: ac_simps)
  then have M: "R + held p m - mset (filter (real_block p) rm) = R + held p ?m'"
    by (simp add: rf add.assoc [symmetric])
  have same: "bs' ! i = ?bs ! i" if "n \<le> int i" "i < length ?bs" for i
    using that nl k(1) by (auto simp: bs'_def nth_append)
  have bref: "\<forall>b \<in> set bs'. pool_ref p b"
    using D(4) [of _ rid] by (auto simp: bs'_def pool_ref_def dest!: in_set_takeD in_set_dropD)
  have "real_block p (bs' ! i)" if "enable_caching p" "map_of (num_cached_block m) rid = Some c"
      "i < length bs'" "c \<le> int i" for c i
    using D(7) [OF that(1,2)] that assms(3) len same by fastforce
  then have "mgr_ok p ?m'"
    using bref d' len D(6) [of rid] by (intro mgr_ok_write read_blocks_ok [OF ok]) auto
  then have "mgr_state p' (xs @ filter (\<lambda>b. real_block p b \<and> count (R + held p m) b = 1) rm) R ?m'"
    using p'(3) unfolding M by (intro mgr_stateI [OF same_hashes_pool [OF p'(2)]])
  moreover have "remove_below rid n p m = Ok (p', ?m')"
    using k(2) p'(1) by (simp add: remove_below_def split_beta bs'_def rm_def)
  ultimately show thesis using p'(2) len same
    by (intro that [of p' ?m' "filter (\<lambda>b. real_block p b \<and> count (R + held p m) b = 1) rm"])
      (auto simp: same_mgr_def)
qed

lemma remove_skipped_blocks_spec:
  assumes "mgr_state p xs R m" and "0 \<le> ncomp" and "ncomp \<le> int (length (blocks_of rid m)) * mgr_block_size m"
    and "enable_caching p \<longrightarrow> (\<forall>c. map_of (num_cached_block m) rid = Some c \<longrightarrow> ncomp div mgr_block_size m \<le> c)"
    and "\<And>a w. mgr_spec m = SlidingWindowSpec a w \<Longrightarrow> 0 < w"
    and "\<And>a c. mgr_spec m = ChunkedLocalAttentionSpec a c \<Longrightarrow> 0 < c"
  obtains p' m' ys where "remove_skipped_blocks rid ncomp p m = Ok (p', m')" and "mgr_state p' (xs @ ys) R m'"
    and "same_hashes p p'" and "same_mgr m m'" and "num_cached_block m' = num_cached_block m"
    and "\<forall>rid'. length (blocks_of rid' m') = length (blocks_of rid' m)"
    and "\<forall>rid'. rid' \<noteq> rid \<longrightarrow> blocks_of rid' m' = blocks_of rid' m"
    and "\<forall>i < length (blocks_of rid m). ncomp div mgr_block_size m \<le> int i \<longrightarrow> blocks_of rid m' ! i = blocks_of rid m ! i"
proof -
  note result = that
  have bs: "0 < mgr_block_size m" using assms(1) mgr_okD(3) by (auto simp: mgr_state_def)
  have below: thesis if "remove_skipped_blocks rid ncomp p m = remove_below rid n p m"
      "n \<le> ncomp div mgr_block_size m" for n
  proof -
    have "ncomp div mgr_block_size m \<le> int (length (blocks_of rid m))"
      using zdiv_mono1 [OF assms(3) bs] bs by simp
    then have le: "n \<le> int (length (blocks_of rid m))" using that(2) by simp
    have c: "enable_caching p \<longrightarrow> (\<forall>c. map_of (num_cached_block m) rid = Some c \<longrightarrow> n \<le> c)"
      using assms(4) that(2) by fastforce
    show thesis
      by (rule remove_below_spec [OF assms(1) le c], rule result) (use that in auto)
  qed
  show thesis
  proof (cases "mgr_spec m")
    case (SlidingWindowSpec a w)
    have "(ncomp - w + 1) div mgr_block_size m \<le> ncomp div mgr_block_size m"
      using assms(5) SlidingWindowSpec bs by (intro zdiv_mono1) fastforce+
    then show thesis using SlidingWindowSpec bs
      by (intro below [of "(ncomp - w + 1) div mgr_block_size m"])
        (auto simp: remove_skipped_blocks_def py_floordiv_def)
  next
    case (ChunkedLocalAttentionSpec a c)
    let ?f = "ncomp div c * c div mgr_block_size m"
    let ?n = "case map_of (num_cached_block m) rid of None \<Rightarrow> 0 | Some n \<Rightarrow> n"
    have c: "0 < c" using assms(6) ChunkedLocalAttentionSpec by blast
    have "ncomp div c * c \<le> ncomp" using c le_div_int_iff [of c "ncomp div c" ncomp] by simp
    then have "?f \<le> ncomp div mgr_block_size m" using bs by (rule zdiv_mono1)
    then show thesis using ChunkedLocalAttentionSpec bs c
      by (intro below [of "if ?n > 0 then min ?f (?n - 1) else ?f"])
        (auto simp: remove_skipped_blocks_def py_floordiv_def)
  qed (use that [of p m "[]"] assms(1) in \<open>auto simp: remove_skipped_blocks_def same_mgr_def\<close>)
qed

subsection \<open>Publishing full blocks\<close>

lemma cache_blocks_keeps:
  assumes "mgr_state p xs R m" and "enable_caching p"
    and "cache_blocks nh hf r bhs ntok p m = Ok (bhs', p', m')"
    and "\<And>c. map_of (num_cached_block m) (request_id r) = Some c \<Longrightarrow>
      c \<le> ntok div mgr_block_size m \<or> (\<forall>b \<in> set (blocks_of (request_id r) m). real_block p b)"
  shows "mgr_state p' xs R m'" and "cache_frame p p'" and "same_mgr m m'"
    and "blocks_of rid m' = blocks_of rid m"
    and "map_of (num_cached_block m') = (map_of (num_cached_block m))(request_id r \<mapsto> ntok div mgr_block_size m)"
proof -
  let ?rid = "request_id r" and ?nf = "ntok div mgr_block_size m"
  have l: "ledger p xs (R + held p m)" and ok: "mgr_ok p m" using assms(1) by (auto simp: mgr_state_def)
  note D = mgr_okD [OF ok]
  let ?m1 = "snd (read_blocks ?rid m)"
  obtain nc where nc: "map_of (num_cached_block m) ?rid = Some nc"
      "cache_full_blocks nh hf r (blocks_of ?rid m) bhs nc ?nf (mgr_block_size m) (kv_cache_group_id m) p = Ok (bhs', p')"
      "m' = ?m1\<lparr>num_cached_block := AList.update ?rid ?nf (num_cached_block m)\<rparr>"
    using assms(3) D(3)
    by (auto simp: cache_blocks_def dict_get_def py_floordiv_def res_simps split_beta split: option.splits)
  have mono: "nc \<le> ?nf \<or> (\<forall>b \<in> set (blocks_of ?rid m). real_block p b)" using assms(4) [OF nc(1)] .
  have "real_block p b" if b: "b \<in> set (py_slice (blocks_of ?rid m) nc ?nf)" for b
  proof (cases "0 \<le> nc")
    case True
    show ?thesis by (rule in_set_py_slice [OF b True]) (use D(7) [OF assms(2) nc(1)] in simp)
  next
    case False
    moreover obtain i where "i < length (blocks_of ?rid m)" "b = blocks_of ?rid m ! i"
      using subsetD [OF set_py_slice_subset b] by (auto simp: in_set_conv_nth)
    ultimately show ?thesis using D(7) [OF assms(2) nc(1)] by simp
  qed
  then have inv': "pool_inv p' xs" "cache_frame p p'"
    using cache_full_blocks_keeps [OF nc(2) _ assms(2)] l by (auto simp: ledger_def)
  have "real_block p (blocks_of ?rid m ! i)" if "i < length (blocks_of ?rid m)" "?nf \<le> int i" for i
    using mono
  proof
    assume "nc \<le> ?nf"
    then show ?thesis using D(7) [OF assms(2) nc(1) that(1)] that(2) by simp
  qed (use that(1) in simp)
  then have "mgr_ok p m'" using mgr_ok_cached [OF read_blocks_ok [OF ok], of ?rid ?rid ?nf] by (simp add: nc(3))
  moreover have "held p m' = held p m" using D(1) by (simp add: nc(3))
  moreover have "ledger p' xs (R + held p m)"
    using ledger_frame [OF l inv'(1)] inv'(2) by (simp add: cache_frame_def)
  ultimately show "mgr_state p' xs R m'" using inv'(2) by (intro mgr_stateI [of p]) (auto simp: cache_frame_def)
  show "cache_frame p p'" by (rule inv'(2))
  show "same_mgr m m'" "blocks_of rid m' = blocks_of rid m"
    "map_of (num_cached_block m') = (map_of (num_cached_block m))(?rid \<mapsto> ?nf)"
    by (simp_all add: nc(3) same_mgr_def update_conv')
qed

section \<open>The interface of a lookup\<close>

definition good_spec :: "kv_cache_spec \<Rightarrow> bool" where
  "good_spec spec \<longleftrightarrow> 0 < spec_block_size spec \<and>
     (case spec of SlidingWindowSpec _ w \<Rightarrow> 0 < w | ChunkedLocalAttentionSpec _ c \<Rightarrow> 0 < c | _ \<Rightarrow> True)"

text \<open>
  What the coordinator relies on: a search returns columns of equal length that fit under
  the bound and whose entries are the null block or blocks with the right hash, and blocks with the
  right hash at all positions the request needs.
\<close>

locale prefix_lookup =
  fixes find :: "block_hash list \<Rightarrow> int \<Rightarrow> nat list \<Rightarrow> block_pool \<Rightarrow> 's \<Rightarrow> bool \<Rightarrow> blk_ref list list res"
    and bsize :: "'s \<Rightarrow> int"
    and good :: "'s \<Rightarrow> bool"
    and from_block :: "'s \<Rightarrow> nat \<Rightarrow> nat"
  assumes good_size: "good spec \<Longrightarrow> 0 < bsize spec"
    and find_contract: "table_inv p \<Longrightarrow> gids \<noteq> [] \<Longrightarrow> good spec \<Longrightarrow> 0 \<le> ml \<Longrightarrow>
      nat (ml div bsize spec) \<le> length hs \<Longrightarrow> find hs ml gids p spec e = Ok res \<Longrightarrow>
      \<exists>n. hits_ok p hs gids n res \<and> filled p (from_block spec n) n res \<and> int n * bsize spec \<le> ml"
begin

lemma found_refs:
  assumes "table_inv p" and "gids \<noteq> []" and "good spec" and "0 \<le> ml" and "nat (ml div bsize spec) \<le> length hs"
    and "find hs ml gids p spec e = Ok res" and "c \<in> set res"
  shows "\<forall>b \<in> set c. pool_ref p b" and "int (length c) * bsize spec \<le> ml"
proof -
  from find_contract [OF assms(1-6)] obtain n where n: "hits_ok p hs gids n res" "int n * bsize spec \<le> ml" by blast
  show "int (length c) * bsize spec \<le> ml" using hits_ok_length [OF n(1) assms(7)] n(2) by simp
  show "\<forall>b \<in> set c. pool_ref p b"
    by (rule hits_ok_column [OF n(1) assms(7)])
      (use hits_ok_nth [OF n(1)] in \<open>force simp: in_set_conv_nth pool_ref_def hit_block_def\<close>)
qed

text \<open>Different hashes lead to different blocks, so a column has no block twice.\<close>

lemma found_distinct:
  assumes "table_inv p" and "gids \<noteq> []" and "good spec" and "0 \<le> ml" and "nat (ml div bsize spec) \<le> length hs"
    and "find hs ml gids p spec e = Ok res" and "c \<in> set res" and "distinct hs" and "static_inv p"
  shows "distinct (filter (real_block p) c)"
proof -
  from find_contract [OF assms(1-6)] obtain n where n: "hits_ok p hs gids n res" by blast
  obtain k where k: "k < length gids" "c = res ! k" "length c = n" by (rule hits_ok_column [OF n assms(7)])
  have hit: "i < length hs \<and> hit_block p (hs ! i) (gids ! k) (c ! i)" if "i < n" "real_block p (c ! i)" for i
    using hits_ok_nth [OF n k(1) that(1)] that(2) null_not_real [OF assms(9)] k(2) by auto
  have inj: "i = j" if "i < n" "j < n" "real_block p (c ! i)" "c ! i = c ! j" for i j
    using hit [of i] hit [of j] that assms(8) by (auto simp: hit_block_def nth_eq_iff_index_eq)
  have "distinct (filter (real_block p) (take j c))" if "j \<le> n" for j
    using that
  proof (induction j)
    case (Suc j)
    then have "take (Suc j) c = take j c @ [c ! j]" using k(3) by (simp add: take_Suc_conv_app_nth)
    moreover have "c ! j \<notin> set (take j c)" if "real_block p (c ! j)"
      using Suc.prems k(3) inj that by (auto simp: in_set_conv_nth) (metis Suc_lessD less_irrefl less_trans Suc_le_lessD)
    ultimately show ?case using Suc by auto
  qed simp
  from this [of n] show ?thesis using k(3) by simp
qed

end

interpretation lookup: prefix_lookup find_longest_cache_hit spec_block_size good_spec needed_from
proof unfold_locales
  show "0 < spec_block_size spec" if "good_spec spec" for spec using that by (simp add: good_spec_def)
  show "\<exists>n. hits_ok p hs gids n res \<and> filled p (needed_from spec n) n res \<and> int n * spec_block_size spec \<le> ml"
    if "table_inv p" "gids \<noteq> []" "good_spec spec" "0 \<le> ml" "nat (ml div spec_block_size spec) \<le> length hs"
      "find_longest_cache_hit hs ml gids p spec e = Ok res" for p gids spec ml hs e res
    using that by (intro find_longest_cache_hit_ok) (auto simp: good_spec_def)
qed

section \<open>Properties\<close>

text \<open>A pool in which a request of two full blocks was published.\<close>

definition warm_hash :: hash_fn where
  "warm_hash = (\<lambda>(q, ts, ek). 10 * q + sum_list ts)"

definition warm_pool :: "(blk_ref list \<times> block_hash list \<times> block_pool) res" where
  "warm_pool =
     rbind (BlockPool_init 4 True False) (\<lambda>p.
     rbind (get_new_blocks 2 p) (\<lambda>(blocks, p1).
     rbind (cache_full_blocks 0 warm_hash (sample_request ''a'' [7, 8, 9, 10, 11]) blocks [] 0 2 2 0 p1) (\<lambda>(hs, p2).
     Ok (blocks, hs, p2))))"

definition two_layer :: attention_spec where
  "two_layer = \<lparr>as_block_size = 2, num_kv_heads = 1, head_size = 1, as_dtype = ''half'', use_mla = False\<rparr>"

lemma warm_pool_values:
  "rbind warm_pool (\<lambda>(blocks, hs, p). Ok (blocks, hs, map (in_cache p [0]) hs)) =
     Ok ([Blk 1, Blk 2], [BlockHash 15 [7, 8] None, BlockHash 169 [9, 10] None], [True, True])"
  "rbind (BlockPool_init 4 True False) (\<lambda>p. rbind (get_new_blocks 2 p) (\<lambda>(_, p1). Ok (enable_caching p1))) = Ok True"
  by code_simp+

lemma warm_pool_reach:
  obtains p where "warm_pool = Ok ([Blk 1, Blk 2], [BlockHash 15 [7, 8] None, BlockHash 169 [9, 10] None], p)"
    and "pool_reach 0 warm_hash p {#Blk 1, Blk 2#}"
    and "in_cache p [0] (BlockHash 15 [7, 8] None)" and "in_cache p [0] (BlockHash 169 [9, 10] None)"
proof -
  obtain blocks hs p where w: "warm_pool = Ok (blocks, hs, p)" using warm_pool_values(1) by (auto simp: res_simps)
  note v = warm_pool_values(1) [unfolded w, simplified]
  obtain p0 p1 where s: "BlockPool_init 4 True False = Ok p0" "get_new_blocks 2 p0 = Ok (blocks, p1)"
      "cache_full_blocks 0 warm_hash (sample_request ''a'' [7, 8, 9, 10, 11]) blocks [] 0 2 2 0 p1 = Ok (hs, p)"
    using w by (auto simp: warm_pool_def res_simps)
  have r1: "pool_reach 0 warm_hash p1 ({#} + mset blocks)"
    by (rule pool_reach.alloc [OF pool_reach.start [OF s(1)] _ s(2)]) simp
  then have "\<forall>b \<in> set blocks. real_block p1 b" using pool_reach_ledger [OF r1] by (auto simp: ledger_def)
  then have "\<forall>b \<in> set (py_slice blocks 0 2). real_block p1 b" using set_py_slice_subset by fastforce
  moreover have "enable_caching p1" using warm_pool_values(2) s(1,2) by simp
  ultimately have "pool_reach 0 warm_hash p ({#} + mset blocks)" using pool_reach.cache [OF r1 _ _ s(3)] by blast
  then show thesis using that [of p] w v by auto
qed

text \<open>
  C14.  Full attention finds the longest cached prefix.  In every reachable pool the search does not
  raise and returns one column per group, as long as the longest prefix of the hashes within the
  bound that is cached for all groups, with EAGLE one block shorter unless it is empty; and every
  entry of a column is a block of the pool, not the null block, that carries the hash of its position
  for the group of the column.
\<close>

theorem full_attention_longest_hit:
  assumes "pool_reach nh hf p M" and "gids \<noteq> []" and "0 < as_block_size a" and "0 \<le> ml"
    and "n = length (takeWhile (in_cache p gids) (take (nat (ml div as_block_size a)) hs)) - (if use_eagle then 1 else 0)"
  shows "\<exists>res. find_longest_cache_hit hs ml gids p (FullAttentionSpec a w c) use_eagle = Ok res \<and>
    list_all2 (\<lambda>g col. length col = n \<and> (\<forall>i < n. hit_block p (hs ! i) g (col ! i))) gids res"
proof -
  from pool_reach_ledger [OF assms(1)] have inv: "table_inv p" "static_inv p" by (auto simp: ledger_def pool_inv_def)
  obtain res where r: "find_full hs ml gids p (as_block_size a) use_eagle = Ok res" "hits_ok p hs gids n res" "filled p 0 n res"
    by (rule find_full_spec [OF inv(1) assms(2-5)])
  have "list_all2 (\<lambda>g col. length col = n \<and> (\<forall>i < n. hit_block p (hs ! i) g (col ! i))) gids res"
    using hits_filled [OF inv(2) r(2,3)] by simp
  with r(1) show ?thesis by (simp add: find_longest_cache_hit_def)
qed

lemma full_attention_longest_hit_witness:
  "\<exists>hs p res. warm_pool = Ok ([Blk 1, Blk 2], hs, p) \<and>
     find_longest_cache_hit hs 5 [0] p (FullAttentionSpec two_layer None None) False = Ok res \<and>
     map length res = [2] \<and> hit_block p (hs ! 1) 0 (res ! 0 ! 1)"
proof -
  let ?h = "[BlockHash 15 [7, 8] None, BlockHash 169 [9, 10] None]"
  obtain p where p: "warm_pool = Ok ([Blk 1, Blk 2], ?h, p)" "pool_reach 0 warm_hash p {#Blk 1, Blk 2#}"
    "in_cache p [0] (BlockHash 15 [7, 8] None)" "in_cache p [0] (BlockHash 169 [9, 10] None)" by (rule warm_pool_reach)
  have "2 = length (takeWhile (in_cache p [0]) (take (nat (5 div as_block_size two_layer)) ?h)) - (if False then 1 else 0)"
    using p(3,4) by (simp add: two_layer_def)
  from full_attention_longest_hit [OF p(2) _ _ _ this, of None None] obtain res where
    "find_longest_cache_hit ?h 5 [0] p (FullAttentionSpec two_layer None None) False = Ok res"
    "list_all2 (\<lambda>g col. length col = 2 \<and> (\<forall>i < 2. hit_block p (?h ! i) g (col ! i))) [0] res"
    by (auto simp: two_layer_def)
  then show ?thesis using p(1) by (intro exI [of _ ?h] exI [of _ p] exI [of _ res]) (auto simp: list_all2_Cons1 dest: spec [of _ 1])
qed

text \<open>
  C22.  Sliding window attention without EAGLE: the search returns the greatest length \<open>n\<close> within
  the bound such that the blocks of the last window before \<open>n\<close> are all cached (fewer when the
  prefix is shorter than a window), and those entries are blocks, not placeholders.
\<close>

theorem sliding_window_longest_hit:
  assumes "pool_reach nh hf p M" and "gids \<noteq> []" and "0 < as_block_size a"
    and "nat (ml div as_block_size a) \<le> length hs" and "w = nat (max (cdiv (window - 1) (as_block_size a)) 1)"
  shows "\<exists>res n. find_longest_cache_hit hs ml gids p (SlidingWindowSpec a window) False = Ok res \<and>
    n \<le> nat (ml div as_block_size a) \<and> hits_ok p hs gids n res \<and> filled p (n - w) n res \<and>
    window_hit p gids hs w n \<and> (\<forall>j. n < j \<and> j \<le> nat (ml div as_block_size a) \<longrightarrow> \<not> window_hit p gids hs w j)"
proof -
  from pool_reach_ledger [OF assms(1)] have "table_inv p" by (auto simp: ledger_def pool_inv_def)
  from find_sliding_spec [OF this assms(2-4), of w window False] assms(5) show ?thesis
    by (auto simp: find_longest_cache_hit_def) metis
qed

text \<open>A window of three tokens, so one cached block before the next token is enough.\<close>

lemma sliding_window_longest_hit_witness:
  "\<exists>hs p res. warm_pool = Ok ([Blk 1, Blk 2], hs, p) \<and>
     find_longest_cache_hit hs 5 [0] p (SlidingWindowSpec two_layer 3) False = Ok res \<and> map length res = [2] \<and> filled p 1 2 res"
proof -
  let ?h = "[BlockHash 15 [7, 8] None, BlockHash 169 [9, 10] None]"
  obtain p where p: "warm_pool = Ok ([Blk 1, Blk 2], ?h, p)" "pool_reach 0 warm_hash p {#Blk 1, Blk 2#}"
    "in_cache p [0] (BlockHash 15 [7, 8] None)" "in_cache p [0] (BlockHash 169 [9, 10] None)" by (rule warm_pool_reach)
  have w: "1 = nat (max (cdiv (3 - 1) (as_block_size two_layer)) 1)" "nat (5 div as_block_size two_layer) = 2"
    by (simp_all add: two_layer_def cdiv_def)
  from sliding_window_longest_hit [OF p(2) _ _ _ w(1), of "[0]" 5 ?h] obtain res n where res:
    "find_longest_cache_hit ?h 5 [0] p (SlidingWindowSpec two_layer 3) False = Ok res" "n \<le> 2" "hits_ok p ?h [0] n res"
    "filled p (n - 1) n res" "\<forall>j. n < j \<and> j \<le> 2 \<longrightarrow> \<not> window_hit p [0] ?h 1 j"
    by (auto simp: w(2)) (auto simp: two_layer_def)
  have "in_cache p [0] (?h ! i)" if "i < 2" "2 - 1 \<le> i" for i
  proof -
    have "i = 1" using that by simp
    then show ?thesis using p(4) by simp
  qed
  then have "window_hit p [0] ?h 1 2" by (simp add: window_hit_def)
  then have "n = 2" using res(2,5) by (cases "n < 2") auto
  then show ?thesis using p(1) res by (intro exI [of _ ?h] exI [of _ p] exI [of _ res]) (auto simp: hits_ok_def list_all2_Cons1)
qed

end
