(* ===== verification/KV_Coordinator.thy ===== *)
theory KV_Coordinator
  imports Single_Type_Manager
begin

text \<open>
  \<open>vllm/v1/core/kv_cache_coordinator.py\<close>: one pool, one manager per KV-cache group, and
  the combination of the groups' cache hits.  The three subclasses are the constructors of
  \<open>coord_kind\<close>; the operations they share work on the list of managers in group order,
  threading the pool (and, for publishing, the request's list of hashes) from one manager
  to the next.
\<close>

section \<open>State\<close>

record hybrid_info =
  full_attention_group_ids :: "nat list"
  other_group_ids :: "nat list"
  full_attention_spec :: kv_cache_spec
  other_spec :: kv_cache_spec
  full_attn_first :: bool

datatype coord_kind = NoPrefixCache | Unitary kv_cache_spec | Hybrid hybrid_info

record coordinator =
  co_config :: kv_cache_config
  co_max_model_len :: int
  co_enable_caching :: bool
  co_pool :: block_pool
  co_use_eagle :: bool
  co_managers :: "st_manager list"
  co_kind :: coord_kind

section \<open>Construction\<close>

definition make_managers :: "kv_cache_config \<Rightarrow> st_manager list" where
  "make_managers cfg =
     map (\<lambda>(i, g). get_manager_for_kv_cache_spec (group_spec g) i)
       (zip [0..<length (kv_cache_groups cfg)] (kv_cache_groups cfg))"

definition KVCacheCoordinator_init ::
  "kv_cache_config \<Rightarrow> int \<Rightarrow> bool \<Rightarrow> bool \<Rightarrow> bool \<Rightarrow> coord_kind \<Rightarrow> coordinator res" where
  "KVCacheCoordinator_init cfg max_len use_eagle caching events kind =
     rbind (BlockPool_init (cc_num_blocks cfg) caching events) (\<lambda>p.
     Ok \<lparr>co_config = cfg, co_max_model_len = max_len, co_enable_caching = caching, co_pool = p,
         co_use_eagle = use_eagle, co_managers = make_managers cfg, co_kind = kind\<rparr>)"

text \<open>The loop of \<open>verify_and_split_kv_cache_groups\<close> over the enumerated groups.\<close>

fun split_groups_loop ::
  "(nat \<times> kv_cache_spec) list \<Rightarrow> kv_cache_spec option \<Rightarrow> kv_cache_spec option \<Rightarrow> nat list \<Rightarrow> nat list
   \<Rightarrow> (kv_cache_spec option \<times> kv_cache_spec option \<times> nat list \<times> nat list) res" where
  "split_groups_loop [] full oth fids oids = Ok (full, oth, fids, oids)"
| "split_groups_loop ((i, s) # gs) full oth fids oids =
     (if is_full_attention s
      then (case full of
              None \<Rightarrow> split_groups_loop gs (Some s) oth (fids @ [i]) oids
            | Some f \<Rightarrow> rbind (py_assert (f = s)) (\<lambda>_. split_groups_loop gs full oth (fids @ [i]) oids))
      else (case oth of
              None \<Rightarrow> split_groups_loop gs full (Some s) fids (oids @ [i])
            | Some t \<Rightarrow> rbind (py_assert (t = s)) (\<lambda>_. split_groups_loop gs full oth fids (oids @ [i]))))"

definition verify_and_split_kv_cache_groups :: "bool \<Rightarrow> kv_cache_config \<Rightarrow> hybrid_info res" where
  "verify_and_split_kv_cache_groups caching cfg =
     rbind (split_groups_loop (zip [0..<length (kv_cache_groups cfg)] (map group_spec (kv_cache_groups cfg)))
              None None [] [])
       (\<lambda>(full, oth, fids, oids).
          case full of
            None \<Rightarrow> Err AssertionError
          | Some fs \<Rightarrow>
              (case oth of
                 None \<Rightarrow> Err AssertionError
               | Some os \<Rightarrow>
                   if caching \<and> spec_block_size fs = 0 then Err ZeroDivisionError
                   else if caching \<and> spec_block_size os mod spec_block_size fs \<noteq> 0 then Err AssertionError
                   else if Max (set fids) < Min (set oids)
                   then Ok \<lparr>full_attention_group_ids = fids, other_group_ids = oids,
                            full_attention_spec = fs, other_spec = os, full_attn_first = True\<rparr>
                   else if Max (set oids) < Min (set fids)
                   then Ok \<lparr>full_attention_group_ids = fids, other_group_ids = oids,
                            full_attention_spec = fs, other_spec = os, full_attn_first = False\<rparr>
                   else Err ValueError))"

definition get_kv_cache_coordinator ::
  "kv_cache_config \<Rightarrow> int \<Rightarrow> bool \<Rightarrow> bool \<Rightarrow> bool \<Rightarrow> coordinator res" where
  "get_kv_cache_coordinator cfg max_len use_eagle caching events =
     (if \<not> caching then KVCacheCoordinator_init cfg max_len use_eagle False events NoPrefixCache
      else if length (kv_cache_groups cfg) = 1
      then KVCacheCoordinator_init cfg max_len use_eagle caching events
             (Unitary (group_spec (hd (kv_cache_groups cfg))))
      else rbind (KVCacheCoordinator_init cfg max_len use_eagle caching events NoPrefixCache) (\<lambda>c.
           rbind (verify_and_split_kv_cache_groups caching cfg) (\<lambda>info.
           Ok (c\<lparr>co_kind := Hybrid info\<rparr>))))"

section \<open>Operations on all managers\<close>

text \<open>
  Calls \<open>f\<close> on every manager in order.  \<open>f\<close> gets an extra state and the pool and
  returns an output, the new extra state, the pool and the manager.
\<close>

fun each_manager ::
  "(nat \<Rightarrow> 'a \<Rightarrow> block_pool \<Rightarrow> st_manager \<Rightarrow> ('o \<times> 'a \<times> block_pool \<times> st_manager) res)
   \<Rightarrow> nat \<Rightarrow> 'a \<Rightarrow> block_pool \<Rightarrow> st_manager list
   \<Rightarrow> ('o list \<times> 'a \<times> block_pool \<times> st_manager list) res" where
  "each_manager f i a p [] = Ok ([], a, p, [])"
| "each_manager f i a p (m # ms) =
     rbind (f i a p m) (\<lambda>(out, a', p', m').
     rbind (each_manager f (Suc i) a' p' ms) (\<lambda>(outs, a'', p'', ms').
     Ok (out # outs, a'', p'', m' # ms')))"

definition coord_run ::
  "(nat \<Rightarrow> 'a \<Rightarrow> block_pool \<Rightarrow> st_manager \<Rightarrow> ('o \<times> 'a \<times> block_pool \<times> st_manager) res)
   \<Rightarrow> 'a \<Rightarrow> coordinator \<Rightarrow> ('o list \<times> 'a \<times> coordinator) res" where
  "coord_run f a c =
     rbind (each_manager f 0 a (co_pool c) (co_managers c)) (\<lambda>(outs, a', p, ms).
     Ok (outs, a', c\<lparr>co_pool := p, co_managers := ms\<rparr>))"

definition co_get_num_blocks_to_allocate ::
  "string \<Rightarrow> int \<Rightarrow> blk_ref list list \<Rightarrow> coordinator \<Rightarrow> (int \<times> coordinator) res" where
  "co_get_num_blocks_to_allocate rid ntok new_computed c =
     rbind (coord_run (\<lambda>i a p m.
         rbind (py_index new_computed (int i)) (\<lambda>ncb.
         rbind (get_num_blocks_to_allocate rid ntok ncb p m) (\<lambda>(n, m'). Ok (n, a, p, m')))) () c)
       (\<lambda>(ns, _, c'). Ok (sum_list ns, c'))"

definition co_save_new_computed_blocks ::
  "string \<Rightarrow> blk_ref list list \<Rightarrow> coordinator \<Rightarrow> coordinator res" where
  "co_save_new_computed_blocks rid new_computed c =
     rbind (coord_run (\<lambda>i a p m.
         rbind (py_index new_computed (int i)) (\<lambda>ncb.
         rbind (save_new_computed_blocks rid ncb m) (\<lambda>m'. Ok ((), a, p, m')))) () c)
       (\<lambda>(_, _, c'). Ok c')"

definition co_allocate_new_blocks ::
  "string \<Rightarrow> int \<Rightarrow> coordinator \<Rightarrow> (blk_ref list list \<times> coordinator) res" where
  "co_allocate_new_blocks rid ntok c =
     rbind (coord_run (\<lambda>i a p m.
         rbind (allocate_new_blocks rid ntok p m) (\<lambda>(new, p', m'). Ok (new, a, p', m'))) () c)
       (\<lambda>(news, _, c'). Ok (news, c'))"

definition co_cache_blocks ::
  "int \<Rightarrow> hash_fn \<Rightarrow> request \<Rightarrow> block_hash list \<Rightarrow> int \<Rightarrow> coordinator \<Rightarrow> (block_hash list \<times> coordinator) res" where
  "co_cache_blocks nh hf r bhs ncomp c =
     rbind (coord_run (\<lambda>i bhs p m.
         rbind (cache_blocks nh hf r bhs ncomp p m) (\<lambda>(bhs', p', m'). Ok ((), bhs', p', m'))) bhs c)
       (\<lambda>(_, bhs', c'). Ok (bhs', c'))"

definition co_free :: "string \<Rightarrow> coordinator \<Rightarrow> coordinator res" where
  "co_free rid c =
     rbind (coord_run (\<lambda>i a p m. rbind (mgr_free rid p m) (\<lambda>(p', m'). Ok ((), a, p', m'))) () c)
       (\<lambda>(_, _, c'). Ok c')"

definition co_remove_skipped_blocks :: "string \<Rightarrow> int \<Rightarrow> coordinator \<Rightarrow> coordinator res" where
  "co_remove_skipped_blocks rid ncomp c =
     rbind (coord_run (\<lambda>i a p m. rbind (remove_skipped_blocks rid ncomp p m)
              (\<lambda>(p', m'). Ok ((), a, p', m'))) () c)
       (\<lambda>(_, _, c'). Ok c')"

definition co_get_num_common_prefix_blocks ::
  "string \<Rightarrow> int \<Rightarrow> coordinator \<Rightarrow> (int list \<times> coordinator) res" where
  "co_get_num_common_prefix_blocks rid num_running c =
     (case co_kind c of
        NoPrefixCache \<Rightarrow> Ok (replicate (length (co_managers c)) 0, c)
      | _ \<Rightarrow>
          rbind (coord_run (\<lambda>i a p m.
              let (n, m') = get_num_common_prefix_blocks rid num_running p m in Ok (n, a, p, m')) () c)
            (\<lambda>(ns, _, c'). Ok (ns, c')))"

definition co_get_blocks :: "string \<Rightarrow> coordinator \<Rightarrow> blk_ref list list" where
  "co_get_blocks rid c = map (blocks_of rid) (co_managers c)"

section \<open>The longest cache hit of all groups\<close>

definition find_hybrid :: "block_hash list \<Rightarrow> int \<Rightarrow> bool \<Rightarrow> block_pool \<Rightarrow> hybrid_info \<Rightarrow> (blk_ref list list \<times> int) res" where
  "find_hybrid hs max_len use_eagle p h =
     rbind (find_longest_cache_hit hs max_len (full_attention_group_ids h) p (full_attention_spec h) use_eagle)
       (\<lambda>hit_full.
     rbind (py_index hit_full 0) (\<lambda>f0.
     let hit_length = int (length f0) * spec_block_size (full_attention_spec h) in
     rbind (find_longest_cache_hit hs hit_length (other_group_ids h) p (other_spec h) use_eagle)
       (\<lambda>hit_other.
     rbind (py_index hit_other 0) (\<lambda>o0.
     let hit_length = int (length o0) * spec_block_size (other_spec h) in
     rbind (py_assert (hit_length mod spec_block_size (full_attention_spec h) = 0)) (\<lambda>_.
     let hit_full' = map (take (nat (hit_length div spec_block_size (full_attention_spec h)))) hit_full
     in Ok (if full_attn_first h then hit_full' @ hit_other else hit_other @ hit_full', hit_length))))))"

definition co_find_longest_cache_hit ::
  "block_hash list \<Rightarrow> int \<Rightarrow> coordinator \<Rightarrow> (blk_ref list list \<times> int) res" where
  "co_find_longest_cache_hit hs max_len c =
     (case co_kind c of
        NoPrefixCache \<Rightarrow> Ok (map (\<lambda>_. []) (co_managers c), 0)
      | Unitary spec \<Rightarrow>
          rbind (find_longest_cache_hit hs max_len [0] (co_pool c) spec (co_use_eagle c)) (\<lambda>hits.
          rbind (py_index hits 0) (\<lambda>h0. Ok (hits, int (length h0) * spec_block_size spec)))
      | Hybrid info \<Rightarrow> find_hybrid hs max_len (co_use_eagle c) (co_pool c) info)"

section \<open>All managers together\<close>

definition helds :: "block_pool \<Rightarrow> st_manager list \<Rightarrow> blk_ref multiset" where
  "helds p ms = sum_list (map (held p) ms)"

text \<open>The managers hold what the pool counts, next to \<open>R\<close> held elsewhere.\<close>

definition mgrs_state :: "block_pool \<Rightarrow> blk_ref list \<Rightarrow> blk_ref multiset \<Rightarrow> st_manager list \<Rightarrow> bool" where
  "mgrs_state p xs R ms \<longleftrightarrow> ledger p xs (R + helds p ms) \<and> (\<forall>m \<in> set ms. mgr_ok p m)"

lemma helds_simps [simp]: "helds p [] = {#}" "helds p (m # ms) = held p m + helds p ms"
  by (simp_all add: helds_def)

lemma same_pool_helds: "same_pool p p' \<Longrightarrow> helds p' ms = helds p ms"
  by (induction ms) (simp_all add: same_pool_held)

lemma mgrs_state_Cons:
  "mgrs_state p xs R (m # ms) \<longleftrightarrow> mgr_state p xs (R + helds p ms) m \<and> (\<forall>m \<in> set ms. mgr_ok p m)"
  by (auto simp: mgrs_state_def mgr_state_def ac_simps)

lemma mgrs_state_rest:
  assumes "mgr_state p' ys (R + helds p ms) m'" and "same_pool p p'" and "\<forall>m \<in> set ms. mgr_ok p m"
  shows "mgrs_state p' ys (R + held p' m') ms"
  using assms same_pool_helds [OF assms(2)] same_pool_mgr_ok [OF assms(2)]
  by (auto simp: mgrs_state_def mgr_state_def ac_simps)

lemma mgrs_state_join:
  assumes "mgrs_state p' ys (R + held p m') ms" and "mgr_ok p m'" and "same_pool p p'"
  shows "mgrs_state p' ys R (m' # ms)"
  using assms same_pool_held [OF assms(3)] same_pool_mgr_ok [OF assms(3)]
  by (simp add: mgrs_state_def ac_simps)

text \<open>
  Running an operation on every manager.  \<open>T\<close> relates the pools before and after a step,
  \<open>Q\<close> is what a manager must satisfy, \<open>S\<close> what it and its output satisfy afterwards, and
  \<open>cost\<close> bounds the free blocks a step uses.
\<close>

lemma each_manager_total:
  assumes refl: "\<And>p. T p p" and trans: "\<And>p q r. T p q \<Longrightarrow> T q r \<Longrightarrow> T p r"
    and same: "\<And>p q. T p q \<Longrightarrow> same_pool p q"
    and step: "\<And>j a p xs R m. Q j m \<Longrightarrow> enable_caching p = e \<Longrightarrow> mgr_state p xs R m \<Longrightarrow>
      cost j m \<le> int (length xs) \<Longrightarrow>
      \<exists>out a' p' m' ys. f j a p m = Ok (out, a', p', m') \<and> mgr_state p' ys R m' \<and> T p p' \<and>
        S j m m' out \<and> int (length xs) - cost j m \<le> int (length ys)"
    and pos: "\<And>j m. 0 \<le> cost j m"
  shows "mgrs_state p xs R ms \<Longrightarrow> \<forall>j < length ms. Q (i + j) (ms ! j) \<Longrightarrow> enable_caching p = e \<Longrightarrow>
    (\<Sum>j < length ms. cost (i + j) (ms ! j)) \<le> int (length xs) \<Longrightarrow>
    \<exists>outs a' p' ms' ys. each_manager f i a p ms = Ok (outs, a', p', ms') \<and> mgrs_state p' ys R ms' \<and> T p p' \<and>
      length ms' = length ms \<and> length outs = length ms \<and>
      (\<forall>j < length ms. S (i + j) (ms ! j) (ms' ! j) (outs ! j)) \<and>
      int (length xs) - (\<Sum>j < length ms. cost (i + j) (ms ! j)) \<le> int (length ys)"
proof (induction ms arbitrary: i a p xs R)
  case Nil
  then show ?case using refl by (auto simp: mgrs_state_def)
next
  case (Cons m ms)
  let ?rest = "\<Sum>j < length ms. cost (Suc i + j) (ms ! j)"
  have sum: "(\<Sum>j < length (m # ms). cost (i + j) ((m # ms) ! j)) = cost i m + ?rest"
    by (simp add: sum.lessThan_Suc_shift del: sum.lessThan_Suc)
  have rest0: "0 \<le> ?rest" by (intro sum_nonneg pos)
  have m: "mgr_state p xs (R + helds p ms) m" "\<forall>m \<in> set ms. mgr_ok p m"
    using Cons.prems(1) by (auto simp: mgrs_state_Cons)
  have c4: "cost i m + ?rest \<le> int (length xs)" using Cons.prems(4) unfolding sum .
  have "Q i m" "cost i m \<le> int (length xs)" using Cons.prems(2) c4 rest0 by (force, linarith)
  from step [OF this(1) Cons.prems(3) m(1) this(2), of a] obtain out a1 p1 m1 ys where
    s1: "f i a p m = Ok (out, a1, p1, m1)" "mgr_state p1 ys (R + helds p ms) m1" "T p p1" "S i m m1 out"
      "int (length xs) - cost i m \<le> int (length ys)" by blast
  have sp: "same_pool p p1" using same s1(3) .
  have "\<exists>outs a' p' ms' zs. each_manager f (Suc i) a1 p1 ms = Ok (outs, a', p', ms') \<and>
      mgrs_state p' zs (R + held p1 m1) ms' \<and> T p1 p' \<and> length ms' = length ms \<and> length outs = length ms \<and>
      (\<forall>j < length ms. S (Suc i + j) (ms ! j) (ms' ! j) (outs ! j)) \<and> int (length ys) - ?rest \<le> int (length zs)"
  proof (rule Cons.IH)
    show "mgrs_state p1 ys (R + held p1 m1) ms" by (rule mgrs_state_rest [OF s1(2) sp m(2)])
    show "\<forall>j < length ms. Q (Suc i + j) (ms ! j)" using Cons.prems(2) by force
    show "enable_caching p1 = e" using sp Cons.prems(3) by (simp add: same_pool_def)
    show "?rest \<le> int (length ys)" using c4 s1(5) by linarith
  qed
  then obtain outs a' p' ms' zs where s2: "each_manager f (Suc i) a1 p1 ms = Ok (outs, a', p', ms')"
    "mgrs_state p' zs (R + held p1 m1) ms'" "T p1 p'" "length ms' = length ms" "length outs = length ms"
    "\<forall>j < length ms. S (Suc i + j) (ms ! j) (ms' ! j) (outs ! j)" "int (length ys) - ?rest \<le> int (length zs)" by blast
  have "mgr_ok p1 m1" using s1(2) by (simp add: mgr_state_def)
  then have "mgrs_state p' zs R (m1 # ms')" by (rule mgrs_state_join [OF s2(2) _ same [OF s2(3)]])
  moreover have "\<forall>j < length (m # ms). S (i + j) ((m # ms) ! j) ((m1 # ms') ! j) ((out # outs) ! j)"
    using s1(4) s2(6) by (auto simp: less_Suc_eq_0_disj)
  ultimately show ?case using s1(1,5) s2 trans [OF s1(3) s2(3)]
    by (intro exI [of _ "out # outs"] exI [of _ a'] exI [of _ p'] exI [of _ "m1 # ms'"] exI [of _ zs])
      (use sum in simp)
qed

text \<open>The same for an operation that may raise: what holds when it does not.\<close>

lemma each_manager_keeps:
  assumes refl: "\<And>p. T p p" and trans: "\<And>p q r. T p q \<Longrightarrow> T q r \<Longrightarrow> T p r"
    and same: "\<And>p q. T p q \<Longrightarrow> same_pool p q"
    and step: "\<And>j a p xs R m out a' p' m'. Q j m \<Longrightarrow> enable_caching p = e \<Longrightarrow> mgr_state p xs R m \<Longrightarrow>
      f j a p m = Ok (out, a', p', m') \<Longrightarrow> mgr_state p' xs R m' \<and> T p p' \<and> S j m m' out"
  shows "mgrs_state p xs R ms \<Longrightarrow> \<forall>j < length ms. Q (i + j) (ms ! j) \<Longrightarrow> enable_caching p = e \<Longrightarrow>
    each_manager f i a p ms = Ok (outs, a', p', ms') \<Longrightarrow>
    mgrs_state p' xs R ms' \<and> T p p' \<and> length ms' = length ms \<and> length outs = length ms \<and>
    (\<forall>j < length ms. S (i + j) (ms ! j) (ms' ! j) (outs ! j))"
proof (induction ms arbitrary: i a p R outs ms')
  case Nil
  then show ?case using refl by (auto simp: mgrs_state_def)
next
  case (Cons m ms)
  then obtain out a1 p1 m1 os ms1 where s1: "f i a p m = Ok (out, a1, p1, m1)"
    and s2: "each_manager f (Suc i) a1 p1 ms = Ok (os, a', p', ms1)"
    and eq: "outs = out # os" "ms' = m1 # ms1" by (auto simp: res_simps)
  have m: "mgr_state p xs (R + helds p ms) m" "\<forall>m \<in> set ms. mgr_ok p m"
    using Cons.prems(1) by (auto simp: mgrs_state_Cons)
  have "Q i m" using Cons.prems(2) by force
  from step [OF this Cons.prems(3) m(1) s1]
  have k: "mgr_state p1 xs (R + helds p ms) m1" "T p p1" "S i m m1 out" by auto
  have sp: "same_pool p p1" using same k(2) .
  have "mgrs_state p' xs (R + held p1 m1) ms1 \<and> T p1 p' \<and> length ms1 = length ms \<and> length os = length ms \<and>
    (\<forall>j < length ms. S (Suc i + j) (ms ! j) (ms1 ! j) (os ! j))"
  proof (rule Cons.IH [OF _ _ _ s2])
    show "mgrs_state p1 xs (R + held p1 m1) ms" by (rule mgrs_state_rest [OF k(1) sp m(2)])
    show "\<forall>j < length ms. Q (Suc i + j) (ms ! j)" using Cons.prems(2) by force
    show "enable_caching p1 = e" using sp Cons.prems(3) by (simp add: same_pool_def)
  qed
  moreover have "mgr_ok p1 m1" using k(1) by (simp add: mgr_state_def)
  ultimately show ?case
    using k trans [OF k(2)] mgrs_state_join [of p' xs R p1 m1 ms1] same [of p1 p']
    by (auto simp: eq less_Suc_eq_0_disj)
qed

section \<open>The operations of the coordinator\<close>

definition co_state :: "coordinator \<Rightarrow> blk_ref list \<Rightarrow> bool" where
  "co_state c xs \<longleftrightarrow> mgrs_state (co_pool c) xs {#} (co_managers c)"

text \<open>\<open>c'\<close> is \<open>c\<close> with another pool and other managers.\<close>

definition same_coord :: "coordinator \<Rightarrow> coordinator \<Rightarrow> bool" where
  "same_coord c c' \<longleftrightarrow> c' = c\<lparr>co_pool := co_pool c', co_managers := co_managers c'\<rparr> \<and>
     length (co_managers c') = length (co_managers c) \<and> same_pool (co_pool c) (co_pool c') \<and>
     (\<forall>j < length (co_managers c). same_mgr (co_managers c ! j) (co_managers c' ! j))"

lemma same_coord_trans: "same_coord c c' \<Longrightarrow> same_coord c' c'' \<Longrightarrow> same_coord c c''"
  by (cases c; cases c'; cases c'') (auto simp: same_coord_def same_mgr_def intro: same_pool_trans)

abbreviation co_blocks :: "string \<Rightarrow> coordinator \<Rightarrow> nat \<Rightarrow> blk_ref list" where
  "co_blocks rid c j \<equiv> blocks_of rid (co_managers c ! j)"

abbreviation co_cached :: "string \<Rightarrow> coordinator \<Rightarrow> nat \<Rightarrow> int option" where
  "co_cached rid c j \<equiv> map_of (num_cached_block (co_managers c ! j)) rid"

lemma co_free_spec:
  assumes "co_state c xs"
  obtains c' ys where "co_free rid c = Ok c'" and "co_state c' ys" and "same_coord c c'"
    and "same_hashes (co_pool c) (co_pool c')" and "length xs \<le> length ys"
    and "\<forall>j < length (co_managers c). \<forall>rid'. co_blocks rid' c' j = (if rid' = rid then [] else co_blocks rid' c j) \<and>
           co_cached rid' c' j = (if rid' = rid then None else co_cached rid' c j)"
proof -
  let ?f = "\<lambda>i a p m. rbind (mgr_free rid p m) (\<lambda>(p', m'). Ok ((), a, p', m'))"
  let ?S = "\<lambda>(j :: nat) m m' (out :: unit). same_mgr m m' \<and>
    (\<forall>rid'. blocks_of rid' m' = (if rid' = rid then [] else blocks_of rid' m)) \<and>
    num_cached_block m' = AList.delete rid (num_cached_block m)"
  have step: "\<exists>out a' p' m' ys. ?f j a p m = Ok (out, a', p', m') \<and> mgr_state p' ys R m' \<and> same_hashes p p' \<and>
      ?S j m m' out \<and> int (length xs) - 0 \<le> int (length ys)"
    if "mgr_state p xs R m" for j :: nat and a :: unit and p xs R m
    by (rule mgr_free_spec [OF that, of rid]) (auto 4 4)
  have "\<exists>outs a' p' ms' ys. each_manager ?f 0 () (co_pool c) (co_managers c) = Ok (outs, a', p', ms') \<and>
      mgrs_state p' ys {#} ms' \<and> same_hashes (co_pool c) p' \<and>
      length ms' = length (co_managers c) \<and> length outs = length (co_managers c) \<and>
      (\<forall>j < length (co_managers c). ?S (0 + j) (co_managers c ! j) (ms' ! j) (outs ! j)) \<and>
      int (length xs) - (\<Sum>j < length (co_managers c). 0) \<le> int (length ys)"
    by (rule each_manager_total [where Q = "\<lambda>_ _. True" and T = same_hashes and S = ?S and cost = "\<lambda>_ _. 0"
          and e = "enable_caching (co_pool c)"])
      (use assms step in \<open>auto simp: co_state_def intro: same_hashes_trans same_hashes_pool\<close>)
  then obtain outs a' p' ms' ys where e:
      "each_manager ?f 0 () (co_pool c) (co_managers c) = Ok (outs, a', p', ms')" "mgrs_state p' ys {#} ms'"
      "same_hashes (co_pool c) p'" "length ms' = length (co_managers c)"
      "\<forall>j < length (co_managers c). ?S j (co_managers c ! j) (ms' ! j) (outs ! j)" "length xs \<le> length ys" by auto
  let ?c' = "c\<lparr>co_pool := p', co_managers := ms'\<rparr>"
  have "co_free rid c = Ok ?c'" using e(1) by (simp add: co_free_def coord_run_def)
  then show thesis
    using e by (intro that [of ?c' ys]) (auto simp: co_state_def same_coord_def delete_conv' dest: same_hashes_pool)
qed

text \<open>What dropping blocks needs of a request: its computed tokens have blocks, which are cached if caching is on.\<close>

definition skip_ok :: "bool \<Rightarrow> string \<Rightarrow> int \<Rightarrow> st_manager \<Rightarrow> bool" where
  "skip_ok caching rid ncomp m \<longleftrightarrow> 0 \<le> ncomp \<and> good_spec (mgr_spec m) \<and>
     ncomp \<le> int (length (blocks_of rid m)) * mgr_block_size m \<and>
     (caching \<longrightarrow> (\<forall>c. map_of (num_cached_block m) rid = Some c \<longrightarrow> ncomp div mgr_block_size m \<le> c))"

lemma co_remove_skipped_blocks_spec:
  assumes "co_state c xs" and "\<forall>m \<in> set (co_managers c). skip_ok (enable_caching (co_pool c)) rid ncomp m"
  obtains c' ys where "co_remove_skipped_blocks rid ncomp c = Ok c'" and "co_state c' ys" and "same_coord c c'"
    and "same_hashes (co_pool c) (co_pool c')" and "length xs \<le> length ys"
    and "\<forall>j < length (co_managers c). \<forall>rid'. length (co_blocks rid' c' j) = length (co_blocks rid' c j) \<and>
           co_cached rid' c' j = co_cached rid' c j \<and> (rid' \<noteq> rid \<longrightarrow> co_blocks rid' c' j = co_blocks rid' c j)"
proof -
  let ?f = "\<lambda>i a p m. rbind (remove_skipped_blocks rid ncomp p m) (\<lambda>(p', m'). Ok ((), a, p', m'))"
  let ?S = "\<lambda>(j :: nat) m m' (out :: unit). same_mgr m m' \<and> num_cached_block m' = num_cached_block m \<and>
    (\<forall>rid'. length (blocks_of rid' m') = length (blocks_of rid' m)) \<and>
    (\<forall>rid'. rid' \<noteq> rid \<longrightarrow> blocks_of rid' m' = blocks_of rid' m)"
  have step: "\<exists>out a' p' m' ys. ?f j a p m = Ok (out, a', p', m') \<and> mgr_state p' ys R m' \<and> same_hashes p p' \<and>
      ?S j m m' out \<and> int (length xs) - 0 \<le> int (length ys)"
    if "mgr_state p xs R m" "skip_ok (enable_caching (co_pool c)) rid ncomp m"
      "enable_caching p = enable_caching (co_pool c)" for j :: nat and a :: unit and p xs R m
    by (rule remove_skipped_blocks_spec [OF that(1), of ncomp rid])
      (use that in \<open>auto 4 4 simp: skip_ok_def good_spec_def\<close>)
  have "\<exists>outs a' p' ms' ys. each_manager ?f 0 () (co_pool c) (co_managers c) = Ok (outs, a', p', ms') \<and>
      mgrs_state p' ys {#} ms' \<and> same_hashes (co_pool c) p' \<and>
      length ms' = length (co_managers c) \<and> length outs = length (co_managers c) \<and>
      (\<forall>j < length (co_managers c). ?S (0 + j) (co_managers c ! j) (ms' ! j) (outs ! j)) \<and>
      int (length xs) - (\<Sum>j < length (co_managers c). 0) \<le> int (length ys)"
    by (rule each_manager_total [where Q = "\<lambda>_. skip_ok (enable_caching (co_pool c)) rid ncomp" and T = same_hashes
          and S = ?S and cost = "\<lambda>_ _. 0" and e = "enable_caching (co_pool c)"])
      (use assms step in \<open>auto simp: co_state_def intro: same_hashes_trans same_hashes_pool\<close>)
  then obtain outs a' p' ms' ys where e:
      "each_manager ?f 0 () (co_pool c) (co_managers c) = Ok (outs, a', p', ms')" "mgrs_state p' ys {#} ms'"
      "same_hashes (co_pool c) p'" "length ms' = length (co_managers c)"
      "\<forall>j < length (co_managers c). ?S j (co_managers c ! j) (ms' ! j) (outs ! j)" "length xs \<le> length ys" by auto
  let ?c' = "c\<lparr>co_pool := p', co_managers := ms'\<rparr>"
  have "co_remove_skipped_blocks rid ncomp c = Ok ?c'" using e(1) by (simp add: co_remove_skipped_blocks_def coord_run_def)
  then show thesis
    using e by (intro that [of ?c' ys]) (auto simp: co_state_def same_coord_def dest: same_hashes_pool)
qed

text \<open>The number of blocks a request needs: per group, what is missing plus the hits that are still free.\<close>

definition group_need :: "string \<Rightarrow> int \<Rightarrow> blk_ref list \<Rightarrow> st_manager \<Rightarrow> int" where
  "group_need rid ntok ncb m = cdiv ntok (mgr_block_size m) - int (length ncb) - int (length (blocks_of rid m))"

definition evictable :: "block_pool \<Rightarrow> blk_ref list \<Rightarrow> int" where
  "evictable p ncb = int (length (filter (\<lambda>b. ref_cnt (blk p b) = 0 \<and> \<not> is_null (blk p b)) ncb))"

lemma get_num_blocks_eq:
  "0 < mgr_block_size m \<Longrightarrow> get_num_blocks_to_allocate rid ntok ncb p m =
     Ok (group_need rid ntok ncb m + evictable p ncb, snd (read_blocks rid m))"
  by (simp add: get_num_blocks_to_allocate_def py_cdiv_def group_need_def evictable_def split_beta)

lemma co_get_num_blocks_spec:
  assumes "co_state c xs" and "length ncb = length (co_managers c)"
  obtains c' where "co_get_num_blocks_to_allocate rid ntok ncb c =
      Ok (\<Sum>j < length (co_managers c). group_need rid ntok (ncb ! j) (co_managers c ! j) + evictable (co_pool c) (ncb ! j), c')"
    and "co_state c' xs" and "same_coord c c'" and "co_pool c' = co_pool c"
    and "\<forall>j < length (co_managers c). \<forall>rid'. co_blocks rid' c' j = co_blocks rid' c j \<and> co_cached rid' c' j = co_cached rid' c j"
proof -
  let ?f = "\<lambda>i a p m. rbind (py_index ncb (int i)) (\<lambda>n. rbind (get_num_blocks_to_allocate rid ntok n p m) (\<lambda>(n, m'). Ok (n, a, p, m')))"
  have run: "each_manager ?f i () p ms = Ok (map (\<lambda>j. group_need rid ntok (ncb ! (i + j)) (ms ! j) + evictable p (ncb ! (i + j))) [0..<length ms],
      (), p, map (\<lambda>m. snd (read_blocks rid m)) ms)"
    if "\<forall>m \<in> set ms. 0 < mgr_block_size m" "i + length ms \<le> length ncb" for i p ms
    using that
  proof (induction ms arbitrary: i)
    case (Cons m ms)
    then have "py_index ncb (int i) = Ok (ncb ! i)" by (simp add: py_index_nonneg)
    with Cons show ?case by (simp add: get_num_blocks_eq map_upt_Suc del: upt_Suc)
  qed simp
  have ok: "\<forall>m \<in> set (co_managers c). mgr_ok (co_pool c) m" using assms(1) by (simp add: co_state_def mgrs_state_def)
  then have sz: "\<forall>m \<in> set (co_managers c). 0 < mgr_block_size m" using mgr_okD(3) by blast
  let ?ms = "map (\<lambda>m. snd (read_blocks rid m)) (co_managers c)"
  let ?c' = "c\<lparr>co_pool := co_pool c, co_managers := ?ms\<rparr>"
  have "helds p (map (\<lambda>m. snd (read_blocks rid m)) ms) = helds p ms" if "\<forall>m \<in> set ms. mgr_ok q m" for p q ms
    using that by (induction ms) (auto dest: mgr_okD(1))
  then have "mgrs_state (co_pool c) xs {#} ?ms"
    using assms(1) ok by (auto simp: co_state_def mgrs_state_def read_blocks_ok)
  moreover have "co_get_num_blocks_to_allocate rid ntok ncb c =
      Ok (\<Sum>j < length (co_managers c). group_need rid ntok (ncb ! j) (co_managers c ! j) + evictable (co_pool c) (ncb ! j), ?c')"
    using run [OF sz, of 0 "co_pool c"] assms(2)
    by (simp add: co_get_num_blocks_to_allocate_def coord_run_def sum_list_sum_nth atLeast0LessThan)
  ultimately show thesis by (intro that [of ?c']) (auto simp: co_state_def same_coord_def same_mgr_def)
qed

text \<open>Recording the hits of a request that the managers do not know yet.\<close>

lemma each_save_spec:
  assumes "\<forall>b \<in> set (concat ncb). pool_ref p b" and "\<forall>bs \<in> set ncb. distinct (filter (real_block p) bs)"
  shows "mgrs_state p xs (R + mset (filter (real_block p) (concat (take (length ms) (drop i ncb))))) ms \<Longrightarrow>
    i + length ms \<le> length ncb \<Longrightarrow> \<forall>m \<in> set ms. map_of (num_cached_block m) rid = None \<Longrightarrow>
    \<exists>ms' outs. each_manager (\<lambda>i a p m. rbind (py_index ncb (int i)) (\<lambda>n.
        rbind (save_new_computed_blocks rid n m) (\<lambda>m'. Ok ((), a, p, m')))) i () p ms = Ok (outs, (), p, ms') \<and>
      mgrs_state p xs R ms' \<and> length ms' = length ms \<and>
      (\<forall>j < length ms. same_mgr (ms ! j) (ms' ! j) \<and>
        (\<forall>rid'. blocks_of rid' (ms' ! j) = (if rid' = rid then ncb ! (i + j) else blocks_of rid' (ms ! j))) \<and>
        map_of (num_cached_block (ms' ! j)) = (map_of (num_cached_block (ms ! j)))(rid \<mapsto> int (length (ncb ! (i + j)))))"
proof (induction ms arbitrary: i R)
  case Nil
  then show ?case by simp
next
  case (Cons m ms)
  let ?f = "filter (real_block p)" and ?n = "ncb ! i"
  have i: "i < length ncb" and idx: "py_index ncb (int i) = Ok ?n"
    using Cons.prems(2) by (auto simp: py_index_nonneg)
  have "take (length (m # ms)) (drop i ncb) = ?n # take (length ms) (drop (Suc i) ncb)"
    using i by (subst Cons_nth_drop_Suc [symmetric]) simp_all
  then have eq: "mset (?f (concat (take (length (m # ms)) (drop i ncb)))) =
      mset (?f ?n) + mset (?f (concat (take (length ms) (drop (Suc i) ncb))))" by simp
  let ?rest = "mset (?f (concat (take (length ms) (drop (Suc i) ncb))))"
  have m: "mgr_state p xs ((R + ?rest + helds p ms) + mset (?f ?n)) m" "\<forall>m \<in> set ms. mgr_ok p m"
    using Cons.prems(1) unfolding eq by (auto simp: mgrs_state_Cons ac_simps)
  have nref: "\<forall>b \<in> set ?n. pool_ref p b" "distinct (?f ?n)" using assms i by (auto dest: nth_mem)
  have new: "map_of (num_cached_block m) rid = None" using Cons.prems(3) by simp
  obtain m' where m': "save_new_computed_blocks rid ?n m = Ok m'" "mgr_state p xs (R + ?rest + helds p ms) m'"
      "same_mgr m m'" "\<forall>rid'. blocks_of rid' m' = (if rid' = rid then ?n else blocks_of rid' m)"
      "map_of (num_cached_block m') = (map_of (num_cached_block m))(rid \<mapsto> int (length ?n))"
    by (rule save_new_computed_blocks_spec [OF m(1) new nref])
  have "mgrs_state p xs ((R + held p m') + ?rest) ms"
    using m'(2) m(2) by (auto simp: mgrs_state_def mgr_state_def ac_simps)
  moreover have "Suc i + length ms \<le> length ncb" "\<forall>m \<in> set ms. map_of (num_cached_block m) rid = None"
    using Cons.prems(2,3) by auto
  ultimately obtain ms' outs where ih:
    "each_manager (\<lambda>i a p m. rbind (py_index ncb (int i)) (\<lambda>n.
        rbind (save_new_computed_blocks rid n m) (\<lambda>m'. Ok ((), a, p, m')))) (Suc i) () p ms = Ok (outs, (), p, ms')"
    "mgrs_state p xs (R + held p m') ms'" "length ms' = length ms"
    "\<forall>j < length ms. same_mgr (ms ! j) (ms' ! j) \<and>
        (\<forall>rid'. blocks_of rid' (ms' ! j) = (if rid' = rid then ncb ! (Suc i + j) else blocks_of rid' (ms ! j))) \<and>
        map_of (num_cached_block (ms' ! j)) = (map_of (num_cached_block (ms ! j)))(rid \<mapsto> int (length (ncb ! (Suc i + j))))"
    using Cons.IH [of "R + held p m'" "Suc i"] by blast
  have "mgrs_state p xs R (m' # ms')"
    using ih(2) m'(2) by (intro mgrs_state_join) (auto simp: mgr_state_def)
  moreover have "\<forall>j < length (m # ms). same_mgr ((m # ms) ! j) ((m' # ms') ! j) \<and>
        (\<forall>rid'. blocks_of rid' ((m' # ms') ! j) = (if rid' = rid then ncb ! (i + j) else blocks_of rid' ((m # ms) ! j))) \<and>
        map_of (num_cached_block ((m' # ms') ! j)) = (map_of (num_cached_block ((m # ms) ! j)))(rid \<mapsto> int (length (ncb ! (i + j))))"
    using m'(3-5) ih(4) by (simp add: less_Suc_eq_0_disj) (auto simp: less_Suc_eq_0_disj)
  ultimately show ?case using idx m'(1) ih(1,3)
    by (intro exI [of _ "m' # ms'"] exI [of _ "() # outs"]) simp
qed

lemma co_save_new_computed_blocks_spec:
  assumes "mgrs_state (co_pool c) xs (mset (filter (real_block (co_pool c)) (concat ncb))) (co_managers c)"
    and "length ncb = length (co_managers c)" and "\<forall>j < length (co_managers c). co_cached rid c j = None"
    and "\<forall>b \<in> set (concat ncb). pool_ref (co_pool c) b" and "\<forall>bs \<in> set ncb. distinct (filter (real_block (co_pool c)) bs)"
  obtains c' where "co_save_new_computed_blocks rid ncb c = Ok c'" and "co_state c' xs" and "same_coord c c'"
    and "co_pool c' = co_pool c"
    and "\<forall>j < length (co_managers c). \<forall>rid'. co_blocks rid' c' j = (if rid' = rid then ncb ! j else co_blocks rid' c j) \<and>
           co_cached rid' c' j = (if rid' = rid then Some (int (length (ncb ! j))) else co_cached rid' c j)"
proof -
  have none: "\<forall>m \<in> set (co_managers c). map_of (num_cached_block m) rid = None"
    using assms(3) by (auto simp: in_set_conv_nth)
  have "take (length (co_managers c)) (drop 0 ncb) = ncb" using assms(2) by simp
  with each_save_spec [OF assms(4,5), of xs "{#}" "co_managers c" 0 rid] assms(1,2) none
  obtain ms' outs where e: "each_manager (\<lambda>i a p m. rbind (py_index ncb (int i)) (\<lambda>n.
        rbind (save_new_computed_blocks rid n m) (\<lambda>m'. Ok ((), a, p, m')))) 0 () (co_pool c) (co_managers c)
      = Ok (outs, (), co_pool c, ms')" "mgrs_state (co_pool c) xs {#} ms'" "length ms' = length (co_managers c)"
      "\<forall>j < length (co_managers c). same_mgr (co_managers c ! j) (ms' ! j) \<and>
        (\<forall>rid'. blocks_of rid' (ms' ! j) = (if rid' = rid then ncb ! j else blocks_of rid' (co_managers c ! j))) \<and>
        map_of (num_cached_block (ms' ! j)) = (map_of (num_cached_block (co_managers c ! j)))(rid \<mapsto> int (length (ncb ! j)))"
    by auto
  let ?c' = "c\<lparr>co_pool := co_pool c, co_managers := ms'\<rparr>"
  have "co_save_new_computed_blocks rid ncb c = Ok ?c'"
    using e(1) by (simp add: co_save_new_computed_blocks_def coord_run_def)
  then show thesis using e by (intro that [of ?c']) (auto simp: co_state_def same_coord_def)
qed

text \<open>Allocation: enough free blocks for what every group misses.\<close>

definition alloc_ok :: "string \<Rightarrow> int \<Rightarrow> st_manager \<Rightarrow> bool" where
  "alloc_ok rid ntok m \<longleftrightarrow> map_of (num_cached_block m) rid \<noteq> None \<and>
     (case mgr_spec m of
        MambaSpec _ _ _ _ _ \<Rightarrow> cdiv ntok (mgr_block_size m) = 1 \<and> length (blocks_of rid m) \<le> 1 | _ \<Rightarrow> True)"

lemma allocate_new_blocks_spec:
  assumes "mgr_state p xs R m" and "alloc_ok rid ntok m" and "group_need rid ntok [] m \<le> int (length xs)"
  obtains new p' m' ys where "allocate_new_blocks rid ntok p m = Ok (new, p', m')"
    and "mgr_state p' ys R m'" and "same_pool p p'" and "same_mgr m m'"
    and "\<forall>rid'. blocks_of rid' m' = (if rid' = rid then blocks_of rid m @ new else blocks_of rid' m)"
    and "num_cached_block m' = num_cached_block m"
    and "int (length new) = max 0 (group_need rid ntok [] m)" and "length ys + length new = length xs"
    and "\<forall>b \<in> set new. real_block p b \<and> b \<notin># R + held p m"
proof -
  have k: "map_of (num_cached_block m) rid \<noteq> None"
      "cdiv ntok (mgr_block_size m) - int (length (blocks_of rid m)) \<le> int (length xs)"
    using assms(2,3) by (auto simp: alloc_ok_def group_need_def)
  obtain new p' m1 ys where b: "base_allocate_new_blocks rid ntok p m = Ok (new, p', m1)"
    "mgr_state p' ys R m1" "same_pool p p'" "same_mgr m m1"
    "\<forall>rid'. blocks_of rid' m1 = (if rid' = rid then blocks_of rid m @ new else blocks_of rid' m)"
    "num_cached_block m1 = num_cached_block m"
    "int (length new) = max 0 (cdiv ntok (mgr_block_size m) - int (length (blocks_of rid m)))"
    "length ys + length new = length xs" "\<forall>b \<in> set new. real_block p b \<and> b \<notin># R + held p m"
    by (rule base_allocate_new_blocks_spec [OF assms(1) k])
  have need: "int (length new) = max 0 (group_need rid ntok [] m)" using b(7) by (simp add: group_need_def)
  show thesis
  proof (cases "\<exists>a sh d pd t. mgr_spec m = MambaSpec a sh d pd t")
    case False
    then have "allocate_new_blocks rid ntok p m = Ok (new, p', m1)"
      using b(1) by (auto simp: allocate_new_blocks_def split: kv_cache_spec.splits)
    then show thesis using that b need by blast
  next
    case True
    then have "cdiv ntok (mgr_block_size m) = 1" "length (blocks_of rid m) \<le> 1"
      using assms(2) by (auto simp: alloc_ok_def)
    then have "length (blocks_of rid m1) = 1" using b(5,7) by auto
    then have "allocate_new_blocks rid ntok p m = Ok (new, p', snd (read_blocks rid m1))"
      using b(1) True by (auto simp: allocate_new_blocks_def split_beta)
    then show thesis using b need mgr_state_read [OF b(2)]
      by (intro that [of new p' "snd (read_blocks rid m1)" ys]) (auto simp: same_mgr_def)
  qed
qed

lemma co_allocate_new_blocks_spec:
  assumes "co_state c xs" and "\<forall>m \<in> set (co_managers c). alloc_ok rid ntok m"
    and "(\<Sum>j < length (co_managers c). max 0 (group_need rid ntok [] (co_managers c ! j))) \<le> int (length xs)"
  obtains news c' ys where "co_allocate_new_blocks rid ntok c = Ok (news, c')" and "co_state c' ys" and "same_coord c c'"
    and "length news = length (co_managers c)"
    and "\<forall>j < length (co_managers c). \<forall>rid'. co_blocks rid' c' j = (if rid' = rid then co_blocks rid c j @ news ! j else co_blocks rid' c j) \<and>
           co_cached rid' c' j = co_cached rid' c j \<and>
           int (length (news ! j)) = max 0 (group_need rid ntok [] (co_managers c ! j))"
proof -
  let ?f = "\<lambda>i a p m. rbind (allocate_new_blocks rid ntok p m) (\<lambda>(new, p', m'). Ok (new, a, p', m'))"
  let ?S = "\<lambda>(j :: nat) m m' new. same_mgr m m' \<and> num_cached_block m' = num_cached_block m \<and>
    (\<forall>rid'. blocks_of rid' m' = (if rid' = rid then blocks_of rid m @ new else blocks_of rid' m)) \<and>
    int (length new) = max 0 (group_need rid ntok [] m)"
  let ?cost = "\<lambda>(j :: nat) m. max 0 (group_need rid ntok [] m)"
  have step: "\<exists>out a' p' m' ys. ?f j a p m = Ok (out, a', p', m') \<and> mgr_state p' ys R m' \<and> same_pool p p' \<and>
      ?S j m m' out \<and> int (length xs) - ?cost j m \<le> int (length ys)"
    if h: "mgr_state p xs R m" "alloc_ok rid ntok m" "?cost j m \<le> int (length xs)"
      for j :: nat and a :: unit and p xs R m
  proof -
    have n: "group_need rid ntok [] m \<le> int (length xs)" using h(3) by simp
    obtain new p' m' ys where b: "allocate_new_blocks rid ntok p m = Ok (new, p', m')"
      "mgr_state p' ys R m'" "same_pool p p'" "same_mgr m m'"
      "\<forall>rid'. blocks_of rid' m' = (if rid' = rid then blocks_of rid m @ new else blocks_of rid' m)"
      "num_cached_block m' = num_cached_block m"
      "int (length new) = max 0 (group_need rid ntok [] m)" "length ys + length new = length xs"
      by (rule allocate_new_blocks_spec [OF h(1,2) n])
    have "int (length xs) - ?cost j m \<le> int (length ys)" using b(7,8) by linarith
    with b show ?thesis
      by (intro exI [of _ new] exI [of _ "()"] exI [of _ p'] exI [of _ m'] exI [of _ ys]) simp
  qed
  have "\<exists>outs a' p' ms' ys. each_manager ?f 0 () (co_pool c) (co_managers c) = Ok (outs, a', p', ms') \<and>
      mgrs_state p' ys {#} ms' \<and> same_pool (co_pool c) p' \<and>
      length ms' = length (co_managers c) \<and> length outs = length (co_managers c) \<and>
      (\<forall>j < length (co_managers c). ?S (0 + j) (co_managers c ! j) (ms' ! j) (outs ! j)) \<and>
      int (length xs) - (\<Sum>j < length (co_managers c). ?cost (0 + j) (co_managers c ! j)) \<le> int (length ys)"
    by (rule each_manager_total [where Q = "\<lambda>_. alloc_ok rid ntok" and T = same_pool and S = ?S and cost = ?cost
          and e = "enable_caching (co_pool c)"])
      (use assms step in \<open>auto simp: co_state_def intro: same_pool_trans\<close>)
  then obtain outs a' p' ms' ys where e:
      "each_manager ?f 0 () (co_pool c) (co_managers c) = Ok (outs, a', p', ms')" "mgrs_state p' ys {#} ms'"
      "same_pool (co_pool c) p'" "length ms' = length (co_managers c)" "length outs = length (co_managers c)"
      "\<forall>j < length (co_managers c). ?S j (co_managers c ! j) (ms' ! j) (outs ! j)" by auto
  let ?c' = "c\<lparr>co_pool := p', co_managers := ms'\<rparr>"
  have "co_allocate_new_blocks rid ntok c = Ok (outs, ?c')"
    using e(1) by (simp add: co_allocate_new_blocks_def coord_run_def)
  then show thesis using e by (intro that [of outs ?c' ys]) (auto simp: co_state_def same_coord_def)
qed

text \<open>Publishing, when it does not raise.\<close>

lemma co_cache_blocks_keeps:
  assumes "co_state c xs" and "enable_caching (co_pool c)"
    and "co_cache_blocks nh hf r bhs ntok c = Ok (bhs', c')"
    and "\<forall>m \<in> set (co_managers c). \<forall>n. map_of (num_cached_block m) (request_id r) = Some n \<longrightarrow> n \<le> ntok div mgr_block_size m"
  shows "co_state c' xs" and "same_coord c c'" and "cache_frame (co_pool c) (co_pool c')"
    and "\<forall>j < length (co_managers c). \<forall>rid. co_blocks rid c' j = co_blocks rid c j \<and>
           co_cached rid c' j = (if rid = request_id r then Some (ntok div mgr_block_size (co_managers c ! j)) else co_cached rid c j)"
proof -
  let ?f = "\<lambda>i bhs p m. rbind (cache_blocks nh hf r bhs ntok p m) (\<lambda>(bhs', p', m'). Ok ((), bhs', p', m'))"
  let ?Q = "\<lambda>(j :: nat) m. \<forall>n. map_of (num_cached_block m) (request_id r) = Some n \<longrightarrow> n \<le> ntok div mgr_block_size m"
  let ?S = "\<lambda>(j :: nat) m m' (out :: unit). same_mgr m m' \<and> (\<forall>rid. blocks_of rid m' = blocks_of rid m) \<and>
    map_of (num_cached_block m') = (map_of (num_cached_block m))(request_id r \<mapsto> ntok div mgr_block_size m)"
  obtain outs p' ms' where e: "each_manager ?f 0 bhs (co_pool c) (co_managers c) = Ok (outs, bhs', p', ms')"
      "c' = c\<lparr>co_pool := p', co_managers := ms'\<rparr>"
    using assms(3) by (auto simp: co_cache_blocks_def coord_run_def res_simps)
  have "mgrs_state p' xs {#} ms' \<and> cache_frame (co_pool c) p' \<and> length ms' = length (co_managers c) \<and>
    length outs = length (co_managers c) \<and>
    (\<forall>j < length (co_managers c). ?S (0 + j) (co_managers c ! j) (ms' ! j) (outs ! j))"
  proof (rule each_manager_keeps [where Q = ?Q and T = cache_frame and S = ?S and e = True])
    show "mgr_state p' xs R m' \<and> cache_frame p p' \<and> ?S j m m' out"
      if "?Q j m" "enable_caching p = True" "mgr_state p xs R m" "?f j a p m = Ok (out, a', p', m')"
      for j a p xs R m out a' p' m'
    proof -
      have cb: "cache_blocks nh hf r a ntok p m = Ok (a', p', m')" using that(4) by (auto simp: res_simps)
      have cp: "enable_caching p" using that(2) by simp
      show ?thesis using cache_blocks_keeps [OF that(3) cp cb] that(1) by blast
    qed
  qed (use assms e(1) in \<open>auto simp: co_state_def cache_frame_def intro: same_pool_trans same_links_trans\<close>)
  then show "co_state c' xs" "same_coord c c'" "cache_frame (co_pool c) (co_pool c')"
    "\<forall>j < length (co_managers c). \<forall>rid. co_blocks rid c' j = co_blocks rid c j \<and>
       co_cached rid c' j = (if rid = request_id r then Some (ntok div mgr_block_size (co_managers c ! j)) else co_cached rid c j)"
    by (auto simp: e(2) co_state_def same_coord_def cache_frame_def)
qed

section \<open>The groups of a hybrid coordinator\<close>

lemma split_groups_loop_Cons:
  assumes "split_groups_loop ((i, s) # gs) full oth fids oids = Ok out"
  shows "if is_full_attention s
    then (full = None \<or> full = Some s) \<and> split_groups_loop gs (Some s) oth (fids @ [i]) oids = Ok out
    else (oth = None \<or> oth = Some s) \<and> split_groups_loop gs full (Some s) fids (oids @ [i]) = Ok out"
  using assms by (cases full; cases oth) (auto simp: res_simps split: if_splits)

lemma split_groups_loop_spec:
  assumes "split_groups_loop gs full oth fids oids = Ok (full', oth', fids', oids')"
  shows "fids' = fids @ map fst (filter (\<lambda>g. is_full_attention (snd g)) gs) \<and>
    oids' = oids @ map fst (filter (\<lambda>g. \<not> is_full_attention (snd g)) gs) \<and>
    (full \<noteq> None \<longrightarrow> full' = full) \<and> (oth \<noteq> None \<longrightarrow> oth' = oth) \<and>
    (\<forall>g \<in> set gs. (if is_full_attention (snd g) then full' else oth') = Some (snd g)) \<and>
    (full' = full \<or> fids' \<noteq> []) \<and> (oth' = oth \<or> oids' \<noteq> [])"
  using assms
proof (induction gs arbitrary: full oth fids oids)
  case (Cons g gs)
  obtain i s where g: "g = (i, s)" by (cases g)
  note step = split_groups_loop_Cons [OF Cons.prems [unfolded g]]
  show ?case
  proof (cases "is_full_attention s")
    case True
    with step have "full = None \<or> full = Some s" and "split_groups_loop gs (Some s) oth (fids @ [i]) oids = Ok (full', oth', fids', oids')"
      by simp_all
    then show ?thesis using Cons.IH [of "Some s" oth "fids @ [i]" oids] True by (simp add: g) blast
  next
    case False
    with step have "oth = None \<or> oth = Some s" and "split_groups_loop gs full (Some s) fids (oids @ [i]) = Ok (full', oth', fids', oids')"
      by simp_all
    then show ?thesis using Cons.IH [of full "Some s" fids "oids @ [i]"] False by (simp add: g) blast
  qed
qed simp

text \<open>The layout the hybrid search relies on: the groups of one kind come first.\<close>

definition hybrid_layout :: "st_manager list \<Rightarrow> hybrid_info \<Rightarrow> bool" where
  "hybrid_layout ms h \<longleftrightarrow> full_attention_group_ids h \<noteq> [] \<and> other_group_ids h \<noteq> [] \<and>
     (if full_attn_first h then full_attention_group_ids h @ other_group_ids h
      else other_group_ids h @ full_attention_group_ids h) = [0..<length ms] \<and>
     (\<forall>i \<in> set (full_attention_group_ids h). mgr_spec (ms ! i) = full_attention_spec h) \<and>
     (\<forall>i \<in> set (other_group_ids h). mgr_spec (ms ! i) = other_spec h) \<and> is_full_attention (full_attention_spec h)"

lemma sorted_halves:
  assumes "sorted xs" "distinct xs" "sorted ys" "distinct ys" "xs \<noteq> []" "ys \<noteq> []"
    and "set xs \<union> set ys = {0..<n}" and "Max (set xs) < Min (set ys)"
  shows "xs @ ys = [0..<(n::nat)]"
proof -
  have lt: "\<forall>x \<in> set xs. \<forall>y \<in> set ys. x < y" 
    using assms(8) by (meson List.finite_set Max_ge Min_le le_less_trans less_le_trans)
  have "sorted (xs @ ys)" using assms(1,3) lt by (simp add: sorted_append less_imp_le)
  moreover have "distinct (xs @ ys)" using assms(2,4) lt by auto
  moreover have "set (xs @ ys) = set [0..<n]" using assms(7) by simp
  ultimately show ?thesis by (intro sorted_distinct_set_unique) simp_all
qed

lemma make_managers_nth: "i < length (kv_cache_groups cfg) \<Longrightarrow> mgr_spec (make_managers cfg ! i) = group_spec (kv_cache_groups cfg ! i)"
  by (simp add: make_managers_def get_manager_for_kv_cache_spec_def)

lemma verify_and_split_cases:
  assumes "verify_and_split_kv_cache_groups caching cfg = Ok h"
  obtains fs os fids oids where
    "split_groups_loop (zip [0..<length (kv_cache_groups cfg)] (map group_spec (kv_cache_groups cfg))) None None [] [] =
       Ok (Some fs, Some os, fids, oids)"
    and "h = \<lparr>full_attention_group_ids = fids, other_group_ids = oids, full_attention_spec = fs, other_spec = os,
            full_attn_first = (Max (set fids) < Min (set oids))\<rparr>"
    and "Max (set fids) < Min (set oids) \<or> Max (set oids) < Min (set fids)"
    and "caching \<longrightarrow> spec_block_size fs \<noteq> 0 \<and> spec_block_size os mod spec_block_size fs = 0"
proof -
  obtain full oth fids oids where s: "split_groups_loop (zip [0..<length (kv_cache_groups cfg)] (map group_spec (kv_cache_groups cfg))) None None [] [] =
       Ok (full, oth, fids, oids)"
    using assms by (auto simp: verify_and_split_kv_cache_groups_def res_simps)
  show thesis
    by (cases full; cases oth) (use assms s that [of _ _ fids oids] in
      \<open>auto simp: verify_and_split_kv_cache_groups_def split: if_splits\<close>)
qed

lemma verify_and_split_layout:
  assumes "verify_and_split_kv_cache_groups caching cfg = Ok h"
  shows "hybrid_layout (make_managers cfg) h"
proof -
  let ?gs = "zip [0..<length (kv_cache_groups cfg)] (map group_spec (kv_cache_groups cfg))"
  let ?n = "length (kv_cache_groups cfg)"
  obtain fs os fids oids where s: "split_groups_loop ?gs None None [] [] = Ok (Some fs, Some os, fids, oids)"
      "h = \<lparr>full_attention_group_ids = fids, other_group_ids = oids, full_attention_spec = fs, other_spec = os,
            full_attn_first = (Max (set fids) < Min (set oids))\<rparr>"
      "Max (set fids) < Min (set oids) \<or> Max (set oids) < Min (set fids)"
    by (rule verify_and_split_cases [OF assms]) blast
  note l = split_groups_loop_spec [OF s(1)]
  have fids: "fids = map fst (filter (\<lambda>g. is_full_attention (snd g)) ?gs)"
    and oids: "oids = map fst (filter (\<lambda>g. \<not> is_full_attention (snd g)) ?gs)" using l by simp_all
  have ne: "fids \<noteq> []" "oids \<noteq> []" using l by auto
  have mf: "map fst ?gs = [0..<?n]" by simp
  have sd: "sorted (map fst (filter P ?gs)) \<and> distinct (map fst (filter P ?gs))" for P
    using sorted_filter [of fst ?gs P] distinct_map_filter [of fst ?gs P] mf by simp
  have un: "set fids \<union> set oids = {0..<?n}"
  proof -
    have "set (map fst (filter P gs)) \<union> set (map fst (filter (\<lambda>g. \<not> P g) gs)) = set (map fst gs)"
      for P and gs :: "(nat \<times> kv_cache_spec) list" by auto
    from this [of _ ?gs] show ?thesis unfolding fids oids mf by simp
  qed
  have sp: "mgr_spec (make_managers cfg ! i) = s" if "(i, s) \<in> set ?gs" for i s
    using that by (auto simp: set_zip make_managers_nth)
  have "mgr_spec (make_managers cfg ! i) = fs" if "i \<in> set fids" for i
    using that l sp unfolding fids by fastforce
  moreover have "mgr_spec (make_managers cfg ! i) = os" if "i \<in> set oids" for i
    using that l sp unfolding oids by fastforce
  moreover have "fids @ oids = [0..<?n]" if "Max (set fids) < Min (set oids)"
    by (rule sorted_halves) (use sd ne un that in \<open>auto simp: fids oids\<close>)
  moreover have "oids @ fids = [0..<?n]" if "Max (set oids) < Min (set fids)"
    by (rule sorted_halves) (use sd ne un that in \<open>auto simp: fids oids\<close>)
  moreover have "length (make_managers cfg) = ?n" by (simp add: make_managers_def)
  moreover have "is_full_attention fs" using ne(1) l unfolding fids by (fastforce simp: filter_empty_conv)
  ultimately show ?thesis using ne s(3) by (auto simp: hybrid_layout_def s(2))
qed

section \<open>Hits for all groups\<close>

lemma hits_ok_cols: "hits_ok p hs gids n res \<longleftrightarrow> length res = length gids \<and> (\<forall>k < length gids. hits_ok p hs [gids ! k] n [res ! k])"
  by (auto simp: hits_ok_def list_all2_conv_all_nth)

lemma hits_ok_cat: "hits_ok p hs g1 n r1 \<Longrightarrow> hits_ok p hs g2 n r2 \<Longrightarrow> hits_ok p hs (g1 @ g2) n (r1 @ r2)"
  by (simp add: hits_ok_def list_all2_appendI)

text \<open>Every column has blocks at the positions its kind of attention needs.\<close>

definition cols_filled :: "block_pool \<Rightarrow> kv_cache_spec list \<Rightarrow> nat \<Rightarrow> blk_ref list list \<Rightarrow> bool" where
  "cols_filled p specs k cols \<longleftrightarrow> list_all2 (\<lambda>spec c. filled p (needed_from spec k) k [c]) specs cols"

lemma cols_filled_same:
  "length cols = n \<Longrightarrow> filled p (needed_from spec k) k cols \<Longrightarrow> cols_filled p (replicate n spec) k cols"
  by (auto simp: cols_filled_def filled_def list_all2_conv_all_nth)

lemma cols_filled_cat: "cols_filled p s1 k c1 \<Longrightarrow> cols_filled p s2 k c2 \<Longrightarrow> cols_filled p (s1 @ s2) k (c1 @ c2)"
  by (simp add: cols_filled_def list_all2_appendI)

text \<open>The kind of the coordinator fits its managers, which share one block size.\<close>

definition co_layout :: "coordinator \<Rightarrow> int \<Rightarrow> bool" where
  "co_layout c bs \<longleftrightarrow> (\<forall>m \<in> set (co_managers c). mgr_block_size m = bs \<and> good_spec (mgr_spec m)) \<and>
     (case co_kind c of NoPrefixCache \<Rightarrow> True
      | Unitary spec \<Rightarrow> length (co_managers c) = 1 \<and> spec = mgr_spec (hd (co_managers c))
      | Hybrid h \<Rightarrow> hybrid_layout (co_managers c) h)"

lemma hybrid_ids:
  assumes "hybrid_layout ms h"
  shows "\<exists>i < length ms. mgr_spec (ms ! i) = full_attention_spec h" and "\<exists>i < length ms. mgr_spec (ms ! i) = other_spec h"
proof -
  let ?f = "full_attention_group_ids h" and ?o = "other_group_ids h"
  have "set (if full_attn_first h then ?f @ ?o else ?o @ ?f) = {0..<length ms}" using assms by (simp add: hybrid_layout_def)
  then have un: "set ?f \<union> set ?o = {0..<length ms}" by (auto split: if_splits)
  have "hd ?f \<in> set ?f" "hd ?o \<in> set ?o" using assms by (simp_all add: hybrid_layout_def)
  moreover have "hd ?f < length ms" "hd ?o < length ms" using calculation un by auto
  ultimately show "\<exists>i < length ms. mgr_spec (ms ! i) = full_attention_spec h" "\<exists>i < length ms. mgr_spec (ms ! i) = other_spec h"
    using assms unfolding hybrid_layout_def by blast+
qed

lemma hybrid_specs:
  assumes "hybrid_layout ms h" and "\<forall>m \<in> set ms. mgr_block_size m = bs \<and> good_spec (mgr_spec m)"
  shows "good_spec (full_attention_spec h)" "good_spec (other_spec h)"
    "spec_block_size (full_attention_spec h) = bs" "spec_block_size (other_spec h) = bs"
  using hybrid_ids [OF assms(1)] assms(2) nth_mem by metis+

lemma hybrid_spec_list:
  assumes "hybrid_layout ms h"
  defines "fs \<equiv> replicate (length (full_attention_group_ids h)) (full_attention_spec h)"
    and "os \<equiv> replicate (length (other_group_ids h)) (other_spec h)"
  shows "map mgr_spec ms = (if full_attn_first h then fs @ os else os @ fs)"
proof -
  have halves: "map (\<lambda>i. mgr_spec (ms ! i)) (full_attention_group_ids h) = fs" "map (\<lambda>i. mgr_spec (ms ! i)) (other_group_ids h) = os"
    using assms(1) unfolding fs_def os_def by (auto simp: hybrid_layout_def intro!: replicate_eqI)
  have "map mgr_spec ms = map (\<lambda>i. mgr_spec (ms ! i)) [0..<length ms]" by (intro nth_equalityI) simp_all
  also have "[0..<length ms] = (if full_attn_first h then full_attention_group_ids h @ other_group_ids h
      else other_group_ids h @ full_attention_group_ids h)" using assms(1) by (simp add: hybrid_layout_def)
  finally show ?thesis by (cases "full_attn_first h") (simp_all only: halves map_append if_True if_False)
qed

lemma find_hybrid_spec:
  assumes "table_inv p" and "hybrid_layout ms h" and "\<forall>m \<in> set ms. mgr_block_size m = bs \<and> good_spec (mgr_spec m)"
    and "0 \<le> ml" and "nat (ml div bs) \<le> length hs" and "find_hybrid hs ml e p h = Ok (cols, n)"
  shows "\<exists>k. n = int k * bs \<and> n \<le> ml \<and> hits_ok p hs [0..<length ms] k cols \<and> cols_filled p (map mgr_spec ms) k cols"
proof -
  let ?f = "full_attention_group_ids h" and ?o = "other_group_ids h" and ?fs = "full_attention_spec h" and ?os = "other_spec h"
  note sp = hybrid_specs [OF assms(2,3)]
  have bs: "0 < bs" using sp(1,3) by (simp add: good_spec_def)
  have ne: "?f \<noteq> []" "?o \<noteq> []" using assms(2) by (auto simp: hybrid_layout_def)
  obtain hf f0 ho o0 where s: "find_longest_cache_hit hs ml ?f p ?fs e = Ok hf" "py_index hf 0 = Ok f0"
      "find_longest_cache_hit hs (int (length f0) * bs) ?o p ?os e = Ok ho" "py_index ho 0 = Ok o0"
      "n = int (length o0) * bs" "cols = (if full_attn_first h then map (take (nat (n div bs))) hf @ ho else ho @ map (take (nat (n div bs))) hf)"
    using assms(6) by (auto simp: find_hybrid_def Let_def res_simps sp(3,4))
  from lookup.find_contract [OF assms(1) ne(1) sp(1) assms(4) _ s(1)] assms(5) sp(3)
  obtain kf where kf: "hits_ok p hs ?f kf hf" "int kf * bs \<le> ml" "filled p (needed_from ?fs kf) kf hf" by auto
  have f0: "length f0 = kf" using s(2) ne(1) hits_ok_length [OF kf(1)] by (cases hf) (auto simp: py_index_def)
  have "int kf \<le> ml div bs" using kf(2) bs by (simp add: le_div_int_iff)
  then have "kf \<le> nat (ml div bs)" by simp
  then have le: "nat ((int (length f0) * bs) div bs) \<le> length hs" using assms(5) bs f0 by simp
  have ge: "0 \<le> int (length f0) * bs" using bs by simp
  from lookup.find_contract [OF assms(1) ne(2) sp(2) ge _ s(3)] le sp(4)
  obtain ko where ko: "hits_ok p hs ?o ko ho" "int ko * bs \<le> int kf * bs" "filled p (needed_from ?os ko) ko ho" using f0 by auto
  have o0: "length o0 = ko" using s(4) ne(2) hits_ok_length [OF ko(1)] by (cases ho) (auto simp: py_index_def)
  have "ko \<le> kf" using ko(2) bs by simp
  then have hf': "hits_ok p hs ?f ko (map (take ko) hf)" by (rule hits_ok_take [OF kf(1)])
  have n: "nat (n div bs) = ko" using s(5) o0 bs by simp
  have "hits_ok p hs [0..<length ms] ko cols"
    using hits_ok_cat [OF hf' ko(1)] hits_ok_cat [OF ko(1) hf'] assms(2)
    unfolding s(6) n by (auto simp: hybrid_layout_def split: if_splits)
  moreover have "cols_filled p (map mgr_spec ms) ko cols"
  proof -
    have "is_full_attention ?fs" using assms(2) by (simp add: hybrid_layout_def)
    then have "needed_from ?fs i = 0" for i by (cases ?fs) simp_all
    then have "filled p (needed_from ?fs ko) ko (map (take ko) hf)" using filled_take [OF kf(3) \<open>ko \<le> kf\<close>] by simp
    moreover have "length hf = length ?f" "length ho = length ?o"
      using kf(1) ko(1) by (auto simp: hits_ok_def dest: list_all2_lengthD)
    ultimately have "cols_filled p (replicate (length ?f) ?fs) ko (map (take ko) hf)" "cols_filled p (replicate (length ?o) ?os) ko ho"
      using ko(3) by (simp_all add: cols_filled_same)
    then show ?thesis unfolding hybrid_spec_list [OF assms(2)] s(6) n by (simp add: cols_filled_cat)
  qed
  moreover have "n \<le> ml" using s(5) o0 ko(2) kf(2) by simp
  ultimately show ?thesis using s(5) o0 by blast
qed

lemma co_find_spec:
  assumes "co_state c xs" and "co_layout c bs" and "0 \<le> ml" and "nat (ml div bs) \<le> length hs" and "0 < bs"
    and "co_find_longest_cache_hit hs ml c = Ok (cols, n)"
  shows "\<exists>k. n = int k * bs \<and> n \<le> ml \<and> hits_ok (co_pool c) hs [0..<length (co_managers c)] k cols \<and>
    cols_filled (co_pool c) (map mgr_spec (co_managers c)) k cols"
proof -
  have t: "table_inv (co_pool c)" using assms(1) by (simp add: co_state_def mgrs_state_def ledger_def pool_inv_def)
  show ?thesis
  proof (cases "co_kind c")
    case NoPrefixCache
    then have "n = 0" "cols = map (\<lambda>_. []) (co_managers c)" using assms(6) by (auto simp: co_find_longest_cache_hit_def)
    then show ?thesis using assms(3)
      by (intro exI [of _ 0]) (auto simp: hits_ok_def cols_filled_def filled_def list_all2_conv_all_nth)
  next
    case (Unitary spec)
    then have one: "length (co_managers c) = 1" "spec_block_size spec = bs" "good_spec spec" "map mgr_spec (co_managers c) = [spec]"
      using assms(2) by (cases "co_managers c"; auto simp: co_layout_def)+
    obtain h0 where s: "find_longest_cache_hit hs ml [0] (co_pool c) spec (co_use_eagle c) = Ok cols"
        "py_index cols 0 = Ok h0" "n = int (length h0) * bs"
      using assms(6) Unitary one(2) by (auto simp: co_find_longest_cache_hit_def res_simps)
    from lookup.find_contract [OF t _ one(3) assms(3) _ s(1)] assms(4) one(2)
    obtain k where k: "hits_ok (co_pool c) hs [0] k cols" "int k * bs \<le> ml" "filled (co_pool c) (needed_from spec k) k cols" by auto
    then have "length h0 = k" using s(2) hits_ok_length [OF k(1)] by (cases cols) (auto simp: py_index_def hits_ok_def)
    moreover have "cols_filled (co_pool c) [spec] k cols"
      using cols_filled_same [of cols 1 _ spec k] k(1,3) by (auto simp: hits_ok_def dest: list_all2_lengthD)
    ultimately show ?thesis using k s(3) one(1,4) by auto
  next
    case (Hybrid h)
    with assms show ?thesis
      by (intro find_hybrid_spec [OF t]) (auto simp: co_layout_def co_find_longest_cache_hit_def)
  qed
qed

text \<open>Entry by entry: a block with the right hash, or the null block where the attention does not look.\<close>

lemma hits_entries:
  assumes "static_inv p" and "hits_ok p hs [0..<length specs] k cols" and "cols_filled p specs k cols" and "g < length specs"
  shows "length (cols ! g) = k" and "j < k \<Longrightarrow> hit_block p (hs ! j) g (cols ! g ! j) \<or> (cols ! g ! j = null_block p \<and> j < needed_from (specs ! g) k)"
proof -
  have c: "g < length cols" "filled p (needed_from (specs ! g) k) k [cols ! g]"
    using assms(3,4) by (auto simp: cols_filled_def list_all2_conv_all_nth)
  show "length (cols ! g) = k" using assms(2,4) by (simp add: hits_ok_def list_all2_conv_all_nth)
  show "hit_block p (hs ! j) g (cols ! g ! j) \<or> (cols ! g ! j = null_block p \<and> j < needed_from (specs ! g) k)" if "j < k"
  proof -
    have "cols ! g ! j = null_block p \<or> hit_block p (hs ! j) g (cols ! g ! j)"
      using hits_ok_nth [OF assms(2) _ that, of g] assms(4) by auto
    moreover have "real_block p (cols ! g ! j)" if "needed_from (specs ! g) k \<le> j" using c(2) that \<open>j < k\<close> by (simp add: filled_def)
    ultimately show ?thesis using null_not_real [OF assms(1)] by (metis not_le)
  qed
qed

text \<open>No lookup raises, except EAGLE with chunked local attention.\<close>

fun is_chunked :: "kv_cache_spec \<Rightarrow> bool" where
  "is_chunked (ChunkedLocalAttentionSpec _ _) = True"
| "is_chunked _ = False"

lemma find_longest_cache_hit_total:
  assumes "table_inv p" and "gids \<noteq> []" and "good_spec spec" and "0 \<le> ml"
    and "nat (ml div spec_block_size spec) \<le> length hs" and "\<not> (e \<and> is_chunked spec)"
  shows "\<exists>res. find_longest_cache_hit hs ml gids p spec e = Ok res"
proof (cases spec)
  case (FullAttentionSpec a w c)
  show ?thesis
    by (rule find_full_spec [OF assms(1,2) _ assms(4) refl, of "as_block_size a" hs e])
      (use assms(3) FullAttentionSpec in \<open>auto simp: good_spec_def find_longest_cache_hit_def\<close>)
next
  case (SlidingWindowSpec a w)
  show ?thesis
    by (rule find_sliding_spec [OF assms(1,2) _ _ refl, of "as_block_size a" ml hs w e])
      (use assms(3,5) SlidingWindowSpec in \<open>auto simp: good_spec_def find_longest_cache_hit_def\<close>)
next
  case (ChunkedLocalAttentionSpec a c)
  show ?thesis
    by (rule find_chunked_spec [OF assms(1,2) _ _ assms(4) _ refl, of "as_block_size a" c hs])
      (use assms(3,5,6) ChunkedLocalAttentionSpec in \<open>auto simp: good_spec_def find_longest_cache_hit_def\<close>)
qed (simp add: find_longest_cache_hit_def)

lemma first_column: "hits_ok p hs gids k cols \<Longrightarrow> gids \<noteq> [] \<Longrightarrow> \<exists>c0. py_index cols 0 = Ok c0 \<and> length c0 = k"
  by (cases cols; cases gids) (auto simp: py_index_def hits_ok_def)

lemma find_hybrid_total:
  assumes "table_inv p" and "hybrid_layout ms h" and "\<forall>m \<in> set ms. mgr_block_size m = bs \<and> good_spec (mgr_spec m)"
    and "0 \<le> ml" and "nat (ml div bs) \<le> length hs" and "e \<longrightarrow> \<not> is_chunked (full_attention_spec h) \<and> \<not> is_chunked (other_spec h)"
  shows "\<exists>out. find_hybrid hs ml e p h = Ok out"
proof -
  let ?f = "full_attention_group_ids h" and ?o = "other_group_ids h" and ?fs = "full_attention_spec h" and ?os = "other_spec h"
  note sp = hybrid_specs [OF assms(2,3)]
  have bs: "0 < bs" using sp(1,3) by (simp add: good_spec_def)
  have ne: "?f \<noteq> []" "?o \<noteq> []" using assms(2) by (auto simp: hybrid_layout_def)
  have len: "nat (ml div spec_block_size ?fs) \<le> length hs" using assms(5) sp(3) by simp
  obtain hf where hf: "find_longest_cache_hit hs ml ?f p ?fs e = Ok hf"
    using find_longest_cache_hit_total [OF assms(1) ne(1) sp(1) assms(4) len] assms(6) by blast
  from lookup.find_contract [OF assms(1) ne(1) sp(1) assms(4) len hf] sp(3)
  obtain kf where kf: "hits_ok p hs ?f kf hf" "int kf * bs \<le> ml" by auto
  obtain f0 where f0: "py_index hf 0 = Ok f0" "length f0 = kf" using first_column [OF kf(1) ne(1)] by blast
  have "int kf \<le> ml div bs" using kf(2) bs by (simp add: le_div_int_iff)
  then have le: "nat ((int kf * bs) div spec_block_size ?os) \<le> length hs" using assms(5) bs sp(4) by simp
  have ge: "0 \<le> int kf * bs" using bs by simp
  obtain ho where ho: "find_longest_cache_hit hs (int kf * bs) ?o p ?os e = Ok ho"
    using find_longest_cache_hit_total [OF assms(1) ne(2) sp(2) ge le] assms(6) by blast
  from lookup.find_contract [OF assms(1) ne(2) sp(2) ge le ho] obtain ko where ko: "hits_ok p hs ?o ko ho" by blast
  obtain o0 where "py_index ho 0 = Ok o0" using first_column [OF ko ne(2)] by blast
  then show ?thesis using hf f0 ho sp(3,4) by (simp add: find_hybrid_def Let_def)
qed

lemma co_find_total:
  assumes "co_state c xs" and "co_layout c bs" and "0 \<le> ml" and "nat (ml div bs) \<le> length hs"
    and "co_use_eagle c \<longrightarrow> (\<forall>m \<in> set (co_managers c). \<not> is_chunked (mgr_spec m))"
  shows "\<exists>out. co_find_longest_cache_hit hs ml c = Ok out"
proof -
  have t: "table_inv (co_pool c)" using assms(1) by (simp add: co_state_def mgrs_state_def ledger_def pool_inv_def)
  show ?thesis
  proof (cases "co_kind c")
    case NoPrefixCache
    then show ?thesis by (simp add: co_find_longest_cache_hit_def)
  next
    case (Unitary spec)
    then obtain m where one: "co_managers c = [m]" "spec = mgr_spec m" "spec_block_size spec = bs" "good_spec spec"
      using assms(2) by (cases "co_managers c") (auto simp: co_layout_def)
    have len: "nat (ml div spec_block_size spec) \<le> length hs" using assms(4) one(3) by simp
    obtain cols where f: "find_longest_cache_hit hs ml [0] (co_pool c) spec (co_use_eagle c) = Ok cols"
      using find_longest_cache_hit_total [OF t _ one(4) assms(3) len] assms(5) one by auto
    from lookup.find_contract [OF t _ one(4) assms(3) len f] obtain k where "hits_ok (co_pool c) hs [0] k cols" by auto
    then obtain c0 where "py_index cols 0 = Ok c0" using first_column by blast
    then show ?thesis using f Unitary by (simp add: co_find_longest_cache_hit_def)
  next
    case (Hybrid h)
    then have l: "hybrid_layout (co_managers c) h" "\<forall>m \<in> set (co_managers c). mgr_block_size m = bs \<and> good_spec (mgr_spec m)"
      using assms(2) by (auto simp: co_layout_def)
    have "\<exists>m \<in> set (co_managers c). mgr_spec m = full_attention_spec h" "\<exists>m \<in> set (co_managers c). mgr_spec m = other_spec h"
      using hybrid_ids [OF l(1)] nth_mem by blast+
    then have "co_use_eagle c \<longrightarrow> \<not> is_chunked (full_attention_spec h) \<and> \<not> is_chunked (other_spec h)" using assms(5) by metis
    from find_hybrid_total [OF t l assms(3,4) this] show ?thesis using Hybrid by (simp add: co_find_longest_cache_hit_def)
  qed
qed

end
