(* ===== verification/KV_Cache_Manager.thy ===== *)
theory KV_Cache_Manager
  imports KV_Coordinator
begin

text \<open>
  \<open>vllm/v1/core/kv_cache_manager.py\<close>: the interface between the scheduler and the KV
  cache.  The hash function and \<open>NONE_HASH\<close> are parameters; the coordinator is the model
  of the previous theory.  \<open>KVCacheBlocks\<close> is a list of lists of block references.
\<close>

section \<open>State\<close>

record kv_cache_manager =
  km_max_model_len :: int
  km_enable_caching :: bool
  km_use_eagle :: bool
  km_log_stats :: bool
  km_stats :: "prefix_cache_stats option"
  km_block_size :: "int option"
  km_coord :: coordinator
  km_num_groups :: nat
  km_config :: kv_cache_config
  req_to_block_hashes :: "(string, block_hash list) dict"

abbreviation km_pool :: "kv_cache_manager \<Rightarrow> block_pool" where
  "km_pool k \<equiv> co_pool (km_coord k)"

section \<open>The result type of an allocation\<close>

type_synonym kv_cache_blocks = "blk_ref list list"

definition blocks_add :: "kv_cache_blocks \<Rightarrow> kv_cache_blocks \<Rightarrow> kv_cache_blocks" where
  "blocks_add a b = map2 (@) a b"

definition blocks_get_block_ids :: "block_pool \<Rightarrow> kv_cache_blocks \<Rightarrow> int list list" where
  "blocks_get_block_ids p bs = map (map (\<lambda>b. block_id (blk p b))) bs"

definition blocks_get_unhashed_block_ids :: "block_pool \<Rightarrow> kv_cache_blocks \<Rightarrow> int list res" where
  "blocks_get_unhashed_block_ids p bs =
     rbind (py_assert (length bs = 1)) (\<lambda>_.
     Ok (map (\<lambda>b. block_id (blk p b)) (filter (\<lambda>b. blk_hash (blk p b) = None) (hd bs))))"

definition blocks_new_empty :: "kv_cache_blocks \<Rightarrow> kv_cache_blocks" where
  "blocks_new_empty bs = map (\<lambda>_. []) bs"

section \<open>Operations\<close>

definition KVCacheManager_init ::
  "kv_cache_config \<Rightarrow> int \<Rightarrow> bool \<Rightarrow> bool \<Rightarrow> bool \<Rightarrow> bool \<Rightarrow> kv_cache_manager res" where
  "KVCacheManager_init cfg max_len caching0 use_eagle log events =
     (let caching = (if length (kv_cache_groups cfg) = 0 then False else caching0) in
      rbind
        (if caching
         then rbind (py_assert (card (set (map (spec_block_size \<circ> group_spec) (kv_cache_groups cfg))) = 1)) (\<lambda>_.
              rbind (py_index (kv_cache_groups cfg) 0) (\<lambda>g. Ok (Some (spec_block_size (group_spec g)))))
         else Ok None)
        (\<lambda>bs.
      rbind (get_kv_cache_coordinator cfg max_len use_eagle caching events) (\<lambda>c.
      Ok \<lparr>km_max_model_len = max_len, km_enable_caching = caching, km_use_eagle = use_eagle,
          km_log_stats = log, km_stats = (if log then Some PrefixCacheStats_init else None),
          km_block_size = bs, km_coord = c, km_num_groups = length (kv_cache_groups cfg),
          km_config = cfg, req_to_block_hashes = []\<rparr>)))"

definition km_usage :: "kv_cache_manager \<Rightarrow> int \<times> int" where
  "km_usage k = get_usage (km_pool k)"

definition make_prefix_cache_stats :: "kv_cache_manager \<Rightarrow> prefix_cache_stats option \<times> kv_cache_manager" where
  "make_prefix_cache_stats k =
     (if \<not> km_log_stats k then (None, k)
      else (km_stats k, k\<lparr>km_stats := Some PrefixCacheStats_init\<rparr>))"

definition create_empty_block_list :: "kv_cache_manager \<Rightarrow> kv_cache_blocks" where
  "create_empty_block_list k = replicate (km_num_groups k) []"

definition get_computed_blocks ::
  "int \<Rightarrow> hash_fn \<Rightarrow> request \<Rightarrow> kv_cache_manager \<Rightarrow> ((kv_cache_blocks \<times> int) \<times> kv_cache_manager) res" where
  "get_computed_blocks nh hf r k =
     (if \<not> km_enable_caching k \<or> (case sampling r of None \<Rightarrow> False | Some s \<Rightarrow> prompt_logprobs s \<noteq> None)
      then Ok ((create_empty_block_list k, 0), k)
      else
        let (bhs0, d) = ddict_get (request_id r) (req_to_block_hashes k);
            k1 = k\<lparr>req_to_block_hashes := d\<rparr>
        in rbind
             (if bhs0 = []
              then (case km_block_size k1 of
                      None \<Rightarrow> Err AssertionError
                    | Some bs \<Rightarrow>
                        rbind (hash_request_tokens nh hf bs r) (\<lambda>hs.
                        Ok (hs, k1\<lparr>req_to_block_hashes :=
                                  AList.update (request_id r) hs (req_to_block_hashes k1)\<rparr>)))
              else Ok (bhs0, k1))
             (\<lambda>(bhs, k2).
        rbind (co_find_longest_cache_hit bhs (num_tokens r - 1) (km_coord k2)) (\<lambda>(blocks, n).
        if km_log_stats k2
        then (case km_stats k2 of
                None \<Rightarrow> Err AssertionError
              | Some st \<Rightarrow>
                  Ok ((blocks, n), k2\<lparr>km_stats := Some (st\<lparr>st_requests := st_requests st + 1,
                        st_queries := st_queries st + num_tokens r, st_hits := st_hits st + n\<rparr>)\<rparr>))
        else Ok ((blocks, n), k2))))"

text \<open>
  \<open>allocate_slots\<close> in two parts.  The first drops the blocks out of the window, checks
  the free blocks, touches and records the hits and takes new blocks; \<open>None\<close> means that
  there are not enough free blocks.  The second publishes the blocks that are full.
\<close>

definition reserve_slots ::
  "string \<Rightarrow> int \<Rightarrow> int \<Rightarrow> kv_cache_blocks \<Rightarrow> bool \<Rightarrow> coordinator \<Rightarrow> (kv_cache_blocks option \<times> coordinator) res" where
  "reserve_slots rid ncomp0 need_slot ncb caching c =
     rbind (co_remove_skipped_blocks rid ncomp0 c) (\<lambda>c1.
     rbind (co_get_num_blocks_to_allocate rid need_slot ncb c1) (\<lambda>(n, c2).
     if n > get_num_free_blocks (co_pool c2) then Ok (None, c2)
     else
       rbind
         (if caching
          then rbind (touch ncb (co_pool c2)) (\<lambda>p. Ok (c2\<lparr>co_pool := p\<rparr>))
          else rbind (py_assert (\<forall>bs \<in> set ncb. bs = [])) (\<lambda>_. Ok c2))
         (\<lambda>c3.
       rbind (co_save_new_computed_blocks rid ncb c3) (\<lambda>c4.
       rbind (co_allocate_new_blocks rid need_slot c4) (\<lambda>(new_blocks, c5).
       Ok (Some new_blocks, c5))))))"

definition allocate_slots ::
  "int \<Rightarrow> hash_fn \<Rightarrow> request \<Rightarrow> int \<Rightarrow> int \<Rightarrow> kv_cache_blocks option \<Rightarrow> int \<Rightarrow> bool \<Rightarrow> kv_cache_manager
   \<Rightarrow> (kv_cache_blocks option \<times> kv_cache_manager) res" where
  "allocate_slots nh hf r num_new_tokens num_new_computed new_computed lookahead delay k =
     (if num_new_tokens = 0 then Err ValueError
      else
        let ncb = (case new_computed of
                     Some bs \<Rightarrow> bs
                   | None \<Rightarrow> replicate (length (kv_cache_groups (km_config k))) []);
            ncomp = num_computed_tokens r + num_new_computed;
            need_slot = min (ncomp + num_new_tokens + lookahead) (km_max_model_len k)
        in
        rbind (reserve_slots (request_id r) (num_computed_tokens r) need_slot ncb (km_enable_caching k) (km_coord k))
          (\<lambda>(res, c).
        case res of
          None \<Rightarrow> Ok (None, k\<lparr>km_coord := c\<rparr>)
        | Some new_blocks \<Rightarrow>
            (if \<not> km_enable_caching k \<or> delay then Ok (Some new_blocks, k\<lparr>km_coord := c\<rparr>)
             else
               let to_cache = min (ncomp + num_new_tokens) (num_tokens r);
                   (bhs, d) = ddict_get (request_id r) (req_to_block_hashes k)
               in rbind (co_cache_blocks nh hf r bhs to_cache c) (\<lambda>(bhs', c').
                  Ok (Some new_blocks,
                      k\<lparr>km_coord := c',
                        req_to_block_hashes := AList.update (request_id r) bhs' d\<rparr>)))))"

definition km_free :: "request \<Rightarrow> kv_cache_manager \<Rightarrow> kv_cache_manager res" where
  "km_free r k = rbind (co_free (request_id r) (km_coord k)) (\<lambda>c. Ok (k\<lparr>km_coord := c\<rparr>))"

definition km_reset_prefix_cache :: "kv_cache_manager \<Rightarrow> (bool \<times> kv_cache_manager) res" where
  "km_reset_prefix_cache k =
     (let (done, p) = reset_prefix_cache (km_pool k);
          k' = k\<lparr>km_coord := (km_coord k)\<lparr>co_pool := p\<rparr>\<rparr>
      in if \<not> done then Ok (False, k')
         else if km_log_stats k'
         then (case km_stats k' of
                 None \<Rightarrow> Err AssertionError
               | Some st \<Rightarrow> Ok (True, k'\<lparr>km_stats := Some (st\<lparr>st_reset := True\<rparr>)\<rparr>))
         else Ok (True, k'))"

definition km_get_num_common_prefix_blocks ::
  "request \<Rightarrow> int \<Rightarrow> kv_cache_manager \<Rightarrow> (int list \<times> kv_cache_manager) res" where
  "km_get_num_common_prefix_blocks r num_running k =
     rbind (py_assert (status r = RUNNING)) (\<lambda>_.
     rbind (co_get_num_common_prefix_blocks (request_id r) num_running (km_coord k)) (\<lambda>(ns, c).
     Ok (ns, k\<lparr>km_coord := c\<rparr>)))"

definition free_block_hashes :: "request \<Rightarrow> kv_cache_manager \<Rightarrow> kv_cache_manager" where
  "free_block_hashes r k = k\<lparr>req_to_block_hashes := AList.delete (request_id r) (req_to_block_hashes k)\<rparr>"

definition km_take_events :: "kv_cache_manager \<Rightarrow> kv_event list \<times> kv_cache_manager" where
  "km_take_events k =
     (let (es, p) = take_events (km_pool k) in (es, k\<lparr>km_coord := (km_coord k)\<lparr>co_pool := p\<rparr>\<rparr>))"

definition km_get_block_ids :: "string \<Rightarrow> kv_cache_manager \<Rightarrow> int list list" where
  "km_get_block_ids rid k = blocks_get_block_ids (km_pool k) (co_get_blocks rid (km_coord k))"

definition km_cache_blocks ::
  "int \<Rightarrow> hash_fn \<Rightarrow> request \<Rightarrow> int \<Rightarrow> kv_cache_manager \<Rightarrow> kv_cache_manager res" where
  "km_cache_blocks nh hf r ncomp k =
     (if km_enable_caching k
      then let (bhs, d) = ddict_get (request_id r) (req_to_block_hashes k) in
           rbind (co_cache_blocks nh hf r bhs ncomp (km_coord k)) (\<lambda>(bhs', c).
           Ok (k\<lparr>km_coord := c, req_to_block_hashes := AList.update (request_id r) bhs' d\<rparr>))
      else Ok k)"

section \<open>Reserving slots\<close>

text \<open>What the scheduler guarantees when it asks for slots.\<close>

definition hits_usable :: "coordinator \<Rightarrow> string \<Rightarrow> kv_cache_blocks \<Rightarrow> bool" where
  "hits_usable c rid ncb \<longleftrightarrow> length ncb = length (co_managers c) \<and>
     (\<forall>b \<in> set (concat ncb). pool_ref (co_pool c) b) \<and>
     (\<forall>bs \<in> set ncb. distinct (filter (real_block (co_pool c)) bs)) \<and>
     (enable_caching (co_pool c) \<or> (\<forall>bs \<in> set ncb. bs = [])) \<and>
     ((\<forall>j < length ncb. co_cached rid c j = None) \<or>
      (\<forall>j < length ncb. co_cached rid c j \<noteq> None \<and> ncb ! j = []))"

text \<open>No group has blocks to spare while another one misses some.\<close>

definition balanced :: "coordinator \<Rightarrow> string \<Rightarrow> int \<Rightarrow> kv_cache_blocks \<Rightarrow> bool" where
  "balanced c rid ntok ncb \<longleftrightarrow>
     (\<forall>j < length ncb. 0 \<le> group_need rid ntok (ncb ! j) (co_managers c ! j)) \<or>
     (\<forall>j < length ncb. group_need rid ntok (ncb ! j) (co_managers c ! j) \<le> 0)"

fun is_mamba :: "kv_cache_spec \<Rightarrow> bool" where
  "is_mamba (MambaSpec _ _ _ _ _) = True"
| "is_mamba _ = False"

definition mamba_fits :: "coordinator \<Rightarrow> string \<Rightarrow> int \<Rightarrow> kv_cache_blocks \<Rightarrow> bool" where
  "mamba_fits c rid ntok ncb \<longleftrightarrow> (\<forall>j < length ncb. is_mamba (mgr_spec (co_managers c ! j)) \<longrightarrow>
     cdiv ntok (mgr_block_size (co_managers c ! j)) = 1 \<and> length (co_blocks rid c j) + length (ncb ! j) \<le> 1)"

lemma co_save_known:
  assumes "length ncb = length (co_managers c)"
    and "\<forall>j < length ncb. co_cached rid c j \<noteq> None \<and> ncb ! j = []"
  shows "co_save_new_computed_blocks rid ncb c = Ok c"
proof -
  have "each_manager (\<lambda>i a p m. rbind (py_index ncb (int i)) (\<lambda>n.
        rbind (save_new_computed_blocks rid n m) (\<lambda>m'. Ok ((), a, p, m')))) i () p ms
      = Ok (replicate (length ms) (), (), p, ms)"
    if "i + length ms \<le> length ncb" "\<forall>j < length ms. ncb ! (i + j) = [] \<and> map_of (num_cached_block (ms ! j)) rid \<noteq> None"
    for i p ms
    using that
  proof (induction ms arbitrary: i)
    case (Cons m ms)
    have "py_index ncb (int i) = Ok []" "map_of (num_cached_block m) rid \<noteq> None"
      using Cons.prems by (auto simp: py_index_nonneg dest: spec [of _ 0])
    moreover have "\<forall>j < length ms. ncb ! (Suc i + j) = [] \<and> map_of (num_cached_block (ms ! j)) rid \<noteq> None"
      using Cons.prems(2) by force
    moreover have "save_new_computed_blocks rid [] m = Ok m"
      using calculation(2) by (auto simp: save_new_computed_blocks_def)
    ultimately show ?case using Cons.IH [of "Suc i"] Cons.prems(1) by simp
  qed simp
  from this [of 0 "co_managers c" "co_pool c"] assms show ?thesis
    by (simp add: co_save_new_computed_blocks_def coord_run_def)
qed

text \<open>Touching the hits takes at most the evictable ones from the free blocks.\<close>

lemma free_after_touch:
  assumes "pool_inv p xs" and "\<forall>b \<in> set (concat ncb). pool_ref p b"
  shows "int (length xs) - (\<Sum>j < length ncb. evictable p (ncb ! j)) \<le>
    int (length (filter (\<lambda>x. x \<notin> set (concat ncb)) xs))"
proof -
  note inv = pool_inv_free [OF assms(1)]
  let ?P = "\<lambda>b. ref_cnt (blk p b) = 0 \<and> \<not> is_null (blk p b)"
  have in_xs: "x \<in> set xs \<Longrightarrow> ?P x" for x
    using inv(1) inv(5) [of x] by (auto simp: static_inv_def)
  have "set (filter (\<lambda>x. x \<in> set (concat ncb)) xs) \<subseteq> set (filter ?P (concat ncb))" using in_xs by auto
  then have "card (set (filter (\<lambda>x. x \<in> set (concat ncb)) xs)) \<le> card (set (filter ?P (concat ncb)))"
    by (intro card_mono) simp_all
  also have "\<dots> \<le> length (filter ?P (concat ncb))" by (rule card_length)
  finally have le: "length (filter (\<lambda>x. x \<in> set (concat ncb)) xs) \<le> length (filter ?P (concat ncb))"
    using inv(4) by (metis distinct_card distinct_filter)
  have "int (length (filter ?P (concat ncb))) = sum_list (map (evictable p) ncb)"
    by (induction ncb) (simp_all add: evictable_def)
  also have "\<dots> = (\<Sum>j < length ncb. evictable p (ncb ! j))" by (simp add: sum_list_sum_nth atLeast0LessThan)
  finally have "int (length (filter (\<lambda>x. x \<in> set (concat ncb)) xs)) \<le> (\<Sum>j < length ncb. evictable p (ncb ! j))"
    using le by simp
  moreover have "length (filter (\<lambda>x. x \<in> set (concat ncb)) xs) + length (filter (\<lambda>x. x \<notin> set (concat ncb)) xs) = length xs"
    by (rule sum_length_filter_compl)
  ultimately show ?thesis by linarith
qed

text \<open>Recording the touched hits, in both cases.\<close>

lemma record_hits_spec:
  assumes "co_state c xs" and "hits_usable c rid ncb"
    and "touched = (if enable_caching (co_pool c) then rbind (touch ncb (co_pool c)) (\<lambda>p. Ok (c\<lparr>co_pool := p\<rparr>))
           else rbind (py_assert (\<forall>bs \<in> set ncb. bs = [])) (\<lambda>_. Ok c))"
  obtains c3 c4 ys where "touched = Ok c3" and "co_save_new_computed_blocks rid ncb c3 = Ok c4"
    and "co_state c4 ys" and "same_coord c c4" and "same_hashes (co_pool c) (co_pool c4)"
    and "int (length xs) - (\<Sum>j < length ncb. evictable (co_pool c) (ncb ! j)) \<le> int (length ys)"
    and "\<forall>j < length ncb. \<forall>rid'. co_blocks rid' c4 j = (if rid' = rid then co_blocks rid c j @ ncb ! j else co_blocks rid' c j) \<and>
           co_cached rid' c4 j = (if rid' = rid \<and> co_cached rid c j = None then Some (int (length (ncb ! j))) else co_cached rid' c j)"
proof -
  let ?p = "co_pool c" and ?ms = "co_managers c"
  have l: "ledger ?p xs (helds ?p ?ms)" and ok: "\<forall>m \<in> set ?ms. mgr_ok ?p m"
    using assms(1) by (auto simp: co_state_def mgrs_state_def)
  have inv: "pool_inv ?p xs" using l by (simp add: ledger_def)
  have u: "length ncb = length ?ms" "\<forall>b \<in> set (concat ncb). pool_ref ?p b"
      "\<forall>bs \<in> set ncb. distinct (filter (real_block ?p) bs)"
      "enable_caching ?p \<or> (\<forall>bs \<in> set ncb. bs = [])"
    using assms(2) by (auto simp: hits_usable_def)
  have "\<exists>q. touch ncb ?p = Ok q" by (rule touch_spec [OF inv u(2)]) blast
  then obtain q where q: "touch ncb ?p = Ok q" ..
  note t = ledger_share [OF l u(2) q]
  have empty: "concat ncb = []" if "\<not> enable_caching ?p" using u(4) that by simp
  define p' where "p' = (if enable_caching ?p then q else ?p)"
  define c3 where "c3 = c\<lparr>co_pool := p'\<rparr>"
  have touched: "touched = Ok c3" using q u(4) by (cases c) (auto simp: assms(3) c3_def p'_def)
  have sh: "same_hashes ?p p'" using t(2) by (simp add: p'_def)
  note sp = same_hashes_pool [OF sh]
  let ?ys = "filter (\<lambda>x. x \<notin> set (concat ncb)) xs"
  have l3: "ledger p' ?ys (helds p' ?ms + mset (filter (real_block p') (concat ncb)))"
  proof (cases "enable_caching ?p")
    case True
    then show ?thesis using t(1) same_pool_real_fun [OF sp] same_pool_helds [OF sp] by (simp add: p'_def)
  next
    case False
    then show ?thesis using l unfolding empty [OF False] by (simp add: p'_def)
  qed
  have st3: "mgrs_state p' ?ys (mset (filter (real_block p') (concat ncb))) ?ms"
    using l3 ok same_pool_mgr_ok [OF sp] by (auto simp: mgrs_state_def ac_simps)
  have free: "int (length xs) - (\<Sum>j < length ncb. evictable ?p (ncb ! j)) \<le> int (length ?ys)"
    by (rule free_after_touch [OF inv u(2)])
  consider (new) "\<forall>j < length ncb. co_cached rid c j = None" | (known) "\<forall>j < length ncb. co_cached rid c j \<noteq> None \<and> ncb ! j = []"
    using assms(2) by (auto simp: hits_usable_def)
  then show thesis
  proof cases
    case new
    obtain c4 where c4: "co_save_new_computed_blocks rid ncb c3 = Ok c4" "co_state c4 ?ys" "same_coord c3 c4"
        "co_pool c4 = co_pool c3"
        "\<forall>j < length (co_managers c3). \<forall>rid'. co_blocks rid' c4 j = (if rid' = rid then ncb ! j else co_blocks rid' c3 j) \<and>
           co_cached rid' c4 j = (if rid' = rid then Some (int (length (ncb ! j))) else co_cached rid' c3 j)"
      by (rule co_save_new_computed_blocks_spec [of c3 ?ys ncb rid])
        (use st3 u new same_pool_real_fun [OF sp] same_pool_ref [OF sp] in \<open>auto simp: c3_def\<close>)
    have "co_blocks rid c j = []" if "j < length ncb" for j
      using ok new that u(1) mgr_okD(6) nth_mem by metis
    then show thesis using that [OF touched c4(1,2)] c4 new sh sp free u(1)
      by (auto simp: c3_def same_coord_def same_pool_def)
  next
    case known
    have "co_save_new_computed_blocks rid ncb c3 = Ok c3"
      using known u(1) by (intro co_save_known) (auto simp: c3_def)
    moreover have none: "concat ncb = []" using known by (auto simp: in_set_conv_nth)
    have "co_state c3 ?ys" using st3 unfolding none by (simp add: co_state_def c3_def)
    ultimately show thesis using known sh sp
      by (intro that [OF touched _ _ _ _ free]) (auto simp: c3_def same_coord_def same_mgr_def)
  qed
qed

text \<open>Taking the blocks once the check has passed.\<close>

lemma take_blocks_spec:
  assumes "co_state c xs" and "hits_usable c rid ncb" and "balanced c rid ntok ncb" and "mamba_fits c rid ntok ncb"
    and "touched = (if enable_caching (co_pool c) then rbind (touch ncb (co_pool c)) (\<lambda>p. Ok (c\<lparr>co_pool := p\<rparr>))
           else rbind (py_assert (\<forall>bs \<in> set ncb. bs = [])) (\<lambda>_. Ok c))"
    and "(\<Sum>j < length ncb. group_need rid ntok (ncb ! j) (co_managers c ! j) + evictable (co_pool c) (ncb ! j)) \<le> int (length xs)"
  obtains c3 c4 news c5 ys where "touched = Ok c3" and "co_save_new_computed_blocks rid ncb c3 = Ok c4"
    and "co_allocate_new_blocks rid ntok c4 = Ok (news, c5)" and "co_state c5 ys" and "same_coord c c5"
    and "length news = length ncb"
    and "\<forall>j < length ncb. int (length (co_blocks rid c5 j)) =
           max (cdiv ntok (mgr_block_size (co_managers c ! j))) (int (length (co_blocks rid c j) + length (ncb ! j)))"
    and "\<forall>j < length ncb. \<forall>rid'. (rid' \<noteq> rid \<longrightarrow> co_blocks rid' c5 j = co_blocks rid' c j) \<and>
           co_cached rid' c5 j = (if rid' = rid \<and> co_cached rid c j = None then Some (int (length (ncb ! j))) else co_cached rid' c j)"
proof -
  have len: "length ncb = length (co_managers c)" using assms(2) by (simp add: hits_usable_def)
  obtain c3 c4 ys where c4: "touched = Ok c3" "co_save_new_computed_blocks rid ncb c3 = Ok c4" "co_state c4 ys" "same_coord c c4"
      "int (length xs) - (\<Sum>j < length ncb. evictable (co_pool c) (ncb ! j)) \<le> int (length ys)"
      "\<forall>j < length ncb. \<forall>rid'. co_blocks rid' c4 j = (if rid' = rid then co_blocks rid c j @ ncb ! j else co_blocks rid' c j) \<and>
           co_cached rid' c4 j = (if rid' = rid \<and> co_cached rid c j = None then Some (int (length (ncb ! j))) else co_cached rid' c j)"
    by (rule record_hits_spec [OF assms(1,2,5)])
  have len4: "length ncb = length (co_managers c4)" using c4(4) len by (simp add: same_coord_def)
  have spec4: "mgr_spec (co_managers c4 ! j) = mgr_spec (co_managers c ! j)" if "j < length ncb" for j
    using c4(4) that len by (simp add: same_coord_def same_mgr_def)
  have need4: "group_need rid ntok [] (co_managers c4 ! j) = group_need rid ntok (ncb ! j) (co_managers c ! j)"
    if "j < length ncb" for j
    using that spec4 [OF that] c4(6) by (simp add: group_need_def)
  have fits: "(\<Sum>j < length (co_managers c4). max 0 (group_need rid ntok [] (co_managers c4 ! j))) \<le> int (length ys)"
  proof (cases "\<forall>j < length ncb. 0 \<le> group_need rid ntok (ncb ! j) (co_managers c ! j)")
    case True
    then have "(\<Sum>j < length ncb. max 0 (group_need rid ntok [] (co_managers c4 ! j))) =
        (\<Sum>j < length ncb. group_need rid ntok (ncb ! j) (co_managers c ! j))"
      by (intro sum.cong) (auto simp: need4)
    then show ?thesis using assms(6) c4(5) len4 by (simp add: sum.distrib)
  next
    case False
    then have "\<forall>j < length ncb. group_need rid ntok (ncb ! j) (co_managers c ! j) \<le> 0"
      using assms(3) by (auto simp: balanced_def)
    then have "(\<Sum>j < length ncb. max 0 (group_need rid ntok [] (co_managers c4 ! j))) = 0"
      by (intro sum.neutral) (auto simp: need4)
    then show ?thesis using len4 by simp
  qed
  have "alloc_ok rid ntok (co_managers c4 ! j)" if "j < length ncb" for j
    using that c4(6) spec4 [OF that] assms(4)
    by (cases "co_cached rid c j") (auto simp: alloc_ok_def mamba_fits_def split: kv_cache_spec.splits)
  then have al: "\<forall>m \<in> set (co_managers c4). alloc_ok rid ntok m" using len4 by (metis in_set_conv_nth)
  obtain news c5 zs where c5: "co_allocate_new_blocks rid ntok c4 = Ok (news, c5)" "co_state c5 zs" "same_coord c4 c5"
      "length news = length (co_managers c4)"
      "\<forall>j < length (co_managers c4). \<forall>rid'. co_blocks rid' c5 j = (if rid' = rid then co_blocks rid c4 j @ news ! j else co_blocks rid' c4 j) \<and>
         co_cached rid' c5 j = co_cached rid' c4 j \<and>
         int (length (news ! j)) = max 0 (group_need rid ntok [] (co_managers c4 ! j))"
    by (rule co_allocate_new_blocks_spec [OF c4(3) al fits])
  have "int (length (co_blocks rid c5 j)) = max (cdiv ntok (mgr_block_size (co_managers c ! j))) (int (length (co_blocks rid c j) + length (ncb ! j)))"
    if "j < length ncb" for j
    using c5(5) c4(6) need4 [OF that] that len4 by (auto simp: group_need_def)
  then show thesis using c5 c4 len4 same_coord_trans [OF c4(4) c5(3)]
    by (intro that [of c3 c4 news c5 zs]) simp_all
qed

text \<open>
  Reserving slots never raises.  It refuses exactly when the missing blocks and the hits
  that are still free outnumber the free blocks; otherwise every group of the request has
  blocks for all tokens that need a slot.
\<close>

lemma reserve_slots_spec:
  assumes "co_state c xs" and "hits_usable c rid ncb" and "balanced c rid ntok ncb" and "mamba_fits c rid ntok ncb"
    and "\<forall>m \<in> set (co_managers c). skip_ok (enable_caching (co_pool c)) rid ncomp m"
    and "caching = enable_caching (co_pool c)"
  obtains res c' ys where "reserve_slots rid ncomp ntok ncb caching c = Ok (res, c')" and "co_state c' ys"
    and "same_coord c c'"
    and "\<forall>j < length ncb. \<forall>rid'. (rid' \<noteq> rid \<longrightarrow> co_blocks rid' c' j = co_blocks rid' c j) \<and>
           co_cached rid' c' j = (if rid' = rid \<and> res \<noteq> None \<and> co_cached rid c j = None then Some (int (length (ncb ! j))) else co_cached rid' c j)"
    and "res = None \<longrightarrow> (\<forall>j < length ncb. length (co_blocks rid c' j) = length (co_blocks rid c j)) \<and>
           int (length ys) < (\<Sum>j < length ncb. group_need rid ntok (ncb ! j) (co_managers c ! j) + evictable (co_pool c') (ncb ! j))"
    and "\<forall>news. res = Some news \<longrightarrow> length news = length ncb \<and> (\<forall>j < length ncb. int (length (co_blocks rid c' j)) =
           max (cdiv ntok (mgr_block_size (co_managers c ! j))) (int (length (co_blocks rid c j) + length (ncb ! j))))"
proof -
  have len: "length ncb = length (co_managers c)" using assms(2) by (simp add: hits_usable_def)
  obtain c1 xs1 where c1: "co_remove_skipped_blocks rid ncomp c = Ok c1" "co_state c1 xs1" "same_coord c c1"
      "\<forall>j < length (co_managers c). \<forall>rid'. length (co_blocks rid' c1 j) = length (co_blocks rid' c j) \<and>
           co_cached rid' c1 j = co_cached rid' c j \<and> (rid' \<noteq> rid \<longrightarrow> co_blocks rid' c1 j = co_blocks rid' c j)"
    by (rule co_remove_skipped_blocks_spec [OF assms(1,5)])
  have len1: "length ncb = length (co_managers c1)" using len c1(3) by (simp add: same_coord_def)
  let ?need = "\<lambda>c. \<Sum>j < length ncb. group_need rid ntok (ncb ! j) (co_managers c ! j) + evictable (co_pool c1) (ncb ! j)"
  obtain c2 where c2: "co_get_num_blocks_to_allocate rid ntok ncb c1 = Ok (?need c1, c2)" "co_state c2 xs1" "same_coord c1 c2"
      "co_pool c2 = co_pool c1"
      "\<forall>j < length ncb. \<forall>rid'. co_blocks rid' c2 j = co_blocks rid' c1 j \<and> co_cached rid' c2 j = co_cached rid' c1 j"
    by (rule co_get_num_blocks_spec [OF c1(2) len1, of rid ntok, folded len1])
  have sc: "same_coord c c2" using c1(3) c2(3) by (rule same_coord_trans)
  have bl: "length (co_blocks rid' c2 j) = length (co_blocks rid' c j) \<and> co_cached rid' c2 j = co_cached rid' c j \<and>
      (rid' \<noteq> rid \<longrightarrow> co_blocks rid' c2 j = co_blocks rid' c j)" if "j < length ncb" for j rid'
    using c1(4) c2(5) len that by auto
  have spec: "mgr_spec (co_managers c2 ! j) = mgr_spec (co_managers c ! j) \<and> mgr_spec (co_managers c1 ! j) = mgr_spec (co_managers c ! j)"
    if "j < length ncb" for j
    using sc c1(3) len that by (simp add: same_coord_def same_mgr_def)
  have gn: "group_need rid ntok bs (co_managers c2 ! j) = group_need rid ntok bs (co_managers c ! j) \<and>
      group_need rid ntok bs (co_managers c1 ! j) = group_need rid ntok bs (co_managers c ! j)" if "j < length ncb" for j bs
    using that spec [OF that] bl [OF that] c1(4) len by (simp add: group_need_def)
  have need: "?need c1 = ?need c" "?need c1 = ?need c2" by (rule sum.cong, simp, simp add: gn)+
  have inv: "pool_inv (co_pool c2) xs1" using c2(2) by (simp add: co_state_def mgrs_state_def ledger_def)
  note free = pool_inv_num_free [OF inv]
  show thesis
  proof (cases "?need c1 > get_num_free_blocks (co_pool c2)")
    case True
    moreover have "reserve_slots rid ncomp ntok ncb caching c = Ok (None, c2)"
      using True c1(1) c2(1) by (simp add: reserve_slots_def)
    ultimately show thesis using c2(2,4) sc bl free need(1) by (intro that [of None c2 xs1]) simp_all
  next
    case False
    have sp: "same_pool (co_pool c) (co_pool c2)" using sc by (simp add: same_coord_def)
    have u2: "hits_usable c2 rid ncb"
      using assms(2) len len1 sc bl same_pool_ref [OF sp] same_pool_real_fun [OF sp] sp
      unfolding hits_usable_def by (simp add: same_coord_def same_pool_def)
    have b2: "balanced c2 rid ntok ncb" using assms(3) gn by (auto simp: balanced_def)
    have m2: "mamba_fits c2 rid ntok ncb"
      using assms(4) spec bl by (simp add: mamba_fits_def)
    have fit: "(\<Sum>j < length ncb. group_need rid ntok (ncb ! j) (co_managers c2 ! j) + evictable (co_pool c2) (ncb ! j)) \<le> int (length xs1)"
      using False need(2) free by (simp add: c2(4))
    have ca: "caching = enable_caching (co_pool c2)" using assms(6) sp by (simp add: same_pool_def)
    obtain c3 c4 news c5 ys where t: "(if enable_caching (co_pool c2) then rbind (touch ncb (co_pool c2)) (\<lambda>p. Ok (c2\<lparr>co_pool := p\<rparr>))
           else rbind (py_assert (\<forall>bs \<in> set ncb. bs = [])) (\<lambda>_. Ok c2)) = Ok c3" "co_save_new_computed_blocks rid ncb c3 = Ok c4"
      "co_allocate_new_blocks rid ntok c4 = Ok (news, c5)" "co_state c5 ys" "same_coord c2 c5" "length news = length ncb"
      "\<forall>j < length ncb. int (length (co_blocks rid c5 j)) =
           max (cdiv ntok (mgr_block_size (co_managers c2 ! j))) (int (length (co_blocks rid c2 j) + length (ncb ! j)))"
      "\<forall>j < length ncb. \<forall>rid'. (rid' \<noteq> rid \<longrightarrow> co_blocks rid' c5 j = co_blocks rid' c2 j) \<and>
           co_cached rid' c5 j = (if rid' = rid \<and> co_cached rid c2 j = None then Some (int (length (ncb ! j))) else co_cached rid' c2 j)"
      by (rule take_blocks_spec [OF c2(2) u2 b2 m2 refl fit])
    have "reserve_slots rid ncomp ntok ncb caching c = Ok (Some news, c5)"
      using False c1(1) c2(1) t(1-3) by (simp add: reserve_slots_def ca)
    then show thesis using t(4,6-8) bl spec same_coord_trans [OF sc t(5)]
      by (intro that [of "Some news" c5 ys]) simp_all
  qed
qed

section \<open>The invariant of the manager\<close>

definition km_state :: "kv_cache_manager \<Rightarrow> blk_ref list \<Rightarrow> bool" where
  "km_state k xs \<longleftrightarrow> co_state (km_coord k) xs \<and> km_enable_caching k = enable_caching (km_pool k) \<and>
     length (co_managers (km_coord k)) = length (kv_cache_groups (km_config k)) \<and>
     (\<forall>m \<in> set (co_managers (km_coord k)). good_spec (mgr_spec m)) \<and>
     (km_log_stats k \<longrightarrow> km_stats k \<noteq> None)"

text \<open>\<open>k'\<close> is \<open>k\<close> with another coordinator, other statistics and other hash lists.\<close>

definition same_km :: "kv_cache_manager \<Rightarrow> kv_cache_manager \<Rightarrow> bool" where
  "same_km k k' \<longleftrightarrow> k' = k\<lparr>km_coord := km_coord k', km_stats := km_stats k', req_to_block_hashes := req_to_block_hashes k'\<rparr> \<and>
     same_coord (km_coord k) (km_coord k') \<and> (km_stats k \<noteq> None \<longrightarrow> km_stats k' \<noteq> None)"

lemma same_coord_refl [simp]: "same_coord c c"
  by (cases c) (simp add: same_coord_def same_mgr_def)

lemma same_km_trans: "same_km k k' \<Longrightarrow> same_km k' k'' \<Longrightarrow> same_km k k''"
  unfolding same_km_def using same_coord_trans by (cases k; cases k'; cases k'') auto

lemma km_state_move:
  assumes "km_state k xs" and "same_km k k'" and "co_state (km_coord k') ys"
  shows "km_state k' ys"
proof -
  let ?c = "km_coord k" and ?c' = "km_coord k'"
  have s: "length (co_managers ?c') = length (co_managers ?c)" "same_pool (co_pool ?c) (co_pool ?c')"
      "\<And>j. j < length (co_managers ?c) \<Longrightarrow> mgr_spec (co_managers ?c' ! j) = mgr_spec (co_managers ?c ! j)"
    using assms(2) by (auto simp: same_km_def same_coord_def same_mgr_def)
  have "\<forall>m \<in> set (co_managers ?c'). good_spec (mgr_spec m)"
    using assms(1) s(1,3) by (metis in_set_conv_nth km_state_def)
  moreover have "km_enable_caching k' = km_enable_caching k" "km_config k' = km_config k" "km_log_stats k' = km_log_stats k"
    using assms(2) by (cases k; cases k'; simp add: same_km_def)+
  ultimately show ?thesis using assms s(1,2) by (auto simp: km_state_def same_km_def same_pool_def)
qed

lemma km_state_pool:
  assumes "km_state k xs"
  shows "ledger (km_pool k) xs (helds (km_pool k) (co_managers (km_coord k)))" and "pool_inv (km_pool k) xs"
  using assms by (auto simp: km_state_def co_state_def mgrs_state_def ledger_def)

subsection \<open>Construction\<close>

lemma held_new [simp]: "held p (get_manager_for_kv_cache_spec s i) = {#}"
  by (simp add: held_def get_manager_for_kv_cache_spec_def dict_mset_def)

lemma helds_new [simp]: "helds p (make_managers cfg) = {#}"
proof -
  have "\<forall>m \<in> set (make_managers cfg). held p m = {#}" by (auto simp: make_managers_def)
  moreover have "\<forall>m \<in> set ms. held p m = {#} \<Longrightarrow> helds p ms = {#}" for ms by (induction ms) simp_all
  ultimately show ?thesis by blast
qed

lemma make_managers_spec:
  assumes "m \<in> set (make_managers cfg)"
  obtains g i where "g \<in> set (kv_cache_groups cfg)" and "m = get_manager_for_kv_cache_spec (group_spec g) i"
  using assms by (auto simp: make_managers_def dest: set_zip_rightD)

lemma KVCacheCoordinator_init_state:
  assumes "KVCacheCoordinator_init cfg ml ue caching ev kind = Ok c"
    and "\<forall>g \<in> set (kv_cache_groups cfg). good_spec (group_spec g)"
  shows "\<exists>xs. co_state c xs" and "enable_caching (co_pool c) = caching" and "co_managers c = make_managers cfg"
    and "co_kind c = kind" and "num_gpu_blocks (co_pool c) = cc_num_blocks cfg" and "co_use_eagle c = ue"
proof -
  obtain p where p: "BlockPool_init (cc_num_blocks cfg) caching ev = Ok p" "co_pool c = p"
    using assms(1) by (auto simp: KVCacheCoordinator_init_def res_simps)
  then have n: "0 < cc_num_blocks cfg" by (simp add: BlockPool_init_def res_simps)
  obtain xs where l: "ledger p xs {#}" using pool_reach_ledger [OF pool_reach.start [OF p(1)]] by blast
  show man: "co_managers c = make_managers cfg" "co_kind c = kind" "co_use_eagle c = ue"
    using assms(1) by (auto simp: KVCacheCoordinator_init_def res_simps)
  have "mgr_ok p m" if m: "m \<in> set (make_managers cfg)" for m
    by (rule make_managers_spec [OF m])
      (use assms(2) in \<open>auto simp: mgr_ok_def get_manager_for_kv_cache_spec_def good_spec_def list_of_def\<close>)
  then show "\<exists>xs. co_state c xs" using l p(2) man by (auto simp: co_state_def mgrs_state_def)
  obtain q where q: "BlockPool_init (cc_num_blocks cfg) caching ev = Ok q" "num_gpu_blocks q = cc_num_blocks cfg" "enable_caching q = caching"
    by (rule BlockPool_init_spec [OF n])
  then show "enable_caching (co_pool c) = caching" "num_gpu_blocks (co_pool c) = cc_num_blocks cfg" using p by auto
qed

lemma get_kv_cache_coordinator_state:
  assumes "get_kv_cache_coordinator cfg ml ue caching ev = Ok c"
    and "\<forall>g \<in> set (kv_cache_groups cfg). good_spec (group_spec g)"
  shows "\<exists>xs. co_state c xs" and "enable_caching (co_pool c) = caching" and "co_managers c = make_managers cfg"
    and "num_gpu_blocks (co_pool c) = cc_num_blocks cfg"
proof -
  obtain c0 kind kind' where "KVCacheCoordinator_init cfg ml ue caching ev kind = Ok c0" "c = c0\<lparr>co_kind := kind'\<rparr>"
    using assms(1) by (auto simp: get_kv_cache_coordinator_def res_simps KVCacheCoordinator_init_def split: if_splits)
  with KVCacheCoordinator_init_state [OF this(1) assms(2)]
  show "\<exists>xs. co_state c xs" "enable_caching (co_pool c) = caching" "co_managers c = make_managers cfg"
    "num_gpu_blocks (co_pool c) = cc_num_blocks cfg" by (auto simp: co_state_def)
qed

lemma KVCacheManager_init_state:
  assumes "KVCacheManager_init cfg ml caching ue lg ev = Ok k"
    and "\<forall>g \<in> set (kv_cache_groups cfg). good_spec (group_spec g)"
  shows "\<exists>xs. km_state k xs" and "num_gpu_blocks (km_pool k) = cc_num_blocks cfg"
proof -
  let ?c = "if length (kv_cache_groups cfg) = 0 then False else caching"
  obtain c where c: "get_kv_cache_coordinator cfg ml ue ?c ev = Ok c" "km_coord k = c" "km_enable_caching k = ?c"
      "km_config k = cfg" "km_log_stats k = lg" "km_stats k = (if lg then Some PrefixCacheStats_init else None)"
    using assms(1) by (auto simp: KVCacheManager_init_def Let_def res_simps split: if_splits)
  note s = get_kv_cache_coordinator_state [OF c(1) assms(2)]
  have "\<forall>m \<in> set (co_managers c). good_spec (mgr_spec m)"
    using assms(2) unfolding s(3) by (auto elim!: make_managers_spec simp: get_manager_for_kv_cache_spec_def)
  moreover have "length (co_managers c) = length (kv_cache_groups cfg)" by (simp add: s(3) make_managers_def)
  ultimately show "\<exists>xs. km_state k xs" "num_gpu_blocks (km_pool k) = cc_num_blocks cfg"
    using s c unfolding km_state_def by auto
qed

subsection \<open>Allocation\<close>

definition slots_needed :: "request \<Rightarrow> int \<Rightarrow> int \<Rightarrow> int \<Rightarrow> kv_cache_manager \<Rightarrow> int" where
  "slots_needed r nnew nhit look k = min (num_computed_tokens r + nhit + nnew + look) (km_max_model_len k)"

definition tokens_to_cache :: "request \<Rightarrow> int \<Rightarrow> int \<Rightarrow> int" where
  "tokens_to_cache r nnew nhit = min (num_computed_tokens r + nhit + nnew) (num_tokens r)"

text \<open>What the scheduler guarantees when it asks for slots; \<open>ncb\<close> are the hits of a new request.\<close>

definition slots_asked :: "request \<Rightarrow> int \<Rightarrow> int \<Rightarrow> kv_cache_blocks \<Rightarrow> int \<Rightarrow> kv_cache_manager \<Rightarrow> bool" where
  "slots_asked r nnew nhit ncb look k \<longleftrightarrow> nnew \<noteq> 0 \<and>
     hits_usable (km_coord k) (request_id r) ncb \<and>
     balanced (km_coord k) (request_id r) (slots_needed r nnew nhit look k) ncb \<and>
     mamba_fits (km_coord k) (request_id r) (slots_needed r nnew nhit look k) ncb \<and>
     (\<forall>m \<in> set (co_managers (km_coord k)). skip_ok (km_enable_caching k) (request_id r) (num_computed_tokens r) m) \<and>
     (\<forall>j < length ncb. (case co_cached (request_id r) (km_coord k) j of None \<Rightarrow> int (length (ncb ! j)) | Some n \<Rightarrow> n) \<le>
        tokens_to_cache r nnew nhit div mgr_block_size (co_managers (km_coord k) ! j))"

abbreviation km_blocks :: "string \<Rightarrow> kv_cache_manager \<Rightarrow> nat \<Rightarrow> blk_ref list" where
  "km_blocks rid k j \<equiv> co_blocks rid (km_coord k) j"

definition hits_given :: "kv_cache_blocks option \<Rightarrow> kv_cache_manager \<Rightarrow> kv_cache_blocks" where
  "hits_given ncb k = (case ncb of Some bs \<Rightarrow> bs | None \<Rightarrow> replicate (length (kv_cache_groups (km_config k))) [])"

text \<open>The blocks that the check compares with the free ones.\<close>

definition blocks_missing :: "string \<Rightarrow> int \<Rightarrow> kv_cache_blocks \<Rightarrow> kv_cache_manager \<Rightarrow> block_pool \<Rightarrow> int" where
  "blocks_missing rid ntok ncb k p =
     (\<Sum>j < length ncb. group_need rid ntok (ncb ! j) (co_managers (km_coord k) ! j) + evictable p (ncb ! j))"

lemma allocate_slots_eq:
  assumes "nnew \<noteq> 0"
    and "reserve_slots (request_id r) (num_computed_tokens r) (slots_needed r nnew nhit look k) (hits_given nc k)
           (km_enable_caching k) (km_coord k) = Ok (res, c)"
  shows "allocate_slots nh hf r nnew nhit nc look delay k =
    (if res = None \<or> \<not> km_enable_caching k \<or> delay then Ok (res, k\<lparr>km_coord := c\<rparr>)
     else rbind (co_cache_blocks nh hf r (list_of (request_id r) (req_to_block_hashes k)) (tokens_to_cache r nnew nhit) c)
            (\<lambda>(bhs', c'). Ok (res, k\<lparr>km_coord := c', req_to_block_hashes :=
               AList.update (request_id r) bhs' (snd (ddict_get (request_id r) (req_to_block_hashes k)))\<rparr>)))"
  using assms by (cases res) (simp_all add: allocate_slots_def Let_def slots_needed_def hits_given_def
      tokens_to_cache_def split_beta)

text \<open>
  The contract of an allocation: the invariant and the blocks of other requests stay; it
  refuses exactly when the missing blocks outnumber the free ones; otherwise every group has
  the blocks for all slots.  Publishing the full blocks changes none of that.
\<close>

definition allocation_done ::
  "request \<Rightarrow> int \<Rightarrow> kv_cache_blocks \<Rightarrow> kv_cache_manager \<Rightarrow> kv_cache_blocks option \<Rightarrow> kv_cache_manager \<Rightarrow> bool" where
  "allocation_done r ntok ncb k res k' \<longleftrightarrow> same_km k k' \<and>
     (\<forall>j < length ncb. \<forall>rid'. rid' \<noteq> request_id r \<longrightarrow> km_blocks rid' k' j = km_blocks rid' k j) \<and>
     (case res of
        None \<Rightarrow> get_num_free_blocks (km_pool k') < blocks_missing (request_id r) ntok ncb k (km_pool k') \<and>
          (\<forall>j < length ncb. length (km_blocks (request_id r) k' j) = length (km_blocks (request_id r) k j))
      | Some news \<Rightarrow> length news = length ncb \<and>
          (\<forall>j < length ncb. int (length (km_blocks (request_id r) k' j)) =
             max (cdiv ntok (mgr_block_size (co_managers (km_coord k) ! j)))
                 (int (length (km_blocks (request_id r) k j) + length (ncb ! j)))))"

lemma reserve_slots_done:
  assumes "km_state k xs" and "slots_asked r nnew nhit ncb look k"
  obtains res c ys where "reserve_slots (request_id r) (num_computed_tokens r) (slots_needed r nnew nhit look k) ncb
        (km_enable_caching k) (km_coord k) = Ok (res, c)"
    and "co_state c ys" and "allocation_done r (slots_needed r nnew nhit look k) ncb k res (k\<lparr>km_coord := c\<rparr>)"
    and "res \<noteq> None \<longrightarrow> (\<forall>m \<in> set (co_managers c). \<forall>n. map_of (num_cached_block m) (request_id r) = Some n \<longrightarrow>
           n \<le> tokens_to_cache r nnew nhit div mgr_block_size m)"
proof -
  let ?c = "km_coord k" and ?rid = "request_id r" and ?n = "slots_needed r nnew nhit look k"
  have st: "co_state ?c xs" "km_enable_caching k = enable_caching (co_pool ?c)" using assms(1) by (auto simp: km_state_def)
  have g: "hits_usable ?c ?rid ncb" "balanced ?c ?rid ?n ncb" "mamba_fits ?c ?rid ?n ncb"
      "\<forall>m \<in> set (co_managers ?c). skip_ok (enable_caching (co_pool ?c)) ?rid (num_computed_tokens r) m"
    using assms(2) st(2) by (auto simp: slots_asked_def)
  have len: "length ncb = length (co_managers ?c)" using g(1) by (simp add: hits_usable_def)
  obtain res c ys where c: "reserve_slots ?rid (num_computed_tokens r) ?n ncb (km_enable_caching k) ?c = Ok (res, c)"
      "co_state c ys" "same_coord ?c c"
      "\<forall>j < length ncb. \<forall>rid'. (rid' \<noteq> ?rid \<longrightarrow> co_blocks rid' c j = co_blocks rid' ?c j) \<and>
           co_cached rid' c j = (if rid' = ?rid \<and> res \<noteq> None \<and> co_cached ?rid ?c j = None then Some (int (length (ncb ! j))) else co_cached rid' ?c j)"
      "res = None \<longrightarrow> (\<forall>j < length ncb. length (co_blocks ?rid c j) = length (co_blocks ?rid ?c j)) \<and>
           int (length ys) < (\<Sum>j < length ncb. group_need ?rid ?n (ncb ! j) (co_managers ?c ! j) + evictable (co_pool c) (ncb ! j))"
      "\<forall>news. res = Some news \<longrightarrow> length news = length ncb \<and> (\<forall>j < length ncb. int (length (co_blocks ?rid c j)) =
           max (cdiv ?n (mgr_block_size (co_managers ?c ! j))) (int (length (co_blocks ?rid ?c j) + length (ncb ! j))))"
    by (rule reserve_slots_spec [OF st(1) g st(2)])
  have "pool_inv (co_pool c) ys" using c(2) by (simp add: co_state_def mgrs_state_def ledger_def)
  note free = pool_inv_num_free [OF this]
  have "same_km k (k\<lparr>km_coord := c\<rparr>)" using c(3) by (cases k) (simp add: same_km_def)
  then have d: "allocation_done r ?n ncb k res (k\<lparr>km_coord := c\<rparr>)"
    using c(4,5,6) free by (cases res) (simp_all add: allocation_done_def blocks_missing_def)
  have "n \<le> tokens_to_cache r nnew nhit div mgr_block_size (co_managers c ! j)"
    if "res \<noteq> None" "j < length ncb" "co_cached ?rid c j = Some n" for j n
  proof -
    have "mgr_block_size (co_managers c ! j) = mgr_block_size (co_managers ?c ! j)"
      using c(3) that(2) len by (simp add: same_coord_def same_mgr_def)
    moreover have "(case co_cached ?rid ?c j of None \<Rightarrow> int (length (ncb ! j)) | Some n \<Rightarrow> n) = n"
      using c(4) that by (auto split: if_splits option.splits)
    ultimately show ?thesis using assms(2) that(2) unfolding slots_asked_def by metis
  qed
  moreover have "length (co_managers c) = length ncb" using c(3) len by (simp add: same_coord_def)
  ultimately show thesis using c(1,2) d by (intro that) (auto simp: in_set_conv_nth)
qed

lemma allocation_done_publish:
  assumes "allocation_done r ntok ncb k res k1" and "km_state k1 xs" and "length ncb = length (co_managers (km_coord k))"
    and "res \<noteq> None" and "km_enable_caching k1"
    and "\<forall>m \<in> set (co_managers (km_coord k1)). \<forall>n. map_of (num_cached_block m) (request_id r) = Some n \<longrightarrow> n \<le> t div mgr_block_size m"
    and "co_cache_blocks nh hf r bhs t (km_coord k1) = Ok (bhs', c)"
    and "k' = k1\<lparr>km_coord := c, req_to_block_hashes := d\<rparr>"
  shows "km_state k' xs" and "allocation_done r ntok ncb k res k'"
proof -
  have st: "co_state (km_coord k1) xs" "enable_caching (km_pool k1)" using assms(2,5) by (auto simp: km_state_def)
  note c = co_cache_blocks_keeps [OF st assms(7,6)]
  have sk: "same_km k1 k'" using c(2) by (cases k1) (simp add: same_km_def assms(8))
  show "km_state k' xs" using km_state_move [OF assms(2) sk] c(1) by (simp add: assms(8))
  have "same_coord (km_coord k) (km_coord k1)" using assms(1) by (simp add: allocation_done_def same_km_def)
  then have len: "length (co_managers (km_coord k1)) = length ncb" using assms(3) by (simp add: same_coord_def)
  have "same_km k k'" using assms(1) by (intro same_km_trans [OF _ sk]) (simp add: allocation_done_def)
  moreover have "km_blocks rid k' j = km_blocks rid k1 j" if "j < length ncb" for rid j
    using c(4) len that by (simp add: assms(8))
  ultimately show "allocation_done r ntok ncb k res k'"
    using assms(1,4) by (cases res) (simp_all add: allocation_done_def)
qed

lemma allocate_slots_keeps:
  assumes "km_state k xs" and "slots_asked r nnew nhit (hits_given nc k) look k"
    and "allocate_slots nh hf r nnew nhit nc look delay k = Ok (res, k')"
  shows "\<exists>ys. km_state k' ys" and "allocation_done r (slots_needed r nnew nhit look k) (hits_given nc k) k res k'"
proof -
  obtain res0 c ys where c: "reserve_slots (request_id r) (num_computed_tokens r) (slots_needed r nnew nhit look k) (hits_given nc k)
        (km_enable_caching k) (km_coord k) = Ok (res0, c)" "co_state c ys"
      "allocation_done r (slots_needed r nnew nhit look k) (hits_given nc k) k res0 (k\<lparr>km_coord := c\<rparr>)"
      "res0 \<noteq> None \<longrightarrow> (\<forall>m \<in> set (co_managers c). \<forall>n. map_of (num_cached_block m) (request_id r) = Some n \<longrightarrow>
           n \<le> tokens_to_cache r nnew nhit div mgr_block_size m)"
    by (rule reserve_slots_done [OF assms(1,2)])
  have nz: "nnew \<noteq> 0" and len: "length (hits_given nc k) = length (co_managers (km_coord k))"
    using assms(2) by (auto simp: slots_asked_def hits_usable_def)
  note eq = allocate_slots_eq [OF nz c(1), of nh hf delay]
  have st: "km_state (k\<lparr>km_coord := c\<rparr>) ys"
    using km_state_move [OF assms(1), of "k\<lparr>km_coord := c\<rparr>" ys] c(2,3) by (simp add: allocation_done_def)
  have "(\<exists>ys. km_state k' ys) \<and> allocation_done r (slots_needed r nnew nhit look k) (hits_given nc k) k res k'"
  proof (cases "res0 = None \<or> \<not> km_enable_caching k \<or> delay")
    case True
    then show ?thesis using assms(3) eq st c(3) by auto
  next
    case False
    then obtain bhs' c' where p: "co_cache_blocks nh hf r (list_of (request_id r) (req_to_block_hashes k)) (tokens_to_cache r nnew nhit) c = Ok (bhs', c')"
        "res = res0" "k' = k\<lparr>km_coord := c', req_to_block_hashes :=
               AList.update (request_id r) bhs' (snd (ddict_get (request_id r) (req_to_block_hashes k)))\<rparr>"
      using assms(3) False unfolding eq by (auto simp: res_simps)
    have pub: "co_cache_blocks nh hf r (list_of (request_id r) (req_to_block_hashes k)) (tokens_to_cache r nnew nhit)
        (km_coord (k\<lparr>km_coord := c\<rparr>)) = Ok (bhs', c')" using p(1) by simp
    have caching: "res0 \<noteq> None" "km_enable_caching (k\<lparr>km_coord := c\<rparr>)" using False by simp_all
    note a = allocation_done_publish [OF c(3) st len caching _ pub]
    from c(4) False show ?thesis unfolding p(2,3) by (intro conjI exI [of _ ys] a) simp_all
  qed
  then show "\<exists>ys. km_state k' ys" "allocation_done r (slots_needed r nnew nhit look k) (hits_given nc k) k res k'" by auto
qed

subsection \<open>The other operations\<close>

lemma km_set_pool:
  assumes "km_state k xs" and "ledger p xs (helds (km_pool k) (co_managers (km_coord k)))" and "same_pool (km_pool k) p"
  shows "km_state (k\<lparr>km_coord := (km_coord k)\<lparr>co_pool := p\<rparr>\<rparr>) xs" and "same_km k (k\<lparr>km_coord := (km_coord k)\<lparr>co_pool := p\<rparr>\<rparr>)"
proof -
  let ?c = "(km_coord k)\<lparr>co_pool := p\<rparr>"
  have "co_state ?c xs"
    using assms same_pool_helds [OF assms(3)] same_pool_mgr_ok [OF assms(3)]
    by (simp add: km_state_def co_state_def mgrs_state_def)
  moreover show s: "same_km k (k\<lparr>km_coord := ?c\<rparr>)"
    using assms(3) by (cases k; cases "km_coord k") (simp add: same_km_def same_coord_def same_mgr_def)
  ultimately show "km_state (k\<lparr>km_coord := ?c\<rparr>) xs" using km_state_move [OF assms(1) s, of xs] by simp
qed

lemma km_free_spec:
  assumes "km_state k xs"
  obtains k' ys where "km_free r k = Ok k'" and "km_state k' ys" and "same_km k k'" and "length xs \<le> length ys"
    and "same_hashes (km_pool k) (km_pool k')"
    and "\<forall>j < length (co_managers (km_coord k)). \<forall>rid. km_blocks rid k' j = (if rid = request_id r then [] else km_blocks rid k j)"
proof -
  have st: "co_state (km_coord k) xs" using assms by (simp add: km_state_def)
  obtain c ys where c: "co_free (request_id r) (km_coord k) = Ok c" "co_state c ys" "same_coord (km_coord k) c"
      "same_hashes (co_pool (km_coord k)) (co_pool c)" "length xs \<le> length ys"
      "\<forall>j < length (co_managers (km_coord k)). \<forall>rid'. co_blocks rid' c j = (if rid' = request_id r then [] else co_blocks rid' (km_coord k) j) \<and>
           co_cached rid' c j = (if rid' = request_id r then None else co_cached rid' (km_coord k) j)"
    by (rule co_free_spec [OF st])
  have s: "same_km k (k\<lparr>km_coord := c\<rparr>)" using c(3) by (cases k) (simp add: same_km_def)
  from km_state_move [OF assms s, of ys] c s show thesis
    by (intro that [of "k\<lparr>km_coord := c\<rparr>" ys]) (simp_all add: km_free_def)
qed

lemma km_reset_spec:
  assumes "km_state k xs"
  shows "\<exists>d k'. km_reset_prefix_cache k = Ok (d, k') \<and> km_state k' xs \<and> same_km k k' \<and>
    reset_prefix_cache (km_pool k) = (d, km_pool k')"
proof -
  obtain d p where p: "reset_prefix_cache (km_pool k) = (d, p)" by (cases "reset_prefix_cache (km_pool k)")
  note l = ledger_reset [OF km_state_pool(1) [OF assms] p]
  note s = km_set_pool [OF assms l]
  let ?k = "k\<lparr>km_coord := (km_coord k)\<lparr>co_pool := p\<rparr>\<rparr>"
  have "km_state (?k\<lparr>km_stats := Some t\<rparr>) xs \<and> same_km k (?k\<lparr>km_stats := Some t\<rparr>)" for t
    using s by (cases k) (simp add: km_state_def same_km_def)
  moreover have "km_log_stats k \<Longrightarrow> km_stats k \<noteq> None" using assms by (simp add: km_state_def)
  ultimately show ?thesis using s p by (auto simp: km_reset_prefix_cache_def Let_def split: option.splits)
qed

lemma co_common_keeps:
  assumes "co_state c xs" and "co_get_num_common_prefix_blocks rid n c = Ok (ns, c')"
  shows "co_state c' xs" and "same_coord c c'"
proof -
  let ?f = "\<lambda>(i :: nat) (a :: unit) p m. let (n, m') = get_num_common_prefix_blocks rid n p m in Ok (n, a, p, m')"
  have step: "mgr_state p' xs R m' \<and> p' = p \<and> same_mgr m m'"
    if "mgr_state p xs R m" "?f j a p m = Ok (out, a', p', m')" for j p xs R m out p' m' and a a' :: unit
    using that mgr_state_read [OF that(1)]
    by (auto simp: get_num_common_prefix_blocks_def same_mgr_def split_beta Let_def split: kv_cache_spec.splits)
  have "co_state c' xs \<and> same_coord c c'" if r: "coord_run ?f () c = Ok (ns, u, c')" for u
  proof -
    obtain p' ms' where e: "each_manager ?f 0 () (co_pool c) (co_managers c) = Ok (ns, (), p', ms')"
        "c' = c\<lparr>co_pool := p', co_managers := ms'\<rparr>"
      using r by (auto simp: coord_run_def res_simps)
    have "mgrs_state p' xs {#} ms' \<and> p' = co_pool c \<and> length ms' = length (co_managers c) \<and> length ns = length (co_managers c) \<and>
        (\<forall>j < length (co_managers c). same_mgr (co_managers c ! j) (ms' ! j))"
    proof (rule each_manager_keeps [where T = "\<lambda>p p'. p' = p" and Q = "\<lambda>_ _. True" and S = "\<lambda>_ m m' _. same_mgr m m'"
            and f = ?f and e = "enable_caching (co_pool c)" and i = 0, unfolded add_0])
      show "mgr_state p' xs R m' \<and> p' = p \<and> same_mgr m m'"
        if "mgr_state p xs R m" "?f j a p m = Ok (out, a', p', m')" for j a p xs R m out a' p' m'
        using that by (rule step)
    qed (use assms(1) e(1) in \<open>simp_all add: co_state_def\<close>)
    then show ?thesis by (cases c) (auto simp: e(2) co_state_def same_coord_def)
  qed
  then show "co_state c' xs" "same_coord c c'" using assms
    by (auto simp: co_get_num_common_prefix_blocks_def res_simps split: coord_kind.splits)
qed

subsection \<open>Cache hits\<close>

text \<open>With caching on, the managers share the block size the hashes are computed with.\<close>

definition km_layout :: "kv_cache_manager \<Rightarrow> bool" where
  "km_layout k \<longleftrightarrow> (km_enable_caching k \<longrightarrow> (\<exists>bs. km_block_size k = Some bs \<and> 0 < bs \<and> co_layout (km_coord k) bs)) \<and>
     km_num_groups k = length (co_managers (km_coord k))"

lemma same_coord_layout:
  assumes "same_coord c c'" and "co_layout c bs"
  shows "co_layout c' bs"
proof -
  have s: "length (co_managers c') = length (co_managers c)" "co_kind c' = co_kind c"
      "\<And>j. j < length (co_managers c) \<Longrightarrow> mgr_spec (co_managers c' ! j) = mgr_spec (co_managers c ! j)"
    using assms(1) by (cases c; cases c'; auto simp: same_coord_def same_mgr_def)+
  have m: "\<forall>m \<in> set (co_managers c'). mgr_block_size m = bs \<and> good_spec (mgr_spec m)"
    using assms(2) s(1,3) by (simp add: co_layout_def all_set_conv_all_nth)
  have h: "hybrid_layout (co_managers c') h" if "hybrid_layout (co_managers c) h" for h
  proof -
    have "set (full_attention_group_ids h) \<union> set (other_group_ids h) = {0..<length (co_managers c)}"
      using that unfolding hybrid_layout_def by (metis atLeast_upt set_append sup_commute atLeast0LessThan)
    then have "i < length (co_managers c)" if "i \<in> set (full_attention_group_ids h) \<union> set (other_group_ids h)" for i
      using that by auto
    then show ?thesis using that s(1,3) by (simp add: hybrid_layout_def)
  qed
  have "mgr_spec (hd (co_managers c')) = mgr_spec (hd (co_managers c))" if "length (co_managers c) = 1"
    using s(1) s(3) [of 0] that by (cases "co_managers c"; cases "co_managers c'") auto
  then show ?thesis using assms(2) m h s(1) by (auto simp: co_layout_def s(2) split: coord_kind.splits)
qed

lemma same_km_layout: "km_layout k \<Longrightarrow> same_km k k' \<Longrightarrow> km_layout k'"
  unfolding km_layout_def using same_coord_layout
  by (cases k; cases k') (auto simp: same_km_def same_coord_def)

lemma KVCacheManager_init_layout:
  assumes "KVCacheManager_init cfg ml caching ue lg ev = Ok k"
    and "\<forall>g \<in> set (kv_cache_groups cfg). good_spec (group_spec g)"
  shows "km_layout k"
proof -
  let ?c = "if length (kv_cache_groups cfg) = 0 then False else caching"
  let ?bs = "spec_block_size (group_spec (hd (kv_cache_groups cfg)))"
  obtain c where c: "get_kv_cache_coordinator cfg ml ue ?c ev = Ok c" "km_coord k = c" "km_enable_caching k = ?c"
      "km_num_groups k = length (kv_cache_groups cfg)"
    using assms(1) by (auto simp: KVCacheManager_init_def Let_def res_simps split: if_splits)
  have man: "co_managers c = make_managers cfg" by (rule get_kv_cache_coordinator_state(3) [OF c(1) assms(2)])
  have b: "km_block_size k = Some ?bs \<and> kv_cache_groups cfg \<noteq> [] \<and>
      card (set (map (spec_block_size \<circ> group_spec) (kv_cache_groups cfg))) = 1" if "km_enable_caching k"
    using assms(1) that c(3) by (cases "kv_cache_groups cfg")
      (auto simp: KVCacheManager_init_def Let_def res_simps py_index_def split: if_splits)
  have same: "spec_block_size (group_spec g) = ?bs" if "km_enable_caching k" "g \<in> set (kv_cache_groups cfg)" for g
  proof -
    let ?f = "spec_block_size \<circ> group_spec"
    from b [OF that(1)] obtain x where "?f ` set (kv_cache_groups cfg) = {x}" by (auto simp: card_1_singleton_iff)
    then have "?f g = x" "?f (hd (kv_cache_groups cfg)) = x" using that(2) b [OF that(1)] by (metis imageI hd_in_set singletonD)+
    then show ?thesis by simp
  qed
  have "co_layout c ?bs \<and> 0 < ?bs" if on: "km_enable_caching k"
  proof
    have ne: "kv_cache_groups cfg \<noteq> []" using b [OF on] by simp
    then show "0 < ?bs" using assms(2) by (simp add: good_spec_def)
    have "\<forall>m \<in> set (co_managers c). mgr_block_size m = ?bs \<and> good_spec (mgr_spec m)"
      unfolding man using same [OF on] assms(2)
      by (auto elim!: make_managers_spec simp: get_manager_for_kv_cache_spec_def)
    moreover have "case co_kind c of NoPrefixCache \<Rightarrow> True
      | Unitary spec \<Rightarrow> length (co_managers c) = 1 \<and> spec = mgr_spec (hd (co_managers c))
      | Hybrid h \<Rightarrow> hybrid_layout (co_managers c) h"
    proof (cases "length (kv_cache_groups cfg) = 1")
      case True
      then have "co_kind c = Unitary (group_spec (hd (kv_cache_groups cfg)))"
        using c(1,3) on by (auto simp: get_kv_cache_coordinator_def KVCacheCoordinator_init_def res_simps split: if_splits)
      then show ?thesis using True by (cases "kv_cache_groups cfg") (simp_all add: man make_managers_def get_manager_for_kv_cache_spec_def)
    next
      case False
      then obtain h where "co_kind c = Hybrid h" "verify_and_split_kv_cache_groups True cfg = Ok h"
        using c(1,3) on by (auto simp: get_kv_cache_coordinator_def KVCacheCoordinator_init_def res_simps split: if_splits)
      then show ?thesis using verify_and_split_layout by (simp add: man)
    qed
    ultimately show "co_layout c ?bs" by (simp add: co_layout_def)
  qed
  then show ?thesis using b c(2,4) man by (auto simp: km_layout_def make_managers_def)
qed

text \<open>
  The hashes a lookup uses: the stored ones or, when there are none, freshly computed ones.
  The search reads every position below the bound, so stored hashes must reach that far.
\<close>

definition lookup_hashes :: "int \<Rightarrow> hash_fn \<Rightarrow> request \<Rightarrow> kv_cache_manager \<Rightarrow> block_hash list res" where
  "lookup_hashes nh hf r k =
     (let bhs = list_of (request_id r) (req_to_block_hashes k)
      in if bhs = [] then (case km_block_size k of None \<Rightarrow> Err AssertionError | Some bs \<Rightarrow> hash_request_tokens nh hf bs r)
         else Ok bhs)"

definition skips_lookup :: "request \<Rightarrow> kv_cache_manager \<Rightarrow> bool" where
  "skips_lookup r k \<longleftrightarrow> \<not> km_enable_caching k \<or> (case sampling r of None \<Rightarrow> False | Some s \<Rightarrow> prompt_logprobs s \<noteq> None)"

lemma stats_step:
  assumes "(if lg then (case st of None \<Rightarrow> Err AssertionError | Some s \<Rightarrow> Ok (out, f s)) else Ok (out, g)) = Ok (out', k')"
  shows "out' = out" and "if lg then \<exists>s. st = Some s \<and> k' = f s else k' = g"
  using assms by (cases lg; cases st; simp)+

lemma get_computed_blocks_eq:
  assumes "\<not> skips_lookup r k"
  shows "get_computed_blocks nh hf r k = rbind (lookup_hashes nh hf r k) (\<lambda>hs.
      let k2 = (if list_of (request_id r) (req_to_block_hashes k) = []
                then k\<lparr>req_to_block_hashes := AList.update (request_id r) hs (snd (ddict_get (request_id r) (req_to_block_hashes k)))\<rparr> else k\<lparr>req_to_block_hashes := snd (ddict_get (request_id r) (req_to_block_hashes k))\<rparr>)
      in rbind (co_find_longest_cache_hit hs (num_tokens r - 1) (km_coord k)) (\<lambda>(blocks, n).
        if km_log_stats k
        then (case km_stats k of None \<Rightarrow> Err AssertionError
              | Some st \<Rightarrow> Ok ((blocks, n), k2\<lparr>km_stats := Some (st\<lparr>st_requests := st_requests st + 1,
                        st_queries := st_queries st + num_tokens r, st_hits := st_hits st + n\<rparr>)\<rparr>))
        else Ok ((blocks, n), k2)))"
  using assms
  by (cases "list_of (request_id r) (req_to_block_hashes k) = []")
    (simp_all add: get_computed_blocks_def skips_lookup_def lookup_hashes_def split_beta Let_def rbind_assoc
      cong: if_cong option.case_cong split: option.split)

lemma get_computed_blocks_cases:
  assumes "get_computed_blocks nh hf r k = Ok ((cols, n), k')"
  obtains (skip) "skips_lookup r k" and "cols = create_empty_block_list k" and "n = 0" and "k' = k"
  | (search) hs where "\<not> skips_lookup r k" and "lookup_hashes nh hf r k = Ok hs"
    and "co_find_longest_cache_hit hs (num_tokens r - 1) (km_coord k) = Ok (cols, n)"
    and "k' = k\<lparr>km_stats := km_stats k', req_to_block_hashes := req_to_block_hashes k'\<rparr>" and "km_stats k = None \<or> km_stats k' \<noteq> None"
proof (cases "skips_lookup r k")
  case True
  then show thesis using assms by (intro skip) (auto simp: get_computed_blocks_def skips_lookup_def)
next
  case False
  let ?k1 = "k\<lparr>req_to_block_hashes := snd (ddict_get (request_id r) (req_to_block_hashes k))\<rparr>"
  note eq = get_computed_blocks_eq [OF False, of nh hf]
  let ?k2 = "\<lambda>hs. if list_of (request_id r) (req_to_block_hashes k) = []
      then k\<lparr>req_to_block_hashes := AList.update (request_id r) hs (snd (ddict_get (request_id r) (req_to_block_hashes k)))\<rparr> else ?k1"
  let ?st = "\<lambda>n st. Some (st\<lparr>st_requests := st_requests st + 1, st_queries := st_queries st + num_tokens r, st_hits := st_hits st + n\<rparr>)"
  from assms obtain hs x where hs: "lookup_hashes nh hf r k = Ok hs" "co_find_longest_cache_hit hs (num_tokens r - 1) (km_coord k) = Ok x"
      "(case x of (blocks, n) \<Rightarrow> if km_log_stats k
        then (case km_stats k of None \<Rightarrow> Err AssertionError
              | Some st \<Rightarrow> Ok ((blocks, n), (?k2 hs)\<lparr>km_stats := ?st n st\<rparr>))
        else Ok ((blocks, n), ?k2 hs)) = Ok ((cols, n), k')"
    unfolding eq rbind_eq_Ok Let_def by blast
  obtain blocks n0 where x: "x = (blocks, n0)" by (cases x)
  from stats_step [OF hs(3) [unfolded x prod.case]] have out: "x = (cols, n)"
    and k': "if km_log_stats k then \<exists>st. km_stats k = Some st \<and> k' = (?k2 hs)\<lparr>km_stats := ?st n0 st\<rparr> else k' = ?k2 hs"
    by (auto simp: x)
  have "\<exists>d. ?k2 hs = k\<lparr>req_to_block_hashes := d\<rparr>" by (cases "list_of (request_id r) (req_to_block_hashes k) = []") auto
  then obtain d where d: "?k2 hs = k\<lparr>req_to_block_hashes := d\<rparr>" ..
  have "k' = k\<lparr>km_stats := km_stats k', req_to_block_hashes := req_to_block_hashes k'\<rparr> \<and> (km_stats k = None \<or> km_stats k' \<noteq> None)"
    using k' unfolding d by (auto split: if_splits)
  then show thesis using search [OF False hs(1)] hs(2) unfolding out by blast
qed

lemma get_computed_blocks_keeps:
  assumes "get_computed_blocks nh hf r k = Ok ((cols, n), k')" and "km_state k xs"
  shows "same_km k k'" and "km_state k' xs" and "km_coord k' = km_coord k"
proof -
  have "k' = k\<lparr>km_stats := km_stats k', req_to_block_hashes := req_to_block_hashes k'\<rparr> \<and> (km_stats k = None \<or> km_stats k' \<noteq> None)"
    using assms(1) by (cases rule: get_computed_blocks_cases) auto
  then show s: "same_km k k'" and c: "km_coord k' = km_coord k" by (cases k; cases k'; auto simp: same_km_def)+
  have "co_state (km_coord k') xs" using assms(2) by (simp add: c km_state_def)
  then show "km_state k' xs" by (rule km_state_move [OF assms(2) s])
qed

lemma km_cache_blocks_keeps:
  assumes "km_cache_blocks nh hf r ntok k = Ok k'" and "km_state k xs"
    and "\<forall>m \<in> set (co_managers (km_coord k)). \<forall>n. map_of (num_cached_block m) (request_id r) = Some n \<longrightarrow> n \<le> ntok div mgr_block_size m"
  shows "same_km k k'" and "km_state k' xs"
proof -
  have "same_km k k' \<and> km_state k' xs"
  proof (cases "km_enable_caching k")
    case True
    then obtain bhs' c where c: "co_cache_blocks nh hf r (list_of (request_id r) (req_to_block_hashes k)) ntok (km_coord k) = Ok (bhs', c)"
        "km_coord k' = c" "k' = k\<lparr>km_coord := c, req_to_block_hashes := req_to_block_hashes k'\<rparr>"
      using assms(1) by (auto simp: km_cache_blocks_def split_beta Let_def res_simps)
    have st: "co_state (km_coord k) xs" "enable_caching (co_pool (km_coord k))" using assms(2) True by (auto simp: km_state_def)
    note kp = co_cache_blocks_keeps [OF st c(1) assms(3)]
    have s: "same_km k k'" using c(2,3) kp(2) by (cases k; cases k') (simp add: same_km_def)
    then show ?thesis using km_state_move [OF assms(2) s] kp(1) c(2) by simp
  next
    case False
    then show ?thesis using assms by (cases k) (auto simp: km_cache_blocks_def same_km_def)
  qed
  then show "same_km k k'" "km_state k' xs" by auto
qed

section \<open>Histories of a manager\<close>

text \<open>
  The states a manager reaches from its construction by calls that keep the protocol: slots
  are asked for as in \<open>slots_asked\<close>, and a delayed publication never goes back.
\<close>

inductive kv_reach :: "int \<Rightarrow> hash_fn \<Rightarrow> kv_cache_manager \<Rightarrow> bool" for nh hf where
  start: "KVCacheManager_init cfg ml caching ue lg ev = Ok k \<Longrightarrow>
    \<forall>g \<in> set (kv_cache_groups cfg). good_spec (group_spec g) \<Longrightarrow> kv_reach nh hf k"
| computed: "kv_reach nh hf k \<Longrightarrow> get_computed_blocks nh hf r k = Ok (out, k') \<Longrightarrow> kv_reach nh hf k'"
| alloc: "kv_reach nh hf k \<Longrightarrow> slots_asked r nnew nhit (hits_given nc k) look k \<Longrightarrow>
    allocate_slots nh hf r nnew nhit nc look delay k = Ok (res, k') \<Longrightarrow> kv_reach nh hf k'"
| publish: "kv_reach nh hf k \<Longrightarrow>
    \<forall>m \<in> set (co_managers (km_coord k)). \<forall>n. map_of (num_cached_block m) (request_id r) = Some n \<longrightarrow> n \<le> ntok div mgr_block_size m \<Longrightarrow>
    km_cache_blocks nh hf r ntok k = Ok k' \<Longrightarrow> kv_reach nh hf k'"
| free: "kv_reach nh hf k \<Longrightarrow> km_free r k = Ok k' \<Longrightarrow> kv_reach nh hf k'"
| reset: "kv_reach nh hf k \<Longrightarrow> km_reset_prefix_cache k = Ok (d, k') \<Longrightarrow> kv_reach nh hf k'"
| common: "kv_reach nh hf k \<Longrightarrow> km_get_num_common_prefix_blocks r n k = Ok (ns, k') \<Longrightarrow> kv_reach nh hf k'"
| events: "kv_reach nh hf k \<Longrightarrow> km_take_events k = (es, k') \<Longrightarrow> kv_reach nh hf k'"
| stats: "kv_reach nh hf k \<Longrightarrow> make_prefix_cache_stats k = (st, k') \<Longrightarrow> kv_reach nh hf k'"
| forget: "kv_reach nh hf k \<Longrightarrow> kv_reach nh hf (free_block_hashes r k)"

lemma km_common_keeps:
  assumes "km_get_num_common_prefix_blocks r n k = Ok (ns, k')" and "km_state k xs"
  shows "same_km k k'" and "km_state k' xs"
proof -
  obtain c where c: "co_get_num_common_prefix_blocks (request_id r) n (km_coord k) = Ok (ns, c)" "k' = k\<lparr>km_coord := c\<rparr>"
    using assms(1) by (auto simp: km_get_num_common_prefix_blocks_def res_simps)
  have st: "co_state (km_coord k) xs" using assms(2) by (simp add: km_state_def)
  note k = co_common_keeps [OF st c(1)]
  show s: "same_km k k'" using k(2) by (simp add: same_km_def c(2))
  show "km_state k' xs" using km_state_move [OF assms(2) s] k(1) by (simp add: c(2))
qed

lemma km_events_keeps:
  assumes "km_take_events k = (es, k')" and "km_state k xs"
  shows "same_km k k'" and "km_state k' xs"
proof -
  obtain p where p: "take_events (km_pool k) = (es, p)" "k' = k\<lparr>km_coord := (km_coord k)\<lparr>co_pool := p\<rparr>\<rparr>"
    using assms(1) by (auto simp: km_take_events_def split: prod.splits)
  note l = ledger_events [OF km_state_pool(1) [OF assms(2)] p(1)]
  from km_set_pool [OF assms(2) l] show "same_km k k'" "km_state k' xs" by (simp_all add: p(2))
qed

lemma km_light_keeps:
  assumes "km_state k xs"
  shows "make_prefix_cache_stats k = (st, k') \<Longrightarrow> same_km k k' \<and> km_state k' xs"
    and "same_km k (free_block_hashes r k) \<and> km_state (free_block_hashes r k) xs"
  using assms by (auto simp: make_prefix_cache_stats_def free_block_hashes_def same_km_def km_state_def split: if_splits)

lemma kv_reach_state: "kv_reach nh hf k \<Longrightarrow> (\<exists>xs. km_state k xs) \<and> km_layout k"
proof (induction rule: kv_reach.induct)
  case (start cfg ml caching ue lg ev k)
  then show ?case using KVCacheManager_init_state(1) KVCacheManager_init_layout by blast
next
  case (computed k r out k')
  obtain cols n where out: "out = (cols, n)" by (cases out)
  obtain xs where st: "km_state k xs" using computed.IH by blast
  note k = get_computed_blocks_keeps [OF computed.hyps(2) [unfolded out] st]
  then show ?case using computed.IH same_km_layout by blast
next
  case (alloc k r nnew nhit nc look delay res k')
  then obtain xs where "km_state k xs" by blast
  note a = allocate_slots_keeps [OF this alloc.hyps(2,3)]
  then show ?case using alloc.IH same_km_layout by (auto simp: allocation_done_def)
next
  case (publish k r ntok k')
  then show ?case using km_cache_blocks_keeps same_km_layout by blast
next
  case (free k r k')
  then obtain xs where s: "km_state k xs" by blast
  show ?case by (rule km_free_spec [OF s, of r]) (use free same_km_layout in auto)
next
  case (reset k d k')
  then obtain xs where s: "km_state k xs" by blast
  from km_reset_spec [OF this] reset show ?case using same_km_layout by auto
next
  case (common k r n ns k')
  then show ?case using km_common_keeps same_km_layout by blast
next
  case (events k es k')
  then show ?case using km_events_keeps same_km_layout by blast
next
  case (stats k st k')
  then show ?case using km_light_keeps(1) same_km_layout by blast
next
  case (forget k r)
  then show ?case using km_light_keeps(2) same_km_layout by blast
qed

text \<open>The references the requests of all groups hold.\<close>

abbreviation km_held :: "kv_cache_manager \<Rightarrow> blk_ref multiset" where
  "km_held k \<equiv> helds (km_pool k) (co_managers (km_coord k))"

lemma kv_reach_ledger: "kv_reach nh hf k \<Longrightarrow> \<exists>xs. ledger (km_pool k) xs (km_held k)"
  using kv_reach_state km_state_pool(1) by blast

lemma km_held_empty:
  assumes "km_state k xs" and "\<forall>m \<in> set (co_managers (km_coord k)). \<forall>rid. blocks_of rid m = []"
  shows "km_held k = {#}"
proof -
  have "held (km_pool k) m = {#}" if "m \<in> set (co_managers (km_coord k))" for m
  proof -
    have "wf_dict (req_to_blocks m)" using that assms(1) by (auto simp: km_state_def co_state_def mgrs_state_def dest: mgr_okD(1))
    then show ?thesis using assms(2) that by (simp add: held_def dict_mset_empty)
  qed
  moreover have "\<forall>m \<in> set ms. held p m = {#} \<Longrightarrow> helds p ms = {#}" for ms p by (induction ms) simp_all
  ultimately show ?thesis by blast
qed

text \<open>The stored hashes of a request, if any, reach the last position a lookup reads.\<close>

definition hashes_reach :: "request \<Rightarrow> kv_cache_manager \<Rightarrow> bool" where
  "hashes_reach r k \<longleftrightarrow> list_of (request_id r) (req_to_block_hashes k) = [] \<or>
     (\<forall>bs. km_block_size k = Some bs \<longrightarrow> nat ((num_tokens r - 1) div bs) \<le> length (list_of (request_id r) (req_to_block_hashes k)))"

lemma lookup_hashes_length:
  assumes "lookup_hashes nh hf r k = Ok hs" and "hashes_reach r k" and "km_block_size k = Some bs" and "0 < bs"
  shows "nat ((num_tokens r - 1) div bs) \<le> length hs"
proof -
  have "(num_tokens r - 1) div bs \<le> num_tokens r div bs" using assms(4) by (intro zdiv_mono1) simp_all
  then show ?thesis
    using assms(1-3) hash_request_tokens_length [OF assms(4)]
    by (auto simp: lookup_hashes_def hashes_reach_def Let_def num_full_blocks_of_def nat_mono split: if_splits)
qed

lemma lookup_hashes_plain:
  assumes "\<not> need_extra_keys r" and "km_block_size k = Some bs" and "0 < bs"
  shows "\<exists>hs. lookup_hashes nh hf r k = Ok hs"
  using hash_request_loop_plain [OF assms(1)] assms(2,3)
  by (auto simp: lookup_hashes_def Let_def hash_request_tokens_def)

lemma get_computed_blocks_returns:
  assumes "km_state k xs" and "km_layout k" and "0 < num_tokens r" and "\<not> need_extra_keys r" and "hashes_reach r k"
    and "co_use_eagle (km_coord k) \<longrightarrow> (\<forall>m \<in> set (co_managers (km_coord k)). \<not> is_chunked (mgr_spec m))"
  shows "\<exists>out k'. get_computed_blocks nh hf r k = Ok (out, k')"
proof (cases "skips_lookup r k")
  case False
  then obtain bs where bs: "km_block_size k = Some bs" "0 < bs" "co_layout (km_coord k) bs"
    using assms(2) by (auto simp: km_layout_def skips_lookup_def)
  obtain hs where hs: "lookup_hashes nh hf r k = Ok hs" using lookup_hashes_plain [OF assms(4) bs(1,2)] by blast
  have co: "co_state (km_coord k) xs" using assms(1) by (simp add: km_state_def)
  obtain cols n where f: "co_find_longest_cache_hit hs (num_tokens r - 1) (km_coord k) = Ok (cols, n)"
    using co_find_total [OF co bs(3) _ lookup_hashes_length [OF hs assms(5) bs(1,2)] assms(6)] assms(3) by auto
  show ?thesis using get_computed_blocks_eq [OF False, of nh hf] hs f assms(1)
    by (auto simp: km_state_def Let_def split: option.split)
qed (auto simp: get_computed_blocks_def skips_lookup_def)

lemma km_state_accounting:
  assumes st: "km_state k ys"
  shows "(\<exists>xs. get_all_free_blocks (free_block_queue (km_pool k)) = Ok (Some xs) \<and> distinct xs \<and>
      set xs = {b. real_block (km_pool k) b \<and> (\<forall>m \<in> set (co_managers (km_coord k)). \<forall>rid. b \<notin> set (blocks_of rid m))}) \<and>
    get_num_free_blocks (km_pool k) = num_gpu_blocks (km_pool k) - 1 - int (card (set_mset (km_held k))) \<and>
    (\<forall>b. real_block (km_pool k) b \<longrightarrow> ref_cnt (blk (km_pool k) b) =
       int (\<Sum>m\<leftarrow>co_managers (km_coord k). count (dict_mset (req_to_blocks m)) b))"
proof -
  note l = km_state_pool(1) [OF st]
  have cnt: "count (helds p ms) b = (\<Sum>m\<leftarrow>ms. count (dict_mset (req_to_blocks m)) b)" if "real_block p b" for p b ms
    using that by (induction ms) (simp_all add: held_def)
  have wf: "wf_dict (req_to_blocks m)" if "m \<in> set (co_managers (km_coord k))" for m
    using that st by (auto simp: km_state_def co_state_def mgrs_state_def dest: mgr_okD(1))
  have "b \<in># km_held k \<longleftrightarrow> (\<exists>m \<in> set (co_managers (km_coord k)). \<exists>rid. b \<in> set (blocks_of rid m))"
    if "real_block (km_pool k) b" for b
  proof -
    have "b \<in># helds p ms \<longleftrightarrow> (\<exists>m \<in> set ms. b \<in># dict_mset (req_to_blocks m))" if "real_block p b" for p ms
      using that by (induction ms) (auto simp: held_def)
    then show ?thesis using that wf in_dict_mset by metis
  qed
  then show ?thesis using ledger_accounting [OF l] cnt by auto
qed

section \<open>Properties\<close>

text \<open>
  C3.  No block is leaked or lost: in every reachable state of the manager the reference
  count of a block is the number of times the requests of all groups list it, the free
  queue holds exactly the blocks no request lists, each once, and the number of free blocks
  is the number of blocks less the null block and the listed ones.
\<close>

theorem kv_manager_accounting:
  assumes "kv_reach nh hf k"
  shows "(\<exists>xs. get_all_free_blocks (free_block_queue (km_pool k)) = Ok (Some xs) \<and> distinct xs \<and>
      set xs = {b. real_block (km_pool k) b \<and> (\<forall>m \<in> set (co_managers (km_coord k)). \<forall>rid. b \<notin> set (blocks_of rid m))}) \<and>
    get_num_free_blocks (km_pool k) = num_gpu_blocks (km_pool k) - 1 - int (card (set_mset (km_held k))) \<and>
    (\<forall>b. real_block (km_pool k) b \<longrightarrow> ref_cnt (blk (km_pool k) b) =
       int (\<Sum>m\<leftarrow>co_managers (km_coord k). count (dict_mset (req_to_blocks m)) b))"
  using kv_reach_state [OF assms] km_state_accounting by blast

text \<open>A manager with one full-attention group of 4-token blocks, and four usable blocks.\<close>

definition sample_config :: kv_cache_config where
  "sample_config = \<lparr>cc_num_blocks = 5, kv_cache_tensors = [], kv_cache_groups = [\<lparr>layer_names = [''l''],
     group_spec = FullAttentionSpec \<lparr>as_block_size = 4, num_kv_heads = 1, head_size = 1, as_dtype = ''half'', use_mla = False\<rparr> None None\<rparr>]\<rparr>"

lemma sample_manager:
  obtains k m where "KVCacheManager_init sample_config 100 True False False False = Ok k" and "kv_reach nh hf k"
    and "km_enable_caching k" and "enable_caching (km_pool k)" and "km_max_model_len k = 100" and "co_managers (km_coord k) = [m]"
    and "kv_cache_groups (km_config k) = kv_cache_groups sample_config"
    and "mgr_spec m = group_spec (hd (kv_cache_groups sample_config))" and "req_to_blocks m = []" and "num_cached_block m = []"
    and "num_gpu_blocks (km_pool k) = 5" and "req_to_block_hashes k = []" and "km_block_size k = Some 4"
proof -
  obtain p where p: "BlockPool_init 5 True False = Ok p" "enable_caching p = True" "num_gpu_blocks p = 5"
    by (rule BlockPool_init_spec [of 5 True False]) simp_all
  let ?k = "case KVCacheManager_init sample_config 100 True False False False of Ok k \<Rightarrow> k"
  have init: "KVCacheManager_init sample_config 100 True False False False = Ok ?k"
    by (simp add: KVCacheManager_init_def sample_config_def get_kv_cache_coordinator_def KVCacheCoordinator_init_def p(1)
        py_index_def)
  moreover have "kv_reach nh hf ?k"
    by (rule kv_reach.start [OF init]) (simp add: sample_config_def good_spec_def)
  ultimately show thesis using p
    by (intro that [of ?k "get_manager_for_kv_cache_spec (group_spec (hd (kv_cache_groups sample_config))) 0"])
      (simp_all add: KVCacheManager_init_def sample_config_def get_kv_cache_coordinator_def KVCacheCoordinator_init_def
        py_index_def make_managers_def get_manager_for_kv_cache_spec_def)
qed

lemma kv_manager_accounting_witness:
  "\<exists>k. KVCacheManager_init sample_config 100 True False False False = Ok k \<and> get_num_free_blocks (km_pool k) = 4"
proof -
  obtain k m where k: "KVCacheManager_init sample_config 100 True False False False = Ok k" "kv_reach 0 (\<lambda>_. 1) k"
      "co_managers (km_coord k) = [m]" "req_to_blocks m = []" "num_gpu_blocks (km_pool k) = 5"
    by (rule sample_manager)
  from kv_manager_accounting [OF k(2)] k show ?thesis by (simp add: held_def)
qed

lemma sample_slots:
  obtains k m where "KVCacheManager_init sample_config 100 True False False False = Ok k" and "kv_reach nh hf k"
    and "slots_asked (sample_request ''a'' [7, 8, 9, 10, 11, 12]) 6 0 (hits_given None k) 0 k"
    and "hits_given None k = [[]]" and "slots_needed (sample_request ''a'' [7, 8, 9, 10, 11, 12]) 6 0 0 k = 6"
    and "co_managers (km_coord k) = [m]" and "req_to_blocks m = []" and "mgr_block_size m = 4"
proof -
  let ?r = "sample_request ''a'' [7, 8, 9, 10, 11, 12]"
  obtain k m where k: "KVCacheManager_init sample_config 100 True False False False = Ok k" "kv_reach nh hf k"
      "enable_caching (km_pool k)" "km_max_model_len k = 100" "co_managers (km_coord k) = [m]"
      "kv_cache_groups (km_config k) = kv_cache_groups sample_config"
      "mgr_spec m = group_spec (hd (kv_cache_groups sample_config))" "req_to_blocks m = []" "num_cached_block m = []"
    by (rule sample_manager)
  have hits: "hits_given None k = [[]]" by (simp add: hits_given_def k(6) sample_config_def)
  have rid: "request_id ?r = ''a''" "num_computed_tokens ?r = 0" "num_tokens ?r = 6" by (simp_all add: sample_request_def num_tokens_def)
  have need: "slots_needed ?r 6 0 0 k = 6" by (simp add: slots_needed_def k(4) rid)
  have spec: "mgr_block_size m = 4" "\<not> is_mamba (mgr_spec m)" "good_spec (mgr_spec m)"
    by (simp_all add: k(7) sample_config_def good_spec_def)
  have "slots_asked ?r 6 0 (hits_given None k) 0 k"
    unfolding slots_asked_def hits need
    by (simp add: hits_usable_def balanced_def mamba_fits_def skip_ok_def tokens_to_cache_def group_need_def list_of_def
        k(3,5,8,9) rid spec cdiv_def)
  with k hits need spec(1) show thesis by (intro that [of k m])
qed

text \<open>
  C5.  The contract of \<open>allocate_slots\<close>: whenever it returns, the manager stays in a
  reachable state and the blocks of all other requests are untouched; it answers \<open>None\<close>
  only when the missing blocks outnumber the free ones, and otherwise every group of the
  request has a block for each slot the new, the cached and the lookahead tokens need.  When
  nothing is to be published it never raises.
\<close>

theorem allocate_slots_contract:
  assumes "kv_reach nh hf k" and "slots_asked r nnew nhit (hits_given nc k) look k"
  shows "(\<forall>res k'. allocate_slots nh hf r nnew nhit nc look delay k = Ok (res, k') \<longrightarrow>
      kv_reach nh hf k' \<and> allocation_done r (slots_needed r nnew nhit look k) (hits_given nc k) k res k') \<and>
    (\<not> km_enable_caching k \<or> delay \<longrightarrow> (\<exists>res k'. allocate_slots nh hf r nnew nhit nc look delay k = Ok (res, k')))"
proof -
  obtain xs where st: "km_state k xs" using kv_reach_state [OF assms(1)] by blast
  have "\<exists>res c. reserve_slots (request_id r) (num_computed_tokens r) (slots_needed r nnew nhit look k) (hits_given nc k)
        (km_enable_caching k) (km_coord k) = Ok (res, c)"
    by (rule reserve_slots_done [OF st assms(2)]) blast
  then show ?thesis
    using allocate_slots_keeps(2) [OF st assms(2)] kv_reach.alloc [OF assms] allocate_slots_eq assms(2)
    by (fastforce simp: slots_asked_def)
qed

lemma allocate_slots_contract_witness:
  "\<exists>k res k'. KVCacheManager_init sample_config 100 True False False False = Ok k \<and>
     allocate_slots 0 (\<lambda>_. 1) (sample_request ''a'' [7, 8, 9, 10, 11, 12]) 6 0 None 0 True k = Ok (res, k') \<and>
     (res \<noteq> None \<longrightarrow> length (km_blocks ''a'' k' 0) = 2)"
proof -
  let ?r = "sample_request ''a'' [7, 8, 9, 10, 11, 12]"
  obtain k m where k: "KVCacheManager_init sample_config 100 True False False False = Ok k" "kv_reach 0 (\<lambda>_. 1) k"
      "slots_asked ?r 6 0 (hits_given None k) 0 k" "hits_given None k = [[]]" "slots_needed ?r 6 0 0 k = 6"
      "co_managers (km_coord k) = [m]" "req_to_blocks m = []" "mgr_block_size m = 4"
    by (rule sample_slots)
  have rid: "request_id ?r = ''a''" by (simp add: sample_request_def)
  note c = allocate_slots_contract [OF k(2,3), of True]
  then obtain res k' where a: "allocate_slots 0 (\<lambda>_. 1) ?r 6 0 None 0 True k = Ok (res, k')" by blast
  with c have "allocation_done ?r 6 [[]] k res k'" by (simp add: k(4,5))
  then have "res \<noteq> None \<longrightarrow> length (km_blocks ''a'' k' 0) = 2"
    by (auto simp: allocation_done_def rid k(6-8) list_of_def cdiv_def)
  then show ?thesis using k(1) a by blast
qed

text \<open>
  C23.  Freeing a request never raises, in whatever reachable state: afterwards no group
  lists a block for it, every other request keeps its blocks, no cached hash is lost and
  the number of free blocks has not shrunk.
\<close>

theorem km_free_total:
  assumes "kv_reach nh hf k"
  shows "\<exists>k'. km_free r k = Ok k' \<and> kv_reach nh hf k' \<and>
    (\<forall>j < length (co_managers (km_coord k)). \<forall>rid. km_blocks rid k' j = (if rid = request_id r then [] else km_blocks rid k j)) \<and>
    cached_block_hash_to_block (km_pool k') = cached_block_hash_to_block (km_pool k) \<and>
    get_num_free_blocks (km_pool k) \<le> get_num_free_blocks (km_pool k')"
proof -
  obtain xs where st: "km_state k xs" using kv_reach_state [OF assms] by blast
  obtain k' ys where k': "km_free r k = Ok k'" "km_state k' ys" "length xs \<le> length ys" "same_hashes (km_pool k) (km_pool k')"
      "\<forall>j < length (co_managers (km_coord k)). \<forall>rid. km_blocks rid k' j = (if rid = request_id r then [] else km_blocks rid k j)"
    by (rule km_free_spec [OF st])
  have "get_num_free_blocks (km_pool k) \<le> get_num_free_blocks (km_pool k')"
    using pool_inv_num_free [OF km_state_pool(2) [OF st]] pool_inv_num_free [OF km_state_pool(2) [OF k'(2)]] k'(3) by simp
  then show ?thesis using k' kv_reach.free [OF assms k'(1)] by (auto simp: same_hashes_def)
qed

lemma km_free_total_witness:
  "\<exists>k k'. KVCacheManager_init sample_config 100 True False False False = Ok k \<and>
     km_free (sample_request ''a'' [1]) k = Ok k' \<and> km_blocks ''a'' k' 0 = []"
proof -
  obtain k m where k: "KVCacheManager_init sample_config 100 True False False False = Ok k" "kv_reach 0 (\<lambda>_. 1) k"
      "co_managers (km_coord k) = [m]"
    by (rule sample_manager)
  from km_free_total [OF k(2), of "sample_request ''a'' [1]"] obtain k' where
    "km_free (sample_request ''a'' [1]) k = Ok k'" "km_blocks ''a'' k' 0 = []"
    by (auto simp: k(3) sample_request_def)
  then show ?thesis using k(1) by blast
qed

text \<open>
  C24.  A drained manager is as good as new: once no request lists a block in any group,
  every block but the null block is free, the usage is zero, and resetting the prefix cache
  succeeds without raising and leaves no hash to be found.
\<close>

theorem drained_manager_resets:
  assumes "kv_reach nh hf k" and "\<forall>m \<in> set (co_managers (km_coord k)). \<forall>rid. blocks_of rid m = []"
  shows "get_num_free_blocks (km_pool k) = num_gpu_blocks (km_pool k) - 1 \<and>
    (\<exists>k'. km_reset_prefix_cache k = Ok (True, k') \<and> kv_reach nh hf k' \<and>
      (\<forall>h g gs. get_cached_block h (g # gs) (km_pool k') = None))"
proof -
  obtain xs where st: "km_state k xs" using kv_reach_state [OF assms(1)] by blast
  note none = km_held_empty [OF st assms(2)]
  note l = km_state_pool(1) [OF st, unfolded none] and inv = km_state_pool(2) [OF st]
  have z: "\<forall>b. real_block (km_pool k) b \<longrightarrow> ref_cnt (blk (km_pool k) b) = 0" using l by (simp add: ledger_def)
  obtain p where p: "reset_prefix_cache (km_pool k) = (True, p)" "cached_block_hash_to_block p = []"
    by (rule reset_prefix_cache_spec [OF inv z])
  obtain d k' where k': "km_reset_prefix_cache k = Ok (d, k')" "reset_prefix_cache (km_pool k) = (d, km_pool k')"
    using km_reset_spec [OF st] by blast
  have "\<forall>h g gs. get_cached_block h (g # gs) (km_pool k') = None" using p k'(2) by simp
  then show ?thesis using ledger_accounting [OF l] k' p kv_reach.reset [OF assms(1) k'(1)] by auto
qed

lemma drained_manager_resets_witness:
  "\<exists>k k'. KVCacheManager_init sample_config 100 True False False False = Ok k \<and> km_reset_prefix_cache k = Ok (True, k')"
proof -
  obtain k m where k: "KVCacheManager_init sample_config 100 True False False False = Ok k" "kv_reach 0 (\<lambda>_. 1) k"
      "co_managers (km_coord k) = [m]" "req_to_blocks m = []"
    by (rule sample_manager)
  from drained_manager_resets [OF k(2)] show ?thesis using k by (auto simp: list_of_def)
qed

text \<open>
  C11.  A cache lookup for a request is sound.  It never returns as many tokens as the request has,
  so at least one is left to compute.  When it returns \<open>n\<close> tokens, \<open>n\<close> is a multiple of the block size
  and every group gets a block per position; and the block at position \<open>j\<close> in group \<open>g\<close> carries the
  hash of position \<open>j\<close> among the hashes of the request, tagged with \<open>g\<close>, unless it is the null block at
  a position the attention of the group no longer looks at: before the window of the next token for a
  sliding window, before its chunk for chunked attention, never for full attention (\<open>needed_from\<close>).  The
  hypothesis \<open>hashes_reach\<close> is that hashes stored for the request from an earlier attempt, if there
  are any, cover its tokens but the last.
\<close>

theorem get_computed_blocks_sound:
  assumes "kv_reach nh hf k" and "0 < num_tokens r" and "get_computed_blocks nh hf r k = Ok ((cols, n), k')"
    and "hashes_reach r k"
  shows "kv_reach nh hf k' \<and> n < num_tokens r \<and> length cols = length (co_managers (km_coord k)) \<and>
    (n = 0 \<and> (\<forall>c \<in> set cols. c = []) \<or>
     (\<exists>hs bs i. lookup_hashes nh hf r k = Ok hs \<and> km_block_size k = Some bs \<and> n = int i * bs \<and>
        (\<forall>g < length cols. length (cols ! g) = i \<and>
          (\<forall>j < i. hit_block (km_pool k) (hs ! j) g (cols ! g ! j) \<or>
             (cols ! g ! j = null_block (km_pool k) \<and> j < needed_from (mgr_spec (co_managers (km_coord k) ! g)) i)))))"
proof -
  obtain xs where st: "km_state k xs" and lay: "km_layout k" using kv_reach_state [OF assms(1)] by blast
  have reach: "kv_reach nh hf k'" by (rule kv_reach.computed [OF assms(1,3)])
  from assms(3) show ?thesis
  proof (cases rule: get_computed_blocks_cases)
    case skip
    then show ?thesis using reach assms(2) lay by (simp add: create_empty_block_list_def km_layout_def)
  next
    case (search hs)
    let ?ms = "co_managers (km_coord k)"
    obtain bs where bs: "km_block_size k = Some bs" "0 < bs" "co_layout (km_coord k) bs"
      using lay search(1) by (auto simp: km_layout_def skips_lookup_def)
    have co: "co_state (km_coord k) xs" using st by (simp add: km_state_def)
    have len: "nat ((num_tokens r - 1) div bs) \<le> length hs" by (rule lookup_hashes_length [OF search(2) assms(4) bs(1,2)])
    from co_find_spec [OF co bs(3) _ len bs(2) search(3)] assms(2)
    obtain i where i: "n = int i * bs" "n \<le> num_tokens r - 1" "hits_ok (km_pool k) hs [0..<length (map mgr_spec ?ms)] i cols"
        "cols_filled (km_pool k) (map mgr_spec ?ms) i cols"
      by auto
    have static: "static_inv (km_pool k)" using km_state_pool(2) [OF st] by (simp add: pool_inv_def)
    have cols: "length cols = length ?ms" using i(4) by (auto simp: cols_filled_def dest: list_all2_lengthD)
    have "length (cols ! g) = i \<and> (\<forall>j < i. hit_block (km_pool k) (hs ! j) g (cols ! g ! j) \<or>
        (cols ! g ! j = null_block (km_pool k) \<and> j < needed_from (mgr_spec (?ms ! g)) i))" if "g < length cols" for g
      using hits_entries [OF static i(3,4), of g] that cols by simp
    then have "\<exists>hs bs i. lookup_hashes nh hf r k = Ok hs \<and> km_block_size k = Some bs \<and> n = int i * bs \<and>
        (\<forall>g < length cols. length (cols ! g) = i \<and> (\<forall>j < i. hit_block (km_pool k) (hs ! j) g (cols ! g ! j) \<or>
           (cols ! g ! j = null_block (km_pool k) \<and> j < needed_from (mgr_spec (?ms ! g)) i)))"
      using i(1) search(2) bs(1) by (intro exI [of _ hs] exI [of _ bs] exI [of _ i]) blast
    then show ?thesis using reach i(2) cols by simp
  qed
qed

text \<open>A second request with the tokens of the first finds its first block.\<close>

definition warm_manager :: "kv_cache_manager res" where
  "warm_manager =
     rbind (KVCacheManager_init sample_config 100 True False False False) (\<lambda>k.
     rbind (allocate_slots 0 warm_hash (sample_request ''a'' [7, 8, 9, 10, 11, 12]) 6 0 None 0 False k) (\<lambda>(res, k'). Ok k'))"

lemma warm_manager_lookup:
  "rbind warm_manager (\<lambda>k. rbind (get_computed_blocks 0 warm_hash (sample_request ''b'' [7, 8, 9, 10, 11, 12]) k) (\<lambda>(out, k').
     Ok (out, lookup_hashes 0 warm_hash (sample_request ''b'' [7, 8, 9, 10, 11, 12]) k, list_of ''b'' (req_to_block_hashes k),
         map (\<lambda>m. needed_from (mgr_spec m) 1) (co_managers (km_coord k))))) =
   Ok (([[Blk 1]], 4), Ok [BlockHash 34 [7, 8, 9, 10] None], [], [0])"
  by code_simp

lemma warm_manager_reach:
  assumes "warm_manager = Ok k'"
  shows "kv_reach 0 warm_hash k'"
proof -
  obtain k where k: "KVCacheManager_init sample_config 100 True False False False = Ok k" "kv_reach 0 warm_hash k"
      "slots_asked (sample_request ''a'' [7, 8, 9, 10, 11, 12]) 6 0 (hits_given None k) 0 k"
    by (rule sample_slots)
  obtain res where "allocate_slots 0 warm_hash (sample_request ''a'' [7, 8, 9, 10, 11, 12]) 6 0 None 0 False k = Ok (res, k')"
    using assms k(1) by (auto simp: warm_manager_def res_simps)
  then show "kv_reach 0 warm_hash k'" by (rule kv_reach.alloc [OF k(2,3)])
qed

lemma get_computed_blocks_sound_witness:
  "\<exists>k k'. warm_manager = Ok k \<and>
     get_computed_blocks 0 warm_hash (sample_request ''b'' [7, 8, 9, 10, 11, 12]) k = Ok (([[Blk 1]], 4), k') \<and>
     hit_block (km_pool k) (BlockHash 34 [7, 8, 9, 10] None) 0 (Blk 1)"
proof -
  let ?r = "sample_request ''b'' [7, 8, 9, 10, 11, 12]"
  obtain k k' where k: "warm_manager = Ok k" "get_computed_blocks 0 warm_hash ?r k = Ok (([[Blk 1]], 4), k')"
      "lookup_hashes 0 warm_hash ?r k = Ok [BlockHash 34 [7, 8, 9, 10] None]" "list_of ''b'' (req_to_block_hashes k) = []"
      "map (\<lambda>m. needed_from (mgr_spec m) 1) (co_managers (km_coord k)) = [0]"
    using warm_manager_lookup by (auto simp: res_simps)
  have r: "0 < num_tokens ?r" "hashes_reach ?r k"
    by (simp_all add: num_tokens_def sample_request_def hashes_reach_def k(4))
  from get_computed_blocks_sound [OF warm_manager_reach [OF k(1)] r(1) k(2) r(2)] k(3)
  have "hit_block (km_pool k) (BlockHash 34 [7, 8, 9, 10] None) 0 (Blk 1) \<or> 0 < needed_from (mgr_spec (co_managers (km_coord k) ! 0)) 1"
    by auto
  moreover have "needed_from (mgr_spec (co_managers (km_coord k) ! 0)) 1 = 0" using k(5) by (cases "co_managers (km_coord k)") auto
  ultimately show ?thesis using k(1,2) by auto
qed

text \<open>
  A cache lookup does not raise for a request without extra hash keys, with any mix of
  attention types; only EAGLE together with chunked local attention is excluded, which the
  code rejects.
\<close>

lemma get_computed_blocks_total:
  assumes "kv_reach nh hf k" and "0 < num_tokens r" and "\<not> need_extra_keys r" and "hashes_reach r k"
    and "co_use_eagle (km_coord k) \<longrightarrow> (\<forall>m \<in> set (co_managers (km_coord k)). \<not> is_chunked (mgr_spec m))"
  shows "\<exists>out k'. get_computed_blocks nh hf r k = Ok (out, k')"
  using kv_reach_state [OF assms(1)] get_computed_blocks_returns assms(2-) by blast

end
