(* ===== verification/Encoder_Cache.thy ===== *)
theory Encoder_Cache
  imports Request_Model
begin

text \<open>
  \<open>vllm/v1/core/encoder_cache_manager.py\<close>: the space budget for the outputs of
  multi-modal encoders, and the computation of the encoder budgets at start-up.

  The set of input ids of a request is a list without repetitions, in insertion order;
  Python leaves the order of a set open, and it shows only in the order of \<open>freed\<close>.  The
  multi-modal registry is not part of the sources: the dictionary it returns is an argument.
\<close>

section \<open>State and operations\<close>

record encoder_cache =
  ec_cache_size :: int
  num_free_slots :: int
  ec_cached :: "(string, int list) dict"
  ec_freed :: "(string \<times> int) list"

definition EncoderCacheManager_init :: "int \<Rightarrow> encoder_cache" where
  "EncoderCacheManager_init n = \<lparr>ec_cache_size = n, num_free_slots = n, ec_cached = [], ec_freed = []\<rparr>"

definition has_cache :: "request \<Rightarrow> int \<Rightarrow> encoder_cache \<Rightarrow> bool" where
  "has_cache r i c = (case map_of (ec_cached c) (request_id r) of None \<Rightarrow> False | Some ids \<Rightarrow> i \<in> set ids)"

definition can_allocate :: "request \<Rightarrow> int \<Rightarrow> encoder_cache \<Rightarrow> bool res" where
  "can_allocate r i c = rbind (get_num_encoder_tokens r i) (\<lambda>n. Ok (n \<le> num_free_slots c))"

definition set_add :: "'a \<Rightarrow> 'a list \<Rightarrow> 'a list" where
  "set_add x xs = (if x \<in> set xs then xs else xs @ [x])"

definition ec_allocate :: "request \<Rightarrow> int \<Rightarrow> encoder_cache \<Rightarrow> encoder_cache res" where
  "ec_allocate r i c =
     (let (ids, d) = ddict_get (request_id r) (ec_cached c);
          c1 = c\<lparr>ec_cached := AList.update (request_id r) (set_add i ids) d\<rparr>
      in rbind (get_num_encoder_tokens r i) (\<lambda>n. Ok (c1\<lparr>num_free_slots := num_free_slots c1 - n\<rparr>)))"

definition get_cached_input_ids :: "request \<Rightarrow> encoder_cache \<Rightarrow> int list" where
  "get_cached_input_ids r c = list_of (request_id r) (ec_cached c)"

definition free_encoder_input :: "request \<Rightarrow> int \<Rightarrow> encoder_cache \<Rightarrow> encoder_cache res" where
  "free_encoder_input r i c =
     (case map_of (ec_cached c) (request_id r) of
        None \<Rightarrow> Ok c
      | Some ids \<Rightarrow>
          let ids' = filter (\<lambda>j. j \<noteq> i) ids;
              c1 = c\<lparr>ec_cached := (if ids' = [] then AList.delete (request_id r) (ec_cached c)
                                  else AList.update (request_id r) ids' (ec_cached c))\<rparr>
          in rbind (get_num_encoder_tokens r i) (\<lambda>n.
             Ok (c1\<lparr>num_free_slots := num_free_slots c1 + n, ec_freed := ec_freed c1 @ [(request_id r, i)]\<rparr>)))"

definition ec_free :: "request \<Rightarrow> encoder_cache \<Rightarrow> encoder_cache res" where
  "ec_free r c = rfold (free_encoder_input r) (get_cached_input_ids r c) c"

definition get_freed_ids :: "encoder_cache \<Rightarrow> (string \<times> int) list \<times> encoder_cache" where
  "get_freed_ids c = (ec_freed c, c\<lparr>ec_freed := []\<rparr>)"

section \<open>Budgets\<close>

record mm_scheduler_config =
  disable_chunked_mm_input :: bool
  mm_max_num_batched_tokens :: int
  max_num_encoder_input_tokens :: int
  cfg_encoder_cache_size :: int

text \<open>\<open>max(d.items(), key=lambda item: item[1])\<close> keeps the first of several greatest items.\<close>

fun max_item :: "('k \<times> int) list \<Rightarrow> 'k \<times> int \<Rightarrow> 'k \<times> int" where
  "max_item [] best = best"
| "max_item (x # xs) best = max_item xs (if snd x > snd best then x else best)"

definition compute_encoder_budget_multimodal :: "mm_scheduler_config \<Rightarrow> (string, int) dict \<Rightarrow> (int \<times> int) res" where
  "compute_encoder_budget_multimodal sc max_tokens_by_modality =
     (case max_tokens_by_modality of
        [] \<Rightarrow> Ok (0, 0)
      | x # xs \<Rightarrow>
          let max_tokens_per_mm_item = snd (max_item xs x)
          in if disable_chunked_mm_input sc \<and> max_tokens_per_mm_item > mm_max_num_batched_tokens sc
             then Err ValueError
             else Ok (max (max_num_encoder_input_tokens sc) max_tokens_per_mm_item,
                      max (cfg_encoder_cache_size sc) max_tokens_per_mm_item))"

definition compute_encoder_budget :: "bool \<Rightarrow> mm_scheduler_config \<Rightarrow> (string, int) dict \<Rightarrow> (int \<times> int) res" where
  "compute_encoder_budget is_multimodal_model sc max_tokens_by_modality =
     (if \<not> is_multimodal_model then Ok (0, 0)
      else compute_encoder_budget_multimodal sc max_tokens_by_modality)"

section \<open>The space in use\<close>

text \<open>The multi-modal items of a request never change: \<open>env\<close> gives them by request id.\<close>

type_synonym mm_env = "string \<Rightarrow> placeholder_range list"

definition item_ok :: "mm_env \<Rightarrow> string \<Rightarrow> int \<Rightarrow> bool" where
  "item_ok env rid i \<longleftrightarrow> 0 \<le> i \<and> i < int (length (env rid))"

definition item_tokens :: "mm_env \<Rightarrow> string \<Rightarrow> int \<Rightarrow> int" where
  "item_tokens env rid i = mm_length (env rid ! nat i)"

definition env_request :: "mm_env \<Rightarrow> request \<Rightarrow> bool" where
  "env_request env r \<longleftrightarrow> mm_positions r = env (request_id r) \<and> (\<forall>p \<in> set (mm_positions r). 0 \<le> mm_length p)"

definition used_slots :: "mm_env \<Rightarrow> (string, int list) dict \<Rightarrow> int" where
  "used_slots env d = (\<Sum>(rid, ids)\<leftarrow>d. \<Sum>i\<leftarrow>ids. item_tokens env rid i)"

definition ec_inv :: "mm_env \<Rightarrow> encoder_cache \<Rightarrow> bool" where
  "ec_inv env c \<longleftrightarrow> wf_dict (ec_cached c) \<and> 0 \<le> num_free_slots c \<and>
     num_free_slots c + used_slots env (ec_cached c) = ec_cache_size c \<and>
     (\<forall>rid ids. map_of (ec_cached c) rid = Some ids \<longrightarrow> ids \<noteq> [] \<and> distinct ids \<and>
        (\<forall>i \<in> set ids. item_ok env rid i \<and> 0 \<le> item_tokens env rid i))"

inductive ec_reach :: "mm_env \<Rightarrow> encoder_cache \<Rightarrow> bool" for env where
  start: "0 \<le> n \<Longrightarrow> ec_reach env (EncoderCacheManager_init n)"
| alloc: "ec_reach env c \<Longrightarrow> env_request env r \<Longrightarrow> 0 \<le> i \<Longrightarrow> \<not> has_cache r i c \<Longrightarrow> can_allocate r i c = Ok True \<Longrightarrow>
    ec_allocate r i c = Ok c' \<Longrightarrow> ec_reach env c'"
| free_one: "ec_reach env c \<Longrightarrow> env_request env r \<Longrightarrow> has_cache r i c \<Longrightarrow>
    free_encoder_input r i c = Ok c' \<Longrightarrow> ec_reach env c'"
| free_all: "ec_reach env c \<Longrightarrow> env_request env r \<Longrightarrow> ec_free r c = Ok c' \<Longrightarrow> ec_reach env c'"
| report: "ec_reach env c \<Longrightarrow> get_freed_ids c = (fs, c') \<Longrightarrow> ec_reach env c'"

lemma used_slots_simps [simp]:
  "used_slots env [] = 0"
  "used_slots env ((rid, ids) # d) = (\<Sum>i\<leftarrow>ids. item_tokens env rid i) + used_slots env d"
  by (simp_all add: used_slots_def)

lemma used_slots_update:
  "wf_dict d \<Longrightarrow> used_slots env (AList.update rid ids d) + (\<Sum>i\<leftarrow>list_of rid d. item_tokens env rid i) =
     used_slots env d + (\<Sum>i\<leftarrow>ids. item_tokens env rid i)"
proof (induction d)
  case (Cons p d)
  obtain rid' ids' where p: "p = (rid', ids')" by (cases p)
  show ?case
  proof (cases "rid' = rid")
    case True
    then show ?thesis by (simp add: p list_of_def)
  next
    case False
    then have "list_of rid (p # d) = list_of rid d" by (simp add: p list_of_def)
    moreover have "wf_dict d" using Cons.prems by (simp add: wf_dict_def)
    ultimately show ?thesis using Cons.IH False by (simp add: p)
  qed
qed (simp add: list_of_def)

lemma used_slots_delete:
  "wf_dict d \<Longrightarrow> used_slots env (AList.delete rid d) + (\<Sum>i\<leftarrow>list_of rid d. item_tokens env rid i) = used_slots env d"
proof (induction d)
  case (Cons p d)
  obtain rid' ids' where p: "p = (rid', ids')" by (cases p)
  have d: "wf_dict d" using Cons.prems by (simp add: wf_dict_def)
  show ?case
  proof (cases "rid' = rid")
    case True
    then have "map_of d rid = None" using Cons.prems by (simp add: p wf_dict_def map_of_eq_None_iff)
    then have "AList.delete rid d = d" by (simp add: delete_id map_of_eq_None_iff)
    then show ?thesis using True by (simp add: p list_of_def)
  next
    case False
    then have "list_of rid (p # d) = list_of rid d" by (simp add: p list_of_def)
    then show ?thesis using Cons.IH [OF d] False by (simp add: p)
  qed
qed (simp add: list_of_def)

lemma encoder_tokens:
  assumes "env_request env r" and "0 \<le> i"
  shows "get_num_encoder_tokens r i = (if item_ok env (request_id r) i then Ok (item_tokens env (request_id r) i) else Err AssertionError)"
    and "item_ok env (request_id r) i \<Longrightarrow> 0 \<le> item_tokens env (request_id r) i"
proof -
  have e: "mm_positions r = env (request_id r)" "\<forall>p \<in> set (env (request_id r)). 0 \<le> mm_length p"
    using assms(1) by (auto simp: env_request_def)
  show "get_num_encoder_tokens r i = (if item_ok env (request_id r) i then Ok (item_tokens env (request_id r) i) else Err AssertionError)"
    using assms(2) by (simp add: get_num_encoder_tokens_def e(1) item_ok_def item_tokens_def py_index_def)
  show "item_ok env (request_id r) i \<Longrightarrow> 0 \<le> item_tokens env (request_id r) i"
    using assms(2) e(2) by (simp add: item_ok_def item_tokens_def)
qed

lemma ec_invD:
  assumes "ec_inv env c"
  shows "wf_dict (ec_cached c)" and "distinct (list_of rid (ec_cached c))"
    and "i \<in> set (list_of rid (ec_cached c)) \<Longrightarrow> item_ok env rid i \<and> 0 \<le> i \<and> 0 \<le> item_tokens env rid i"
  using assms by (cases "map_of (ec_cached c) rid"; auto simp: ec_inv_def list_of_def item_ok_def)+

lemma has_cache_iff: "has_cache r i c \<longleftrightarrow> i \<in> set (list_of (request_id r) (ec_cached c))"
  by (simp add: has_cache_def list_of_def split: option.splits)

lemma used_slots_nonneg: "ec_inv env c \<Longrightarrow> 0 \<le> used_slots env (ec_cached c)"
proof -
  assume inv: "ec_inv env c"
  then have "\<forall>rid ids. (rid, ids) \<in> set (ec_cached c) \<longrightarrow> (\<forall>i \<in> set ids. 0 \<le> item_tokens env rid i)"
    by (auto simp: ec_inv_def wf_dict_def dest: map_of_is_SomeI)
  then have "0 \<le> used_slots env d" if "set d \<subseteq> set (ec_cached c)" for d
    using that by (induction d) (auto intro!: add_nonneg_nonneg sum_list_nonneg)
  then show ?thesis by simp
qed

lemma ec_allocate_spec:
  assumes "ec_inv env c" and "env_request env r" and "0 \<le> i" and "\<not> has_cache r i c" and "can_allocate r i c = Ok True"
  obtains c' where "ec_allocate r i c = Ok c'" and "ec_inv env c'" and "has_cache r i c'"
    and "num_free_slots c' = num_free_slots c - item_tokens env (request_id r) i"
    and "ec_cache_size c' = ec_cache_size c" and "ec_freed c' = ec_freed c"
    and "\<forall>rid j. j \<in> set (list_of rid (ec_cached c')) \<longleftrightarrow> j \<in> set (list_of rid (ec_cached c)) \<or> rid = request_id r \<and> j = i"
proof -
  let ?rid = "request_id r"
  let ?ids = "list_of ?rid (ec_cached c) @ [i]"
  let ?d = "AList.update ?rid ?ids (snd (ddict_get ?rid (ec_cached c)))"
  note t = encoder_tokens [OF assms(2,3)] and D = ec_invD [OF assms(1)]
  have ok: "item_ok env ?rid i" and le: "item_tokens env ?rid i \<le> num_free_slots c"
    using assms(5) t(1) by (auto simp: can_allocate_def split: if_splits)
  define c' where "c' = c\<lparr>ec_cached := ?d, num_free_slots := num_free_slots c - item_tokens env ?rid i\<rparr>"
  have "i \<notin> set (list_of ?rid (ec_cached c))" using assms(4) by (simp add: has_cache_iff)
  then have res: "ec_allocate r i c = Ok c'"
    using ok t(1) by (simp add: ec_allocate_def split_beta set_add_def c'_def)
  have m: "map_of ?d = (map_of (ec_cached c))(?rid \<mapsto> ?ids)" by (simp add: update_conv' map_of_ddict_get)
  have "used_slots env (snd (ddict_get ?rid (ec_cached c))) = used_slots env (ec_cached c)"
    using used_slots_update [OF D(1), of env ?rid "[]"] by (auto simp: ddict_get_def list_of_def split: option.splits)
  then have "used_slots env ?d = used_slots env (ec_cached c) + item_tokens env ?rid i"
    using used_slots_update [of "snd (ddict_get ?rid (ec_cached c))" env ?rid ?ids] D(1) by simp
  moreover have "distinct ?ids" "\<forall>j \<in> set ?ids. item_ok env ?rid j \<and> 0 \<le> item_tokens env ?rid j"
    using D(2,3) assms(4) ok t(2) by (auto simp: has_cache_iff)
  ultimately have "ec_inv env c'"
    using assms(1) le D(1) unfolding ec_inv_def c'_def by (auto simp: m)
  then show thesis using res
    by (intro that [of c']) (auto simp: c'_def has_cache_iff)
qed

lemma sum_list_without:
  "distinct xs \<Longrightarrow> x \<in> set xs \<Longrightarrow> (\<Sum>j\<leftarrow>xs. f j :: int) = (\<Sum>j\<leftarrow>filter (\<lambda>j. j \<noteq> x) xs. f j) + f x"
proof (induction xs)
  case (Cons y xs)
  have "filter (\<lambda>j. j \<noteq> x) xs = xs" if "x \<notin> set xs" using that by (auto simp: filter_id_conv)
  with Cons show ?case by (cases "y = x") auto
qed simp

lemma free_encoder_input_spec:
  assumes "ec_inv env c" and "env_request env r" and "has_cache r i c"
  obtains c' where "free_encoder_input r i c = Ok c'" and "ec_inv env c'"
    and "num_free_slots c' = num_free_slots c + item_tokens env (request_id r) i"
    and "ec_cache_size c' = ec_cache_size c" and "ec_freed c' = ec_freed c @ [(request_id r, i)]"
    and "\<forall>rid. list_of rid (ec_cached c') =
           (if rid = request_id r then filter (\<lambda>j. j \<noteq> i) (list_of rid (ec_cached c)) else list_of rid (ec_cached c))"
proof -
  let ?rid = "request_id r" and ?d = "ec_cached c"
  let ?old = "list_of ?rid ?d" let ?ids = "filter (\<lambda>j. j \<noteq> i) ?old"
  let ?d' = "if ?ids = [] then AList.delete ?rid ?d else AList.update ?rid ?ids ?d"
  note D = ec_invD [OF assms(1)]
  have mem: "i \<in> set ?old" using assms(3) by (simp add: has_cache_iff)
  then have ok: "item_ok env ?rid i" "0 \<le> i" "0 \<le> item_tokens env ?rid i" using D(3) by auto
  note t = encoder_tokens [OF assms(2) ok(2)]
  define c' where "c' = c\<lparr>ec_cached := ?d', num_free_slots := num_free_slots c + item_tokens env ?rid i,
      ec_freed := ec_freed c @ [(?rid, i)]\<rparr>"
  have some: "map_of ?d ?rid = Some ?old" using mem by (cases "map_of ?d ?rid") (auto simp: list_of_def)
  then have res: "free_encoder_input r i c = Ok c'" using t(1) ok(1)
    by (auto simp: free_encoder_input_def c'_def Let_def)
  have lists: "list_of rid ?d' = (if rid = ?rid then ?ids else list_of rid ?d)" for rid
    by (simp add: list_of_def delete_conv' update_conv')
  have "(\<Sum>j\<leftarrow>?old. item_tokens env ?rid j) = (\<Sum>j\<leftarrow>?ids. item_tokens env ?rid j) + item_tokens env ?rid i"
    by (rule sum_list_without [OF D(2) mem])
  then have used: "used_slots env ?d' + item_tokens env ?rid i = used_slots env ?d"
    using used_slots_update [OF D(1), of env ?rid ?ids] used_slots_delete [OF D(1), of env ?rid] by auto
  have ids: "ids \<noteq> [] \<and> distinct ids \<and> (\<forall>i \<in> set ids. item_ok env rid i \<and> 0 \<le> item_tokens env rid i)"
    if "map_of ?d' rid = Some ids" for rid ids
  proof (cases "rid = ?rid")
    case True
    have "map_of ?d' ?rid = (if ?ids = [] then None else Some ?ids)" by (simp add: delete_conv' update_conv')
    then have "ids = ?ids" "ids \<noteq> []" using that True by (simp_all split: if_splits)
    then show ?thesis using D(2) [of ?rid] D(3) [of _ ?rid] True by simp
  next
    case False
    then have "map_of ?d' rid = map_of ?d rid" by (simp add: delete_conv' update_conv')
    then show ?thesis using assms(1) that unfolding ec_inv_def by metis
  qed
  have fields: "ec_cached c' = ?d'" "num_free_slots c' = num_free_slots c + item_tokens env ?rid i" "ec_cache_size c' = ec_cache_size c"
    by (simp_all add: c'_def)
  have free: "0 \<le> num_free_slots c" "num_free_slots c + used_slots env ?d = ec_cache_size c" using assms(1) by (auto simp: ec_inv_def)
  have "wf_dict ?d'" using D(1) by simp
  moreover have "num_free_slots c + item_tokens env ?rid i + used_slots env ?d' = ec_cache_size c" using free(2) used by linarith
  moreover have "0 \<le> num_free_slots c + item_tokens env ?rid i" using free(1) ok(3) by simp
  ultimately have "ec_inv env c'" unfolding ec_inv_def fields using ids by blast
  moreover have "ec_freed c' = ec_freed c @ [(?rid, i)]" by (simp add: c'_def)
  moreover have "\<forall>rid. list_of rid (ec_cached c') = (if rid = ?rid then filter (\<lambda>j. j \<noteq> i) (list_of rid ?d) else list_of rid ?d)"
    unfolding fields(1) lists by simp
  ultimately show thesis using that [of c'] res fields(2,3) by blast
qed

text \<open>Freeing all inputs of a request, in any order of its ids.\<close>

lemma free_inputs_spec:
  assumes "ec_inv env c" and "env_request env r" and "distinct ids" and "set ids \<subseteq> set (list_of (request_id r) (ec_cached c))"
  shows "\<exists>c'. rfold (free_encoder_input r) ids c = Ok c' \<and> ec_inv env c' \<and> ec_cache_size c' = ec_cache_size c \<and>
    num_free_slots c' = num_free_slots c + (\<Sum>i\<leftarrow>ids. item_tokens env (request_id r) i) \<and>
    ec_freed c' = ec_freed c @ map (Pair (request_id r)) ids \<and>
    (\<forall>rid. list_of rid (ec_cached c') =
       (if rid = request_id r then filter (\<lambda>j. j \<notin> set ids) (list_of rid (ec_cached c)) else list_of rid (ec_cached c)))"
  using assms(1,3,4)
proof (induction ids arbitrary: c)
  case Nil
  then show ?case by simp
next
  case (Cons i ids)
  have "has_cache r i c" using Cons.prems(3) by (simp add: has_cache_iff)
  from Cons.prems(1) assms(2) this obtain c1 where c1: "free_encoder_input r i c = Ok c1" "ec_inv env c1"
      "num_free_slots c1 = num_free_slots c + item_tokens env (request_id r) i" "ec_cache_size c1 = ec_cache_size c"
      "ec_freed c1 = ec_freed c @ [(request_id r, i)]"
      "\<forall>rid. list_of rid (ec_cached c1) =
           (if rid = request_id r then filter (\<lambda>j. j \<noteq> i) (list_of rid (ec_cached c)) else list_of rid (ec_cached c))"
    by (rule free_encoder_input_spec)
  have sub: "set ids \<subseteq> set (list_of (request_id r) (ec_cached c1))" using Cons.prems(2,3) by (auto simp: c1(6))
  obtain c' where c': "rfold (free_encoder_input r) ids c1 = Ok c'" "ec_inv env c'" "ec_cache_size c' = ec_cache_size c1"
      "num_free_slots c' = num_free_slots c1 + (\<Sum>i\<leftarrow>ids. item_tokens env (request_id r) i)"
      "ec_freed c' = ec_freed c1 @ map (Pair (request_id r)) ids"
      "\<forall>rid. list_of rid (ec_cached c') =
         (if rid = request_id r then filter (\<lambda>j. j \<notin> set ids) (list_of rid (ec_cached c1)) else list_of rid (ec_cached c1))"
    using Cons.IH [OF c1(2) _ sub] Cons.prems(2) by auto
  show ?case by (intro exI [of _ c']) (use c1 c' in \<open>auto simp: conj_commute intro!: filter_cong\<close>)
qed

lemma ec_free_spec:
  assumes "ec_inv env c" and "env_request env r"
  obtains c' where "ec_free r c = Ok c'" and "ec_inv env c'" and "ec_cache_size c' = ec_cache_size c"
    and "num_free_slots c' = num_free_slots c + (\<Sum>i\<leftarrow>list_of (request_id r) (ec_cached c). item_tokens env (request_id r) i)"
    and "ec_freed c' = ec_freed c @ map (Pair (request_id r)) (list_of (request_id r) (ec_cached c))"
    and "\<forall>rid. list_of rid (ec_cached c') = (if rid = request_id r then [] else list_of rid (ec_cached c))"
  using free_inputs_spec [OF assms ec_invD(2) [OF assms(1)] subset_refl]
  by (auto simp: ec_free_def get_cached_input_ids_def)

lemma ec_reach_inv: "ec_reach env c \<Longrightarrow> ec_inv env c"
proof (induction rule: ec_reach.induct)
  case (start n)
  then show ?case by (simp add: ec_inv_def EncoderCacheManager_init_def)
next
  case (alloc c r i c')
  show ?case by (rule ec_allocate_spec [OF alloc.IH alloc.hyps(2-5)]) (use alloc.hyps(6) in simp)
next
  case (free_one c r i c')
  show ?case by (rule free_encoder_input_spec [OF free_one.IH free_one.hyps(2,3)]) (use free_one.hyps(4) in simp)
next
  case (free_all c r c')
  show ?case by (rule ec_free_spec [OF free_all.IH free_all.hyps(2)]) (use free_all.hyps(3) in simp)
next
  case (report c fs c')
  then have "c' = c\<lparr>ec_freed := []\<rparr>" by (simp add: get_freed_ids_def)
  with report.IH show ?case by (simp add: ec_inv_def)
qed

section \<open>Properties\<close>

text \<open>
  C26.  The encoder cache never overcommits: in every reachable state the free slots are
  between zero and the capacity, and free slots plus the tokens of all cached items are the
  capacity.  An allocation that was checked with \<open>can_allocate\<close> does not raise.
\<close>

theorem encoder_cache_accounting:
  assumes "ec_reach env c"
  shows "0 \<le> num_free_slots c \<and> num_free_slots c \<le> ec_cache_size c \<and>
    num_free_slots c + used_slots env (ec_cached c) = ec_cache_size c \<and>
    (\<forall>r i. env_request env r \<longrightarrow> 0 \<le> i \<longrightarrow> \<not> has_cache r i c \<longrightarrow> can_allocate r i c = Ok True \<longrightarrow>
       (\<exists>c'. ec_allocate r i c = Ok c' \<and> ec_reach env c' \<and> has_cache r i c'))"
proof -
  note inv = ec_reach_inv [OF assms]
  have "\<exists>c'. ec_allocate r i c = Ok c' \<and> ec_reach env c' \<and> has_cache r i c'"
    if h: "env_request env r" "0 \<le> i" "\<not> has_cache r i c" "can_allocate r i c = Ok True" for r i
    by (rule ec_allocate_spec [OF inv h]) (use ec_reach.alloc [OF assms h] in blast)
  then show ?thesis using inv used_slots_nonneg [OF inv] by (auto simp: ec_inv_def)
qed

text \<open>A request with one image of three tokens.\<close>

definition sample_image_request :: "string \<Rightarrow> request" where
  "sample_image_request rid =
     \<lparr>request_id = rid, client_index = 0, priority = 0, sampling = None, pooling = None, eos_token_id = Some 2,
      lora = None, arrival_time = 0, status = WAITING, req_events = [], stop_reason = None, kv_transfer_params = None,
      max_tokens = 16, prompt_token_ids = [1, 1, 1, 1], output_token_ids = [], all_token_ids = [1, 1, 1, 1],
      num_output_placeholders = 0, spec_token_ids = [], num_computed_tokens = 0, cache_salt = None,
      mm_positions = [\<lparr>mm_offset = 0, mm_length = 3\<rparr>], mm_inputs = [''img''], mm_hashes = [],
      num_cached_tokens = -1, num_nans_in_logits = 0\<rparr>"

lemma encoder_cache_accounting_witness:
  "\<exists>c. ec_allocate (sample_image_request ''a'') 0 (EncoderCacheManager_init 5) = Ok c \<and> has_cache (sample_image_request ''a'') 0 c"
proof -
  let ?env = "\<lambda>_. [\<lparr>mm_offset = 0, mm_length = 3\<rparr>]"
  have "ec_reach ?env (EncoderCacheManager_init 5)" by (rule ec_reach.start) simp
  note a = encoder_cache_accounting [OF this]
  have "env_request ?env (sample_image_request ''a'')" "\<not> has_cache (sample_image_request ''a'') 0 (EncoderCacheManager_init 5)"
    "can_allocate (sample_image_request ''a'') 0 (EncoderCacheManager_init 5) = Ok True"
    by (simp_all add: env_request_def has_cache_def can_allocate_def get_num_encoder_tokens_def sample_image_request_def
        EncoderCacheManager_init_def py_index_def)
  with a show ?thesis by (meson order_refl)
qed

text \<open>
  Freeing a request returns all of its space: it does not raise, no item of the request
  stays cached, other requests keep theirs, exactly the freed items are reported for removal
  on the workers, and a cache without items is entirely free.
\<close>

lemma encoder_free_exact:
  assumes "ec_reach env c" and "env_request env r"
  shows "\<exists>c'. ec_free r c = Ok c' \<and> ec_reach env c' \<and>
    (\<forall>rid. list_of rid (ec_cached c') = (if rid = request_id r then [] else list_of rid (ec_cached c))) \<and>
    fst (get_freed_ids c') = ec_freed c @ map (Pair (request_id r)) (get_cached_input_ids r c) \<and>
    ((\<forall>rid. list_of rid (ec_cached c') = []) \<longrightarrow> num_free_slots c' = ec_cache_size c')"
proof -
  note inv = ec_reach_inv [OF assms(1)]
  obtain c' where c': "ec_free r c = Ok c'" "ec_inv env c'"
      "ec_freed c' = ec_freed c @ map (Pair (request_id r)) (list_of (request_id r) (ec_cached c))"
      "\<forall>rid. list_of rid (ec_cached c') = (if rid = request_id r then [] else list_of rid (ec_cached c))"
    by (rule ec_free_spec [OF inv assms(2)])
  have "num_free_slots c' = ec_cache_size c'" if e: "\<forall>rid. list_of rid (ec_cached c') = []"
  proof -
    have "map_of (ec_cached c') rid = None" for rid
      using c'(2) e by (cases "map_of (ec_cached c') rid") (auto simp: ec_inv_def list_of_def split: option.splits)
    then have "ec_cached c' = []" by (metis list.set_intros(1) map_of_eq_None_iff image_eqI neq_Nil_conv)
    then show ?thesis using c'(2) by (simp add: ec_inv_def)
  qed
  then show ?thesis using c' ec_reach.free_all [OF assms c'(1)]
    by (intro exI [of _ c']) (simp add: get_freed_ids_def get_cached_input_ids_def)
qed

lemma max_item_spec:
  "max_item xs best \<in> set (best # xs)" "\<forall>x \<in> set (best # xs). snd x \<le> snd (max_item xs best)"
proof (induction xs arbitrary: best)
  case (Cons y xs)
  { case 1
    show ?case using Cons.IH(1) [of "if snd y > snd best then y else best"] by (auto split: if_splits)
  next
    case 2
    show ?case using Cons.IH(2) [of "if snd y > snd best then y else best"] by (auto split: if_splits) }
qed simp_all

text \<open>
  The encoder budgets cover the largest item: whenever they are computed for a
  multi-modal model, an item of every modality fits into the compute budget and into the
  encoder cache; and without chunked multi-modal input it also fits into one batch, because
  otherwise the computation raises \<open>ValueError\<close>.
\<close>

lemma encoder_budget_covers_items:
  assumes "(m, n) \<in> set ms"
  shows "(case compute_encoder_budget True sc ms of
      Ok (compute, space) \<Rightarrow> n \<le> compute \<and> n \<le> space \<and> max_num_encoder_input_tokens sc \<le> compute \<and>
        (disable_chunked_mm_input sc \<longrightarrow> n \<le> mm_max_num_batched_tokens sc)
    | Err e \<Rightarrow> e = ValueError \<and> disable_chunked_mm_input sc \<and> (\<exists>(m', n') \<in> set ms. mm_max_num_batched_tokens sc < n'))"
proof -
  obtain x xs where ms: "ms = x # xs" using assms by (cases ms) auto
  have "n \<le> snd (max_item xs x)" using max_item_spec(2) [of x xs] assms ms by force
  moreover have "max_item xs x \<in> set ms" using max_item_spec(1) [of xs x] ms by simp
  ultimately show ?thesis
    by (auto simp: compute_encoder_budget_def compute_encoder_budget_multimodal_def ms Let_def
        intro!: bexI [of _ "max_item xs x"] split: prod.splits)
qed

end
