(* ===== verification/Request_Queue.thy ===== *)
theory Request_Queue
  imports Block_Hashing "HOL-Library.Product_Lexorder"
begin

text \<open>
  \<open>vllm/v1/core/sched/request_queue.py\<close>: the waiting queue of the scheduler, first come
  first served or by priority.  A queue holds requests by their ids.  The priority queue is
  Python's \<open>heapq\<close> on a list of tuples \<open>(priority, arrival_time, request)\<close>, and the sifting of
  \<open>heapq\<close> is modelled step by step: comparing two tuples that differ only in the request asks
  for an order of \<open>Request\<close> objects, which does not exist, and raises \<open>TypeError\<close>.
\<close>

section \<open>Entries\<close>

datatype scheduling_policy = FCFS | PRIORITY

record entry =
  e_priority :: int
  e_arrival :: int
  e_request :: string

definition entry_of :: "request \<Rightarrow> entry" where
  "entry_of r = \<lparr>e_priority = priority r, e_arrival = arrival_time r, e_request = request_id r\<rparr>"

text \<open>Tuple comparison: the first components that differ decide.\<close>

definition entry_lt :: "entry \<Rightarrow> entry \<Rightarrow> bool res" where
  "entry_lt a b =
     (if e_priority a \<noteq> e_priority b then Ok (e_priority a < e_priority b)
      else if e_arrival a \<noteq> e_arrival b then Ok (e_arrival a < e_arrival b)
      else if e_request a \<noteq> e_request b then Err TypeError
      else Ok False)"

section \<open>Sifting\<close>

definition par :: "nat \<Rightarrow> nat" where
  "par i = (i - 1) div 2"

lemma par_less [termination_simp]: "0 < i \<Longrightarrow> par i < i"
  by (simp add: par_def)

lemma par_children: "par i = p \<and> 0 < i \<longleftrightarrow> i = 2 * p + 1 \<or> i = 2 * p + 2"
  unfolding par_def by linarith

fun siftdown_loop :: "nat \<Rightarrow> entry \<Rightarrow> nat \<Rightarrow> entry list \<Rightarrow> (entry list \<times> nat) res" where
  "siftdown_loop startpos newitem pos h =
     (if pos > startpos
      then rbind (entry_lt newitem (h ! par pos)) (\<lambda>lt.
           if lt then siftdown_loop startpos newitem (par pos) (h[pos := h ! par pos])
           else Ok (h, pos))
      else Ok (h, pos))"

declare siftdown_loop.simps [simp del]

definition siftdown :: "nat \<Rightarrow> nat \<Rightarrow> entry list \<Rightarrow> entry list res" where
  "siftdown startpos pos h =
     rbind (siftdown_loop startpos (h ! pos) pos h) (\<lambda>(h', pos'). Ok (h'[pos' := h ! pos]))"

text \<open>The smaller child of \<open>pos\<close>, the right one when they are equal.\<close>

definition smaller_child :: "nat \<Rightarrow> entry list \<Rightarrow> nat res" where
  "smaller_child pos h =
     (let childpos = 2 * pos + 1; rightpos = childpos + 1
      in if rightpos < length h
         then rbind (entry_lt (h ! childpos) (h ! rightpos)) (\<lambda>lt. Ok (if lt then childpos else rightpos))
         else Ok childpos)"

lemma smaller_child_gt: "smaller_child pos h = Ok c \<Longrightarrow> pos < c"
  by (auto simp: smaller_child_def Let_def res_simps split: if_splits)

function siftup_loop :: "nat \<Rightarrow> entry list \<Rightarrow> (entry list \<times> nat) res" where
  "siftup_loop pos h =
     (if 2 * pos + 1 < length h
      then rbind (smaller_child pos h) (\<lambda>c. siftup_loop c (h[pos := h ! c]))
      else Ok (h, pos))"
  by pat_completeness auto
termination
  by (relation "measure (\<lambda>(pos, h). length h - pos)") (auto dest: smaller_child_gt)

declare siftup_loop.simps [simp del]

definition siftup :: "nat \<Rightarrow> entry list \<Rightarrow> entry list res" where
  "siftup pos h =
     rbind (siftup_loop pos h) (\<lambda>(h', pos'). siftdown pos pos' (h'[pos' := h ! pos]))"

definition heappush :: "entry list \<Rightarrow> entry \<Rightarrow> entry list res" where
  "heappush h x = siftdown 0 (length h) (h @ [x])"

definition heappop :: "entry list \<Rightarrow> (entry \<times> entry list) res" where
  "heappop h =
     (if h = [] then Err IndexError
      else let lastelt = last h; h' = butlast h
           in if h' = [] then Ok (lastelt, [])
              else rbind (siftup 0 (h'[0 := lastelt])) (\<lambda>h''. Ok (h' ! 0, h'')))"

fun heapify_loop :: "nat \<Rightarrow> entry list \<Rightarrow> entry list res" where
  "heapify_loop 0 h = Ok h"
| "heapify_loop (Suc i) h = rbind (siftup i h) (heapify_loop i)"

definition heapify :: "entry list \<Rightarrow> entry list res" where
  "heapify h = heapify_loop (length h div 2) h"

section \<open>Queues\<close>

datatype request_queue = FCFSQueue "entry list" | PriorityQueue "entry list"

definition create_request_queue :: "scheduling_policy \<Rightarrow> request_queue" where
  "create_request_queue policy = (case policy of PRIORITY \<Rightarrow> PriorityQueue [] | FCFS \<Rightarrow> FCFSQueue [])"

fun add_request_q :: "entry \<Rightarrow> request_queue \<Rightarrow> request_queue res" where
  "add_request_q e (FCFSQueue xs) = Ok (FCFSQueue (xs @ [e]))"
| "add_request_q e (PriorityQueue h) = rbind (heappush h e) (\<lambda>h'. Ok (PriorityQueue h'))"

fun pop_request :: "request_queue \<Rightarrow> (string \<times> request_queue) res" where
  "pop_request (FCFSQueue xs) = (case xs of [] \<Rightarrow> Err IndexError | x # xs' \<Rightarrow> Ok (e_request x, FCFSQueue xs'))"
| "pop_request (PriorityQueue h) =
     (if h = [] then Err IndexError
      else rbind (heappop h) (\<lambda>(x, h'). Ok (e_request x, PriorityQueue h')))"

fun peek_request :: "request_queue \<Rightarrow> string res" where
  "peek_request (FCFSQueue xs) = (if xs = [] then Err IndexError else Ok (e_request (xs ! 0)))"
| "peek_request (PriorityQueue h) = (if h = [] then Err IndexError else Ok (e_request (h ! 0)))"

fun prepend_request :: "entry \<Rightarrow> request_queue \<Rightarrow> request_queue res" where
  "prepend_request e (FCFSQueue xs) = Ok (FCFSQueue (e # xs))"
| "prepend_request e (PriorityQueue h) = add_request_q e (PriorityQueue h)"

text \<open>Iterating a priority queue pops a copy of its heap; its length bounds the pops.\<close>

fun iter_heap :: "nat \<Rightarrow> entry list \<Rightarrow> entry list res" where
  "iter_heap 0 h = Ok []"
| "iter_heap (Suc n) h =
     (if h = [] then Ok []
      else rbind (heappop h) (\<lambda>(x, h'). rbind (iter_heap n h') (\<lambda>xs. Ok (x # xs))))"

fun queue_iter :: "request_queue \<Rightarrow> entry list res" where
  "queue_iter (FCFSQueue xs) = Ok xs"
| "queue_iter (PriorityQueue h) = iter_heap (length h) h"

definition queue_reversed :: "request_queue \<Rightarrow> entry list res" where
  "queue_reversed q = rbind (queue_iter q) (\<lambda>xs. Ok (rev xs))"

fun prepend_requests :: "request_queue \<Rightarrow> request_queue \<Rightarrow> request_queue res" where
  "prepend_requests other (FCFSQueue xs) =
     rbind (queue_reversed other) (\<lambda>ys. Ok (FCFSQueue (fold (#) ys xs)))"
| "prepend_requests other (PriorityQueue h) =
     rbind (queue_iter other) (\<lambda>ys. rfold add_request_q ys (PriorityQueue h))"

text \<open>\<open>deque.remove\<close> drops the first occurrence and raises \<open>ValueError\<close> when there is none.\<close>

fun remove_request :: "string \<Rightarrow> request_queue \<Rightarrow> request_queue res" where
  "remove_request rid (FCFSQueue xs) =
     (case dropWhile (\<lambda>x. e_request x \<noteq> rid) xs of
        [] \<Rightarrow> Err ValueError
      | _ # ys \<Rightarrow> Ok (FCFSQueue (takeWhile (\<lambda>x. e_request x \<noteq> rid) xs @ ys)))"
| "remove_request rid (PriorityQueue h) =
     rbind (heapify (filter (\<lambda>x. e_request x \<noteq> rid) h)) (\<lambda>h'. Ok (PriorityQueue h'))"

fun remove_requests :: "string list \<Rightarrow> request_queue \<Rightarrow> request_queue res" where
  "remove_requests rids (FCFSQueue xs) = Ok (FCFSQueue (filter (\<lambda>x. e_request x \<notin> set rids) xs))"
| "remove_requests rids (PriorityQueue h) =
     rbind (heapify (filter (\<lambda>x. e_request x \<notin> set rids) h)) (\<lambda>h'. Ok (PriorityQueue h'))"

fun queue_len :: "request_queue \<Rightarrow> nat" where
  "queue_len (FCFSQueue xs) = length xs"
| "queue_len (PriorityQueue h) = length h"

definition queue_bool :: "request_queue \<Rightarrow> bool" where
  "queue_bool q \<longleftrightarrow> queue_len q > 0"

section \<open>The heap order\<close>

definition key :: "entry \<Rightarrow> int \<times> int" where
  "key e = (e_priority e, e_arrival e)"

text \<open>No two different requests share priority and arrival time.\<close>

definition no_ties :: "entry set \<Rightarrow> bool" where
  "no_ties S \<longleftrightarrow> (\<forall>a \<in> S. \<forall>b \<in> S. key a = key b \<longrightarrow> a = b)"

lemma entry_lt_key: "no_ties S \<Longrightarrow> a \<in> S \<Longrightarrow> b \<in> S \<Longrightarrow> entry_lt a b = Ok (key a < key b)"
  by (cases "a = b") (auto simp: entry_lt_def no_ties_def key_def)

definition heap_from :: "nat \<Rightarrow> entry list \<Rightarrow> bool" where
  "heap_from s h \<longleftrightarrow> (\<forall>i < length h. 0 < i \<longrightarrow> s \<le> par i \<longrightarrow> key (h ! par i) \<le> key (h ! i))"

text \<open>The same except for the entry at \<open>pos\<close>, which is ignored.\<close>

definition heap_hole :: "nat \<Rightarrow> nat \<Rightarrow> entry list \<Rightarrow> bool" where
  "heap_hole s pos h \<longleftrightarrow> (\<forall>i < length h. 0 < i \<longrightarrow> s \<le> par i \<longrightarrow>
     (i \<noteq> pos \<longrightarrow> par i \<noteq> pos \<longrightarrow> key (h ! par i) \<le> key (h ! i)) \<and>
     (par i = pos \<longrightarrow> 0 < pos \<longrightarrow> s \<le> par pos \<longrightarrow> key (h ! par pos) \<le> key (h ! i)))"

text \<open>\<open>p\<close> lies in the subtree of \<open>s\<close>.\<close>

inductive below :: "nat \<Rightarrow> nat \<Rightarrow> bool" for s where
  here [simp, intro]: "below s s"
| down: "below s (par p) \<Longrightarrow> 0 < p \<Longrightarrow> below s p"

lemma below_ge: "below s p \<Longrightarrow> s \<le> p"
proof (induction rule: below.induct)
  case (down p)
  then show ?case using par_less [of p] by simp
qed simp

lemma below_par:
  assumes "below s p" and "s < p"
  shows "below s (par p)"
  using assms(1)
proof cases
  case here
  then show ?thesis using assms(2) by simp
next
  case down
  show ?thesis by (rule down(1))
qed

lemma below_0 [simp]: "below 0 p"
proof (induction p rule: less_induct)
  case (less p)
  show ?case
  proof (cases "p = 0")
    case False
    then have "below 0 (par p)" by (intro less par_less) simp
    then show ?thesis by (rule below.down) (use False in simp)
  qed simp
qed

section \<open>Sifting restores the order\<close>

lemma heap_hole_fill:
  assumes "heap_hole s pos h" and "\<forall>i < length h. 0 < i \<longrightarrow> par i = pos \<longrightarrow> key x \<le> key (h ! i)"
    and "pos < length h" and "0 < pos \<longrightarrow> s \<le> par pos \<longrightarrow> key (h ! par pos) \<le> key x"
  shows "heap_from s (h[pos := x])"
  unfolding heap_from_def
proof (intro allI impI)
  fix i assume i: "i < length (h[pos := x])" "0 < i" "s \<le> par i"
  have ne: "par i \<noteq> i" using par_less [OF i(2)] by simp
  note H = assms(1) [unfolded heap_hole_def, rule_format, of i]
  show "key (h[pos := x] ! par i) \<le> key (h[pos := x] ! i)"
    using assms(2-4) i ne H by (cases "i = pos"; cases "par i = pos") simp_all
qed

lemma heap_hole_up:
  assumes "heap_hole s pos h" and "s \<le> par pos" and "0 < pos" and "pos < length h"
  shows "heap_hole s (par pos) (h[pos := h ! par pos])"
  unfolding heap_hole_def
proof (intro allI impI conjI)
  let ?q = "par pos" let ?h = "h[pos := h ! ?q]"
  have q: "?q < pos" using assms(3) by (rule par_less)
  note H = assms(1) [unfolded heap_hole_def, rule_format]
  fix i assume i: "i < length ?h" "0 < i" "s \<le> par i"
  have i': "i < length h" "par i < i" using i(1) par_less [OF i(2)] by auto
  { assume ne: "i \<noteq> ?q" "par i \<noteq> ?q"
    then have "i \<noteq> pos" by auto
    then show "key (?h ! par i) \<le> key (?h ! i)"
      using H [OF i'(1) i(2,3)] ne assms(2-4) by (cases "par i = pos") auto }
  { assume par: "par i = ?q" and up: "0 < ?q" "s \<le> par ?q"
    have gp: "key (h ! par ?q) \<le> key (h ! ?q)"
      using H [of ?q] up q assms(4) par_less [of ?q] by auto
    have "key (h ! ?q) \<le> key (?h ! i)"
      using H [OF i'(1) i(2,3)] par q assms(4) by (cases "i = pos") auto
    moreover have "?h ! par ?q = h ! par ?q" using q par_less [OF up(1)] by simp
    ultimately show "key (?h ! par ?q) \<le> key (?h ! i)" using gp by simp }
qed

lemma mset_move_hole:
  assumes "pos < length h" and "c < length h" and "c \<noteq> pos"
  shows "mset (h[pos := h ! c, c := x]) = mset (h[pos := x])"
proof -
  let ?g = "h[pos := x]"
  have "h[pos := h ! c, c := x] = ?g[c := ?g ! pos, pos := ?g ! c]"
    using assms by (simp add: list_update_swap)
  then show ?thesis using mset_swap [of c ?g pos] assms by simp
qed

lemma siftdown_loop_spec:
  assumes "no_ties S" and "x \<in> S"
  shows "below s pos \<Longrightarrow> pos < length h \<Longrightarrow> set h \<subseteq> S \<Longrightarrow> heap_hole s pos h \<Longrightarrow>
    \<forall>i < length h. 0 < i \<longrightarrow> par i = pos \<longrightarrow> key x \<le> key (h ! i) \<Longrightarrow>
    \<exists>h' p. siftdown_loop s x pos h = Ok (h', p) \<and> heap_from s (h'[p := x]) \<and> mset (h'[p := x]) = mset (h[pos := x]) \<and> p < length h'"
proof (induction pos arbitrary: h rule: less_induct)
  case (less pos)
  show ?case
  proof (cases "s < pos")
    case False
    then have "pos = s" using below_ge [OF less.prems(1)] by simp
    then have "heap_from s (h[pos := x])"
      using par_less [of s] by (intro heap_hole_fill [OF less.prems(4,5,2)]) auto
    then show ?thesis using False less.prems(2) by (auto simp: siftdown_loop.simps)
  next
    case True
    let ?q = "par pos"
    have q: "?q < pos" "s \<le> ?q" using par_less [of pos] True below_ge [OF below_par [OF less.prems(1) True]] by auto
    have "h ! ?q \<in> set h" using less.prems(2) q(1) by (intro nth_mem) simp
    then have "h ! ?q \<in> S" using less.prems(3) by blast
    then have lt: "entry_lt x (h ! ?q) = Ok (key x < key (h ! ?q))" using entry_lt_key assms by blast
    show ?thesis
    proof (cases "key x < key (h ! ?q)")
      case False
      then have "heap_from s (h[pos := x])"
        by (intro heap_hole_fill [OF less.prems(4,5,2)]) (simp add: not_less)
      then show ?thesis using False True lt less.prems(2)
        by (intro exI [of _ h] exI [of _ pos]) (subst siftdown_loop.simps, simp)
    next
      case True': True
      let ?h = "h[pos := h ! ?q]"
      note H = less.prems(4) [unfolded heap_hole_def, rule_format]
      have "key x \<le> key (?h ! i)" if "i < length ?h" "0 < i" "par i = ?q" for i
      proof (cases "i = pos")
        case False
        then have "key (h ! ?q) \<le> key (h ! i)" using H [of i] that q by auto
        then show ?thesis using True' False by simp
      qed (use True' less.prems(2) in simp)
      moreover have "set ?h \<subseteq> S" using less.prems(2,3) q(1) by (auto dest!: set_update_subset_insert [THEN subsetD])
      moreover have "heap_hole s ?q ?h" using less.prems(2,4) q True by (intro heap_hole_up) auto
      ultimately obtain h' p where "siftdown_loop s x ?q ?h = Ok (h', p)" "heap_from s (h'[p := x])"
          "mset (h'[p := x]) = mset (?h[?q := x])" "p < length h'"
        using less.IH [OF q(1) below_par [OF less.prems(1) True], of ?h] q(1) less.prems(2) by auto
      moreover have "mset (?h[?q := x]) = mset (h[pos := x])"
        using mset_move_hole [of pos h ?q x] q(1) less.prems(2) by simp
      ultimately show ?thesis using True True' lt by (subst siftdown_loop.simps) auto
    qed
  qed
qed

lemma siftdown_spec:
  assumes "no_ties (set h)" and "below s pos" and "pos < length h" and "heap_hole s pos h"
    and "\<forall>i < length h. 0 < i \<longrightarrow> par i = pos \<longrightarrow> key (h ! pos) \<le> key (h ! i)"
  obtains h' where "siftdown s pos h = Ok h'" and "heap_from s h'" and "mset h' = mset h"
proof -
  have "h ! pos \<in> set h" using assms(3) by simp
  from siftdown_loop_spec [OF assms(1) this assms(2,3) subset_refl assms(4,5)]
  obtain h' p where "siftdown_loop s (h ! pos) pos h = Ok (h', p)" "heap_from s (h'[p := h ! pos])"
      "mset (h'[p := h ! pos]) = mset (h[pos := h ! pos])" by blast
  then show thesis by (intro that [of "h'[p := h ! pos]"]) (simp_all add: siftdown_def)
qed

lemma smaller_child_spec:
  assumes "no_ties (set h)" and "2 * pos + 1 < length h"
  obtains c where "smaller_child pos h = Ok c" and "par c = pos" and "0 < c" and "c < length h"
    and "\<forall>i < length h. 0 < i \<longrightarrow> par i = pos \<longrightarrow> key (h ! c) \<le> key (h ! i)"
proof -
  have kids: "i = 2 * pos + 1 \<or> i = 2 * pos + 2" if "0 < i" "par i = pos" for i using par_children that by blast
  show thesis
  proof (cases "2 * pos + 2 < length h")
    case True
    let ?l = "2 * pos + 1" and ?r = "2 * pos + 2"
    have "entry_lt (h ! ?l) (h ! ?r) = Ok (key (h ! ?l) < key (h ! ?r))"
      using True by (intro entry_lt_key [OF assms(1)]) auto
    then have "smaller_child pos h = Ok (if key (h ! ?l) < key (h ! ?r) then ?l else ?r)"
      using True by (simp add: smaller_child_def Let_def)
    moreover have "par ?l = pos" "par ?r = pos" using par_children [of _ pos] by auto
    ultimately show thesis using True
      by (intro that [of "if key (h ! ?l) < key (h ! ?r) then ?l else ?r"]) (auto dest: kids)
  next
    case False
    moreover have "par (2 * pos + 1) = pos" using par_children [of _ pos] by auto
    ultimately show thesis using assms(2)
      by (intro that [of "2 * pos + 1"]) (auto simp: smaller_child_def dest: kids)
  qed
qed

lemma heap_hole_down:
  assumes "heap_hole s pos h" and "par c = pos" and "0 < c" and "c < length h" and "s \<le> pos"
    and "\<forall>i < length h. 0 < i \<longrightarrow> par i = pos \<longrightarrow> key (h ! c) \<le> key (h ! i)"
  shows "heap_hole s c (h[pos := h ! c])"
  unfolding heap_hole_def
proof (intro allI impI conjI)
  let ?h = "h[pos := h ! c]"
  note H = assms(1) [unfolded heap_hole_def, rule_format]
  have c: "pos < c" using par_less [OF assms(3)] assms(2) by simp
  fix i assume i: "i < length ?h" "0 < i" "s \<le> par i"
  have i': "i < length h" "par i < i" using i(1) par_less [OF i(2)] by auto
  { assume ne: "i \<noteq> c" "par i \<noteq> c"
    show "key (?h ! par i) \<le> key (?h ! i)"
    proof (cases "i = pos")
      case True
      then show ?thesis using H [of c] assms(2-5) i i' c by auto
    next
      case False
      then show ?thesis using H [OF i'(1) i(2,3)] assms(4,6) i' i(2) c by (cases "par i = pos") auto
    qed }
  { assume "par i = c" "0 < c" "s \<le> par c"
    then show "key (?h ! par c) \<le> key (?h ! i)" using H [OF i'(1) i(2,3)] assms(2,4) i' c by auto }
qed

lemma siftup_loop_spec:
  assumes "no_ties S"
  shows "below s pos \<Longrightarrow> pos < length h \<Longrightarrow> set h \<subseteq> S \<Longrightarrow> heap_hole s pos h \<Longrightarrow>
    \<exists>h' p. siftup_loop pos h = Ok (h', p) \<and> length h' = length h \<and> p < length h \<and> set h' \<subseteq> S \<and> below s p \<and> heap_hole s p h' \<and>
      length h \<le> 2 * p + 1 \<and> (\<forall>x. mset (h'[p := x]) = mset (h[pos := x]))"
proof (induction "length h - pos" arbitrary: pos h rule: less_induct)
  case less
  show ?case
  proof (cases "2 * pos + 1 < length h")
    case False
    then show ?thesis using less.prems by (subst siftup_loop.simps) simp
  next
    case True
    have nt: "no_ties (set h)" using assms less.prems(3) by (auto simp: no_ties_def)
    obtain c where c: "smaller_child pos h = Ok c" "par c = pos" "0 < c" "c < length h"
        "\<forall>i < length h. 0 < i \<longrightarrow> par i = pos \<longrightarrow> key (h ! c) \<le> key (h ! i)"
      by (rule smaller_child_spec [OF nt True])
    let ?h = "h[pos := h ! c]"
    have pc: "pos < c" using par_less [OF c(3)] c(2) by simp
    have b: "below s c" by (rule below.down) (use less.prems(1) c(2,3) in simp_all)
    have hole: "heap_hole s c ?h"
      by (rule heap_hole_down [OF less.prems(4) c(2-4) below_ge [OF less.prems(1)] c(5)])
    have "h ! c \<in> S" using less.prems(3) nth_mem [OF c(4)] by blast
    then have "set ?h \<subseteq> S" using less.prems(3) set_update_subset_insert [of h pos "h ! c"] by blast
    then obtain h' p where r: "siftup_loop c ?h = Ok (h', p)" "length h' = length h" "p < length h" "set h' \<subseteq> S"
        "below s p" "heap_hole s p h'" "length h \<le> 2 * p + 1" "\<forall>x. mset (h'[p := x]) = mset (?h[c := x])"
      using less.hyps [of ?h c, OF _ b] hole c(4) pc less.prems(2) by (auto simp: diff_less_mono2)
    have "mset (?h[c := x]) = mset (h[pos := x])" for x
      using mset_move_hole [of pos h c x] pc c(4) less.prems(2) by simp
    then show ?thesis using r True c(1)
      by (intro exI [of _ h'] exI [of _ p]) (subst siftup_loop.simps, simp)
  qed
qed

lemma heap_hole_update:
  assumes "heap_hole s pos h"
  shows "heap_hole s pos (h[pos := x])"
  unfolding heap_hole_def
proof (intro allI impI conjI)
  note H = assms [unfolded heap_hole_def, rule_format]
  fix i assume i: "i < length (h[pos := x])" "0 < i" "s \<le> par i"
  { assume "i \<noteq> pos" "par i \<noteq> pos"
    then show "key (h[pos := x] ! par i) \<le> key (h[pos := x] ! i)" using H [of i] i by simp }
  { assume p: "par i = pos" "0 < pos" "s \<le> par pos"
    have "i \<noteq> pos" "par pos \<noteq> pos" using par_less [OF i(2)] par_less [OF p(2)] p(1) by auto
    then show "key (h[pos := x] ! par pos) \<le> key (h[pos := x] ! i)" using H [of i] i p by simp }
qed

lemma siftup_spec:
  assumes "no_ties (set h)" and "pos < length h" and "heap_from (Suc pos) h \<or> heap_hole pos pos h"
  obtains h' where "siftup pos h = Ok h'" and "heap_from pos h'" and "mset h' = mset h"
proof -
  have hole: "heap_hole pos pos h"
    using assms(3) par_less [of pos] unfolding heap_from_def heap_hole_def by (auto simp: Suc_le_eq)
  obtain h1 p where l: "siftup_loop pos h = Ok (h1, p)" "length h1 = length h" "p < length h" "set h1 \<subseteq> set h"
      "below pos p" "heap_hole pos p h1" "length h \<le> 2 * p + 1" "\<forall>x. mset (h1[p := x]) = mset (h[pos := x])"
    using siftup_loop_spec [OF assms(1) below.here assms(2) subset_refl hole] by blast
  let ?g = "h1[p := h ! pos]"
  have ms: "mset ?g = mset h" using l(8) by simp
  then have nt: "no_ties (set ?g)" using assms(1) by (metis set_mset_mset)
  have leaf: "par i \<noteq> p" if "i < length ?g" "0 < i" for i using that l(2,7) par_children [of i p] by auto
  obtain h' where "siftdown pos p ?g = Ok h'" "heap_from pos h'" "mset h' = mset ?g"
    by (rule siftdown_spec [OF nt l(5) _ heap_hole_update [OF l(6)]]) (use l(2,3) leaf in simp_all)
  then show thesis using l(1) ms by (intro that [of h']) (simp_all add: siftup_def)
qed

section \<open>Heap operations\<close>

lemma heappush_spec:
  assumes "no_ties (set (x # h))" and "heap_from 0 h"
  obtains h' where "heappush h x = Ok h'" and "heap_from 0 h'" and "mset h' = add_mset x (mset h)"
proof -
  let ?g = "h @ [x]"
  have nt: "no_ties (set ?g)" using assms(1) by (simp add: insert_commute)
  have up: "par i < length h" if "i < length ?g" "0 < i" for i using that par_less [of i] by simp
  have hole: "heap_hole 0 (length h) ?g"
    unfolding heap_hole_def
  proof (intro allI impI conjI)
    fix i assume i: "i < length ?g" "0 < i"
    note u = up [OF i]
    { assume "i \<noteq> length h"
      then show "key (?g ! par i) \<le> key (?g ! i)" using assms(2) i u by (simp add: heap_from_def nth_append) }
    { assume "par i = length h"
      then show "key (?g ! par (length h)) \<le> key (?g ! i)" using u by simp }
  qed
  have leaf: "par i \<noteq> length h" if "i < length ?g" "0 < i" for i using up [OF that] by simp
  obtain h' where "siftdown 0 (length h) ?g = Ok h'" "heap_from 0 h'" "mset h' = mset ?g"
    by (rule siftdown_spec [OF nt below_0 _ hole]) (use leaf in simp_all)
  then show thesis by (intro that [of h']) (simp_all add: heappush_def)
qed

lemma heap_min: "heap_from 0 h \<Longrightarrow> i < length h \<Longrightarrow> key (h ! 0) \<le> key (h ! i)"
proof (induction i rule: less_induct)
  case (less i)
  show ?case
  proof (cases "i = 0")
    case False
    then have p: "par i < i" by (intro par_less) simp
    have "key (h ! 0) \<le> key (h ! par i)" using less p by simp
    also have "\<dots> \<le> key (h ! i)" using less.prems False by (simp add: heap_from_def)
    finally show ?thesis .
  qed simp
qed

lemma heap_hd_min: "heap_from 0 h \<Longrightarrow> x \<in> set h \<Longrightarrow> key (hd h) \<le> key x"
  using heap_min by (metis in_set_conv_nth hd_conv_nth length_pos_if_in_set length_greater_0_conv)

lemma heap_butlast: "heap_from s h \<Longrightarrow> heap_from s (butlast h)"
  unfolding heap_from_def
proof (intro allI impI)
  fix i assume h: "\<forall>i < length h. 0 < i \<longrightarrow> s \<le> par i \<longrightarrow> key (h ! par i) \<le> key (h ! i)"
    and i: "i < length (butlast h)" "0 < i" "s \<le> par i"
  have "par i < length (butlast h)" using par_less [OF i(2)] i(1) by simp
  then show "key (butlast h ! par i) \<le> key (butlast h ! i)" using h i by (simp add: nth_butlast)
qed

lemma heappop_spec:
  assumes "no_ties (set h)" and "heap_from 0 h" and "h \<noteq> []"
  obtains h' where "heappop h = Ok (hd h, h')" and "heap_from 0 h'" and "add_mset (hd h) (mset h') = mset h"
proof (cases "butlast h = []")
  case True
  then obtain x where "h = [x]" using assms(3) by (cases h rule: rev_cases) auto
  then show thesis by (intro that [of "[]"]) (simp_all add: heappop_def heap_from_def)
next
  case False
  let ?b = "butlast h" let ?g = "?b[0 := last h]"
  obtain a bs where h: "h = a # bs" "bs \<noteq> []" using assms(3) False by (cases h) (auto split: if_splits)
  have b: "?b = a # butlast bs" using h by simp
  have "?g = last bs # butlast bs" using h b by simp
  moreover have "mset bs = mset (butlast bs @ [last bs])" using append_butlast_last_id [OF h(2)] by simp
  ultimately have ms: "add_mset a (mset ?g) = mset h" by (simp add: h(1))
  have "heap_hole 0 0 ?g"
    using heap_butlast [OF assms(2)] by (intro heap_hole_update) (simp add: heap_from_def heap_hole_def)
  moreover have "no_ties (set ?g)"
    using assms(1) ms unfolding no_ties_def by (metis insert_iff set_mset_add_mset_insert set_mset_mset)
  ultimately obtain h' where s: "siftup 0 ?g = Ok h'" "heap_from 0 h'" "mset h' = mset ?g"
    using False by (auto elim!: siftup_spec [rotated -1])
  then show thesis using assms(3) False ms h b
    by (intro that [of h']) (auto simp: heappop_def Let_def)
qed

lemma heapify_loop_spec:
  "no_ties (set h) \<Longrightarrow> n \<le> length h \<Longrightarrow> heap_from n h \<Longrightarrow> \<exists>h'. heapify_loop n h = Ok h' \<and> heap_from 0 h' \<and> mset h' = mset h"
proof (induction n arbitrary: h)
  case (Suc n)
  obtain h1 where h1: "siftup n h = Ok h1" "heap_from n h1" "mset h1 = mset h"
    using Suc.prems by (auto elim!: siftup_spec [rotated -1])
  then have "no_ties (set h1)" "length h1 = length h" using Suc.prems(1) by (metis set_mset_mset, metis size_mset)
  then show ?case using Suc.IH [of h1] Suc.prems(2) h1 by auto
qed simp

lemma heapify_spec:
  assumes "no_ties (set h)"
  obtains h' where "heapify h = Ok h'" and "heap_from 0 h'" and "mset h' = mset h"
proof -
  have "heap_from (length h div 2) h" unfolding heap_from_def par_def by auto
  then show thesis using heapify_loop_spec [OF assms, of "length h div 2"] that by (auto simp: heapify_def)
qed

text \<open>Sifting keeps the length, whatever the entries are.\<close>

lemma siftdown_loop_length: "siftdown_loop s x pos h = Ok (h', p) \<Longrightarrow> length h' = length h"
proof (induction s x pos h rule: siftdown_loop.induct)
  case (1 s x pos h)
  from "1.prems" show ?case
    by (subst (asm) siftdown_loop.simps) (auto simp: res_simps split: if_splits dest: "1.IH")
qed

lemma siftup_loop_length: "siftup_loop pos h = Ok (h', p) \<Longrightarrow> length h' = length h"
proof (induction pos h rule: siftup_loop.induct)
  case (1 pos h)
  show ?case
  proof (cases "2 * pos + 1 < length h")
    case True
    with "1.prems" obtain c where c: "smaller_child pos h = Ok c" "siftup_loop c (h[pos := h ! c]) = Ok (h', p)"
      by (subst (asm) siftup_loop.simps) (auto simp: res_simps)
    from "1.IH" [OF True c] show ?thesis by simp
  next
    case False
    with "1.prems" show ?thesis by (subst (asm) siftup_loop.simps) simp
  qed
qed

lemma siftup_length: "siftup pos h = Ok h' \<Longrightarrow> length h' = length h"
  by (auto simp: siftup_def siftdown_def res_simps dest!: siftup_loop_length siftdown_loop_length)

lemma heappop_length: "heappop h = Ok (x, h') \<Longrightarrow> length h = Suc (length h')"
  by (cases h rule: rev_cases) (auto simp: heappop_def Let_def res_simps split: if_splits dest!: siftup_length)

lemma pop_request_len: "pop_request q = Ok (rid, q') \<Longrightarrow> queue_len q = Suc (queue_len q')"
  by (cases q) (auto simp: res_simps split: list.splits if_splits dest: heappop_length)

section \<open>The order of service\<close>

lemma sort_key_unique:
  assumes "no_ties (set ys)" and "mset ys = mset xs" and "sorted (map key ys)"
  shows "sort_key key xs = ys"
proof (rule properties_for_sort_key [OF assms(2) _ assms(3)])
  fix k assume k: "k \<in> set ys"
  have "set xs = set ys" using assms(2) by (metis set_mset_mset)
  then have "filter (\<lambda>x. key k = key x) zs = replicate (count (mset zs) k) k" if "set zs \<subseteq> set ys" for zs
    using that assms(1) k by (induction zs) (auto simp: no_ties_def)
  then show "filter (\<lambda>x. key k = key x) ys = filter (\<lambda>x. key k = key x) xs"
    using assms(2) \<open>set xs = set ys\<close> by simp
qed

lemma no_ties_subset: "no_ties S \<Longrightarrow> T \<subseteq> S \<Longrightarrow> no_ties T"
  by (auto simp: no_ties_def)

fun items :: "request_queue \<Rightarrow> entry list" where
  "items (FCFSQueue xs) = xs"
| "items (PriorityQueue h) = sort_key key h"

text \<open>Where a new entry goes, by policy.\<close>

fun place_back :: "scheduling_policy \<Rightarrow> entry \<Rightarrow> entry list \<Rightarrow> entry list" where
  "place_back FCFS e xs = xs @ [e]"
| "place_back PRIORITY e xs = insort_key key e xs"

fun place_front :: "scheduling_policy \<Rightarrow> entry \<Rightarrow> entry list \<Rightarrow> entry list" where
  "place_front FCFS e xs = e # xs"
| "place_front PRIORITY e xs = insort_key key e xs"

text \<open>The queue follows policy \<open>p\<close>; a priority queue is a heap without ties, all entries from \<open>S\<close>.\<close>

fun queue_inv :: "scheduling_policy \<Rightarrow> entry set \<Rightarrow> request_queue \<Rightarrow> bool" where
  "queue_inv FCFS S (FCFSQueue xs) = (set xs \<subseteq> S)"
| "queue_inv PRIORITY S (PriorityQueue h) = (no_ties S \<and> set h \<subseteq> S \<and> heap_from 0 h)"
| "queue_inv _ _ _ = False"

lemma queue_inv_cases:
  assumes "queue_inv p S q"
  obtains (fcfs) xs where "p = FCFS" and "q = FCFSQueue xs" and "set xs \<subseteq> S"
  | (prio) h where "p = PRIORITY" and "q = PriorityQueue h" and "no_ties S" and "set h \<subseteq> S" and "heap_from 0 h" and "no_ties (set h)"
  using assms by (cases "(p, S, q)" rule: queue_inv.cases) (auto dest: no_ties_subset)

lemma heap_items_pop:
  assumes "no_ties (set h)" and "add_mset x (mset h') = mset h" and "\<forall>y \<in> set h. key x \<le> key y"
  shows "sort_key key h = x # sort_key key h'"
proof (rule sort_key_unique)
  have sub: "set (x # h') = set h" using assms(2) by (metis mset.simps(2) set_mset_mset)
  then show "no_ties (set (x # sort_key key h'))" using assms(1) by simp
  show "mset (x # sort_key key h') = mset h" using assms(2) by simp
  show "sorted (map key (x # sort_key key h'))" using assms(3) sub by auto
qed

lemma heap_items_insert:
  assumes "no_ties (set (x # h))" and "mset h' = add_mset x (mset h)"
  shows "sort_key key h' = insort_key key x (sort_key key h)"
  by (rule sort_key_unique) (use assms in \<open>simp_all add: set_insort_key sorted_insort_key\<close>)

lemma heap_items_filter:
  assumes "no_ties (set h)" and "mset h' = mset (filter P h)"
  shows "sort_key key h' = filter P (sort_key key h)"
  by (rule sort_key_unique)
    (use assms no_ties_subset [OF assms(1), of "{x \<in> set h. P x}"] in \<open>simp_all add: sorted_filter\<close>)

section \<open>The interface of a waiting queue\<close>

text \<open>
  What the scheduler relies on: \<open>order q\<close> is the order of service, \<open>rear\<close> and \<open>front\<close> say where
  an added and a prepended entry go, and \<open>allowed\<close> are the entries that may be added.
\<close>

primrec drain :: "('q \<Rightarrow> (string \<times> 'q) res) \<Rightarrow> nat \<Rightarrow> 'q \<Rightarrow> (string list \<times> 'q) res" where
  "drain pop 0 q = Ok ([], q)"
| "drain pop (Suc n) q = rbind (pop q) (\<lambda>(r, q'). rbind (drain pop n q') (\<lambda>(rs, q''). Ok (r # rs, q'')))"

locale waiting_queue =
  fixes inv :: "'q \<Rightarrow> bool"
    and order :: "'q \<Rightarrow> entry list"
    and allowed :: "entry \<Rightarrow> bool"
    and rear :: "entry \<Rightarrow> entry list \<Rightarrow> entry list"
    and front :: "entry \<Rightarrow> entry list \<Rightarrow> entry list"
    and add :: "entry \<Rightarrow> 'q \<Rightarrow> 'q res"
    and prepend :: "entry \<Rightarrow> 'q \<Rightarrow> 'q res"
    and pop :: "'q \<Rightarrow> (string \<times> 'q) res"
    and peek :: "'q \<Rightarrow> string res"
    and remove_all :: "string list \<Rightarrow> 'q \<Rightarrow> 'q res"
  assumes rear_mset: "mset (rear e xs) = add_mset e (mset xs)"
    and add_law: "inv q \<Longrightarrow> allowed e \<Longrightarrow> \<exists>q'. add e q = Ok q' \<and> inv q' \<and> order q' = rear e (order q)"
    and prepend_law: "inv q \<Longrightarrow> allowed e \<Longrightarrow> \<exists>q'. prepend e q = Ok q' \<and> inv q' \<and> order q' = front e (order q)"
    and pop_empty: "inv q \<Longrightarrow> order q = [] \<Longrightarrow> pop q = Err IndexError"
    and pop_law: "inv q \<Longrightarrow> order q = x # xs \<Longrightarrow> \<exists>q'. pop q = Ok (e_request x, q') \<and> inv q' \<and> order q' = xs"
    and peek_law: "inv q \<Longrightarrow> peek q = (case order q of [] \<Rightarrow> Err IndexError | x # _ \<Rightarrow> Ok (e_request x))"
    and remove_law: "inv q \<Longrightarrow> \<exists>q'. remove_all rids q = Ok q' \<and> inv q' \<and>
      order q' = filter (\<lambda>x. e_request x \<notin> set rids) (order q)"
begin

lemma add_all:
  "inv q \<Longrightarrow> \<forall>e \<in> set es. allowed e \<Longrightarrow> \<exists>q'. rfold add es q = Ok q' \<and> inv q' \<and> order q' = fold rear es (order q)"
proof (induction es arbitrary: q)
  case (Cons e es)
  then obtain q1 where q1: "add e q = Ok q1" "inv q1" "order q1 = rear e (order q)" using add_law [of q e] by auto
  then show ?case using Cons.IH [of q1] Cons.prems by auto
qed simp

lemma drain_order: "inv q \<Longrightarrow> \<exists>q'. drain pop (length (order q)) q = Ok (map e_request (order q), q') \<and> inv q' \<and> order q' = []"
proof (induction "order q" arbitrary: q)
  case (Cons x xs)
  then obtain q1 where q1: "pop q = Ok (e_request x, q1)" "inv q1" "order q1 = xs" using pop_law [of q x xs] by auto
  then show ?case using Cons.hyps(1) [of q1] by (auto simp flip: Cons.hyps(2))
qed simp

lemma fold_rear_mset: "mset (fold rear es xs) = mset es + mset xs"
  by (induction es arbitrary: xs) (simp_all add: rear_mset)

lemma serves_all:
  assumes "inv q" and "\<forall>e \<in> set es. allowed e"
  shows "\<exists>q1 q2 rs. rfold add es q = Ok q1 \<and> drain pop (length es + length (order q)) q1 = Ok (rs, q2) \<and> order q2 = [] \<and>
    mset rs = image_mset e_request (mset es + mset (order q))"
proof -
  obtain q1 where q1: "rfold add es q = Ok q1" "inv q1" "order q1 = fold rear es (order q)" using add_all [OF assms] by blast
  have ms: "mset (order q1) = mset es + mset (order q)" by (simp add: q1(3) fold_rear_mset)
  then have "size (mset (order q1)) = length es + length (order q)" by simp
  then have len: "length (order q1) = length es + length (order q)" by simp
  obtain q2 where "drain pop (length (order q1)) q1 = Ok (map e_request (order q1), q2)" "order q2 = []"
    using drain_order [OF q1(2)] by blast
  then show ?thesis using q1(1) ms len by (auto intro!: exI [of _ q1] exI [of _ q2])
qed

end

lemma queue_add_spec:
  assumes "queue_inv p S q" and "e \<in> S"
  shows "\<exists>q'. add_request_q e q = Ok q' \<and> queue_inv p S q' \<and> items q' = place_back p e (items q)"
  using assms(1)
proof (cases rule: queue_inv_cases)
  case fcfs
  then show ?thesis using assms(2) by simp
next
  case (prio h)
  then have nt: "no_ties (set (e # h))" using assms(2) by (auto intro: no_ties_subset)
  obtain h' where h': "heappush h e = Ok h'" "heap_from 0 h'" "mset h' = add_mset e (mset h)"
    by (rule heappush_spec [OF nt prio(5)])
  have "set h' = insert e (set h)" using h'(3) by (metis set_mset_add_mset_insert set_mset_mset)
  then show ?thesis using prio h' heap_items_insert [OF nt h'(3)] assms(2) by simp
qed

lemma queue_prepend_spec:
  assumes "queue_inv p S q" and "e \<in> S"
  shows "\<exists>q'. prepend_request e q = Ok q' \<and> queue_inv p S q' \<and> items q' = place_front p e (items q)"
  using assms(1)
proof (cases rule: queue_inv_cases)
  case (prio h)
  then show ?thesis using queue_add_spec [OF assms] by simp
qed (use assms in simp)

lemma queue_pop_spec:
  assumes "queue_inv p S q"
  shows "items q = [] \<Longrightarrow> pop_request q = Err IndexError"
    and "items q = x # xs \<Longrightarrow> \<exists>q'. pop_request q = Ok (e_request x, q') \<and> queue_inv p S q' \<and> items q' = xs"
proof -
  show "items q = [] \<Longrightarrow> pop_request q = Err IndexError"
    using assms by (cases rule: queue_inv_cases) (auto dest: arg_cong [of _ _ length])
  assume it: "items q = x # xs"
  from assms show "\<exists>q'. pop_request q = Ok (e_request x, q') \<and> queue_inv p S q' \<and> items q' = xs"
  proof (cases rule: queue_inv_cases)
    case fcfs
    then show ?thesis using it by simp
  next
    case (prio h)
    then have ne: "h \<noteq> []" using it by auto
    obtain h' where h': "heappop h = Ok (hd h, h')" "heap_from 0 h'" "add_mset (hd h) (mset h') = mset h"
      by (rule heappop_spec [OF prio(6,5) ne])
    have "sort_key key h = hd h # sort_key key h'"
      using heap_hd_min [OF prio(5)] by (intro heap_items_pop [OF prio(6) h'(3)]) blast
    moreover have "set h' \<subseteq> set h" using h'(3) by (metis set_mset_mset set_mset_add_mset_insert subset_insertI)
    ultimately show ?thesis using prio h' ne it by auto
  qed
qed

lemma queue_peek_spec:
  assumes "queue_inv p S q"
  shows "peek_request q = (case items q of [] \<Rightarrow> Err IndexError | x # _ \<Rightarrow> Ok (e_request x))"
  using assms
proof (cases rule: queue_inv_cases)
  case (fcfs xs)
  then show ?thesis by (cases xs) auto
next
  case (prio h)
  show ?thesis
  proof (cases "h = []")
    case False
    obtain h' where h': "add_mset (hd h) (mset h') = mset h"
      by (rule heappop_spec [OF prio(6,5) False])
    have "sort_key key h = hd h # sort_key key h'"
      using heap_hd_min [OF prio(5)] by (intro heap_items_pop [OF prio(6) h']) blast
    then show ?thesis using prio(2) False by (simp add: hd_conv_nth)
  qed (use prio in simp)
qed

lemma wait_queue_remove_spec:
  assumes "queue_inv p S q"
  shows "\<exists>q'. remove_requests rids q = Ok q' \<and> queue_inv p S q' \<and> items q' = filter (\<lambda>x. e_request x \<notin> set rids) (items q)"
  using assms
proof (cases rule: queue_inv_cases)
  case (fcfs xs)
  then show ?thesis by auto
next
  case (prio h)
  let ?f = "filter (\<lambda>x. e_request x \<notin> set rids) h"
  have nt: "no_ties (set ?f)" using prio(6) by (auto intro: no_ties_subset)
  obtain h' where h': "heapify ?f = Ok h'" "heap_from 0 h'" "mset h' = mset ?f" by (rule heapify_spec [OF nt])
  have "set h' \<subseteq> set h" using h'(3) by (metis filter_is_subset set_mset_mset)
  then show ?thesis using prio h' heap_items_filter [OF prio(6) h'(3)] by auto
qed

lemma iter_heap_spec:
  "no_ties (set h) \<Longrightarrow> heap_from 0 h \<Longrightarrow> length h \<le> n \<Longrightarrow> iter_heap n h = Ok (sort_key key h)"
proof (induction n arbitrary: h)
  case (Suc n)
  show ?case
  proof (cases "h = []")
    case False
    obtain h' where h': "heappop h = Ok (hd h, h')" "heap_from 0 h'" "add_mset (hd h) (mset h') = mset h"
      by (rule heappop_spec [OF Suc.prems(1,2) False])
    have "sort_key key h = hd h # sort_key key h'"
      using heap_hd_min [OF Suc.prems(2)] by (intro heap_items_pop [OF Suc.prems(1) h'(3)]) blast
    moreover have "set h' \<subseteq> set h" using h'(3) by (metis set_mset_mset set_mset_add_mset_insert subset_insertI)
    then have "no_ties (set h')" by (rule no_ties_subset [OF Suc.prems(1)])
    moreover have "length h' < length h" using h'(3) by (metis lessI size_add_mset size_mset)
    ultimately show ?thesis using Suc.IH [of h'] Suc.prems(3) h' False by simp
  qed simp
qed simp

lemma queue_iter_spec: "queue_inv p S q \<Longrightarrow> queue_iter q = Ok (items q)"
  by (cases rule: queue_inv_cases) (auto simp: iter_heap_spec)

lemma queue_len_spec: "queue_len q = length (items q)"
  by (cases q) simp_all

interpretation wq: waiting_queue "queue_inv p S" items "\<lambda>e. e \<in> S" "place_back p" "place_front p"
  add_request_q prepend_request pop_request peek_request remove_requests for p S
proof unfold_locales
  show "mset (place_back p e xs) = add_mset e (mset xs)" for e xs by (cases p) simp_all
  show "\<exists>q'. add_request_q e q = Ok q' \<and> queue_inv p S q' \<and> items q' = place_back p e (items q)"
    if "queue_inv p S q" "e \<in> S" for q e using that by (rule queue_add_spec)
  show "\<exists>q'. prepend_request e q = Ok q' \<and> queue_inv p S q' \<and> items q' = place_front p e (items q)"
    if "queue_inv p S q" "e \<in> S" for q e using that by (rule queue_prepend_spec)
  show "pop_request q = Err IndexError" if "queue_inv p S q" "items q = []" for q using that by (rule queue_pop_spec(1))
  show "\<exists>q'. pop_request q = Ok (e_request x, q') \<and> queue_inv p S q' \<and> items q' = xs"
    if "queue_inv p S q" "items q = x # xs" for q x xs using that by (rule queue_pop_spec(2))
  show "peek_request q = (case items q of [] \<Rightarrow> Err IndexError | x # _ \<Rightarrow> Ok (e_request x))"
    if "queue_inv p S q" for q using that by (rule queue_peek_spec)
  show "\<exists>q'. remove_requests rids q = Ok q' \<and> queue_inv p S q' \<and> items q' = filter (\<lambda>x. e_request x \<notin> set rids) (items q)"
    if "queue_inv p S q" for q rids using that by (rule wait_queue_remove_spec)
qed

section \<open>Properties\<close>

text \<open>Sequences of operations on a queue, and the same on the list of waiting requests.  \<open>QPrependAll\<close>
  prepends another queue of the same policy, to which the given entries were added.\<close>

datatype queue_op =
    QAdd entry | QPrepend entry | QPrependAll "entry list" | QPop | QPeek | QRemoveOne string | QRemove "string list"
  | QLen | QIter | QReversed

datatype queue_out = QDone | QServed string | QSize nat | QListed "string list" | QRaised py_error

fun op_entries :: "queue_op list \<Rightarrow> entry set" where
  "op_entries [] = {}"
| "op_entries (QAdd e # ops) = insert e (op_entries ops)"
| "op_entries (QPrepend e # ops) = insert e (op_entries ops)"
| "op_entries (QPrependAll es # ops) = set es \<union> op_entries ops"
| "op_entries (_ # ops) = op_entries ops"

fun empty_like :: "request_queue \<Rightarrow> request_queue" where
  "empty_like (FCFSQueue xs) = FCFSQueue []"
| "empty_like (PriorityQueue h) = PriorityQueue []"

definition prepend_all :: "entry list \<Rightarrow> request_queue \<Rightarrow> request_queue res" where
  "prepend_all es q = rbind (rfold add_request_q es (empty_like q)) (\<lambda>other. prepend_requests other q)"

fun queue_step :: "queue_op \<Rightarrow> request_queue \<Rightarrow> queue_out \<times> request_queue" where
  "queue_step (QAdd e) q = (case add_request_q e q of Ok q' \<Rightarrow> (QDone, q') | Err x \<Rightarrow> (QRaised x, q))"
| "queue_step (QPrepend e) q = (case prepend_request e q of Ok q' \<Rightarrow> (QDone, q') | Err x \<Rightarrow> (QRaised x, q))"
| "queue_step (QPrependAll es) q = (case prepend_all es q of Ok q' \<Rightarrow> (QDone, q') | Err x \<Rightarrow> (QRaised x, q))"
| "queue_step QPop q = (case pop_request q of Ok (r, q') \<Rightarrow> (QServed r, q') | Err x \<Rightarrow> (QRaised x, q))"
| "queue_step QPeek q = (case peek_request q of Ok r \<Rightarrow> (QServed r, q) | Err x \<Rightarrow> (QRaised x, q))"
| "queue_step (QRemoveOne rid) q = (case remove_request rid q of Ok q' \<Rightarrow> (QDone, q') | Err x \<Rightarrow> (QRaised x, q))"
| "queue_step (QRemove rids) q = (case remove_requests rids q of Ok q' \<Rightarrow> (QDone, q') | Err x \<Rightarrow> (QRaised x, q))"
| "queue_step QLen q = (QSize (queue_len q), q)"
| "queue_step QIter q = (case queue_iter q of Ok xs \<Rightarrow> (QListed (map e_request xs), q) | Err x \<Rightarrow> (QRaised x, q))"
| "queue_step QReversed q = (case queue_reversed q of Ok xs \<Rightarrow> (QListed (map e_request xs), q) | Err x \<Rightarrow> (QRaised x, q))"

text \<open>The place of a whole queue, and the removal of one request: a deque drops its first occurrence
  and raises when there is none, a heap drops all.\<close>

fun place_all :: "scheduling_policy \<Rightarrow> entry list \<Rightarrow> entry list \<Rightarrow> entry list" where
  "place_all FCFS es xs = es @ xs"
| "place_all PRIORITY es xs = fold (insort_key key) (fold (insort_key key) es []) xs"

fun drop_first :: "string \<Rightarrow> entry list \<Rightarrow> entry list option" where
  "drop_first rid [] = None"
| "drop_first rid (x # xs) = (if e_request x = rid then Some xs else map_option ((#) x) (drop_first rid xs))"

fun drop_one :: "scheduling_policy \<Rightarrow> string \<Rightarrow> entry list \<Rightarrow> queue_out \<times> entry list" where
  "drop_one FCFS rid xs = (case drop_first rid xs of Some ys \<Rightarrow> (QDone, ys) | None \<Rightarrow> (QRaised ValueError, xs))"
| "drop_one PRIORITY rid xs = (QDone, filter (\<lambda>x. e_request x \<noteq> rid) xs)"

fun list_step :: "scheduling_policy \<Rightarrow> queue_op \<Rightarrow> entry list \<Rightarrow> queue_out \<times> entry list" where
  "list_step p (QAdd e) xs = (QDone, place_back p e xs)"
| "list_step p (QPrepend e) xs = (QDone, place_front p e xs)"
| "list_step p (QPrependAll es) xs = (QDone, place_all p es xs)"
| "list_step p QPop xs = (case xs of [] \<Rightarrow> (QRaised IndexError, []) | x # xs' \<Rightarrow> (QServed (e_request x), xs'))"
| "list_step p QPeek xs = (case xs of [] \<Rightarrow> QRaised IndexError | x # _ \<Rightarrow> QServed (e_request x), xs)"
| "list_step p (QRemoveOne rid) xs = drop_one p rid xs"
| "list_step p (QRemove rids) xs = (QDone, filter (\<lambda>x. e_request x \<notin> set rids) xs)"
| "list_step p QLen xs = (QSize (length xs), xs)"
| "list_step p QIter xs = (QListed (map e_request xs), xs)"
| "list_step p QReversed xs = (QListed (rev (map e_request xs)), xs)"

fun run_ops :: "('o \<Rightarrow> 's \<Rightarrow> 'x \<times> 's) \<Rightarrow> 'o list \<Rightarrow> 's \<Rightarrow> 'x list" where
  "run_ops f [] s = []"
| "run_ops f (a # as) s = (let (x, s') = f a s in x # run_ops f as s')"

lemma place_back_fold_FCFS: "fold (place_back FCFS) es xs = xs @ es"
  by (induction es arbitrary: xs) simp_all

lemma prepend_all_refines:
  assumes "queue_inv p S q" and "set es \<subseteq> S"
  shows "\<exists>q'. prepend_all es q = Ok q' \<and> queue_inv p S q' \<and> items q' = place_all p es (items q)"
  using assms(1)
proof (cases rule: queue_inv_cases)
  case (fcfs xs)
  obtain r where r: "rfold add_request_q es (FCFSQueue []) = Ok r" "queue_inv FCFS S r" "items r = es"
    using wq.add_all [of FCFS S "FCFSQueue []" es] assms(2) by (auto simp: place_back_fold_FCFS)
  then obtain ys where "r = FCFSQueue ys" by (auto elim: queue_inv_cases)
  with r fcfs assms(2) show ?thesis by (auto simp: prepend_all_def queue_reversed_def fold_Cons_rev)
next
  case (prio h)
  have rear: "place_back PRIORITY = insort_key key" by (simp add: fun_eq_iff)
  obtain r where r: "rfold add_request_q es (PriorityQueue []) = Ok r" "queue_inv PRIORITY S r"
      "items r = fold (insort_key key) es []"
    using wq.add_all [of PRIORITY S "PriorityQueue []" es] assms(2) prio(3) by (auto simp: rear heap_from_def)
  have "set (items r) \<subseteq> S" using r(2) by (cases rule: queue_inv_cases) auto
  then obtain q' where "rfold add_request_q (items r) q = Ok q'" "queue_inv PRIORITY S q'"
      "items q' = fold (insort_key key) (items r) (items q)"
    using wq.add_all [of PRIORITY S q "items r"] assms(1) prio(1) by (auto simp: rear)
  with r prio show ?thesis by (auto simp: prepend_all_def queue_iter_spec)
qed

lemma remove_request_FCFS:
  "remove_request rid (FCFSQueue xs) = (case drop_first rid xs of Some ys \<Rightarrow> Ok (FCFSQueue ys) | None \<Rightarrow> Err ValueError)"
  by (induction xs) (auto simp del: dropWhile_eq_Nil_conv split: list.splits option.splits)

lemma drop_first_subset: "drop_first rid xs = Some ys \<Longrightarrow> set ys \<subseteq> set xs"
  by (induction xs arbitrary: ys) (auto split: if_splits)

lemma remove_request_refines:
  assumes "queue_inv p S q"
  shows "\<exists>q'. queue_step (QRemoveOne rid) q = (fst (drop_one p rid (items q)), q') \<and> queue_inv p S q' \<and>
     items q' = snd (drop_one p rid (items q))"
  using assms
proof (cases rule: queue_inv_cases)
  case (fcfs xs)
  then show ?thesis using drop_first_subset [of rid xs]
    by (cases "drop_first rid xs") (auto simp: remove_request_FCFS simp del: remove_request.simps)
next
  case (prio h)
  have "remove_request rid q = remove_requests [rid] q" using prio(2) by simp
  then show ?thesis using wq.remove_law [OF assms, of "[rid]"] prio(1) by auto
qed

lemma queue_step_refines:
  assumes "queue_inv p S q" and "op_entries [op] \<subseteq> S"
  shows "\<exists>q'. queue_step op q = (fst (list_step p op (items q)), q') \<and> queue_inv p S q' \<and> items q' = snd (list_step p op (items q))"
proof (cases op)
  case QPop
  then show ?thesis using wq.pop_empty [OF assms(1)] wq.pop_law [OF assms(1)] assms(1) by (cases "items q") fastforce+
next
  case QPeek
  then show ?thesis using wq.peek_law [OF assms(1)] assms(1) by (cases "items q") simp_all
next
  case (QAdd e)
  then show ?thesis using wq.add_law [OF assms(1), of e] assms(2) by auto
next
  case (QPrepend e)
  then show ?thesis using wq.prepend_law [OF assms(1), of e] assms(2) by auto
next
  case (QPrependAll es)
  then show ?thesis using prepend_all_refines [OF assms(1), of es] assms(2) by auto
next
  case (QRemoveOne rid)
  then show ?thesis using remove_request_refines [OF assms(1), of rid] by simp
next
  case QReversed
  then show ?thesis using assms(1) queue_iter_spec [OF assms(1)] by (simp add: queue_reversed_def rev_map)
next
  case (QRemove rids)
  then show ?thesis using wq.remove_law [OF assms(1), of rids] by auto
next
  case QLen
  then show ?thesis using assms(1) by (simp add: queue_len_spec)
next
  case QIter
  then show ?thesis using assms(1) queue_iter_spec [OF assms(1)] by simp
qed

lemma op_entries_Cons: "op_entries (a # as) = op_entries [a] \<union> op_entries as"
  by (cases a) simp_all

lemma run_queue_refines:
  "queue_inv p S q \<Longrightarrow> op_entries ops \<subseteq> S \<Longrightarrow> run_ops queue_step ops q = run_ops (list_step p) ops (items q)"
proof (induction ops arbitrary: q)
  case (Cons a as)
  then have sub: "op_entries [a] \<subseteq> S" "op_entries as \<subseteq> S" using op_entries_Cons [of a as] by auto
  from queue_step_refines [OF Cons.prems(1) sub(1)] obtain q' where
    "queue_step a q = (fst (list_step p a (items q)), q')" "queue_inv p S q'" "items q' = snd (list_step p a (items q))" by blast
  then show ?case using Cons.IH [of q'] sub(2) by (simp add: split_beta)
qed simp

text \<open>
  C27.  Both waiting queues refine a list in service order.  For every sequence of additions,
  prepends of one request or of a whole queue, pops, peeks, removals of one or of several
  requests, length queries and iterations in both directions, the answers are those of a plain
  list, the errors of an empty queue and of a missing request included.  A first-come-first-served
  queue appends at the end; a priority queue inserts by \<open>(priority, arrival_time)\<close>, and for it the
  hypothesis is that no two different requests of the sequence tie on both: with a tie the code
  raises \<open>TypeError\<close> (\<open>priority_tie_raises\<close>).
\<close>

theorem request_queue_refines_list:
  assumes "policy = PRIORITY \<longrightarrow> no_ties (op_entries ops)"
  shows "run_ops queue_step ops (create_request_queue policy) = run_ops (list_step policy) ops []"
proof -
  have "queue_inv policy (op_entries ops) (create_request_queue policy)"
    using assms by (cases policy) (simp_all add: create_request_queue_def heap_from_def)
  from run_queue_refines [OF this subset_refl] show ?thesis
    by (cases policy) (simp_all add: create_request_queue_def)
qed

lemma request_queue_refines_list_witness:
  "run_ops queue_step [QAdd \<lparr>e_priority = 2, e_arrival = 1, e_request = ''a''\<rparr>, QAdd \<lparr>e_priority = 1, e_arrival = 5, e_request = ''b''\<rparr>,
      QPrependAll [\<lparr>e_priority = 1, e_arrival = 7, e_request = ''c''\<rparr>], QReversed, QPop, QRemoveOne ''a'', QIter, QLen]
     (create_request_queue PRIORITY) =
   [QDone, QDone, QDone, QListed [''a'', ''c'', ''b''], QServed ''b'', QDone, QListed [''c''], QSize 1]"
proof -
  let ?ops = "[QAdd \<lparr>e_priority = 2, e_arrival = 1, e_request = ''a''\<rparr>, QAdd \<lparr>e_priority = 1, e_arrival = 5, e_request = ''b''\<rparr>,
      QPrependAll [\<lparr>e_priority = 1, e_arrival = 7, e_request = ''c''\<rparr>], QReversed, QPop, QRemoveOne ''a'', QIter, QLen]"
  have "no_ties (op_entries ?ops)" by (simp add: no_ties_def key_def)
  with request_queue_refines_list [of PRIORITY ?ops] show ?thesis by (simp add: key_def)
qed

text \<open>So every request is served: popping as often as requests were added returns each of them
  exactly as often as it was added and leaves the queue empty.\<close>

lemma queue_serves_all:
  assumes "policy = PRIORITY \<longrightarrow> no_ties (set es)"
  shows "\<exists>q1 q2 rs. rfold add_request_q es (create_request_queue policy) = Ok q1 \<and>
    drain pop_request (length es) q1 = Ok (rs, q2) \<and> \<not> queue_bool q2 \<and> mset rs = image_mset e_request (mset es)"
proof -
  have "queue_inv policy (set es) (create_request_queue policy)" "items (create_request_queue policy) = []"
    using assms by (cases policy; simp add: create_request_queue_def heap_from_def)+
  from wq.serves_all [OF this(1), of es] this(2) show ?thesis
    by (auto simp: queue_bool_def queue_len_spec)
qed

text \<open>
  Adding a request that ties with the root of the heap on priority and arrival time
  raises \<open>TypeError\<close>: the tuples are compared down to the request objects, which have no order.
\<close>

lemma priority_tie_raises:
  assumes "priority r1 = priority r2" and "arrival_time r1 = arrival_time r2" and "request_id r1 \<noteq> request_id r2"
  shows "add_request_q (entry_of r2) (PriorityQueue [entry_of r1]) = Err TypeError"
  using assms by (simp add: entry_of_def heappush_def siftdown_def siftdown_loop.simps par_def entry_lt_def)

end
