(* ===== verification/Scheduler_State.thy ===== *)
theory Scheduler_State
  imports KV_Cache_Manager Encoder_Cache Request_Queue
begin

text \<open>
  The state of \<open>vllm/v1/core/sched/scheduler.py\<close>, its construction, and the operations that
  do not belong to one scheduling step: adding, finishing and freeing requests, the choice of
  encoder inputs, and the bookkeeping of remote KV transfers.

  Request objects live in the dictionary \<open>requests\<close>; the queues hold their ids, and changing
  an object is writing it back.  What the scheduler asks of other parties is the record
  \<open>sched_env\<close>, an argument of the operations: the KV connector (a plug-in), the grammar
  compiler with its reasoning parser, and the clock.  Python sets of ids are lists without
  repetitions.
\<close>

section \<open>Configuration, environment and state\<close>

record sched_config =
  max_num_running_reqs :: int
  max_num_scheduled_tokens :: int
  sc_max_model_len :: int
  long_prefill_token_threshold :: int
  chunked_prefill_enabled :: bool
  no_chunked_mm_input :: bool
  max_loras :: "int option"
  sc_policy :: scheduling_policy
  sc_log_stats :: bool
  use_pp :: bool
  has_connector :: bool
  sc_block_size :: int
  num_lookahead_tokens :: int
  sc_num_spec_tokens :: int
  max_num_encoder_tokens :: int

record sched_env =
  ev_matched :: "request \<Rightarrow> int \<Rightarrow> int \<times> bool"
  ev_request_finished :: "request \<Rightarrow> int list \<Rightarrow> bool \<times> string option"
  ev_grammar_ready :: "request \<Rightarrow> bool"
  ev_should_advance :: "request \<Rightarrow> bool"
  ev_validate_tokens :: "request \<Rightarrow> int list \<Rightarrow> int list"
  ev_now :: int
  ev_nh :: int
  ev_hf :: hash_fn

record scheduler =
  s_cfg :: sched_config
  requests :: "(string, request) dict"
  waiting :: request_queue
  running :: "string list"
  finished_req_ids :: "string list"
  finished_req_ids_dict :: "(int, string list) dict option"
  finished_recving_kv_req_ids :: "string list"
  s_enc :: encoder_cache
  s_kv :: kv_cache_manager

definition get_req :: "string \<Rightarrow> scheduler \<Rightarrow> request res" where
  "get_req rid s = dict_get rid (requests s)"

definition put_req :: "request \<Rightarrow> scheduler \<Rightarrow> scheduler" where
  "put_req r s = s\<lparr>requests := AList.update (request_id r) r (requests s)\<rparr>"

section \<open>Construction\<close>

text \<open>The parts of \<open>VllmConfig\<close> that the constructor reads.\<close>

record sched_setup =
  su_max_num_seqs :: int
  su_max_model_len :: int
  su_long_prefill :: int
  su_chunked_prefill :: bool
  su_mm :: mm_scheduler_config
  su_max_loras :: "int option"
  su_policy :: string
  su_pipeline_parallel_size :: int
  su_kv_transfer :: bool
  su_kv_events :: bool
  su_num_gpu_blocks :: "int option"
  su_block_size :: int
  su_enable_prefix_caching :: bool
  su_num_speculative_tokens :: "int option"
  su_eagle :: bool
  su_is_multimodal :: bool
  su_max_tokens_by_modality :: "(string, int) dict"

definition Scheduler_init :: "sched_setup \<Rightarrow> kv_cache_config \<Rightarrow> bool \<Rightarrow> bool \<Rightarrow> scheduler res" where
  "Scheduler_init su cfg include_finished_set log =
     rbind (if su_kv_transfer su then py_assert (length (kv_cache_groups cfg) = 1) else Ok ()) (\<lambda>_.
     rbind (py_assert (case su_num_gpu_blocks su of None \<Rightarrow> False | Some n \<Rightarrow> n > 0)) (\<lambda>_.
     rbind (if su_policy su = ''priority'' then Ok PRIORITY
            else if su_policy su = ''fcfs'' then Ok FCFS else Err ValueError) (\<lambda>pol.
     rbind (compute_encoder_budget (su_is_multimodal su) (su_mm su) (su_max_tokens_by_modality su))
       (\<lambda>(encoder_compute_budget, encoder_cache_size).
     let use_eagle = (su_num_speculative_tokens su \<noteq> None \<and> su_eagle su);
         nspec = (case su_num_speculative_tokens su of None \<Rightarrow> 0 | Some n \<Rightarrow> n)
     in rbind (KVCacheManager_init cfg (su_max_model_len su) (su_enable_prefix_caching su) use_eagle log (su_kv_events su)) (\<lambda>km.
     Ok \<lparr>s_cfg = \<lparr>max_num_running_reqs = su_max_num_seqs su,
            max_num_scheduled_tokens = mm_max_num_batched_tokens (su_mm su),
            sc_max_model_len = su_max_model_len su, long_prefill_token_threshold = su_long_prefill su,
            chunked_prefill_enabled = su_chunked_prefill su,
            no_chunked_mm_input = disable_chunked_mm_input (su_mm su),
            max_loras = su_max_loras su, sc_policy = pol, sc_log_stats = log,
            use_pp = (su_pipeline_parallel_size su > 1), has_connector = su_kv_transfer su,
            sc_block_size = su_block_size su, num_lookahead_tokens = (if use_eagle then nspec else 0),
            sc_num_spec_tokens = nspec, max_num_encoder_tokens = encoder_compute_budget\<rparr>,
         requests = [], waiting = create_request_queue pol, running = [], finished_req_ids = [],
         finished_req_ids_dict = (if include_finished_set then Some [] else None),
         finished_recving_kv_req_ids = [], s_enc = EncoderCacheManager_init encoder_cache_size, s_kv = km\<rparr>)))))"

section \<open>Adding requests\<close>

definition sched_add_request :: "sched_env \<Rightarrow> request \<Rightarrow> scheduler \<Rightarrow> scheduler res" where
  "sched_add_request env r s =
     rbind (add_request_q (entry_of r) (waiting s)) (\<lambda>q.
     Ok (put_req (if sc_log_stats (s_cfg s) then record_event QUEUED (ev_now env) r else r) (s\<lparr>waiting := q\<rparr>)))"

definition get_request_counts :: "scheduler \<Rightarrow> nat \<times> nat" where
  "get_request_counts s = (length (running s), queue_len (waiting s))"

definition get_num_unfinished_requests :: "scheduler \<Rightarrow> nat" where
  "get_num_unfinished_requests s = queue_len (waiting s) + length (running s)"

definition has_finished_requests :: "scheduler \<Rightarrow> bool" where
  "has_finished_requests s \<longleftrightarrow> length (finished_req_ids s) > 0"

definition sched_reset_prefix_cache :: "scheduler \<Rightarrow> (bool \<times> scheduler) res" where
  "sched_reset_prefix_cache s =
     rbind (km_reset_prefix_cache (s_kv s)) (\<lambda>(b, k). Ok (b, s\<lparr>s_kv := k\<rparr>))"

section \<open>Freeing requests\<close>

definition connector_finished :: "sched_env \<Rightarrow> request \<Rightarrow> scheduler \<Rightarrow> (bool \<times> string option) res" where
  "connector_finished env r s =
     (if \<not> has_connector (s_cfg s) then Ok (False, None)
      else case km_get_block_ids (request_id r) (s_kv s) of
             [ids] \<Rightarrow> Ok (ev_request_finished env r ids)
           | _ \<Rightarrow> Err ValueError)"

definition sched_free_blocks :: "request \<Rightarrow> scheduler \<Rightarrow> scheduler res" where
  "sched_free_blocks r s =
     rbind (py_assert (is_finished r)) (\<lambda>_.
     rbind (km_free r (s_kv s)) (\<lambda>k.
     if map_of (requests s) (request_id r) = None then Err KeyError
     else Ok (s\<lparr>s_kv := free_block_hashes r k, requests := AList.delete (request_id r) (requests s)\<rparr>)))"

definition free_request :: "sched_env \<Rightarrow> request \<Rightarrow> scheduler \<Rightarrow> (string option \<times> scheduler) res" where
  "free_request env r s =
     rbind (py_assert (is_finished r)) (\<lambda>_.
     rbind (connector_finished env r s) (\<lambda>(delay_free_blocks, params).
     rbind (ec_free r (s_enc s)) (\<lambda>c.
     let s1 = s\<lparr>s_enc := c, finished_req_ids := set_add (request_id r) (finished_req_ids s),
               finished_req_ids_dict := map_option (\<lambda>d.
                 let (ids, d') = ddict_get (client_index r) d
                 in AList.update (client_index r) (set_add (request_id r) ids) d') (finished_req_ids_dict s)\<rparr>
     in if delay_free_blocks then Ok (params, s1)
        else rbind (sched_free_blocks r s1) (\<lambda>s2. Ok (params, s2)))))"

text \<open>\<open>list.remove\<close> drops the first occurrence and raises \<open>ValueError\<close> when there is none.\<close>

fun list_remove :: "'a \<Rightarrow> 'a list \<Rightarrow> 'a list res" where
  "list_remove x [] = Err ValueError"
| "list_remove x (y # ys) = (if y = x then Ok ys else rbind (list_remove x ys) (\<lambda>zs. Ok (y # zs)))"

text \<open>\<open>finish_requests\<close>: the ids are taken in the order given; unknown ids are ignored.\<close>

definition finish_requests :: "sched_env \<Rightarrow> string list \<Rightarrow> request_status \<Rightarrow> scheduler \<Rightarrow> scheduler res" where
  "finish_requests env ids finished_status s =
     rbind (py_assert (status_is_finished finished_status)) (\<lambda>_.
     let valid = List.map_filter (map_of (requests s)) (remdups ids);
         run = filter (\<lambda>r. status r = RUNNING) valid;
         wait = filter (\<lambda>r. status r \<noteq> RUNNING) valid
     in rbind (rfold (\<lambda>r s. rbind (list_remove (request_id r) (running s)) (\<lambda>rs. Ok (s\<lparr>running := rs\<rparr>))) run s) (\<lambda>s1.
        rbind (if wait = [] then Ok s1
               else rbind (remove_requests (map request_id wait) (waiting s1)) (\<lambda>q. Ok (s1\<lparr>waiting := q\<rparr>))) (\<lambda>s2.
        rfold (\<lambda>r s. let r' = r\<lparr>status := finished_status\<rparr>
                     in rbind (free_request env r' (put_req r' s)) (\<lambda>(_, s'). Ok s')) valid s2)))"

section \<open>Encoder inputs\<close>

fun encoder_input_loop ::
  "sched_config \<Rightarrow> encoder_cache \<Rightarrow> request \<Rightarrow> int \<Rightarrow> (nat \<times> placeholder_range) list \<Rightarrow> int list \<Rightarrow> int \<Rightarrow> int
   \<Rightarrow> (int list \<times> int \<times> int) res" where
  "encoder_input_loop cfg enc r ncomp [] acc nnew budget = Ok (acc, nnew, budget)"
| "encoder_input_loop cfg enc r ncomp ((i, pos) # rest) acc nnew budget =
     (let start_pos = mm_offset pos; num_encoder_tokens = mm_length pos
      in if start_pos \<ge> ncomp + nnew then Ok (acc, nnew, budget)
         else if start_pos + num_encoder_tokens \<le> ncomp
         then encoder_input_loop cfg enc r ncomp rest acc nnew budget
         else if has_cache r (int i) enc
         then encoder_input_loop cfg enc r ncomp rest acc nnew budget
         else if no_chunked_mm_input cfg \<and> ncomp < start_pos \<and> ncomp + nnew < start_pos + num_encoder_tokens
         then Ok (acc, start_pos - ncomp, budget)
         else rbind (can_allocate r (int i) enc) (\<lambda>fits.
              if \<not> fits \<or> num_encoder_tokens > budget
              then Ok (acc, if ncomp < start_pos then start_pos - ncomp else 0, budget)
              else encoder_input_loop cfg enc r ncomp rest (acc @ [int i]) nnew (budget - num_encoder_tokens)))"

definition try_schedule_encoder_inputs ::
  "sched_config \<Rightarrow> encoder_cache \<Rightarrow> request \<Rightarrow> int \<Rightarrow> int \<Rightarrow> int \<Rightarrow> (int list \<times> int \<times> int) res" where
  "try_schedule_encoder_inputs cfg enc r ncomp nnew budget =
     (if nnew = 0 \<or> \<not> has_encoder_inputs r then Ok ([], nnew, budget)
      else rbind (py_assert (length (mm_positions r) > 0)) (\<lambda>_.
           encoder_input_loop cfg enc r ncomp (zip [0..<length (mm_positions r)] (mm_positions r)) [] nnew budget))"

definition free_encoder_inputs :: "request \<Rightarrow> encoder_cache \<Rightarrow> encoder_cache res" where
  "free_encoder_inputs r enc =
     rfold (\<lambda>i c.
         rbind (py_index (mm_positions r) i) (\<lambda>p.
         if mm_offset p + mm_length p \<le> num_computed_tokens r then free_encoder_input r i c else Ok c))
       (get_cached_input_ids r enc) enc"

section \<open>Remote KV transfers\<close>

definition update_waiting_for_remote_kv :: "sched_env \<Rightarrow> request \<Rightarrow> scheduler \<Rightarrow> (bool \<times> scheduler) res" where
  "update_waiting_for_remote_kv env r s =
     rbind (py_assert (has_connector (s_cfg s))) (\<lambda>_.
     if request_id r \<notin> set (finished_recving_kv_req_ids s) then Ok (False, s)
     else case km_get_block_ids (request_id r) (s_kv s) of
            [ids] \<Rightarrow>
              let n0 = int (length ids) * sc_block_size (s_cfg s);
                  n1 = min n0 (num_tokens r);
                  n = (if n1 = num_tokens r then n1 - 1 else n1)
              in rbind (km_cache_blocks (ev_nh env) (ev_hf env) r n (s_kv s)) (\<lambda>k.
                 Ok (True, (put_req (r\<lparr>num_computed_tokens := n\<rparr>) s)\<lparr>s_kv := k,
                   finished_recving_kv_req_ids := filter (\<lambda>x. x \<noteq> request_id r) (finished_recving_kv_req_ids s)\<rparr>))
          | _ \<Rightarrow> Err ValueError)"

definition update_from_kv_xfer_finished :: "string list \<Rightarrow> string list \<Rightarrow> scheduler \<Rightarrow> scheduler res" where
  "update_from_kv_xfer_finished finished_recving finished_sending s =
     rfold (\<lambda>rid s. rbind (get_req rid s) (\<lambda>r. sched_free_blocks r s)) finished_sending
       (s\<lparr>finished_recving_kv_req_ids := fold set_add finished_recving (finished_recving_kv_req_ids s)\<rparr>)"

end
