(* ===== verification/Scheduler_Step.thy ===== *)
theory Scheduler_Step
  imports Scheduler_State
begin

text \<open>
  \<open>Scheduler.schedule\<close> and \<open>_update_after_schedule\<close>: one scheduling step.  The local
  variables of the Python function are the record \<open>sched_acc\<close>, threaded through the two loops.
  The first loop goes over the running requests and preempts others when blocks run out, the
  second admits waiting requests.  Both loops are functions with a termination proof: the first
  advances its index and never lengthens the list, the second takes a request from the
  waiting queue in every round that does not leave the loop.
\<close>

section \<open>Output and local variables\<close>

record new_request_data =
  nr_req_id :: string
  nr_prompt_token_ids :: "int list"
  nr_mm_inputs :: "string list"
  nr_mm_hashes :: "string list"
  nr_mm_positions :: "placeholder_range list"
  nr_sampling :: "sampling_params option"
  nr_pooling :: "string option"
  nr_block_ids :: "int list list"
  nr_num_computed_tokens :: int
  nr_lora :: "lora_request option"

definition new_request_from :: "request \<Rightarrow> int list list \<Rightarrow> new_request_data" where
  "new_request_from r ids =
     \<lparr>nr_req_id = request_id r, nr_prompt_token_ids = prompt_token_ids r, nr_mm_inputs = mm_inputs r,
      nr_mm_hashes = mm_hashes r, nr_mm_positions = mm_positions r, nr_sampling = sampling r,
      nr_pooling = pooling r, nr_block_ids = ids, nr_num_computed_tokens = num_computed_tokens r,
      nr_lora = lora r\<rparr>"

record cached_request_data =
  cr_req_ids :: "string list"
  cr_resumed :: "bool list"
  cr_new_token_ids :: "int list list"
  cr_new_block_ids :: "int list list list"
  cr_num_computed_tokens :: "int list"

record scheduler_output =
  so_new_reqs :: "new_request_data list"
  so_cached_reqs :: cached_request_data
  so_num_scheduled_tokens :: "(string, int) dict"
  so_total_tokens :: int
  so_spec_tokens :: "(string, int list) dict"
  so_encoder_inputs :: "(string, int list) dict"
  so_common_prefix :: "int list"
  so_finished :: "string list"
  so_free_encoder :: "(string \<times> int) list"
  so_structured :: "(string, nat) dict"

record sched_acc =
  ac_s :: scheduler
  ac_new :: "string list"
  ac_resumed :: "string list"
  ac_running :: "string list"
  ac_preempted :: "string list"
  ac_structured :: "(string, nat) dict"
  ac_blocks :: "(string, int list list) dict"
  ac_tokens :: "(string, int) dict"
  ac_budget :: int
  ac_enc_inputs :: "(string, int list) dict"
  ac_enc_budget :: int
  ac_spec :: "(string, int list) dict"
  ac_index :: nat
  ac_loras :: "int list"
  ac_skipped :: request_queue

definition acc_init :: "scheduler \<Rightarrow> sched_acc" where
  "acc_init s =
     \<lparr>ac_s = s, ac_new = [], ac_resumed = [], ac_running = [], ac_preempted = [], ac_structured = [],
      ac_blocks = [], ac_tokens = [], ac_budget = max_num_scheduled_tokens (s_cfg s),
      ac_enc_inputs = [], ac_enc_budget = max_num_encoder_tokens (s_cfg s), ac_spec = [], ac_index = 0,
      ac_loras = [], ac_skipped = create_request_queue (sc_policy (s_cfg s))\<rparr>"

section \<open>Preemption\<close>

text \<open>\<open>max(self.running, key=...)\<close>: the first request with the greatest priority and arrival time.\<close>

fun max_request :: "request list \<Rightarrow> request \<Rightarrow> request" where
  "max_request [] best = best"
| "max_request (r # rs) best =
     max_request rs (if (priority best, arrival_time best) < (priority r, arrival_time r) then r else best)"

definition pick_victim :: "scheduler \<Rightarrow> (string \<times> string list) res" where
  "pick_victim s =
     (case sc_policy (s_cfg s) of
        PRIORITY \<Rightarrow>
          rbind (rmap (\<lambda>rid. get_req rid s) (running s)) (\<lambda>rs.
          case rs of
            [] \<Rightarrow> Err ValueError
          | r # rs' \<Rightarrow>
              let v = request_id (max_request rs' r)
              in rbind (list_remove v (running s)) (\<lambda>rest. Ok (v, rest)))
      | FCFS \<Rightarrow>
          (if running s = [] then Err IndexError else Ok (last (running s), butlast (running s))))"

definition preempt :: "sched_env \<Rightarrow> scheduler \<Rightarrow> (string \<times> scheduler) res" where
  "preempt env s =
     rbind (pick_victim s) (\<lambda>(v, rest).
     rbind (get_req v s) (\<lambda>r.
     rbind (km_free r (s_kv s)) (\<lambda>k.
     let r1 = r\<lparr>status := PREEMPTED, num_computed_tokens := 0\<rparr>;
         r2 = (if sc_log_stats (s_cfg s) then record_event EV_PREEMPTED (ev_now env) r1 else r1)
     in rbind (prepend_request (entry_of r2) (waiting s)) (\<lambda>q.
        Ok (v, (put_req r2 s)\<lparr>running := rest, s_kv := k, waiting := q\<rparr>)))))"

lemma list_remove_length: "list_remove x xs = Ok ys \<Longrightarrow> length xs = Suc (length ys)"
  by (induction xs arbitrary: ys) (auto simp: res_simps split: if_splits)

lemma pick_victim_cases:
  assumes "pick_victim s = Ok (v, rest)"
  obtains (prio) r rs where "sc_policy (s_cfg s) = PRIORITY" and "rmap (\<lambda>rid. get_req rid s) (running s) = Ok (r # rs)"
    and "v = request_id (max_request rs r)" and "list_remove v (running s) = Ok rest"
  | (fcfs) "sc_policy (s_cfg s) = FCFS" and "running s = rest @ [v]"
proof (cases "sc_policy (s_cfg s)")
  case FCFS
  then show thesis using assms by (intro fcfs) (auto simp: pick_victim_def split: if_splits)
next
  case PRIORITY
  then obtain rs where rs: "rmap (\<lambda>rid. get_req rid s) (running s) = Ok rs"
    using assms by (auto simp: pick_victim_def res_simps)
  then show thesis using assms PRIORITY by (cases rs) (auto simp: pick_victim_def res_simps Let_def intro!: prio)
qed

lemma pick_victim_length: "pick_victim s = Ok (v, rest) \<Longrightarrow> length (running s) = Suc (length rest)"
  by (erule pick_victim_cases) (simp_all add: list_remove_length)

lemma preempt_length: "preempt env s = Ok (v, s') \<Longrightarrow> length (running s) = Suc (length (running s'))"
  by (auto simp: preempt_def res_simps Let_def put_req_def dest!: pick_victim_length)

text \<open>
  The inner loop: allocate slots for the request \<open>rid\<close>, preempting until it works or the
  request itself was preempted.
\<close>

function allocate_or_preempt ::
  "sched_env \<Rightarrow> string \<Rightarrow> int \<Rightarrow> scheduler \<Rightarrow> string list \<Rightarrow> (kv_cache_blocks option \<times> scheduler \<times> string list) res" where
  "allocate_or_preempt env rid nnew s preempted =
     rbind (get_req rid s) (\<lambda>r.
     rbind (allocate_slots (ev_nh env) (ev_hf env) r nnew 0 None (num_lookahead_tokens (s_cfg s)) False (s_kv s)) (\<lambda>(res, k).
     case res of
       Some bs \<Rightarrow> Ok (Some bs, s\<lparr>s_kv := k\<rparr>, preempted)
     | None \<Rightarrow>
         rbind (preempt env (s\<lparr>s_kv := k\<rparr>)) (\<lambda>(v, s').
         if v = rid then Ok (None, s', preempted @ [v])
         else allocate_or_preempt env rid nnew s' (preempted @ [v]))))"
  by pat_completeness auto
termination
  by (relation "measure (\<lambda>(env, rid, nnew, s, preempted). length (running s))") (auto dest: preempt_length)

declare allocate_or_preempt.simps [simp del]

lemma allocate_or_preempt_cases:
  assumes "allocate_or_preempt env rid nnew s pre = Ok (res, s', pre')"
  obtains (got) r bs k where "get_req rid s = Ok r"
    and "allocate_slots (ev_nh env) (ev_hf env) r nnew 0 None (num_lookahead_tokens (s_cfg s)) False (s_kv s) = Ok (Some bs, k)"
    and "res = Some bs" and "s' = s\<lparr>s_kv := k\<rparr>" and "pre' = pre"
  | (self) r k where "get_req rid s = Ok r"
    and "allocate_slots (ev_nh env) (ev_hf env) r nnew 0 None (num_lookahead_tokens (s_cfg s)) False (s_kv s) = Ok (None, k)"
    and "preempt env (s\<lparr>s_kv := k\<rparr>) = Ok (rid, s')" and "res = None" and "pre' = pre @ [rid]"
  | (other) r k v s1 where "get_req rid s = Ok r"
    and "allocate_slots (ev_nh env) (ev_hf env) r nnew 0 None (num_lookahead_tokens (s_cfg s)) False (s_kv s) = Ok (None, k)"
    and "preempt env (s\<lparr>s_kv := k\<rparr>) = Ok (v, s1)" and "v \<noteq> rid"
    and "allocate_or_preempt env rid nnew s1 (pre @ [v]) = Ok (res, s', pre')"
proof -
  note eq = assms [unfolded allocate_or_preempt.simps [of env rid nnew s pre]]
  from eq obtain r where r: "get_req rid s = Ok r" by (cases "get_req rid s") simp_all
  from eq obtain x k where a: "allocate_slots (ev_nh env) (ev_hf env) r nnew 0 None (num_lookahead_tokens (s_cfg s)) False (s_kv s) = Ok (x, k)"
    by (cases "allocate_slots (ev_nh env) (ev_hf env) r nnew 0 None (num_lookahead_tokens (s_cfg s)) False (s_kv s)") (auto simp: r)
  show thesis
  proof (cases x)
    case (Some bs)
    then show thesis using eq r a by (intro got [of r bs k]) auto
  next
    case None
    from eq obtain v s1 where p: "preempt env (s\<lparr>s_kv := k\<rparr>) = Ok (v, s1)"
      by (cases "preempt env (s\<lparr>s_kv := k\<rparr>)") (auto simp: r a None)
    show thesis
    proof (cases "v = rid")
      case True
      then show thesis using eq r a p None by (intro self [of r k]) auto
    next
      case False
      then show thesis using eq r a p None by (intro other [of r k v s1]) auto
    qed
  qed
qed

lemma allocate_or_preempt_length:
  "allocate_or_preempt env rid nnew s pre = Ok (res, s', pre') \<Longrightarrow> length (running s') \<le> length (running s)"
proof (induction "length (running s)" arbitrary: s pre rule: less_induct)
  case less
  from less.prems show ?case
  proof (cases rule: allocate_or_preempt_cases)
    case (other r k v s1)
    have "length (running s) = Suc (length (running s1))" using preempt_length [OF other(3)] by simp
    with less.hyps [OF _ other(5)] show ?thesis by simp
  qed (auto dest: preempt_length)
qed

section \<open>Running requests\<close>

definition run_tokens :: "sched_config \<Rightarrow> request \<Rightarrow> int \<Rightarrow> int" where
  "run_tokens cfg r budget =
     (let n0 = num_tokens_with_spec r + num_output_placeholders r - num_computed_tokens r;
          thr = long_prefill_token_threshold cfg;
          n1 = (if 0 < thr \<and> thr < n0 then thr else n0);
          n2 = min n1 budget
      in min n2 (sc_max_model_len cfg - 1 - num_computed_tokens r))"

definition encoder_choice :: "sched_acc \<Rightarrow> request \<Rightarrow> int \<Rightarrow> int \<Rightarrow> (int list \<times> int \<times> int) res" where
  "encoder_choice acc r ncomp nnew =
     (if has_encoder_inputs r
      then try_schedule_encoder_inputs (s_cfg (ac_s acc)) (s_enc (ac_s acc)) r ncomp nnew (ac_enc_budget acc)
      else Ok ([], nnew, ac_enc_budget acc))"

text \<open>What is recorded for a request that is scheduled, in either loop.\<close>

definition record_scheduled :: "string \<Rightarrow> int \<Rightarrow> int list list \<Rightarrow> int list \<Rightarrow> int \<Rightarrow> sched_acc \<Rightarrow> sched_acc" where
  "record_scheduled rid nnew block_ids enc_inputs new_enc_budget acc =
     acc\<lparr>ac_blocks := AList.update rid block_ids (ac_blocks acc),
         ac_tokens := AList.update rid nnew (ac_tokens acc),
         ac_budget := ac_budget acc - nnew,
         ac_enc_inputs := (if enc_inputs = [] then ac_enc_inputs acc else AList.update rid enc_inputs (ac_enc_inputs acc)),
         ac_enc_budget := (if enc_inputs = [] then ac_enc_budget acc else new_enc_budget)\<rparr>"

definition schedule_running_one :: "sched_env \<Rightarrow> sched_acc \<Rightarrow> (bool \<times> sched_acc) res" where
  "schedule_running_one env acc =
     (let s = ac_s acc; rid = running s ! ac_index acc
      in rbind (get_req rid s) (\<lambda>r.
         rbind (encoder_choice acc r (num_computed_tokens r) (run_tokens (s_cfg s) r (ac_budget acc))) (\<lambda>(enc_inputs, nnew, new_enc_budget).
         if nnew = 0 then Ok (True, acc\<lparr>ac_index := Suc (ac_index acc)\<rparr>)
         else
           rbind (allocate_or_preempt env rid nnew s (ac_preempted acc)) (\<lambda>(res, s1, pre).
           case res of
             None \<Rightarrow> Ok (False, acc\<lparr>ac_s := s1, ac_preempted := pre\<rparr>)
           | Some new_blocks \<Rightarrow>
               rbind (get_req rid s1) (\<lambda>r1.
               let nspec = nnew + num_computed_tokens r1 - num_tokens r1;
                   trim = (spec_token_ids r1 \<noteq> [] \<and> nspec > 0);
                   r2 = (if trim then r1\<lparr>spec_token_ids := take (nat nspec) (spec_token_ids r1)\<rparr> else r1)
               in rbind (rfold (ec_allocate r2) enc_inputs (s_enc s1)) (\<lambda>c.
                  let acc1 = record_scheduled rid nnew (blocks_get_block_ids (km_pool (s_kv s1)) new_blocks) enc_inputs new_enc_budget acc
                  in Ok (True, acc1\<lparr>ac_s := (put_req r2 s1)\<lparr>s_enc := c\<rparr>,
                       ac_preempted := pre, ac_running := ac_running acc @ [rid],
                       ac_structured := (if use_structured_output r2
                                         then AList.update rid (ac_index acc) (ac_structured acc) else ac_structured acc),
                       ac_spec := (if trim then AList.update rid (spec_token_ids r2) (ac_spec acc) else ac_spec acc),
                       ac_index := Suc (ac_index acc)\<rparr>)))))))"

lemma schedule_running_one_progress:
  assumes "schedule_running_one env acc = Ok (go, acc')"
  shows "length (running (ac_s acc')) \<le> length (running (ac_s acc)) \<and> (go \<longrightarrow> ac_index acc' = Suc (ac_index acc))"
proof -
  let ?s = "ac_s acc" let ?rid = "running ?s ! ac_index acc"
  note eq = assms [unfolded schedule_running_one_def Let_def]
  from eq obtain r where r: "get_req ?rid ?s = Ok r" by (cases "get_req ?rid ?s") simp_all
  let ?e = "encoder_choice acc r (num_computed_tokens r) (run_tokens (s_cfg ?s) r (ac_budget acc))"
  from eq obtain enc n eb where e: "?e = Ok (enc, n, eb)" by (cases ?e) (auto simp: r)
  show ?thesis
  proof (cases "n = 0")
    case True
    then show ?thesis using eq r e by auto
  next
    case False
    from eq obtain res s1 pre where a: "allocate_or_preempt env ?rid n ?s (ac_preempted acc) = Ok (res, s1, pre)"
      by (cases "allocate_or_preempt env ?rid n ?s (ac_preempted acc)") (auto simp: r e False)
    have "length (running s1) \<le> length (running ?s)" by (rule allocate_or_preempt_length [OF a])
    moreover have "running (ac_s acc') = running s1 \<and> (go \<longrightarrow> ac_index acc' = Suc (ac_index acc))"
      using eq r e a False by (cases res) (auto simp: res_simps Let_def put_req_def)
    ultimately show ?thesis by simp
  qed
qed

function schedule_running :: "sched_env \<Rightarrow> sched_acc \<Rightarrow> sched_acc res" where
  "schedule_running env acc =
     (if ac_index acc < length (running (ac_s acc)) \<and> ac_budget acc > 0
      then rbind (schedule_running_one env acc) (\<lambda>(go, acc').
           if go then schedule_running env acc' else Ok acc')
      else Ok acc)"
  by pat_completeness auto
termination
proof (relation "measure (\<lambda>(env, acc). length (running (ac_s acc)) - ac_index acc)")
  fix env acc x go acc'
  assume a: "ac_index acc < length (running (ac_s acc)) \<and> ac_budget acc > 0" "schedule_running_one env acc = Ok x"
    "(go, acc') = x" go
  from schedule_running_one_progress [of env acc go acc'] a
  show "((env, acc'), env, acc) \<in> measure (\<lambda>(env, acc). length (running (ac_s acc)) - ac_index acc)" by auto
qed simp

declare schedule_running.simps [simp del]

text \<open>The adapters of the requests that run; with LoRA there is a bound on their number.\<close>

definition running_loras :: "sched_acc \<Rightarrow> sched_acc res" where
  "running_loras acc =
     (case max_loras (s_cfg (ac_s acc)) of
        None \<Rightarrow> Ok acc
      | Some m \<Rightarrow>
          rbind (rmap (\<lambda>rid. get_req rid (ac_s acc)) (ac_running acc)) (\<lambda>rs.
          let ids = remdups (filter (\<lambda>i. i > 0) (map lora_int_id (List.map_filter lora rs)))
          in rbind (py_assert (int (length ids) \<le> m)) (\<lambda>_. Ok (acc\<lparr>ac_loras := ids\<rparr>))))"

section \<open>Waiting requests\<close>

datatype 'a round = Skip | Stop | Go 'a

text \<open>A request that cannot run in this step moves to the queue of skipped requests.\<close>

definition skip_waiting :: "string \<Rightarrow> sched_acc \<Rightarrow> (bool \<times> sched_acc) res" where
  "skip_waiting rid acc =
     rbind (get_req rid (ac_s acc)) (\<lambda>r.
     rbind (pop_request (waiting (ac_s acc))) (\<lambda>(_, q).
     rbind (prepend_request (entry_of r) (ac_skipped acc)) (\<lambda>k.
     Ok (True, acc\<lparr>ac_s := (ac_s acc)\<lparr>waiting := q\<rparr>, ac_skipped := k\<rparr>))))"

definition lora_blocked :: "sched_config \<Rightarrow> int list \<Rightarrow> request \<Rightarrow> bool" where
  "lora_blocked cfg loras r =
     (case (max_loras cfg, lora r) of
        (Some m, Some l) \<Rightarrow> int (length loras) = m \<and> lora_int_id l \<notin> set loras
      | _ \<Rightarrow> False)"

text \<open>Remote transfers, grammar compilation and the adapter bound decide whether a request is ready.\<close>

definition waiting_ready :: "sched_env \<Rightarrow> string \<Rightarrow> int list \<Rightarrow> scheduler \<Rightarrow> (bool \<times> scheduler) res" where
  "waiting_ready env rid loras s =
     rbind (get_req rid s) (\<lambda>r.
     rbind
       (if status r = WAITING_FOR_REMOTE_KVS
        then rbind (update_waiting_for_remote_kv env r s) (\<lambda>(is_ready, s1).
             if is_ready then rbind (get_req rid s1) (\<lambda>r1. Ok (True, put_req (r1\<lparr>status := WAITING\<rparr>) s1))
             else Ok (False, s1))
        else Ok (True, s))
       (\<lambda>(ok, s1).
     if \<not> ok then Ok (False, s1)
     else
       rbind (get_req rid s1) (\<lambda>r1.
       if status r1 = WAITING_FOR_FSM \<and> \<not> ev_grammar_ready env r1 then Ok (False, s1)
       else
         let r2 = (if status r1 = WAITING_FOR_FSM then r1\<lparr>status := WAITING\<rparr> else r1)
         in Ok (\<not> lora_blocked (s_cfg s1) loras r2, put_req r2 s1))))"

text \<open>Tokens that are already computed, in the local cache or behind the connector.\<close>

record computed_tokens =
  ct_blocks :: kv_cache_blocks
  ct_local :: int
  ct_external :: int
  ct_async :: bool
  ct_total :: int

definition find_computed :: "sched_env \<Rightarrow> request \<Rightarrow> scheduler \<Rightarrow> (computed_tokens \<times> scheduler) res" where
  "find_computed env r s =
     (if num_computed_tokens r = 0
      then rbind (get_computed_blocks (ev_nh env) (ev_hf env) r (s_kv s)) (\<lambda>((blocks, n), k).
           let (ext, async) = (if has_connector (s_cfg s) then ev_matched env r n else (0, False))
           in Ok (\<lparr>ct_blocks = blocks, ct_local = n, ct_external = ext, ct_async = async, ct_total = n + ext\<rparr>,
                  s\<lparr>s_kv := k\<rparr>))
      else Ok (\<lparr>ct_blocks = create_empty_block_list (s_kv s), ct_local = 0, ct_external = 0, ct_async = False,
                ct_total = num_computed_tokens r\<rparr>, s))"

definition waiting_tokens :: "sched_acc \<Rightarrow> request \<Rightarrow> computed_tokens \<Rightarrow> (int list \<times> int \<times> int) round res" where
  "waiting_tokens acc r ct =
     (if ct_async ct
      then rbind (py_assert (ct_external ct > 0)) (\<lambda>_. Ok (Go ([], 0, ac_enc_budget acc)))
      else
        let cfg = s_cfg (ac_s acc);
            n0 = num_tokens r - ct_total ct;
            thr = long_prefill_token_threshold cfg;
            n1 = (if 0 < thr \<and> thr < n0 then thr else n0)
        in if \<not> chunked_prefill_enabled cfg \<and> n1 > ac_budget acc then Ok Skip
           else
             let n2 = min n1 (ac_budget acc)
             in rbind (py_assert (n2 > 0)) (\<lambda>_.
                rbind (encoder_choice acc r (ct_total ct) n2) (\<lambda>(enc_inputs, n3, eb).
                if has_encoder_inputs r \<and> n3 = 0 then Ok Stop else Ok (Go (enc_inputs, n3, eb)))))"

text \<open>The request joins the running ones.\<close>

definition admit :: "sched_env \<Rightarrow> string \<Rightarrow> computed_tokens \<Rightarrow> int list \<times> int \<times> int \<Rightarrow> sched_acc \<Rightarrow> sched_acc res" where
  "admit env rid ct choice acc =
     (let (enc_inputs, nnew, new_enc_budget) = choice; s = ac_s acc
      in rbind (get_req rid s) (\<lambda>r.
         rbind (if status r = WAITING then Ok (ac_new acc @ [rid], ac_resumed acc)
                else if status r = PREEMPTED then Ok (ac_new acc, ac_resumed acc @ [rid])
                else Err RuntimeError) (\<lambda>(new, resumed).
         let r1 = (if sc_log_stats (s_cfg s) then record_event SCHEDULED (ev_now env) r else r);
             r2 = r1\<lparr>status := RUNNING, num_computed_tokens := ct_total ct,
                     num_cached_tokens := (if num_cached_tokens r1 < 0 then ct_total ct else num_cached_tokens r1)\<rparr>
         in rbind (rfold (ec_allocate r2) enc_inputs (s_enc s)) (\<lambda>c.
            let acc1 = record_scheduled rid nnew (km_get_block_ids rid (s_kv s)) enc_inputs new_enc_budget acc
            in Ok (acc1\<lparr>ac_s := (put_req r2 s)\<lparr>running := running s @ [rid], s_enc := c\<rparr>,
                        ac_new := new, ac_resumed := resumed,
                        ac_structured := (if use_structured_output r2
                                          then AList.update rid (ac_index acc) (ac_structured acc) else ac_structured acc),
                        ac_index := Suc (ac_index acc),
                        ac_loras := (case (max_loras (s_cfg s), lora r) of
                                       (Some _, Some l) \<Rightarrow> set_add (lora_int_id l) (ac_loras acc)
                                     | _ \<Rightarrow> ac_loras acc)\<rparr>)))))"

text \<open>The rest of a round once the number of tokens is known.\<close>

definition place_waiting ::
  "sched_env \<Rightarrow> string \<Rightarrow> request \<Rightarrow> computed_tokens \<Rightarrow> (int list \<times> int \<times> int) round \<Rightarrow> sched_acc \<Rightarrow> (bool \<times> sched_acc) res" where
  "place_waiting env rid r ct choice acc =
     (case choice of
        Skip \<Rightarrow> skip_waiting rid acc
      | Stop \<Rightarrow> Ok (False, acc)
      | Go (enc_inputs, nnew, eb) \<Rightarrow>
          let s = ac_s acc
          in rbind (allocate_slots (ev_nh env) (ev_hf env) r (nnew + ct_external ct) (ct_local ct) (Some (ct_blocks ct))
                      (num_lookahead_tokens (s_cfg s)) (ct_async ct) (s_kv s)) (\<lambda>(res, k).
             if res = None then Ok (False, acc\<lparr>ac_s := s\<lparr>s_kv := k\<rparr>\<rparr>)
             else rbind (pop_request (waiting s)) (\<lambda>(rid', q).
               let s' = s\<lparr>s_kv := k, waiting := q\<rparr>
               in if ct_async ct
                  then rbind (get_req rid' s') (\<lambda>r'.
                       rbind (prepend_request (entry_of r') (ac_skipped acc)) (\<lambda>sk.
                       Ok (True, acc\<lparr>ac_skipped := sk, ac_s := put_req (r'\<lparr>status := WAITING_FOR_REMOTE_KVS\<rparr>) s'\<rparr>)))
                  else rbind (admit env rid' ct (enc_inputs, nnew, eb) (acc\<lparr>ac_s := s'\<rparr>)) (\<lambda>acc'. Ok (True, acc')))))"

definition schedule_waiting_one :: "sched_env \<Rightarrow> sched_acc \<Rightarrow> (bool \<times> sched_acc) res" where
  "schedule_waiting_one env acc =
     rbind (peek_request (waiting (ac_s acc))) (\<lambda>rid.
     rbind (waiting_ready env rid (ac_loras acc) (ac_s acc)) (\<lambda>(ready, s1).
     if \<not> ready then skip_waiting rid (acc\<lparr>ac_s := s1\<rparr>)
     else
       rbind (get_req rid s1) (\<lambda>r.
       rbind (find_computed env r s1) (\<lambda>(ct, s2).
       rbind (waiting_tokens (acc\<lparr>ac_s := s2\<rparr>) r ct) (\<lambda>choice.
       place_waiting env rid r ct choice (acc\<lparr>ac_s := s2\<rparr>))))))"

lemma put_req_simps [simp]:
  "waiting (put_req r s) = waiting s" "running (put_req r s) = running s" "s_cfg (put_req r s) = s_cfg s"
  "s_enc (put_req r s) = s_enc s" "s_kv (put_req r s) = s_kv s" "finished_req_ids (put_req r s) = finished_req_ids s"
  "finished_req_ids_dict (put_req r s) = finished_req_ids_dict s"
  "finished_recving_kv_req_ids (put_req r s) = finished_recving_kv_req_ids s"
  "requests (put_req r s) = AList.update (request_id r) r (requests s)"
  by (simp_all add: put_req_def)

text \<open>The queues and the configuration stay as they are while a waiting request is examined.\<close>

definition same_queues :: "scheduler \<Rightarrow> scheduler \<Rightarrow> bool" where
  "same_queues s s' \<longleftrightarrow> waiting s' = waiting s \<and> running s' = running s \<and> s_cfg s' = s_cfg s \<and> s_enc s' = s_enc s"

lemma update_waiting_for_remote_kv_frame:
  "update_waiting_for_remote_kv env r s = Ok (b, s') \<Longrightarrow> same_queues s s'"
  by (auto simp: update_waiting_for_remote_kv_def res_simps Let_def same_queues_def split: if_splits list.splits)

lemma waiting_ready_frame:
  assumes "waiting_ready env rid loras s = Ok (b, s')"
  shows "same_queues s s'"
proof -
  note eq = assms [unfolded waiting_ready_def]
  from eq obtain r where r: "get_req rid s = Ok r" by (cases "get_req rid s") simp_all
  let ?m = "if status r = WAITING_FOR_REMOTE_KVS
        then rbind (update_waiting_for_remote_kv env r s) (\<lambda>(is_ready, s1).
             if is_ready then rbind (get_req rid s1) (\<lambda>r1. Ok (True, put_req (r1\<lparr>status := WAITING\<rparr>) s1))
             else Ok (False, s1))
        else Ok (True, s)"
  from eq obtain ok s1 where m: "?m = Ok (ok, s1)" by (cases ?m) (auto simp: r)
  then have "same_queues s s1"
    by (auto simp: res_simps same_queues_def split: if_splits dest!: update_waiting_for_remote_kv_frame)
  moreover have "same_queues s1 s'"
    using eq unfolding r rbind.simps m by (auto simp: res_simps Let_def same_queues_def split: if_splits)
  ultimately show ?thesis by (simp add: same_queues_def)
qed

lemma find_computed_frame: "find_computed env r s = Ok (ct, s') \<Longrightarrow> same_queues s s'"
  by (auto simp: find_computed_def res_simps Let_def same_queues_def split_beta split: if_splits)

lemma skip_waiting_cases:
  assumes "skip_waiting rid acc = Ok (go, acc')"
  obtains r v q sk where "get_req rid (ac_s acc) = Ok r" and "pop_request (waiting (ac_s acc)) = Ok (v, q)"
    and "prepend_request (entry_of r) (ac_skipped acc) = Ok sk" and "go"
    and "acc' = acc\<lparr>ac_s := (ac_s acc)\<lparr>waiting := q\<rparr>, ac_skipped := sk\<rparr>"
  using assms by (auto simp: skip_waiting_def res_simps)

lemma admit_cases:
  assumes "admit env rid ct (enc_inputs, nnew, eb) acc = Ok acc'"
  obtains r r2 c new resumed loras struct where "get_req rid (ac_s acc) = Ok r"
    and "status r = WAITING \<and> new = ac_new acc @ [rid] \<and> resumed = ac_resumed acc \<or>
         status r = PREEMPTED \<and> new = ac_new acc \<and> resumed = ac_resumed acc @ [rid]"
    and "r2 = (if sc_log_stats (s_cfg (ac_s acc)) then record_event SCHEDULED (ev_now env) r else r)
           \<lparr>status := RUNNING, num_computed_tokens := ct_total ct,
            num_cached_tokens := (if num_cached_tokens r < 0 then ct_total ct else num_cached_tokens r)\<rparr>"
    and "rfold (ec_allocate r2) enc_inputs (s_enc (ac_s acc)) = Ok c"
    and "acc' = (record_scheduled rid nnew (km_get_block_ids rid (s_kv (ac_s acc))) enc_inputs eb acc)
           \<lparr>ac_s := (put_req r2 (ac_s acc))\<lparr>running := running (ac_s acc) @ [rid], s_enc := c\<rparr>, ac_new := new, ac_resumed := resumed,
            ac_structured := struct, ac_index := Suc (ac_index acc), ac_loras := loras\<rparr>"
proof -
  let ?s = "ac_s acc"
  have nc: "num_cached_tokens (if b then record_event e t r else r) = num_cached_tokens r" for b e t r
    by (simp add: record_event_def)
  note eq = assms [unfolded admit_def prod.case Let_def]
  from eq obtain r where r: "get_req rid ?s = Ok r" by (cases "get_req rid ?s") simp_all
  let ?st = "if status r = WAITING then Ok (ac_new acc @ [rid], ac_resumed acc)
                else if status r = PREEMPTED then Ok (ac_new acc, ac_resumed acc @ [rid])
                else Err RuntimeError"
  from eq obtain new resumed where st: "?st = Ok (new, resumed)" by (cases ?st) (auto simp: r)
  let ?r1 = "if sc_log_stats (s_cfg ?s) then record_event SCHEDULED (ev_now env) r else r"
  let ?r2 = "?r1\<lparr>status := RUNNING, num_computed_tokens := ct_total ct,
     num_cached_tokens := (if num_cached_tokens ?r1 < 0 then ct_total ct else num_cached_tokens ?r1)\<rparr>"
  note eq2 = eq [unfolded r rbind.simps st prod.case]
  from eq2 obtain c where c: "rfold (ec_allocate ?r2) enc_inputs (s_enc ?s) = Ok c"
    by (cases "rfold (ec_allocate ?r2) enc_inputs (s_enc ?s)") simp_all
  note eq3 = eq2 [unfolded c rbind.simps res.inject, symmetric]
  show thesis
    by (rule that [OF r _ _ c eq3]) (use st in \<open>auto simp: nc split: if_splits\<close>)
qed

lemma place_waiting_cases:
  assumes "place_waiting env rid r ct choice acc = Ok (go, acc')"
  obtains (skip) "choice = Skip" and "skip_waiting rid acc = Ok (go, acc')"
  | (stop) "choice = Stop" and "\<not> go" and "acc' = acc"
  | (full) enc_inputs nnew eb k where "choice = Go (enc_inputs, nnew, eb)"
    and "allocate_slots (ev_nh env) (ev_hf env) r (nnew + ct_external ct) (ct_local ct) (Some (ct_blocks ct))
                      (num_lookahead_tokens (s_cfg (ac_s acc))) (ct_async ct) (s_kv (ac_s acc)) = Ok (None, k)"
    and "\<not> go" and "acc' = acc\<lparr>ac_s := (ac_s acc)\<lparr>s_kv := k\<rparr>\<rparr>"
  | (async) enc_inputs nnew eb bs k v q r' sk where "choice = Go (enc_inputs, nnew, eb)"
    and "allocate_slots (ev_nh env) (ev_hf env) r (nnew + ct_external ct) (ct_local ct) (Some (ct_blocks ct))
                      (num_lookahead_tokens (s_cfg (ac_s acc))) (ct_async ct) (s_kv (ac_s acc)) = Ok (Some bs, k)"
    and "go" and "ct_async ct" and "pop_request (waiting (ac_s acc)) = Ok (v, q)"
    and "get_req v (ac_s acc) = Ok r'" and "prepend_request (entry_of r') (ac_skipped acc) = Ok sk"
    and "acc' = acc\<lparr>ac_skipped := sk, ac_s := put_req (r'\<lparr>status := WAITING_FOR_REMOTE_KVS\<rparr>) ((ac_s acc)\<lparr>s_kv := k, waiting := q\<rparr>)\<rparr>"
  | (go) enc_inputs nnew eb bs k v q where "choice = Go (enc_inputs, nnew, eb)"
    and "allocate_slots (ev_nh env) (ev_hf env) r (nnew + ct_external ct) (ct_local ct) (Some (ct_blocks ct))
                      (num_lookahead_tokens (s_cfg (ac_s acc))) (ct_async ct) (s_kv (ac_s acc)) = Ok (Some bs, k)"
    and "go" and "\<not> ct_async ct" and "pop_request (waiting (ac_s acc)) = Ok (v, q)"
    and "admit env v ct (enc_inputs, nnew, eb) (acc\<lparr>ac_s := (ac_s acc)\<lparr>s_kv := k, waiting := q\<rparr>\<rparr>) = Ok acc'"
proof (cases choice)
  case Skip
  then show thesis using assms skip by (simp add: place_waiting_def)
next
  case Stop
  then show thesis using assms stop by (simp add: place_waiting_def)
next
  case (Go x)
  obtain e n eb where x: "x = (e, n, eb)" by (cases x)
  let ?a = "allocate_slots (ev_nh env) (ev_hf env) r (n + ct_external ct) (ct_local ct) (Some (ct_blocks ct))
                      (num_lookahead_tokens (s_cfg (ac_s acc))) (ct_async ct) (s_kv (ac_s acc))"
  have ch: "choice = round.Go (e, n, eb)" using Go x by simp
  note eq = assms [unfolded place_waiting_def ch round.case prod.case Let_def]
  from eq obtain res k where a: "?a = Ok (res, k)" by (cases ?a) auto
  show thesis
  proof (cases res)
    case None
    then show thesis using eq a ch by (intro full) auto
  next
    case (Some bs)
    from eq obtain v q where p: "pop_request (waiting (ac_s acc)) = Ok (v, q)"
      by (cases "pop_request (waiting (ac_s acc))") (auto simp: a Some)
    show thesis
    proof (cases "ct_async ct")
      case True
      then show thesis using eq a p Some ch
        by (auto simp: res_simps get_req_def intro!: async [OF ch a [unfolded Some] _ True p])
    next
      case False
      then show thesis using eq a p Some ch
        by (auto simp: res_simps intro!: go [OF ch a [unfolded Some] _ False p])
    qed
  qed
qed

lemma schedule_waiting_one_cases:
  assumes "schedule_waiting_one env acc = Ok (go, acc')"
  obtains (not_ready) rid s1 where "peek_request (waiting (ac_s acc)) = Ok rid"
    and "waiting_ready env rid (ac_loras acc) (ac_s acc) = Ok (False, s1)" and "same_queues (ac_s acc) s1"
    and "skip_waiting rid (acc\<lparr>ac_s := s1\<rparr>) = Ok (go, acc')"
  | (ready) rid s1 r ct s2 choice where "peek_request (waiting (ac_s acc)) = Ok rid"
    and "waiting_ready env rid (ac_loras acc) (ac_s acc) = Ok (True, s1)" and "get_req rid s1 = Ok r"
    and "find_computed env r s1 = Ok (ct, s2)" and "same_queues (ac_s acc) s2"
    and "waiting_tokens (acc\<lparr>ac_s := s2\<rparr>) r ct = Ok choice"
    and "place_waiting env rid r ct choice (acc\<lparr>ac_s := s2\<rparr>) = Ok (go, acc')"
proof -
  note eq = assms [unfolded schedule_waiting_one_def]
  from eq obtain rid where p: "peek_request (waiting (ac_s acc)) = Ok rid"
    by (cases "peek_request (waiting (ac_s acc))") simp_all
  from eq obtain b s1 where w: "waiting_ready env rid (ac_loras acc) (ac_s acc) = Ok (b, s1)"
    by (cases "waiting_ready env rid (ac_loras acc) (ac_s acc)") (auto simp: p)
  note f1 = waiting_ready_frame [OF w]
  show thesis
  proof (cases b)
    case False
    then show thesis using eq p w f1 by (intro not_ready [of rid s1]) auto
  next
    case True
    have eq2: "rbind (get_req rid s1) (\<lambda>r.
       rbind (find_computed env r s1) (\<lambda>(ct, s2).
       rbind (waiting_tokens (acc\<lparr>ac_s := s2\<rparr>) r ct) (\<lambda>choice.
       place_waiting env rid r ct choice (acc\<lparr>ac_s := s2\<rparr>)))) = Ok (go, acc')"
      using eq p w True by simp
    from eq2 obtain r where r: "get_req rid s1 = Ok r" by (cases "get_req rid s1") simp_all
    from eq2 obtain ct s2 where c: "find_computed env r s1 = Ok (ct, s2)" by (cases "find_computed env r s1") (auto simp: r)
    from eq2 obtain choice where t: "waiting_tokens (acc\<lparr>ac_s := s2\<rparr>) r ct = Ok choice"
      by (cases "waiting_tokens (acc\<lparr>ac_s := s2\<rparr>) r ct") (auto simp: r c)
    have "same_queues (ac_s acc) s2" using f1 find_computed_frame [OF c] by (simp add: same_queues_def)
    then show thesis using eq2 p w r c t True by (intro ready [of rid s1 r ct s2 choice]) auto
  qed
qed

lemma skip_waiting_len: "skip_waiting rid acc = Ok (go, acc') \<Longrightarrow> queue_len (waiting (ac_s acc)) = Suc (queue_len (waiting (ac_s acc')))"
  by (erule skip_waiting_cases) (auto dest: pop_request_len)

lemma admit_len: "admit env v ct choice acc = Ok acc' \<Longrightarrow> waiting (ac_s acc') = waiting (ac_s acc)"
  by (cases choice) (auto elim!: admit_cases)

lemma schedule_waiting_one_progress:
  assumes "schedule_waiting_one env acc = Ok (True, acc')"
  shows "queue_len (waiting (ac_s acc)) = Suc (queue_len (waiting (ac_s acc')))"
  using assms
proof (cases rule: schedule_waiting_one_cases)
  case (not_ready rid s1)
  then show ?thesis using skip_waiting_len [OF not_ready(4)] by (simp add: same_queues_def)
next
  case (ready rid s1 r ct s2 choice)
  from ready(7) show ?thesis
  proof (cases rule: place_waiting_cases)
    case skip
    then show ?thesis using skip_waiting_len [OF skip(2)] ready(5) by (simp add: same_queues_def)
  next
    case (async enc_inputs nnew eb bs k v q r' sk)
    then show ?thesis using ready(5) pop_request_len [OF async(5)] by (simp add: same_queues_def)
  next
    case (go enc_inputs nnew eb bs k v q)
    then show ?thesis using ready(5) pop_request_len [OF go(5)] admit_len [OF go(6)] by (simp add: same_queues_def)
  qed simp_all
qed

function schedule_waiting :: "sched_env \<Rightarrow> sched_acc \<Rightarrow> sched_acc res" where
  "schedule_waiting env acc =
     (if queue_bool (waiting (ac_s acc)) \<and> ac_budget acc > 0
      then if int (length (running (ac_s acc))) = max_num_running_reqs (s_cfg (ac_s acc)) then Ok acc
           else rbind (schedule_waiting_one env acc) (\<lambda>(go, acc').
                if go then schedule_waiting env acc' else Ok acc')
      else Ok acc)"
  by pat_completeness auto
termination
  by (relation "measure (\<lambda>(env, acc). queue_len (waiting (ac_s acc)))") (auto dest: schedule_waiting_one_progress)

declare schedule_waiting.simps [simp del]

section \<open>The step\<close>

definition put_back_skipped :: "sched_acc \<Rightarrow> sched_acc res" where
  "put_back_skipped acc =
     (if queue_bool (ac_skipped acc)
      then rbind (prepend_requests (ac_skipped acc) (waiting (ac_s acc))) (\<lambda>q.
           Ok (acc\<lparr>ac_s := (ac_s acc)\<lparr>waiting := q\<rparr>\<rparr>))
      else Ok acc)"

definition total_scheduled :: "sched_acc \<Rightarrow> int" where
  "total_scheduled acc = sum_list (map snd (ac_tokens acc))"

text \<open>The assertions the scheduler makes before it builds its output.\<close>

definition constraints_hold :: "sched_acc \<Rightarrow> bool" where
  "constraints_hold acc \<longleftrightarrow>
     total_scheduled acc \<le> max_num_scheduled_tokens (s_cfg (ac_s acc)) \<and> ac_budget acc \<ge> 0 \<and>
     int (length (running (ac_s acc))) \<le> max_num_running_reqs (s_cfg (ac_s acc)) \<and>
     length (ac_new acc) + length (ac_resumed acc) + length (ac_running acc) \<le> length (running (ac_s acc))"

definition common_prefix :: "scheduler \<Rightarrow> (int list \<times> scheduler) res" where
  "common_prefix s =
     (case running s of
        [] \<Rightarrow> Ok (replicate (length (kv_cache_groups (km_config (s_kv s)))) 0, s)
      | rid # _ \<Rightarrow>
          rbind (get_req rid s) (\<lambda>r.
          rbind (km_get_num_common_prefix_blocks r (int (length (running s))) (s_kv s)) (\<lambda>(ns, k).
          Ok (ns, s\<lparr>s_kv := k\<rparr>))))"

definition make_cached_request_data :: "sched_acc \<Rightarrow> cached_request_data res" where
  "make_cached_request_data acc =
     (let s = ac_s acc; ids = ac_running acc @ ac_resumed acc
      in rbind (rmap (\<lambda>rid. get_req rid s) ids) (\<lambda>rs.
         rbind (rmap (\<lambda>rid. dict_get rid (ac_tokens acc)) ids) (\<lambda>ns.
         rbind (rmap (\<lambda>rid. dict_get rid (ac_blocks acc)) ids) (\<lambda>bs.
         Ok \<lparr>cr_req_ids = ids,
             cr_resumed = replicate (length (ac_running acc)) False @ replicate (length (ac_resumed acc)) True,
             cr_new_token_ids =
               (if use_pp (s_cfg s)
                then map (\<lambda>(r, n).
                       let spec = (case map_of (ac_spec acc) (request_id r) of None \<Rightarrow> [] | Some xs \<Rightarrow> xs)
                       in py_slice (all_token_ids r) (num_computed_tokens r)
                            (num_computed_tokens r + (n - int (length spec)))) (zip rs ns)
                else if has_connector (s_cfg s) then replicate (length ids) [] else []),
             cr_new_block_ids = bs,
             cr_num_computed_tokens = map num_computed_tokens rs\<rparr>))))"

definition advance_request :: "string \<times> int \<Rightarrow> scheduler \<Rightarrow> scheduler res" where
  "advance_request = (\<lambda>(rid, n) s.
     rbind (get_req rid s) (\<lambda>r.
     let r1 = r\<lparr>num_computed_tokens := num_computed_tokens r + n\<rparr>; s1 = put_req r1 s
     in if has_encoder_inputs r1
        then rbind (free_encoder_inputs r1 (s_enc s1)) (\<lambda>c. Ok (s1\<lparr>s_enc := c\<rparr>))
        else Ok s1))"

definition update_after_schedule :: "(string, int) dict \<Rightarrow> scheduler \<Rightarrow> scheduler res" where
  "update_after_schedule tokens s =
     rbind (rfold advance_request tokens s) (\<lambda>s1. Ok (s1\<lparr>finished_req_ids := []\<rparr>))"

text \<open>\<open>AsyncScheduler\<close> overrides it: a request that catches up will get one more token.\<close>

definition add_placeholder :: "string \<times> int \<Rightarrow> scheduler \<Rightarrow> scheduler res" where
  "add_placeholder = (\<lambda>(rid, n) s.
     rbind (get_req rid s) (\<lambda>r.
     Ok (if num_computed_tokens r = num_tokens r + num_output_placeholders r
         then put_req (r\<lparr>num_output_placeholders := num_output_placeholders r + 1\<rparr>) s else s)))"

definition async_update_after_schedule :: "(string, int) dict \<Rightarrow> scheduler \<Rightarrow> scheduler res" where
  "async_update_after_schedule tokens s =
     rbind (update_after_schedule tokens s) (rfold add_placeholder tokens)"

text \<open>The decisions of a step: both loops, the put-back and the assertions.\<close>

definition schedule_decide :: "sched_env \<Rightarrow> scheduler \<Rightarrow> sched_acc res" where
  "schedule_decide env s =
     rbind (schedule_running env (acc_init s)) (\<lambda>acc1.
     rbind (running_loras acc1) (\<lambda>acc2.
     rbind (if ac_preempted acc2 = [] then schedule_waiting env acc2 else Ok acc2) (\<lambda>acc3.
     put_back_skipped acc3)))"

text \<open>
  The flag selects the subclass.  The result is the output, the published KV events and the
  new state.
\<close>

definition schedule ::
  "bool \<Rightarrow> sched_env \<Rightarrow> scheduler \<Rightarrow> (scheduler_output \<times> kv_event list \<times> scheduler) res" where
  "schedule async env s =
     rbind (schedule_decide env s) (\<lambda>acc.
     rbind (py_assert (constraints_hold acc)) (\<lambda>_.
     rbind (common_prefix (ac_s acc)) (\<lambda>(prefix, s1).
     rbind (rmap (\<lambda>rid. rbind (get_req rid s1) (\<lambda>r.
                        rbind (dict_get rid (ac_blocks acc)) (\<lambda>ids. Ok (new_request_from r ids)))) (ac_new acc)) (\<lambda>new_reqs.
     rbind (make_cached_request_data (acc\<lparr>ac_s := s1\<rparr>)) (\<lambda>cached.
     let (freed, c) = get_freed_ids (s_enc s1);
         (events, k) = km_take_events (s_kv s1);
         output = \<lparr>so_new_reqs = new_reqs, so_cached_reqs = cached, so_num_scheduled_tokens = ac_tokens acc,
                   so_total_tokens = total_scheduled acc, so_spec_tokens = ac_spec acc,
                   so_encoder_inputs = ac_enc_inputs acc, so_common_prefix = prefix,
                   so_finished = finished_req_ids s1, so_free_encoder = freed, so_structured = ac_structured acc\<rparr>
     in rbind ((if async then async_update_after_schedule else update_after_schedule)
                 (ac_tokens acc) (s1\<lparr>s_enc := c, s_kv := k\<rparr>)) (\<lambda>s2.
        Ok (output, events, s2)))))))"

end
