(* ===== verification/Scheduler_Queues.thy ===== *)
theory Scheduler_Queues
  imports Scheduler_Step
begin

text \<open>
  What a scheduling step does to the queues.  The waiting queue is counted as a multiset of
  entries, which every operation of either policy keeps when it returns, ties included.  With
  that the queues of the scheduler are well formed after every step, the token budget is
  exact, and under first come first served the order of service is described exactly.
\<close>

section \<open>Queues as multisets\<close>

fun queue_mset :: "request_queue \<Rightarrow> entry multiset" where
  "queue_mset (FCFSQueue xs) = mset xs"
| "queue_mset (PriorityQueue h) = mset h"

lemma siftdown_loop_mset:
  "siftdown_loop s x pos h = Ok (h', p) \<Longrightarrow> pos < length h \<Longrightarrow> p < length h \<and> mset (h'[p := x]) = mset (h[pos := x])"
proof (induction s x pos h rule: siftdown_loop.induct)
  case (1 s x pos h)
  show ?case
  proof (cases "s < pos \<and> entry_lt x (h ! par pos) = Ok True")
    case True
    then have "siftdown_loop s x (par pos) (h[pos := h ! par pos]) = Ok (h', p)"
      using "1.prems"(1) by (subst (asm) siftdown_loop.simps) simp
    with True "1.IH" [of True] "1.prems"(2) have "p < length h \<and> mset (h'[p := x]) = mset (h[pos := h ! par pos, par pos := x])"
      using par_less [of pos] by simp
    then show ?thesis using mset_move_hole [of pos h "par pos" x] "1.prems"(2) par_less [of pos] True by simp
  next
    case False
    then show ?thesis using "1.prems" by (subst (asm) siftdown_loop.simps) (auto simp: res_simps split: if_splits)
  qed
qed

lemma siftdown_mset: "siftdown s pos h = Ok h' \<Longrightarrow> pos < length h \<Longrightarrow> mset h' = mset h"
  by (auto simp: siftdown_def res_simps dest!: siftdown_loop_mset)

lemma smaller_child_less: "smaller_child pos h = Ok c \<Longrightarrow> 2 * pos + 1 < length h \<Longrightarrow> c < length h"
  by (auto simp: smaller_child_def Let_def res_simps split: if_splits)

lemma siftup_loop_mset:
  "siftup_loop pos h = Ok (h', p) \<Longrightarrow> pos < length h \<Longrightarrow> p < length h \<and> mset (h'[p := x]) = mset (h[pos := x])"
proof (induction pos h rule: siftup_loop.induct)
  case (1 pos h)
  show ?case
  proof (cases "2 * pos + 1 < length h")
    case True
    with "1.prems" obtain c where c: "smaller_child pos h = Ok c" "siftup_loop c (h[pos := h ! c]) = Ok (h', p)"
      by (subst (asm) siftup_loop.simps) (auto simp: res_simps)
    note l = smaller_child_less [OF c(1) True] smaller_child_gt [OF c(1)]
    from "1.IH" [OF True c] l have "p < length h \<and> mset (h'[p := x]) = mset (h[pos := h ! c, c := x])" by simp
    then show ?thesis using mset_move_hole [of pos h c x] "1.prems"(2) l by simp
  next
    case False
    with "1.prems" show ?thesis by (subst (asm) siftup_loop.simps) simp
  qed
qed

lemma siftup_mset:
  assumes "siftup pos h = Ok h'" and "pos < length h"
  shows "mset h' = mset h"
proof -
  obtain g p where g: "siftup_loop pos h = Ok (g, p)" "siftdown pos p (g[p := h ! pos]) = Ok h'"
    using assms(1) by (auto simp: siftup_def res_simps)
  have l: "length g = length h" by (rule siftup_loop_length [OF g(1)])
  from siftup_loop_mset [OF g(1) assms(2), of "h ! pos"] siftdown_mset [OF g(2)] l show ?thesis by simp
qed

lemma heappush_mset: "heappush h x = Ok h' \<Longrightarrow> mset h' = add_mset x (mset h)"
  by (auto simp: heappush_def dest!: siftdown_mset)

lemma heappop_mset:
  assumes "heappop h = Ok (x, h')"
  shows "x = h ! 0" and "mset h = add_mset x (mset h')"
proof -
  have "x = h ! 0 \<and> mset h = add_mset x (mset h')"
  proof (cases h rule: rev_cases)
    case (snoc g y)
    show ?thesis
    proof (cases g)
      case (Cons z zs)
      then have "x = z" and s: "siftup 0 (y # zs) = Ok h'" using assms snoc by (auto simp: heappop_def Let_def res_simps)
      from siftup_mset [OF s] this Cons snoc show ?thesis by simp
    qed (use assms snoc in \<open>simp add: heappop_def\<close>)
  qed (use assms in \<open>simp add: heappop_def\<close>)
  then show "x = h ! 0" "mset h = add_mset x (mset h')" by auto
qed

lemma heapify_mset: "heapify h = Ok h' \<Longrightarrow> mset h' = mset h"
proof -
  have "heapify_loop n g = Ok h' \<Longrightarrow> n \<le> length g \<Longrightarrow> mset h' = mset g" for n g
  proof (induction n arbitrary: g)
    case (Suc n)
    then obtain f where f: "siftup n g = Ok f" "heapify_loop n f = Ok h'" by (auto simp: res_simps)
    from Suc.IH [OF f(2)] siftup_mset [OF f(1)] siftup_length [OF f(1)] Suc.prems(2) show ?case by simp
  qed simp
  then show "heapify h = Ok h' \<Longrightarrow> mset h' = mset h" by (auto simp: heapify_def)
qed

lemma queue_add_mset: "add_request_q e q = Ok q' \<Longrightarrow> queue_mset q' = add_mset e (queue_mset q)"
  by (cases q) (auto simp: res_simps dest: heappush_mset)

lemma queue_prepend_mset: "prepend_request e q = Ok q' \<Longrightarrow> queue_mset q' = add_mset e (queue_mset q)"
  by (cases q) (auto simp: res_simps dest: heappush_mset)

lemma queue_pop_mset:
  assumes "pop_request q = Ok (rid, q')"
  obtains e where "e_request e = rid" and "queue_mset q = add_mset e (queue_mset q')" and "peek_request q = Ok rid"
proof (cases q)
  case (FCFSQueue xs)
  then show thesis using assms that by (cases xs) auto
next
  case (PriorityQueue h)
  then obtain x h' where x: "heappop h = Ok (x, h')" "rid = e_request x" "q' = PriorityQueue h'" "h \<noteq> []"
    using assms by (auto simp: res_simps split: if_splits)
  show thesis by (rule that [of x]) (use x heappop_mset [OF x(1)] PriorityQueue in simp_all)
qed

lemma queue_remove_mset:
  "remove_requests rids q = Ok q' \<Longrightarrow> queue_mset q' = filter_mset (\<lambda>x. e_request x \<notin> set rids) (queue_mset q)"
  by (cases q) (auto simp: res_simps dest: heapify_mset)

lemma iter_heap_mset: "iter_heap n h = Ok xs \<Longrightarrow> length h \<le> n \<Longrightarrow> mset xs = mset h"
proof (induction n arbitrary: h xs)
  case (Suc n)
  show ?case
  proof (cases "h = []")
    case False
    with Suc.prems obtain x h' ys where p: "heappop h = Ok (x, h')" "iter_heap n h' = Ok ys" "xs = x # ys"
      by (auto simp: res_simps)
    from Suc.IH [OF p(2)] heappop_length [OF p(1)] heappop_mset(2) [OF p(1)] Suc.prems(2) p(3) show ?thesis by simp
  qed (use Suc.prems in simp)
qed simp

lemma queue_iter_mset: "queue_iter q = Ok xs \<Longrightarrow> mset xs = queue_mset q"
  by (cases q) (auto dest: iter_heap_mset)

lemma queue_add_all_mset: "rfold add_request_q es q = Ok q' \<Longrightarrow> queue_mset q' = mset es + queue_mset q"
  by (induction es arbitrary: q) (auto simp: res_simps dest!: queue_add_mset)

lemma queue_prepend_all_mset:
  assumes "prepend_requests other q = Ok q'"
  shows "queue_mset q' = queue_mset other + queue_mset q"
proof (cases q)
  case (FCFSQueue xs)
  have "mset (fold (#) ys zs) = mset ys + mset zs" for ys zs :: "entry list" by (induction ys arbitrary: zs) simp_all
  then show ?thesis using assms FCFSQueue by (auto simp: queue_reversed_def res_simps dest!: queue_iter_mset)
next
  case (PriorityQueue h)
  then obtain ys where "queue_iter other = Ok ys" "rfold add_request_q ys (PriorityQueue h) = Ok q'"
    using assms by (auto simp: res_simps)
  then show ?thesis using PriorityQueue queue_add_all_mset queue_iter_mset by fastforce
qed

lemma queue_empty_mset: "\<not> queue_bool q \<longleftrightarrow> queue_mset q = {#}"
  by (cases q) (auto simp: queue_bool_def)

lemma create_queue_mset [simp]: "queue_mset (create_request_queue p) = {#}"
  by (cases p) (simp_all add: create_request_queue_def)

section \<open>Well-formed queues\<close>

definition once :: "'a multiset \<Rightarrow> bool" where
  "once M \<longleftrightarrow> (\<forall>x. count M x \<le> 1)"

lemma once_mset: "once (mset xs) \<longleftrightarrow> distinct xs"
  unfolding once_def distinct_count_atmost_1 by (metis count_eq_zero_iff le_eq_less_or_eq less_one order_refl set_mset_mset zero_le)

lemma once_plusD: "once (A + B) \<Longrightarrow> once A" "once (A + B) \<Longrightarrow> once B" "once (A + B) \<Longrightarrow> x \<in># A \<Longrightarrow> x \<notin># B"
proof -
  assume h: "once (A + B)"
  then have c: "count A x + count B x \<le> 1" for x by (simp add: once_def)
  show "once A" "once B" using c unfolding once_def by (metis add_leE)+
  show "x \<in># A \<Longrightarrow> x \<notin># B" using c [of x] by (simp flip: count_greater_zero_iff)
qed

definition waiting_ids :: "request_queue \<Rightarrow> string multiset" where
  "waiting_ids q = image_mset e_request (queue_mset q)"

definition status_waiting :: "request_status \<Rightarrow> bool" where
  "status_waiting st \<longleftrightarrow> st \<in> {WAITING, WAITING_FOR_FSM, WAITING_FOR_REMOTE_KVS, PREEMPTED}"

text \<open>
  Every id is in at most one place: the running list, the waiting queue or the set-aside
  requests \<open>X\<close>; each has its request object, with a status that fits the place.
\<close>

definition queues_wf :: "scheduler \<Rightarrow> string multiset \<Rightarrow> bool" where
  "queues_wf s X \<longleftrightarrow> wf_dict (requests s) \<and>
     (\<forall>rid r. map_of (requests s) rid = Some r \<longrightarrow> request_id r = rid) \<and>
     once (mset (running s) + (waiting_ids (waiting s) + X)) \<and>
     (\<forall>rid \<in> set (running s). \<exists>r. map_of (requests s) rid = Some r \<and> status r = RUNNING) \<and>
     (\<forall>rid \<in># waiting_ids (waiting s) + X. \<exists>r. map_of (requests s) rid = Some r \<and> status_waiting (status r))"

definition sched_wf :: "scheduler \<Rightarrow> bool" where
  "sched_wf s \<longleftrightarrow> queues_wf s {#}"

lemma get_req_Ok: "get_req rid s = Ok r \<longleftrightarrow> map_of (requests s) rid = Some r"
  by (simp add: get_req_def dict_get_def split: option.split)

lemma queues_wfD:
  assumes "queues_wf s X"
  shows "wf_dict (requests s)" and "get_req rid s = Ok r \<Longrightarrow> request_id r = rid" and "distinct (running s)"
    and "rid \<in> set (running s) \<Longrightarrow> rid \<notin># waiting_ids (waiting s) + X"
    and "rid \<in> set (running s) \<Longrightarrow> get_req rid s = Ok r \<Longrightarrow> status r = RUNNING"
    and "rid \<in># waiting_ids (waiting s) + X \<Longrightarrow> get_req rid s = Ok r \<Longrightarrow> status_waiting (status r)"
  using assms once_plusD [of "mset (running s)" "waiting_ids (waiting s) + X"] once_mset [of "running s"]
  unfolding queues_wf_def get_req_Ok by fastforce+

lemma queues_wf_frame:
  assumes "queues_wf s X" and "requests s' = requests s" and "running s' = running s"
    and "waiting_ids (waiting s') + X' = waiting_ids (waiting s) + X"
  shows "queues_wf s' X'"
  using assms unfolding queues_wf_def by simp

text \<open>A request object is written back and its id may move.\<close>

lemma queues_wf_put:
  assumes "queues_wf s X" and "requests s' = AList.update (request_id r) r (requests s)"
    and "mset (running s') + (waiting_ids (waiting s') + X') = mset (running s) + (waiting_ids (waiting s) + X)"
    and "set (running s') \<subseteq> insert (request_id r) (set (running s))"
    and "set_mset (waiting_ids (waiting s') + X') \<subseteq> insert (request_id r) (set_mset (waiting_ids (waiting s) + X))"
    and "request_id r \<in> set (running s') \<Longrightarrow> status r = RUNNING"
    and "request_id r \<in># waiting_ids (waiting s') + X' \<Longrightarrow> status_waiting (status r)"
  shows "queues_wf s' X'"
proof -
  have m: "map_of (requests s') rid = (if rid = request_id r then Some r else map_of (requests s) rid)" for rid
    by (simp add: assms(2) update_conv')
  show ?thesis
    unfolding queues_wf_def
  proof (intro conjI ballI allI impI)
    show "wf_dict (requests s')" using assms(1,2) by (simp add: queues_wf_def wf_dict_def distinct_update)
    show "once (mset (running s') + (waiting_ids (waiting s') + X'))" using assms(1,3) by (simp add: queues_wf_def)
    show "request_id r' = rid" if "map_of (requests s') rid = Some r'" for rid r'
      using that assms(1) by (auto simp: m queues_wf_def split: if_splits)
    show "\<exists>r'. map_of (requests s') rid = Some r' \<and> status r' = RUNNING" if "rid \<in> set (running s')" for rid
      using that assms(1,4,6) by (cases "rid = request_id r") (auto simp: m queues_wf_def)
    show "\<exists>r'. map_of (requests s') rid = Some r' \<and> status_waiting (status r')" if "rid \<in># waiting_ids (waiting s') + X'" for rid
      using that assms(1,5,7) unfolding m queues_wf_def by (cases "rid = request_id r") auto
  qed
qed

lemma waiting_ids_create [simp]: "waiting_ids (create_request_queue p) = {#}"
  by (simp add: waiting_ids_def)

lemma waiting_ids_prepend: "prepend_request e q = Ok q' \<Longrightarrow> waiting_ids q' = add_mset (e_request e) (waiting_ids q)"
  by (simp add: waiting_ids_def queue_prepend_mset)

lemma waiting_ids_pop:
  assumes "pop_request q = Ok (rid, q')"
  shows "waiting_ids q = add_mset rid (waiting_ids q')" and "peek_request q = Ok rid"
  using assms by (auto elim!: queue_pop_mset simp: waiting_ids_def)

lemma e_request_entry_of [simp]: "e_request (entry_of r) = request_id r"
  by (simp add: entry_of_def)

section \<open>Preemption\<close>

lemma list_remove_eq: "list_remove x xs = Ok ys \<longleftrightarrow> x \<in> set xs \<and> ys = remove1 x xs"
  by (induction xs arbitrary: ys) (auto simp: res_simps)

lemma pick_victim_run: "pick_victim s = Ok (v, rest) \<Longrightarrow> v \<in> set (running s) \<and> mset (running s) = add_mset v (mset rest)"
  by (erule pick_victim_cases) (auto simp: list_remove_eq)

lemma preempt_cases:
  assumes "preempt env s = Ok (v, s')"
  obtains r r2 rest k q where "pick_victim s = Ok (v, rest)" and "get_req v s = Ok r" and "km_free r (s_kv s) = Ok k"
    and "r2 = (if sc_log_stats (s_cfg s) then record_event EV_PREEMPTED (ev_now env) else (\<lambda>x. x))
           (r\<lparr>status := PREEMPTED, num_computed_tokens := 0\<rparr>)"
    and "prepend_request (entry_of r2) (waiting s) = Ok q"
    and "s' = (put_req r2 s)\<lparr>running := rest, s_kv := k, waiting := q\<rparr>"
proof -
  note eq = assms [unfolded preempt_def Let_def]
  from eq obtain rest where p: "pick_victim s = Ok (v, rest)" by (cases "pick_victim s") (auto simp: res_simps)
  from eq obtain r where r: "get_req v s = Ok r" by (cases "get_req v s") (simp_all add: p)
  from eq obtain k where k: "km_free r (s_kv s) = Ok k" by (cases "km_free r (s_kv s)") (simp_all add: p r)
  let ?r2 = "(if sc_log_stats (s_cfg s) then record_event EV_PREEMPTED (ev_now env) else (\<lambda>x. x))
           (r\<lparr>status := PREEMPTED, num_computed_tokens := 0\<rparr>)"
  have eq2: "rbind (prepend_request (entry_of ?r2) (waiting s)) (\<lambda>q.
        Ok (v, (put_req ?r2 s)\<lparr>running := rest, s_kv := k, waiting := q\<rparr>)) = Ok (v, s')"
    using eq by (simp add: p r k split: if_splits)
  from eq2 obtain q where q: "prepend_request (entry_of ?r2) (waiting s) = Ok q"
    by (cases "prepend_request (entry_of ?r2) (waiting s)") simp_all
  from eq2 [unfolded q rbind.simps] have "s' = (put_req ?r2 s)\<lparr>running := rest, s_kv := k, waiting := q\<rparr>" by simp
  then show thesis by (rule that [OF p r k refl q])
qed

text \<open>The state after the requests \<open>vs\<close> were preempted, in this order.\<close>

definition evicted :: "scheduler \<Rightarrow> string list \<Rightarrow> scheduler \<Rightarrow> bool" where
  "evicted s vs s' \<longleftrightarrow> s_cfg s' = s_cfg s \<and>
     mset (running s) = mset (running s') + mset vs \<and>
     (\<forall>n. set (drop n (running s')) \<subseteq> set (drop n (running s))) \<and>
     (sc_policy (s_cfg s) = FCFS \<longrightarrow> running s = running s' @ rev vs \<and>
        (\<forall>ws. waiting s = FCFSQueue ws \<longrightarrow> (\<exists>ws'. waiting s' = FCFSQueue (ws' @ ws) \<and> map e_request ws' = rev vs))) \<and>
     (vs = [] \<longrightarrow> running s' = running s \<and> waiting s' = waiting s)"

lemma evicted_kv: "evicted s [] (s\<lparr>s_kv := k\<rparr>)"
  by (simp add: evicted_def)

lemma evicted_trans:
  assumes "evicted s vs s1" and "evicted s1 us s2"
  shows "evicted s (vs @ us) s2"
proof -
  note a = assms(1) [unfolded evicted_def] and b = assms(2) [unfolded evicted_def]
  have "\<exists>ws'. waiting s2 = FCFSQueue (ws' @ ws) \<and> map e_request ws' = rev (vs @ us)"
    if f: "sc_policy (s_cfg s) = FCFS" and w: "waiting s = FCFSQueue ws" for ws
  proof -
    obtain w1 where w1: "waiting s1 = FCFSQueue (w1 @ ws)" "map e_request w1 = rev vs" using a f w by blast
    moreover have "sc_policy (s_cfg s1) = FCFS" using a f by simp
    ultimately obtain w2 where "waiting s2 = FCFSQueue (w2 @ (w1 @ ws))" "map e_request w2 = rev us" using b by blast
    then show ?thesis using w1(2) by (intro exI [of _ "w2 @ w1"]) simp
  qed
  moreover have "set (drop n (running s2)) \<subseteq> set (drop n (running s))" for n using a b by blast
  moreover have "running s = running s2 @ rev (vs @ us)" if "sc_policy (s_cfg s) = FCFS" using a b that by simp
  ultimately show ?thesis unfolding evicted_def using a b by simp
qed

lemma set_drop_remove1: "set (drop n (remove1 v xs)) \<subseteq> set (drop n xs)"
proof (induction xs arbitrary: n)
  case (Cons x xs)
  show ?case
  proof (cases n)
    case 0
    then show ?thesis using set_remove1_subset [of v "x # xs"] by simp
  next
    case (Suc m)
    then show ?thesis using Cons.IH [of m] set_drop_subset_set_drop [of m "Suc m" xs] by auto
  qed
qed simp

lemma preempt_keeps:
  assumes "preempt env s = Ok (v, s')" and "queues_wf s X"
  shows "queues_wf s' X" and "evicted s [v] s'" and "v \<in> set (running s)"
  using assms(1)
proof (induction rule: preempt_cases)
  case (1 r r2 rest k q)
  note c = 1
  have v: "v \<in> set (running s)" "mset (running s) = add_mset v (mset rest)" using pick_victim_run [OF c(1)] by auto
  have r: "request_id r = v" by (rule queues_wfD(2) [OF assms(2) c(2)])
  have r2: "request_id r2 = v" "status r2 = PREEMPTED" by (simp_all add: c(4) r record_event_def)
  have w: "waiting_ids q = add_mset v (waiting_ids (waiting s))" using waiting_ids_prepend [OF c(5)] r2(1) by simp
  have "v \<notin> set rest" using queues_wfD(3) [OF assms(2)] v(2) once_mset [of "running s"]
    by (metis once_def count_add_mset count_greater_zero_iff not_less_eq_eq One_nat_def Suc_le_mono add_leD1 le_zero_eq less_numeral_extra(3) not_gr_zero set_mset_mset)
  have "set rest \<subseteq> set (running s)" using v(2) by (metis set_mset_add_mset_insert set_mset_mset subset_insertI)
  then show "queues_wf s' X"
    by (intro queues_wf_put [OF assms(2), where r = r2]) (use c(6) r2 v w \<open>v \<notin> set rest\<close> in \<open>auto simp: status_waiting_def\<close>)
  show "v \<in> set (running s)" by (rule v(1))
  from c(1) have "(\<forall>n. set (drop n rest) \<subseteq> set (drop n (running s))) \<and> (sc_policy (s_cfg s) = FCFS \<longrightarrow> running s = rest @ [v])"
    by (cases rule: pick_victim_cases) (auto simp: list_remove_eq set_drop_remove1 [THEN subsetD])
  moreover have "\<exists>ws'. q = FCFSQueue (ws' @ ws) \<and> map e_request ws' = [v]" if "waiting s = FCFSQueue ws" for ws
    using c(5) that r2(1) by (intro exI [of _ "[entry_of r2]"]) auto
  ultimately show "evicted s [v] s'" using c(6) v(2) by (simp add: evicted_def)
qed

lemma allocate_or_preempt_keeps:
  assumes "allocate_or_preempt env rid nnew s pre = Ok (res, s', pre')" and "queues_wf s X" and "rid \<in> set (running s)"
  shows "queues_wf s' X \<and> (\<exists>vs. pre' = pre @ vs \<and> evicted s vs s' \<and> (rid \<in> set vs \<longleftrightarrow> res = None) \<and> (res = None \<longrightarrow> last vs = rid))"
  using assms
proof (induction "length (running s)" arbitrary: s pre rule: less_induct)
  case less
  have kv: "queues_wf (s\<lparr>s_kv := k\<rparr>) X" for k by (rule queues_wf_frame [OF less.prems(2)]) simp_all
  from less.prems(1) show ?case
  proof (cases rule: allocate_or_preempt_cases)
    case (got r bs k)
    then show ?thesis using kv evicted_kv by auto
  next
    case (self r k)
    note p = preempt_keeps [OF self(3) kv]
    have "evicted s [rid] s'" using evicted_trans [OF evicted_kv p(2)] by simp
    then show ?thesis using self p(1) by auto
  next
    case (other r k v s1)
    note p = preempt_keeps [OF other(3) kv]
    have e: "evicted s [v] s1" using evicted_trans [OF evicted_kv p(2)] by simp
    have m: "mset (running s) = add_mset v (mset (running s1))" using e by (simp add: evicted_def)
    then have "length (running s1) < length (running s)" by (metis lessI size_add_mset size_mset)
    moreover have "rid \<in> set (running s1)" using less.prems(3) other(4) m by (metis insertE set_mset_add_mset_insert set_mset_mset)
    ultimately obtain vs where vs: "queues_wf s' X" "pre' = (pre @ [v]) @ vs" "evicted s1 vs s'" "rid \<in> set vs \<longleftrightarrow> res = None"
        "res = None \<longrightarrow> last vs = rid"
      using less.hyps [OF _ other(5) p(1)] by blast
    have "evicted s (v # vs) s'" using evicted_trans [OF e vs(3)] by simp
    then show ?thesis using vs other(4) by (intro conjI exI [of _ "v # vs"]) auto
  qed
qed

section \<open>The token budget\<close>

text \<open>Encoder inputs never raise the number of tokens, and never make it negative.\<close>

lemma encoder_input_loop_bound:
  "encoder_input_loop cfg enc r ncomp ps acc n b = Ok (acc', n', b') \<Longrightarrow> n' \<le> max n 0 \<and> (0 \<le> n \<longrightarrow> 0 \<le> n')"
proof (induction ps arbitrary: acc b)
  case (Cons p ps)
  obtain i pos where p: "p = (i, pos)" by (cases p)
  from Cons.prems show ?case
    unfolding p by (auto simp: Let_def res_simps split: if_splits dest: Cons.IH)
qed simp

lemma encoder_choice_bound:
  "encoder_choice acc r ncomp n = Ok (enc, n', eb) \<Longrightarrow> n' \<le> max n 0 \<and> (0 \<le> n \<longrightarrow> 0 \<le> n')"
  by (auto simp: encoder_choice_def try_schedule_encoder_inputs_def res_simps split: if_splits dest: encoder_input_loop_bound)

lemma run_tokens_le: "run_tokens cfg r budget \<le> budget"
  by (simp add: run_tokens_def Let_def)

text \<open>The books of a step with \<open>M\<close> tokens to give away.\<close>

definition tokens_inv :: "int \<Rightarrow> sched_acc \<Rightarrow> bool" where
  "tokens_inv M acc \<longleftrightarrow> distinct (map fst (ac_tokens acc)) \<and> map fst (ac_blocks acc) = map fst (ac_tokens acc) \<and>
     mset (map fst (ac_tokens acc)) = mset (ac_running acc) + (mset (ac_new acc) + mset (ac_resumed acc)) \<and>
     total_scheduled acc + ac_budget acc = M \<and> 0 \<le> ac_budget acc"

lemma update_fresh: "k \<notin> fst ` set d \<Longrightarrow> AList.update k v d = d @ [(k, v)]"
  by (induction d) auto

lemma tokens_inv_record:
  assumes "tokens_inv M acc" and "rid \<notin> set (map fst (ac_tokens acc))" and "n \<le> ac_budget acc"
    and "ac_tokens acc' = AList.update rid n (ac_tokens acc)" and "ac_blocks acc' = AList.update rid ids (ac_blocks acc)"
    and "ac_budget acc' = ac_budget acc - n"
    and "mset (ac_running acc') + (mset (ac_new acc') + mset (ac_resumed acc')) =
         add_mset rid (mset (ac_running acc) + (mset (ac_new acc) + mset (ac_resumed acc)))"
  shows "tokens_inv M acc'"
proof -
  have "set (map fst (ac_blocks acc)) = set (map fst (ac_tokens acc))" using assms(1) by (simp add: tokens_inv_def)
  then have "rid \<notin> fst ` set (ac_tokens acc)" "rid \<notin> fst ` set (ac_blocks acc)" using assms(2) by auto
  then show ?thesis using assms by (simp add: tokens_inv_def update_fresh total_scheduled_def)
qed

section \<open>The loop over running requests\<close>

lemma schedule_running_one_cases:
  assumes "schedule_running_one env acc = Ok (go, acc')"
  obtains (idle) r enc eb where "get_req (running (ac_s acc) ! ac_index acc) (ac_s acc) = Ok r"
    and "encoder_choice acc r (num_computed_tokens r) (run_tokens (s_cfg (ac_s acc)) r (ac_budget acc)) = Ok (enc, 0, eb)"
    and "go" and "acc' = acc\<lparr>ac_index := Suc (ac_index acc)\<rparr>"
  | (out) r enc n eb s1 pre where "get_req (running (ac_s acc) ! ac_index acc) (ac_s acc) = Ok r"
    and "encoder_choice acc r (num_computed_tokens r) (run_tokens (s_cfg (ac_s acc)) r (ac_budget acc)) = Ok (enc, n, eb)" and "n \<noteq> 0"
    and "allocate_or_preempt env (running (ac_s acc) ! ac_index acc) n (ac_s acc) (ac_preempted acc) = Ok (None, s1, pre)"
    and "\<not> go" and "acc' = acc\<lparr>ac_s := s1, ac_preempted := pre\<rparr>"
  | (runs) r enc n eb bs s1 pre r1 r2 c struct spec where "get_req (running (ac_s acc) ! ac_index acc) (ac_s acc) = Ok r"
    and "encoder_choice acc r (num_computed_tokens r) (run_tokens (s_cfg (ac_s acc)) r (ac_budget acc)) = Ok (enc, n, eb)" and "n \<noteq> 0"
    and "allocate_or_preempt env (running (ac_s acc) ! ac_index acc) n (ac_s acc) (ac_preempted acc) = Ok (Some bs, s1, pre)" and "go"
    and "get_req (running (ac_s acc) ! ac_index acc) s1 = Ok r1"
    and "r2 = (if spec_token_ids r1 \<noteq> [] \<and> n + num_computed_tokens r1 - num_tokens r1 > 0
              then r1\<lparr>spec_token_ids := take (nat (n + num_computed_tokens r1 - num_tokens r1)) (spec_token_ids r1)\<rparr> else r1)"
    and "rfold (ec_allocate r2) enc (s_enc s1) = Ok c"
    and "acc' = (record_scheduled (running (ac_s acc) ! ac_index acc) n (blocks_get_block_ids (km_pool (s_kv s1)) bs) enc eb acc)
           \<lparr>ac_s := (put_req r2 s1)\<lparr>s_enc := c\<rparr>, ac_preempted := pre,
            ac_running := ac_running acc @ [running (ac_s acc) ! ac_index acc],
            ac_structured := struct, ac_spec := spec, ac_index := Suc (ac_index acc)\<rparr>"
proof -
  let ?s = "ac_s acc" let ?rid = "running ?s ! ac_index acc"
  note eq = assms [unfolded schedule_running_one_def Let_def]
  from eq obtain r where r: "get_req ?rid ?s = Ok r" by (cases "get_req ?rid ?s") simp_all
  let ?e = "encoder_choice acc r (num_computed_tokens r) (run_tokens (s_cfg ?s) r (ac_budget acc))"
  from eq obtain enc n eb where e: "?e = Ok (enc, n, eb)" by (cases ?e) (auto simp: r)
  show thesis
  proof (cases "n = 0")
    case True
    then show thesis using eq r e by (intro idle) auto
  next
    case False
    from eq obtain res s1 pre where a: "allocate_or_preempt env ?rid n ?s (ac_preempted acc) = Ok (res, s1, pre)"
      by (cases "allocate_or_preempt env ?rid n ?s (ac_preempted acc)") (auto simp: r e False)
    show thesis
    proof (cases res)
      case None
      then show thesis using eq r e a False by (intro out [OF r e False]) auto
    next
      case (Some bs)
      from eq obtain r1 where r1: "get_req ?rid s1 = Ok r1" by (cases "get_req ?rid s1") (auto simp: r e a False Some)
      let ?t = "spec_token_ids r1 \<noteq> [] \<and> n + num_computed_tokens r1 - num_tokens r1 > 0"
      let ?r2 = "if ?t then r1\<lparr>spec_token_ids := take (nat (n + num_computed_tokens r1 - num_tokens r1)) (spec_token_ids r1)\<rparr> else r1"
      from eq obtain c where c: "rfold (ec_allocate ?r2) enc (s_enc s1) = Ok c"
        by (cases "rfold (ec_allocate ?r2) enc (s_enc s1)") (simp_all add: r e a False Some r1)
      note eq3 = eq [unfolded r rbind.simps e prod.case False if_False a Some option.case r1 c res.inject prod.inject]
      have "go" using eq3 by (simp add: False)
      moreover note conjunct2 [OF eq3 [unfolded if_not_P [OF False] res.inject prod.inject], symmetric]
      ultimately show thesis by (intro runs [OF r e False a [unfolded Some] _ r1 refl c])
    qed
  qed
qed

text \<open>
  The invariant of the first loop.  A request that got tokens stands before the index, unless
  it was preempted later in the same step, which only the priority policy does.
\<close>

definition run_inv :: "scheduler \<Rightarrow> sched_acc \<Rightarrow> bool" where
  "run_inv s0 acc \<longleftrightarrow> queues_wf (ac_s acc) {#} \<and> evicted s0 (ac_preempted acc) (ac_s acc) \<and>
     tokens_inv (max_num_scheduled_tokens (s_cfg s0)) acc \<and> ac_new acc = [] \<and> ac_resumed acc = [] \<and>
     ac_skipped acc = create_request_queue (sc_policy (s_cfg s0)) \<and>
     set (ac_running acc) \<inter> set (drop (ac_index acc) (running (ac_s acc))) = {} \<and>
     (sc_policy (s_cfg s0) = FCFS \<or> ac_preempted acc = [] \<longrightarrow> set (ac_running acc) \<subseteq> set (take (ac_index acc) (running (ac_s acc))))"

lemma run_inv_init:
  assumes "sched_wf s" and "0 \<le> max_num_scheduled_tokens (s_cfg s)"
  shows "run_inv s (acc_init s)"
  using assms by (simp add: run_inv_def acc_init_def sched_wf_def evicted_def tokens_inv_def total_scheduled_def waiting_ids_def)

lemma evicted_running:
  assumes "evicted s vs s'" and "distinct (running s)"
  shows "set (running s') = set (running s) - set vs"
proof -
  have m: "mset (running s) = mset (running s') + mset vs" using assms(1) by (simp add: evicted_def)
  then have "once (mset (running s') + mset vs)" using assms(2) once_mset by metis
  from once_plusD(3) [OF this] have "set (running s') \<inter> set vs = {}" by auto
  moreover have "set (running s) = set (running s') \<union> set vs" using m by (metis set_mset_mset set_mset_union)
  ultimately show ?thesis by blast
qed

text \<open>Under first come first served preemption cuts the running list from its end.\<close>

lemma evicted_fcfs_take:
  assumes "evicted s vs s'" and "sc_policy (s_cfg s) = FCFS \<or> vs = []" and "n \<le> length (running s')"
  shows "take n (running s') = take n (running s)"
proof -
  have "running s = running s' @ rev vs" using assms(1,2) unfolding evicted_def by fastforce
  then show ?thesis using assms(3) by simp
qed

lemma run_one_index:
  assumes "evicted s vs s'" and "distinct (running s)" and "i < length (running s)" and "running s ! i \<notin> set vs"
    and "sc_policy (s_cfg s) = FCFS \<or> vs = []"
  shows "i < length (running s')" and "running s' ! i = running s ! i"
proof -
  have r: "running s = running s' @ rev vs" using assms(1,5) unfolding evicted_def by fastforce
  show "i < length (running s')"
  proof (rule ccontr)
    assume "\<not> i < length (running s')"
    then have "running s ! i = rev vs ! (i - length (running s'))" "i - length (running s') < length (rev vs)"
      using r assms(3) by (simp_all add: nth_append)
    then have "running s ! i \<in> set (rev vs)" by (metis nth_mem)
    then show False using assms(4) by simp
  qed
  then show "running s' ! i = running s ! i" using r by (simp add: nth_append)
qed

lemma run_one_scheduled:
  assumes "run_inv s0 acc" and "evicted (ac_s acc) vs s1" and "running (ac_s acc) ! ac_index acc \<notin> set vs"
    and "ac_index acc < length (running (ac_s acc))" and "queues_wf (ac_s acc) {#}"
  shows "insert (running (ac_s acc) ! ac_index acc) (set (ac_running acc)) \<inter> set (drop (Suc (ac_index acc)) (running s1)) = {}"
    and "sc_policy (s_cfg s0) = FCFS \<or> ac_preempted acc @ vs = [] \<Longrightarrow>
      insert (running (ac_s acc) ! ac_index acc) (set (ac_running acc)) \<subseteq> set (take (Suc (ac_index acc)) (running s1))"
proof -
  let ?i = "ac_index acc" let ?run = "running (ac_s acc)"
  have d: "distinct ?run" using queues_wfD(3) assms(5) .
  have split: "drop ?i ?run = ?run ! ?i # drop (Suc ?i) ?run" using assms(4) by (simp add: Cons_nth_drop_Suc)
  have "?run ! ?i \<notin> set (drop (Suc ?i) ?run)" using distinct_drop [OF d, of ?i] by (simp add: split)
  moreover have "set (drop (Suc ?i) (running s1)) \<subseteq> set (drop (Suc ?i) ?run)" using assms(2) by (simp add: evicted_def)
  moreover have "set (ac_running acc) \<inter> set (drop ?i ?run) = {}" using assms(1) by (simp add: run_inv_def)
  ultimately show "insert (?run ! ?i) (set (ac_running acc)) \<inter> set (drop (Suc ?i) (running s1)) = {}" by (auto simp: split)
  assume p: "sc_policy (s_cfg s0) = FCFS \<or> ac_preempted acc @ vs = []"
  moreover have "s_cfg (ac_s acc) = s_cfg s0" using assms(1) by (simp add: run_inv_def evicted_def)
  ultimately have p': "sc_policy (s_cfg (ac_s acc)) = FCFS \<or> vs = []" by auto
  note i = run_one_index [OF assms(2) d assms(4,3) p']
  have "take (Suc ?i) (running s1) = take (Suc ?i) ?run" using evicted_fcfs_take [OF assms(2) p'] i(1) by simp
  moreover have "take (Suc ?i) ?run = take ?i ?run @ [?run ! ?i]" using assms(4) by (simp add: take_Suc_conv_app_nth)
  moreover have "set (ac_running acc) \<subseteq> set (take ?i ?run)" using assms(1) p by (auto simp: run_inv_def)
  ultimately show "insert (?run ! ?i) (set (ac_running acc)) \<subseteq> set (take (Suc ?i) (running s1))" by auto
qed

lemma run_one_out:
  assumes "run_inv s0 acc" and "evicted (ac_s acc) vs s1" and "last vs = running (ac_s acc) ! ac_index acc" and "vs \<noteq> []"
    and "ac_index acc < length (running (ac_s acc))"
  shows "set (ac_running acc) \<inter> set (drop (ac_index acc) (running s1)) = {}"
    and "sc_policy (s_cfg s0) = FCFS \<Longrightarrow> set (ac_running acc) \<subseteq> set (take (ac_index acc) (running s1))"
proof -
  let ?i = "ac_index acc" let ?run = "running (ac_s acc)"
  have cfg: "s_cfg (ac_s acc) = s_cfg s0" using assms(1) by (simp add: run_inv_def evicted_def)
  have "set (drop ?i (running s1)) \<subseteq> set (drop ?i ?run)" using assms(2) by (simp add: evicted_def)
  then show "set (ac_running acc) \<inter> set (drop ?i (running s1)) = {}" using assms(1) by (auto simp: run_inv_def)
  assume f: "sc_policy (s_cfg s0) = FCFS"
  then have r: "?run = running s1 @ rev vs" using assms(2) cfg by (simp add: evicted_def)
  have d: "distinct ?run" using assms(1) queues_wfD(3) by (auto simp: run_inv_def)
  have "?run ! length (running s1) = last vs" using r assms(4) by (simp add: hd_rev nth_append flip: hd_conv_nth)
  then have "?i = length (running s1)" using assms(3,4,5) d r nth_eq_iff_index_eq [OF d assms(5), of "length (running s1)"] by simp
  then have "take ?i (running s1) = take ?i ?run" using r by simp
  then show "set (ac_running acc) \<subseteq> set (take ?i (running s1))" using assms(1) f by (simp add: run_inv_def)
qed

lemma record_scheduled_simps [simp]:
  "ac_s (record_scheduled rid n ids enc eb acc) = ac_s acc"
  "ac_tokens (record_scheduled rid n ids enc eb acc) = AList.update rid n (ac_tokens acc)"
  "ac_blocks (record_scheduled rid n ids enc eb acc) = AList.update rid ids (ac_blocks acc)"
  "ac_budget (record_scheduled rid n ids enc eb acc) = ac_budget acc - n"
  "ac_running (record_scheduled rid n ids enc eb acc) = ac_running acc"
  "ac_new (record_scheduled rid n ids enc eb acc) = ac_new acc"
  "ac_resumed (record_scheduled rid n ids enc eb acc) = ac_resumed acc"
  "ac_skipped (record_scheduled rid n ids enc eb acc) = ac_skipped acc"
  "ac_preempted (record_scheduled rid n ids enc eb acc) = ac_preempted acc"
  by (simp_all add: record_scheduled_def)

lemma evicted_same_queues:
  "evicted s vs s1 \<Longrightarrow> running s2 = running s1 \<Longrightarrow> waiting s2 = waiting s1 \<Longrightarrow> s_cfg s2 = s_cfg s1 \<Longrightarrow> evicted s vs s2"
  by (simp add: evicted_def)

lemma schedule_running_one_inv:
  assumes "schedule_running_one env acc = Ok (go, acc')" and "run_inv s0 acc" and "ac_index acc < length (running (ac_s acc))"
  shows "run_inv s0 acc'"
proof -
  let ?i = "ac_index acc" let ?rid = "running (ac_s acc) ! ?i"
  note inv = assms(2) [unfolded run_inv_def]
  have wf: "queues_wf (ac_s acc) {#}" and ev: "evicted s0 (ac_preempted acc) (ac_s acc)" using inv by simp_all
  have rid: "?rid \<in> set (running (ac_s acc))" using assms(3) by simp
  from assms(1) show ?thesis
  proof (cases rule: schedule_running_one_cases)
    case (idle r enc eb)
    have "set (drop (Suc ?i) (running (ac_s acc))) \<subseteq> set (drop ?i (running (ac_s acc)))" by (rule set_drop_subset_set_drop) simp
    moreover have "set (take ?i (running (ac_s acc))) \<subseteq> set (take (Suc ?i) (running (ac_s acc)))" by (rule set_take_subset_set_take) simp
    ultimately show ?thesis using inv idle(4) unfolding run_inv_def by (auto simp: tokens_inv_def total_scheduled_def)
  next
    case (out r enc n eb s1 pre)
    from allocate_or_preempt_keeps [OF out(4) wf rid] obtain vs where
      vs: "queues_wf s1 {#}" "pre = ac_preempted acc @ vs" "evicted (ac_s acc) vs s1" "?rid \<in> set vs" "last vs = ?rid" by auto
    then have ne: "vs \<noteq> []" by auto
    note o = run_one_out [OF assms(2) vs(3,5) ne assms(3)]
    show ?thesis using inv o vs ne evicted_trans [OF ev vs(3)] out(6)
      by (simp add: run_inv_def tokens_inv_def total_scheduled_def)
  next
    case (runs r enc n eb bs s1 pre r1 r2 c struct spec)
    from allocate_or_preempt_keeps [OF runs(4) wf rid] obtain vs where
      vs: "queues_wf s1 {#}" "pre = ac_preempted acc @ vs" "evicted (ac_s acc) vs s1" "?rid \<notin> set vs" by auto
    note k = run_one_scheduled [OF assms(2) vs(3,4) assms(3) wf]
    have n: "n \<le> ac_budget acc"
      using encoder_choice_bound [OF runs(2)] run_tokens_le [of "s_cfg (ac_s acc)" r "ac_budget acc"] inv by (auto simp: tokens_inv_def)
    have r1: "request_id r1 = ?rid" "?rid \<in> set (running s1)"
      using queues_wfD(2) [OF vs(1) runs(6)] evicted_running [OF vs(3) queues_wfD(3) [OF wf]] rid vs(4) by auto
    have r2: "request_id r2 = ?rid" "status r2 = RUNNING" using r1 queues_wfD(5) [OF vs(1) r1(2) runs(6)] by (simp_all add: runs(7))
    have wf2: "queues_wf (ac_s acc') {#}"
      by (rule queues_wf_put [OF vs(1), where r = r2]) (use runs(9) r2 r1(2) queues_wfD(4) [OF vs(1) r1(2)] in auto)
    have "?rid \<notin> set (map fst (ac_tokens acc))"
    proof -
      have "mset (map fst (ac_tokens acc)) = mset (ac_running acc)" using inv by (simp add: tokens_inv_def)
      then have "set (map fst (ac_tokens acc)) = set (ac_running acc)" by (metis set_mset_mset)
      moreover have "?rid \<in> set (drop ?i (running (ac_s acc)))" using assms(3) by (metis Cons_nth_drop_Suc list.set_intros(1))
      ultimately show ?thesis using inv by blast
    qed
    then have tok: "tokens_inv (max_num_scheduled_tokens (s_cfg s0)) acc'"
      by (rule tokens_inv_record [rotated]) (use inv n runs(9) in simp_all)
    have "evicted s0 pre (ac_s acc')"
      using evicted_same_queues [OF evicted_trans [OF ev vs(3)], of "ac_s acc'"] vs(2) runs(9) by simp
    then show ?thesis using inv k tok wf2 vs(2) runs(9) unfolding run_inv_def by simp
  qed
qed

lemma schedule_running_step:
  assumes "schedule_running env acc = Ok acc'"
  obtains (rest) "acc' = acc"
  | (once) go acc1 where "ac_index acc < length (running (ac_s acc))" and "0 < ac_budget acc"
    and "schedule_running_one env acc = Ok (go, acc1)" and "if go then schedule_running env acc1 = Ok acc' else acc' = acc1"
proof (cases "ac_index acc < length (running (ac_s acc)) \<and> ac_budget acc > 0")
  case True
  note eq = assms [unfolded schedule_running.simps [of env acc]]
  from True eq obtain go acc1 where one: "schedule_running_one env acc = Ok (go, acc1)"
    by (cases "schedule_running_one env acc") auto
  show thesis by (rule once [OF _ _ one]) (use True eq one in \<open>auto split: if_splits\<close>)
next
  case False
  then have "schedule_running env acc = Ok acc" by (subst schedule_running.simps) auto
  then show thesis using assms rest by simp
qed

text \<open>Induction over the rounds: \<open>P\<close> between rounds, \<open>Q\<close> when the loop is left.\<close>

lemma schedule_running_induct:
  assumes "schedule_running env acc = Ok acc'" and "P acc" and "\<And>acc. P acc \<Longrightarrow> Q acc"
    and "\<And>acc go acc1. P acc \<Longrightarrow> ac_index acc < length (running (ac_s acc)) \<Longrightarrow> 0 < ac_budget acc \<Longrightarrow>
      schedule_running_one env acc = Ok (go, acc1) \<Longrightarrow> if go then P acc1 else Q acc1"
  shows "Q acc'"
  using assms(1,2)
proof (induction "length (running (ac_s acc)) - ac_index acc" arbitrary: acc rule: less_induct)
  case less
  from less.prems(1) show ?case
  proof (cases rule: schedule_running_step)
    case rest
    then show ?thesis using less.prems(2) assms(3) by simp
  next
    case (once go acc1)
    note n = assms(4) [OF less.prems(2) once(1,2,3)]
    show ?thesis
    proof (cases go)
      case True
      then have "length (running (ac_s acc1)) - ac_index acc1 < length (running (ac_s acc)) - ac_index acc"
        using schedule_running_one_progress [OF once(3)] once(1) by auto
      then show ?thesis using less.hyps n once(4) True by simp
    qed (use once(4) n in simp)
  qed
qed

lemma schedule_running_inv:
  assumes "schedule_running env acc = Ok acc'" and "run_inv s0 acc"
  shows "run_inv s0 acc'"
  by (rule schedule_running_induct [OF assms(1), where P = "run_inv s0"]) (use assms(2) schedule_running_one_inv in auto)

section \<open>The loop over waiting requests\<close>

text \<open>An object whose id waits is written back with a waiting status.\<close>

lemma queues_wf_rewrite:
  assumes "queues_wf s X" and "rid \<in># waiting_ids (waiting s) + X" and "request_id r = rid" and "status_waiting (status r)"
    and "requests s' = AList.update rid r (requests s)" and "running s' = running s" and "waiting s' = waiting s"
  shows "queues_wf s' X"
proof -
  have "rid \<notin> set (running s)" using queues_wfD(4) [OF assms(1)] assms(2) by blast
  then show ?thesis using assms by (intro queues_wf_put [OF assms(1), where r = r]) auto
qed

lemma get_req_put: "get_req rid (put_req r s) = (if rid = request_id r then Ok r else get_req rid s)"
  by (simp add: get_req_def put_req_def dict_get_def update_conv')

lemma update_waiting_for_remote_kv_wf:
  assumes "update_waiting_for_remote_kv env r s = Ok (b, s')" and "queues_wf s X" and "get_req rid s = Ok r"
    and "rid \<in># waiting_ids (waiting s) + X"
  shows "queues_wf s' X"
proof -
  have r: "request_id r = rid" "status_waiting (status r)" using queues_wfD(2,6) [OF assms(2)] assms(3,4) by auto
  from assms(1) consider "s' = s" | k fin n where "s' = (put_req (r\<lparr>num_computed_tokens := n\<rparr>) s)\<lparr>s_kv := k, finished_recving_kv_req_ids := fin\<rparr>"
    unfolding update_waiting_for_remote_kv_def by (auto simp: res_simps Let_def split: if_splits list.splits)
  then show ?thesis
  proof cases
    case 2
    show ?thesis by (rule queues_wf_rewrite [OF assms(2,4), where r = "r\<lparr>num_computed_tokens := n\<rparr>"]) (use 2 r in simp_all)
  qed (use assms(2) in simp)
qed

lemma waiting_ready_wf:
  assumes "waiting_ready env rid loras s = Ok (b, s')" and "queues_wf s X" and "rid \<in># waiting_ids (waiting s)"
  shows "queues_wf s' X" and "b \<Longrightarrow> get_req rid s' = Ok r' \<Longrightarrow> status r' = WAITING \<or> status r' = PREEMPTED"
proof -
  note eq = assms(1) [unfolded waiting_ready_def]
  from eq obtain r where r: "get_req rid s = Ok r" by (cases "get_req rid s") simp_all
  let ?m = "if status r = WAITING_FOR_REMOTE_KVS
        then rbind (update_waiting_for_remote_kv env r s) (\<lambda>(is_ready, s1).
             if is_ready then rbind (get_req rid s1) (\<lambda>r1. Ok (True, put_req (r1\<lparr>status := WAITING\<rparr>) s1))
             else Ok (False, s1))
        else Ok (True, s)"
  from eq obtain ok s1 where m: "?m = Ok (ok, s1)" by (cases ?m) (auto simp: r)
  have one: "queues_wf s1 X \<and> waiting s1 = waiting s \<and> (ok \<longrightarrow> (\<forall>r1. get_req rid s1 = Ok r1 \<longrightarrow> status r1 \<noteq> WAITING_FOR_REMOTE_KVS))"
  proof (cases "status r = WAITING_FOR_REMOTE_KVS")
    case True
    with m obtain b1 s2 where u: "update_waiting_for_remote_kv env r s = Ok (b1, s2)"
      by (cases "update_waiting_for_remote_kv env r s") auto
    have w2: "queues_wf s2 X" using update_waiting_for_remote_kv_wf [OF u assms(2) r] assms(3) by simp
    have q2: "waiting s2 = waiting s" using update_waiting_for_remote_kv_frame [OF u] by (simp add: same_queues_def)
    show ?thesis
    proof (cases b1)
      case True': True
      with m True u obtain r1 where r1: "get_req rid s2 = Ok r1" "s1 = put_req (r1\<lparr>status := WAITING\<rparr>) s2" by (auto simp: res_simps)
      have id1: "request_id r1 = rid" by (rule queues_wfD(2) [OF w2 r1(1)])
      have "queues_wf s1 X"
        by (rule queues_wf_rewrite [OF w2, of rid "r1\<lparr>status := WAITING\<rparr>"]) (use assms(3) q2 id1 r1(2) in \<open>simp_all add: status_waiting_def\<close>)
      then show ?thesis using r1(2) q2 id1 by (simp add: get_req_put)
    qed (use m True u w2 q2 in simp)
  qed (use m assms(2) r in simp)
  have fin: "queues_wf s' X \<and> (b \<longrightarrow> (\<forall>r'. get_req rid s' = Ok r' \<longrightarrow> status r' = WAITING \<or> status r' = PREEMPTED))"
  proof (cases ok)
    case True
    from eq True obtain r1 where r1: "get_req rid s1 = Ok r1" by (cases "get_req rid s1") (auto simp: r m)
    have id1: "request_id r1 = rid" "status_waiting (status r1)" "status r1 \<noteq> WAITING_FOR_REMOTE_KVS"
      using queues_wfD(2) [OF _ r1, of X] queues_wfD(6) [OF _ _ r1, of X] one r1 assms(3) True by auto
    let ?r2 = "if status r1 = WAITING_FOR_FSM then r1\<lparr>status := WAITING\<rparr> else r1"
    have st: "request_id ?r2 = rid" "status ?r2 = WAITING \<or> status ?r2 = PREEMPTED" using id1 by (auto simp: status_waiting_def)
    have "queues_wf (put_req ?r2 s1) X"
      by (rule queues_wf_rewrite [of s1 X rid ?r2]) (use one st assms(3) in \<open>auto simp: status_waiting_def\<close>)
    moreover have "s' = s1 \<and> \<not> b \<or> s' = put_req ?r2 s1" using eq True r m r1 by (auto simp: Let_def split: if_splits)
    ultimately show ?thesis using one st by (auto simp: get_req_put)
  qed (use eq r m one in auto)
  from fin show "queues_wf s' X" "b \<Longrightarrow> get_req rid s' = Ok r' \<Longrightarrow> status r' = WAITING \<or> status r' = PREEMPTED" by blast+
qed

text \<open>
  The invariant of the second loop, which only runs when nothing was preempted.  The requests
  set aside stand in \<open>ac_skipped\<close>.
\<close>

definition wait_inv :: "sched_config \<Rightarrow> sched_acc \<Rightarrow> bool" where
  "wait_inv cfg acc \<longleftrightarrow> queues_wf (ac_s acc) (waiting_ids (ac_skipped acc)) \<and> s_cfg (ac_s acc) = cfg \<and>
     tokens_inv (max_num_scheduled_tokens cfg) acc \<and> set (map fst (ac_tokens acc)) \<subseteq> set (running (ac_s acc)) \<and>
     int (length (running (ac_s acc))) \<le> max_num_running_reqs cfg \<and> ac_preempted acc = []"

lemma wait_inv_state:
  assumes "wait_inv cfg acc" and "queues_wf s' (waiting_ids (ac_skipped acc))" and "same_queues (ac_s acc) s'"
  shows "wait_inv cfg (acc\<lparr>ac_s := s'\<rparr>)"
  using assms by (simp add: wait_inv_def same_queues_def tokens_inv_def total_scheduled_def)

lemma skip_waiting_inv:
  assumes "skip_waiting rid acc = Ok (go, acc')" and "peek_request (waiting (ac_s acc)) = Ok rid" and "wait_inv cfg acc"
  shows "wait_inv cfg acc'"
  using assms(1)
proof (cases rule: skip_waiting_cases)
  case (1 r v q sk)
  note inv = assms(3) [unfolded wait_inv_def]
  have p: "v = rid" "waiting_ids (waiting (ac_s acc)) = add_mset rid (waiting_ids q)"
    using waiting_ids_pop [OF 1(2)] assms(2) by auto
  have r: "request_id r = rid" using queues_wfD(2) 1(1) inv by blast
  have "queues_wf (ac_s acc') (waiting_ids sk)"
    by (rule queues_wf_frame [of "ac_s acc" "waiting_ids (ac_skipped acc)"]) (use inv 1(5) p waiting_ids_prepend [OF 1(3)] r in simp_all)
  then show ?thesis using inv 1(5) by (simp add: wait_inv_def tokens_inv_def total_scheduled_def)
qed

lemma async_wf:
  assumes "queues_wf s X" and "pop_request (waiting s) = Ok (v, q)" and "get_req v s = Ok r"
  shows "queues_wf (put_req (r\<lparr>status := WAITING_FOR_REMOTE_KVS\<rparr>) (s\<lparr>s_kv := k, waiting := q\<rparr>)) (add_mset v X)"
proof -
  have r: "request_id r = v" by (rule queues_wfD(2) [OF assms(1,3)])
  have p: "waiting_ids (waiting s) = add_mset v (waiting_ids q)" by (rule waiting_ids_pop(1) [OF assms(2)])
  have "v \<notin> set (running s)" using queues_wfD(4) [OF assms(1), of v] p by auto
  then show ?thesis
    by (intro queues_wf_put [OF assms(1), where r = "r\<lparr>status := WAITING_FOR_REMOTE_KVS\<rparr>"])
      (use r p in \<open>auto simp: status_waiting_def\<close>)
qed

lemma admit_wf:
  assumes "queues_wf s X" and "pop_request (waiting s) = Ok (v, q)" and "request_id r = v" and "status r = RUNNING"
    and "requests s' = AList.update v r (requests s)" and "running s' = running s @ [v]" and "waiting s' = q"
  shows "queues_wf s' X" and "v \<notin> set (running s)"
proof -
  have p: "waiting_ids (waiting s) = add_mset v (waiting_ids q)" by (rule waiting_ids_pop(1) [OF assms(2)])
  show run: "v \<notin> set (running s)" using queues_wfD(4) [OF assms(1), of v] p by auto
  have "once (waiting_ids (waiting s) + X)" using assms(1) once_plusD(2) by (auto simp: queues_wf_def)
  then have "once ({#v#} + (waiting_ids q + X))" by (simp add: p)
  from once_plusD(3) [OF this, of v] have "v \<notin># waiting_ids q + X" by simp
  then show "queues_wf s' X"
    by (intro queues_wf_put [OF assms(1), where r = r]) (use assms p run in auto)
qed

lemma admit_inv:
  assumes "admit env v ct (enc, n, eb) (acc\<lparr>ac_s := (ac_s acc)\<lparr>s_kv := k, waiting := q\<rparr>\<rparr>) = Ok acc'"
    and "pop_request (waiting (ac_s acc)) = Ok (v, q)" and "wait_inv cfg acc" and "n \<le> ac_budget acc"
    and "int (length (running (ac_s acc))) < max_num_running_reqs cfg"
  shows "wait_inv cfg acc'"
  using assms(1)
proof (cases rule: admit_cases)
  case (1 r r2 c new resumed loras struct)
  note inv = assms(3) [unfolded wait_inv_def]
  have rq: "get_req v (ac_s acc) = Ok r" using 1(1) by (simp add: get_req_def)
  have wf: "queues_wf (ac_s acc) (waiting_ids (ac_skipped acc))" using inv by simp
  have r2: "request_id r2 = v" "status r2 = RUNNING" using queues_wfD(2) [OF wf rq] by (simp_all add: 1(3) record_event_def)
  note w = admit_wf [OF wf assms(2) r2, of "ac_s acc'"]
  have wf': "queues_wf (ac_s acc') (waiting_ids (ac_skipped acc))" by (rule w(1)) (use 1(5) r2(1) in simp_all)
  have fresh: "v \<notin> set (running (ac_s acc))" by (rule w(2)) (use 1(5) r2(1) in simp_all)
  then have "v \<notin> set (map fst (ac_tokens acc))" using inv by blast
  then have "tokens_inv (max_num_scheduled_tokens cfg) acc'"
    by (rule tokens_inv_record [rotated]) (use inv assms(4) 1(2,5) in auto)
  then show ?thesis using inv wf' assms(5) 1(5) unfolding wait_inv_def by (auto simp: dom_update)
qed

lemma waiting_tokens_bound:
  assumes "waiting_tokens acc r ct = Ok (Go (enc, n, eb))" and "\<not> ct_async ct" and "0 \<le> ac_budget acc"
  shows "0 < n" and "n \<le> ac_budget acc"
proof -
  let ?cfg = "s_cfg (ac_s acc)"
  define n1 where "n1 = (let n0 = num_tokens r - ct_total ct; thr = long_prefill_token_threshold ?cfg
    in if 0 < thr \<and> thr < n0 then thr else n0)"
  from assms(1,2) have "0 < min n1 (ac_budget acc)"
    and e: "encoder_choice acc r (ct_total ct) (min n1 (ac_budget acc)) = Ok (enc, n, eb)" and z: "has_encoder_inputs r \<longrightarrow> n \<noteq> 0"
    by (auto simp: waiting_tokens_def Let_def n1_def res_simps split: if_splits)
  then show "0 < n" "n \<le> ac_budget acc" using encoder_choice_bound [OF e] e by (auto simp: encoder_choice_def split: if_splits)
qed

lemma find_computed_wf: "find_computed env r s = Ok (ct, s') \<Longrightarrow> queues_wf s X \<Longrightarrow> queues_wf s' X"
  by (rule queues_wf_frame, assumption) (auto simp: find_computed_def res_simps Let_def split_beta split: if_splits)

lemma schedule_waiting_one_inv:
  assumes "schedule_waiting_one env acc = Ok (go, acc')" and "wait_inv cfg acc"
    and "int (length (running (ac_s acc))) \<noteq> max_num_running_reqs cfg"
  shows "wait_inv cfg acc'"
proof -
  let ?X = "waiting_ids (ac_skipped acc)"
  have wf: "queues_wf (ac_s acc) ?X" using assms(2) by (simp add: wait_inv_def)
  have peek: "rid \<in># waiting_ids (waiting (ac_s acc))" if "peek_request (waiting (ac_s acc)) = Ok rid" for rid
    using that by (cases "waiting (ac_s acc)") (auto simp: waiting_ids_def split: if_splits)
  from assms(1) show ?thesis
  proof (cases rule: schedule_waiting_one_cases)
    case (not_ready rid s1)
    have "wait_inv cfg (acc\<lparr>ac_s := s1\<rparr>)"
      by (rule wait_inv_state [OF assms(2) waiting_ready_wf(1) [OF not_ready(2) wf peek [OF not_ready(1)]] not_ready(3)])
    from skip_waiting_inv [OF not_ready(4) _ this] not_ready(1,3) show ?thesis by (simp add: same_queues_def)
  next
    case (ready rid s1 r ct s2 choice)
    have w2: "queues_wf s2 ?X" by (rule find_computed_wf [OF ready(4) waiting_ready_wf(1) [OF ready(2) wf peek [OF ready(1)]]])
    note i2 = wait_inv_state [OF assms(2) w2 ready(5)]
    have q2: "waiting s2 = waiting (ac_s acc)" "running s2 = running (ac_s acc)" using ready(5) by (simp_all add: same_queues_def)
    from ready(7) show ?thesis
    proof (cases rule: place_waiting_cases)
      case skip
      from skip_waiting_inv [OF skip(2) _ i2] show ?thesis using ready(1) q2 by simp
    next
      case stop
      then show ?thesis using i2 by simp
    next
      case (full enc_inputs nnew eb k)
      have "queues_wf (s2\<lparr>s_kv := k\<rparr>) ?X" by (rule queues_wf_frame [OF w2]) simp_all
      from wait_inv_state [OF i2 _ , of "s2\<lparr>s_kv := k\<rparr>"] this full(4) show ?thesis by (simp add: same_queues_def)
    next
      case (async enc_inputs nnew eb bs k v q r' sk)
      note a = async_wf [of s2 ?X v q r' k]
      have "waiting_ids sk = add_mset v ?X" using waiting_ids_prepend [OF async(7)] queues_wfD(2) [OF w2] async(6) by simp
      then show ?thesis using a w2 async(5,6,8) i2 by (simp add: wait_inv_def tokens_inv_def total_scheduled_def)
    next
      case (go enc_inputs nnew eb bs k v q)
      have "0 \<le> ac_budget acc" using assms(2) by (simp add: wait_inv_def tokens_inv_def)
      then have "nnew \<le> ac_budget acc" using waiting_tokens_bound(2) [OF ready(6) [unfolded go(1)] go(4)] by simp
      then show ?thesis
        using assms(2,3) q2 by (intro admit_inv [OF go(6) go(5) i2]) (auto simp: wait_inv_def)
    qed
  qed
qed

lemma schedule_waiting_step:
  assumes "schedule_waiting env acc = Ok acc'"
  obtains (rest) "acc' = acc"
  | (once) go acc1 where "int (length (running (ac_s acc))) \<noteq> max_num_running_reqs (s_cfg (ac_s acc))"
    and "schedule_waiting_one env acc = Ok (go, acc1)" and "if go then schedule_waiting env acc1 = Ok acc' else acc' = acc1"
proof (cases "queue_bool (waiting (ac_s acc)) \<and> ac_budget acc > 0 \<and>
    int (length (running (ac_s acc))) \<noteq> max_num_running_reqs (s_cfg (ac_s acc))")
  case True
  note eq = assms [unfolded schedule_waiting.simps [of env acc]]
  from True eq obtain go acc1 where one: "schedule_waiting_one env acc = Ok (go, acc1)"
    by (cases "schedule_waiting_one env acc") auto
  show thesis by (rule once [OF _ one]) (use True eq one in \<open>auto split: if_splits\<close>)
next
  case False
  then have "schedule_waiting env acc = Ok acc" by (subst schedule_waiting.simps) auto
  then show thesis using assms rest by simp
qed

lemma schedule_waiting_induct:
  assumes "schedule_waiting env acc = Ok acc'" and "P acc"
    and "\<And>acc go acc1. P acc \<Longrightarrow> int (length (running (ac_s acc))) \<noteq> max_num_running_reqs (s_cfg (ac_s acc)) \<Longrightarrow>
      schedule_waiting_one env acc = Ok (go, acc1) \<Longrightarrow> P acc1"
  shows "P acc'"
  using assms(1,2)
proof (induction "queue_len (waiting (ac_s acc))" arbitrary: acc rule: less_induct)
  case less
  from less.prems(1) show ?case
  proof (cases rule: schedule_waiting_step)
    case rest
    then show ?thesis using less.prems(2) by simp
  next
    case (once go acc1)
    have p: "P acc1" by (rule assms(3) [OF less.prems(2) once(1,2)])
    show ?thesis
    proof (cases go)
      case True
      then have "queue_len (waiting (ac_s acc1)) < queue_len (waiting (ac_s acc))"
        using schedule_waiting_one_progress once(2) by fastforce
      then show ?thesis using less.hyps p once(3) True by simp
    qed (use once(3) p in simp)
  qed
qed

lemma schedule_waiting_inv: "schedule_waiting env acc = Ok acc' \<Longrightarrow> wait_inv cfg acc \<Longrightarrow> wait_inv cfg acc'"
proof (erule schedule_waiting_induct)
  fix acc go acc1
  assume w: "wait_inv cfg acc" and n: "int (length (running (ac_s acc))) \<noteq> max_num_running_reqs (s_cfg (ac_s acc))"
    and one: "schedule_waiting_one env acc = Ok (go, acc1)"
  have "s_cfg (ac_s acc) = cfg" using w by (simp add: wait_inv_def)
  with n show "wait_inv cfg acc1" by (intro schedule_waiting_one_inv [OF one w]) simp
qed

section \<open>The whole step\<close>

lemma running_loras_frame: "running_loras acc = Ok acc' \<Longrightarrow> \<exists>l. acc' = acc\<lparr>ac_loras := l\<rparr>"
  by (auto simp: running_loras_def res_simps Let_def split: option.splits intro: exI [of _ "ac_loras acc"])

lemma put_back_skipped_cases:
  assumes "put_back_skipped acc = Ok acc'"
  obtains q where "acc' = acc\<lparr>ac_s := (ac_s acc)\<lparr>waiting := q\<rparr>\<rparr>"
    and "waiting_ids q = waiting_ids (waiting (ac_s acc)) + waiting_ids (ac_skipped acc)"
proof (cases "queue_bool (ac_skipped acc)")
  case True
  then show thesis using assms that by (auto simp: put_back_skipped_def res_simps waiting_ids_def dest!: queue_prepend_all_mset)
next
  case False
  then have "waiting_ids (ac_skipped acc) = {#}" by (simp add: queue_empty_mset waiting_ids_def)
  then show thesis using False assms by (intro that [of "waiting (ac_s acc)"]) (simp_all add: put_back_skipped_def)
qed

lemma schedule_decide_cases:
  assumes "schedule_decide env s = Ok acc"
  obtains acc1 l acc3 where "schedule_running env (acc_init s) = Ok acc1"
    and "if ac_preempted acc1 = [] then schedule_waiting env (acc1\<lparr>ac_loras := l\<rparr>) = Ok acc3 else acc3 = acc1\<lparr>ac_loras := l\<rparr>"
    and "put_back_skipped acc3 = Ok acc"
proof -
  from assms obtain acc1 acc2 acc3 where a: "schedule_running env (acc_init s) = Ok acc1" "running_loras acc1 = Ok acc2"
      "(if ac_preempted acc2 = [] then schedule_waiting env acc2 else Ok acc2) = Ok acc3" "put_back_skipped acc3 = Ok acc"
    unfolding schedule_decide_def res_simps by blast
  obtain l where l: "acc2 = acc1\<lparr>ac_loras := l\<rparr>" using running_loras_frame [OF a(2)] by blast
  show thesis by (rule that [OF a(1) _ a(4), of l]) (use a(3) l in \<open>simp split: if_splits\<close>)
qed

lemma run_inv_running:
  assumes "run_inv s acc"
  shows "length (running (ac_s acc)) \<le> length (running s)"
    and "sc_policy (s_cfg s) = FCFS \<or> ac_preempted acc = [] \<Longrightarrow> set (map fst (ac_tokens acc)) \<subseteq> set (running (ac_s acc))"
proof -
  note i = assms [unfolded run_inv_def]
  have "mset (running s) = mset (running (ac_s acc)) + mset (ac_preempted acc)" using i unfolding evicted_def by blast
  then show "length (running (ac_s acc)) \<le> length (running s)" by (metis le_add1 size_mset size_union)
  have "mset (map fst (ac_tokens acc)) = mset (ac_running acc)" using i by (simp add: tokens_inv_def)
  then have "set (map fst (ac_tokens acc)) = set (ac_running acc)" by (metis set_mset_mset)
  then show "set (map fst (ac_tokens acc)) \<subseteq> set (running (ac_s acc))" if "sc_policy (s_cfg s) = FCFS \<or> ac_preempted acc = []"
    using i that set_take_subset [of "ac_index acc" "running (ac_s acc)"] by auto
qed

lemma wait_inv_start:
  assumes "run_inv s acc" and "ac_preempted acc = []" and "int (length (running s)) \<le> max_num_running_reqs (s_cfg s)"
  shows "wait_inv (s_cfg s) (acc\<lparr>ac_loras := l\<rparr>)"
  using run_inv_running [OF assms(1)] assms
  by (simp add: wait_inv_def run_inv_def evicted_def tokens_inv_def total_scheduled_def)

text \<open>What holds of the decisions of a step, whatever the policy.\<close>

lemma schedule_decide_spec:
  assumes "schedule_decide env s = Ok acc" and "sched_wf s" and "0 \<le> max_num_scheduled_tokens (s_cfg s)"
    and "int (length (running s)) \<le> max_num_running_reqs (s_cfg s)"
  shows "sched_wf (ac_s acc)" and "s_cfg (ac_s acc) = s_cfg s" and "tokens_inv (max_num_scheduled_tokens (s_cfg s)) acc"
    and "int (length (running (ac_s acc))) \<le> max_num_running_reqs (s_cfg s)"
    and "sc_policy (s_cfg s) = FCFS \<or> ac_preempted acc = [] \<Longrightarrow> set (map fst (ac_tokens acc)) \<subseteq> set (running (ac_s acc))"
proof -
  from assms(1) obtain acc1 l acc3 where a: "schedule_running env (acc_init s) = Ok acc1"
    and b: "if ac_preempted acc1 = [] then schedule_waiting env (acc1\<lparr>ac_loras := l\<rparr>) = Ok acc3 else acc3 = acc1\<lparr>ac_loras := l\<rparr>"
    and c: "put_back_skipped acc3 = Ok acc" by (rule schedule_decide_cases)
  note r = schedule_running_inv [OF a run_inv_init [OF assms(2,3)]]
  note i = r [unfolded run_inv_def]
  note len = run_inv_running(1) [OF r] and sub = run_inv_running(2) [OF r]
  have cfg: "s_cfg (ac_s acc1) = s_cfg s" using i by (simp add: evicted_def)
  have fin: "queues_wf (ac_s acc3) (waiting_ids (ac_skipped acc3)) \<and> s_cfg (ac_s acc3) = s_cfg s \<and>
      tokens_inv (max_num_scheduled_tokens (s_cfg s)) acc3 \<and> int (length (running (ac_s acc3))) \<le> max_num_running_reqs (s_cfg s) \<and>
      (sc_policy (s_cfg s) = FCFS \<or> ac_preempted acc3 = [] \<longrightarrow> set (map fst (ac_tokens acc3)) \<subseteq> set (running (ac_s acc3)))"
  proof (cases "ac_preempted acc1 = []")
    case True
    then have "wait_inv (s_cfg s) acc3" using b wait_inv_start [OF r True assms(4)] schedule_waiting_inv by auto
    then show ?thesis by (simp add: wait_inv_def)
  next
    case False
    then show ?thesis using b i sub len cfg assms(4) by (simp add: tokens_inv_def total_scheduled_def)
  qed
  obtain q where q: "acc = acc3\<lparr>ac_s := (ac_s acc3)\<lparr>waiting := q\<rparr>\<rparr>"
      "waiting_ids q = waiting_ids (waiting (ac_s acc3)) + waiting_ids (ac_skipped acc3)"
    by (rule put_back_skipped_cases [OF c])
  have "queues_wf (ac_s acc) {#}" by (rule queues_wf_frame [OF conjunct1 [OF fin]]) (simp_all add: q)
  then show "sched_wf (ac_s acc)" "s_cfg (ac_s acc) = s_cfg s" "tokens_inv (max_num_scheduled_tokens (s_cfg s)) acc"
      "int (length (running (ac_s acc))) \<le> max_num_running_reqs (s_cfg s)"
      "sc_policy (s_cfg s) = FCFS \<or> ac_preempted acc = [] \<Longrightarrow> set (map fst (ac_tokens acc)) \<subseteq> set (running (ac_s acc))"
    using fin q(1) by (simp_all add: sched_wf_def tokens_inv_def total_scheduled_def)
qed

lemma schedule_decide_constraints:
  assumes "schedule_decide env s = Ok acc" and "sched_wf s" and "0 \<le> max_num_scheduled_tokens (s_cfg s)"
    and "int (length (running s)) \<le> max_num_running_reqs (s_cfg s)" and "sc_policy (s_cfg s) = FCFS \<or> ac_preempted acc = []"
  shows "constraints_hold acc"
proof -
  note d = schedule_decide_spec [OF assms(1-4)]
  note t = d(3) [unfolded tokens_inv_def]
  have "length (ac_tokens acc) = card (set (map fst (ac_tokens acc)))" using t distinct_card [of "map fst (ac_tokens acc)"] by simp
  also have "\<dots> \<le> card (set (running (ac_s acc)))" using d(5) [OF assms(5)] by (intro card_mono) auto
  also have "\<dots> \<le> length (running (ac_s acc))" by (rule card_length)
  finally have "length (ac_tokens acc) \<le> length (running (ac_s acc))" .
  moreover have "length (ac_tokens acc) = length (ac_running acc) + (length (ac_new acc) + length (ac_resumed acc))"
    using t by (metis length_map size_mset size_union)
  ultimately show ?thesis using t d(2,4) by (simp add: constraints_hold_def)
qed

section \<open>First come first served\<close>

lemma shuffles_snoc:
  "ws \<in> shuffles xs ys \<Longrightarrow> ws @ [z] \<in> shuffles (xs @ [z]) ys" "ws \<in> shuffles xs ys \<Longrightarrow> ws @ [z] \<in> shuffles xs (ys @ [z])"
proof -
  show l: "ws @ [z] \<in> shuffles (xs @ [z]) ys" if "ws \<in> shuffles xs ys" for ws xs ys
    using that
  proof (induction xs ys arbitrary: ws rule: shuffles.induct)
    case (1 ys)
    then show ?case
    proof (induction ys arbitrary: ws)
      case (Cons y ys)
      then show ?case by (auto simp: Cons_in_shuffles_iff)
    qed simp
  next
    case (2 xs)
    then show ?case by simp
  next
    case (3 x xs y ys)
    then show ?case by (auto simp: Cons_in_shuffles_iff)
  qed
  show "ws @ [z] \<in> shuffles xs (ys @ [z])" if "ws \<in> shuffles xs ys" using l that shuffles_commutes by metis
qed

text \<open>
  Where the requests of a first-come-first-served queue are during the second loop: those
  looked at are a merge of the admitted and the skipped ones, each in their order.
\<close>

definition fcfs_inv :: "string list \<Rightarrow> string list \<Rightarrow> sched_acc \<Rightarrow> bool" where
  "fcfs_inv run0 ids0 acc \<longleftrightarrow> (\<exists>rest sk adm ws. waiting (ac_s acc) = FCFSQueue rest \<and> ac_skipped acc = FCFSQueue sk \<and>
     running (ac_s acc) = run0 @ adm \<and> ids0 = ws @ map e_request rest \<and> ws \<in> shuffles adm (rev (map e_request sk)))"

lemma fcfs_inv_skip:
  assumes "fcfs_inv run0 ids0 acc" and "pop_request (waiting (ac_s acc)) = Ok (v, q)" and "request_id r = v"
    and "prepend_request (entry_of r) (ac_skipped acc) = Ok sk"
    and "waiting (ac_s acc') = q" and "running (ac_s acc') = running (ac_s acc)" and "ac_skipped acc' = sk"
  shows "fcfs_inv run0 ids0 acc'"
proof -
  from assms(1) obtain rest sk0 adm ws where i: "waiting (ac_s acc) = FCFSQueue rest" "ac_skipped acc = FCFSQueue sk0"
    "running (ac_s acc) = run0 @ adm" "ids0 = ws @ map e_request rest" "ws \<in> shuffles adm (rev (map e_request sk0))"
    unfolding fcfs_inv_def by blast
  obtain x rest' where x: "rest = x # rest'" "e_request x = v" "q = FCFSQueue rest'" using assms(2) i(1) by (cases rest) auto
  show ?thesis unfolding fcfs_inv_def
    by (intro exI [of _ rest'] exI [of _ "entry_of r # sk0"] exI [of _ adm] exI [of _ "ws @ [v]"])
      (use i x assms(3-) shuffles_snoc(2) [OF i(5)] in auto)
qed

lemma fcfs_inv_admit:
  assumes "fcfs_inv run0 ids0 acc" and "pop_request (waiting (ac_s acc)) = Ok (v, q)"
    and "waiting (ac_s acc') = q" and "running (ac_s acc') = running (ac_s acc) @ [v]" and "ac_skipped acc' = ac_skipped acc"
  shows "fcfs_inv run0 ids0 acc'"
proof -
  from assms(1) obtain rest sk adm ws where i: "waiting (ac_s acc) = FCFSQueue rest" "ac_skipped acc = FCFSQueue sk"
    "running (ac_s acc) = run0 @ adm" "ids0 = ws @ map e_request rest" "ws \<in> shuffles adm (rev (map e_request sk))"
    unfolding fcfs_inv_def by blast
  obtain x rest' where x: "rest = x # rest'" "e_request x = v" "q = FCFSQueue rest'" using assms(2) i(1) by (cases rest) auto
  show ?thesis unfolding fcfs_inv_def
    by (intro exI [of _ rest'] exI [of _ sk] exI [of _ "adm @ [v]"] exI [of _ "ws @ [v]"])
      (use i x assms(3-) shuffles_snoc(1) [OF i(5)] in auto)
qed

lemma fcfs_inv_frame:
  "fcfs_inv run0 ids0 acc \<Longrightarrow> waiting (ac_s acc') = waiting (ac_s acc) \<Longrightarrow> running (ac_s acc') = running (ac_s acc) \<Longrightarrow>
   ac_skipped acc' = ac_skipped acc \<Longrightarrow> fcfs_inv run0 ids0 acc'"
  by (simp add: fcfs_inv_def)

lemma skip_waiting_fcfs:
  assumes "skip_waiting rid acc = Ok (go, acc')" and "peek_request (waiting (ac_s acc)) = Ok rid"
    and "queues_wf (ac_s acc) X" and "fcfs_inv run0 ids0 acc"
  shows "fcfs_inv run0 ids0 acc'"
  using assms(1)
proof (cases rule: skip_waiting_cases)
  case (1 r v q sk)
  have "request_id r = v" using queues_wfD(2) [OF assms(3) 1(1)] waiting_ids_pop(2) [OF 1(2)] assms(2) by simp
  from fcfs_inv_skip [OF assms(4) 1(2) this 1(3)] 1(5) show ?thesis by simp
qed

lemma schedule_waiting_one_fcfs:
  assumes "schedule_waiting_one env acc = Ok (go, acc')" and "wait_inv cfg acc" and "fcfs_inv run0 ids0 acc"
  shows "fcfs_inv run0 ids0 acc'"
proof -
  let ?X = "waiting_ids (ac_skipped acc)"
  have wf: "queues_wf (ac_s acc) ?X" using assms(2) by (simp add: wait_inv_def)
  have peek: "rid \<in># waiting_ids (waiting (ac_s acc))" if "peek_request (waiting (ac_s acc)) = Ok rid" for rid
    using that by (cases "waiting (ac_s acc)") (auto simp: waiting_ids_def split: if_splits)
  from assms(1) show ?thesis
  proof (cases rule: schedule_waiting_one_cases)
    case (not_ready rid s1)
    have q: "waiting s1 = waiting (ac_s acc)" "running s1 = running (ac_s acc)" using not_ready(3) by (simp_all add: same_queues_def)
    have "queues_wf s1 ?X" by (rule waiting_ready_wf(1) [OF not_ready(2) wf peek [OF not_ready(1)]])
    then show ?thesis using skip_waiting_fcfs [OF not_ready(4), of ?X] not_ready(1) q fcfs_inv_frame [OF assms(3)] by simp
  next
    case (ready rid s1 r ct s2 choice)
    have w2: "queues_wf s2 ?X" by (rule find_computed_wf [OF ready(4) waiting_ready_wf(1) [OF ready(2) wf peek [OF ready(1)]]])
    have q: "waiting s2 = waiting (ac_s acc)" "running s2 = running (ac_s acc)" using ready(5) by (simp_all add: same_queues_def)
    then have f2: "fcfs_inv run0 ids0 (acc\<lparr>ac_s := s2\<rparr>)" by (intro fcfs_inv_frame [OF assms(3)]) simp_all
    from ready(7) show ?thesis
    proof (cases rule: place_waiting_cases)
      case skip
      then show ?thesis using skip_waiting_fcfs [OF skip(2), of ?X] ready(1) q w2 f2 by simp
    next
      case stop
      then show ?thesis using f2 by simp
    next
      case (full enc_inputs nnew eb k)
      then show ?thesis using fcfs_inv_frame [OF f2] by simp
    next
      case (async enc_inputs nnew eb bs k v q r' sk)
      have "request_id r' = v" using queues_wfD(2) [OF w2] async(6) by simp
      then show ?thesis using fcfs_inv_skip [OF f2 async(5)] async(7,8) by simp
    next
      case (go enc_inputs nnew eb bs k v q)
      from go(6) show ?thesis by (cases rule: admit_cases) (use fcfs_inv_admit [OF f2 go(5)] in simp)
    qed
  qed
qed

lemma put_back_fcfs:
  assumes "put_back_skipped acc = Ok acc'" and "waiting (ac_s acc) = FCFSQueue rest" and "ac_skipped acc = FCFSQueue sk"
  shows "acc' = acc\<lparr>ac_s := (ac_s acc)\<lparr>waiting := FCFSQueue (sk @ rest)\<rparr>\<rparr>"
proof -
  have "fold (#) (rev sk) rest = sk @ rest" by (induction sk) simp_all
  then show ?thesis using assms by (cases sk) (auto simp: put_back_skipped_def queue_bool_def queue_reversed_def)
qed

lemma schedule_waiting_fcfs:
  assumes "schedule_waiting env acc = Ok acc'" and "wait_inv cfg acc" and "fcfs_inv run0 ids0 acc"
  shows "wait_inv cfg acc' \<and> fcfs_inv run0 ids0 acc'"
proof (rule schedule_waiting_induct [OF assms(1)])
  fix acc go acc1
  assume i: "wait_inv cfg acc \<and> fcfs_inv run0 ids0 acc" "schedule_waiting_one env acc = Ok (go, acc1)"
    "int (length (running (ac_s acc))) \<noteq> max_num_running_reqs (s_cfg (ac_s acc))"
  have "s_cfg (ac_s acc) = cfg" using i(1) by (simp add: wait_inv_def)
  with i show "wait_inv cfg acc1 \<and> fcfs_inv run0 ids0 acc1"
    using schedule_waiting_one_inv schedule_waiting_one_fcfs by auto
qed (use assms(2,3) in simp)

text \<open>The ids of the waiting requests in the order in which they will be looked at.\<close>

definition waiting_order :: "scheduler \<Rightarrow> string list" where
  "waiting_order s = map e_request (items (waiting s))"

lemma fcfs_decide:
  assumes "schedule_decide env s = Ok acc" and "sched_wf s" and "0 \<le> max_num_scheduled_tokens (s_cfg s)"
    and "int (length (running s)) \<le> max_num_running_reqs (s_cfg s)" and "sc_policy (s_cfg s) = FCFS" and "waiting s = FCFSQueue ws"
  shows "ac_preempted acc \<noteq> [] \<Longrightarrow> running s = running (ac_s acc) @ rev (ac_preempted acc) \<and>
      waiting_order (ac_s acc) = rev (ac_preempted acc) @ waiting_order s"
    and "ac_preempted acc = [] \<Longrightarrow> \<exists>adm skp zs rest. running (ac_s acc) = running s @ adm \<and> waiting_order s = zs @ rest \<and>
      zs \<in> shuffles adm skp \<and> waiting_order (ac_s acc) = rev skp @ rest"
proof -
  from assms(1) obtain acc1 l acc3 where a: "schedule_running env (acc_init s) = Ok acc1"
    and b: "if ac_preempted acc1 = [] then schedule_waiting env (acc1\<lparr>ac_loras := l\<rparr>) = Ok acc3 else acc3 = acc1\<lparr>ac_loras := l\<rparr>"
    and c: "put_back_skipped acc3 = Ok acc" by (rule schedule_decide_cases)
  note r = schedule_running_inv [OF a run_inv_init [OF assms(2,3)]]
  have ev: "evicted s (ac_preempted acc1) (ac_s acc1)" and sk: "ac_skipped acc1 = FCFSQueue []"
    using r assms(5) by (simp_all add: run_inv_def create_request_queue_def)
  have grow: "ac_preempted acc = [] \<and> (\<exists>adm skp zs rest. running (ac_s acc) = running s @ adm \<and> waiting_order s = zs @ rest \<and>
      zs \<in> shuffles adm skp \<and> waiting_order (ac_s acc) = rev skp @ rest)" if True: "ac_preempted acc1 = []"
  proof -
    have q1: "running (ac_s acc1) = running s" "waiting (ac_s acc1) = FCFSQueue ws" using ev True assms(6) by (simp_all add: evicted_def)
    have f1: "fcfs_inv (running s) (map e_request ws) (acc1\<lparr>ac_loras := l\<rparr>)"
      unfolding fcfs_inv_def by (intro exI [of _ ws] exI [of _ "[]"]) (use q1 sk in simp)
    have sw: "schedule_waiting env (acc1\<lparr>ac_loras := l\<rparr>) = Ok acc3" using b True by simp
    have "wait_inv (s_cfg s) acc3 \<and> fcfs_inv (running s) (map e_request ws) acc3"
      by (rule schedule_waiting_fcfs [OF sw wait_inv_start [OF r True assms(4)] f1])
    then obtain rest sk3 adm ids where i: "waiting (ac_s acc3) = FCFSQueue rest" "ac_skipped acc3 = FCFSQueue sk3"
      "running (ac_s acc3) = running s @ adm" "map e_request ws = ids @ map e_request rest" "ids \<in> shuffles adm (rev (map e_request sk3))"
      "ac_preempted acc3 = []" unfolding fcfs_inv_def wait_inv_def by blast
    show ?thesis using put_back_fcfs [OF c i(1,2)] i assms(6)
      by (intro conjI exI [of _ adm] exI [of _ "rev (map e_request sk3)"] exI [of _ ids] exI [of _ "map e_request rest"])
        (simp_all add: waiting_order_def rev_map)
  qed
  have cut: "ac_preempted acc = ac_preempted acc1 \<and> running s = running (ac_s acc) @ rev (ac_preempted acc) \<and>
      waiting_order (ac_s acc) = rev (ac_preempted acc) @ waiting_order s" if "ac_preempted acc1 \<noteq> []"
  proof -
    obtain ws' where w: "running s = running (ac_s acc1) @ rev (ac_preempted acc1)" "waiting (ac_s acc1) = FCFSQueue (ws' @ ws)"
      "map e_request ws' = rev (ac_preempted acc1)" using ev assms(5,6) unfolding evicted_def by blast
    have "acc = acc1\<lparr>ac_loras := l, ac_s := (ac_s acc1)\<lparr>waiting := FCFSQueue (ws' @ ws)\<rparr>\<rparr>"
      using put_back_fcfs [OF c, of "ws' @ ws" "[]"] b that w(2) sk by simp
    then show ?thesis using w assms(6) by (simp add: waiting_order_def)
  qed
  show "ac_preempted acc \<noteq> [] \<Longrightarrow> running s = running (ac_s acc) @ rev (ac_preempted acc) \<and>
      waiting_order (ac_s acc) = rev (ac_preempted acc) @ waiting_order s" using grow cut by blast
  show "ac_preempted acc = [] \<Longrightarrow> \<exists>adm skp zs rest. running (ac_s acc) = running s @ adm \<and> waiting_order s = zs @ rest \<and>
      zs \<in> shuffles adm skp \<and> waiting_order (ac_s acc) = rev skp @ rest"
    using grow cut by (cases "ac_preempted acc1 = []") auto
qed

section \<open>After the decisions\<close>

lemma common_prefix_frame: "common_prefix s = Ok (ns, s') \<Longrightarrow> \<exists>k. s' = s\<lparr>s_kv := k\<rparr>"
  by (auto simp: common_prefix_def res_simps split: list.splits intro: exI [of _ "s_kv s"])

lemma advance_request_cases:
  assumes "advance_request (rid, n) s = Ok s'"
  obtains r c where "get_req rid s = Ok r" and "s' = (put_req (r\<lparr>num_computed_tokens := num_computed_tokens r + n\<rparr>) s)\<lparr>s_enc := c\<rparr>"
  using assms by (auto simp: advance_request_def res_simps Let_def split: if_splits intro: that [of _ "s_enc s"])

lemma queues_wf_same_status:
  assumes "queues_wf s X" and "get_req rid s = Ok r" and "request_id r' = rid" and "status r' = status r"
    and "requests s' = AList.update rid r' (requests s)" and "running s' = running s" and "waiting s' = waiting s"
  shows "queues_wf s' X"
  by (rule queues_wf_put [OF assms(1), where r = r'])
    (use assms(3-) queues_wfD(5) [OF assms(1) _ assms(2)] queues_wfD(6) [OF assms(1) _ assms(2)] in auto)

text \<open>Every request that got tokens is advanced by as many, and no other.\<close>

lemma advance_all:
  assumes "rfold advance_request ts s = Ok s'" and "distinct (map fst ts)" and "queues_wf s X"
  shows "queues_wf s' X \<and> running s' = running s \<and> waiting s' = waiting s \<and> s_cfg s' = s_cfg s \<and>
    (\<forall>rid n. (rid, n) \<in> set ts \<longrightarrow> (\<exists>r. map_of (requests s) rid = Some r \<and>
       map_of (requests s') rid = Some (r\<lparr>num_computed_tokens := num_computed_tokens r + n\<rparr>))) \<and>
    (\<forall>rid. rid \<notin> set (map fst ts) \<longrightarrow> map_of (requests s') rid = map_of (requests s) rid)"
  using assms
proof (induction ts arbitrary: s)
  case (Cons t ts)
  obtain rid n where t: "t = (rid, n)" by (cases t)
  obtain s1 where s1: "advance_request (rid, n) s = Ok s1" "rfold advance_request ts s1 = Ok s'"
    using Cons.prems(1) by (auto simp: t res_simps)
  obtain r c where r: "get_req rid s = Ok r"
      and eq: "s1 = (put_req (r\<lparr>num_computed_tokens := num_computed_tokens r + n\<rparr>) s)\<lparr>s_enc := c\<rparr>"
    by (rule advance_request_cases [OF s1(1)])
  let ?r = "r\<lparr>num_computed_tokens := num_computed_tokens r + n\<rparr>"
  have id: "request_id r = rid" by (rule queues_wfD(2) [OF Cons.prems(3) r])
  have wf: "queues_wf s1 X" by (rule queues_wf_same_status [OF Cons.prems(3) r, of ?r]) (simp_all add: eq id)
  have m: "map_of (requests s1) x = (if x = rid then Some ?r else map_of (requests s) x)" for x by (simp add: eq id update_conv')
  have d: "distinct (map fst ts)" "rid \<notin> set (map fst ts)" using Cons.prems(2) by (simp_all add: t)
  note ih = Cons.IH [OF s1(2) d(1) wf]
  have f: "running s1 = running s" "waiting s1 = waiting s" "s_cfg s1 = s_cfg s" by (simp_all add: eq)
  have "(\<exists>r. map_of (requests s) x = Some r \<and> map_of (requests s') x = Some (r\<lparr>num_computed_tokens := num_computed_tokens r + k\<rparr>))"
    if "(x, k) \<in> set (t # ts)" for x k
  proof (cases "x = rid")
    case True
    then have "k = n" using that d(2) by (force simp: t)
    have "map_of (requests s') rid = map_of (requests s1) rid" using ih d(2) by blast
    then show ?thesis using True \<open>k = n\<close> r m by (simp add: get_req_Ok)
  next
    case False
    then have "(x, k) \<in> set ts" using that by (simp add: t)
    with ih obtain r' where "map_of (requests s1) x = Some r'" "map_of (requests s') x = Some (r'\<lparr>num_computed_tokens := num_computed_tokens r' + k\<rparr>)"
      by blast
    then show ?thesis using m False by simp
  qed
  moreover have "map_of (requests s') x = map_of (requests s) x" if "x \<notin> set (map fst (t # ts))" for x
  proof -
    have "map_of (requests s') x = map_of (requests s1) x" using ih that by simp
    then show ?thesis using m that by (simp add: t)
  qed
  ultimately show ?case using ih f by simp
qed simp

lemma update_after_schedule_spec:
  assumes "update_after_schedule ts s = Ok s'" and "distinct (map fst ts)" and "queues_wf s X"
  shows "queues_wf s' X" and "running s' = running s" and "waiting s' = waiting s" and "s_cfg s' = s_cfg s"
    and "(rid, n) \<in> set ts \<Longrightarrow> \<exists>r. map_of (requests s) rid = Some r \<and>
       map_of (requests s') rid = Some (r\<lparr>num_computed_tokens := num_computed_tokens r + n\<rparr>)"
    and "rid \<notin> set (map fst ts) \<Longrightarrow> map_of (requests s') rid = map_of (requests s) rid"
proof -
  obtain s1 where s1: "rfold advance_request ts s = Ok s1" "s' = s1\<lparr>finished_req_ids := []\<rparr>"
    using assms(1) by (auto simp: update_after_schedule_def res_simps)
  note a = advance_all [OF s1(1) assms(2,3)]
  show "queues_wf s' X" by (rule queues_wf_frame [OF conjunct1 [OF a]]) (simp_all add: s1(2))
  show "running s' = running s" "waiting s' = waiting s" "s_cfg s' = s_cfg s" using a s1(2) by simp_all
  show "(rid, n) \<in> set ts \<Longrightarrow> \<exists>r. map_of (requests s) rid = Some r \<and>
       map_of (requests s') rid = Some (r\<lparr>num_computed_tokens := num_computed_tokens r + n\<rparr>)" using a s1(2) by simp
  show "rid \<notin> set (map fst ts) \<Longrightarrow> map_of (requests s') rid = map_of (requests s) rid" using a s1(2) by simp
qed

lemma add_placeholders:
  assumes "rfold add_placeholder ts s = Ok s'" and "queues_wf s X"
  shows "queues_wf s' X \<and> running s' = running s \<and> waiting s' = waiting s \<and> s_cfg s' = s_cfg s \<and>
    (\<forall>rid r'. map_of (requests s') rid = Some r' \<longrightarrow>
       (\<exists>r. map_of (requests s) rid = Some r \<and> num_computed_tokens r' = num_computed_tokens r))"
  using assms
proof (induction ts arbitrary: s)
  case (Cons t ts)
  obtain rid n where t: "t = (rid, n)" by (cases t)
  obtain s1 where s1: "add_placeholder (rid, n) s = Ok s1" "rfold add_placeholder ts s1 = Ok s'"
    using Cons.prems(1) by (auto simp: t res_simps)
  obtain r where r: "get_req rid s = Ok r" using s1(1) by (auto simp: add_placeholder_def res_simps)
  let ?r = "r\<lparr>num_output_placeholders := num_output_placeholders r + 1\<rparr>"
  have id: "request_id r = rid" by (rule queues_wfD(2) [OF Cons.prems(2) r])
  have eq: "s1 = s \<or> s1 = put_req ?r s" using s1(1) r by (auto simp: add_placeholder_def split: if_splits)
  have "queues_wf (put_req ?r s) X" by (rule queues_wf_same_status [OF Cons.prems(2) r, of ?r]) (simp_all add: id)
  then have wf: "queues_wf s1 X" using eq Cons.prems(2) by auto
  have "\<exists>r0. map_of (requests s) x = Some r0 \<and> num_computed_tokens r1 = num_computed_tokens r0"
    if "map_of (requests s1) x = Some r1" for x r1
    using eq that r by (auto simp: update_conv' id get_req_Ok split: if_splits)
  then show ?case using Cons.IH [OF s1(2) wf] eq by fastforce
qed auto

lemma async_update_spec:
  assumes "(if async then async_update_after_schedule else update_after_schedule) ts s = Ok s'"
    and "distinct (map fst ts)" and "queues_wf s X"
  shows "queues_wf s' X" and "running s' = running s" and "waiting s' = waiting s" and "s_cfg s' = s_cfg s"
    and "(rid, n) \<in> set ts \<Longrightarrow> map_of (requests s') rid = Some r' \<Longrightarrow>
      \<exists>r. map_of (requests s) rid = Some r \<and> num_computed_tokens r' = num_computed_tokens r + n"
proof -
  obtain s1 where u: "update_after_schedule ts s = Ok s1" and p: "s' = s1 \<or> rfold add_placeholder ts s1 = Ok s'"
    using assms(1) by (auto simp: async_update_after_schedule_def res_simps split: if_splits)
  note a = update_after_schedule_spec [OF u assms(2,3)]
  have b: "queues_wf s' X \<and> running s' = running s1 \<and> waiting s' = waiting s1 \<and> s_cfg s' = s_cfg s1 \<and>
    (\<forall>rid r'. map_of (requests s') rid = Some r' \<longrightarrow> (\<exists>r. map_of (requests s1) rid = Some r \<and> num_computed_tokens r' = num_computed_tokens r))"
    using p add_placeholders [OF _ a(1)] a(1) by blast
  show "queues_wf s' X" "running s' = running s" "waiting s' = waiting s" "s_cfg s' = s_cfg s" using a(2-4) b by simp_all
  show "(rid, n) \<in> set ts \<Longrightarrow> map_of (requests s') rid = Some r' \<Longrightarrow>
      \<exists>r. map_of (requests s) rid = Some r \<and> num_computed_tokens r' = num_computed_tokens r + n"
    using a(5) [of rid n] b by fastforce
qed

lemma schedule_cases:
  assumes "schedule async env s = Ok (out, evs, s')"
  obtains acc prefix s1 new_reqs cached c k where "schedule_decide env s = Ok acc" and "constraints_hold acc"
    and "common_prefix (ac_s acc) = Ok (prefix, s1)"
    and "rmap (\<lambda>rid. rbind (get_req rid s1) (\<lambda>r.
           rbind (dict_get rid (ac_blocks acc)) (\<lambda>ids. Ok (new_request_from r ids)))) (ac_new acc) = Ok new_reqs"
    and "make_cached_request_data (acc\<lparr>ac_s := s1\<rparr>) = Ok cached"
    and "so_new_reqs out = new_reqs" and "so_cached_reqs out = cached" and "so_num_scheduled_tokens out = ac_tokens acc"
    and "so_total_tokens out = total_scheduled acc"
    and "(if async then async_update_after_schedule else update_after_schedule) (ac_tokens acc) (s1\<lparr>s_enc := c, s_kv := k\<rparr>) = Ok s'"
    and "km_take_events (s_kv s1) = (evs, k)"
proof -
  note eq = assms [unfolded schedule_def]
  from eq obtain acc where a: "schedule_decide env s = Ok acc" by (cases "schedule_decide env s") simp_all
  from eq a have h: "constraints_hold acc" by (cases "constraints_hold acc") simp_all
  from eq obtain prefix s1 where p: "common_prefix (ac_s acc) = Ok (prefix, s1)" by (cases "common_prefix (ac_s acc)") (auto simp: a h)
  let ?n = "rmap (\<lambda>rid. rbind (get_req rid s1) (\<lambda>r.
           rbind (dict_get rid (ac_blocks acc)) (\<lambda>ids. Ok (new_request_from r ids)))) (ac_new acc)"
  from eq obtain new_reqs where n: "?n = Ok new_reqs" by (cases ?n) (auto simp: a h p)
  from eq obtain cached where m: "make_cached_request_data (acc\<lparr>ac_s := s1\<rparr>) = Ok cached"
    by (cases "make_cached_request_data (acc\<lparr>ac_s := s1\<rparr>)") (auto simp: a h p n)
  obtain freed c where f: "get_freed_ids (s_enc s1) = (freed, c)" by (cases "get_freed_ids (s_enc s1)")
  obtain es k where k: "km_take_events (s_kv s1) = (es, k)" by (cases "km_take_events (s_kv s1)")
  let ?u = "(if async then async_update_after_schedule else update_after_schedule) (ac_tokens acc) (s1\<lparr>s_enc := c, s_kv := k\<rparr>)"
  from eq obtain s2 where u: "?u = Ok s2" by (cases ?u) (simp_all add: a h p n m f k)
  note fin = eq [unfolded a rbind.simps, simplified h, unfolded py_assert_True rbind.simps p prod.case n m f k Let_def u res.inject prod.inject]
  have s2: "s2 = s'" and k': "km_take_events (s_kv s1) = (evs, k)" and o: "so_new_reqs out = new_reqs" "so_cached_reqs out = cached" "so_num_scheduled_tokens out = ac_tokens acc"
      "so_total_tokens out = total_scheduled acc"
    using fin k by auto
  show thesis by (rule that [OF a h p n m o u [unfolded s2] k'])
qed

text \<open>A step keeps the queues well formed, whatever the policy.\<close>

lemma schedule_keeps:
  assumes "schedule async env s = Ok (out, evs, s')" and "sched_wf s" and "0 \<le> max_num_scheduled_tokens (s_cfg s)"
    and "int (length (running s)) \<le> max_num_running_reqs (s_cfg s)"
  shows "sched_wf s' \<and> s_cfg s' = s_cfg s \<and> int (length (running s')) \<le> max_num_running_reqs (s_cfg s')"
  using assms(1)
proof (cases rule: schedule_cases)
  case (1 acc prefix s1 new_reqs cached c k)
  note d = schedule_decide_spec [OF 1(1) assms(2-4)]
  obtain k1 where s1: "s1 = (ac_s acc)\<lparr>s_kv := k1\<rparr>" using common_prefix_frame [OF 1(3)] by blast
  have dist: "distinct (map fst (ac_tokens acc))" using d(3) by (simp add: tokens_inv_def)
  have "queues_wf (s1\<lparr>s_enc := c, s_kv := k\<rparr>) {#}"
    by (rule queues_wf_frame [OF d(1) [unfolded sched_wf_def]]) (simp_all add: s1)
  note u = async_update_spec [OF 1(10) dist this]
  then show ?thesis using d(2,4) by (simp add: s1 sched_wf_def)
qed

end
