(* ===== verification/Scheduler_Output.thy ===== *)
theory Scheduler_Output
  imports Scheduler_Queues
begin

text \<open>
  What a scheduling step sends to the workers: every scheduled request gets at least one token,
  and the output lists every scheduled request once, with the position where it continues.
\<close>

section \<open>Every scheduled request gets a token\<close>

text \<open>A running request has not computed more than it has, and stays below the length limit.\<close>

definition not_ahead :: "sched_config \<Rightarrow> request \<Rightarrow> bool" where
  "not_ahead cfg r \<longleftrightarrow> num_computed_tokens r \<le> num_tokens_with_spec r + num_output_placeholders r \<and>
     num_computed_tokens r \<le> sc_max_model_len cfg - 1"

lemma run_tokens_nonneg: "not_ahead cfg r \<Longrightarrow> 0 \<le> b \<Longrightarrow> 0 \<le> run_tokens cfg r b"
  by (auto simp: not_ahead_def run_tokens_def Let_def)

lemma allocate_or_preempt_objects:
  assumes "allocate_or_preempt env rid nnew s pre = Ok (res, s', pre')" and "queues_wf s X"
    and "rid \<in> set (running s)" and "x \<in> set (running s')"
  shows "map_of (requests s') x = map_of (requests s) x"
  using assms(1-3)
proof (induction "length (running s)" arbitrary: s pre rule: less_induct)
  case less
  have kv: "queues_wf (s\<lparr>s_kv := k\<rparr>) X" for k by (rule queues_wf_frame [OF less.prems(2)]) simp_all
  have one: "map_of (requests s1) y = map_of (requests s) y" if p: "preempt env (s\<lparr>s_kv := k\<rparr>) = Ok (v, s1)" and y: "y \<in> set (running s1)" for k v s1 y
  proof -
    note e = preempt_keeps [OF p kv]
    have "y \<noteq> v" using evicted_running [OF e(2)] queues_wfD(3) [OF less.prems(2)] y by simp
    from p show ?thesis
    proof (cases rule: preempt_cases)
      case (1 r r2 rest kk q)
      have "request_id r = v" using queues_wfD(2) [OF kv 1(2)] .
      then have "request_id r2 = v" by (simp add: 1(4) record_event_def)
      then show ?thesis using 1(6) \<open>y \<noteq> v\<close> by (simp add: update_conv')
    qed
  qed
  from less.prems(1) show ?case
  proof (cases rule: allocate_or_preempt_cases)
    case (other r k v s1)
    note e = preempt_keeps [OF other(3) kv]
    have "length (running s1) < length (running s)" using preempt_length [OF other(3)] by simp
    moreover have rid: "rid \<in> set (running s1)"
      using evicted_running [OF e(2)] queues_wfD(3) [OF less.prems(2)] less.prems(3) other(4) by simp
    ultimately have "map_of (requests s') x = map_of (requests s1) x" using less.hyps other(5) e(1) by blast
    moreover obtain vs where "evicted s1 vs s'" using allocate_or_preempt_keeps [OF other(5) e(1) rid] by blast
    then have "x \<in> set (running s1)" using evicted_running queues_wfD(3) [OF e(1)] assms(4) by blast
    ultimately show ?thesis using one [OF other(3)] by simp
  qed (use one assms(4) in auto)
qed

text \<open>Requests not yet looked at are as they were, and all tokens given so far are positive.\<close>

definition positive_inv :: "scheduler \<Rightarrow> sched_acc \<Rightarrow> bool" where
  "positive_inv s0 acc \<longleftrightarrow>
     (\<forall>rid \<in> set (drop (ac_index acc) (running (ac_s acc))). map_of (requests (ac_s acc)) rid = map_of (requests s0) rid) \<and>
     (\<forall>t \<in> set (ac_tokens acc). 0 < snd t)"

lemma set_update_sub: "set (AList.update k v d) \<subseteq> insert (k, v) (set d)"
  by (induction d) auto

lemma positive_record:
  assumes "\<forall>t \<in> set (ac_tokens acc). 0 < snd t" and "0 < n" and "ac_tokens acc' = AList.update rid n (ac_tokens acc)"
  shows "\<forall>t \<in> set (ac_tokens acc'). (0::int) < snd t"
  using assms set_update_sub [of rid n "ac_tokens acc"] by auto

lemma schedule_running_one_positive:
  assumes "schedule_running_one env acc = Ok (go, acc')" and "run_inv s0 acc" and "positive_inv s0 acc"
    and "ac_index acc < length (running (ac_s acc))" and "0 < ac_budget acc"
    and "\<forall>rid \<in> set (running s0). \<forall>r. get_req rid s0 = Ok r \<longrightarrow> not_ahead (s_cfg s0) r"
  shows "go \<Longrightarrow> positive_inv s0 acc'" and "\<forall>t \<in> set (ac_tokens acc'). 0 < snd t"
proof -
  let ?i = "ac_index acc" let ?run = "running (ac_s acc)" let ?rid = "?run ! ?i"
  have wf: "queues_wf (ac_s acc) {#}" and ev: "evicted s0 (ac_preempted acc) (ac_s acc)" using assms(2) by (simp_all add: run_inv_def)
  have cfg: "s_cfg (ac_s acc) = s_cfg s0" using ev by (simp add: evicted_def)
  have split: "drop ?i ?run = ?rid # drop (Suc ?i) ?run" using assms(4) by (simp add: Cons_nth_drop_Suc)
  have rid: "?rid \<in> set ?run" using assms(4) by simp
  have sub: "set ?run \<subseteq> set (running s0)"
  proof -
    have "mset (running s0) = mset ?run + mset (ac_preempted acc)" using ev by (simp add: evicted_def)
    then show ?thesis by (metis set_mset_mset set_mset_union Un_upper1)
  qed
  have pos: "0 < n" if r: "get_req ?rid (ac_s acc) = Ok r"
    and e: "encoder_choice acc r (num_computed_tokens r) (run_tokens (s_cfg (ac_s acc)) r (ac_budget acc)) = Ok (enc, n, eb)" and n: "n \<noteq> 0" for r enc n eb
  proof -
    have "get_req ?rid s0 = Ok r" using assms(3) r by (simp add: positive_inv_def split get_req_Ok)
    then have "not_ahead (s_cfg s0) r" using assms(6) rid sub by blast
    then have "0 \<le> run_tokens (s_cfg (ac_s acc)) r (ac_budget acc)" using run_tokens_nonneg cfg assms(5) by simp
    then show ?thesis using encoder_choice_bound [OF e] n by simp
  qed
  from assms(1) have "(go \<longrightarrow> positive_inv s0 acc') \<and> (\<forall>t \<in> set (ac_tokens acc'). 0 < snd t)"
  proof (cases rule: schedule_running_one_cases)
    case (idle r enc eb)
    then show ?thesis using assms(3) by (simp add: positive_inv_def split)
  next
    case (out r enc n eb s1 pre)
    then show ?thesis using assms(3) by (simp add: positive_inv_def)
  next
    case (runs r enc n eb bs s1 pre r1 r2 c struct spec)
    have tok: "\<forall>t \<in> set (ac_tokens acc'). 0 < snd t"
      by (rule positive_record [of acc n _ ?rid]) (use assms(3) pos [OF runs(1,2,3)] runs(9) in \<open>simp_all add: positive_inv_def\<close>)
    have "map_of (requests (ac_s acc')) x = map_of (requests s0) x" if x: "x \<in> set (drop (Suc ?i) (running s1))" for x
    proof -
      obtain vs where vs: "queues_wf s1 {#}" "evicted (ac_s acc) vs s1" using allocate_or_preempt_keeps [OF runs(4) wf rid] by blast
      have d: "x \<in> set (drop (Suc ?i) ?run)" using x vs(2) unfolding evicted_def by blast
      have "x \<noteq> ?rid" using d distinct_drop [OF queues_wfD(3) [OF wf], of ?i] by (auto simp: split)
      moreover have "map_of (requests s1) x = map_of (requests (ac_s acc)) x"
        using allocate_or_preempt_objects [OF runs(4) wf rid] in_set_dropD [OF x] by blast
      moreover have "request_id r2 = ?rid" using queues_wfD(2) [OF vs(1) runs(6)] by (simp add: runs(7))
      moreover have "map_of (requests (ac_s acc)) x = map_of (requests s0) x" using assms(3) d by (simp add: positive_inv_def split)
      ultimately show ?thesis by (simp add: runs(9) update_conv')
    qed
    then show ?thesis using tok runs(9) by (simp add: positive_inv_def)
  qed
  then show "go \<Longrightarrow> positive_inv s0 acc'" "\<forall>t \<in> set (ac_tokens acc'). 0 < snd t" by blast+
qed

lemma schedule_running_positive:
  assumes "schedule_running env acc = Ok acc'" and "run_inv s0 acc" and "positive_inv s0 acc"
    and "\<forall>rid \<in> set (running s0). \<forall>r. get_req rid s0 = Ok r \<longrightarrow> not_ahead (s_cfg s0) r"
  shows "\<forall>t \<in> set (ac_tokens acc'). 0 < snd t"
proof (rule schedule_running_induct [OF assms(1), where P = "\<lambda>acc. run_inv s0 acc \<and> positive_inv s0 acc"])
  fix acc go acc1
  assume i: "run_inv s0 acc \<and> positive_inv s0 acc" and c: "ac_index acc < length (running (ac_s acc))" "0 < ac_budget acc"
    and one: "schedule_running_one env acc = Ok (go, acc1)"
  note p = schedule_running_one_positive [OF one conjunct1 [OF i] conjunct2 [OF i] c assms(4)]
  show "if go then run_inv s0 acc1 \<and> positive_inv s0 acc1 else \<forall>t \<in> set (ac_tokens acc1). 0 < snd t"
    using p schedule_running_one_inv [OF one conjunct1 [OF i] c(1)] by simp
qed (use assms(2,3) in \<open>auto simp: positive_inv_def\<close>)

lemma schedule_waiting_one_positive:
  assumes "schedule_waiting_one env acc = Ok (go, acc')" and "0 \<le> ac_budget acc" and "\<forall>t \<in> set (ac_tokens acc). 0 < snd t"
  shows "\<forall>t \<in> set (ac_tokens acc'). 0 < snd t"
proof -
  have same: "ac_tokens a' = ac_tokens a" if "skip_waiting rid a = Ok (g, a')" for rid a a' g
    using that by (cases rule: skip_waiting_cases) simp
  from assms(1) show ?thesis
  proof (cases rule: schedule_waiting_one_cases)
    case (not_ready rid s1)
    then show ?thesis using same [OF not_ready(4)] assms(3) by simp
  next
    case (ready rid s1 r ct s2 choice)
    from ready(7) show ?thesis
    proof (cases rule: place_waiting_cases)
      case skip
      then show ?thesis using same [OF skip(2)] assms(3) by simp
    next
      case (go enc_inputs nnew eb bs k v q)
      have "0 < nnew" using waiting_tokens_bound(1) [OF ready(6) [unfolded go(1)] go(4)] assms(2) by simp
      moreover from go(6) have "ac_tokens acc' = AList.update v nnew (ac_tokens acc)" by (cases rule: admit_cases) simp
      ultimately show ?thesis by (rule positive_record [OF assms(3)])
    qed (use assms(3) in simp_all)
  qed
qed

lemma schedule_decide_positive:
  assumes "schedule_decide env s = Ok acc" and "sched_wf s" and "0 \<le> max_num_scheduled_tokens (s_cfg s)"
    and "int (length (running s)) \<le> max_num_running_reqs (s_cfg s)"
    and "\<forall>rid \<in> set (running s). \<forall>r. get_req rid s = Ok r \<longrightarrow> not_ahead (s_cfg s) r"
  shows "\<forall>t \<in> set (ac_tokens acc). 0 < snd t"
proof -
  from assms(1) obtain acc1 l acc3 where a: "schedule_running env (acc_init s) = Ok acc1"
    and b: "if ac_preempted acc1 = [] then schedule_waiting env (acc1\<lparr>ac_loras := l\<rparr>) = Ok acc3 else acc3 = acc1\<lparr>ac_loras := l\<rparr>"
    and c: "put_back_skipped acc3 = Ok acc" by (rule schedule_decide_cases)
  note i = run_inv_init [OF assms(2,3)] and r = schedule_running_inv [OF a run_inv_init [OF assms(2,3)]]
  have "positive_inv s (acc_init s)" by (simp add: positive_inv_def acc_init_def)
  from schedule_running_positive [OF a i this assms(5)] have p1: "\<forall>t \<in> set (ac_tokens acc1). 0 < snd t" .
  have "\<forall>t \<in> set (ac_tokens acc3). 0 < snd t"
  proof (cases "ac_preempted acc1 = []")
    case True
    then have sw: "schedule_waiting env (acc1\<lparr>ac_loras := l\<rparr>) = Ok acc3" using b by simp
    have "wait_inv (s_cfg s) acc3 \<and> (\<forall>t \<in> set (ac_tokens acc3). 0 < snd t)"
    proof (rule schedule_waiting_induct [OF sw])
      fix acc go acc1
      assume w: "wait_inv (s_cfg s) acc \<and> (\<forall>t \<in> set (ac_tokens acc). 0 < snd t)"
        and n: "int (length (running (ac_s acc))) \<noteq> max_num_running_reqs (s_cfg (ac_s acc))"
        and one: "schedule_waiting_one env acc = Ok (go, acc1)"
      have wi: "wait_inv (s_cfg s) acc" using w by blast
      then have "s_cfg (ac_s acc) = s_cfg s" "0 \<le> ac_budget acc" by (simp_all add: wait_inv_def tokens_inv_def)
      then show "wait_inv (s_cfg s) acc1 \<and> (\<forall>t \<in> set (ac_tokens acc1). 0 < snd t)"
        using schedule_waiting_one_inv [OF one wi] schedule_waiting_one_positive [OF one] n w by simp
    qed (use wait_inv_start [OF r True assms(4)] p1 in simp)
    then show ?thesis by blast
  qed (use b p1 in simp)
  moreover obtain q where "acc = acc3\<lparr>ac_s := (ac_s acc3)\<lparr>waiting := q\<rparr>\<rparr>" by (rule put_back_skipped_cases [OF c])
  ultimately show ?thesis by simp
qed

section \<open>The output\<close>

lemma rmap_Ok_nth: "rmap f xs = Ok ys \<Longrightarrow> length ys = length xs \<and> (\<forall>i < length xs. f (xs ! i) = Ok (ys ! i))"
proof (induction xs arbitrary: ys)
  case (Cons x xs)
  then obtain z zs where z: "f x = Ok z" "rmap f xs = Ok zs" "ys = z # zs" by (auto simp: res_simps)
  then show ?case using Cons.IH [OF z(2)] by (auto simp: nth_Cons split: nat.split)
qed simp

text \<open>Where the workers are told a request continues.\<close>

definition reported :: "scheduler_output \<Rightarrow> string \<Rightarrow> int \<Rightarrow> bool" where
  "reported out rid n \<longleftrightarrow> (\<exists>d \<in> set (so_new_reqs out). nr_req_id d = rid \<and> nr_num_computed_tokens d = n) \<or>
     (\<exists>i < length (cr_req_ids (so_cached_reqs out)). cr_req_ids (so_cached_reqs out) ! i = rid \<and>
        cr_num_computed_tokens (so_cached_reqs out) ! i = n)"

lemma new_reqs_reported:
  assumes "rmap (\<lambda>rid. rbind (get_req rid s1) (\<lambda>r. rbind (dict_get rid bs) (\<lambda>ids. Ok (new_request_from r ids)))) xs = Ok ds"
    and "\<And>rid r. get_req rid s1 = Ok r \<Longrightarrow> request_id r = rid"
  shows "map nr_req_id ds = xs" and "rid \<in> set xs \<Longrightarrow> get_req rid s1 = Ok r \<Longrightarrow>
    \<exists>d \<in> set ds. nr_req_id d = rid \<and> nr_num_computed_tokens d = num_computed_tokens r"
proof -
  note m = rmap_Ok_nth [OF assms(1)]
  have nth: "\<exists>r ids. get_req (xs ! i) s1 = Ok r \<and> ds ! i = new_request_from r ids" if "i < length xs" for i
    using m that unfolding res_simps by (metis res.inject(2))
  show "map nr_req_id ds = xs"
    by (rule nth_equalityI) (use m nth assms(2) in \<open>fastforce simp: new_request_from_def\<close>)+
  assume "rid \<in> set xs" and r: "get_req rid s1 = Ok r"
  then obtain i where i: "i < length xs" "xs ! i = rid" by (auto simp: in_set_conv_nth)
  obtain ids where "ds ! i = new_request_from r ids" using nth [OF i(1)] i(2) r by auto
  moreover have "ds ! i \<in> set ds" using m i(1) by simp
  ultimately show "\<exists>d \<in> set ds. nr_req_id d = rid \<and> nr_num_computed_tokens d = num_computed_tokens r"
    using assms(2) [OF r] by (auto simp: new_request_from_def intro!: bexI [of _ "ds ! i"])
qed

lemma cached_reqs_reported:
  assumes "make_cached_request_data acc = Ok d"
  shows "cr_req_ids d = ac_running acc @ ac_resumed acc" and "rid \<in> set (ac_running acc @ ac_resumed acc) \<Longrightarrow> get_req rid (ac_s acc) = Ok r \<Longrightarrow>
    \<exists>i < length (cr_req_ids d). cr_req_ids d ! i = rid \<and> cr_num_computed_tokens d ! i = num_computed_tokens r"
proof -
  let ?ids = "ac_running acc @ ac_resumed acc"
  from assms obtain rs where m: "rmap (\<lambda>rid. get_req rid (ac_s acc)) ?ids = Ok rs" and c: "cr_req_ids d = ?ids"
      "cr_num_computed_tokens d = map num_computed_tokens rs"
    unfolding make_cached_request_data_def Let_def by (auto simp: res_simps)
  show "cr_req_ids d = ?ids" by (rule c(1))
  assume "rid \<in> set ?ids" and r: "get_req rid (ac_s acc) = Ok r"
  then obtain i where i: "i < length ?ids" "?ids ! i = rid" by (metis in_set_conv_nth)
  have "get_req (?ids ! i) (ac_s acc) = Ok (rs ! i)" "length rs = length ?ids" using rmap_Ok_nth [OF m] i(1) by blast+
  then have "cr_num_computed_tokens d ! i = num_computed_tokens r" using i r c(2) by simp
  then show "\<exists>i < length (cr_req_ids d). cr_req_ids d ! i = rid \<and> cr_num_computed_tokens d ! i = num_computed_tokens r"
    using i c(1) by auto
qed

lemma schedule_output_spec:
  assumes "schedule async env s = Ok (out, evs, s')" and "sched_wf s" and "0 \<le> max_num_scheduled_tokens (s_cfg s)"
    and "int (length (running s)) \<le> max_num_running_reqs (s_cfg s)"
  shows "distinct (map fst (so_num_scheduled_tokens out)) \<and>
    mset (map fst (so_num_scheduled_tokens out)) = mset (map nr_req_id (so_new_reqs out)) + mset (cr_req_ids (so_cached_reqs out)) \<and>
    (\<forall>rid n r'. (rid, n) \<in> set (so_num_scheduled_tokens out) \<longrightarrow> get_req rid s' = Ok r' \<longrightarrow> reported out rid (num_computed_tokens r' - n))"
  using assms(1)
proof (cases rule: schedule_cases)
  case (1 acc prefix s1 new_reqs cached c k)
  note d = schedule_decide_spec [OF 1(1) assms(2-4)]
  note t = d(3) [unfolded tokens_inv_def]
  obtain k1 where s1: "s1 = (ac_s acc)\<lparr>s_kv := k1\<rparr>" using common_prefix_frame [OF 1(3)] by blast
  have wf: "queues_wf s1 {#}" by (rule queues_wf_frame [OF d(1) [unfolded sched_wf_def]]) (simp_all add: s1)
  have wf': "queues_wf (s1\<lparr>s_enc := c, s_kv := k\<rparr>) {#}" by (rule queues_wf_frame [OF wf]) simp_all
  have id: "request_id r = rid" if "get_req rid s1 = Ok r" for rid r by (rule queues_wfD(2) [OF wf that])
  note n = new_reqs_reported [OF 1(4) id] and m = cached_reqs_reported [OF 1(5)]
  have "reported out rid (num_computed_tokens r' - n)" if rn: "(rid, n) \<in> set (ac_tokens acc)" and r': "get_req rid s' = Ok r'" for rid n r'
  proof -
    obtain r where r: "map_of (requests s1) rid = Some r" "num_computed_tokens r' = num_computed_tokens r + n"
      using async_update_spec(5) [OF 1(10) _ wf' rn] r' t by (auto simp: get_req_Ok)
    have "rid \<in># mset (map fst (ac_tokens acc))" using rn by force
    moreover have "mset (map fst (ac_tokens acc)) = mset (ac_running acc) + (mset (ac_new acc) + mset (ac_resumed acc))" using t by blast
    ultimately have "rid \<in># mset (ac_running acc) + (mset (ac_new acc) + mset (ac_resumed acc))" by (rule subst [rotated])
    then have "rid \<in> set (ac_new acc) \<or> rid \<in> set (ac_running acc @ ac_resumed acc)" by auto
    then show ?thesis using n(2) [of rid r] m(2) [of rid r] r 1(6,7) by (auto simp: reported_def get_req_Ok)
  qed
  then show ?thesis using t 1(6,7,8) n(1) m(1) by (auto simp: ac_simps)
qed

end
