(* ===== verification/Scheduler_Update.thy ===== *)
theory Scheduler_Update
  imports Scheduler_Output
begin

text \<open>
  \<open>Scheduler.update_from_output\<close>, the override of \<open>AsyncScheduler\<close>, and the statistics of
  \<open>v1/spec_decode/metrics.py\<close> that go with it.  Tensors are strings.  The grammar of a request
  is not part of the scheduler: \<open>accept_tokens\<close> only changes the grammar, and
  \<open>should_advance\<close> and \<open>validate_tokens\<close> are functions of the environment.

  A request that is freed leaves the dictionary while the loop still writes to the object, so
  the object is a local variable that is written back only while the dictionary has its id.
\<close>

section \<open>Records\<close>

record spec_decoding_stats =
  ss_num_spec_tokens :: int
  ss_num_drafts :: int
  ss_num_draft_tokens :: int
  ss_num_accepted_tokens :: int
  ss_accepted_per_pos :: "int list"

record scheduler_stats =
  sk_num_running :: nat
  sk_num_waiting :: nat
  sk_usage :: "int \<times> int"
  sk_prefix :: prefix_cache_stats
  sk_spec :: "spec_decoding_stats option"
  sk_corrupted :: nat

record model_runner_output =
  mr_index :: "(string, int) dict"
  mr_sampled :: "int list list"
  mr_spec :: "int list list option"
  mr_logprobs :: "string list option"
  mr_prompt_logprobs :: "(string, string option) dict"
  mr_pooler :: "string option list"
  mr_finished_sending :: "string list option"
  mr_finished_recving :: "string list option"
  mr_nans :: "(string, int) dict option"

record engine_core_output =
  eo_request_id :: string
  eo_new_token_ids :: "int list"
  eo_new_logprobs :: "string list option"
  eo_prompt_logprobs :: "string option"
  eo_pooling_output :: "string option"
  eo_finish_reason :: "finish_reason option"
  eo_stop_reason :: "int option"
  eo_events :: "(event_type \<times> int) list option"
  eo_kv_params :: "string option"
  eo_num_cached_tokens :: int

record engine_core_outputs =
  eco_outputs :: "engine_core_output list"
  eco_stats :: "scheduler_stats option"
  eco_finished :: "string list option"

section \<open>Speculative decoding statistics\<close>

definition SpecDecodingStats_new :: "int \<Rightarrow> spec_decoding_stats" where
  "SpecDecodingStats_new n = \<lparr>ss_num_spec_tokens = n, ss_num_drafts = 0, ss_num_draft_tokens = 0,
     ss_num_accepted_tokens = 0, ss_accepted_per_pos = replicate (nat n) 0\<rparr>"

definition observe_draft :: "int \<Rightarrow> int \<Rightarrow> spec_decoding_stats \<Rightarrow> spec_decoding_stats res" where
  "observe_draft ndraft naccepted st =
     rbind (py_assert (naccepted \<le> ss_num_spec_tokens st)) (\<lambda>_.
     rbind (rfold (\<lambda>i xs. if i < length xs then Ok (xs[i := xs ! i + 1]) else Err IndexError)
              [0..<nat naccepted] (ss_accepted_per_pos st)) (\<lambda>per_pos.
     Ok (st\<lparr>ss_num_drafts := ss_num_drafts st + 1, ss_num_draft_tokens := ss_num_draft_tokens st + ndraft,
            ss_num_accepted_tokens := ss_num_accepted_tokens st + naccepted, ss_accepted_per_pos := per_pos\<rparr>)))"

definition make_spec_decoding_stats ::
  "spec_decoding_stats option \<Rightarrow> int \<Rightarrow> int \<Rightarrow> scheduler \<Rightarrow> spec_decoding_stats option res" where
  "make_spec_decoding_stats st ndraft naccepted s =
     (if \<not> sc_log_stats (s_cfg s) then Ok None
      else let st0 = (case st of None \<Rightarrow> SpecDecodingStats_new (sc_num_spec_tokens (s_cfg s)) | Some x \<Rightarrow> x)
           in rbind (observe_draft ndraft naccepted st0) (\<lambda>x. Ok (Some x)))"

definition make_stats :: "spec_decoding_stats option \<Rightarrow> scheduler \<Rightarrow> (scheduler_stats option \<times> scheduler) res" where
  "make_stats spec s =
     (if \<not> sc_log_stats (s_cfg s) then Ok (None, s)
      else let (prefix, k) = make_prefix_cache_stats (s_kv s)
           in case prefix of
                None \<Rightarrow> Err AssertionError
              | Some p \<Rightarrow>
                  rbind (rmap (\<lambda>rid. get_req rid s) (running s)) (\<lambda>rs.
                  Ok (Some \<lparr>sk_num_running = length (running s), sk_num_waiting = queue_len (waiting s),
                            sk_usage = km_usage k, sk_prefix = p, sk_spec = spec,
                            sk_corrupted = length (filter is_output_corrupted rs)\<rparr>,
                      s\<lparr>s_kv := k\<rparr>)))"

section \<open>New tokens\<close>

text \<open>Tokens are appended one at a time until the request stops; the rest is dropped.\<close>

fun append_until_stop :: "int \<Rightarrow> int list \<Rightarrow> request \<Rightarrow> (int list \<times> bool \<times> request) res" where
  "append_until_stop max_len [] r = Ok ([], False, r)"
| "append_until_stop max_len (t # ts) r =
     rbind (check_stop max_len None (append_output_token_ids [t] r)) (\<lambda>(stopped, r1).
     if stopped then Ok ([t], True, r1)
     else rbind (append_until_stop max_len ts r1) (\<lambda>(us, b, r2). Ok (t # us, b, r2)))"

text \<open>The subclass also settles its placeholders and publishes the blocks of a running request.\<close>

definition update_request_with_output ::
  "bool \<Rightarrow> sched_env \<Rightarrow> request \<Rightarrow> int list \<Rightarrow> scheduler \<Rightarrow> (int list \<times> bool \<times> request \<times> scheduler) res" where
  "update_request_with_output async env r new_ids s =
     rbind (append_until_stop (sc_max_model_len (s_cfg s)) new_ids r) (\<lambda>(ids, stopped, r1).
     if \<not> async then Ok (ids, stopped, r1, s)
     else
       let r2 = r1\<lparr>num_output_placeholders := num_output_placeholders r1 - int (length ids)\<rparr>
       in rbind (py_assert (num_output_placeholders r2 \<ge> 0)) (\<lambda>_.
          rbind (if status r = RUNNING
                 then km_cache_blocks (ev_nh env) (ev_hf env) r2 (num_computed_tokens r2 - num_output_placeholders r2) (s_kv s)
                 else Ok (s_kv s)) (\<lambda>k.
          Ok (ids, stopped, r2, s\<lparr>s_kv := k\<rparr>))))"

section \<open>One request\<close>

record update_acc =
  up_s :: scheduler
  up_outputs :: "(int, engine_core_output list) dict"
  up_spec :: "spec_decoding_stats option"
  up_stopped_running :: "string list"
  up_stopped_preempted :: "string list"

definition put_back :: "request \<Rightarrow> scheduler \<Rightarrow> scheduler" where
  "put_back r s = (if map_of (requests s) (request_id r) = None then s else put_req r s)"

text \<open>Rejected draft tokens are taken off the computed ones.\<close>

definition reject_drafts ::
  "int list option \<Rightarrow> int list \<Rightarrow> request \<Rightarrow> update_acc \<Rightarrow> (request \<times> update_acc) res" where
  "reject_drafts scheduled_spec generated r acc =
     (case scheduled_spec of
        None \<Rightarrow> Ok (r, acc)
      | Some drafts \<Rightarrow>
          if drafts = [] then Ok (r, acc)
          else
            let rejected = int (length drafts) + 1 - int (length generated)
            in rbind (make_spec_decoding_stats (up_spec acc) (int (length drafts)) (int (length generated) - 1) (up_s acc)) (\<lambda>st.
               Ok (r\<lparr>num_computed_tokens := num_computed_tokens r - rejected\<rparr>, acc\<lparr>up_spec := st\<rparr>)))"

text \<open>New tokens and the pooler output decide whether the request stops; then it is freed.\<close>

definition settle_request ::
  "bool \<Rightarrow> sched_env \<Rightarrow> model_runner_output \<Rightarrow> int \<Rightarrow> int list \<Rightarrow> request \<Rightarrow> scheduler
   \<Rightarrow> ((int list \<times> bool \<times> string option \<times> string option) \<times> request \<times> scheduler) res" where
  "settle_request async env mro idx generated r s =
     rbind (if generated \<noteq> [] then update_request_with_output async env r generated s
            else Ok (generated, False, r, s)) (\<lambda>(new_ids, stopped1, r1, s1).
     rbind (if mr_pooler mro \<noteq> []
            then rbind (py_index (mr_pooler mro) idx) (\<lambda>p.
                 rbind (check_stop (sc_max_model_len (s_cfg s1)) p r1) (\<lambda>(stopped2, r2). Ok (p, stopped2, r2)))
            else Ok (None, stopped1, r1)) (\<lambda>(pooler, stopped, r2).
     if stopped
     then rbind (free_request env r2 (put_back r2 s1)) (\<lambda>(params, s2). Ok ((new_ids, stopped, pooler, params), r2, s2))
     else Ok ((new_ids, stopped, pooler, None), r2, s1)))"

definition slice_logprobs :: "model_runner_output \<Rightarrow> int \<Rightarrow> request \<Rightarrow> string list option" where
  "slice_logprobs mro idx r =
     (case (sampling r, mr_logprobs mro) of
        (Some sp, Some lps) \<Rightarrow> (if logprobs sp \<noteq> None then Some (py_slice lps idx (idx + 1)) else None)
      | _ \<Rightarrow> None)"

definition next_drafts :: "sched_env \<Rightarrow> model_runner_output \<Rightarrow> int \<Rightarrow> request \<Rightarrow> request res" where
  "next_drafts env mro idx r =
     (case mr_spec mro of
        None \<Rightarrow> Ok r
      | Some drafts \<Rightarrow>
          rbind (py_index drafts idx) (\<lambda>ts.
          Ok (r\<lparr>spec_token_ids := (if ev_should_advance env r then ev_validate_tokens env r ts else ts)\<rparr>)))"

text \<open>Parameters of a transfer count when they are there and not empty.\<close>

definition has_params :: "string option \<Rightarrow> bool" where
  "has_params p = (case p of None \<Rightarrow> False | Some x \<Rightarrow> x \<noteq> [])"

definition update_one ::
  "bool \<Rightarrow> sched_env \<Rightarrow> scheduler_output \<Rightarrow> model_runner_output \<Rightarrow> string \<times> int \<Rightarrow> update_acc \<Rightarrow> update_acc res" where
  "update_one async env out mro = (\<lambda>(rid, nsched) acc.
     rbind (py_assert (nsched > 0)) (\<lambda>_.
     case map_of (requests (up_s acc)) rid of
       None \<Rightarrow> Ok acc
     | Some r \<Rightarrow>
         rbind (dict_get rid (mr_index mro)) (\<lambda>idx.
         rbind (if mr_sampled mro \<noteq> [] then py_index (mr_sampled mro) idx else Ok []) (\<lambda>generated.
         rbind (reject_drafts (map_of (so_spec_tokens out) rid) generated r acc) (\<lambda>(r1, acc1).
         rbind (settle_request async env mro idx generated r1 (up_s acc1)) (\<lambda>((new_ids, stopped, pooler, params), r2, s2).
         let nans = (case mr_nans mro of None \<Rightarrow> None | Some d \<Rightarrow> map_of d rid);
             r3 = (case nans of None \<Rightarrow> r2 | Some n \<Rightarrow> r2\<lparr>num_nans_in_logits := n\<rparr>)
         in rbind (next_drafts env mro idx r3) (\<lambda>r4.
            let prompt_lps = (case map_of (mr_prompt_logprobs mro) rid of None \<Rightarrow> None | Some p \<Rightarrow> p);
                acc2 = acc1\<lparr>up_stopped_running := (if stopped \<and> status r1 = RUNNING then set_add rid (up_stopped_running acc1)
                                                  else up_stopped_running acc1),
                            up_stopped_preempted := (if stopped \<and> status r1 \<noteq> RUNNING then set_add rid (up_stopped_preempted acc1)
                                                    else up_stopped_preempted acc1)\<rparr>
            in if new_ids \<noteq> [] \<or> pooler \<noteq> None \<or> has_params params
               then
                 let (events, r5) = take_req_events r4;
                     eo = \<lparr>eo_request_id = rid, eo_new_token_ids = new_ids, eo_new_logprobs = slice_logprobs mro idx r2,
                           eo_prompt_logprobs = prompt_lps, eo_pooling_output = pooler,
                           eo_finish_reason = get_finished_reason (status r5), eo_stop_reason = stop_reason r5,
                           eo_events = events, eo_kv_params = params, eo_num_cached_tokens = num_cached_tokens r5\<rparr>
                 in Ok (acc2\<lparr>up_s := put_back r5 s2,
                             up_outputs := (let (xs, d) = ddict_get (client_index r5) (up_outputs acc2)
                                            in AList.update (client_index r5) (xs @ [eo]) d)\<rparr>)
               else rbind (py_assert (prompt_lps = None)) (\<lambda>_. Ok (acc2\<lparr>up_s := put_back r4 s2\<rparr>)))))))))"

section \<open>The whole update\<close>

definition remove_stopped :: "update_acc \<Rightarrow> scheduler res" where
  "remove_stopped acc =
     (let s = up_s acc;
          s1 = (if up_stopped_running acc = [] then s
                else s\<lparr>running := filter (\<lambda>x. x \<notin> set (up_stopped_running acc)) (running s)\<rparr>)
      in if up_stopped_preempted acc = [] then Ok s1
         else rbind (remove_requests (up_stopped_preempted acc) (waiting s1)) (\<lambda>q. Ok (s1\<lparr>waiting := q\<rparr>)))"

text \<open>Ids of finished requests are sent to the clients they belong to, then forgotten.\<close>

definition attach_finished ::
  "(int, string list) dict option \<Rightarrow> (int, engine_core_outputs) dict \<Rightarrow> (int, engine_core_outputs) dict" where
  "attach_finished finished outs =
     fold (\<lambda>(client, ids) d. AList.update client
             (case map_of d client of
                Some eco \<Rightarrow> eco\<lparr>eco_finished := Some ids\<rparr>
              | None \<Rightarrow> \<lparr>eco_outputs = [], eco_stats = None, eco_finished = Some ids\<rparr>) d)
       (case finished of None \<Rightarrow> [] | Some d \<Rightarrow> d) outs"

definition attach_stats ::
  "spec_decoding_stats option \<Rightarrow> (int, engine_core_outputs) dict \<Rightarrow> scheduler
   \<Rightarrow> ((int, engine_core_outputs) dict \<times> scheduler) res" where
  "attach_stats spec outs s =
     (case outs of
        [] \<Rightarrow> Ok ([], s)
      | (client, eco) # rest \<Rightarrow>
          rbind (make_stats spec s) (\<lambda>(st, s1). Ok ((client, eco\<lparr>eco_stats := st\<rparr>) # rest, s1)))"

definition update_from_output ::
  "bool \<Rightarrow> sched_env \<Rightarrow> scheduler_output \<Rightarrow> model_runner_output \<Rightarrow> scheduler
   \<Rightarrow> ((int, engine_core_outputs) dict \<times> scheduler) res" where
  "update_from_output async env out mro s =
     rbind (rfold (update_one async env out mro) (so_num_scheduled_tokens out)
       \<lparr>up_s = s, up_outputs = [], up_spec = None, up_stopped_running = [], up_stopped_preempted = []\<rparr>) (\<lambda>acc.
     rbind (remove_stopped acc) (\<lambda>s1.
     rbind (update_from_kv_xfer_finished (or_empty (mr_finished_recving mro)) (or_empty (mr_finished_sending mro)) s1) (\<lambda>s2.
     let outs = map (\<lambda>(c, xs). (c, \<lparr>eco_outputs = xs, eco_stats = None, eco_finished = None\<rparr>)) (up_outputs acc);
         outs2 = attach_finished (finished_req_ids_dict s2) outs;
         s3 = s2\<lparr>finished_req_ids_dict := map_option (\<lambda>_. []) (finished_req_ids_dict s2)\<rparr>
     in attach_stats (up_spec acc) outs2 s3)))"

section \<open>Appending tokens\<close>

lemma append_until_stop_spec:
  "append_until_stop m ts r = Ok (ids, b, r') \<Longrightarrow>
   (\<exists>us. ts = ids @ us \<and> (\<not> b \<longrightarrow> us = [])) \<and> output_token_ids r' = output_token_ids r @ ids \<and> all_token_ids r' = all_token_ids r @ ids \<and>
   request_id r' = request_id r \<and> client_index r' = client_index r \<and> num_computed_tokens r' = num_computed_tokens r \<and>
   (if b then is_finished r' else status r' = status r)"
proof (induction ts arbitrary: r ids)
  case (Cons t ts)
  let ?r = "append_output_token_ids [t] r"
  obtain b1 r1 where c: "check_stop m None ?r = Ok (b1, r1)"
    using Cons.prems by (cases "check_stop m None ?r") auto
  show ?case
  proof (cases b1)
    case True
    then have "ids = [t]" "b" "r' = r1" using Cons.prems c by auto
    moreover from c True obtain st sr where "r1 = stopped_as ?r st sr" by (auto elim!: check_stop_cases)
    moreover have "is_finished r1" using check_stop_True [of m None ?r r1] c True by simp
    ultimately show ?thesis by (simp add: append_output_token_ids_def)
  next
    case False
    then have r1: "r1 = ?r" using check_stop_False [of m None ?r r1] c by simp
    obtain us where us: "append_until_stop m ts r1 = Ok (us, b, r')" "ids = t # us"
      using Cons.prems c False by (auto simp: res_simps)
    from Cons.IH [OF us(1)] show ?thesis using us(2) by (auto simp: r1 append_output_token_ids_def)
  qed
qed simp

lemma check_stop_again:
  assumes "check_stop m None r = Ok (True, r1)" and "check_stop m p r1 = Ok (b, r2)"
  shows b
proof -
  from assms(1) obtain st sr where r1: "r1 = stopped_as r st sr" by (auto elim!: check_stop_cases)
  show b using assms unfolding r1
    by (auto simp: check_stop_def stopped_as_def num_tokens_def num_output_tokens_def res_simps split: if_splits option.splits)
qed

lemma append_until_stop_again:
  "append_until_stop m ts r = Ok (ids, True, r1) \<Longrightarrow> check_stop m p r1 = Ok (b, r2) \<Longrightarrow> b"
proof (induction ts arbitrary: r ids)
  case (Cons t ts)
  let ?r = "append_output_token_ids [t] r"
  obtain b0 r0 where c: "check_stop m None ?r = Ok (b0, r0)"
    using Cons.prems(1) by (cases "check_stop m None ?r") auto
  show ?case
  proof (cases b0)
    case True
    then show ?thesis using Cons.prems c check_stop_again by auto
  next
    case False
    then obtain us where "append_until_stop m ts r0 = Ok (us, True, r1)" using Cons.prems(1) c by (auto simp: res_simps)
    from Cons.IH [OF this Cons.prems(2)] show ?thesis .
  qed
qed simp

section \<open>The queues while requests stop\<close>

text \<open>Well-formed queues except for the running ids in \<open>R\<close> and the waiting ids in \<open>P\<close>, which have stopped.\<close>

definition but_wf :: "scheduler \<Rightarrow> string set \<Rightarrow> string set \<Rightarrow> bool" where
  "but_wf s R P \<longleftrightarrow> wf_dict (requests s) \<and>
     (\<forall>rid r. map_of (requests s) rid = Some r \<longrightarrow> request_id r = rid) \<and>
     once (mset (running s) + waiting_ids (waiting s)) \<and>
     (\<forall>rid \<in> set (running s) - R. \<exists>r. map_of (requests s) rid = Some r \<and> status r = RUNNING) \<and>
     (\<forall>rid \<in> set_mset (waiting_ids (waiting s)) - P. \<exists>r. map_of (requests s) rid = Some r \<and> status_waiting (status r))"

lemma but_wf_start: "sched_wf s \<longleftrightarrow> but_wf s {} {}"
  by (simp add: sched_wf_def queues_wf_def but_wf_def)

lemma but_wfD:
  assumes "but_wf s R P" and "map_of (requests s) rid = Some r"
  shows "rid \<in> set (running s) \<Longrightarrow> rid \<notin> R \<Longrightarrow> status r = RUNNING"
    and "rid \<in># waiting_ids (waiting s) \<Longrightarrow> rid \<notin> P \<Longrightarrow> status_waiting (status r)" and "request_id r = rid"
  using assms unfolding but_wf_def by (metis Diff_iff option.inject)+

lemma but_wf_change:
  assumes "but_wf s R P" and "running s' = running s" and "waiting s' = waiting s" and "wf_dict (requests s')"
    and "\<And>x. x \<noteq> rid \<Longrightarrow> map_of (requests s') x = map_of (requests s) x"
    and "\<And>r. map_of (requests s') rid = Some r \<Longrightarrow> request_id r = rid" and "R \<subseteq> R'" and "P \<subseteq> P'"
    and "rid \<in> set (running s) \<Longrightarrow> rid \<notin> R' \<Longrightarrow> \<exists>r. map_of (requests s') rid = Some r \<and> status r = RUNNING"
    and "rid \<in># waiting_ids (waiting s) \<Longrightarrow> rid \<notin> P' \<Longrightarrow> \<exists>r. map_of (requests s') rid = Some r \<and> status_waiting (status r)"
  shows "but_wf s' R' P'"
  unfolding but_wf_def
proof (intro conjI allI impI ballI)
  show "request_id r = x" if "map_of (requests s') x = Some r" for x r
    using that assms(1,5,6) by (cases "x = rid") (auto simp: but_wf_def)
  show "\<exists>r. map_of (requests s') x = Some r \<and> status r = RUNNING" if "x \<in> set (running s') - R'" for x
    using that assms(1,2,5,7,9) by (cases "x = rid") (auto simp: but_wf_def)
  show "\<exists>r. map_of (requests s') x = Some r \<and> status_waiting (status r)" if "x \<in> set_mset (waiting_ids (waiting s')) - P'" for x
    using that assms(1,3,5,8,10) by (cases "x = rid") (auto simp: but_wf_def)
qed (use assms(1-4) in \<open>simp_all add: but_wf_def\<close>)

lemma put_back_simps [simp]:
  "requests (put_back r (s\<lparr>s_kv := k\<rparr>)) = requests (put_back r s)" "running (put_back r s) = running s" "waiting (put_back r s) = waiting s" "s_cfg (put_back r s) = s_cfg s"
  by (simp_all add: put_back_def)

lemma put_back_requests:
  "map_of (requests (put_back r s)) x =
     (if x = request_id r \<and> map_of (requests s) (request_id r) \<noteq> None then Some r else map_of (requests s) x)"
  "wf_dict (requests s) \<Longrightarrow> wf_dict (requests (put_back r s))"
  by (auto simp: put_back_def update_conv')

lemma sched_free_blocks_frame:
  "sched_free_blocks r s = Ok s' \<Longrightarrow> running s' = running s \<and> waiting s' = waiting s \<and> s_cfg s' = s_cfg s \<and> is_finished r \<and>
     requests s' = AList.delete (request_id r) (requests s)"
  by (auto simp: sched_free_blocks_def res_simps split: if_splits)

lemma free_request_frame:
  "free_request env r s = Ok (params, s') \<Longrightarrow> running s' = running s \<and> waiting s' = waiting s \<and> s_cfg s' = s_cfg s \<and> is_finished r \<and>
     (requests s' = requests s \<or> requests s' = AList.delete (request_id r) (requests s))"
  by (auto simp: free_request_def res_simps Let_def split: if_splits dest!: sched_free_blocks_frame)

lemma update_request_with_output_spec:
  assumes "update_request_with_output async env r ts s = Ok (ids, b, r', s')"
  obtains r1 k where "append_until_stop (sc_max_model_len (s_cfg s)) ts r = Ok (ids, b, r1)"
    and "r' = r1 \<or> r' = r1\<lparr>num_output_placeholders := num_output_placeholders r1 - int (length ids)\<rparr>" and "s' = s\<lparr>s_kv := k\<rparr>"
proof -
  note eq = assms [unfolded update_request_with_output_def]
  let ?a = "append_until_stop (sc_max_model_len (s_cfg s)) ts r"
  from eq obtain ids1 b1 r1 where a: "?a = Ok (ids1, b1, r1)" by (cases ?a) auto
  show thesis
  proof (cases async)
    case True
    let ?r2 = "r1\<lparr>num_output_placeholders := num_output_placeholders r1 - int (length ids1)\<rparr>"
    from eq True a obtain k where "ids = ids1" "b = b1" "r' = ?r2" "s' = s\<lparr>s_kv := k\<rparr>" by (auto simp: Let_def res_simps)
    then show thesis using a by (intro that [of r1 k]) simp_all
  next
    case False
    then show thesis using eq a by (intro that [of r1 "s_kv s"]) simp_all
  qed
qed

lemma check_stop_field: "check_stop m p (r\<lparr>num_output_placeholders := n\<rparr>) = Ok (b, r2) \<Longrightarrow> \<exists>r3. check_stop m p r = Ok (b, r3)"
  by (auto simp: check_stop_def num_tokens_def num_output_tokens_def res_simps split: if_splits option.splits)

text \<open>A request that does not stop keeps its status; one that stops is finished and may be gone.\<close>

lemma settle_request_spec:
  assumes "settle_request async env mro idx generated r s = Ok ((ids, stopped, pooler, params), r2, s2)"
  shows "running s2 = running s \<and> waiting s2 = waiting s \<and> s_cfg s2 = s_cfg s \<and> request_id r2 = request_id r \<and> client_index r2 = client_index r \<and>
    (if stopped then is_finished r2 \<and> (requests s2 = requests (put_back r2 s) \<or> requests s2 = AList.delete (request_id r) (requests (put_back r2 s)))
     else status r2 = status r \<and> requests s2 = requests s)"
proof -
  let ?m = "sc_max_model_len (s_cfg s)"
  note eq = assms [unfolded settle_request_def]
  let ?u = "if generated \<noteq> [] then update_request_with_output async env r generated s else Ok (generated, False, r, s)"
  from eq obtain ids1 b1 r1 s1 where u: "?u = Ok (ids1, b1, r1, s1)" by (cases ?u) auto
  have one: "request_id r1 = request_id r \<and> client_index r1 = client_index r \<and> (if b1 then is_finished r1 else status r1 = status r) \<and>
    (\<exists>k. s1 = s\<lparr>s_kv := k\<rparr>) \<and> (b1 \<longrightarrow> (\<forall>p b r2. check_stop ?m p r1 = Ok (b, r2) \<longrightarrow> b))"
  proof (cases "generated = []")
    case True
    then show ?thesis using u by (auto intro: exI [of _ "s_kv s"])
  next
    case False
    then have "update_request_with_output async env r generated s = Ok (ids1, b1, r1, s1)" using u by simp
    then obtain r0 k where r0: "append_until_stop ?m generated r = Ok (ids1, b1, r0)" "s1 = s\<lparr>s_kv := k\<rparr>"
        "r1 = r0 \<or> r1 = r0\<lparr>num_output_placeholders := num_output_placeholders r0 - int (length ids1)\<rparr>"
      by (rule update_request_with_output_spec)
    have "b" if b1: "b1" and c: "check_stop ?m p r1 = Ok (b, r2)" for p b r2
    proof -
      obtain r3 where "check_stop ?m p r0 = Ok (b, r3)" using r0(3) c check_stop_field [where r = r0] by blast
      moreover have "append_until_stop ?m generated r = Ok (ids1, True, r0)" using r0(1) b1 by simp
      ultimately show b by (rule append_until_stop_again [rotated])
    qed
    then show ?thesis using append_until_stop_spec [OF r0(1)] r0(2,3) by (auto simp: is_finished_def)
  qed
  then obtain k where k: "s1 = s\<lparr>s_kv := k\<rparr>" by blast
  let ?p = "if mr_pooler mro \<noteq> []
            then rbind (py_index (mr_pooler mro) idx) (\<lambda>p.
                 rbind (check_stop (sc_max_model_len (s_cfg s1)) p r1) (\<lambda>(stopped2, r2). Ok (p, stopped2, r2)))
            else Ok (None, b1, r1)"
  from eq obtain p b2 r3 where p: "?p = Ok (p, b2, r3)" by (cases ?p) (auto simp: u)
  have two: "request_id r3 = request_id r1 \<and> client_index r3 = client_index r1 \<and> (if b2 then is_finished r3 else status r3 = status r)"
  proof (cases "mr_pooler mro = []")
    case False
    then have c: "check_stop ?m p r1 = Ok (b2, r3)" using p by (auto simp: res_simps k)
    have "b1 \<longrightarrow> b2" using one c by blast
    with c one show ?thesis by (auto elim!: check_stop_cases simp: is_finished_def status_is_finished_def stopped_as_def)
  qed (use p one in auto)
  have e3: "(if b2 then rbind (free_request env r3 (put_back r3 s1)) (\<lambda>(params, s2). Ok ((ids1, b2, p, params), r3, s2))
     else Ok ((ids1, b2, p, None), r3, s1)) = Ok ((ids, stopped, pooler, params), r2, s2)"
    using eq by (simp add: u p)
  show ?thesis
  proof (cases b2)
    case True
    from e3 True obtain ps s3 where f: "free_request env r3 (put_back r3 s1) = Ok (ps, s3)"
      by (cases "free_request env r3 (put_back r3 s1)") auto
    from e3 [unfolded f rbind.simps prod.case] True have "stopped" "r2 = r3" "s2 = s3" by simp_all
    then show ?thesis using free_request_frame [OF f] one two by (simp add: k)
  next
    case False
    then have "r2 = r3" "s2 = s1" "\<not> stopped" using e3 by auto
    then show ?thesis using one two False by (simp add: k)
  qed
qed

lemma take_req_events_same: "take_req_events r = (es, r') \<Longrightarrow> status r' = status r \<and> request_id r' = request_id r"
  by (auto simp: take_req_events_def split: if_splits)

lemma reject_drafts_same:
  "reject_drafts sp g r acc = Ok (r', acc') \<Longrightarrow> status r' = status r \<and> request_id r' = request_id r \<and> up_s acc' = up_s acc \<and>
     up_stopped_running acc' = up_stopped_running acc \<and> up_stopped_preempted acc' = up_stopped_preempted acc"
  by (auto simp: reject_drafts_def res_simps Let_def split: option.splits if_splits)

lemma next_drafts_same: "next_drafts env mro idx r = Ok r' \<Longrightarrow> status r' = status r \<and> request_id r' = request_id r"
  by (auto simp: next_drafts_def res_simps split: option.splits)

lemma update_one_cases:
  assumes "update_one async env out mro (rid, n) acc = Ok acc'"
  obtains (gone) "map_of (requests (up_s acc)) rid = None" and "acc' = acc"
  | (alive) r r1 r2 r5 s2 ids stopped pooler params idx generated where "map_of (requests (up_s acc)) rid = Some r"
    and "settle_request async env mro idx generated r1 (up_s acc) = Ok ((ids, stopped, pooler, params), r2, s2)"
    and "status r1 = status r" and "request_id r1 = request_id r" and "status r5 = status r2" and "request_id r5 = request_id r2"
    and "up_s acc' = put_back r5 s2"
    and "up_stopped_running acc' = (if stopped \<and> status r = RUNNING then set_add rid (up_stopped_running acc) else up_stopped_running acc)"
    and "up_stopped_preempted acc' = (if stopped \<and> status r \<noteq> RUNNING then set_add rid (up_stopped_preempted acc) else up_stopped_preempted acc)"
proof (cases "map_of (requests (up_s acc)) rid")
  case None
  then show thesis using assms by (intro gone) (auto simp: update_one_def res_simps)
next
  case (Some r)
  note eq = assms [unfolded update_one_def prod.case Some option.case]
  from eq have n: "0 < n" by (cases "0 < n") simp_all
  note eq1 = eq [simplified n, unfolded py_assert_True rbind.simps]
  from eq1 obtain idx where i: "dict_get rid (mr_index mro) = Ok idx" by (cases "dict_get rid (mr_index mro)") simp_all
  let ?g = "if mr_sampled mro \<noteq> [] then py_index (mr_sampled mro) idx else Ok []"
  from eq1 obtain g where g: "?g = Ok g" by (cases ?g) (auto simp: i)
  let ?d = "reject_drafts (map_of (so_spec_tokens out) rid) g r acc"
  from eq1 obtain r1 acc1 where d: "?d = Ok (r1, acc1)" by (cases ?d) (auto simp: i g)
  note s1 = reject_drafts_same [OF d]
  let ?s = "settle_request async env mro idx g r1 (up_s acc1)"
  from eq1 obtain ids stopped pooler params r2 s2 where s: "?s = Ok ((ids, stopped, pooler, params), r2, s2)"
    by (cases ?s) (auto simp: i g d)
  define nans where "nans = (case mr_nans mro of None \<Rightarrow> None | Some d \<Rightarrow> map_of d rid)"
  define r3 where "r3 = (case nans of None \<Rightarrow> r2 | Some n \<Rightarrow> r2\<lparr>num_nans_in_logits := n\<rparr>)"
  have s3: "status r3 = status r2" "request_id r3 = request_id r2" by (simp_all add: r3_def split: option.split)
  note eq2 = eq1 [unfolded i rbind.simps g d prod.case s Let_def, folded nans_def, folded r3_def]
  from eq2 obtain r4 where r4: "next_drafts env mro idx r3 = Ok r4" by (cases "next_drafts env mro idx r3") auto
  obtain es r5 where e: "take_req_events r4 = (es, r5)" by (cases "take_req_events r4")
  note same = next_drafts_same [OF r4] take_req_events_same [OF e] s3 s1
  have "\<exists>r5. status r5 = status r2 \<and> request_id r5 = request_id r2 \<and> up_s acc' = put_back r5 s2"
    "up_stopped_running acc' = (if stopped \<and> status r = RUNNING then set_add rid (up_stopped_running acc) else up_stopped_running acc)"
    "up_stopped_preempted acc' = (if stopped \<and> status r \<noteq> RUNNING then set_add rid (up_stopped_preempted acc) else up_stopped_preempted acc)"
    using eq2 [unfolded r4 rbind.simps e prod.case] same
    by (cases "ids \<noteq> [] \<or> pooler \<noteq> None \<or> has_params params"; auto simp: res_simps)+
  then show thesis using alive [OF Some s [unfolded s1 [THEN conjunct2, THEN conjunct2, THEN conjunct1]]] s1 by blast
qed

abbreviation stopped_ok :: "update_acc \<Rightarrow> bool" where
  "stopped_ok acc \<equiv> but_wf (up_s acc) (set (up_stopped_running acc)) (set (up_stopped_preempted acc))"

lemma set_set_add [simp]: "set (set_add x xs) = insert x (set xs)"
  by (auto simp: set_add_def)

lemma update_one_keeps:
  assumes "update_one async env out mro (rid, n) acc = Ok acc'" and "stopped_ok acc"
  shows "stopped_ok acc' \<and> running (up_s acc') = running (up_s acc) \<and> s_cfg (up_s acc') = s_cfg (up_s acc)"
  using assms(1)
proof (cases rule: update_one_cases)
  case gone
  then show ?thesis using assms(2) by simp
next
  case (alive r r1 r2 r5 s2 ids stopped pooler params idx generated)
  note wf = assms(2) [unfolded but_wf_def]
  have id: "request_id r = rid" using wf alive(1) by blast
  note st = settle_request_spec [OF alive(2)]
  have id5: "request_id r5 = rid" "request_id r2 = rid" using st alive(4,6) id by simp_all
  have q: "running s2 = running (up_s acc)" "waiting s2 = waiting (up_s acc)" "s_cfg s2 = s_cfg (up_s acc)" using st by simp_all
  have d2: "wf_dict (requests s2) \<and> (\<forall>x. x \<noteq> rid \<longrightarrow> map_of (requests s2) x = map_of (requests (up_s acc)) x)"
  proof (cases stopped)
    case True
    then show ?thesis using st wf id5 id alive(4) by (auto simp: put_back_requests delete_conv' restrict_map_def)
  qed (use st wf in simp)
  have m: "map_of (requests (put_back r5 s2)) rid = (if map_of (requests s2) rid = None then None else Some r5)"
    by (simp add: put_back_requests id5)
  have live: "map_of (requests (put_back r5 s2)) rid = Some r5 \<and> status r5 = status r" if "\<not> stopped"
    using st that alive(1,3,5) m by simp
  have "stopped_ok acc'"
    unfolding alive(7)
  proof (rule but_wf_change [OF assms(2), of _ rid])
    show "wf_dict (requests (put_back r5 s2))" using d2 by (simp add: put_back_requests)
    show "map_of (requests (put_back r5 s2)) x = map_of (requests (up_s acc)) x" if "x \<noteq> rid" for x
      using d2 that by (simp add: put_back_requests id5)
    show "request_id r' = rid" if "map_of (requests (put_back r5 s2)) rid = Some r'" for r' using that m id5 by (auto split: if_splits)
    show "\<exists>r'. map_of (requests (put_back r5 s2)) rid = Some r' \<and> status r' = RUNNING"
      if "rid \<in> set (running (up_s acc))" "rid \<notin> set (up_stopped_running acc')"
    proof -
      have "rid \<notin> set (up_stopped_running acc)" using that(2) alive(8) by (auto split: if_splits)
      then have "status r = RUNNING" by (rule but_wfD(1) [OF assms(2) alive(1) that(1)])
      then show ?thesis using that alive(8) live by (cases stopped) auto
    qed
    show "\<exists>r'. map_of (requests (put_back r5 s2)) rid = Some r' \<and> status_waiting (status r')"
      if "rid \<in># waiting_ids (waiting (up_s acc))" "rid \<notin> set (up_stopped_preempted acc')"
    proof -
      have "rid \<notin> set (up_stopped_preempted acc)" using that(2) alive(9) by (auto split: if_splits)
      then have w: "status_waiting (status r)" by (rule but_wfD(2) [OF assms(2) alive(1) that(1)])
      then have "status r \<noteq> RUNNING" by (auto simp: status_waiting_def)
      then show ?thesis using that alive(9) live w by (cases stopped) auto
    qed
  qed (use q alive(8,9) in auto)
  then show ?thesis using q alive(7) by simp
qed

lemma update_all_keeps:
  assumes "rfold (update_one async env out mro) ts acc = Ok acc'" and "stopped_ok acc"
  shows "stopped_ok acc' \<and> running (up_s acc') = running (up_s acc) \<and> s_cfg (up_s acc') = s_cfg (up_s acc)"
  using assms
proof (induction ts arbitrary: acc)
  case (Cons t ts)
  obtain rid n where t: "t = (rid, n)" by (cases t)
  obtain acc1 where a: "update_one async env out mro (rid, n) acc = Ok acc1" "rfold (update_one async env out mro) ts acc1 = Ok acc'"
    using Cons.prems(1) by (auto simp: t res_simps)
  note k = update_one_keeps [OF a(1) Cons.prems(2)]
  from Cons.IH [OF a(2)] k show ?case by simp
qed simp

lemma once_mono: "once A \<Longrightarrow> B \<subseteq># A \<Longrightarrow> once B"
  unfolding once_def by (meson mset_subset_eq_count order_trans)

text \<open>Taking the stopped ids out of both queues makes them well formed.\<close>

lemma but_wf_remove:
  assumes "but_wf s R P" and "requests s' = requests s" and "running s' = filter (\<lambda>x. x \<notin> R) (running s)"
    and "waiting_ids (waiting s') = filter_mset (\<lambda>x. x \<notin> P) (waiting_ids (waiting s))"
  shows "sched_wf s'"
proof -
  have "mset (running s') + waiting_ids (waiting s') \<subseteq># mset (running s) + waiting_ids (waiting s)"
    by (intro subset_mset.add_mono) (simp_all add: assms(3,4) mset_filter)
  then have "once (mset (running s') + waiting_ids (waiting s'))" using assms(1) once_mono unfolding but_wf_def by blast
  then show ?thesis using assms by (auto simp: sched_wf_def queues_wf_def but_wf_def)
qed

lemma waiting_ids_remove: "remove_requests rids q = Ok q' \<Longrightarrow> waiting_ids q' = filter_mset (\<lambda>x. x \<notin> set rids) (waiting_ids q)"
  by (simp add: waiting_ids_def queue_remove_mset filter_mset_image_mset)

lemma remove_stopped_keeps:
  assumes "remove_stopped acc = Ok s" and "stopped_ok acc"
  shows "sched_wf s \<and> s_cfg s = s_cfg (up_s acc) \<and> length (running s) \<le> length (running (up_s acc))"
proof -
  let ?run = "filter (\<lambda>x. x \<notin> set (up_stopped_running acc)) (running (up_s acc))"
  have run: "(if up_stopped_running acc = [] then up_s acc else (up_s acc)\<lparr>running := ?run\<rparr>) = (up_s acc)\<lparr>running := ?run\<rparr>"
    by (cases "up_s acc") simp
  note eq = assms(1) [unfolded remove_stopped_def Let_def run]
  obtain q where q: "s = (up_s acc)\<lparr>running := ?run, waiting := q\<rparr>"
      "waiting_ids q = filter_mset (\<lambda>x. x \<notin> set (up_stopped_preempted acc)) (waiting_ids (waiting (up_s acc)))"
  proof (cases "up_stopped_preempted acc = []")
    case True
    then have "s = (up_s acc)\<lparr>running := ?run\<rparr>" using eq by simp
    then have "s = (up_s acc)\<lparr>running := ?run, waiting := waiting (up_s acc)\<rparr>" by (cases "up_s acc") simp
    then show thesis using True by (intro that [of "waiting (up_s acc)"]) simp_all
  next
    case False
    then obtain q where "remove_requests (up_stopped_preempted acc) (waiting (up_s acc)) = Ok q" "s = (up_s acc)\<lparr>running := ?run, waiting := q\<rparr>"
      using eq by (auto simp: res_simps)
    then show thesis using that waiting_ids_remove by blast
  qed
  have "sched_wf s" by (rule but_wf_remove [OF assms(2)]) (simp_all add: q)
  then show ?thesis by (simp add: q(1))
qed

text \<open>An object whose id is in no queue may change or go.\<close>

lemma sched_wf_off_queue:
  assumes "sched_wf s" and "rid \<notin> set (running s)" and "rid \<notin># waiting_ids (waiting s)"
    and "running s' = running s" and "waiting s' = waiting s" and "wf_dict (requests s')"
    and "\<And>x. x \<noteq> rid \<Longrightarrow> map_of (requests s') x = map_of (requests s) x"
    and "\<And>r. map_of (requests s') rid = Some r \<Longrightarrow> request_id r = rid"
  shows "sched_wf s'"
  unfolding but_wf_start
  by (rule but_wf_change [OF assms(1) [unfolded but_wf_start] assms(4-8)]) (use assms(2,3) in auto)

lemma finished_off_queue:
  assumes "sched_wf s" and "map_of (requests s) rid = Some r" and "is_finished r"
  shows "rid \<notin> set (running s)" and "rid \<notin># waiting_ids (waiting s)"
  using but_wfD(1,2) [OF assms(1) [unfolded but_wf_start] assms(2)] assms(3)
  by (auto simp: is_finished_def status_is_finished_def status_waiting_def)

lemma free_blocks_keeps:
  assumes "get_req rid s = Ok r" and "sched_free_blocks r s = Ok s'" and "sched_wf s"
  shows "sched_wf s' \<and> running s' = running s \<and> s_cfg s' = s_cfg s"
proof -
  note f = sched_free_blocks_frame [OF assms(2)]
  have id: "request_id r = rid" using queues_wfD(2) [OF assms(3) [unfolded sched_wf_def] assms(1)] .
  note o = finished_off_queue [OF assms(3) assms(1) [unfolded get_req_Ok]]
  have "sched_wf s'"
    by (rule sched_wf_off_queue [OF assms(3) o])
      (use f id assms(3) in \<open>simp_all add: delete_conv' sched_wf_def queues_wf_def\<close>)
  then show ?thesis using f by simp
qed

lemma kv_xfer_keeps:
  assumes "update_from_kv_xfer_finished recv send s = Ok s'" and "sched_wf s"
  shows "sched_wf s' \<and> running s' = running s \<and> s_cfg s' = s_cfg s"
proof -
  let ?s = "s\<lparr>finished_recving_kv_req_ids := fold set_add recv (finished_recving_kv_req_ids s)\<rparr>"
  have wf: "sched_wf ?s" unfolding sched_wf_def by (rule queues_wf_frame [OF assms(2) [unfolded sched_wf_def]]) simp_all
  have "sched_wf s' \<and> running s' = running s \<and> s_cfg s' = s_cfg s"
  proof (rule rfold_invariant [OF assms(1) [unfolded update_from_kv_xfer_finished_def]])
    fix rid s1 s2
    assume i: "sched_wf s1 \<and> running s1 = running s \<and> s_cfg s1 = s_cfg s"
      and st: "rbind (get_req rid s1) (\<lambda>r. sched_free_blocks r s1) = Ok s2"
    from st obtain r where r: "get_req rid s1 = Ok r" by (cases "get_req rid s1") simp_all
    with st have "sched_free_blocks r s1 = Ok s2" by simp
    from free_blocks_keeps [OF r this] i show "sched_wf s2 \<and> running s2 = running s \<and> s_cfg s2 = s_cfg s" by simp
  qed (use wf in simp)
  then show ?thesis .
qed

lemma make_stats_frame:
  assumes "make_stats spec s = Ok (st, s')"
  shows "\<exists>k. s' = s\<lparr>s_kv := k\<rparr>"
proof (cases "sc_log_stats (s_cfg s)")
  case True
  obtain p k where p: "make_prefix_cache_stats (s_kv s) = (p, k)" by (cases "make_prefix_cache_stats (s_kv s)")
  note eq = assms [unfolded make_stats_def p Let_def prod.case]
  show ?thesis
  proof (cases p)
    case (Some x)
    let ?m = "rmap (\<lambda>rid. get_req rid s) (running s)"
    from eq Some True obtain rs where "?m = Ok rs" by (cases ?m) simp_all
    then show ?thesis using eq Some True by auto
  qed (use eq True in simp)
next
  case False
  then have "s' = s" using assms by (simp add: make_stats_def)
  then show ?thesis by (intro exI [of _ "s_kv s"]) simp
qed

lemma attach_stats_frame:
  assumes "attach_stats spec outs s = Ok (outs', s')"
  shows "\<exists>k. s' = s\<lparr>s_kv := k\<rparr>"
proof (cases outs)
  case Nil
  then have "s' = s" using assms by (simp add: attach_stats_def)
  then show ?thesis by (intro exI [of _ "s_kv s"]) simp
next
  case (Cons x xs)
  obtain c e where x: "x = (c, e)" by (cases x)
  note eq = assms [unfolded attach_stats_def Cons x list.case prod.case]
  from eq obtain st s1 where m: "make_stats spec s = Ok (st, s1)" by (cases "make_stats spec s") auto
  then have "s' = s1" using eq by simp
  then show ?thesis using make_stats_frame [OF m] by simp
qed

lemma update_from_output_keeps:
  assumes "update_from_output async env out mro s = Ok (outs, s')" and "sched_wf s"
  shows "sched_wf s' \<and> s_cfg s' = s_cfg s \<and> length (running s') \<le> length (running s)"
proof -
  let ?acc = "\<lparr>up_s = s, up_outputs = [], up_spec = None, up_stopped_running = [], up_stopped_preempted = []\<rparr>"
  from assms(1) obtain acc s1 s2 outs2 where
    u: "rfold (update_one async env out mro) (so_num_scheduled_tokens out) ?acc = Ok acc" and r: "remove_stopped acc = Ok s1"
    and k: "update_from_kv_xfer_finished (or_empty (mr_finished_recving mro)) (or_empty (mr_finished_sending mro)) s1 = Ok s2"
    and a: "attach_stats (up_spec acc) outs2 (s2\<lparr>finished_req_ids_dict := map_option (\<lambda>_. []) (finished_req_ids_dict s2)\<rparr>) = Ok (outs, s')"
    unfolding update_from_output_def Let_def res_simps by blast
  have u': "stopped_ok acc \<and> running (up_s acc) = running s \<and> s_cfg (up_s acc) = s_cfg s"
    using update_all_keeps [OF u] assms(2) by (simp add: but_wf_start)
  note r' = remove_stopped_keeps [OF r conjunct1 [OF u']]
  note k' = kv_xfer_keeps [OF k conjunct1 [OF r']]
  obtain km where s': "s' = s2\<lparr>finished_req_ids_dict := map_option (\<lambda>_. []) (finished_req_ids_dict s2), s_kv := km\<rparr>"
    using attach_stats_frame [OF a] by auto
  have "sched_wf s'" unfolding sched_wf_def
    by (rule queues_wf_frame [OF conjunct1 [OF k', unfolded sched_wf_def]]) (simp_all add: s')
  then show ?thesis using u' r' k' s' by simp
qed

section \<open>Finishing and adding requests\<close>

lemma remove_running_all:
  "rfold (\<lambda>r s. rbind (list_remove (request_id r) (running s)) (\<lambda>rs. Ok (s\<lparr>running := rs\<rparr>))) rs s = Ok s' \<Longrightarrow> distinct (running s) \<Longrightarrow>
   s' = s\<lparr>running := filter (\<lambda>x. x \<notin> request_id ` set rs) (running s)\<rparr>"
proof (induction rs arbitrary: s)
  case Nil
  then show ?case by (cases s) simp
next
  case (Cons r rs)
  let ?s = "s\<lparr>running := remove1 (request_id r) (running s)\<rparr>"
  have "rfold (\<lambda>r s. rbind (list_remove (request_id r) (running s)) (\<lambda>rs. Ok (s\<lparr>running := rs\<rparr>))) rs ?s = Ok s'"
    using Cons.prems(1) by (auto simp: res_simps list_remove_eq)
  from Cons.IH [OF this] Cons.prems(2) have "s' = s\<lparr>running := filter (\<lambda>x. x \<notin> request_id ` set rs) (remove1 (request_id r) (running s))\<rparr>"
    by simp
  moreover have "filter (\<lambda>x. x \<notin> request_id ` set rs) (remove1 (request_id r) (running s)) = filter (\<lambda>x. x \<notin> request_id ` set (r # rs)) (running s)"
    using Cons.prems(2) by (auto simp: distinct_remove1_removeAll removeAll_filter_not_eq intro: filter_cong)
  ultimately show ?case by simp
qed

lemma free_all_keeps:
  assumes "rfold (\<lambda>r s. let r' = r\<lparr>status := st\<rparr> in rbind (free_request env r' (put_req r' s)) (\<lambda>(_, s'). Ok s')) rs s = Ok s'"
    and "sched_wf s" and "\<forall>r \<in> set rs. request_id r \<notin> set (running s) \<and> request_id r \<notin># waiting_ids (waiting s)"
  shows "sched_wf s' \<and> running s' = running s \<and> waiting s' = waiting s \<and> s_cfg s' = s_cfg s"
proof (rule rfold_invariant [OF assms(1)])
  fix r s1 s2
  assume r: "r \<in> set rs" and i: "sched_wf s1 \<and> running s1 = running s \<and> waiting s1 = waiting s \<and> s_cfg s1 = s_cfg s"
    and st: "(let r' = r\<lparr>status := st\<rparr> in rbind (free_request env r' (put_req r' s1)) (\<lambda>(_, s'). Ok s')) = Ok s2"
  let ?r = "r\<lparr>status := st\<rparr>"
  from st obtain ps where f: "free_request env ?r (put_req ?r s1) = Ok (ps, s2)"
    by (cases "free_request env ?r (put_req ?r s1)") (auto simp: Let_def)
  note fr = free_request_frame [OF f]
  have "sched_wf s2"
    by (rule sched_wf_off_queue [of s1 "request_id r"])
      (use i r assms(3) fr in \<open>auto simp: update_conv' delete_conv' sched_wf_def queues_wf_def split: if_splits\<close>)
  then show "sched_wf s2 \<and> running s2 = running s \<and> waiting s2 = waiting s \<and> s_cfg s2 = s_cfg s" using fr i by simp
qed (use assms(2) in simp)

lemma map_filter_set: "y \<in> set (List.map_filter f xs) \<longleftrightarrow> (\<exists>x \<in> set xs. f x = Some y)"
  by (induction xs) (auto simp: List.map_filter_simps split: option.split)

lemma remove_waiting_all:
  assumes "(if rs = [] then Ok s else rbind (remove_requests (map request_id rs) (waiting s)) (\<lambda>q. Ok (s\<lparr>waiting := q\<rparr>))) = Ok s'"
  shows "requests s' = requests s \<and> running s' = running s \<and> s_cfg s' = s_cfg s \<and>
    waiting_ids (waiting s') = filter_mset (\<lambda>x. x \<notin> request_id ` set rs) (waiting_ids (waiting s))"
  using assms by (cases "rs = []") (auto simp: res_simps dest!: waiting_ids_remove)

lemma finish_named:
  fixes ids :: "string list" and s :: scheduler
  defines "valid \<equiv> List.map_filter (map_of (requests s)) (remdups ids)"
  assumes "sched_wf s"
  shows "rid \<in> set (running s) \<Longrightarrow> rid \<in> request_id ` set (filter (\<lambda>r. status r = RUNNING) valid) \<longleftrightarrow> rid \<in> set ids"
    and "rid \<in># waiting_ids (waiting s) \<Longrightarrow> rid \<in> request_id ` set (filter (\<lambda>r. status r \<noteq> RUNNING) valid) \<longleftrightarrow> rid \<in> set ids"
proof -
  note wf = assms(2) [unfolded sched_wf_def]
  have idm: "\<And>x y. map_of (requests s) x = Some y \<Longrightarrow> request_id y = x"
    by (rule but_wfD(3) [OF assms(2) [unfolded but_wf_start]])
  {
    assume rid: "rid \<in> set (running s)"
    obtain r where r: "map_of (requests s) rid = Some r" "request_id r = rid" "status r = RUNNING"
      using rid wf unfolding queues_wf_def by fastforce
    then show "rid \<in> request_id ` set (filter (\<lambda>r. status r = RUNNING) valid) \<longleftrightarrow> rid \<in> set ids"
      using idm unfolding valid_def by (auto simp: map_filter_set image_iff)
  next
    assume rid: "rid \<in># waiting_ids (waiting s)"
    obtain r where r: "map_of (requests s) rid = Some r" "request_id r = rid" "status r \<noteq> RUNNING"
      using rid wf unfolding queues_wf_def by (fastforce simp: status_waiting_def)
    then show "rid \<in> request_id ` set (filter (\<lambda>r. status r \<noteq> RUNNING) valid) \<longleftrightarrow> rid \<in> set ids"
      using idm unfolding valid_def by (auto simp: map_filter_set image_iff)
  }
qed

lemma finish_requests_keeps:
  assumes "finish_requests env ids st s = Ok s'" and "sched_wf s"
  shows "sched_wf s' \<and> s_cfg s' = s_cfg s \<and> running s' = filter (\<lambda>rid. rid \<notin> set ids) (running s) \<and>
    waiting_ids (waiting s') = filter_mset (\<lambda>rid. rid \<notin> set ids) (waiting_ids (waiting s))"
proof -
  let ?valid = "List.map_filter (map_of (requests s)) (remdups ids)"
  let ?run = "filter (\<lambda>r. status r = RUNNING) ?valid" and ?wait = "filter (\<lambda>r. status r \<noteq> RUNNING) ?valid"
  note eq = assms(1) [unfolded finish_requests_def Let_def]
  from eq obtain s1 s2 where
    s1: "rfold (\<lambda>r s. rbind (list_remove (request_id r) (running s)) (\<lambda>rs. Ok (s\<lparr>running := rs\<rparr>))) ?run s = Ok s1"
    and s2: "(if ?wait = [] then Ok s1 else rbind (remove_requests (map request_id ?wait) (waiting s1)) (\<lambda>q. Ok (s1\<lparr>waiting := q\<rparr>))) = Ok s2"
    and s3: "rfold (\<lambda>r s. let r' = r\<lparr>status := st\<rparr> in rbind (free_request env r' (put_req r' s)) (\<lambda>(_, s'). Ok s')) ?valid s2 = Ok s'"
    unfolding res_simps Let_def by blast
  note wf = assms(2) [unfolded sched_wf_def]
  have r1: "s1 = s\<lparr>running := filter (\<lambda>x. x \<notin> request_id ` set ?run) (running s)\<rparr>"
    by (rule remove_running_all [OF s1 queues_wfD(3) [OF wf]])
  have q: "requests s2 = requests s" "running s2 = running s1" "s_cfg s2 = s_cfg s"
      "waiting_ids (waiting s2) = filter_mset (\<lambda>x. x \<notin> request_id ` set ?wait) (waiting_ids (waiting s))"
    using remove_waiting_all [OF s2] by (simp_all add: r1)
  have but: "but_wf s (request_id ` set ?run) (request_id ` set ?wait)"
    using assms(2) [unfolded but_wf_start] by (auto simp: but_wf_def)
  have wf2: "sched_wf s2" by (rule but_wf_remove [OF but]) (simp_all add: q r1)
  have off: "\<forall>r \<in> set ?valid. request_id r \<notin> set (running s2) \<and> request_id r \<notin># waiting_ids (waiting s2)"
  proof
    fix r assume r: "r \<in> set ?valid"
    then obtain rid where m: "map_of (requests s) rid = Some r" by (auto simp: map_filter_set)
    note d = but_wfD [OF assms(2) [unfolded but_wf_start] m]
    have "status_waiting RUNNING = False" by (simp add: status_waiting_def)
    then show "request_id r \<notin> set (running s2) \<and> request_id r \<notin># waiting_ids (waiting s2)"
      using r d by (cases "status r = RUNNING") (auto simp: q r1)
  qed
  note f = free_all_keeps [OF s3 wf2 off]
  have "running s' = filter (\<lambda>rid. rid \<notin> set ids) (running s)"
    using f finish_named(1) [OF assms(2)] by (auto simp: q r1 intro!: filter_cong)
  moreover have "waiting_ids (waiting s') = filter_mset (\<lambda>rid. rid \<notin> set ids) (waiting_ids (waiting s))"
    using f finish_named(2) [OF assms(2)] by (auto simp: q intro!: filter_mset_cong)
  ultimately show ?thesis using f q(3) by simp
qed

lemma add_request_keeps:
  assumes "sched_add_request env r s = Ok s'" and "sched_wf s" and "map_of (requests s) (request_id r) = None" and "status_waiting (status r)"
  shows "sched_wf s' \<and> s_cfg s' = s_cfg s \<and> running s' = running s"
proof -
  obtain q where q: "add_request_q (entry_of r) (waiting s) = Ok q"
      "s' = put_req (if sc_log_stats (s_cfg s) then record_event QUEUED (ev_now env) r else r) (s\<lparr>waiting := q\<rparr>)"
    using assms(1) by (auto simp: sched_add_request_def res_simps)
  let ?r = "if sc_log_stats (s_cfg s) then record_event QUEUED (ev_now env) r else r" and ?id = "request_id r"
  have r: "request_id ?r = ?id" "status ?r = status r" by (simp_all add: record_event_def)
  note wf = assms(2) [unfolded sched_wf_def queues_wf_def]
  have w: "waiting_ids q = add_mset ?id (waiting_ids (waiting s))" by (simp add: waiting_ids_def queue_add_mset [OF q(1)])
  have new: "?id \<notin> set (running s)" "?id \<notin># waiting_ids (waiting s)" using wf assms(3) by fastforce+
  have "once (mset (running s) + waiting_ids q)"
    using wf new unfolding w once_def by (auto simp: not_in_iff)
  moreover have "map_of (requests s') x = (if x = ?id then Some ?r else map_of (requests s) x)" for x
    using q(2) r(1) by (simp add: update_conv')
  ultimately have "sched_wf s'"
    using wf new assms(4) q(2) r w unfolding sched_wf_def queues_wf_def by auto
  then show ?thesis by (simp add: q(2))
qed

end
