(* ===== verification/Scheduler_Properties.thy ===== *)
theory Scheduler_Properties
  imports Scheduler_Update
begin

text \<open>
  The properties of the scheduler: histories of a scheduler, and what holds in every state and
  every step.  The witnesses run the scheduler of a small configuration on two requests.
\<close>

section \<open>Histories\<close>

text \<open>
  A scheduler after its construction and any calls of its operations.  A request that is added
  is new to the scheduler and not finished.
\<close>

inductive sched_reach :: "bool \<Rightarrow> scheduler \<Rightarrow> bool" for async where
  start: "Scheduler_init su cfg fin log = Ok s \<Longrightarrow> 0 \<le> su_max_num_seqs su \<Longrightarrow> 0 \<le> mm_max_num_batched_tokens (su_mm su) \<Longrightarrow>
    sched_reach async s"
| add: "sched_reach async s \<Longrightarrow> map_of (requests s) (request_id r) = None \<Longrightarrow> status r \<in> {WAITING, WAITING_FOR_FSM} \<Longrightarrow>
    sched_add_request env r s = Ok s' \<Longrightarrow> sched_reach async s'"
| step: "sched_reach async s \<Longrightarrow> schedule async env s = Ok (out, evs, s') \<Longrightarrow> sched_reach async s'"
| update: "sched_reach async s \<Longrightarrow> update_from_output async env out mro s = Ok (outs, s') \<Longrightarrow> sched_reach async s'"
| finish: "sched_reach async s \<Longrightarrow> finish_requests env ids st s = Ok s' \<Longrightarrow> sched_reach async s'"
| reset: "sched_reach async s \<Longrightarrow> sched_reset_prefix_cache s = Ok (b, s') \<Longrightarrow> sched_reach async s'"

definition sched_inv :: "scheduler \<Rightarrow> bool" where
  "sched_inv s \<longleftrightarrow> sched_wf s \<and> 0 \<le> max_num_scheduled_tokens (s_cfg s) \<and>
     int (length (running s)) \<le> max_num_running_reqs (s_cfg s)"

lemma Scheduler_init_cases:
  assumes "Scheduler_init su cfg fin log = Ok s"
  obtains "requests s = []" and "running s = []" and "queue_mset (waiting s) = {#}"
    and "max_num_running_reqs (s_cfg s) = su_max_num_seqs su"
    and "max_num_scheduled_tokens (s_cfg s) = mm_max_num_batched_tokens (su_mm su)"
  using assms by (auto simp: Scheduler_init_def res_simps Let_def split: if_splits)

lemma sched_reach_inv: "sched_reach async s \<Longrightarrow> sched_inv s"
proof (induction rule: sched_reach.induct)
  case (start su cfg fin log s)
  from start(1) show ?case
    by (rule Scheduler_init_cases)
      (use start in \<open>simp add: sched_inv_def sched_wf_def queues_wf_def waiting_ids_def once_def\<close>)
next
  case (add s r env s')
  have "status_waiting (status r)" using add.hyps(3) by (auto simp: status_waiting_def)
  from add_request_keeps [OF add.hyps(4) _ add.hyps(2) this] add.IH show ?case by (simp add: sched_inv_def)
next
  case (step s env out evs s')
  from schedule_keeps [OF step.hyps(2)] step.IH show ?case by (auto simp: sched_inv_def)
next
  case (update s env out mro outs s')
  from update_from_output_keeps [OF update.hyps(2)] update.IH show ?case by (auto simp: sched_inv_def)
next
  case (finish s env ids st s')
  then have wf: "sched_wf s" by (simp add: sched_inv_def)
  note keeps = finish_requests_keeps [OF finish.hyps(2) wf]
  have "sched_wf s'" "s_cfg s' = s_cfg s" "length (running s') \<le> length (running s)" using keeps by simp_all
  with finish.IH show ?case by (simp add: sched_inv_def)
next
  case (reset s b s')
  then obtain k where "s' = s\<lparr>s_kv := k\<rparr>" by (auto simp: sched_reset_prefix_cache_def res_simps)
  moreover have "queues_wf (s\<lparr>s_kv := k\<rparr>) {#}" for k
    by (rule queues_wf_frame [of s]) (use reset.IH in \<open>simp_all add: sched_inv_def sched_wf_def\<close>)
  ultimately show ?case using reset.IH by (simp add: sched_inv_def sched_wf_def)
qed

section \<open>A sample run\<close>

definition sample_setup :: sched_setup where
  "sample_setup = \<lparr>su_max_num_seqs = 4, su_max_model_len = 100, su_long_prefill = 0, su_chunked_prefill = True,
     su_mm = \<lparr>disable_chunked_mm_input = False, mm_max_num_batched_tokens = 8, max_num_encoder_input_tokens = 0, cfg_encoder_cache_size = 0\<rparr>,
     su_max_loras = None, su_policy = ''fcfs'', su_pipeline_parallel_size = 1, su_kv_transfer = False, su_kv_events = False,
     su_num_gpu_blocks = Some 5, su_block_size = 4, su_enable_prefix_caching = False, su_num_speculative_tokens = None,
     su_eagle = False, su_is_multimodal = False, su_max_tokens_by_modality = []\<rparr>"

definition sample_env :: sched_env where
  "sample_env = \<lparr>ev_matched = (\<lambda>_ _. (0, False)), ev_request_finished = (\<lambda>_ _. (False, None)), ev_grammar_ready = (\<lambda>_. False),
     ev_should_advance = (\<lambda>_. False), ev_validate_tokens = (\<lambda>_ ts. ts), ev_now = 0, ev_nh = 0, ev_hf = (\<lambda>_. 1)\<rparr>"

lemma plain_manager:
  obtains k m where "KVCacheManager_init sample_config 100 False False False False = Ok k" and "kv_reach nh hf k"
    and "\<not> km_enable_caching k" and "\<not> enable_caching (km_pool k)" and "km_max_model_len k = 100" and "co_managers (km_coord k) = [m]"
    and "kv_cache_groups (km_config k) = kv_cache_groups sample_config" and "co_kind (km_coord k) = NoPrefixCache"
    and "mgr_spec m = group_spec (hd (kv_cache_groups sample_config))" and "req_to_blocks m = []" and "num_cached_block m = []"
    and "num_gpu_blocks (km_pool k) = 5" and "km_num_groups k = 1"
proof -
  obtain p where p: "BlockPool_init 5 False False = Ok p" "enable_caching p = False" "num_gpu_blocks p = 5"
    by (rule BlockPool_init_spec [of 5 False False]) simp_all
  let ?k = "case KVCacheManager_init sample_config 100 False False False False of Ok k \<Rightarrow> k"
  have init: "KVCacheManager_init sample_config 100 False False False False = Ok ?k"
    by (simp add: KVCacheManager_init_def sample_config_def get_kv_cache_coordinator_def KVCacheCoordinator_init_def p(1))
  moreover have "kv_reach nh hf ?k"
    by (rule kv_reach.start [OF init]) (simp add: sample_config_def good_spec_def)
  ultimately show thesis using p
    by (intro that [of ?k "get_manager_for_kv_cache_spec (group_spec (hd (kv_cache_groups sample_config))) 0"])
      (simp_all add: KVCacheManager_init_def sample_config_def get_kv_cache_coordinator_def KVCacheCoordinator_init_def
        make_managers_def get_manager_for_kv_cache_spec_def)
qed

lemma plain_allocation:
  assumes "kv_reach nh hf k" and "\<not> km_enable_caching k" and "\<not> enable_caching (km_pool k)" and "km_max_model_len k = 100"
    and "co_managers (km_coord k) = [m]" and "mgr_spec m = group_spec (hd (kv_cache_groups sample_config))" and "req_to_blocks m = []"
    and "num_cached_block m = []" and "num_gpu_blocks (km_pool k) = 5"
  obtains bs k' where "allocate_slots nh hf (sample_request ''a'' [1, 2, 3, 4, 5]) 5 0 (Some [[]]) 0 False k = Ok (Some bs, k')"
    and "same_km k k'"
proof -
  let ?r = "sample_request ''a'' [1, 2, 3, 4, 5]"
  have hits: "hits_given (Some [[]]) k = [[]]" by (simp add: hits_given_def)
  have rid: "request_id ?r = ''a''" "num_computed_tokens ?r = 0" "num_tokens ?r = 5" by (simp_all add: sample_request_def num_tokens_def)
  have need: "slots_needed ?r 5 0 0 k = 5" by (simp add: slots_needed_def assms(4) rid)
  have spec: "mgr_block_size m = 4" "\<not> is_mamba (mgr_spec m)" "good_spec (mgr_spec m)"
    by (simp_all add: assms(6) sample_config_def good_spec_def)
  have asked: "slots_asked ?r 5 0 (hits_given (Some [[]]) k) 0 k"
    unfolding slots_asked_def hits need
    by (simp add: hits_usable_def balanced_def mamba_fits_def skip_ok_def tokens_to_cache_def group_need_def list_of_def
        assms(3,5,7,8) rid spec cdiv_def)
  obtain xs where st: "km_state k xs" using kv_reach_state [OF assms(1)] by blast
  have "\<exists>res c. reserve_slots (request_id ?r) (num_computed_tokens ?r) (slots_needed ?r 5 0 0 k) (hits_given (Some [[]]) k)
        (km_enable_caching k) (km_coord k) = Ok (res, c)"
    by (rule reserve_slots_done [OF st asked]) blast
  then obtain res k' where a: "allocate_slots nh hf ?r 5 0 (Some [[]]) 0 False k = Ok (res, k')"
    using allocate_slots_eq [of 5 ?r 0 0 k "Some [[]]"] assms(2) by fastforce
  obtain ys where st': "km_state k' ys" and d: "allocation_done ?r 5 [[]] k res k'"
    using allocate_slots_keeps [OF st asked a] by (auto simp: need hits)
  have same: "same_km k k'" using d by (simp add: allocation_done_def)
  show thesis
  proof (cases res)
    case None
    have "\<forall>m' \<in> set (co_managers (km_coord k')). \<forall>x. blocks_of x m' = []"
    proof -
      obtain m' where m': "co_managers (km_coord k') = [m']"
        using same assms(5) by (auto simp: same_km_def same_coord_def length_Suc_conv)
      have "blocks_of x m' = []" for x
        using d None assms(5,7) m' by (cases "x = ''a''") (auto simp: allocation_done_def rid list_of_def)
      then show ?thesis using m' by simp
    qed
    note held = km_held_empty [OF st' this]
    have "get_num_free_blocks (km_pool k') = num_gpu_blocks (km_pool k') - 1"
      using ledger_accounting [OF km_state_pool(1) [OF st', unfolded held]] by simp
    also have "\<dots> = 4" using same assms(9) by (simp add: same_km_def same_coord_def same_pool_def)
    finally have False using d None
      by (simp add: allocation_done_def blocks_missing_def rid assms(5,7) group_need_def evictable_def spec list_of_def cdiv_def)
    then show thesis ..
  next
    case (Some bs)
    then show thesis using a same that by blast
  qed
qed

definition sample_cfg :: sched_config where
  "sample_cfg = \<lparr>max_num_running_reqs = 4, max_num_scheduled_tokens = 8, sc_max_model_len = 100, long_prefill_token_threshold = 0,
     chunked_prefill_enabled = True, no_chunked_mm_input = False, max_loras = None, sc_policy = FCFS, sc_log_stats = False,
     use_pp = False, has_connector = False, sc_block_size = 4, num_lookahead_tokens = 0, sc_num_spec_tokens = 0, max_num_encoder_tokens = 0\<rparr>"

text \<open>The state of the sample scheduler with the requests \<open>rs\<close> waiting.\<close>

definition sample_state :: "kv_cache_manager \<Rightarrow> request list \<Rightarrow> scheduler" where
  "sample_state k rs = \<lparr>s_cfg = sample_cfg, requests = map (\<lambda>r. (request_id r, r)) rs, waiting = FCFSQueue (map entry_of rs), running = [],
     finished_req_ids = [], finished_req_ids_dict = None, finished_recving_kv_req_ids = [], s_enc = EncoderCacheManager_init 0, s_kv = k\<rparr>"

lemma sample_state_simps [simp]:
  "s_cfg (sample_state k rs) = sample_cfg" "requests (sample_state k rs) = map (\<lambda>r. (request_id r, r)) rs"
  "waiting (sample_state k rs) = FCFSQueue (map entry_of rs)" "running (sample_state k rs) = []" "s_kv (sample_state k rs) = k"
  "s_enc (sample_state k rs) = EncoderCacheManager_init 0"
  by (simp_all add: sample_state_def)

lemma sample_scheduler:
  assumes "KVCacheManager_init sample_config 100 False False False False = Ok k"
  shows "Scheduler_init sample_setup sample_config False False = Ok (sample_state k [])"
  using assms by (simp add: Scheduler_init_def sample_setup_def compute_encoder_budget_def sample_state_def sample_cfg_def create_request_queue_def)

lemma sample_state_add:
  "(sample_state k rs)\<lparr>waiting := FCFSQueue (map entry_of (rs @ [r])), requests := map (\<lambda>r. (request_id r, r)) (rs @ [r])\<rparr> = sample_state k (rs @ [r])"
  by (simp add: sample_state_def)

lemma sample_nolog [simp]: "sc_log_stats sample_cfg = False" by (simp add: sample_cfg_def)

lemma sample_add:
  assumes "request_id r \<notin> request_id ` set rs"
  shows "sched_add_request sample_env r (sample_state k rs) = Ok (sample_state k (rs @ [r]))"
proof -
  have "request_id r \<notin> fst ` set (map (\<lambda>r. (request_id r, r)) rs)" using assms by force
  note u = update_fresh [OF this, of r]
  have "sched_add_request sample_env r (sample_state k rs) = Ok (put_req r ((sample_state k rs)\<lparr>waiting := FCFSQueue (map entry_of (rs @ [r]))\<rparr>))"
   by (simp add: sched_add_request_def)
  then show ?thesis unfolding put_req_def using u sample_state_add [where k = k and rs = rs and r = r] by simp
qed

lemma sample_reach:
  assumes "KVCacheManager_init sample_config 100 False False False False = Ok k"
    and "distinct (map request_id rs)" and "\<forall>r \<in> set rs. status r \<in> {WAITING, WAITING_FOR_FSM}"
  shows "sched_reach async (sample_state k rs)"
  using assms(2,3)
proof (induction rs rule: rev_induct)
  case Nil
  show ?case by (rule sched_reach.start [OF sample_scheduler [OF assms(1)]]) (simp_all add: sample_setup_def)
next
  case (snoc r rs)
  have "sched_reach async (sample_state k rs)" by (rule snoc.IH) (use snoc.prems in simp_all)
  moreover have "map_of (requests (sample_state k rs)) (request_id r) = None"
    using snoc.prems(1) by (auto simp: map_of_eq_None_iff)
  moreover have "status r \<in> {WAITING, WAITING_FOR_FSM}" using snoc.prems(2) by simp
  moreover have "sched_add_request sample_env r (sample_state k rs) = Ok (sample_state k (rs @ [r]))"
    by (rule sample_add) (use snoc.prems(1) in simp)
  ultimately show ?case by (rule sched_reach.add)
qed

lemma sample_sched_inv:
  assumes "KVCacheManager_init sample_config 100 False False False False = Ok k"
    and "distinct (map request_id rs)" and "\<forall>r \<in> set rs. status r \<in> {WAITING, WAITING_FOR_FSM}"
  shows "sched_wf (sample_state k rs)" and "0 \<le> max_num_scheduled_tokens (s_cfg (sample_state k rs))"
    and "int (length (running (sample_state k rs))) \<le> max_num_running_reqs (s_cfg (sample_state k rs))"
  using sched_reach_inv [OF sample_reach [OF assms, of False]] by (simp_all add: sched_inv_def)

text \<open>A request of five tokens is admitted with all of them.\<close>

abbreviation five :: request where
  "five \<equiv> sample_request ''a'' [1, 2, 3, 4, 5]"

lemma five_simps:
  "request_id five = ''a''" "status five = WAITING" "num_computed_tokens five = 0" "num_tokens five = 5" "lora five = None"
  "has_encoder_inputs five = False" "num_cached_tokens five = -1" "use_structured_output five = False" "sampling five \<noteq> None"
  "entry_of five = \<lparr>e_priority = 0, e_arrival = 0, e_request = ''a''\<rparr>"
  by (simp_all add: sample_request_def num_tokens_def has_encoder_inputs_def use_structured_output_def entry_of_def)

lemma sample_cfg_simps [simp]:
  "max_num_running_reqs sample_cfg = 4" "max_num_scheduled_tokens sample_cfg = 8" "sc_max_model_len sample_cfg = 100"
  "long_prefill_token_threshold sample_cfg = 0" "chunked_prefill_enabled sample_cfg" "max_loras sample_cfg = None"
  "sc_policy sample_cfg = FCFS" "\<not> has_connector sample_cfg" "num_lookahead_tokens sample_cfg = 0" "\<not> use_pp sample_cfg"
  "max_num_encoder_tokens sample_cfg = 0"
  by (simp_all add: sample_cfg_def)

lemma five_waits:
  assumes "\<not> km_enable_caching k" and "km_num_groups k = 1"
    and "allocate_slots 0 (\<lambda>_. 1) five 5 0 (Some [[]]) 0 False k = Ok (Some bs, k')"
  shows "\<exists>acc. schedule_waiting_one sample_env (acc_init (sample_state k [five])) = Ok (True, acc) \<and>
    ac_tokens acc = [(''a'', 5)] \<and> running (ac_s acc) = [''a''] \<and> ac_preempted acc = [] \<and> ac_budget acc = 3 \<and>
    ac_new acc = [''a''] \<and> ac_running acc = [] \<and> ac_resumed acc = [] \<and> (\<exists>bs. ac_blocks acc = [(''a'', bs)]) \<and>
    s_kv (ac_s acc) = k' \<and> requests (ac_s acc) = [(''a'', five\<lparr>status := RUNNING, num_computed_tokens := 0, num_cached_tokens := 0\<rparr>)] \<and>
    s_cfg (ac_s acc) = sample_cfg \<and> waiting (ac_s acc) = FCFSQueue [] \<and> ac_skipped acc = FCFSQueue [] \<and> ac_loras acc = []"
proof -
  let ?s = "sample_state k [five]" and ?acc = "acc_init (sample_state k [five])"
  have acc: "ac_s ?acc = ?s" "ac_loras ?acc = []" "ac_budget ?acc = 8" "ac_enc_budget ?acc = 0" "ac_tokens ?acc = []" "ac_blocks ?acc = []"
      "ac_new ?acc = []" "ac_resumed ?acc = []" "ac_running ?acc = []" "ac_preempted ?acc = []" "ac_skipped ?acc = FCFSQueue []" "ac_index ?acc = 0"
    by (simp_all add: acc_init_def create_request_queue_def)
  have upd: "?acc\<lparr>ac_s := ?s\<rparr> = ?acc" by (simp add: acc_init_def)
  have peek: "peek_request (waiting ?s) = Ok ''a''" by (simp add: five_simps)
  have get: "get_req ''a'' ?s = Ok five" by (simp add: get_req_def dict_get_def five_simps)
  have put: "put_req five ?s = ?s" by (simp add: put_req_def sample_state_def five_simps)
  have ready: "waiting_ready sample_env ''a'' [] ?s = Ok (True, ?s)"
    by (simp add: waiting_ready_def get put five_simps lora_blocked_def)
  let ?ct = "\<lparr>ct_blocks = [[]], ct_local = 0, ct_external = 0, ct_async = False, ct_total = 0\<rparr>"
  have kv: "?s\<lparr>s_kv := k\<rparr> = ?s" by (simp add: sample_state_def)
  have found: "find_computed sample_env five ?s = Ok (?ct, ?s)"
    using assms(1,2) by (simp add: find_computed_def get_computed_blocks_def create_empty_block_list_def five_simps kv)
  have toks: "waiting_tokens ?acc five ?ct = Ok (Go ([], 5, 0))"
    by (simp add: waiting_tokens_def acc five_simps encoder_choice_def)
  have env: "ev_nh sample_env = 0" "ev_hf sample_env = (\<lambda>_. 1)" by (simp_all add: sample_env_def)
  let ?s2 = "?s\<lparr>s_kv := k', waiting := FCFSQueue []\<rparr>"
  have place: "place_waiting sample_env ''a'' five ?ct (Go ([], 5, 0)) ?acc =
      rbind (admit sample_env ''a'' ?ct ([], 5, 0) (?acc\<lparr>ac_s := ?s2\<rparr>)) (\<lambda>acc'. Ok (True, acc'))"
    by (simp add: place_waiting_def acc env assms(3) five_simps Let_def)
  have "schedule_waiting_one sample_env ?acc = rbind (admit sample_env ''a'' ?ct ([], 5, 0) (?acc\<lparr>ac_s := ?s2\<rparr>)) (\<lambda>acc'. Ok (True, acc'))"
    by (simp add: schedule_waiting_one_def acc five_simps ready get found toks place upd)
  moreover have "get_req ''a'' ?s2 = Ok five" by (simp add: get_req_def dict_get_def five_simps)
  ultimately show ?thesis
    by (auto simp: admit_def acc five_simps record_scheduled_def put_req_def Let_def)
qed

lemma sample_admission:
  obtains k k' bs acc where "KVCacheManager_init sample_config 100 False False False False = Ok k" and "same_km k k'" and "co_kind (km_coord k) = NoPrefixCache"
    and "schedule_decide sample_env (sample_state k [five]) = Ok acc"
    and "ac_tokens acc = [(''a'', 5)]" and "running (ac_s acc) = [''a'']" and "ac_preempted acc = []" and "ac_budget acc = 3"
    and "ac_new acc = [''a'']" and "ac_running acc = []" and "ac_resumed acc = []" and "ac_blocks acc = [(''a'', bs)]"
    and "s_kv (ac_s acc) = k'" and "requests (ac_s acc) = [(''a'', five\<lparr>status := RUNNING, num_computed_tokens := 0, num_cached_tokens := 0\<rparr>)]"
    and "s_cfg (ac_s acc) = sample_cfg"
proof -
  obtain k m where k: "KVCacheManager_init sample_config 100 False False False False = Ok k" "kv_reach 0 (\<lambda>_. 1) k"
      "\<not> km_enable_caching k" "\<not> enable_caching (km_pool k)" "km_max_model_len k = 100" "co_managers (km_coord k) = [m]"
      "mgr_spec m = group_spec (hd (kv_cache_groups sample_config))" "req_to_blocks m = []" "num_cached_block m = []"
      "num_gpu_blocks (km_pool k) = 5" "km_num_groups k = 1" "co_kind (km_coord k) = NoPrefixCache"
    by (rule plain_manager)
  obtain bs k' where a: "allocate_slots 0 (\<lambda>_. 1) five 5 0 (Some [[]]) 0 False k = Ok (Some bs, k')" and same: "same_km k k'"
    by (rule plain_allocation [OF k(2-10)])
  obtain acc bs where w: "schedule_waiting_one sample_env (acc_init (sample_state k [five])) = Ok (True, acc)"
    "ac_tokens acc = [(''a'', 5)]" "running (ac_s acc) = [''a'']" "ac_preempted acc = []" "ac_budget acc = 3"
    "ac_new acc = [''a'']" "ac_running acc = []" "ac_resumed acc = []" "ac_blocks acc = [(''a'', bs)]"
    "s_kv (ac_s acc) = k'" "requests (ac_s acc) = [(''a'', five\<lparr>status := RUNNING, num_computed_tokens := 0, num_cached_tokens := 0\<rparr>)]"
    "s_cfg (ac_s acc) = sample_cfg" "waiting (ac_s acc) = FCFSQueue []" "ac_skipped acc = FCFSQueue []"
    using five_waits [OF k(3,11) a] by blast
  let ?acc = "acc_init (sample_state k [five])"
  have one: "schedule_running sample_env ?acc = Ok ?acc" by (subst schedule_running.simps) (simp add: acc_init_def)
  have two: "running_loras ?acc = Ok ?acc" by (simp add: running_loras_def acc_init_def)
  have last: "schedule_waiting sample_env acc = Ok acc" by (subst schedule_waiting.simps) (simp add: w queue_bool_def)
  have "schedule_waiting sample_env ?acc = Ok acc"
    by (subst schedule_waiting.simps) (simp add: w(1) last, simp add: acc_init_def queue_bool_def)
  then have "schedule_decide sample_env (sample_state k [five]) = Ok acc"
    by (simp add: schedule_decide_def one two put_back_skipped_def w queue_bool_def) (simp add: acc_init_def)
  then show thesis using that k same w by blast
qed

lemma sample_schedule:
  obtains k out evs s' where "KVCacheManager_init sample_config 100 False False False False = Ok k"
    and "schedule False sample_env (sample_state k [five]) = Ok (out, evs, s')" and "so_num_scheduled_tokens out = [(''a'', 5)]"
    and "get_req ''a'' s' = Ok (five\<lparr>status := RUNNING, num_computed_tokens := 5, num_cached_tokens := 0\<rparr>)"
proof -
  let ?r = "five\<lparr>status := RUNNING, num_computed_tokens := 0, num_cached_tokens := 0\<rparr>"
  obtain k k' bs acc where a: "KVCacheManager_init sample_config 100 False False False False = Ok k" "same_km k k'" "co_kind (km_coord k) = NoPrefixCache"
    "schedule_decide sample_env (sample_state k [five]) = Ok acc"
    "ac_tokens acc = [(''a'', 5)]" "running (ac_s acc) = [''a'']" "ac_preempted acc = []" "ac_budget acc = 3"
    "ac_new acc = [''a'']" "ac_running acc = []" "ac_resumed acc = []" "ac_blocks acc = [(''a'', bs)]"
    "s_kv (ac_s acc) = k'" "requests (ac_s acc) = [(''a'', ?r)]" "s_cfg (ac_s acc) = sample_cfg"
    by (rule sample_admission)
  let ?s = "ac_s acc"
  have hold: "constraints_hold acc" by (simp add: constraints_hold_def total_scheduled_def a)
  have get: "get_req ''a'' ?s = Ok ?r" by (simp add: get_req_def dict_get_def a)
  have "km_coord k' = (km_coord k)\<lparr>co_pool := km_pool k', co_managers := co_managers (km_coord k')\<rparr>"
    using a(2) unfolding same_km_def same_coord_def by blast
  then have "co_kind (km_coord k') = co_kind ((km_coord k)\<lparr>co_pool := km_pool k', co_managers := co_managers (km_coord k')\<rparr>)"
    by (rule arg_cong)
  then have kind: "co_kind (km_coord k') = NoPrefixCache" by (simp add: a(3))
  have kv: "k'\<lparr>km_coord := km_coord k'\<rparr> = k'" by simp
  obtain ns where pre: "common_prefix ?s = Ok (ns, ?s\<lparr>s_kv := k'\<rparr>)"
    by (simp add: common_prefix_def a get km_get_num_common_prefix_blocks_def co_get_num_common_prefix_blocks_def kind)
  let ?s1 = "?s\<lparr>s_kv := k'\<rparr>"
  have get1: "get_req ''a'' ?s1 = Ok ?r" using get by (simp add: get_req_def)
  have cached: "\<exists>c. make_cached_request_data (acc\<lparr>ac_s := ?s1\<rparr>) = Ok c" by (simp add: make_cached_request_data_def a Let_def)
  then obtain c where c: "make_cached_request_data (acc\<lparr>ac_s := ?s1\<rparr>) = Ok c" by blast
  obtain fr ec where e: "get_freed_ids (s_enc ?s1) = (fr, ec)" by (cases "get_freed_ids (s_enc ?s1)")
  obtain es k2 where k2: "km_take_events k' = (es, k2)" by (cases "km_take_events k'")
  have enc: "\<not> has_encoder_inputs (?r\<lparr>num_computed_tokens := x\<rparr>)" for x by (simp add: has_encoder_inputs_def sample_request_def)
  have adv: "update_after_schedule [(''a'', 5)] (?s1\<lparr>s_enc := ec, s_kv := k2\<rparr>) =
      Ok ((put_req (?r\<lparr>num_computed_tokens := 5\<rparr>) (?s1\<lparr>s_enc := ec, s_kv := k2\<rparr>))\<lparr>finished_req_ids := []\<rparr>)"
    using get1 enc by (simp add: update_after_schedule_def advance_request_def get_req_def Let_def)
  have "case schedule False sample_env (sample_state k [five]) of Err _ \<Rightarrow> False | Ok (out, evs, s') \<Rightarrow>
      so_num_scheduled_tokens out = [(''a'', 5)] \<and> get_req ''a'' s' = Ok (five\<lparr>status := RUNNING, num_computed_tokens := 5, num_cached_tokens := 0\<rparr>)"
    using hold pre get1 c e k2 adv
    by (simp add: schedule_def a Let_def dict_get_def put_req_def get_req_def update_conv' five_simps)
  then show thesis using that [OF a(1)] by (auto split: res.splits)
qed

section \<open>Properties\<close>

text \<open>
  C1.  The queues of the scheduler are consistent in every state it reaches by adding,
  scheduling, updating, finishing and resetting, with either policy and either subclass: no
  request is in a queue twice or in both, every id in a queue has its request object, running
  requests have status \<open>RUNNING\<close>, waiting ones a waiting status, and there are never more
  running requests than allowed.
\<close>

theorem scheduler_queues_consistent:
  assumes "sched_reach async s"
  shows "distinct (running s) \<and> (\<forall>rid. count (waiting_ids (waiting s)) rid \<le> 1) \<and>
    set (running s) \<inter> set_mset (waiting_ids (waiting s)) = {} \<and>
    (\<forall>rid \<in> set (running s). \<exists>r. get_req rid s = Ok r \<and> request_id r = rid \<and> status r = RUNNING) \<and>
    (\<forall>rid \<in># waiting_ids (waiting s). \<exists>r. get_req rid s = Ok r \<and> request_id r = rid \<and>
       status r \<in> {WAITING, WAITING_FOR_FSM, WAITING_FOR_REMOTE_KVS, PREEMPTED}) \<and>
    int (length (running s)) \<le> max_num_running_reqs (s_cfg s)"
proof -
  have i: "queues_wf s {#}" "int (length (running s)) \<le> max_num_running_reqs (s_cfg s)"
    using sched_reach_inv [OF assms] by (simp_all add: sched_inv_def sched_wf_def)
  have o: "once (mset (running s) + waiting_ids (waiting s))" using i(1) by (simp add: queues_wf_def)
  have "distinct (running s)" "\<forall>rid. count (waiting_ids (waiting s)) rid \<le> 1" "set (running s) \<inter> set_mset (waiting_ids (waiting s)) = {}"
    using once_plusD [OF o] once_mset by (auto simp: once_def)
  then show ?thesis using i by (auto simp: queues_wf_def get_req_Ok status_waiting_def)
qed

lemma scheduler_queues_consistent_witness:
  "\<exists>k. KVCacheManager_init sample_config 100 False False False False = Ok k \<and>
     (\<forall>rid \<in># waiting_ids (waiting (sample_state k [five])). \<exists>r. get_req rid (sample_state k [five]) = Ok r \<and> request_id r = rid)"
proof -
  obtain k m where k: "KVCacheManager_init sample_config 100 False False False False = Ok k" by (rule plain_manager)
  have "sched_reach False (sample_state k [five])" by (rule sample_reach [OF k]) (simp_all add: five_simps)
  from scheduler_queues_consistent [OF this] k show ?thesis by blast
qed

text \<open>
  C4.  The assertions at the end of a scheduling step never fail: under first come first
  served, or when nothing was preempted, the tokens given and the budget that is left add up
  to the limit, the budget is not negative, and no more requests are scheduled than run.
\<close>

theorem schedule_assertions_hold:
  assumes "sched_reach async s" and "schedule_decide env s = Ok acc"
    and "sc_policy (s_cfg s) = FCFS \<or> ac_preempted acc = []"
  shows "constraints_hold acc \<and> total_scheduled acc + ac_budget acc = max_num_scheduled_tokens (s_cfg s)"
proof -
  have i: "sched_wf s" "0 \<le> max_num_scheduled_tokens (s_cfg s)" "int (length (running s)) \<le> max_num_running_reqs (s_cfg s)"
    using sched_reach_inv [OF assms(1)] by (simp_all add: sched_inv_def)
  show ?thesis using schedule_decide_constraints [OF assms(2) i assms(3)] schedule_decide_spec(3) [OF assms(2) i]
    by (simp add: tokens_inv_def)
qed

lemma schedule_assertions_hold_witness:
  "\<exists>k acc. KVCacheManager_init sample_config 100 False False False False = Ok k \<and>
     schedule_decide sample_env (sample_state k [five]) = Ok acc \<and> constraints_hold acc \<and> total_scheduled acc + 3 = 8"
proof -
  obtain k k' bs acc where a: "KVCacheManager_init sample_config 100 False False False False = Ok k"
    "schedule_decide sample_env (sample_state k [five]) = Ok acc" "ac_budget acc = 3" by (rule sample_admission)
  have "sched_reach False (sample_state k [five])" by (rule sample_reach [OF a(1)]) (simp_all add: five_simps)
  from schedule_assertions_hold [OF this a(2)] a show ?thesis by auto
qed

text \<open>
  C7.  First come first served.  If a step preempts, it takes running requests from
  the end of the list and puts them in front of the waiting ones, so that the running followed
  by the waiting requests are in the same order as before.  Otherwise it goes through a
  beginning of the waiting queue, admits some requests, in their order and behind those that
  run, and skips the others; the skipped ones go back to the front, in reverse order.
\<close>

theorem fcfs_service_order:
  assumes "sched_reach async s" and "sc_policy (s_cfg s) = FCFS" and "waiting s = FCFSQueue ws" and "schedule_decide env s = Ok acc"
  shows "(ac_preempted acc \<noteq> [] \<longrightarrow> running s = running (ac_s acc) @ rev (ac_preempted acc) \<and>
      running (ac_s acc) @ waiting_order (ac_s acc) = running s @ waiting_order s) \<and>
    (ac_preempted acc = [] \<longrightarrow> (\<exists>admitted skipped looked_at rest. running (ac_s acc) = running s @ admitted \<and>
      waiting_order s = looked_at @ rest \<and> looked_at \<in> shuffles admitted skipped \<and>
      waiting_order (ac_s acc) = rev skipped @ rest))"
proof -
  have i: "sched_wf s" "0 \<le> max_num_scheduled_tokens (s_cfg s)" "int (length (running s)) \<le> max_num_running_reqs (s_cfg s)"
    using sched_reach_inv [OF assms(1)] by (simp_all add: sched_inv_def)
  note f = fcfs_decide [OF assms(4) i assms(2,3)]
  show ?thesis using f(1) f(2) by auto
qed

text \<open>Two requests whose grammars are not compiled: the step swaps them.\<close>

abbreviation guided :: "string \<Rightarrow> request" where
  "guided rid \<equiv> (sample_request rid [1])\<lparr>status := WAITING_FOR_FSM\<rparr>"

lemma guided_skipped:
  assumes "waiting s = FCFSQueue (entry_of (guided rid) # es)" and "get_req rid s = Ok (guided rid)" and "ac_s acc = s" and "ac_skipped acc = FCFSQueue sk"
  shows "schedule_waiting_one sample_env acc =
    Ok (True, acc\<lparr>ac_s := s\<lparr>waiting := FCFSQueue es\<rparr>, ac_skipped := FCFSQueue (entry_of (guided rid) # sk)\<rparr>)"
proof -
  have "e_request (entry_of (guided rid)) = rid" by (simp add: sample_request_def)
  moreover have "waiting_ready sample_env rid (ac_loras acc) s = Ok (False, s)"
    by (simp add: waiting_ready_def assms(2) sample_env_def)
  ultimately show ?thesis using assms by (simp add: schedule_waiting_one_def skip_waiting_def)
qed

lemma guided_decide:
  "\<exists>acc. schedule_decide sample_env (sample_state k [guided ''a'', guided ''b'']) = Ok acc \<and> ac_preempted acc = [] \<and>
     running (ac_s acc) = [] \<and> waiting_order (ac_s acc) = [''b'', ''a'']"
proof -
  let ?s = "sample_state k [guided ''a'', guided ''b'']"
  let ?acc = "acc_init ?s" and ?a = "entry_of (guided ''a'')" and ?b = "entry_of (guided ''b'')"
  let ?acc1 = "?acc\<lparr>ac_s := ?s\<lparr>waiting := FCFSQueue [?b]\<rparr>, ac_skipped := FCFSQueue [?a]\<rparr>"
  let ?acc2 = "?acc\<lparr>ac_s := ?s\<lparr>waiting := FCFSQueue []\<rparr>, ac_skipped := FCFSQueue [?b, ?a]\<rparr>"
  have ids: "request_id (sample_request x [1]) = x" for x by (simp add: sample_request_def)
  have acc: "ac_s ?acc = ?s" "ac_skipped ?acc = FCFSQueue []" "ac_budget ?acc = 8" "ac_preempted ?acc = []"
    by (simp_all add: acc_init_def create_request_queue_def)
  have get: "get_req ''a'' ?s = Ok (guided ''a'')" "get_req ''b'' (?s\<lparr>waiting := q\<rparr>) = Ok (guided ''b'')" for q
    by (simp_all add: get_req_def dict_get_def ids)
  have w1: "schedule_waiting_one sample_env ?acc = Ok (True, ?acc1)"
    using guided_skipped [of ?s "''a''" "[?b]" ?acc "[]"] acc get by simp
  have w2: "schedule_waiting_one sample_env ?acc1 = Ok (True, ?acc2)"
    using guided_skipped [of "?s\<lparr>waiting := FCFSQueue [?b]\<rparr>" "''b''" "[]" ?acc1 "[?a]"] get by simp
  have l2: "schedule_waiting sample_env ?acc2 = Ok ?acc2" by (subst schedule_waiting.simps) (simp add: queue_bool_def)
  have l1: "schedule_waiting sample_env ?acc1 = Ok ?acc2" by (subst schedule_waiting.simps) (simp add: queue_bool_def w2 l2 acc)
  have l0: "schedule_waiting sample_env ?acc = Ok ?acc2" by (subst schedule_waiting.simps) (simp add: queue_bool_def w1 l1 acc)
  have one: "schedule_running sample_env ?acc = Ok ?acc" by (subst schedule_running.simps) (simp add: acc)
  have two: "running_loras ?acc = Ok ?acc" by (simp add: running_loras_def acc)
  show ?thesis
    by (simp add: schedule_decide_def one two l0 acc put_back_skipped_def queue_bool_def queue_reversed_def waiting_order_def ids)
qed

lemma fcfs_service_order_witness:
  "\<exists>k acc admitted skipped looked_at rest. KVCacheManager_init sample_config 100 False False False False = Ok k \<and>
     schedule_decide sample_env (sample_state k [guided ''a'', guided ''b'']) = Ok acc \<and>
     [''a'', ''b''] = looked_at @ rest \<and> looked_at \<in> shuffles admitted skipped \<and> [''b'', ''a''] = rev skipped @ rest"
proof -
  obtain k m where k: "KVCacheManager_init sample_config 100 False False False False = Ok k" by (rule plain_manager)
  obtain acc where a: "schedule_decide sample_env (sample_state k [guided ''a'', guided ''b'']) = Ok acc" "ac_preempted acc = []"
    "waiting_order (ac_s acc) = [''b'', ''a'']" using guided_decide by blast
  let ?s = "sample_state k [guided ''a'', guided ''b'']"
  have "sched_reach False ?s" by (rule sample_reach [OF k]) (simp_all add: sample_request_def)
  moreover have "waiting_order ?s = [''a'', ''b'']" by (simp add: waiting_order_def sample_request_def)
  ultimately show ?thesis using fcfs_service_order [of False ?s _ sample_env acc] k a by fastforce
qed

text \<open>
  Every request that a step schedules gets at least one token, when no running request
  has computed more tokens than it has or has reached the length limit.
\<close>

lemma scheduled_tokens_positive:
  assumes "sched_reach async s" and "schedule_decide env s = Ok acc"
    and "\<forall>rid \<in> set (running s). \<forall>r. get_req rid s = Ok r \<longrightarrow> not_ahead (s_cfg s) r"
  shows "\<forall>rid n. (rid, n) \<in> set (ac_tokens acc) \<longrightarrow> 0 < n \<and> n \<le> max_num_scheduled_tokens (s_cfg s)"
proof -
  have i: "sched_wf s" "0 \<le> max_num_scheduled_tokens (s_cfg s)" "int (length (running s)) \<le> max_num_running_reqs (s_cfg s)"
    using sched_reach_inv [OF assms(1)] by (simp_all add: sched_inv_def)
  note p = schedule_decide_positive [OF assms(2) i assms(3)]
  have "n \<le> total_scheduled acc" if "(rid, n) \<in> set (ac_tokens acc)" for rid n
    using that p unfolding total_scheduled_def by (intro member_le_sum_list) force+
  moreover have "total_scheduled acc \<le> max_num_scheduled_tokens (s_cfg s)"
    using schedule_decide_spec(3) [OF assms(2) i] by (simp add: tokens_inv_def)
  ultimately show ?thesis using p by fastforce
qed

text \<open>
  C8.  The output of a step is complete and agrees with the new state: every scheduled request
  is reported to the workers exactly once, as new or as known, and the position where it
  continues plus the tokens it got is the number of its computed tokens after the step.
\<close>

theorem schedule_output_complete:
  assumes "sched_reach async s" and "schedule async env s = Ok (out, evs, s')"
  shows "distinct (map fst (so_num_scheduled_tokens out)) \<and>
    mset (map fst (so_num_scheduled_tokens out)) = mset (map nr_req_id (so_new_reqs out)) + mset (cr_req_ids (so_cached_reqs out)) \<and>
    (\<forall>rid n r'. (rid, n) \<in> set (so_num_scheduled_tokens out) \<longrightarrow> get_req rid s' = Ok r' \<longrightarrow>
       reported out rid (num_computed_tokens r' - n))"
proof -
  have "sched_inv s" by (rule sched_reach_inv [OF assms(1)])
  then show ?thesis unfolding sched_inv_def by (intro schedule_output_spec [OF assms(2)]) simp_all
qed

lemma schedule_output_complete_witness:
  "\<exists>k out evs s'. KVCacheManager_init sample_config 100 False False False False = Ok k \<and>
     schedule False sample_env (sample_state k [five]) = Ok (out, evs, s') \<and> reported out ''a'' 0"
proof -
  obtain k out evs s' where a: "KVCacheManager_init sample_config 100 False False False False = Ok k"
    "schedule False sample_env (sample_state k [five]) = Ok (out, evs, s')" "so_num_scheduled_tokens out = [(''a'', 5)]"
    "get_req ''a'' s' = Ok (five\<lparr>status := RUNNING, num_computed_tokens := 5, num_cached_tokens := 0\<rparr>)" by (rule sample_schedule)
  have "sched_reach False (sample_state k [five])" by (rule sample_reach [OF a(1)]) (simp_all add: five_simps)
  from schedule_output_complete [OF this a(2)] a(3,4) have "reported out ''a'' 0" by simp
  then show ?thesis using a by blast
qed

text \<open>
  C28.  A finished request leaves the scheduler: whatever ids a client aborts, known ones or
  not, running or waiting, none of them is in a queue afterwards, the queues keep all the
  other requests (those that run in their order), and the scheduler stays consistent.
\<close>

theorem finish_requests_clears:
  assumes "sched_reach async s" and "finish_requests env ids st s = Ok s'"
  shows "sched_reach async s' \<and> running s' = filter (\<lambda>rid. rid \<notin> set ids) (running s) \<and>
    waiting_ids (waiting s') = filter_mset (\<lambda>rid. rid \<notin> set ids) (waiting_ids (waiting s))"
  using finish_requests_keeps [OF assms(2)] sched_reach_inv [OF assms(1)] sched_reach.finish [OF assms]
  by (auto simp: sched_inv_def)

lemma finish_requests_clears_witness:
  "\<exists>k s'. KVCacheManager_init sample_config 100 False False False False = Ok k \<and>
     finish_requests sample_env [''a'', ''zzz''] FINISHED_ABORTED (sample_state k [five]) = Ok s' \<and> ''a'' \<notin># waiting_ids (waiting s')"
proof -
  obtain k m where k: "KVCacheManager_init sample_config 100 False False False False = Ok k" "kv_reach 0 (\<lambda>_. 1) k" by (rule plain_manager)
  have r: "sched_reach False (sample_state k [five])" by (rule sample_reach [OF k(1)]) (simp_all add: five_simps)
  obtain xs where st: "km_state k xs" using kv_reach_state [OF k(2)] by blast
  let ?f = "five\<lparr>status := FINISHED_ABORTED\<rparr>"
  have fin: "is_finished ?f" by (simp add: is_finished_def status_is_finished_def)
  obtain k' where k': "km_free ?f k = Ok k'" by (rule km_free_spec [OF st, of ?f])
  obtain c where c: "ec_free ?f (EncoderCacheManager_init 0) = Ok c"
    by (simp add: ec_free_def EncoderCacheManager_init_def get_cached_input_ids_def list_of_def)
  have valid: "List.map_filter (map_of [(''a'', five)]) [''a'', ''zzz''] = [five]" by (simp add: List.map_filter_simps)
  obtain s' where s': "finish_requests sample_env [''a'', ''zzz''] FINISHED_ABORTED (sample_state k [five]) = Ok s'"
    using k' c fin
    by (simp add: finish_requests_def status_is_finished_def valid five_simps put_req_def free_request_def connector_finished_def
        sched_free_blocks_def Let_def)
  from finish_requests_clears [OF r s'] k(1) s' show ?thesis by auto
qed

lemma append_until_stop_total:
  "wf_request r \<Longrightarrow> num_tokens r < m \<Longrightarrow> num_output_tokens r < max_tokens r \<Longrightarrow>
   \<exists>ids b r'. append_until_stop m ts r = Ok (ids, b, r') \<and> num_tokens r' \<le> m \<and> num_output_tokens r' \<le> max_tokens r \<and>
     (\<not> b \<longrightarrow> num_tokens r' < m \<and> num_output_tokens r' < max_tokens r)"
proof (induction ts arbitrary: r)
  case (Cons t ts)
  let ?r = "append_output_token_ids [t] r"
  have "output_token_ids ?r \<noteq> []" by (simp add: append_output_token_ids_def)
  then obtain b r1 where c: "check_stop m None ?r = Ok (b, r1)" using check_stop_total Cons.prems(1) by (metis wf_request_append)
  show ?case
  proof (cases b)
    case True
    then obtain st sr where "r1 = stopped_as ?r st sr" using c by (auto elim!: check_stop_cases)
    then have "num_tokens r1 = num_tokens ?r" "num_output_tokens r1 = num_output_tokens ?r"
      by (simp_all add: num_tokens_def num_output_tokens_def)
    then show ?thesis using c True Cons.prems(2,3) by auto
  next
    case False
    then have r1: "r1 = ?r" "num_tokens ?r < m" "num_output_tokens ?r < max_tokens r"
      using check_stop_False [of m None ?r r1] c by simp_all
    from Cons.IH [of ?r] r1 Cons.prems(1) show ?thesis using c False by auto
  qed
qed auto

text \<open>
  When a token ends a request, said without the code: with the \<open>i\<close>-th of the new tokens \<open>ts\<close> the model
  length or the token limit is reached, or the request generates text and the token is the
  end-of-sequence token, which counts unless the request ignores it, or one of its stop tokens.
\<close>

definition at_limit :: "int \<Rightarrow> request \<Rightarrow> nat \<Rightarrow> bool" where
  "at_limit m r i \<longleftrightarrow> m \<le> num_tokens r + int i + 1 \<or> max_tokens r \<le> num_output_tokens r + int i + 1"

definition is_stop_token :: "request \<Rightarrow> int \<Rightarrow> bool" where
  "is_stop_token r t \<longleftrightarrow> pooling r = None \<and> (\<exists>sp. sampling r = Some sp \<and>
     (\<not> ignore_eos sp \<and> eos_token_id r = Some t \<or> t \<in> set (or_empty (stop_token_ids sp))))"

lemma check_stop_one:
  assumes "wf_request r"
  shows "\<exists>r1. check_stop m None (append_output_token_ids [t] r) = Ok (at_limit m r 0 \<or> is_stop_token r t, r1) \<and>
    (at_limit m r 0 \<longrightarrow> status r1 = FINISHED_LENGTH_CAPPED) \<and>
    (is_stop_token r t \<and> \<not> at_limit m r 0 \<longrightarrow> status r1 = FINISHED_STOPPED)"
proof -
  let ?r = "append_output_token_ids [t] r"
  have n: "num_tokens ?r = num_tokens r + 1" "num_output_tokens ?r = num_output_tokens r + 1" by simp_all
  have f: "max_tokens ?r = max_tokens r" "pooling ?r = pooling r" "sampling ?r = sampling r" "eos_token_id ?r = eos_token_id r"
      "py_index (output_token_ids ?r) (-1) = Ok t"
    by (simp_all add: append_output_token_ids_def py_index_def nth_append)
  have "pooling r \<noteq> None \<or> sampling r \<noteq> None" using assms by (auto simp: wf_request_def)
  then show ?thesis
    by (auto simp: check_stop_def n f at_limit_def is_stop_token_def split: option.split)
qed

lemma append_until_stop_exact:
  assumes "wf_request r"
  shows "\<exists>ids b r'. append_until_stop m ts r = Ok (ids, b, r') \<and> ids = take (length ids) ts \<and> (b \<longrightarrow> ids \<noteq> []) \<and>
    (\<not> b \<longrightarrow> ids = ts) \<and> (\<forall>i < length ids. (at_limit m r i \<or> is_stop_token r (ts ! i)) = (b \<and> Suc i = length ids)) \<and>
    (b \<longrightarrow> status r' = (if at_limit m r (length ids - 1) then FINISHED_LENGTH_CAPPED else FINISHED_STOPPED))"
  using assms
proof (induction ts arbitrary: r)
  case (Cons t ts)
  let ?r = "append_output_token_ids [t] r"
  obtain b1 r1 where c: "check_stop m None ?r = Ok (b1, r1)" "b1 = (at_limit m r 0 \<or> is_stop_token r t)"
      "at_limit m r 0 \<longrightarrow> status r1 = FINISHED_LENGTH_CAPPED" "is_stop_token r t \<and> \<not> at_limit m r 0 \<longrightarrow> status r1 = FINISHED_STOPPED"
    using check_stop_one [OF Cons.prems] by blast
  show ?case
  proof (cases b1)
    case True
    then show ?thesis using c by (intro exI [of _ "[t]"] exI [of _ True] exI [of _ r1]) auto
  next
    case False
    then have r1: "r1 = ?r" using check_stop_False [of m None ?r r1] c(1) by simp
    have shift: "at_limit m ?r i = at_limit m r (Suc i)" "is_stop_token ?r = is_stop_token r" for i
      by (auto simp: at_limit_def is_stop_token_def append_output_token_ids_def num_tokens_def num_output_tokens_def fun_eq_iff)
    obtain ids b r' where ih: "append_until_stop m ts ?r = Ok (ids, b, r')" "ids = take (length ids) ts" "b \<longrightarrow> ids \<noteq> []"
        "\<not> b \<longrightarrow> ids = ts" "\<forall>i < length ids. (at_limit m ?r i \<or> is_stop_token ?r (ts ! i)) = (b \<and> Suc i = length ids)"
        "b \<longrightarrow> status r' = (if at_limit m ?r (length ids - 1) then FINISHED_LENGTH_CAPPED else FINISHED_STOPPED)"
      using Cons.IH [of ?r] Cons.prems by auto
    have "(at_limit m r i \<or> is_stop_token r ((t # ts) ! i)) = (b \<and> Suc i = length (t # ids))" if "i < length (t # ids)" for i
      using that ih(3,5) c(2) False by (cases i) (auto simp: shift)
    moreover have "b \<longrightarrow> status r' = (if at_limit m r (length (t # ids) - 1) then FINISHED_LENGTH_CAPPED else FINISHED_STOPPED)"
      using ih(3,6) by (cases ids) (auto simp: shift)
    moreover have "append_until_stop m (t # ts) r = Ok (t # ids, b, r')" using c(1) False r1 ih(1) by simp
    ultimately show ?thesis using ih(2,4) by (intro exI [of _ "t # ids"] exI [of _ b] exI [of _ r']) auto
  qed
qed auto

text \<open>
  C29.  New tokens are appended up to the first one that ends the request and no further, whatever
  was sampled after it: of the tokens kept only the last can end the request, it does so exactly
  when the request stopped, and when the request did not stop all tokens were kept.  No exception is
  raised, the tokens are appended to the output, neither the model length nor the token limit is
  exceeded, and the request is finished exactly when it stopped, with the status of a length limit
  if one was reached and of a stop otherwise.
\<close>

theorem appended_tokens_bounded:
  assumes "wf_request r" and "num_tokens r < m" and "num_output_tokens r < max_tokens r" and "\<not> is_finished r"
  shows "\<exists>ids b r'. append_until_stop m ts r = Ok (ids, b, r') \<and> ids = take (length ids) ts \<and> (b \<longrightarrow> ids \<noteq> []) \<and>
    (\<not> b \<longrightarrow> ids = ts) \<and> (\<forall>i < length ids. (at_limit m r i \<or> is_stop_token r (ts ! i)) = (b \<and> Suc i = length ids)) \<and>
    output_token_ids r' = output_token_ids r @ ids \<and> num_tokens r' \<le> m \<and> num_output_tokens r' \<le> max_tokens r \<and> is_finished r' = b \<and>
    (b \<longrightarrow> status r' = (if at_limit m r (length ids - 1) then FINISHED_LENGTH_CAPPED else FINISHED_STOPPED))"
proof -
  obtain ids b r' where e: "append_until_stop m ts r = Ok (ids, b, r')" "ids = take (length ids) ts" "b \<longrightarrow> ids \<noteq> []" "\<not> b \<longrightarrow> ids = ts"
      "\<forall>i < length ids. (at_limit m r i \<or> is_stop_token r (ts ! i)) = (b \<and> Suc i = length ids)"
      "b \<longrightarrow> status r' = (if at_limit m r (length ids - 1) then FINISHED_LENGTH_CAPPED else FINISHED_STOPPED)"
    using append_until_stop_exact [OF assms(1), of m ts] by blast
  have "num_tokens r' \<le> m \<and> num_output_tokens r' \<le> max_tokens r"
    using append_until_stop_total [OF assms(1-3), of ts] e(1) by auto
  moreover have "output_token_ids r' = output_token_ids r @ ids \<and> is_finished r' = b"
    using append_until_stop_spec [OF e(1)] assms(4) by (auto simp: is_finished_def split: if_splits)
  ultimately show ?thesis using e by blast
qed

text \<open>The second token is the end of the sequence; the third is dropped.\<close>

lemma appended_tokens_bounded_witness:
  "\<exists>r'. append_until_stop 100 [5, 2, 7] (sample_request ''a'' [1, 3]) = Ok ([5, 2], True, r') \<and>
     output_token_ids r' = [5, 2] \<and> status r' = FINISHED_STOPPED"
proof -
  let ?r = "sample_request ''a'' [1, 3]"
  have "wf_request ?r" "num_tokens ?r < 100" "num_output_tokens ?r < max_tokens ?r" "\<not> is_finished ?r"
    by (simp_all add: sample_request_def wf_request_def num_tokens_def num_output_tokens_def is_finished_def status_is_finished_def)
  from appended_tokens_bounded [OF this, of "[5, 2, 7]"] obtain ids b r' where a:
    "append_until_stop 100 [5, 2, 7] ?r = Ok (ids, b, r')" "ids = take (length ids) [5, 2, 7]" "b \<longrightarrow> ids \<noteq> []" "\<not> b \<longrightarrow> ids = [5, 2, 7]"
    "\<forall>i < length ids. (at_limit 100 ?r i \<or> is_stop_token ?r ([5, 2, 7] ! i)) = (b \<and> Suc i = length ids)"
    "output_token_ids r' = output_token_ids ?r @ ids"
    "b \<longrightarrow> status r' = (if at_limit 100 ?r (length ids - 1) then FINISHED_LENGTH_CAPPED else FINISHED_STOPPED)" by blast
  have stop: "is_stop_token ?r t = (t = 2)" "at_limit 100 ?r i = (98 \<le> int i + 1 \<or> 16 \<le> int i + 1)" for t i
    by (auto simp: is_stop_token_def at_limit_def sample_request_def num_tokens_def num_output_tokens_def or_empty_def)
  have "length ids \<le> 3" using a(2) by (metis length_take list.size(3,4) min.cobounded2 min.commute One_nat_def Suc_eq_plus1 numeral_3_eq_3)
  moreover have "length ids \<noteq> 0" using a(3,4) by auto
  moreover have "length ids \<noteq> 1" using a(2,4,5) by (cases b) (auto simp: stop)
  moreover have "length ids \<noteq> 3" using a(5) by (auto simp: stop dest: spec [of _ 1])
  ultimately have len: "length ids = 2" by linarith
  then have "ids = [5, 2]" "b" using a(2,4) by (auto simp: numeral_2_eq_2)
  moreover have "output_token_ids ?r = []" by (simp add: sample_request_def)
  ultimately show ?thesis using a(1,6,7) by (simp add: stop)
qed

section \<open>Encoder inputs\<close>

text \<open>Item \<open>i\<close> overlaps the window of \<open>n\<close> tokens from \<open>ncomp\<close> and is not in the encoder cache.\<close>

definition needed :: "encoder_cache \<Rightarrow> request \<Rightarrow> int \<Rightarrow> int \<Rightarrow> nat \<Rightarrow> bool" where
  "needed enc r ncomp n i \<longleftrightarrow> 0 < n \<and> mm_offset (mm_positions r ! i) < ncomp + n \<and>
     ncomp < mm_offset (mm_positions r ! i) + mm_length (mm_positions r ! i) \<and> \<not> has_cache r (int i) enc"

text \<open>Placeholders are not empty and follow each other.\<close>

definition placed :: "placeholder_range list \<Rightarrow> bool" where
  "placed ps \<longleftrightarrow> (\<forall>i j. i < j \<longrightarrow> j < length ps \<longrightarrow> mm_offset (ps ! i) + mm_length (ps ! i) \<le> mm_offset (ps ! j)) \<and>
     (\<forall>p \<in> set ps. 0 < mm_length p)"

lemma placed_less:
  assumes "placed ps" and "i < j" and "j < length ps"
  shows "mm_offset (ps ! i) + mm_length (ps ! i) \<le> mm_offset (ps ! j)" and "mm_offset (ps ! i) < mm_offset (ps ! j)"
proof -
  have "ps ! i \<in> set ps" using assms(2,3) by simp
  then have "0 < mm_length (ps ! i)" using assms(1) by (simp add: placed_def)
  moreover show "mm_offset (ps ! i) + mm_length (ps ! i) \<le> mm_offset (ps ! j)" using assms by (simp add: placed_def)
  ultimately show "mm_offset (ps ! i) < mm_offset (ps ! j)" by simp
qed

lemma filter_needed_cut:
  assumes "placed (mm_positions r)" and "k < length (mm_positions r)" and "n' \<le> n" and "0 < n"
    and "0 < n' \<longrightarrow> ncomp + n' \<le> mm_offset (mm_positions r ! k)"
    and "ncomp + n' = mm_offset (mm_positions r ! k) \<or> n' = n \<or> n' = 0 \<and> mm_offset (mm_positions r ! k) \<le> ncomp"
  shows "filter (needed enc r ncomp n') [0..<length (mm_positions r)] = filter (needed enc r ncomp n) [0..<k]"
proof -
  let ?ps = "mm_positions r"
  have split: "[0..<length ?ps] = [0..<k] @ [k..<length ?ps]" using upt_add_eq_append [of 0 k "length ?ps - k"] assms(2) by simp
  have "filter (needed enc r ncomp n') [k..<length ?ps] = []"
  proof -
    have "\<not> needed enc r ncomp n' i" if "k \<le> i" "i < length ?ps" for i
      using that placed_less(2) [OF assms(1), of k i] assms(5) by (cases "i = k") (auto simp: needed_def)
    then show ?thesis by (simp add: filter_empty_conv)
  qed
  moreover have "needed enc r ncomp n' i = needed enc r ncomp n i" if "i < k" for i
    using placed_less [OF assms(1) that assms(2)] assms(3-6) by (auto simp: needed_def)
  then have "filter (needed enc r ncomp n') [0..<k] = filter (needed enc r ncomp n) [0..<k]" by (intro filter_cong) auto
  ultimately show ?thesis by (simp add: split)
qed

lemma encoder_input_loop_spec:
  assumes "placed (mm_positions r)" and "0 < n" and "k \<le> length (mm_positions r)"
    and "encoder_input_loop cfg enc r ncomp (zip [k..<length (mm_positions r)] (drop k (mm_positions r)))
      (map int (filter (needed enc r ncomp n) [0..<k])) n b = Ok (ids, n', b')"
  shows "ids = map int (filter (needed enc r ncomp n') [0..<length (mm_positions r)]) \<and> 0 \<le> n' \<and> n' \<le> n \<and>
    b' + (\<Sum>i \<leftarrow> ids. mm_length (mm_positions r ! nat i)) =
    b + (\<Sum>i \<leftarrow> filter (needed enc r ncomp n) [0..<k]. mm_length (mm_positions r ! i)) \<and> (0 \<le> b \<longrightarrow> 0 \<le> b')"
  using assms(3,4)
proof (induction "length (mm_positions r) - k" arbitrary: k b)
  case 0
  then show ?case using assms(2) by (auto simp: comp_def)
next
  case (Suc d)
  let ?ps = "mm_positions r" let ?done = "filter (needed enc r ncomp n) [0..<k]"
  from Suc.hyps(2) have k: "k < length ?ps" by simp
  let ?p = "?ps ! k"
  have z: "zip [k..<length ?ps] (drop k ?ps) = (k, ?p) # zip [Suc k..<length ?ps] (drop (Suc k) ?ps)"
    using k by (simp add: upt_conv_Cons Cons_nth_drop_Suc [symmetric])
  note eq = Suc.prems(2) [unfolded z encoder_input_loop.simps Let_def]
  note cut = filter_needed_cut [OF assms(1) k, where n = n and ncomp = ncomp and enc = enc]
  have d: "d = length ?ps - Suc k" "Suc k \<le> length ?ps" using Suc.hyps(2) k by simp_all
  have nxt: "filter (needed enc r ncomp n) [0..<Suc k] = ?done @ (if needed enc r ncomp n k then [k] else [])" by simp
  consider (past) "mm_offset ?p \<ge> ncomp + n"
    | (skip) "mm_offset ?p < ncomp + n" "mm_offset ?p + mm_length ?p \<le> ncomp \<or> has_cache r (int k) enc"
    | (cut) "mm_offset ?p < ncomp + n" "ncomp < mm_offset ?p + mm_length ?p" "n' = (if ncomp < mm_offset ?p then mm_offset ?p - ncomp else 0)"
        "ids = map int ?done" "b' = b"
    | (take) "mm_offset ?p < ncomp + n" "ncomp < mm_offset ?p + mm_length ?p" "\<not> has_cache r (int k) enc" "mm_length ?p \<le> b"
        "encoder_input_loop cfg enc r ncomp (zip [Suc k..<length ?ps] (drop (Suc k) ?ps)) (map int ?done @ [int k]) n (b - mm_length ?p) = Ok (ids, n', b')"
    using eq by (auto simp: res_simps split: if_splits)
  then show ?case
  proof cases
    case past
    then have "ids = map int ?done" "n' = n" "b' = b" using eq by auto
    then show ?thesis using past cut [of n] assms(2) by (simp add: comp_def)
  next
    case skip
    then have e: "encoder_input_loop cfg enc r ncomp (zip [Suc k..<length ?ps] (drop (Suc k) ?ps)) (map int ?done) n b = Ok (ids, n', b')"
      using eq by (auto split: if_splits)
    have "\<not> needed enc r ncomp n k" using skip by (auto simp: needed_def)
    then show ?thesis using Suc.hyps(1) [OF d] e nxt by simp
  next
    case c: cut
    then have "filter (needed enc r ncomp n') [0..<length ?ps] = ?done" using assms(2) by (intro cut) auto
    then show ?thesis using c assms(2) by (simp add: comp_def)
  next
    case take
    then have "needed enc r ncomp n k" using assms(2) by (simp add: needed_def)
    then have e: "encoder_input_loop cfg enc r ncomp (zip [Suc k..<length ?ps] (drop (Suc k) ?ps))
        (map int (filter (needed enc r ncomp n) [0..<Suc k])) n (b - mm_length ?p) = Ok (ids, n', b')" using take(5) by simp
    note ih = Suc.hyps(1) [OF d e]
    then show ?thesis using nxt \<open>needed enc r ncomp n k\<close> take(4) by auto
  qed
qed

text \<open>
  C30.  The choice of encoder inputs is exact: the number of tokens is never raised nor made
  negative, the items chosen are exactly those that the tokens finally scheduled need and that
  are not cached, each once, and their sizes are what is taken from the budget, which does not
  become negative.  Placeholders follow each other and are not empty.
\<close>

theorem encoder_choice_exact:
  assumes "placed (mm_positions r)" and "0 < n" and "has_encoder_inputs r" and "0 \<le> b"
    and "try_schedule_encoder_inputs cfg enc r ncomp n b = Ok (ids, n', b')"
  shows "ids = map int (filter (needed enc r ncomp n') [0..<length (mm_positions r)]) \<and> 0 \<le> n' \<and> n' \<le> n \<and>
    b' = b - (\<Sum>i \<leftarrow> ids. mm_length (mm_positions r ! nat i)) \<and> 0 \<le> b'"
proof -
  have "encoder_input_loop cfg enc r ncomp (zip [0..<length (mm_positions r)] (drop 0 (mm_positions r)))
      (map int (filter (needed enc r ncomp n) [0..<0])) n b = Ok (ids, n', b')"
    using assms(2,3,5) by (auto simp: try_schedule_encoder_inputs_def res_simps split: if_splits)
  from encoder_input_loop_spec [OF assms(1,2) _ this] assms(4) show ?thesis by auto
qed

definition image_request :: request where
  "image_request = (sample_request ''i'' [1, 0, 0, 4, 0, 0])\<lparr>mm_inputs := [''x'', ''y''],
     mm_positions := [\<lparr>mm_offset = 1, mm_length = 2\<rparr>, \<lparr>mm_offset = 4, mm_length = 2\<rparr>]\<rparr>"

lemma encoder_choice_exact_witness:
  "\<exists>n'. try_schedule_encoder_inputs sample_cfg (EncoderCacheManager_init 8) image_request 0 6 3 = Ok ([0], n', 1) \<and>
     [0] = map int (filter (needed (EncoderCacheManager_init 8) image_request 0 n') [0..<2])"
proof -
  let ?e = "EncoderCacheManager_init 8"
  have p: "mm_positions image_request = [\<lparr>mm_offset = 1, mm_length = 2\<rparr>, \<lparr>mm_offset = 4, mm_length = 2\<rparr>]"
    "has_encoder_inputs image_request" "request_id image_request = ''i''"
    by (simp_all add: image_request_def has_encoder_inputs_def sample_request_def)
  have pl: "placed (mm_positions image_request)" by (auto simp: placed_def p(1) less_Suc_eq nth_Cons split: nat.splits)
  have t: "try_schedule_encoder_inputs sample_cfg ?e image_request 0 6 3 = Ok ([0], 4, 1)"
    by (simp add: try_schedule_encoder_inputs_def p upt_rec has_cache_def can_allocate_def EncoderCacheManager_init_def
        get_num_encoder_tokens_def py_index_def sample_cfg_def)
  from encoder_choice_exact [OF pl _ p(2) _ t] t p(1) show ?thesis by (auto simp: numeral_2_eq_2)
qed

end
