(* ===== verification/KV_Holdings.thy ===== *)
theory KV_Holdings
  imports KV_Cache_Manager
begin

text \<open>
  Who holds blocks.  The contracts of \<open>KV_Cache_Manager\<close> say what an operation does when it is
  called as intended; here is what every call keeps, however it is called, as long as it does
  not raise and prefix caching is off: the accounting stays exact and only the request at hand
  changes its holdings.  The scheduler's invariant on top of it needs no more.
\<close>

section \<open>One manager\<close>

text \<open>Only the request \<open>rid\<close> is touched, and it stays known.\<close>

definition only_req :: "string \<Rightarrow> st_manager \<Rightarrow> st_manager \<Rightarrow> bool" where
  "only_req rid m m' \<longleftrightarrow> same_mgr m m' \<and> (\<forall>rid'. rid' \<noteq> rid \<longrightarrow> blocks_of rid' m' = blocks_of rid' m) \<and>
     (map_of (num_cached_block m) rid \<noteq> None \<longrightarrow> map_of (num_cached_block m') rid \<noteq> None)"

lemma only_req_refl [simp]: "only_req rid m m"
  by (simp add: only_req_def same_mgr_def)

lemma only_req_trans: "only_req rid m m' \<Longrightarrow> only_req rid m' m'' \<Longrightarrow> only_req rid m m''"
  unfolding only_req_def same_mgr_def by simp

lemma only_req_read [simp]: "only_req rid m (snd (read_blocks rid' m))"
  by (simp add: only_req_def same_mgr_def)

lemma remove_loop_Ok: "remove_loop null n bs rm = Ok x \<Longrightarrow> n \<le> length bs"
  by (cases n) (auto simp: res_simps py_index_def Let_def split: if_splits)

text \<open>What an operation on one manager keeps.\<close>

definition mgr_kept :: "string \<Rightarrow> blk_ref multiset \<Rightarrow> block_pool \<Rightarrow> st_manager \<Rightarrow> block_pool \<Rightarrow> st_manager \<Rightarrow> bool" where
  "mgr_kept rid R p m p' m' \<longleftrightarrow> (\<exists>ys. mgr_state p' ys R m') \<and> same_pool p p' \<and> only_req rid m m'"

lemma mgr_keptI: "mgr_state p' ys R m' \<Longrightarrow> same_pool p p' \<Longrightarrow> only_req rid m m' \<Longrightarrow> mgr_kept rid R p m p' m'"
  by (auto simp: mgr_kept_def)

lemma mgr_kept_read: "mgr_state p xs R m \<Longrightarrow> mgr_kept rid R p m p (snd (read_blocks rid' m))"
  by (rule mgr_keptI [OF mgr_state_read]) simp_all

lemma remove_below_kept:
  assumes "mgr_state p xs R m" and "\<not> enable_caching p" and "remove_below rid n p m = Ok (p', m')"
  shows "mgr_kept rid R p m p' m'"
proof -
  have n: "n \<le> int (length (blocks_of rid m))"
    using assms(3) by (auto simp: remove_below_def res_simps split_beta dest!: remove_loop_Ok)
  show ?thesis
    by (rule remove_below_spec [OF assms(1) n])
      (use assms(2,3) in \<open>auto simp: mgr_kept_def only_req_def dest: same_hashes_pool\<close>)
qed

lemma remove_skipped_kept:
  assumes "mgr_state p xs R m" and "\<not> enable_caching p" and "remove_skipped_blocks rid n p m = Ok (p', m')"
  shows "mgr_kept rid R p m p' m'"
proof -
  consider "p' = p" "m' = m" | n where "remove_below rid n p m = Ok (p', m')"
    using assms(3) by (cases "mgr_spec m") (auto simp: remove_skipped_blocks_def Let_def res_simps)
  then show ?thesis
  proof cases
    case 1
    then show ?thesis using assms(1) by (auto simp: mgr_kept_def)
  next
    case 2
    then show ?thesis by (rule remove_below_kept [OF assms(1,2)])
  qed
qed

lemma save_nothing_kept:
  assumes "mgr_state p xs R m" and "save_new_computed_blocks rid [] m = Ok m'"
  shows "mgr_kept rid R p m p m'" and "map_of (num_cached_block m') rid \<noteq> None"
proof -
  have "mgr_kept rid R p m p m' \<and> map_of (num_cached_block m') rid \<noteq> None"
  proof (cases "map_of (num_cached_block m) rid")
    case None
    have "mgr_state p xs (R + mset (filter (real_block p) [])) m" using assms(1) by simp
    from save_new_computed_blocks_spec [OF this None] assms(2) obtain m1 where
      "m' = m1" "mgr_state p xs R m1" "same_mgr m m1" "\<forall>rid'. blocks_of rid' m1 = (if rid' = rid then [] else blocks_of rid' m)"
      "map_of (num_cached_block m1) = (map_of (num_cached_block m))(rid \<mapsto> 0)" by auto
    then show ?thesis using assms(1) by (auto simp: mgr_kept_def only_req_def)
  next
    case (Some n)
    then show ?thesis using assms by (auto simp: save_new_computed_blocks_def mgr_kept_def res_simps)
  qed
  then show "mgr_kept rid R p m p m'" and "map_of (num_cached_block m') rid \<noteq> None" by auto
qed

lemma base_allocate_kept:
  assumes "mgr_state p xs R m" and "map_of (num_cached_block m) rid \<noteq> None" and "base_allocate_new_blocks rid ntok p m = Ok (new, p', m')"
  shows "mgr_kept rid R p m p' m'"
proof (cases "cdiv ntok (mgr_block_size m) - int (length (blocks_of rid m)) \<le> 0")
  case True
  then have "p' = p" "m' = snd (read_blocks rid m)"
    using assms(3) by (auto simp: base_allocate_new_blocks_def split_beta py_cdiv_def split: if_splits)
  then show ?thesis using mgr_kept_read [OF assms(1)] by simp
next
  case False
  let ?n = "cdiv ntok (mgr_block_size m) - int (length (blocks_of rid m))"
  have "get_new_blocks ?n p = Ok (new, p')"
    using False assms(3) by (auto simp: base_allocate_new_blocks_def split_beta py_cdiv_def res_simps split: if_splits)
  moreover have "pool_inv p xs" "0 \<le> ?n" using assms(1) False by (simp_all add: mgr_state_def ledger_def)
  ultimately have n: "?n \<le> int (length xs)" using bp.alloc_total [of p xs ?n] by blast
  show ?thesis
    by (rule base_allocate_new_blocks_spec [OF assms(1,2) n])
      (use assms(3) in \<open>auto simp: mgr_kept_def only_req_def\<close>)
qed

lemma allocate_kept:
  assumes "mgr_state p xs R m" and "map_of (num_cached_block m) rid \<noteq> None" and "allocate_new_blocks rid ntok p m = Ok (new, p', m')"
  shows "mgr_kept rid R p m p' m'"
proof -
  obtain m1 where m1: "base_allocate_new_blocks rid ntok p m = Ok (new, p', m1)" "m' = m1 \<or> m' = snd (read_blocks rid m1)"
    using allocate_new_blocks_Ok [OF assms(3)] by blast
  note b = base_allocate_kept [OF assms(1,2) m1(1)]
  show ?thesis using m1(2)
  proof
    assume m': "m' = snd (read_blocks rid m1)"
    obtain ys where ys: "mgr_state p' ys R m1" using b by (auto simp: mgr_kept_def)
    then have "only_req rid m m'" using b only_req_trans [OF _ only_req_read, of rid m m1 rid] by (simp add: mgr_kept_def m')
    then show ?thesis using b mgr_state_read [OF ys, of rid] by (auto simp: mgr_kept_def m')
  qed (use b in simp)
qed

lemma get_num_blocks_read:
  "get_num_blocks_to_allocate rid ntok ncb p m = Ok (n, m') \<Longrightarrow> m' = snd (read_blocks rid m)"
  by (auto simp: get_num_blocks_to_allocate_def res_simps split_beta Let_def)

section \<open>All managers\<close>

text \<open>As \<open>each_manager_keeps\<close>, for steps that move blocks to or from the free queue.\<close>

lemma each_manager_Ok:
  assumes step: "\<And>j a p xs R m out a' p' m'. same_pool p0 p \<Longrightarrow> Q j m \<Longrightarrow> mgr_state p xs R m \<Longrightarrow>
      f j a p m = Ok (out, a', p', m') \<Longrightarrow> (\<exists>ys. mgr_state p' ys R m') \<and> same_pool p p' \<and> S j m m' out"
  shows "same_pool p0 p \<Longrightarrow> mgrs_state p xs R ms \<Longrightarrow> \<forall>j < length ms. Q (i + j) (ms ! j) \<Longrightarrow>
    each_manager f i a p ms = Ok (outs, a', p', ms') \<Longrightarrow>
    (\<exists>ys. mgrs_state p' ys R ms') \<and> same_pool p p' \<and> length ms' = length ms \<and> length outs = length ms \<and>
    (\<forall>j < length ms. S (i + j) (ms ! j) (ms' ! j) (outs ! j))"
proof (induction ms arbitrary: i a p xs R outs ms')
  case Nil
  then show ?case by auto
next
  case (Cons m ms)
  then obtain out a1 p1 m1 os ms1 where s1: "f i a p m = Ok (out, a1, p1, m1)"
    and s2: "each_manager f (Suc i) a1 p1 ms = Ok (os, a', p', ms1)"
    and eq: "outs = out # os" "ms' = m1 # ms1" by (auto simp: res_simps)
  have st: "mgr_state p xs (R + helds p ms) m" "\<forall>m \<in> set ms. mgr_ok p m" using Cons.prems(2) by (auto simp: mgrs_state_Cons)
  have q: "Q i m" using Cons.prems(3) by (auto dest: spec [of _ 0])
  obtain ys where a: "mgr_state p1 ys (R + helds p ms) m1" "same_pool p p1" "S i m m1 out"
    using step [OF Cons.prems(1) q st(1) s1] by blast
  have sp: "same_pool p0 p1" by (rule same_pool_trans [OF Cons.prems(1) a(2)])
  note rest = mgrs_state_rest [OF a(1,2) st(2)]
  have qs: "\<forall>j < length ms. Q (Suc i + j) (ms ! j)" using Cons.prems(3) by auto
  obtain zs where b: "mgrs_state p' zs (R + held p1 m1) ms1" "same_pool p1 p'" "length ms1 = length ms" "length os = length ms"
      "\<forall>j < length ms. S (Suc i + j) (ms ! j) (ms1 ! j) (os ! j)"
    using Cons.IH [OF sp rest qs s2] by blast
  have "mgr_ok p1 m1" using a(1) by (simp add: mgr_state_def)
  from mgrs_state_join [OF b(1) this b(2)] have "\<exists>ys. mgrs_state p' ys R ms'" by (auto simp: eq)
  moreover have "S (i + j) ((m # ms) ! j) (ms' ! j) (outs ! j)" if "j < length (m # ms)" for j
    using that a(3) b(5) by (cases j) (auto simp: eq)
  ultimately show ?case using same_pool_trans [OF a(2) b(2)] b(3,4) by (auto simp: eq)
qed


definition plain_co :: "coordinator \<Rightarrow> bool" where
  "plain_co c \<longleftrightarrow> (\<exists>xs. co_state c xs) \<and> \<not> enable_caching (co_pool c)"

definition only_co :: "string \<Rightarrow> coordinator \<Rightarrow> coordinator \<Rightarrow> bool" where
  "only_co rid c c' \<longleftrightarrow> same_coord c c' \<and> (\<forall>j < length (co_managers c). only_req rid (co_managers c ! j) (co_managers c' ! j))"

lemma only_co_refl [simp]: "only_co rid c c"
  by (simp add: only_co_def)

lemma only_co_trans:
  assumes "only_co rid c c'" and "only_co rid c' c''"
  shows "only_co rid c c''"
proof -
  have len: "length (co_managers c') = length (co_managers c)" using assms(1) by (simp add: only_co_def same_coord_def)
  have "same_coord c c''" using assms by (auto simp: only_co_def intro: same_coord_trans)
  moreover have "only_req rid (co_managers c ! j) (co_managers c'' ! j)" if "j < length (co_managers c)" for j
    using assms that by (auto simp: only_co_def len intro: only_req_trans)
  ultimately show ?thesis by (simp add: only_co_def)
qed

text \<open>An operation on every manager that only concerns the request \<open>rid\<close>.\<close>

lemma coord_run_kept:
  assumes "plain_co c" and "coord_run f a c = Ok (outs, a', c')" and q: "\<forall>m \<in> set (co_managers c). Q m"
    and step: "\<And>j a p xs R m out a' p' m'. \<not> enable_caching p \<Longrightarrow> Q m \<Longrightarrow> mgr_state p xs R m \<Longrightarrow>
      f j a p m = Ok (out, a', p', m') \<Longrightarrow> mgr_kept rid R p m p' m' \<and> S m'"
  shows "plain_co c'" and "only_co rid c c'" and "\<forall>m \<in> set (co_managers c'). S m"
proof -
  let ?p = "co_pool c" and ?ms = "co_managers c"
  obtain p' ms' where e: "each_manager f 0 a ?p ?ms = Ok (outs, a', p', ms')" "c' = c\<lparr>co_pool := p', co_managers := ms'\<rparr>"
    using assms(2) by (auto simp: coord_run_def res_simps)
  obtain xs where st: "mgrs_state ?p xs {#} ?ms" using assms(1) by (auto simp: plain_co_def co_state_def)
  have no: "\<not> enable_caching ?p" using assms(1) by (simp add: plain_co_def)
  have one: "(\<exists>ys. mgr_state p' ys R m') \<and> same_pool p p' \<and> only_req rid m m' \<and> S m'"
    if "same_pool ?p p" "Q m" "mgr_state p xs R m" "f j a p m = Ok (out, a', p', m')" for j a p xs R m out a' p' m'
    using step [OF _ that(2-4)] that(1) no by (simp add: mgr_kept_def same_pool_def)
  have "(\<exists>ys. mgrs_state p' ys {#} ms') \<and> same_pool ?p p' \<and> length ms' = length ?ms \<and> length outs = length ?ms \<and>
      (\<forall>j < length ?ms. only_req rid (?ms ! j) (ms' ! j) \<and> S (ms' ! j))"
    by (rule each_manager_Ok [where ?p0.0 = ?p and Q = "\<lambda>j m. Q m" and f = f and S = "\<lambda>j m m' out. only_req rid m m' \<and> S m'"
          and i = 0, OF one same_pool_refl st _ e(1), simplified]) (use q in auto)
  then obtain ys where k: "mgrs_state p' ys {#} ms'" "same_pool ?p p'" "length ms' = length ?ms"
      "\<forall>j < length ?ms. only_req rid (?ms ! j) (ms' ! j) \<and> S (ms' ! j)" by blast
  show "only_co rid c c'" using k(2-4) by (cases c) (auto simp: only_co_def same_coord_def e(2) only_req_def)
  show "plain_co c'" using k(1,2) no by (auto simp: plain_co_def co_state_def e(2) same_pool_def)
  show "\<forall>m \<in> set (co_managers c'). S m" using k(3,4) by (auto simp: e(2) in_set_conv_nth)
qed

section \<open>Reserving slots\<close>

lemma co_remove_skipped_kept:
  assumes "plain_co c" and "co_remove_skipped_blocks rid n c = Ok c'"
  shows "plain_co c'" and "only_co rid c c'"
proof -
  obtain outs u where r: "coord_run (\<lambda>i a p m. rbind (remove_skipped_blocks rid n p m) (\<lambda>(p', m'). Ok ((), a, p', m'))) () c = Ok (outs, u, c')"
    using assms(2) by (auto simp: co_remove_skipped_blocks_def res_simps)
  have step: "mgr_kept rid R p m p' m' \<and> True"
    if "\<not> enable_caching p" "True" "mgr_state p xs R m" "rbind (remove_skipped_blocks rid n p m) (\<lambda>(p', m'). Ok ((), a, p', m')) = Ok (out, a', p', m')"
    for j :: nat and a :: unit and p xs R m and out a' :: unit and p' m'
    using that(4) remove_skipped_kept [OF that(3,1)] by (auto simp: res_simps)
  show "plain_co c'" and "only_co rid c c'"
    by (rule coord_run_kept [OF assms(1) r, where Q = "\<lambda>_. True" and S = "\<lambda>_. True", OF _ step]; simp)+
qed

lemma co_get_num_kept:
  assumes "plain_co c" and "co_get_num_blocks_to_allocate rid ntok ncb c = Ok (n, c')"
  shows "plain_co c'" and "only_co rid c c'"
proof -
  obtain outs u where r: "coord_run (\<lambda>i a p m.
         rbind (py_index ncb (int i)) (\<lambda>ncb.
         rbind (get_num_blocks_to_allocate rid ntok ncb p m) (\<lambda>(n, m'). Ok (n, a, p, m')))) () c = Ok (outs, u, c')"
    using assms(2) by (auto simp: co_get_num_blocks_to_allocate_def res_simps)
  have step: "mgr_kept rid R p m p' m' \<and> True"
    if "\<not> enable_caching p" "True" "mgr_state p xs R m" "rbind (py_index ncb (int i)) (\<lambda>ncb.
         rbind (get_num_blocks_to_allocate rid ntok ncb p m) (\<lambda>(n, m'). Ok (n, a, p, m'))) = Ok (out, a', p', m')"
    for i :: nat and a :: unit and p xs R m and out :: int and a' :: unit and p' m'
    using that(4) mgr_kept_read [OF that(3)] by (auto simp: res_simps dest!: get_num_blocks_read)
  show "plain_co c'" and "only_co rid c c'"
    by (rule coord_run_kept [OF assms(1) r, where Q = "\<lambda>_. True" and S = "\<lambda>_. True", OF _ step]; simp)+
qed

lemma co_save_nothing_kept:
  assumes "plain_co c" and "\<forall>bs \<in> set ncb. bs = []" and "co_save_new_computed_blocks rid ncb c = Ok c'"
  shows "plain_co c'" and "only_co rid c c'" and "\<forall>m \<in> set (co_managers c'). map_of (num_cached_block m) rid \<noteq> None"
proof -
  obtain outs u where r: "coord_run (\<lambda>i a p m.
         rbind (py_index ncb (int i)) (\<lambda>ncb.
         rbind (save_new_computed_blocks rid ncb m) (\<lambda>m'. Ok ((), a, p, m')))) () c = Ok (outs, u, c')"
    using assms(3) by (auto simp: co_save_new_computed_blocks_def res_simps)
  have step: "mgr_kept rid R p m p' m' \<and> map_of (num_cached_block m') rid \<noteq> None"
    if "\<not> enable_caching p" "True" "mgr_state p xs R m" "rbind (py_index ncb (int i)) (\<lambda>ncb.
         rbind (save_new_computed_blocks rid ncb m) (\<lambda>m'. Ok ((), a, p, m'))) = Ok (out, a', p', m')"
    for i :: nat and a :: unit and p xs R m and out a' :: unit and p' m'
  proof -
    note st = that(3) and run = that(4)
    obtain bs where bs: "py_index ncb (int i) = Ok bs" "save_new_computed_blocks rid bs m = Ok m'" "p' = p"
      using run by (auto simp: res_simps)
    have "bs = []" using py_index_Ok_mem [OF bs(1)] assms(2) by simp
    then show ?thesis using save_nothing_kept [OF st] bs(2,3) by simp
  qed
  show "plain_co c'" and "only_co rid c c'" and "\<forall>m \<in> set (co_managers c'). map_of (num_cached_block m) rid \<noteq> None"
    by (rule coord_run_kept [OF assms(1) r, where Q = "\<lambda>_. True" and S = "\<lambda>m. map_of (num_cached_block m) rid \<noteq> None", OF _ step]; simp)+
qed

lemma co_allocate_kept:
  assumes "plain_co c" and "\<forall>m \<in> set (co_managers c). map_of (num_cached_block m) rid \<noteq> None"
    and "co_allocate_new_blocks rid ntok c = Ok (news, c')"
  shows "plain_co c'" and "only_co rid c c'"
proof -
  obtain u where r: "coord_run (\<lambda>i a p m.
         rbind (allocate_new_blocks rid ntok p m) (\<lambda>(new, p', m'). Ok (new, a, p', m'))) () c = Ok (news, u, c')"
    using assms(3) by (auto simp: co_allocate_new_blocks_def res_simps)
  have step: "mgr_kept rid R p m p' m' \<and> True"
    if "\<not> enable_caching p" "map_of (num_cached_block m) rid \<noteq> None" "mgr_state p xs R m"
      "rbind (allocate_new_blocks rid ntok p m) (\<lambda>(new, p', m'). Ok (new, a, p', m')) = Ok (out, a', p', m')"
    for j :: nat and a :: unit and p xs R m out and a' :: unit and p' m'
    using that(4) allocate_kept [OF that(3,2)] by (auto simp: res_simps)
  show "plain_co c'" and "only_co rid c c'"
    by (rule coord_run_kept [OF assms(1) r assms(2), where S = "\<lambda>_. True", OF step]; simp)+
qed

lemma reserve_slots_kept:
  assumes "plain_co c" and "reserve_slots rid ncomp ntok ncb False c = Ok (res, c')"
  shows "plain_co c'" and "only_co rid c c'"
proof -
  obtain c1 n c2 where c1: "co_remove_skipped_blocks rid ncomp c = Ok c1" and c2: "co_get_num_blocks_to_allocate rid ntok ncb c1 = Ok (n, c2)"
    and rest: "(if n > get_num_free_blocks (co_pool c2) then Ok (None, c2)
      else rbind (rbind (py_assert (\<forall>bs \<in> set ncb. bs = [])) (\<lambda>_. Ok c2)) (\<lambda>c3.
        rbind (co_save_new_computed_blocks rid ncb c3) (\<lambda>c4.
        rbind (co_allocate_new_blocks rid ntok c4) (\<lambda>(new_blocks, c5). Ok (Some new_blocks, c5))))) = Ok (res, c')"
    using assms(2) unfolding reserve_slots_def if_False rbind_eq_Ok by (auto split: prod.splits)
  note k1 = co_remove_skipped_kept [OF assms(1) c1]
  note k2 = co_get_num_kept [OF k1(1) c2]
  have o2: "only_co rid c c2" by (rule only_co_trans [OF k1(2) k2(2)])
  have "plain_co c' \<and> only_co rid c c'"
  proof (cases "n > get_num_free_blocks (co_pool c2)")
    case True
    then show ?thesis using rest k2(1) o2 by simp
  next
    case False
    then obtain c4 news where e: "\<forall>bs \<in> set ncb. bs = []" and c4: "co_save_new_computed_blocks rid ncb c2 = Ok c4"
      and c5: "co_allocate_new_blocks rid ntok c4 = Ok (news, c')"
      using rest by (auto simp: res_simps)
    note k4 = co_save_nothing_kept [OF k2(1) e c4]
    note k5 = co_allocate_kept [OF k4(1,3) c5]
    then show ?thesis using only_co_trans [OF o2 only_co_trans [OF k4(2) k5(2)]] by simp
  qed
  then show "plain_co c'" and "only_co rid c c'" by auto
qed

section \<open>The manager without prefix caching\<close>

definition plain_km :: "kv_cache_manager \<Rightarrow> bool" where
  "plain_km k \<longleftrightarrow> (\<exists>xs. km_state k xs) \<and> \<not> km_enable_caching k"

text \<open>The requests that hold blocks.\<close>

definition holders :: "kv_cache_manager \<Rightarrow> string set" where
  "holders k = {rid. \<exists>m \<in> set (co_managers (km_coord k)). blocks_of rid m \<noteq> []}"

lemma holders_nth: "x \<in> holders k \<longleftrightarrow> (\<exists>j < length (co_managers (km_coord k)). km_blocks x k j \<noteq> [])"
  unfolding holders_def by (simp add: Bex_def in_set_conv_nth) blast

definition km_kept :: "string set \<Rightarrow> kv_cache_manager \<Rightarrow> kv_cache_manager \<Rightarrow> bool" where
  "km_kept X k k' \<longleftrightarrow> plain_km k' \<and> holders k' \<subseteq> holders k \<union> X"

lemma same_km_caching: "same_km k k' \<Longrightarrow> km_enable_caching k' = km_enable_caching k"
  by (cases k; cases k') (simp add: same_km_def)

lemma plain_km_move: "plain_km k \<Longrightarrow> same_km k k' \<Longrightarrow> km_state k' ys \<Longrightarrow> plain_km k'"
  by (auto simp: plain_km_def same_km_caching)

lemma holders_only_co:
  assumes "only_co rid (km_coord k) (km_coord k')"
  shows "holders k' \<subseteq> insert rid (holders k)"
proof
  fix x assume "x \<in> holders k'"
  moreover have len: "length (co_managers (km_coord k')) = length (co_managers (km_coord k))"
    using assms by (simp add: only_co_def same_coord_def)
  ultimately obtain j where j: "j < length (co_managers (km_coord k))" "km_blocks x k' j \<noteq> []"
    by (auto simp: holders_def in_set_conv_nth)
  then show "x \<in> insert rid (holders k)" using assms
    by (cases "x = rid") (auto simp: only_co_def only_req_def holders_def)
qed

lemma km_co_kept:
  assumes "plain_km k" and "plain_co c \<and> only_co rid (km_coord k) c"
  shows "km_kept {rid} k (k\<lparr>km_coord := c\<rparr>)"
proof -
  have s: "same_km k (k\<lparr>km_coord := c\<rparr>)" using assms(2) by (cases k) (simp add: same_km_def only_co_def)
  obtain xs ys where "km_state k xs" "co_state c ys" using assms by (auto simp: plain_km_def plain_co_def)
  then have "km_state (k\<lparr>km_coord := c\<rparr>) ys" using km_state_move [OF _ s] by simp
  then show ?thesis using plain_km_move [OF assms(1) s] holders_only_co [of rid k "k\<lparr>km_coord := c\<rparr>"] assms(2)
    by (simp add: km_kept_def)
qed

lemma plain_km_co: "plain_km k \<Longrightarrow> plain_co (km_coord k)"
  by (auto simp: plain_km_def plain_co_def km_state_def)

lemma allocate_slots_kept:
  assumes "plain_km k" and "allocate_slots nh hf r nnew nhit nc look delay k = Ok (res, k')"
  shows "km_kept {request_id r} k k'"
proof -
  have off: "\<not> km_enable_caching k" using assms(1) by (simp add: plain_km_def)
  have nz: "nnew \<noteq> 0" using assms(2) by (auto simp: allocate_slots_def)
  obtain res0 c where c: "reserve_slots (request_id r) (num_computed_tokens r) (slots_needed r nnew nhit look k) (hits_given nc k)
      (km_enable_caching k) (km_coord k) = Ok (res0, c)"
    using assms(2) nz by (auto simp: allocate_slots_def Let_def slots_needed_def hits_given_def res_simps)
  have "k' = k\<lparr>km_coord := c\<rparr>" using assms(2) off by (simp add: allocate_slots_eq [OF nz c])
  moreover have "plain_co c \<and> only_co (request_id r) (km_coord k) c"
    using reserve_slots_kept [OF plain_km_co [OF assms(1)]] c off by simp
  ultimately show ?thesis using km_co_kept [OF assms(1)] by simp
qed

lemma km_free_kept:
  assumes "plain_km k" and "km_free r k = Ok k'"
  shows "plain_km k'" and "holders k' = holders k - {request_id r}"
proof -
  obtain xs where st: "km_state k xs" using assms(1) by (auto simp: plain_km_def)
  obtain k1 ys where k1: "km_free r k = Ok k1" "km_state k1 ys" "same_km k k1"
      "\<forall>j < length (co_managers (km_coord k)). \<forall>rid. km_blocks rid k1 j = (if rid = request_id r then [] else km_blocks rid k j)"
    by (rule km_free_spec [OF st])
  have k': "k1 = k'" using assms(2) k1(1) by simp
  show "plain_km k'" using plain_km_move [OF assms(1) k1(3,2)] by (simp add: k')
  have len: "length (co_managers (km_coord k1)) = length (co_managers (km_coord k))"
    using k1(3) by (simp add: same_km_def same_coord_def)
  show "holders k' = holders k - {request_id r}"
  proof (rule set_eqI)
    show "x \<in> holders k' \<longleftrightarrow> x \<in> holders k - {request_id r}" for x
      using k1(4) len unfolding k' [symmetric] by (cases "x = request_id r") (simp_all add: holders_nth cong: conj_cong)
  qed
qed

lemma km_common_kept:
  assumes "plain_km k" and "km_get_num_common_prefix_blocks r n k = Ok (ns, k')"
  shows "km_kept {request_id r} k k'"
proof -
  obtain c where c: "co_get_num_common_prefix_blocks (request_id r) n (km_coord k) = Ok (ns, c)" "k' = k\<lparr>km_coord := c\<rparr>"
    using assms(2) by (auto simp: km_get_num_common_prefix_blocks_def res_simps)
  let ?f = "\<lambda>i a p m. let (n, m') = get_num_common_prefix_blocks (request_id r) n p m in Ok (n, a, p, m')"
  have step: "mgr_kept (request_id r) R p m p' m' \<and> True"
    if "\<not> enable_caching p" "True" "mgr_state p xs R m" "?f j a p m = Ok (out, a', p', m')"
    for j :: nat and a :: unit and p xs R m out and a' :: unit and p' m'
    using that(3,4) mgr_kept_read [OF that(3)]
    by (auto simp: get_num_common_prefix_blocks_def mgr_kept_def split_beta Let_def split: kv_cache_spec.splits)
  have "plain_co c \<and> only_co (request_id r) (km_coord k) c"
  proof (cases "co_kind (km_coord k) = NoPrefixCache")
    case True
    then show ?thesis using c(1) plain_km_co [OF assms(1)] by (simp add: co_get_num_common_prefix_blocks_def)
  next
    case False
    then obtain u where r: "coord_run ?f () (km_coord k) = Ok (ns, u, c)"
      using c(1) by (auto simp: co_get_num_common_prefix_blocks_def res_simps split: coord_kind.splits)
    note k = coord_run_kept [OF plain_km_co [OF assms(1)] r, where Q = "\<lambda>_. True" and S = "\<lambda>_. True", OF _ step]
    show ?thesis by (intro conjI k) simp_all
  qed
  from km_co_kept [OF assms(1) this] show ?thesis by (simp add: c(2))
qed

lemma km_light_kept:
  assumes "plain_km k"
  shows "get_computed_blocks nh hf r k = Ok (out, k') \<Longrightarrow> km_kept {} k k'"
    and "km_cache_blocks nh hf r n k = Ok k' \<Longrightarrow> km_kept {} k k'"
    and "km_reset_prefix_cache k = Ok (b, k') \<Longrightarrow> km_kept {} k k'"
    and "km_take_events k = (es, k') \<Longrightarrow> km_kept {} k k'"
    and "make_prefix_cache_stats k = (st, k') \<Longrightarrow> km_kept {} k k'"
    and "km_kept {} k (free_block_hashes r k)"
proof -
  obtain xs where st: "km_state k xs" using assms by (auto simp: plain_km_def)
  have off: "\<not> km_enable_caching k" using assms by (simp add: plain_km_def)
  have kept: "km_kept {} k k'" if "same_km k k'" "km_state k' ys" "co_managers (km_coord k') = co_managers (km_coord k)" for k' ys
    using plain_km_move [OF assms that(1,2)] that(3) by (simp add: km_kept_def holders_def)
  show "km_kept {} k k'" if "get_computed_blocks nh hf r k = Ok (out, k')"
    using that off assms by (auto simp: get_computed_blocks_def km_kept_def)
  show "km_kept {} k k'" if "km_cache_blocks nh hf r n k = Ok k'"
    using that off assms by (auto simp: km_cache_blocks_def km_kept_def)
  show "km_kept {} k k'" if r: "km_reset_prefix_cache k = Ok (b, k')"
  proof -
    have "co_managers (km_coord k') = co_managers (km_coord k)"
      using r by (auto simp: km_reset_prefix_cache_def Let_def split: prod.splits if_splits option.splits)
    then show ?thesis using km_reset_spec [OF st] r kept by auto
  qed
  show "km_kept {} k k'" if e: "km_take_events k = (es, k')"
  proof -
    have "co_managers (km_coord k') = co_managers (km_coord k)"
      using e by (auto simp: km_take_events_def split: prod.splits)
    then show ?thesis using km_events_keeps [OF e st] kept by blast
  qed
  show "km_kept {} k k'" if m: "make_prefix_cache_stats k = (st', k')" for st'
  proof -
    have "co_managers (km_coord k') = co_managers (km_coord k)"
      using m by (auto simp: make_prefix_cache_stats_def split: if_splits)
    then show ?thesis using km_light_keeps(1) [OF st m] kept by blast
  qed
  show "km_kept {} k (free_block_hashes r k)"
    using km_light_keeps(2) [OF st] kept [of "free_block_hashes r k"] by (auto simp: free_block_hashes_def)
qed

section \<open>The interface of the scheduler\<close>

text \<open>
  What the scheduler relies on to account for blocks: each operation it calls keeps \<open>valid\<close>, only
  an operation for a request makes it a holder, and freeing ends that.
\<close>

locale kv_accounts =
  fixes valid :: "kv_cache_manager \<Rightarrow> bool"
    and holds :: "kv_cache_manager \<Rightarrow> string set"
  assumes computed: "valid k \<Longrightarrow> get_computed_blocks nh hf r k = Ok (out, k') \<Longrightarrow> valid k' \<and> holds k' \<subseteq> holds k"
    and alloc: "valid k \<Longrightarrow> allocate_slots nh hf r nnew nhit nc look delay k = Ok (res, k') \<Longrightarrow>
      valid k' \<and> holds k' \<subseteq> insert (request_id r) (holds k)"
    and publish: "valid k \<Longrightarrow> km_cache_blocks nh hf r n k = Ok k' \<Longrightarrow> valid k' \<and> holds k' \<subseteq> holds k"
    and free: "valid k \<Longrightarrow> km_free r k = Ok k' \<Longrightarrow> valid k' \<and> holds k' \<subseteq> holds k - {request_id r}"
    and forget: "valid k \<Longrightarrow> valid (free_block_hashes r k) \<and> holds (free_block_hashes r k) \<subseteq> holds k"
    and reset: "valid k \<Longrightarrow> km_reset_prefix_cache k = Ok (b, k') \<Longrightarrow> valid k' \<and> holds k' \<subseteq> holds k"
    and common: "valid k \<Longrightarrow> km_get_num_common_prefix_blocks r num_running k = Ok (ns, k') \<Longrightarrow>
      valid k' \<and> holds k' \<subseteq> insert (request_id r) (holds k)"
    and events: "valid k \<Longrightarrow> km_take_events k = (es, k') \<Longrightarrow> valid k' \<and> holds k' \<subseteq> holds k"
    and stats: "valid k \<Longrightarrow> make_prefix_cache_stats k = (st, k') \<Longrightarrow> valid k' \<and> holds k' \<subseteq> holds k"

interpretation plain: kv_accounts plain_km holders
proof unfold_locales
  show "plain_km k' \<and> holders k' \<subseteq> insert (request_id r) (holders k)"
    if "plain_km k" "allocate_slots nh hf r nnew nhit nc look delay k = Ok (res, k')" for k nh hf r nnew nhit nc look delay res k'
    using allocate_slots_kept [OF that] by (simp add: km_kept_def)
  show "plain_km k' \<and> holders k' \<subseteq> insert (request_id r) (holders k)"
    if "plain_km k" "km_get_num_common_prefix_blocks r n k = Ok (ns, k')" for k r n ns k'
    using km_common_kept [OF that] by (simp add: km_kept_def)
  show "plain_km k' \<and> holders k' \<subseteq> holders k - {request_id r}" if "plain_km k" "km_free r k = Ok k'" for k r k'
    using km_free_kept [OF that] by simp
  show "plain_km (free_block_hashes r k) \<and> holders (free_block_hashes r k) \<subseteq> holders k" if "plain_km k" for r k
    using km_light_kept(6) [OF that, of r] by (simp add: km_kept_def)
qed (rule km_light_kept(1-5) [unfolded km_kept_def Un_empty_right]; assumption)+

end
