(* ===== verification/Scheduler_Holdings.thy ===== *)
theory Scheduler_Holdings
  imports Scheduler_Properties KV_Holdings
begin

text \<open>
  Scheduler and KV-cache manager together.  Inside the interface \<open>kv_accounts\<close>: every operation of
  the scheduler keeps the invariant of the manager, and only requests the scheduler knows hold
  blocks.  The interface is used twice, for the accounting of blocks without prefix caching
  and for the fact that the manager's configuration never changes.
\<close>

section \<open>Blocks are held by known requests\<close>

definition accounted :: "(kv_cache_manager \<Rightarrow> bool) \<Rightarrow> (kv_cache_manager \<Rightarrow> string set) \<Rightarrow> scheduler \<Rightarrow> bool" where
  "accounted valid holds s \<longleftrightarrow> valid (s_kv s) \<and> holds (s_kv s) \<subseteq> dom (map_of (requests s)) \<and>
     (\<forall>rid r. map_of (requests s) rid = Some r \<longrightarrow> request_id r = rid)"

lemma accountedD:
  assumes "accounted valid holds s"
  shows "valid (s_kv s)" and "get_req rid s = Ok r \<Longrightarrow> request_id r = rid" and "x \<in> holds (s_kv s) \<Longrightarrow> \<exists>r. map_of (requests s) x = Some r"
  using assms by (auto simp: accounted_def get_req_Ok)

lemma accounted_same: "accounted valid holds s \<Longrightarrow> s_kv s' = s_kv s \<Longrightarrow> requests s' = requests s \<Longrightarrow> accounted valid holds s'"
  by (simp add: accounted_def)

text \<open>The object of a request is written while the manager works for it.\<close>

lemma accounted_put:
  assumes "accounted valid holds s" and "requests s' = AList.update (request_id r) r (requests s)"
    and "valid (s_kv s') \<and> holds (s_kv s') \<subseteq> insert (request_id r) (holds (s_kv s))"
  shows "accounted valid holds s'"
  using assms by (auto simp: accounted_def update_conv')

lemma accounted_put_same:
  "accounted valid holds s \<Longrightarrow> requests s' = AList.update (request_id r) r (requests s) \<Longrightarrow> s_kv s' = s_kv s \<Longrightarrow> accounted valid holds s'"
  by (rule accounted_put) (auto simp: accounted_def)

lemma accounted_kv:
  assumes "accounted valid holds s" and "requests s' = requests s" and "get_req rid s = Ok r"
    and "valid (s_kv s') \<and> holds (s_kv s') \<subseteq> insert (request_id r) (holds (s_kv s))"
  shows "accounted valid holds s'"
  using assms accountedD(2) [OF assms(1,3)] by (auto simp: accounted_def get_req_Ok)

lemma accounted_less:
  assumes "accounted valid holds s" and "requests s' = requests s" and "valid (s_kv s') \<and> holds (s_kv s') \<subseteq> holds (s_kv s)"
  shows "accounted valid holds s'"
  using assms by (auto simp: accounted_def)

text \<open>One operation of a scheduler, and histories as sequences of them.\<close>

inductive sched_op :: "bool \<Rightarrow> scheduler \<Rightarrow> scheduler \<Rightarrow> bool" for async where
  add: "map_of (requests s) (request_id r) = None \<Longrightarrow> status r \<in> {WAITING, WAITING_FOR_FSM} \<Longrightarrow>
    sched_add_request env r s = Ok s' \<Longrightarrow> sched_op async s s'"
| step: "schedule async env s = Ok (out, evs, s') \<Longrightarrow> sched_op async s s'"
| update: "update_from_output async env out mro s = Ok (outs, s') \<Longrightarrow> sched_op async s s'"
| finish: "finish_requests env ids st s = Ok s' \<Longrightarrow> sched_op async s s'"
| reset: "sched_reset_prefix_cache s = Ok (b, s') \<Longrightarrow> sched_op async s s'"

lemma sched_reach_ops [consumes 1, case_names start op]:
  assumes "sched_reach async s"
    and "\<And>su cfg fin log s. Scheduler_init su cfg fin log = Ok s \<Longrightarrow> P s"
    and "\<And>s s'. sched_reach async s \<Longrightarrow> sched_op async s s' \<Longrightarrow> P s \<Longrightarrow> P s'"
  shows "P s"
  using assms(1)
  by (induction rule: sched_reach.induct) (blast intro: assms(2,3) sched_op.intros)+

section \<open>Every operation keeps it\<close>

context kv_accounts
begin

lemma preempt_accounted:
  assumes "preempt env s = Ok (v, s')" and "accounted valid holds s"
  shows "accounted valid holds s'"
  using assms(1)
proof (cases rule: preempt_cases)
  case (1 r r2 rest k q)
  have "request_id r2 = request_id r" by (simp add: 1(4) record_event_def)
  then show ?thesis using free [OF accountedD(1) [OF assms(2)] 1(3)]
    by (intro accounted_put [OF assms(2), of s' r2]) (auto simp: 1(6))
qed

lemma allocate_or_preempt_accounted:
  "allocate_or_preempt env rid nnew s pre = Ok (res, s', pre') \<Longrightarrow> accounted valid holds s \<Longrightarrow> accounted valid holds s'"
proof (induction "length (running s)" arbitrary: s pre rule: less_induct)
  case less
  have kv: "accounted valid holds (s\<lparr>s_kv := k\<rparr>)"
    if "get_req rid s = Ok r" "allocate_slots nh hf r n m nc look d (s_kv s) = Ok (x, k)" for r nh hf n m nc look d x k
    using alloc [OF accountedD(1) [OF less.prems(2)] that(2)] by (intro accounted_kv [OF less.prems(2) _ that(1)]) simp_all
  from less.prems(1) show ?case
  proof (cases rule: allocate_or_preempt_cases)
    case (got r bs k)
    then show ?thesis using kv by simp
  next
    case (self r k)
    then show ?thesis using preempt_accounted kv by blast
  next
    case (other r k v s1)
    have "length (running s1) < length (running s)" using preempt_length [OF other(3)] by simp
    moreover have "accounted valid holds s1" using other kv preempt_accounted by blast
    ultimately show ?thesis using less.hyps other(5) by blast
  qed
qed

lemma schedule_running_one_accounted:
  assumes "schedule_running_one env acc = Ok (go, acc')" and "accounted valid holds (ac_s acc)"
  shows "accounted valid holds (ac_s acc')"
  using assms(1)
proof (cases rule: schedule_running_one_cases)
  case (idle r enc eb)
  then show ?thesis using assms(2) by simp
next
  case (out r enc n eb s1 pre)
  then show ?thesis using allocate_or_preempt_accounted [OF out(4) assms(2)] by simp
next
  case (runs r enc n eb bs s1 pre r1 r2 c struct spec)
  note a = allocate_or_preempt_accounted [OF runs(4) assms(2)]
  show ?thesis by (rule accounted_put_same [OF a, of _ r2]) (simp_all add: runs(9))
qed

lemma schedule_running_accounted:
  assumes "schedule_running env acc = Ok acc'" and "accounted valid holds (ac_s acc)"
  shows "accounted valid holds (ac_s acc')"
proof (rule schedule_running_induct [OF assms(1), where P = "\<lambda>acc. accounted valid holds (ac_s acc)"])
  show "if go then accounted valid holds (ac_s acc1) else accounted valid holds (ac_s acc1)"
    if "accounted valid holds (ac_s acc)" "schedule_running_one env acc = Ok (go, acc1)" for acc go acc1
    using schedule_running_one_accounted [OF that(2,1)] by simp
qed (rule assms(2), assumption)

lemma remote_kv_accounted:
  assumes "update_waiting_for_remote_kv env r s = Ok (b, s')" and "accounted valid holds s"
  shows "accounted valid holds s'"
proof -
  show ?thesis
  proof (cases "request_id r \<in> set (finished_recving_kv_req_ids s)")
    case True
    then obtain ids where ids: "km_get_block_ids (request_id r) (s_kv s) = [ids]"
      using assms(1) by (auto simp: update_waiting_for_remote_kv_def res_simps split: list.splits)
    then obtain k fin n where k: "km_cache_blocks (ev_nh env) (ev_hf env) r n (s_kv s) = Ok k"
        "s' = (put_req (r\<lparr>num_computed_tokens := n\<rparr>) s)\<lparr>s_kv := k, finished_recving_kv_req_ids := fin\<rparr>"
      using assms(1) True unfolding update_waiting_for_remote_kv_def ids list.case Let_def by (auto simp: rbind_eq_Ok)
    show ?thesis using publish [OF accountedD(1) [OF assms(2)] k(1)]
      by (intro accounted_put [OF assms(2), of s' "r\<lparr>num_computed_tokens := n\<rparr>"]) (auto simp: k(2))
  next
    case False
    then have "s' = s" using assms(1) by (simp add: update_waiting_for_remote_kv_def res_simps)
    then show ?thesis using assms(2) by simp
  qed
qed

lemma waiting_ready_accounted:
  assumes "waiting_ready env rid loras s = Ok (b, s')" and "accounted valid holds s"
  shows "accounted valid holds s'"
proof -
  note eq = assms(1) [unfolded waiting_ready_def]
  from eq obtain r where r: "get_req rid s = Ok r" by (cases "get_req rid s") simp_all
  let ?m = "if status r = WAITING_FOR_REMOTE_KVS
        then rbind (update_waiting_for_remote_kv env r s) (\<lambda>(is_ready, s1).
             if is_ready then rbind (get_req rid s1) (\<lambda>r1. Ok (True, put_req (r1\<lparr>status := WAITING\<rparr>) s1))
             else Ok (False, s1))
        else Ok (True, s)"
  from eq obtain ok s1 where m: "?m = Ok (ok, s1)" by (cases ?m) (auto simp: r)
  have put: "accounted valid holds (put_req x t)" if "accounted valid holds t" for x t
    by (rule accounted_put_same [OF that, of _ x]) simp_all
  have s1: "accounted valid holds s1"
  proof (cases "status r = WAITING_FOR_REMOTE_KVS")
    case True
    then obtain b0 s0 where u: "update_waiting_for_remote_kv env r s = Ok (b0, s0)"
      using m by (cases "update_waiting_for_remote_kv env r s") auto
    note a0 = remote_kv_accounted [OF u assms(2)]
    then show ?thesis using m True u put by (cases b0) (auto simp: res_simps)
  qed (use m assms(2) in simp)
  have eq1: "(if \<not> ok then Ok (False, s1) else rbind (get_req rid s1) (\<lambda>r1.
       if status r1 = WAITING_FOR_FSM \<and> \<not> ev_grammar_ready env r1 then Ok (False, s1)
       else let r2 = (if status r1 = WAITING_FOR_FSM then r1\<lparr>status := WAITING\<rparr> else r1)
            in Ok (\<not> lora_blocked (s_cfg s1) loras r2, put_req r2 s1))) = Ok (b, s')"
    using eq unfolding r rbind.simps m prod.case .
  show ?thesis
  proof (cases ok)
    case True
    then obtain r1 where r1: "get_req rid s1 = Ok r1" using eq1 by (cases "get_req rid s1") simp_all
    have "s' = s1 \<or> (\<exists>x. s' = put_req x s1)"
      using eq1 True unfolding r1 rbind.simps Let_def by (simp split: if_splits) blast+
    then show ?thesis using s1 put by blast
  qed (use eq1 s1 in simp)
qed

lemma find_computed_accounted:
  assumes "find_computed env r s = Ok (ct, s')" and "accounted valid holds s"
  shows "accounted valid holds s'"
proof -
  show ?thesis
  proof (cases "num_computed_tokens r = 0")
    case True
    then obtain out k where k: "get_computed_blocks (ev_nh env) (ev_hf env) r (s_kv s) = Ok (out, k)" "s' = s\<lparr>s_kv := k\<rparr>"
      using assms(1) unfolding find_computed_def
      by (cases "get_computed_blocks (ev_nh env) (ev_hf env) r (s_kv s)") (auto simp: Let_def split_beta)
    show ?thesis using computed [OF accountedD(1) [OF assms(2)] k(1)] by (intro accounted_less [OF assms(2)]) (simp_all add: k(2))
  next
    case False
    then show ?thesis using assms by (simp add: find_computed_def)
  qed
qed

lemma skip_waiting_accounted: "skip_waiting rid acc = Ok (go, acc') \<Longrightarrow> accounted valid holds (ac_s acc) \<Longrightarrow> accounted valid holds (ac_s acc')"
  by (erule skip_waiting_cases) (simp add: accounted_def)

lemma admit_accounted: "admit env v ct choice acc = Ok acc' \<Longrightarrow> accounted valid holds (ac_s acc) \<Longrightarrow> accounted valid holds (ac_s acc')"
proof -
  obtain e n b where c: "choice = (e, n, b)" by (cases choice)
  assume a: "admit env v ct choice acc = Ok acc'" and i: "accounted valid holds (ac_s acc)"
  from a [unfolded c] show ?thesis
  proof (cases rule: admit_cases)
    case (1 r r2 c new resumed loras struct)
    show ?thesis by (rule accounted_put_same [OF i, of _ r2]) (simp_all add: 1(5))
  qed
qed

lemma schedule_waiting_one_accounted:
  assumes "schedule_waiting_one env acc = Ok (go, acc')" and "accounted valid holds (ac_s acc)"
  shows "accounted valid holds (ac_s acc')"
  using assms(1)
proof (cases rule: schedule_waiting_one_cases)
  case (not_ready rid s1)
  then show ?thesis using waiting_ready_accounted [OF _ assms(2)] skip_waiting_accounted [OF not_ready(4)] by simp
next
  case (ready rid s1 r ct s2 choice)
  have a1: "accounted valid holds s1" by (rule waiting_ready_accounted [OF ready(2) assms(2)])
  have a2: "accounted valid holds s2" by (rule find_computed_accounted [OF ready(4) a1])
  have r2: "get_req rid s2 = Ok r"
    using ready(3,4) by (auto simp: find_computed_def get_req_def res_simps Let_def split_beta split: if_splits)
  have a3: "accounted valid holds (s2\<lparr>s_kv := k\<rparr>)"
    if "allocate_slots nh hf r n m nc look d (s_kv (ac_s (acc\<lparr>ac_s := s2\<rparr>))) = Ok (x, k)" for nh hf n m nc look d x k
    using alloc [OF accountedD(1) [OF a2]] that by (intro accounted_kv [OF a2 _ r2]) simp_all
  from ready(7) show ?thesis
  proof (cases rule: place_waiting_cases)
    case skip
    show ?thesis by (rule skip_waiting_accounted [OF skip(2)]) (simp add: a2)
  next
    case stop
    then show ?thesis using a2 by simp
  next
    case (full enc_inputs nnew eb k)
    then show ?thesis using a3 [OF full(2)] by simp
  next
    case (async enc_inputs nnew eb bs k v q r' sk)
    show ?thesis
      by (rule accounted_put_same [OF a3 [OF async(2)], of _ "r'\<lparr>status := WAITING_FOR_REMOTE_KVS\<rparr>"]) (simp_all add: async(8))
  next
    case (go enc_inputs nnew eb bs k v q)
    have "accounted valid holds (s2\<lparr>s_kv := k, waiting := q\<rparr>)" by (rule accounted_same [OF a3 [OF go(2)]]) simp_all
    then show ?thesis using admit_accounted [OF go(6)] by simp
  qed
qed

lemma schedule_waiting_accounted:
  "schedule_waiting env acc = Ok acc' \<Longrightarrow> accounted valid holds (ac_s acc) \<Longrightarrow> accounted valid holds (ac_s acc')"
  by (erule schedule_waiting_induct, assumption) (rule schedule_waiting_one_accounted)

lemma schedule_decide_accounted:
  assumes "schedule_decide env s = Ok acc" and "accounted valid holds s"
  shows "accounted valid holds (ac_s acc)"
  using assms(1)
proof (cases rule: schedule_decide_cases)
  case (1 acc1 l acc3)
  have a1: "accounted valid holds (ac_s acc1)" by (rule schedule_running_accounted [OF 1(1)]) (simp add: acc_init_def assms(2))
  then have "accounted valid holds (ac_s acc3)" using 1(2) schedule_waiting_accounted [of env "acc1\<lparr>ac_loras := l\<rparr>" acc3] by (auto split: if_splits)
  then show ?thesis using 1(3) by (auto elim!: put_back_skipped_cases simp: accounted_def)
qed

lemma common_prefix_accounted:
  assumes "common_prefix s = Ok (ns, s')" and "accounted valid holds s"
  shows "accounted valid holds s'"
proof -
  show ?thesis
  proof (cases "running s")
    case (Cons rid rest)
    then obtain r k where k: "get_req rid s = Ok r" "s' = s\<lparr>s_kv := k\<rparr>"
        "km_get_num_common_prefix_blocks r (int (length (running s))) (s_kv s) = Ok (ns, k)"
      using assms(1) unfolding common_prefix_def Cons list.case rbind_eq_Ok by auto
    show ?thesis using common [OF accountedD(1) [OF assms(2)] k(3)]
      by (intro accounted_kv [OF assms(2) _ k(1)]) (simp_all add: k(2))
  qed (use assms in \<open>simp add: common_prefix_def\<close>)
qed

lemma advance_accounted:
  assumes "update_after_schedule ts s = Ok s'" and "accounted valid holds s"
  shows "accounted valid holds s'"
proof -
  obtain s1 where s1: "rfold advance_request ts s = Ok s1" "s' = s1\<lparr>finished_req_ids := []\<rparr>"
    using assms(1) by (auto simp: update_after_schedule_def res_simps)
  have "accounted valid holds s1" using s1(1) assms(2)
  proof (rule rfold_invariant)
    show "accounted valid holds t" if "accounted valid holds s" "advance_request x s = Ok t" for x s t
    proof -
      obtain rid n where x: "x = (rid, n)" by (cases x)
      from that(2) [unfolded x] show ?thesis
      proof (cases rule: advance_request_cases)
        case (1 r c)
        show ?thesis
          by (rule accounted_put_same [OF that(1), of _ "r\<lparr>num_computed_tokens := num_computed_tokens r + n\<rparr>"]) (simp_all add: 1(2))
      qed
    qed
  qed
  then show ?thesis by (rule accounted_same) (simp_all add: s1(2))
qed

lemma async_advance_accounted:
  assumes "async_update_after_schedule ts s = Ok s'" and "accounted valid holds s"
  shows "accounted valid holds s'"
proof -
  obtain s1 where s1: "update_after_schedule ts s = Ok s1" "rfold add_placeholder ts s1 = Ok s'"
    using assms(1) by (auto simp: async_update_after_schedule_def res_simps)
  show ?thesis using s1(2) advance_accounted [OF s1(1) assms(2)]
  proof (rule rfold_invariant)
    show "accounted valid holds t" if i: "accounted valid holds s" and a: "add_placeholder x s = Ok t" for x s t
    proof -
      obtain c r where "t = (if c then put_req r s else s)" using a unfolding add_placeholder_def split_beta rbind_eq_Ok by blast
      then show ?thesis using i accounted_put_same [OF i, of t r] by (cases c) simp_all
    qed
  qed
qed

lemma schedule_accounted:
  assumes "schedule async env s = Ok (out, evs, s')" and "accounted valid holds s"
  shows "accounted valid holds s'"
  using assms(1)
proof (cases rule: schedule_cases)
  case (1 acc prefix s1 new_reqs cached c k)
  have a1: "accounted valid holds s1" by (rule common_prefix_accounted [OF 1(3) schedule_decide_accounted [OF 1(1) assms(2)]])
  have "accounted valid holds (s1\<lparr>s_enc := c, s_kv := k\<rparr>)"
    using events [OF accountedD(1) [OF a1] 1(11)] by (intro accounted_less [OF a1]) simp_all
  then show ?thesis using 1(10) advance_accounted async_advance_accounted by (cases async) simp_all
qed

text \<open>Freeing: the request gives up its blocks before it leaves the dictionary.\<close>

lemma free_blocks_accounted:
  assumes "sched_free_blocks r s = Ok s'" and "accounted valid holds s"
  shows "accounted valid holds s'"
proof -
  obtain k where k: "km_free r (s_kv s) = Ok k"
      "s' = s\<lparr>s_kv := free_block_hashes r k, requests := AList.delete (request_id r) (requests s)\<rparr>"
    using assms(1) by (auto simp: sched_free_blocks_def res_simps split: if_splits)
  note f = free [OF accountedD(1) [OF assms(2)] k(1)]
  note h = forget [OF conjunct1 [OF f], of r]
  show ?thesis using assms(2) f h by (auto simp: accounted_def k(2) delete_conv')
qed

lemma free_request_accounted:
  assumes "free_request env r s = Ok (params, s')" and "accounted valid holds s"
  shows "accounted valid holds s'"
proof -
  obtain d c fin where e: "(if d then Ok (c, fin) else rbind (sched_free_blocks r fin) (\<lambda>s2. Ok (c, s2))) = Ok (params, s')"
      "s_kv fin = s_kv s" "requests fin = requests s"
    using assms(1) unfolding free_request_def rbind_eq_Ok split_beta Let_def by (elim exE conjE) (erule that, simp_all)
  then obtain s1 where s1: "s_kv s1 = s_kv s" "requests s1 = requests s" "s' = s1 \<or> sched_free_blocks r s1 = Ok s'"
    by (cases d) (auto simp: rbind_eq_Ok)
  have "accounted valid holds s1" by (rule accounted_same [OF assms(2) s1(1,2)])
  then show ?thesis using s1(3) free_blocks_accounted by blast
qed

lemma put_back_accounted:
  assumes "accounted valid holds s"
  shows "accounted valid holds (put_back r s)"
proof (cases "map_of (requests s) (request_id r)")
  case (Some x)
  show ?thesis by (rule accounted_put_same [OF assms, of _ r]) (simp_all add: put_back_def Some)
qed (use assms in \<open>simp add: put_back_def\<close>)

lemma update_request_accounted:
  assumes "update_request_with_output async env r ts s = Ok (ids, b, r', s')" and "accounted valid holds s"
  shows "accounted valid holds s'"
proof -
  note eq = assms(1) [unfolded update_request_with_output_def]
  let ?a = "append_until_stop (sc_max_model_len (s_cfg s)) ts r"
  from eq obtain ids1 b1 r1 where a: "?a = Ok (ids1, b1, r1)" by (cases ?a) auto
  show ?thesis
  proof (cases "async \<and> status r = RUNNING")
    case True
    then obtain r2 n k where k: "km_cache_blocks (ev_nh env) (ev_hf env) r2 n (s_kv s) = Ok k" "s' = s\<lparr>s_kv := k\<rparr>"
      using eq unfolding a rbind.simps prod.case Let_def by (auto simp: rbind_eq_Ok)
    show ?thesis using publish [OF accountedD(1) [OF assms(2)] k(1)] by (intro accounted_less [OF assms(2)]) (simp_all add: k(2))
  next
    case False
    then have "s' = s" using eq unfolding a rbind.simps prod.case Let_def by (auto simp: rbind_eq_Ok split: if_splits)
    then show ?thesis using assms(2) by simp
  qed
qed

lemma settle_request_accounted:
  assumes "settle_request async env mro idx generated r s = Ok ((ids, stopped, pooler, params), r2, s2)" and "accounted valid holds s"
  shows "accounted valid holds s2"
proof -
  note eq = assms(1) [unfolded settle_request_def]
  let ?u = "if generated \<noteq> [] then update_request_with_output async env r generated s else Ok (generated, False, r, s)"
  from eq obtain ids1 b1 r1 s1 where u: "?u = Ok (ids1, b1, r1, s1)" by (cases ?u) auto
  have a1: "accounted valid holds s1"
    using u assms(2) update_request_accounted [of async env r generated s] by (cases "generated = []") simp_all
  let ?p = "if mr_pooler mro \<noteq> []
            then rbind (py_index (mr_pooler mro) idx) (\<lambda>p.
                 rbind (check_stop (sc_max_model_len (s_cfg s1)) p r1) (\<lambda>(stopped2, r2). Ok (p, stopped2, r2)))
            else Ok (None, b1, r1)"
  from eq obtain p b2 r3 where p: "?p = Ok (p, b2, r3)" by (cases ?p) (auto simp: u)
  have e3: "(if b2 then rbind (free_request env r3 (put_back r3 s1)) (\<lambda>(params, s2). Ok ((ids1, b2, p, params), r3, s2))
     else Ok ((ids1, b2, p, None), r3, s1)) = Ok ((ids, stopped, pooler, params), r2, s2)"
    using eq by (simp add: u p)
  show ?thesis
  proof (cases b2)
    case True
    from e3 True obtain ps s3 where f: "free_request env r3 (put_back r3 s1) = Ok (ps, s3)"
      by (cases "free_request env r3 (put_back r3 s1)") auto
    from e3 [unfolded f rbind.simps prod.case] True have "s2 = s3" by simp
    then show ?thesis using free_request_accounted [OF f put_back_accounted [OF a1]] by simp
  next
    case False
    then show ?thesis using e3 a1 by simp
  qed
qed

lemma update_one_accounted:
  assumes "update_one async env out mro (rid, n) acc = Ok acc'" and "accounted valid holds (up_s acc)"
  shows "accounted valid holds (up_s acc')"
  using assms(1)
proof (cases rule: update_one_cases)
  case gone
  then show ?thesis using assms(2) by simp
next
  case (alive r r1 r2 r5 s2 ids stopped pooler params idx generated)
  show ?thesis unfolding alive(7) by (rule put_back_accounted [OF settle_request_accounted [OF alive(2) assms(2)]])
qed

lemma kv_xfer_accounted:
  assumes "update_from_kv_xfer_finished recv send s = Ok s'" and "accounted valid holds s"
  shows "accounted valid holds s'"
proof (rule rfold_invariant [OF assms(1) [unfolded update_from_kv_xfer_finished_def]])
  show "accounted valid holds t" if i: "accounted valid holds s1" and st: "rbind (get_req rid s1) (\<lambda>r. sched_free_blocks r s1) = Ok t" for rid s1 t
    using st free_blocks_accounted [OF _ i] by (auto simp: rbind_eq_Ok)
qed (rule accounted_same [OF assms(2)], simp_all)

lemma make_stats_accounted:
  assumes "make_stats spec s = Ok (st, s')" and "accounted valid holds s"
  shows "accounted valid holds s'"
proof (cases "sc_log_stats (s_cfg s)")
  case True
  obtain p k where p: "make_prefix_cache_stats (s_kv s) = (p, k)" by (cases "make_prefix_cache_stats (s_kv s)")
  note eq = assms(1) [unfolded make_stats_def p Let_def prod.case]
  have "s' = s\<lparr>s_kv := k\<rparr>" using eq True by (cases p) (auto simp: rbind_eq_Ok)
  then show ?thesis using stats [OF accountedD(1) [OF assms(2)] p] by (intro accounted_less [OF assms(2)]) simp_all
next
  case False
  then show ?thesis using assms by (simp add: make_stats_def)
qed

lemma attach_stats_accounted:
  assumes "attach_stats spec outs s = Ok (outs', s')" and "accounted valid holds s"
  shows "accounted valid holds s'"
proof (cases outs)
  case (Cons x xs)
  then show ?thesis using assms make_stats_accounted [OF _ assms(2)] by (cases x) (auto simp: attach_stats_def rbind_eq_Ok)
qed (use assms in \<open>simp add: attach_stats_def\<close>)

lemma update_from_output_accounted:
  assumes "update_from_output async env out mro s = Ok (outs, s')" and "accounted valid holds s"
  shows "accounted valid holds s'"
proof -
  let ?acc = "\<lparr>up_s = s, up_outputs = [], up_spec = None, up_stopped_running = [], up_stopped_preempted = []\<rparr>"
  from assms(1) obtain acc s1 s2 outs2 where
    u: "rfold (update_one async env out mro) (so_num_scheduled_tokens out) ?acc = Ok acc" and r: "remove_stopped acc = Ok s1"
    and k: "update_from_kv_xfer_finished (or_empty (mr_finished_recving mro)) (or_empty (mr_finished_sending mro)) s1 = Ok s2"
    and a: "attach_stats (up_spec acc) outs2 (s2\<lparr>finished_req_ids_dict := map_option (\<lambda>_. []) (finished_req_ids_dict s2)\<rparr>) = Ok (outs, s')"
    unfolding update_from_output_def Let_def res_simps by blast
  have "accounted valid holds (up_s acc)"
  proof (rule rfold_invariant [OF u])
    show "accounted valid holds (up_s t)" if "accounted valid holds (up_s b)" "update_one async env out mro x b = Ok t" for x b t
      using update_one_accounted [of async env out mro "fst x" "snd x" b t] that by simp
  qed (simp add: assms(2))
  then have "accounted valid holds s1"
    by (rule accounted_same) (use r in \<open>auto simp: remove_stopped_def Let_def rbind_eq_Ok split: if_splits\<close>)
  then have "accounted valid holds s2" by (rule kv_xfer_accounted [OF k])
  then have "accounted valid holds (s2\<lparr>finished_req_ids_dict := map_option (\<lambda>_. []) (finished_req_ids_dict s2)\<rparr>)"
    by (rule accounted_same) simp_all
  then show ?thesis by (rule attach_stats_accounted [OF a])
qed

lemma finish_requests_accounted:
  assumes "finish_requests env ids st s = Ok s'" and "accounted valid holds s"
  shows "accounted valid holds s'"
proof -
  let ?valid = "List.map_filter (map_of (requests s)) (remdups ids)"
  let ?run = "filter (\<lambda>r. status r = RUNNING) ?valid" and ?wait = "filter (\<lambda>r. status r \<noteq> RUNNING) ?valid"
  note eq = assms(1) [unfolded finish_requests_def Let_def]
  from eq obtain s1 s2 where
    s1: "rfold (\<lambda>r s. rbind (list_remove (request_id r) (running s)) (\<lambda>rs. Ok (s\<lparr>running := rs\<rparr>))) ?run s = Ok s1"
    and s2: "(if ?wait = [] then Ok s1 else rbind (remove_requests (map request_id ?wait) (waiting s1)) (\<lambda>q. Ok (s1\<lparr>waiting := q\<rparr>))) = Ok s2"
    and s3: "rfold (\<lambda>r s. let r' = r\<lparr>status := st\<rparr> in rbind (free_request env r' (put_req r' s)) (\<lambda>(_, s'). Ok s')) ?valid s2 = Ok s'"
    unfolding res_simps Let_def by blast
  have "accounted valid holds s1" using s1 assms(2) by (rule rfold_invariant) (auto simp: rbind_eq_Ok accounted_def)
  then have a2: "accounted valid holds s2"
    by (rule accounted_same) (use s2 in \<open>auto simp: rbind_eq_Ok split: if_splits\<close>)
  show ?thesis
  proof (rule rfold_invariant [OF s3])
    fix r b t
    assume i: "accounted valid holds b" and f: "(let r' = r\<lparr>status := st\<rparr> in rbind (free_request env r' (put_req r' b)) (\<lambda>(_, s'). Ok s')) = Ok t"
    let ?r = "r\<lparr>status := st\<rparr>"
    from f obtain ps where ps: "free_request env ?r (put_req ?r b) = Ok (ps, t)"
      by (cases "free_request env ?r (put_req ?r b)") (auto simp: Let_def)
    show "accounted valid holds t"
      by (rule free_request_accounted [OF ps accounted_put_same [OF i, of _ ?r]]) simp_all
  qed (rule a2)
qed

lemma add_request_accounted:
  assumes "sched_add_request env r s = Ok s'" and "accounted valid holds s"
  shows "accounted valid holds s'"
proof -
  let ?r = "if sc_log_stats (s_cfg s) then record_event QUEUED (ev_now env) r else r"
  obtain q where "s' = put_req ?r (s\<lparr>waiting := q\<rparr>)" using assms(1) unfolding sched_add_request_def rbind_eq_Ok by blast
  then show ?thesis by (intro accounted_put_same [OF assms(2), of s' ?r]) simp_all
qed

lemma sched_reset_accounted:
  assumes "sched_reset_prefix_cache s = Ok (b, s')" and "accounted valid holds s"
  shows "accounted valid holds s'"
proof -
  obtain k where k: "km_reset_prefix_cache (s_kv s) = Ok (b, k)" "s' = s\<lparr>s_kv := k\<rparr>"
    using assms(1) by (auto simp: sched_reset_prefix_cache_def rbind_eq_Ok)
  show ?thesis using reset [OF accountedD(1) [OF assms(2)] k(1)] by (intro accounted_less [OF assms(2)]) (simp_all add: k(2))
qed

lemma sched_op_accounted: "sched_op async s s' \<Longrightarrow> accounted valid holds s \<Longrightarrow> accounted valid holds s'"
  by (erule sched_op.cases)
    (auto dest: add_request_accounted schedule_accounted update_from_output_accounted finish_requests_accounted sched_reset_accounted)

end

section \<open>Histories\<close>

text \<open>The manager is configured once: no operation changes the configuration.\<close>

abbreviation configured :: "kv_cache_config \<Rightarrow> bool \<Rightarrow> kv_cache_manager \<Rightarrow> bool" where
  "configured cfg e k \<equiv> km_config k = cfg \<and> km_enable_caching k = e"

lemma allocate_slots_configured:
  assumes "allocate_slots nh hf r nnew nhit nc look delay k = Ok (res, k')"
  shows "configured (km_config k) (km_enable_caching k) k'"
proof -
  have nz: "nnew \<noteq> 0" using assms by (auto simp: allocate_slots_def)
  obtain res0 c where c: "reserve_slots (request_id r) (num_computed_tokens r) (slots_needed r nnew nhit look k) (hits_given nc k)
      (km_enable_caching k) (km_coord k) = Ok (res0, c)"
    using assms nz by (auto simp: allocate_slots_def Let_def slots_needed_def hits_given_def rbind_eq_Ok)
  show ?thesis using assms unfolding allocate_slots_eq [OF nz c]
    by (cases "res0 = None \<or> \<not> km_enable_caching k \<or> delay") (auto simp: rbind_eq_Ok)
qed

lemma get_computed_blocks_configured:
  assumes "get_computed_blocks nh hf r k = Ok (out, k')"
  shows "configured (km_config k) (km_enable_caching k) k'"
proof -
  obtain cols n where out: "out = (cols, n)" by (cases out)
  from assms [unfolded out] show ?thesis
  proof (cases rule: get_computed_blocks_cases)
    case (search hs)
    let ?k = "k\<lparr>km_stats := km_stats k', req_to_block_hashes := req_to_block_hashes k'\<rparr>"
    have "configured (km_config k) (km_enable_caching k) ?k" by simp
    then show ?thesis unfolding search(4) [symmetric] .
  qed simp
qed

interpretation fixed: kv_accounts "configured cfg e" "\<lambda>_. {}" for cfg e
proof unfold_locales
  show "configured cfg e k' \<and> {} \<subseteq> insert (request_id r) {}"
    if "configured cfg e k" "allocate_slots nh hf r nnew nhit nc look delay k = Ok (res, k')" for k nh hf r nnew nhit nc look delay res k'
    using that(1) allocate_slots_configured [OF that(2)] by simp
  show "configured cfg e k' \<and> {} \<subseteq> {}" if "configured cfg e k" "get_computed_blocks nh hf r k = Ok (out, k')" for k nh hf r out k'
    using that(1) get_computed_blocks_configured [OF that(2)] by simp
qed (auto simp: km_cache_blocks_def km_free_def free_block_hashes_def km_reset_prefix_cache_def km_get_num_common_prefix_blocks_def
    km_take_events_def make_prefix_cache_stats_def Let_def split_beta rbind_eq_Ok split: if_splits option.splits)

lemma holders_new:
  assumes "KVCacheManager_init cfg ml caching ue lg ev = Ok k" and "\<forall>g \<in> set (kv_cache_groups cfg). good_spec (group_spec g)"
  shows "holders k = {}"
proof -
  obtain c e where c: "get_kv_cache_coordinator cfg ml ue e ev = Ok c" "km_coord k = c"
    using assms(1) unfolding KVCacheManager_init_def Let_def rbind_eq_Ok by auto
  have "co_managers c = make_managers cfg" by (rule get_kv_cache_coordinator_state(3) [OF c(1) assms(2)])
  then show ?thesis
    by (auto simp: holders_def c(2) get_manager_for_kv_cache_spec_def list_of_def elim!: make_managers_spec)
qed

lemma sched_reach_accounted:
  assumes "sched_reach async s" and "\<not> km_enable_caching (s_kv s)"
    and "\<forall>g \<in> set (kv_cache_groups (km_config (s_kv s))). good_spec (group_spec g)"
  shows "accounted plain_km holders s"
  using assms
proof (induction rule: sched_reach_ops)
  case (start su cfg fin log s)
  obtain k ue where k: "KVCacheManager_init cfg (su_max_model_len su) (su_enable_prefix_caching su) ue log (su_kv_events su) = Ok k"
      "s_kv s = k" "requests s = []"
    using start.hyps by (auto simp: Scheduler_init_def rbind_eq_Ok Let_def)
  have "km_config k = cfg" using k(1) by (auto simp: KVCacheManager_init_def rbind_eq_Ok Let_def)
  then obtain xs where "km_state k xs" using KVCacheManager_init_state(1) [OF k(1)] start.prems(2) by (auto simp: k(2))
  moreover have "holders k = {}" using holders_new [OF k(1)] start.prems(2) \<open>km_config k = cfg\<close> by (simp add: k(2))
  ultimately show ?case using start.prems(1) by (auto simp: accounted_def plain_km_def k)
next
  case (op s s')
  let ?v = "configured (km_config (s_kv s)) (km_enable_caching (s_kv s))"
  have "accounted ?v (\<lambda>_. {}) s"
    using sched_reach_inv [OF op.hyps(1)] by (auto simp: accounted_def sched_inv_def sched_wf_def queues_wf_def)
  from accountedD(1) [OF fixed.sched_op_accounted [OF op.hyps(2) this]]
  have c: "km_config (s_kv s') = km_config (s_kv s)" "km_enable_caching (s_kv s') = km_enable_caching (s_kv s)" by auto
  have "accounted plain_km holders s" by (rule op.IH) (use op.prems c in simp_all)
  then show ?case by (rule plain.sched_op_accounted [OF op.hyps(2)])
qed

section \<open>Properties\<close>

text \<open>
  C2.  Scheduler and KV-cache manager together leak no block: without prefix caching, in every
  history of the scheduler, whatever the policy, the model's answers and the connector do, a
  block is listed only for a request the scheduler still knows, its reference count is the
  number of its listings, the free queue holds exactly the blocks that are listed nowhere,
  and once all requests are gone all blocks but the null block are free.
\<close>

theorem scheduler_leaks_no_block:
  assumes "sched_reach async s" and "\<not> km_enable_caching (s_kv s)"
    and "\<forall>g \<in> set (kv_cache_groups (km_config (s_kv s))). good_spec (group_spec g)"
  shows "let p = km_pool (s_kv s); ms = co_managers (km_coord (s_kv s)) in
    (\<forall>m \<in> set ms. \<forall>rid. blocks_of rid m \<noteq> [] \<longrightarrow> (\<exists>r. get_req rid s = Ok r)) \<and>
    (\<forall>b. real_block p b \<longrightarrow> ref_cnt (blk p b) = int (\<Sum>m\<leftarrow>ms. count (dict_mset (req_to_blocks m)) b)) \<and>
    (\<exists>xs. get_all_free_blocks (free_block_queue p) = Ok (Some xs) \<and> distinct xs \<and>
       set xs = {b. real_block p b \<and> (\<forall>m \<in> set ms. \<forall>rid. b \<notin> set (blocks_of rid m))}) \<and>
    (requests s = [] \<longrightarrow> get_num_free_blocks p = num_gpu_blocks p - 1)"
proof -
  let ?k = "s_kv s"
  note a = sched_reach_accounted [OF assms]
  obtain xs where st: "km_state ?k xs" using accountedD(1) [OF a] by (auto simp: plain_km_def)
  have known: "\<exists>r. get_req rid s = Ok r" if "m \<in> set (co_managers (km_coord ?k))" "blocks_of rid m \<noteq> []" for m rid
    using accountedD(3) [OF a, of rid] that by (auto simp: holders_def get_req_Ok)
  have "get_num_free_blocks (km_pool ?k) = num_gpu_blocks (km_pool ?k) - 1" if "requests s = []"
  proof -
    have "blocks_of rid m = []" if m: "m \<in> set (co_managers (km_coord ?k))" for m rid
      using known [OF m, of rid] \<open>requests s = []\<close> by (auto simp: get_req_Ok)
    then have "km_held ?k = {#}" by (intro km_held_empty [OF st]) blast
    then show ?thesis using km_state_accounting [OF st] by simp
  qed
  then show ?thesis using km_state_accounting [OF st] known unfolding Let_def by blast
qed

lemma scheduler_leaks_no_block_witness:
  "\<exists>k out evs s'. KVCacheManager_init sample_config 100 False False False False = Ok k \<and>
     schedule False sample_env (sample_state k [five]) = Ok (out, evs, s') \<and> so_num_scheduled_tokens out = [(''a'', 5)] \<and>
     (\<forall>m \<in> set (co_managers (km_coord (s_kv s'))). \<forall>rid. blocks_of rid m \<noteq> [] \<longrightarrow> (\<exists>r. get_req rid s' = Ok r))"
proof -
  obtain k out evs s' where a: "KVCacheManager_init sample_config 100 False False False False = Ok k"
    "schedule False sample_env (sample_state k [five]) = Ok (out, evs, s')" "so_num_scheduled_tokens out = [(''a'', 5)]"
    by (rule sample_schedule)
  have reach: "sched_reach False (sample_state k [five])" by (rule sample_reach [OF a(1)]) (simp_all add: five_simps)
  have conf: "configured sample_config False k" using a(1) by (auto simp: KVCacheManager_init_def rbind_eq_Ok Let_def split: if_splits)
  have "accounted (configured sample_config False) (\<lambda>_. {}) (sample_state k [five])"
    using conf by (simp add: accounted_def five_simps)
  from accountedD(1) [OF fixed.sched_op_accounted [OF sched_op.step [OF a(2)] this]]
  have c: "km_config (s_kv s') = sample_config" "\<not> km_enable_caching (s_kv s')" by auto
  have good: "\<forall>g \<in> set (kv_cache_groups (km_config (s_kv s'))). good_spec (group_spec g)"
    by (simp add: c(1) sample_config_def good_spec_def)
  from scheduler_leaks_no_block [OF sched_reach.step [OF reach a(2)] c(2) good] a show ?thesis
    unfolding Let_def by blast
qed

end
