(* ===== verification/KV_Cache_Config.thy ===== *)
theory KV_Cache_Config
  imports Block_Hashing KV_Cache_Spec
begin

text \<open>
  The second half of \<open>vllm/v1/core/kv_cache_utils.py\<close>, which runs once at start-up: whether one
  request of the maximal length fits into the memory and which length would, the groups of
  layers that share a block table, the tensors, and the number of blocks.

  The formats of the layers are a dictionary in the order of the model.  Float results
  (\<open>max_concurrency\<close>) are pairs of numerator and denominator; they are only logged, but a zero
  denominator raises.  \<open>estimate_max_model_len\<close> leaves the last length it tried in the
  configuration, so the configuration is part of its result.
\<close>

section \<open>Memory of one request\<close>

type_synonym layer_specs = "(string, kv_cache_spec) dict"

definition max_memory_usage_bytes :: "(string \<Rightarrow> int) \<Rightarrow> vllm_config \<Rightarrow> kv_cache_spec list \<Rightarrow> int res" where
  "max_memory_usage_bytes dsz c specs =
     rbind (rmap (spec_max_memory_usage_bytes dsz c) specs) (\<lambda>ns. Ok (sum_list ns))"

text \<open>\<open>fits_in_memory\<close> writes the length it tries into the configuration.\<close>

definition fits_in_memory ::
  "(string \<Rightarrow> int) \<Rightarrow> layer_specs \<Rightarrow> int \<Rightarrow> int \<Rightarrow> vllm_config \<Rightarrow> (bool \<times> vllm_config) res" where
  "fits_in_memory dsz spec available model_len c =
     (let c' = c\<lparr>cfg_max_model_len := model_len\<rparr>
      in rbind (max_memory_usage_bytes dsz c' (map snd spec)) (\<lambda>needed. Ok (needed \<le> available, c')))"

function estimate_loop ::
  "(string \<Rightarrow> int) \<Rightarrow> layer_specs \<Rightarrow> int \<Rightarrow> int \<Rightarrow> int \<Rightarrow> int \<Rightarrow> vllm_config \<Rightarrow> (int \<times> vllm_config) res" where
  "estimate_loop dsz spec available left right result c =
     (if left \<le> right
      then let mid = (left + right) div 2
           in rbind (fits_in_memory dsz spec available mid c) (\<lambda>(fits, c').
              if fits then estimate_loop dsz spec available (mid + 1) right mid c'
              else estimate_loop dsz spec available left (mid - 1) result c')
      else Ok (result, c))"
  by auto
termination
  by (relation "measure (\<lambda>(_, _, _, left, right, _, _). nat (right - left + 1))") auto

declare estimate_loop.simps [simp del]

definition estimate_max_model_len ::
  "(string \<Rightarrow> int) \<Rightarrow> vllm_config \<Rightarrow> layer_specs \<Rightarrow> int \<Rightarrow> (int \<times> vllm_config) res" where
  "estimate_max_model_len dsz c spec available =
     (let current_max = cfg_max_model_len c
      in rbind (fits_in_memory dsz spec available 1 c) (\<lambda>(fits, c').
         if \<not> fits then Ok (0, c') else estimate_loop dsz spec available 1 current_max 1 c'))"

definition check_enough_kv_cache_memory ::
  "(string \<Rightarrow> int) \<Rightarrow> vllm_config \<Rightarrow> layer_specs \<Rightarrow> int \<Rightarrow> unit res" where
  "check_enough_kv_cache_memory dsz c spec available =
     (if spec = [] then Ok ()
      else if available \<le> 0 then Err ValueError
      else rbind (max_memory_usage_bytes dsz c (map snd spec)) (\<lambda>needed.
           if needed > available
           then rbind (estimate_max_model_len dsz c spec available) (\<lambda>_. Err ValueError)
           else Ok ()))"

section \<open>Groups\<close>

definition create_kv_cache_group_specs :: "layer_specs \<Rightarrow> string list list \<Rightarrow> kv_cache_group_spec list res" where
  "create_kv_cache_group_specs spec grouped =
     rmap (\<lambda>names.
       rbind (rmap (\<lambda>name. dict_get name spec) names) (\<lambda>specs.
       rbind (merge_specs specs) (\<lambda>merged.
       Ok \<lparr>layer_names = names, group_spec = merged\<rparr>))) grouped"

definition is_kv_cache_type_uniform :: "layer_specs \<Rightarrow> bool res" where
  "is_kv_cache_type_uniform spec =
     (case merge_specs (map snd spec) of
        Ok _ \<Rightarrow> Ok True
      | Err e \<Rightarrow> if e = AssertionError then Ok False else Err e)"

definition is_kv_cache_type_attention_free :: "layer_specs \<Rightarrow> bool" where
  "is_kv_cache_type_attention_free spec \<longleftrightarrow> spec = []"

definition is_kv_cache_page_size_uniform :: "(string \<Rightarrow> int) \<Rightarrow> layer_specs \<Rightarrow> bool res" where
  "is_kv_cache_page_size_uniform dsz spec =
     rbind (rmap (page_size_bytes dsz) (map snd spec)) (\<lambda>sizes. Ok (length (remdups sizes) = 1))"

definition get_uniform_page_size :: "(string \<Rightarrow> int) \<Rightarrow> layer_specs \<Rightarrow> int res" where
  "get_uniform_page_size dsz spec =
     rbind (rmap (page_size_bytes dsz) (map snd spec)) (\<lambda>sizes.
     case remdups sizes of [s] \<Rightarrow> Ok s | _ \<Rightarrow> Err AssertionError)"

section \<open>Numbers of blocks\<close>

text \<open>The concurrency is a quotient, kept as numerator and denominator; it is only logged.\<close>

definition get_max_concurrency_for_kv_cache_config ::
  "(string \<Rightarrow> int) \<Rightarrow> vllm_config \<Rightarrow> kv_cache_config \<Rightarrow> (int \<times> int) res" where
  "get_max_concurrency_for_kv_cache_config dsz c cfg =
     (case kv_cache_groups cfg of
        [] \<Rightarrow> Err ValueError
      | g # gs \<Rightarrow>
          let num_layer_per_group = int (Max (set (map (\<lambda>g. length (layer_names g)) (g # gs))))
          in rbind (max_memory_usage_bytes dsz c (map group_spec (g # gs))) (\<lambda>usage.
             rbind (page_size_bytes dsz (group_spec g)) (\<lambda>page.
             rbind (py_cdiv (num_layer_per_group * usage) (page * num_layer_per_group)) (\<lambda>num_block_per_request.
             if num_block_per_request = 0 then Err ZeroDivisionError
             else Ok (cc_num_blocks cfg, num_block_per_request)))))"

definition get_num_blocks :: "vllm_config \<Rightarrow> int \<Rightarrow> int \<Rightarrow> int \<Rightarrow> int res" where
  "get_num_blocks c num_layers available page_size =
     (if page_size = 0 \<or> num_layers = 0 then Err ZeroDivisionError
      else let num_blocks = max (available div page_size div num_layers) 0
           in Ok (case num_gpu_blocks_override c of None \<Rightarrow> num_blocks | Some n \<Rightarrow> n))"

definition get_kv_cache_config_uniform_type ::
  "(string \<Rightarrow> int) \<Rightarrow> vllm_config \<Rightarrow> layer_specs \<Rightarrow> int \<Rightarrow> kv_cache_config res" where
  "get_kv_cache_config_uniform_type dsz c spec available =
     rbind (get_uniform_page_size dsz spec) (\<lambda>page_size.
     rbind (get_num_blocks c (int (length spec)) available page_size) (\<lambda>num_blocks.
     let per_layer_size = page_size * num_blocks;
         tensors = map (\<lambda>(name, _). \<lparr>kt_size = per_layer_size, shared_by = [name]\<rparr>) spec
     in rbind (create_kv_cache_group_specs spec [map fst spec]) (\<lambda>groups.
        let cfg = \<lparr>cc_num_blocks = num_blocks, kv_cache_tensors = tensors, kv_cache_groups = groups\<rparr>
        in rbind (get_max_concurrency_for_kv_cache_config dsz c cfg) (\<lambda>_. Ok cfg))))"

section \<open>Hybrid models\<close>

definition same_type_layers :: "layer_specs \<Rightarrow> (kv_cache_spec, string list) dict" where
  "same_type_layers spec = fold (\<lambda>(name, s) d. AList.update s (list_of s d @ [name]) d) spec []"

text \<open>The layers of one type in groups of \<open>group_size\<close>; the last may be smaller.\<close>

definition split_layers :: "int \<Rightarrow> string list \<Rightarrow> string list list" where
  "split_layers group_size layers =
     map (\<lambda>i. py_slice layers i (i + group_size)) (py_range 0 (int (length layers)) group_size)"

definition pool_layers :: "string list list \<Rightarrow> nat \<Rightarrow> string list" where
  "pool_layers grouped i = map (\<lambda>names. names ! i) (filter (\<lambda>names. i < length names) grouped)"

definition get_kv_cache_config_uniform_page_size ::
  "(string \<Rightarrow> int) \<Rightarrow> vllm_config \<Rightarrow> layer_specs \<Rightarrow> int \<Rightarrow> kv_cache_config res" where
  "get_kv_cache_config_uniform_page_size dsz c spec available =
     (let types = map snd (same_type_layers spec)
      in if types = [] then Err ValueError
      else
        let group_size = Min (set (map length types));
            grouped = concat (map (split_layers (int group_size)) types)
        in rbind (create_kv_cache_group_specs spec grouped) (\<lambda>groups.
           rbind (get_uniform_page_size dsz spec) (\<lambda>page_size.
           rbind (get_num_blocks c (int group_size) available page_size) (\<lambda>num_blocks.
           let pool_size = page_size * num_blocks;
               tensors = map (\<lambda>i. \<lparr>kt_size = pool_size, shared_by = pool_layers grouped i\<rparr>) [0..<group_size];
               cfg = \<lparr>cc_num_blocks = num_blocks, kv_cache_tensors = tensors, kv_cache_groups = groups\<rparr>
           in rbind (get_max_concurrency_for_kv_cache_config dsz c cfg) (\<lambda>_. Ok cfg)))))"

definition get_kv_cache_config_attention_free :: kv_cache_config where
  "get_kv_cache_config_attention_free = \<lparr>cc_num_blocks = 1, kv_cache_tensors = [], kv_cache_groups = []\<rparr>"

fun as_full_attention :: "kv_cache_spec \<Rightarrow> kv_cache_spec" where
  "as_full_attention (SlidingWindowSpec a w) = FullAttentionSpec a (Some w) None"
| "as_full_attention (ChunkedLocalAttentionSpec a n) = FullAttentionSpec a None (Some n)"
| "as_full_attention s = s"

fun is_windowed_spec :: "kv_cache_spec \<Rightarrow> bool" where
  "is_windowed_spec (SlidingWindowSpec _ _) = True"
| "is_windowed_spec (ChunkedLocalAttentionSpec _ _) = True"
| "is_windowed_spec _ = False"

definition unify_hybrid_kv_cache_specs :: "layer_specs \<Rightarrow> layer_specs res" where
  "unify_hybrid_kv_cache_specs spec =
     rbind (is_kv_cache_type_uniform spec) (\<lambda>uniform.
     if uniform then Ok spec
     else let spec' = (if (\<exists>s \<in> set (map snd spec). is_full_attention s) \<and> (\<exists>s \<in> set (map snd spec). is_windowed_spec s)
                       then map (\<lambda>(name, s). (name, as_full_attention s)) spec else spec)
          in rbind (is_kv_cache_type_uniform spec') (\<lambda>uniform'.
             if uniform' then Ok spec' else Err ValueError))"

text \<open>Returns the configuration and the layer formats, which unifying changes in place.\<close>

definition get_kv_cache_config ::
  "(string \<Rightarrow> int) \<Rightarrow> vllm_config \<Rightarrow> layer_specs \<Rightarrow> int \<Rightarrow> (kv_cache_config \<times> layer_specs) res" where
  "get_kv_cache_config dsz c spec available =
     rbind (check_enough_kv_cache_memory dsz c spec available) (\<lambda>_.
     rbind (if disable_hybrid_kv_cache_manager c then unify_hybrid_kv_cache_specs spec else Ok spec) (\<lambda>spec'.
     if is_kv_cache_type_attention_free spec' then Ok (get_kv_cache_config_attention_free, spec')
     else rbind (is_kv_cache_type_uniform spec') (\<lambda>uniform.
       if uniform
       then rbind (get_kv_cache_config_uniform_type dsz c spec' available) (\<lambda>cfg. Ok (cfg, spec'))
       else rbind (is_kv_cache_page_size_uniform dsz spec') (\<lambda>same_page.
         if same_page
         then rbind (get_kv_cache_config_uniform_page_size dsz c spec' available) (\<lambda>cfg. Ok (cfg, spec'))
         else Err NotImplementedError))))"

section \<open>Agreement of the workers\<close>

text \<open>
  The groups of a configuration are sorted by class name and fields, which compares tensor
  types and optional numbers: the sort is the parameter \<open>sort_groups\<close>.
\<close>

definition unify_kv_cache_configs ::
  "(kv_cache_group_spec list \<Rightarrow> kv_cache_group_spec list res) \<Rightarrow> kv_cache_config list \<Rightarrow> kv_cache_config list res" where
  "unify_kv_cache_configs sort_groups configs =
     rbind (rmap (\<lambda>cfg. rbind (sort_groups (kv_cache_groups cfg)) (\<lambda>gs. Ok (cfg\<lparr>kv_cache_groups := gs\<rparr>))) configs) (\<lambda>sorted.
     case sorted of
       [] \<Rightarrow> Err ValueError
     | first # rest \<Rightarrow>
         rbind (py_assert (\<forall>cfg \<in> set rest. \<forall>(g0, g) \<in> set (zip (kv_cache_groups first) (kv_cache_groups cfg)).
                  group_spec g0 = group_spec g)) (\<lambda>_.
         let n = Min (set (map cc_num_blocks sorted))
         in Ok (map (\<lambda>cfg. cfg\<lparr>cc_num_blocks := n\<rparr>) sorted)))"

section \<open>The estimate of the model length\<close>

lemma rmap_total: "\<forall>x \<in> set xs. \<exists>y. f x = Ok y \<Longrightarrow> \<exists>ys. rmap f xs = Ok ys"
  by (induction xs) auto

lemma max_memory_mono:
  assumes "\<forall>s \<in> set specs. spec_ok dsz s" and "m \<le> n"
  shows "\<exists>x y. max_memory_usage_bytes dsz (c\<lparr>cfg_max_model_len := m\<rparr>) specs = Ok x \<and>
    max_memory_usage_bytes dsz (c\<lparr>cfg_max_model_len := n\<rparr>) specs = Ok y \<and> x \<le> y"
  using assms(1)
proof (induction specs)
  case Nil
  show ?case by (simp add: max_memory_usage_bytes_def)
next
  case (Cons s specs)
  then obtain x y where xy: "max_memory_usage_bytes dsz (c\<lparr>cfg_max_model_len := m\<rparr>) specs = Ok x"
    "max_memory_usage_bytes dsz (c\<lparr>cfg_max_model_len := n\<rparr>) specs = Ok y" "x \<le> y" by auto
  obtain a b where ab: "spec_max_memory_usage_bytes dsz (c\<lparr>cfg_max_model_len := m\<rparr>) s = Ok a"
    "spec_max_memory_usage_bytes dsz (c\<lparr>cfg_max_model_len := n\<rparr>) s = Ok b" "a \<le> b"
    using spec_max_memory_mono [OF _ assms(2), of dsz s c] Cons.prems by auto
  from xy ab show ?case by (auto simp: max_memory_usage_bytes_def res_simps)
qed

text \<open>Whether a request of length \<open>l\<close> fits into the memory.\<close>

definition length_fits :: "(string \<Rightarrow> int) \<Rightarrow> vllm_config \<Rightarrow> layer_specs \<Rightarrow> int \<Rightarrow> int \<Rightarrow> bool" where
  "length_fits dsz c spec available l \<longleftrightarrow>
     (\<exists>n. max_memory_usage_bytes dsz (c\<lparr>cfg_max_model_len := l\<rparr>) (map snd spec) = Ok n \<and> n \<le> available)"

lemma length_fits_config [simp]: "length_fits dsz (c\<lparr>cfg_max_model_len := k\<rparr>) spec available l = length_fits dsz c spec available l"
  by (simp add: length_fits_def)

lemma length_fits_mono:
  assumes "\<forall>s \<in> set (map snd spec). spec_ok dsz s" and "length_fits dsz c spec available n" and "m \<le> n"
  shows "length_fits dsz c spec available m"
  using max_memory_mono [OF assms(1,3), of c] assms(2) by (auto simp: length_fits_def)

lemma fits_in_memory_eq:
  assumes "\<forall>s \<in> set (map snd spec). spec_ok dsz s"
  shows "fits_in_memory dsz spec available l c = Ok (length_fits dsz c spec available l, c\<lparr>cfg_max_model_len := l\<rparr>)"
  using max_memory_mono [OF assms order_refl, of l c] by (auto simp: fits_in_memory_def length_fits_def)

lemma estimate_loop_spec:
  assumes "\<forall>s \<in> set (map snd spec). spec_ok dsz s"
  shows "left = result + 1 \<or> left = 1 \<and> result = 1 \<Longrightarrow> 1 \<le> result \<Longrightarrow> result \<le> M \<Longrightarrow> right \<le> M \<Longrightarrow>
    length_fits dsz c spec available result \<Longrightarrow> (\<forall>l. right < l \<and> l \<le> M \<longrightarrow> \<not> length_fits dsz c spec available l) \<Longrightarrow>
    \<exists>m c'. estimate_loop dsz spec available left right result c = Ok (m, c') \<and> 1 \<le> m \<and> m \<le> M \<and>
      length_fits dsz c spec available m \<and> (\<forall>l. m < l \<and> l \<le> M \<longrightarrow> \<not> length_fits dsz c spec available l)"
proof (induction "nat (right - left + 1)" arbitrary: left right result c rule: less_induct)
  case less
  let ?fits = "length_fits dsz c spec available" and ?mid = "(left + right) div 2"
  let ?c = "c\<lparr>cfg_max_model_len := ?mid\<rparr>"
  note unfold = estimate_loop.simps [of dsz spec available left right result c]
  note eq = fits_in_memory_eq [OF assms, of available ?mid c]
  show ?case
  proof (cases "left \<le> right")
    case False
    then have "\<not> ?fits l" if "result < l" "l \<le> M" for l using less.prems that by auto
    then show ?thesis using False less.prems unfold by auto
  next
    case True
    then have mid: "left \<le> ?mid" "?mid \<le> right" by auto
    have none: "\<not> ?fits l" if "?mid - 1 < l" "l \<le> M" "\<not> ?fits ?mid" for l
      using length_fits_mono [OF assms, of c available l ?mid] that by auto
    show ?thesis
    proof (cases "?fits ?mid")
      case hit: True
      have "estimate_loop dsz spec available left right result c = estimate_loop dsz spec available (?mid + 1) right ?mid ?c"
        using True hit by (simp add: unfold eq Let_def)
      moreover have "\<exists>m c'. estimate_loop dsz spec available (?mid + 1) right ?mid ?c = Ok (m, c') \<and> 1 \<le> m \<and> m \<le> M \<and>
          length_fits dsz ?c spec available m \<and> (\<forall>l. m < l \<and> l \<le> M \<longrightarrow> \<not> length_fits dsz ?c spec available l)"
        by (rule less.hyps) (use mid less.prems hit in auto)
      ultimately show ?thesis by simp
    next
      case miss: False
      have low: "\<forall>l. ?mid - 1 < l \<and> l \<le> M \<longrightarrow> \<not> length_fits dsz ?c spec available l" using none miss by simp
      have "estimate_loop dsz spec available left right result c = estimate_loop dsz spec available left (?mid - 1) result ?c"
        using True miss by (simp add: unfold eq Let_def)
      moreover have "\<exists>m c'. estimate_loop dsz spec available left (?mid - 1) result ?c = Ok (m, c') \<and> 1 \<le> m \<and> m \<le> M \<and>
          length_fits dsz ?c spec available m \<and> (\<forall>l. m < l \<and> l \<le> M \<longrightarrow> \<not> length_fits dsz ?c spec available l)"
        by (rule less.hyps [OF _ less.prems(1-3) _ _ low]) (use mid less.prems(4,5) in simp_all)
      ultimately show ?thesis by simp
    qed
  qed
qed

section \<open>The layers are partitioned\<close>

lemma rmap_Ok: "rmap f xs = Ok ys \<longleftrightarrow> list_all2 (\<lambda>x y. f x = Ok y) xs ys"
  by (induction xs arbitrary: ys) (auto simp: res_simps list_all2_Cons1)

lemma rmap_Ok_mem: "rmap f xs = Ok ys \<Longrightarrow> x \<in> set xs \<Longrightarrow> \<exists>y \<in> set ys. f x = Ok y"
  by (induction xs arbitrary: ys) (auto simp: res_simps)

lemma create_groups_names: "create_kv_cache_group_specs spec grouped = Ok groups \<Longrightarrow> map layer_names groups = grouped"
  unfolding create_kv_cache_group_specs_def
  by (induction grouped arbitrary: groups) (auto simp: res_simps)

text \<open>The format of a group has the sizes of the formats of its layers.\<close>

definition group_fits :: "(string \<Rightarrow> int) \<Rightarrow> vllm_config \<Rightarrow> layer_specs \<Rightarrow> kv_cache_group_spec \<Rightarrow> bool" where
  "group_fits dsz c spec g \<longleftrightarrow> layer_names g \<noteq> [] \<and> (\<forall>l \<in> set (layer_names g). \<exists>s. map_of spec l = Some s \<and>
     spec_block_size s = spec_block_size (group_spec g) \<and> page_size_bytes dsz s = page_size_bytes dsz (group_spec g) \<and>
     spec_max_memory_usage_bytes dsz c s = spec_max_memory_usage_bytes dsz c (group_spec g))"

lemma create_group_fits:
  assumes "rmap (\<lambda>name. dict_get name spec) names = Ok specs" and "merge_specs specs = Ok m"
  shows "group_fits dsz c spec \<lparr>layer_names = names, group_spec = m\<rparr>"
proof -
  have "specs \<noteq> []" using assms(2) by (auto simp: merge_specs_def py_index_def)
  then have "names \<noteq> []" using assms(1) by auto
  moreover have "\<exists>s. map_of spec l = Some s \<and> spec_block_size s = spec_block_size m \<and>
      page_size_bytes dsz s = page_size_bytes dsz m \<and> spec_max_memory_usage_bytes dsz c s = spec_max_memory_usage_bytes dsz c m"
    if l: "l \<in> set names" for l
  proof -
    obtain s where s: "s \<in> set specs" "dict_get l spec = Ok s" using rmap_Ok_mem [OF assms(1) l] by blast
    then have "map_of spec l = Some s" by (auto simp: dict_get_def split: option.splits)
    then show ?thesis using merge_specs_block_size [OF assms(2) s(1)] by blast
  qed
  ultimately show ?thesis by (simp add: group_fits_def)
qed

lemma create_groups_fit:
  assumes "create_kv_cache_group_specs spec grouped = Ok groups" and "g \<in> set groups"
  shows "group_fits dsz c spec g"
  using assms unfolding create_kv_cache_group_specs_def
  by (induction grouped arbitrary: groups) (auto simp: res_simps intro: create_group_fits)

lemma same_type_layers_mset:
  "wf_dict (same_type_layers spec) \<and> dict_mset (same_type_layers spec) = mset (map fst spec) \<and>
   (\<forall>names \<in> snd ` set (same_type_layers spec). names \<noteq> [])"
proof -
  have "wf_dict (fold (\<lambda>(name, s) d. AList.update s (list_of s d @ [name]) d) spec d) \<and>
      dict_mset (fold (\<lambda>(name, s) d. AList.update s (list_of s d @ [name]) d) spec d) = dict_mset d + mset (map fst spec) \<and>
      (\<forall>names \<in> snd ` set (fold (\<lambda>(name, s) d. AList.update s (list_of s d @ [name]) d) spec d). names \<noteq> [])"
    if "wf_dict d" "\<forall>names \<in> snd ` set d. names \<noteq> []" for d
    using that
  proof (induction spec arbitrary: d)
    case (Cons p spec)
    obtain name s where p: "p = (name, s)" by (cases p)
    let ?d = "AList.update s (list_of s d @ [name]) d"
    have ne: "\<forall>names \<in> snd ` set ?d. names \<noteq> []"
    proof
      fix names assume "names \<in> snd ` set ?d"
      then obtain t where "(t, names) \<in> set ?d" by auto
      then have "map_of ?d t = Some names" using Cons.prems(1) by (simp add: wf_dict_def distinct_update)
      then have "t = s \<and> names = list_of s d @ [name] \<or> map_of d t = Some names" by (auto simp: update_conv' split: if_splits)
      then show "names \<noteq> []" using Cons.prems(2) by (force dest: map_of_SomeD)
    qed
    have "dict_mset ?d = add_mset name (dict_mset d)"
      using dict_mset_update [OF Cons.prems(1), of s "list_of s d @ [name]"] by simp
    then show ?case using Cons.IH [of ?d] Cons.prems(1) ne by (simp add: p)
  qed simp
  from this [of "[]"] show ?thesis by (simp add: same_type_layers_def)
qed

lemma concat_chunks: "concat (map (\<lambda>k. take n (drop (k * n) xs)) [0..<m]) = take (m * n) xs"
proof (induction m)
  case (Suc m)
  have "take (Suc m * n) xs = take (m * n) xs @ take n (drop (m * n) xs)"
    using take_add [of "m * n" n xs] by (simp add: add.commute)
  with Suc show ?case by simp
qed simp

lemma split_layers_spec:
  assumes "0 < n"
  shows "concat (split_layers (int n) layers) = layers" and "\<forall>names \<in> set (split_layers (int n) layers). length names \<le> n"
proof -
  let ?m = "nat (cdiv (int (length layers)) (int n))"
  have eq: "split_layers (int n) layers = map (\<lambda>k. take n (drop (k * n) layers)) [0..<?m]"
    using assms by (simp add: split_layers_def py_range_from_0 py_slice_nonneg nat_add_distrib nat_mult_distrib)
  have "int (length layers) \<le> int (?m * n)"
    using cdiv_bounds(1) [of "int n" "int (length layers)"] cdiv_nonneg [of "int n" "int (length layers)"] assms by simp
  then have "length layers \<le> ?m * n" by (simp only: of_nat_le_iff)
  then show "concat (split_layers (int n) layers) = layers" by (simp add: eq concat_chunks)
  show "\<forall>names \<in> set (split_layers (int n) layers). length names \<le> n" by (auto simp: eq)
qed

lemma pool_layers_Cons: "pool_layers (x # xs) i = (if i < length x then [x ! i] else []) @ pool_layers xs i"
  by (simp add: pool_layers_def)

lemma mset_concat_append: "mset (concat (map (\<lambda>i. f i @ g i) is)) = mset (concat (map f is)) + mset (concat (map g is))"
  by (induction "is") simp_all

lemma concat_nths_upt:
  assumes "length x \<le> n"
  shows "concat (map (\<lambda>i. if i < length x then [x ! i] else []) [0..<n]) = x"
proof -
  let ?f = "\<lambda>i. if i < length x then [x ! i] else []"
  obtain d where n: "n = length x + d" using assms le_Suc_ex by blast
  have "map ?f [0..<length x] = map (\<lambda>i. [x ! i]) [0..<length x]" by (rule map_cong) auto
  then have "concat (map ?f [0..<length x]) = x" by (simp only: concat_map_singleton map_nth)
  moreover have "concat (map ?f [length x..<length x + d]) = []" by (simp add: concat_eq_Nil_conv)
  moreover have "[0..<n] = [0..<length x] @ [length x..<length x + d]" unfolding n by (rule upt_add_eq_append) simp
  ultimately show ?thesis by (simp only: map_append concat_append append_Nil2)
qed

lemma pool_layers_mset:
  assumes "\<forall>names \<in> set grouped. length names \<le> n"
  shows "mset (concat (map (pool_layers grouped) [0..<n])) = mset (concat grouped)"
  using assms
proof (induction grouped)
  case Nil
  then show ?case by (simp add: pool_layers_def)
next
  case (Cons x xs)
  have "mset (concat (map (pool_layers (x # xs)) [0..<n])) =
      mset (concat (map (\<lambda>i. if i < length x then [x ! i] else []) [0..<n])) + mset (concat (map (pool_layers xs) [0..<n]))"
    unfolding pool_layers_Cons by (rule mset_concat_append)
  then show ?case using Cons by (simp add: concat_nths_upt)
qed

lemma pool_layers_one:
  assumes "distinct (concat grouped)" and "ns \<in> set grouped"
  shows "length (filter (\<lambda>l. l \<in> set ns) (pool_layers grouped i)) \<le> 1"
proof -
  have none: "filter (\<lambda>l. l \<in> set ns) (pool_layers xs i) = []" if "set ns \<inter> set (concat xs) = {}" for xs
    using that by (fastforce simp: filter_empty_conv pool_layers_def dest: nth_mem)
  show ?thesis using assms
  proof (induction grouped)
    case (Cons x xs)
    show ?case
    proof (cases "ns \<in> set xs")
      case True
      then have "set x \<inter> set ns = {}" using Cons.prems(1) by auto
      then have "\<not> (i < length x \<and> x ! i \<in> set ns)" using nth_mem by blast
      then show ?thesis using Cons True by (auto simp: pool_layers_Cons)
    next
      case False
      then have "ns = x" using Cons.prems(2) by simp
      then show ?thesis using Cons.prems(1) none [of xs] by (auto simp: pool_layers_Cons)
    qed
  qed simp
qed

section \<open>The configuration\<close>

text \<open>
  What both ways of building a configuration have in common: the groups cover the layers, the
  tensors cover the layers, a tensor has at most one layer of a group, and every tensor holds
  all blocks.
\<close>

definition config_ok :: "(string \<Rightarrow> int) \<Rightarrow> vllm_config \<Rightarrow> layer_specs \<Rightarrow> int \<Rightarrow> kv_cache_config \<Rightarrow> bool" where
  "config_ok dsz c spec available cfg \<longleftrightarrow>
     mset (concat (map layer_names (kv_cache_groups cfg))) = mset (map fst spec) \<and>
     mset (concat (map shared_by (kv_cache_tensors cfg))) = mset (map fst spec) \<and>
     (\<forall>t \<in> set (kv_cache_tensors cfg). \<forall>g \<in> set (kv_cache_groups cfg).
        length (filter (\<lambda>l. l \<in> set (layer_names g)) (shared_by t)) \<le> 1) \<and>
     (\<forall>g \<in> set (kv_cache_groups cfg). group_fits dsz c spec g) \<and>
     (\<exists>page. get_uniform_page_size dsz spec = Ok page \<and>
        get_num_blocks c (int (length (kv_cache_tensors cfg))) available page = Ok (cc_num_blocks cfg) \<and>
        (\<forall>t \<in> set (kv_cache_tensors cfg). kt_size t = page * cc_num_blocks cfg))"

lemma uniform_type_ok:
  assumes "get_kv_cache_config_uniform_type dsz c spec available = Ok cfg" and "wf_dict spec"
  shows "config_ok dsz c spec available cfg"
proof -
  obtain page n groups where p: "get_uniform_page_size dsz spec = Ok page"
      "get_num_blocks c (int (length spec)) available page = Ok n"
      "create_kv_cache_group_specs spec [map fst spec] = Ok groups"
      "cfg = \<lparr>cc_num_blocks = n, kv_cache_tensors = map (\<lambda>(name, _). \<lparr>kt_size = page * n, shared_by = [name]\<rparr>) spec,
        kv_cache_groups = groups\<rparr>"
    using assms(1) by (auto simp: get_kv_cache_config_uniform_type_def Let_def res_simps)
  have tensors: "map shared_by (kv_cache_tensors cfg) = map (\<lambda>l. [l]) (map fst spec)" by (auto simp: p(4))
  have singles: "mset (concat (map (\<lambda>l. [l]) (map fst spec))) = mset (map fst spec)" by (simp only: concat_map_singleton list.map_ident)
  show ?thesis unfolding config_ok_def tensors
    using create_groups_names [OF p(3)] create_groups_fit [OF p(3)] p singles by auto
qed

lemma uniform_page_size_ok:
  assumes "get_kv_cache_config_uniform_page_size dsz c spec available = Ok cfg" and "wf_dict spec"
  shows "config_ok dsz c spec available cfg"
proof -
  let ?types = "map snd (same_type_layers spec)"
  define size where "size = Min (set (map length ?types))"
  let ?grouped = "concat (map (split_layers (int size)) ?types)"
  obtain page n groups where p: "?types \<noteq> []" "get_uniform_page_size dsz spec = Ok page"
      "get_num_blocks c (int size) available page = Ok n" "create_kv_cache_group_specs spec ?grouped = Ok groups"
      "cfg = \<lparr>cc_num_blocks = n, kv_cache_tensors = map (\<lambda>i. \<lparr>kt_size = page * n, shared_by = pool_layers ?grouped i\<rparr>) [0..<size],
        kv_cache_groups = groups\<rparr>"
    using assms(1) unfolding get_kv_cache_config_uniform_page_size_def Let_def size_def [symmetric]
    by (auto simp: res_simps split: if_splits)
  note types = same_type_layers_mset [of spec]
  have "size \<in> set (map length ?types)" unfolding size_def by (rule Min_in) (use p(1) in auto)
  then have pos: "0 < size" using types by auto
  note split = split_layers_spec [OF pos]
  have "concat (concat (map (split_layers (int size)) ts)) = concat ts" for ts using split(1) by (induction ts) auto
  then have "concat ?grouped = concat ?types" by blast
  then have all: "mset (concat ?grouped) = mset (map fst spec)" using types by (simp add: dict_mset_def)
  then have d: "distinct (concat ?grouped)" using assms(2) unfolding wf_dict_def by (metis mset_eq_imp_distinct_iff)
  have small: "\<forall>names \<in> set ?grouped. length names \<le> size" using split(2) by auto
  have tensors: "map shared_by (kv_cache_tensors cfg) = map (pool_layers ?grouped) [0..<size]" by (simp add: p(5) comp_def)
  note names = create_groups_names [OF p(4)]
  have one: "length (filter (\<lambda>l. l \<in> set (layer_names g)) (shared_by t)) \<le> 1"
    if t: "t \<in> set (kv_cache_tensors cfg)" and g: "g \<in> set groups" for t g
  proof -
    have "layer_names g \<in> set ?grouped" using g names by (metis imageI list.set_map)
    moreover obtain i where "shared_by t = pool_layers ?grouped i" using t p(5) by auto
    ultimately show ?thesis using pool_layers_one [OF d] by simp
  qed
  show ?thesis unfolding config_ok_def tensors pool_layers_mset [OF small] all
    using names all one create_groups_fit [OF p(4)] p by auto
qed

lemma get_kv_cache_config_ok:
  assumes "get_kv_cache_config dsz c spec available = Ok (cfg, spec')" and "wf_dict spec"
  shows "map fst spec' = map fst spec" and "check_enough_kv_cache_memory dsz c spec available = Ok ()"
    and "\<not> disable_hybrid_kv_cache_manager c \<Longrightarrow> spec' = spec"
    and "spec \<noteq> [] \<Longrightarrow> config_ok dsz c spec' available cfg"
    and "spec = [] \<Longrightarrow> cfg = get_kv_cache_config_attention_free"
    and "(if disable_hybrid_kv_cache_manager c then unify_hybrid_kv_cache_specs spec else Ok spec) = Ok spec'"
proof -
  show eq: "(if disable_hybrid_kv_cache_manager c then unify_hybrid_kv_cache_specs spec else Ok spec) = Ok spec'"
    using assms(1) by (auto simp: get_kv_cache_config_def res_simps split: if_splits)
  then show names: "map fst spec' = map fst spec"
    by (auto simp: unify_hybrid_kv_cache_specs_def Let_def res_simps split: if_splits)
  show "\<not> disable_hybrid_kv_cache_manager c \<Longrightarrow> spec' = spec" using eq by simp
  have wf: "wf_dict spec'" using names assms(2) by (simp add: wf_dict_def)
  show "check_enough_kv_cache_memory dsz c spec available = Ok ()" using assms(1) by (auto simp: get_kv_cache_config_def res_simps)
  have nil: "spec' = [] \<longleftrightarrow> spec = []" using names by (metis Nil_is_map_conv)
  show "spec = [] \<Longrightarrow> cfg = get_kv_cache_config_attention_free"
    using assms(1) eq nil by (auto simp: get_kv_cache_config_def res_simps is_kv_cache_type_attention_free_def)
  assume "spec \<noteq> []"
  then show "config_ok dsz c spec' available cfg"
    using assms(1) eq nil uniform_type_ok [OF _ wf] uniform_page_size_ok [OF _ wf]
    by (auto simp: get_kv_cache_config_def res_simps is_kv_cache_type_attention_free_def split: if_splits)
qed

section \<open>Memory\<close>

lemma spec_memory_pages:
  assumes "spec_max_memory_usage_bytes dsz c s = Ok n" and "page_size_bytes dsz s = Ok page"
  shows "page dvd n"
  using assms by (cases s) (auto simp: Let_def res_simps)

lemma as_full_attention_ok: "spec_ok dsz s \<Longrightarrow> spec_ok dsz (as_full_attention s)"
  by (cases s) (auto simp: spec_ok_def)

lemma unify_keeps_ok:
  assumes "unify_hybrid_kv_cache_specs spec = Ok spec'" and "\<forall>s \<in> set (map snd spec). spec_ok dsz s"
  shows "\<forall>s \<in> set (map snd spec'). spec_ok dsz s"
  using assms as_full_attention_ok
  by (fastforce simp: unify_hybrid_kv_cache_specs_def Let_def res_simps split: if_splits)

lemma uniform_page_pos:
  assumes "get_uniform_page_size dsz spec = Ok page" and "\<forall>s \<in> set (map snd spec). spec_ok dsz s"
  shows "0 < page" and "\<forall>s \<in> set (map snd spec). page_size_bytes dsz s = Ok page"
proof -
  obtain sizes where sz: "rmap (page_size_bytes dsz) (map snd spec) = Ok sizes" "remdups sizes = [page]"
  proof -
    obtain sizes where "rmap (page_size_bytes dsz) (map snd spec) = Ok sizes"
        "(case remdups sizes of [s] \<Rightarrow> Ok s | _ \<Rightarrow> Err AssertionError) = Ok page"
      using assms(1) unfolding get_uniform_page_size_def res_simps by blast
    moreover from this(2) have "remdups sizes = [page]"
      by (cases "remdups sizes"; cases "tl (remdups sizes)") (simp_all only: list.case list.sel, simp_all)
    ultimately show thesis using that by blast
  qed
  have all: "set sizes = {page}" using sz(2) by (metis empty_set list.simps(15) set_remdups)
  then show eq: "\<forall>s \<in> set (map snd spec). page_size_bytes dsz s = Ok page" using rmap_Ok_mem [OF sz(1)] by (metis singletonD)
  have "map snd spec \<noteq> []" using sz by auto
  then obtain s where s: "s \<in> set (map snd spec)" by (meson list.set_sel(1))
  then show "0 < page" using page_size_pos [of dsz s] assms(2) eq by force
qed

lemma num_blocks_bounds:
  assumes "get_num_blocks c (int n) available page = Ok b" and "num_gpu_blocks_override c = None" and "0 < page" and "0 \<le> available"
  shows "int n * (page * b) \<le> available" and "int n * (page * k) \<le> available \<Longrightarrow> k \<le> b" and "0 \<le> b"
proof -
  have n: "0 < int n" and b: "b = max (available div page div int n) 0"
    using assms by (auto simp: get_num_blocks_def split: if_splits)
  have q: "k \<le> available div page div int n \<longleftrightarrow> int n * (page * k) \<le> available" for k
    using le_div_int_iff [OF n, of k "available div page"] le_div_int_iff [OF assms(3), of "k * int n" available]
    by (simp add: mult.commute mult.left_commute)
  have "0 \<le> available div page div int n" using n assms(3,4) by (simp add: pos_imp_zdiv_nonneg_iff)
  then have "b = available div page div int n" using b by simp
  then show "int n * (page * b) \<le> available" "int n * (page * k) \<le> available \<Longrightarrow> k \<le> b" using q by auto
  show "0 \<le> b" using b by simp
qed

lemma check_enough_memory:
  assumes "check_enough_kv_cache_memory dsz c spec available = Ok ()" and "spec \<noteq> []"
  shows "0 < available" and "\<exists>n. max_memory_usage_bytes dsz c (map snd spec) = Ok n \<and> n \<le> available"
  using assms by (auto simp: check_enough_kv_cache_memory_def res_simps split: if_splits)

text \<open>The memory of the layers is the memory of the groups times the number of their layers.\<close>

definition layer_memory :: "(string \<Rightarrow> int) \<Rightarrow> vllm_config \<Rightarrow> kv_cache_spec \<Rightarrow> int" where
  "layer_memory dsz c s = (case spec_max_memory_usage_bytes dsz c s of Ok n \<Rightarrow> n | Err _ \<Rightarrow> 0)"

lemma max_memory_sum:
  assumes "\<forall>s \<in> set specs. spec_ok dsz s"
  shows "max_memory_usage_bytes dsz c specs = Ok (\<Sum>s \<leftarrow> specs. layer_memory dsz c s)"
  using assms
proof (induction specs)
  case (Cons s specs)
  obtain n where "spec_max_memory_usage_bytes dsz c s = Ok n"
    using spec_max_memory_mono [of dsz s "cfg_max_model_len c" "cfg_max_model_len c" c] Cons.prems by auto
  with Cons show ?case by (auto simp: max_memory_usage_bytes_def layer_memory_def res_simps)
qed (simp add: max_memory_usage_bytes_def)

lemma group_memory_sum:
  assumes "\<forall>g \<in> set gs. group_fits dsz c spec g" and "\<forall>g \<in> set gs. length (layer_names g) = n"
  shows "(\<Sum>l \<leftarrow> concat (map layer_names gs). layer_memory dsz c (the (map_of spec l))) =
    int n * (\<Sum>g \<leftarrow> gs. layer_memory dsz c (group_spec g))"
  using assms
proof (induction gs)
  case (Cons g gs)
  have "layer_memory dsz c (the (map_of spec l)) = layer_memory dsz c (group_spec g)" if "l \<in> set (layer_names g)" for l
    using Cons.prems(1) that by (fastforce simp: group_fits_def layer_memory_def)
  then have "map (\<lambda>l. layer_memory dsz c (the (map_of spec l))) (layer_names g) = replicate n (layer_memory dsz c (group_spec g))"
    using Cons.prems(2) by (auto intro!: replicate_eqI)
  then show ?case using Cons by (simp add: sum_list_replicate distrib_left)
qed simp

lemma layers_memory_sum:
  assumes "wf_dict spec" and "mset ls = mset (map fst spec)"
  shows "(\<Sum>l \<leftarrow> ls. layer_memory dsz c (the (map_of spec l))) = (\<Sum>s \<leftarrow> map snd spec. layer_memory dsz c s)"
proof -
  let ?f = "\<lambda>l. layer_memory dsz c (the (map_of spec l))"
  have "mset (map ?f ls) = mset (map ?f (map fst spec))" using assms(2) by (metis mset_map)
  then have "sum_list (map ?f ls) = sum_list (map ?f (map fst spec))" by (metis sum_mset_sum_list)
  also have "map ?f (map fst spec) = map (layer_memory dsz c) (map snd spec)"
    using assms(1) by (auto simp: wf_dict_def)
  finally show ?thesis .
qed

text \<open>Without padding, the pages that one request needs in all groups are within the blocks.\<close>

lemma group_need_fits:
  assumes "wf_dict spec" and "\<forall>s \<in> set (map snd spec). spec_ok dsz s"
    and "\<forall>g \<in> set gs. group_fits dsz c spec g" and "mset (concat (map layer_names gs)) = mset (map fst spec)"
    and "get_uniform_page_size dsz spec = Ok page" and "\<And>k. int n * (page * k) \<le> available \<Longrightarrow> k \<le> b"
    and "\<forall>g \<in> set gs. length (layer_names g) = n"
    and "\<exists>m. max_memory_usage_bytes dsz c (map snd spec) = Ok m \<and> m \<le> available"
  shows "\<exists>need page. max_memory_usage_bytes dsz c (map group_spec gs) = Ok need \<and>
    get_uniform_page_size dsz spec = Ok page \<and> need \<le> b * page"
proof -
  note pos = uniform_page_pos [OF assms(5,2)]
  have g: "\<exists>x. spec_max_memory_usage_bytes dsz c (group_spec g) = Ok x \<and> page dvd x" if mem: "g \<in> set gs" for g
  proof -
    obtain l s where s: "map_of spec l = Some s" "page_size_bytes dsz s = page_size_bytes dsz (group_spec g)"
        "spec_max_memory_usage_bytes dsz c s = spec_max_memory_usage_bytes dsz c (group_spec g)"
      using assms(3) mem unfolding group_fits_def by (metis list.set_sel(1))
    then have "s \<in> set (map snd spec)" by (force dest: map_of_SomeD)
    moreover from this assms(2) obtain x where "spec_max_memory_usage_bytes dsz c s = Ok x"
      using spec_max_memory_mono [of dsz s "cfg_max_model_len c" "cfg_max_model_len c" c] by auto
    ultimately show ?thesis using pos(2) s spec_memory_pages by metis
  qed
  have need: "max_memory_usage_bytes dsz c (map group_spec gs) = Ok (\<Sum>x \<leftarrow> gs. layer_memory dsz c (group_spec x)) \<and>
      page dvd (\<Sum>x \<leftarrow> gs. layer_memory dsz c (group_spec x))" using g
    by (induction gs) (fastforce simp: max_memory_usage_bytes_def layer_memory_def res_simps)+
  then obtain k where k: "(\<Sum>x \<leftarrow> gs. layer_memory dsz c (group_spec x)) = page * k" by auto
  have "int n * (page * k) = (\<Sum>s \<leftarrow> map snd spec. layer_memory dsz c s)"
    using group_memory_sum [OF assms(3,7)] layers_memory_sum [OF assms(1,4), of dsz c] k by simp
  also have "\<dots> \<le> available" using assms(8) max_memory_sum [OF assms(2), of c] by simp
  finally have "k \<le> b" by (rule assms(6))
  then have "page * k \<le> b * page" using pos(1) by (simp add: mult.commute)
  with need k assms(5) show ?thesis by simp
qed

section \<open>Properties\<close>

text \<open>
  C33.  The estimate of the model length is exact: the binary search returns, and its result
  is the greatest length up to the configured one whose KV cache fits into the memory, zero if
  not even one token fits.
\<close>

theorem estimate_max_model_len_exact:
  assumes "\<forall>s \<in> set (map snd spec). spec_ok dsz s" and "1 \<le> cfg_max_model_len c"
  shows "\<exists>m c'. estimate_max_model_len dsz c spec available = Ok (m, c') \<and> 0 \<le> m \<and> m \<le> cfg_max_model_len c \<and>
    (\<forall>l. 1 \<le> l \<and> l \<le> cfg_max_model_len c \<longrightarrow> (length_fits dsz c spec available l \<longleftrightarrow> l \<le> m))"
proof (cases "length_fits dsz c spec available 1")
  case True
  let ?c = "c\<lparr>cfg_max_model_len := 1\<rparr>"
  have "\<exists>m c'. estimate_loop dsz spec available 1 (cfg_max_model_len c) 1 ?c = Ok (m, c') \<and> 1 \<le> m \<and> m \<le> cfg_max_model_len c \<and>
      length_fits dsz ?c spec available m \<and>
      (\<forall>l. m < l \<and> l \<le> cfg_max_model_len c \<longrightarrow> \<not> length_fits dsz ?c spec available l)"
    by (rule estimate_loop_spec [OF assms(1)]) (use assms(2) True in auto)
  then obtain m c' where m: "estimate_loop dsz spec available 1 (cfg_max_model_len c) 1 ?c = Ok (m, c')" "1 \<le> m"
      "m \<le> cfg_max_model_len c" "length_fits dsz c spec available m"
      "\<forall>l. m < l \<and> l \<le> cfg_max_model_len c \<longrightarrow> \<not> length_fits dsz c spec available l" by auto
  moreover have "length_fits dsz c spec available l \<longleftrightarrow> l \<le> m" if "l \<le> cfg_max_model_len c" for l
    using m(4,5) that length_fits_mono [OF assms(1) m(4), of l] by (meson not_le)
  ultimately show ?thesis using True by (simp add: estimate_max_model_len_def fits_in_memory_eq [OF assms(1)])
next
  case False
  have "\<not> length_fits dsz c spec available l" if "1 \<le> l" for l
    using False length_fits_mono [OF assms(1) _ that] by blast
  then show ?thesis using False assms(2) by (simp add: estimate_max_model_len_def fits_in_memory_eq [OF assms(1)])
qed

definition sample_layer :: attention_spec where
  "sample_layer = \<lparr>as_block_size = 4, num_kv_heads = 1, head_size = 2, as_dtype = ''half'', use_mla = False\<rparr>"

definition sample_vllm :: vllm_config where
  "sample_vllm = \<lparr>cfg_max_model_len = 40, max_num_batched_tokens = 8, num_gpu_blocks_override = None, cfg_block_size = 4,
     disable_hybrid_kv_cache_manager = False\<rparr>"

text \<open>Two layers of full attention and three with a sliding window, as in the comment in the code.\<close>

definition sample_layers :: layer_specs where
  "sample_layers = [(''f0'', FullAttentionSpec sample_layer None None), (''f1'', FullAttentionSpec sample_layer None None),
     (''w0'', SlidingWindowSpec sample_layer 8), (''w1'', SlidingWindowSpec sample_layer 8), (''w2'', SlidingWindowSpec sample_layer 8)]"

lemma sample_layers_ok: "\<forall>s \<in> set (map snd sample_layers). spec_ok (\<lambda>_. 2) s"
  by (auto simp: sample_layers_def sample_layer_def spec_ok_def)

lemma estimate_max_model_len_exact_witness:
  "\<exists>c'. estimate_max_model_len (\<lambda>_. 2) sample_vllm sample_layers 600 = Ok (12, c')"
proof -
  have fits: "length_fits (\<lambda>_. 2) sample_vllm sample_layers 600 12" "\<not> length_fits (\<lambda>_. 2) sample_vllm sample_layers 600 13"
    by (simp_all add: length_fits_def sample_layers_def sample_vllm_def sample_layer_def max_memory_usage_bytes_def
        py_cdiv_def cdiv_def attn_page_size_bytes_def)
  obtain m c' where m: "estimate_max_model_len (\<lambda>_. 2) sample_vllm sample_layers 600 = Ok (m, c')"
      "\<forall>l. 1 \<le> l \<and> l \<le> 40 \<longrightarrow> (length_fits (\<lambda>_. 2) sample_vllm sample_layers 600 l \<longleftrightarrow> l \<le> m)"
    using estimate_max_model_len_exact [OF sample_layers_ok, of sample_vllm 600] by (auto simp: sample_vllm_def)
  from m(2) fits have "m = 12" by force
  with m show ?thesis by blast
qed

text \<open>
  C31.  A KV-cache configuration is a layout of the model: every layer is in exactly one group
  and uses exactly one tensor, the layers of a group have the block size and page size of the
  group, two layers of one group never share a tensor, and every tensor is exactly as large as
  all blocks.
\<close>

theorem kv_cache_config_layout:
  assumes "get_kv_cache_config dsz c spec available = Ok (cfg, spec')" and "wf_dict spec" and "spec \<noteq> []"
  shows "mset (concat (map layer_names (kv_cache_groups cfg))) = mset (map fst spec) \<and>
    mset (concat (map shared_by (kv_cache_tensors cfg))) = mset (map fst spec) \<and>
    (\<forall>t \<in> set (kv_cache_tensors cfg). \<forall>g \<in> set (kv_cache_groups cfg).
       length (filter (\<lambda>l. l \<in> set (layer_names g)) (shared_by t)) \<le> 1) \<and>
    (\<forall>g \<in> set (kv_cache_groups cfg). \<forall>l \<in> set (layer_names g). \<exists>s. map_of spec' l = Some s \<and>
       spec_block_size s = spec_block_size (group_spec g) \<and> page_size_bytes dsz s = page_size_bytes dsz (group_spec g)) \<and>
    (\<exists>page. get_uniform_page_size dsz spec' = Ok page \<and> (\<forall>t \<in> set (kv_cache_tensors cfg). kt_size t = page * cc_num_blocks cfg))"
proof -
  note g = get_kv_cache_config_ok [OF assms(1,2)]
  from g(4) [OF assms(3)] g(1) show ?thesis unfolding config_ok_def group_fits_def by fastforce
qed

lemma sample_sizes:
  "attn_page_size_bytes (\<lambda>_. 2) sample_layer = 32" "as_block_size sample_layer = 4"
  "max_memory_usage_bytes (\<lambda>_. 2) sample_vllm (map snd sample_layers) = Ok 1120"
  "is_kv_cache_type_uniform sample_layers = Ok False"
  "is_kv_cache_page_size_uniform (\<lambda>_. 2) sample_layers = Ok True" "get_uniform_page_size (\<lambda>_. 2) sample_layers = Ok 32"
proof -
  show page: "attn_page_size_bytes (\<lambda>_. 2) sample_layer = 32" "as_block_size sample_layer = 4"
    by (simp_all add: attn_page_size_bytes_def sample_layer_def)
  show "max_memory_usage_bytes (\<lambda>_. 2) sample_vllm (map snd sample_layers) = Ok 1120"
    by (simp add: max_memory_usage_bytes_def sample_layers_def sample_vllm_def py_cdiv_def cdiv_def page)
  show "is_kv_cache_type_uniform sample_layers = Ok False"
    by (simp add: is_kv_cache_type_uniform_def sample_layers_def merge_specs_def merge_full_def py_index_def)
  show "is_kv_cache_page_size_uniform (\<lambda>_. 2) sample_layers = Ok True" "get_uniform_page_size (\<lambda>_. 2) sample_layers = Ok 32"
    by (simp_all add: is_kv_cache_page_size_uniform_def get_uniform_page_size_def sample_layers_def page)
qed

lemma sample_hybrid_config:
  "get_kv_cache_config (\<lambda>_. 2) sample_vllm sample_layers 10000 =
     Ok (\<lparr>cc_num_blocks = 156,
          kv_cache_tensors = [\<lparr>kt_size = 4992, shared_by = [''f0'', ''w0'', ''w2'']\<rparr>, \<lparr>kt_size = 4992, shared_by = [''f1'', ''w1'']\<rparr>],
          kv_cache_groups = [\<lparr>layer_names = [''f0'', ''f1''], group_spec = FullAttentionSpec sample_layer None None\<rparr>,
            \<lparr>layer_names = [''w0'', ''w1''], group_spec = SlidingWindowSpec sample_layer 8\<rparr>,
            \<lparr>layer_names = [''w2''], group_spec = SlidingWindowSpec sample_layer 8\<rparr>]\<rparr>, sample_layers)"
proof -
  have types: "same_type_layers sample_layers =
      [(FullAttentionSpec sample_layer None None, [''f0'', ''f1'']), (SlidingWindowSpec sample_layer 8, [''w0'', ''w1'', ''w2''])]"
    by (simp add: same_type_layers_def sample_layers_def list_of_def)
  have split: "split_layers 2 [''f0'', ''f1''] = [[''f0'', ''f1'']]" "split_layers 2 [''w0'', ''w1'', ''w2''] = [[''w0'', ''w1''], [''w2'']]"
    by (simp_all add: split_layers_def py_range_def cdiv_def py_slice_nonneg upt_rec)
  let ?groups = "[\<lparr>layer_names = [''f0'', ''f1''], group_spec = FullAttentionSpec sample_layer None None\<rparr>,
      \<lparr>layer_names = [''w0'', ''w1''], group_spec = SlidingWindowSpec sample_layer 8\<rparr>,
      \<lparr>layer_names = [''w2''], group_spec = SlidingWindowSpec sample_layer 8\<rparr>]"
  have groups: "create_kv_cache_group_specs sample_layers [[''f0'', ''f1''], [''w0'', ''w1''], [''w2'']] = Ok ?groups"
    by (simp add: create_kv_cache_group_specs_def sample_layers_def dict_get_def merge_specs_def py_index_def merge_full_def
        merge_same_def merge_window_sizes_def List.map_filter_simps)
  have conc: "get_max_concurrency_for_kv_cache_config (\<lambda>_. 2) sample_vllm
      \<lparr>cc_num_blocks = 156, kv_cache_tensors = ts, kv_cache_groups = ?groups\<rparr> = Ok (156, 20)" for ts
    by (simp add: get_max_concurrency_for_kv_cache_config_def max_memory_usage_bytes_def sample_vllm_def py_cdiv_def cdiv_def sample_sizes)
  have pools: "map (\<lambda>i. \<lparr>kt_size = 4992, shared_by = pool_layers [[''f0'', ''f1''], [''w0'', ''w1''], [''w2'']] i\<rparr>) [0..<2] =
      [\<lparr>kt_size = 4992, shared_by = [''f0'', ''w0'', ''w2'']\<rparr>, \<lparr>kt_size = 4992, shared_by = [''f1'', ''w1'']\<rparr>]"
    by (simp add: pool_layers_def upt_rec)
  have build: "get_kv_cache_config_uniform_page_size (\<lambda>_. 2) sample_vllm sample_layers 10000 =
      Ok \<lparr>cc_num_blocks = 156, kv_cache_tensors = [\<lparr>kt_size = 4992, shared_by = [''f0'', ''w0'', ''w2'']\<rparr>,
        \<lparr>kt_size = 4992, shared_by = [''f1'', ''w1'']\<rparr>], kv_cache_groups = ?groups\<rparr>"
    using groups conc pools
    by (simp add: get_kv_cache_config_uniform_page_size_def types split sample_sizes get_num_blocks_def sample_vllm_def numeral_2_eq_2 [symmetric])
  have "sample_layers \<noteq> []" "\<not> disable_hybrid_kv_cache_manager sample_vllm" by (simp_all add: sample_layers_def sample_vllm_def)
  then show ?thesis
    by (simp add: get_kv_cache_config_def check_enough_kv_cache_memory_def sample_sizes build is_kv_cache_type_attention_free_def)
qed

lemma kv_cache_config_layout_witness:
  "\<exists>cfg. get_kv_cache_config (\<lambda>_. 2) sample_vllm sample_layers 10000 = Ok (cfg, sample_layers) \<and>
     mset (concat (map shared_by (kv_cache_tensors cfg))) = {#''f0'', ''f1'', ''w0'', ''w1'', ''w2''#}"
proof -
  have "wf_dict sample_layers" "sample_layers \<noteq> []" by (simp_all add: sample_layers_def wf_dict_def)
  from kv_cache_config_layout [OF sample_hybrid_config this] show ?thesis using sample_hybrid_config by (auto simp: sample_layers_def)
qed

text \<open>
  C32.  When the number of blocks is not overridden, a configuration fits into the memory it was
  made for: all tensors together are not larger than the available memory.  And it is large enough:
  when the hybrid manager is not disabled and the layers are split without padding, all blocks
  together have at least the memory that one request of the maximal length needs.  This counts all
  blocks, as the check in the code does; the null block, which the pool sets aside later, is one of
  them, so with memory that is just enough a request of maximal length still lacks a block
  (\<open>exact_fit_lacks_a_block\<close> in the root theory).
\<close>

theorem kv_cache_config_fits_memory:
  assumes "get_kv_cache_config dsz c spec available = Ok (cfg, spec')" and "wf_dict spec" and "spec \<noteq> []"
    and "\<forall>s \<in> set (map snd spec). spec_ok dsz s" and "num_gpu_blocks_override c = None"
  shows "(\<Sum>t \<leftarrow> kv_cache_tensors cfg. kt_size t) \<le> available \<and>
    (\<not> disable_hybrid_kv_cache_manager c \<longrightarrow>
     (\<forall>g \<in> set (kv_cache_groups cfg). length (layer_names g) = length (kv_cache_tensors cfg)) \<longrightarrow>
     (\<exists>need page. max_memory_usage_bytes dsz c (map group_spec (kv_cache_groups cfg)) = Ok need \<and>
        get_uniform_page_size dsz spec = Ok page \<and> need \<le> cc_num_blocks cfg * page))"
proof -
  note g = get_kv_cache_config_ok [OF assms(1,2)]
  note ok = g(4) [OF assms(3), unfolded config_ok_def]
  note enough = check_enough_memory [OF g(2) assms(3)]
  have oks: "\<forall>s \<in> set (map snd spec'). spec_ok dsz s"
    using g(6) unify_keeps_ok [OF _ assms(4)] assms(4) by (cases "disable_hybrid_kv_cache_manager c") simp_all
  obtain page where page: "get_uniform_page_size dsz spec' = Ok page"
      "get_num_blocks c (int (length (kv_cache_tensors cfg))) available page = Ok (cc_num_blocks cfg)"
      "\<forall>t \<in> set (kv_cache_tensors cfg). kt_size t = page * cc_num_blocks cfg" using ok by blast
  note pos = uniform_page_pos [OF page(1) oks]
  have av: "0 \<le> available" using enough(1) by simp
  note n = num_blocks_bounds [OF page(2) assms(5) pos(1) av]
  have "map kt_size (kv_cache_tensors cfg) = replicate (length (kv_cache_tensors cfg)) (page * cc_num_blocks cfg)"
    using page(3) by (auto intro!: replicate_eqI)
  then have "(\<Sum>t \<leftarrow> kv_cache_tensors cfg. kt_size t) \<le> available" using n(1) by (simp add: sum_list_replicate)
  moreover have "\<exists>need page. max_memory_usage_bytes dsz c (map group_spec (kv_cache_groups cfg)) = Ok need \<and>
      get_uniform_page_size dsz spec = Ok page \<and> need \<le> cc_num_blocks cfg * page"
    if hyb: "\<not> disable_hybrid_kv_cache_manager c"
      and full: "\<forall>g \<in> set (kv_cache_groups cfg). length (layer_names g) = length (kv_cache_tensors cfg)"
    using group_need_fits [OF _ _ _ _ page(1) n(2) full] g(3) [OF hyb] ok enough assms(2,4) by blast
  ultimately show ?thesis by blast
qed

text \<open>Two layers of full attention only.\<close>

lemma sample_uniform_config:
  "get_kv_cache_config (\<lambda>_. 2) sample_vllm (take 2 sample_layers) 10000 =
     Ok (\<lparr>cc_num_blocks = 156,
          kv_cache_tensors = [\<lparr>kt_size = 4992, shared_by = [''f0'']\<rparr>, \<lparr>kt_size = 4992, shared_by = [''f1'']\<rparr>],
          kv_cache_groups = [\<lparr>layer_names = [''f0'', ''f1''], group_spec = FullAttentionSpec sample_layer None None\<rparr>]\<rparr>,
       take 2 sample_layers)"
proof -
  let ?f = "FullAttentionSpec sample_layer None None"
  let ?spec = "[(''f0'', ?f), (''f1'', ?f)]"
  have merged: "merge_specs [?f, ?f] = Ok ?f"
    by (simp add: merge_specs_def py_index_def merge_full_def merge_window_sizes_def List.map_filter_simps)
  have mem: "max_memory_usage_bytes (\<lambda>_. 2) sample_vllm [?f] = Ok 320" "max_memory_usage_bytes (\<lambda>_. 2) sample_vllm [?f, ?f] = Ok 640"
    by (simp_all add: max_memory_usage_bytes_def sample_vllm_def py_cdiv_def cdiv_def sample_sizes)
  have flags: "num_gpu_blocks_override sample_vllm = None" "\<not> disable_hybrid_kv_cache_manager sample_vllm" by (simp_all add: sample_vllm_def)
  have check: "check_enough_kv_cache_memory (\<lambda>_. 2) sample_vllm ?spec 10000 = Ok ()"
    by (simp add: check_enough_kv_cache_memory_def mem)
  have "get_kv_cache_config_uniform_type (\<lambda>_. 2) sample_vllm ?spec 10000 =
      Ok \<lparr>cc_num_blocks = 156, kv_cache_tensors = [\<lparr>kt_size = 4992, shared_by = [''f0'']\<rparr>, \<lparr>kt_size = 4992, shared_by = [''f1'']\<rparr>],
        kv_cache_groups = [\<lparr>layer_names = [''f0'', ''f1''], group_spec = ?f\<rparr>]\<rparr>"
    by (simp add: get_kv_cache_config_uniform_type_def get_uniform_page_size_def sample_sizes get_num_blocks_def flags
        create_kv_cache_group_specs_def dict_get_def merged get_max_concurrency_for_kv_cache_config_def mem py_cdiv_def cdiv_def)
  then have "get_kv_cache_config (\<lambda>_. 2) sample_vllm ?spec 10000 =
      Ok (\<lparr>cc_num_blocks = 156, kv_cache_tensors = [\<lparr>kt_size = 4992, shared_by = [''f0'']\<rparr>, \<lparr>kt_size = 4992, shared_by = [''f1'']\<rparr>],
        kv_cache_groups = [\<lparr>layer_names = [''f0'', ''f1''], group_spec = ?f\<rparr>]\<rparr>, ?spec)"
    by (simp add: get_kv_cache_config_def check flags merged is_kv_cache_type_uniform_def is_kv_cache_type_attention_free_def)
  moreover have "take 2 sample_layers = ?spec" by (simp add: sample_layers_def)
  ultimately show ?thesis by simp
qed

lemma kv_cache_config_fits_memory_witness:
  "\<exists>cfg need page. get_kv_cache_config (\<lambda>_. 2) sample_vllm (take 2 sample_layers) 10000 = Ok (cfg, take 2 sample_layers) \<and>
     (\<Sum>t \<leftarrow> kv_cache_tensors cfg. kt_size t) \<le> 10000 \<and>
     max_memory_usage_bytes (\<lambda>_. 2) sample_vllm (map group_spec (kv_cache_groups cfg)) = Ok need \<and> need \<le> cc_num_blocks cfg * page"
proof -
  have "wf_dict (take 2 sample_layers)" "take 2 sample_layers \<noteq> []" "num_gpu_blocks_override sample_vllm = None"
      "\<not> disable_hybrid_kv_cache_manager sample_vllm"
    by (simp_all add: sample_layers_def wf_dict_def sample_vllm_def)
  moreover have "\<forall>s \<in> set (map snd (take 2 sample_layers)). spec_ok (\<lambda>_. 2) s" using sample_layers_ok by (simp add: sample_layers_def)
  ultimately show ?thesis using kv_cache_config_fits_memory [OF sample_uniform_config] sample_uniform_config by fastforce
qed

text \<open>
  After unifying, all workers can be driven by one manager: each has the smallest number of
  blocks of all, keeps its own groups and tensors, and its groups have, one by one, the formats of
  the groups of the first worker.  The sort only has to return the groups it was given.
\<close>

lemma unified_configs_agree:
  assumes "\<And>gs gs'. sort_groups gs = Ok gs' \<Longrightarrow> mset gs' = mset gs" and "unify_kv_cache_configs sort_groups configs = Ok out"
  shows "length out = length configs \<and> (\<forall>i < length configs.
    cc_num_blocks (out ! i) = Min (set (map cc_num_blocks configs)) \<and>
    mset (kv_cache_groups (out ! i)) = mset (kv_cache_groups (configs ! i)) \<and>
    kv_cache_tensors (out ! i) = kv_cache_tensors (configs ! i) \<and>
    (\<forall>k. k < length (kv_cache_groups (out ! 0)) \<and> k < length (kv_cache_groups (out ! i)) \<longrightarrow>
       group_spec (kv_cache_groups (out ! 0) ! k) = group_spec (kv_cache_groups (out ! i) ! k)))"
proof -
  obtain sorted where s: "rmap (\<lambda>cfg. rbind (sort_groups (kv_cache_groups cfg)) (\<lambda>gs. Ok (cfg\<lparr>kv_cache_groups := gs\<rparr>))) configs = Ok sorted"
      "sorted \<noteq> []" "\<forall>cfg \<in> set (tl sorted). \<forall>(g0, g) \<in> set (zip (kv_cache_groups (hd sorted)) (kv_cache_groups cfg)). group_spec g0 = group_spec g"
      "out = map (\<lambda>cfg. cfg\<lparr>cc_num_blocks := Min (set (map cc_num_blocks sorted))\<rparr>) sorted"
  proof -
    obtain sorted where r: "rmap (\<lambda>cfg. rbind (sort_groups (kv_cache_groups cfg)) (\<lambda>gs. Ok (cfg\<lparr>kv_cache_groups := gs\<rparr>))) configs = Ok sorted"
      using assms(2) unfolding unify_kv_cache_configs_def rbind_eq_Ok by blast
    show thesis
      by (cases sorted; rule that [OF r]; use assms(2) in \<open>simp add: unify_kv_cache_configs_def r res_simps Let_def\<close>)
  qed
  note rs = s(1) [unfolded rmap_Ok list_all2_conv_all_nth]
  have "\<exists>gs. sort_groups (kv_cache_groups (configs ! i)) = Ok gs \<and> sorted ! i = (configs ! i)\<lparr>kv_cache_groups := gs\<rparr>"
    if "i < length configs" for i using rs that by (auto simp: res_simps)
  then have each: "length sorted = length configs" "\<forall>i < length configs. cc_num_blocks (sorted ! i) = cc_num_blocks (configs ! i) \<and>
      mset (kv_cache_groups (sorted ! i)) = mset (kv_cache_groups (configs ! i)) \<and> kv_cache_tensors (sorted ! i) = kv_cache_tensors (configs ! i)"
    using rs assms(1) by fastforce+
  have blocks: "map cc_num_blocks sorted = map cc_num_blocks configs" using each by (auto simp: list_eq_iff_nth_eq)
  have "group_spec (kv_cache_groups (sorted ! 0) ! k) = group_spec (kv_cache_groups (sorted ! i) ! k)"
    if "i < length configs" "k < length (kv_cache_groups (sorted ! 0))" "k < length (kv_cache_groups (sorted ! i))" for i k
  proof (cases i)
    case (Suc j)
    have "sorted ! i \<in> set (tl sorted)" using that(1) each(1) s(2) Suc by (cases sorted) auto
    moreover have "(kv_cache_groups (sorted ! 0) ! k, kv_cache_groups (sorted ! i) ! k) \<in>
        set (zip (kv_cache_groups (sorted ! 0)) (kv_cache_groups (sorted ! i)))" using that by (auto simp: set_zip)
    ultimately show ?thesis using s(2,3) by (auto simp: hd_conv_nth)
  qed simp
  moreover have "0 < length sorted" using s(2) by simp
  ultimately show ?thesis using each unfolding s(4) blocks by (auto simp del: length_greater_0_conv)
qed

end
