(* ===== verification/Ngram_Proposer.thy ===== *)
theory Ngram_Proposer
  imports Prelude
begin

text \<open>
  \<open>vllm/v1/spec_decode/ngram_proposer.py\<close>: drafts for speculative decoding without a model.
  The last \<open>n\<close> tokens of the context are searched in what precedes them, with the algorithm of
  Knuth, Morris and Pratt, and the tokens that followed the first occurrence are proposed.

  Arrays are lists; indices and table entries are natural numbers, which the code keeps below
  the length of the array.  Both loops step back through the table, so that their termination
  rests on its contents: they are partial functions into \<open>option\<close>, shown to return.  The outer
  \<open>option\<close> of a result is non-termination, \<open>res\<close> an exception, the inner \<open>option\<close> Python's
  \<open>None\<close>.  Compilation by Numba does not change the meaning.
\<close>

section \<open>The model\<close>

record ngram_proposer =
  min_n :: int
  max_n :: int
  ng_k :: int
  ng_max_model_len :: int

partial_function (option) lps_loop :: "int list \<Rightarrow> nat list \<Rightarrow> nat \<Rightarrow> nat \<Rightarrow> nat list option" where
  "lps_loop pat lps prev_lps i =
     (if i < length pat
      then if pat ! i = pat ! prev_lps then lps_loop pat (lps[i := prev_lps + 1]) (prev_lps + 1) (i + 1)
           else if prev_lps \<noteq> 0 then lps_loop pat lps (lps ! (prev_lps - 1)) i
           else lps_loop pat (lps[i := 0]) prev_lps (i + 1)
      else Some lps)"

definition kmp_lps_array :: "int list \<Rightarrow> nat list option" where
  "kmp_lps_array pat = lps_loop pat (replicate (length pat) 0) 0 1"

partial_function (option) kmp_loop ::
  "int list \<Rightarrow> int list \<Rightarrow> nat list \<Rightarrow> int \<Rightarrow> int \<Rightarrow> nat \<Rightarrow> nat \<Rightarrow> int list option option" where
  "kmp_loop ctx pat lps n k i j =
     (if int i < int (length ctx) - n
      then if ctx ! i = pat ! j
           then if int (j + 1) = n then Some (Some (py_slice ctx (int (i + 1)) (int (i + 1) + k)))
                else kmp_loop ctx pat lps n k (i + 1) (j + 1)
           else if j \<noteq> 0 then kmp_loop ctx pat lps n k i (lps ! (j - 1))
           else kmp_loop ctx pat lps n k (i + 1) j
      else Some None)"

definition find_subarray_kmp :: "int list \<Rightarrow> int \<Rightarrow> int \<Rightarrow> int list option res option" where
  "find_subarray_kmp ctx n k =
     (if \<not> n > 0 then Some (Err AssertionError)
      else let pat = drop (length ctx - nat n) ctx
           in case kmp_lps_array pat of
                None \<Rightarrow> None
              | Some lps \<Rightarrow> map_option Ok (kmp_loop ctx pat lps n k 0 0))"

fun propose_loop :: "int list \<Rightarrow> int \<Rightarrow> int list \<Rightarrow> int list option res option" where
  "propose_loop ctx k [] = Some (Ok None)"
| "propose_loop ctx k (n # ns) =
     (case find_subarray_kmp ctx n k of
        None \<Rightarrow> None
      | Some (Err e) \<Rightarrow> Some (Err e)
      | Some (Ok (Some draft)) \<Rightarrow> Some (Ok (Some draft))
      | Some (Ok None) \<Rightarrow> propose_loop ctx k ns)"

definition propose :: "ngram_proposer \<Rightarrow> int list \<Rightarrow> int list option res option" where
  "propose self ctx =
     (let k = min (ng_k self) (ng_max_model_len self - int (length ctx))
      in if k \<le> 0 then Some (Ok None) else propose_loop ctx k (rev [min_n self..max_n self]))"

definition NgramProposer_init :: "int \<Rightarrow> int \<Rightarrow> int \<Rightarrow> int \<Rightarrow> ngram_proposer res option" where
  "NgramProposer_init lookup_min lookup_max num_speculative_tokens max_len =
     (let self = \<lparr>min_n = lookup_min, max_n = lookup_max, ng_k = num_speculative_tokens, ng_max_model_len = max_len\<rparr>
      in case propose self (replicate 1024 0) of
           None \<Rightarrow> None
         | Some (Err e) \<Rightarrow> Some (Err e)
         | Some (Ok _) \<Rightarrow> Some (Ok self))"

section \<open>Borders\<close>

definition agree :: "'a list \<Rightarrow> nat \<Rightarrow> 'a list \<Rightarrow> nat \<Rightarrow> bool" where
  "agree xs i ys n \<longleftrightarrow> (\<forall>t < n. xs ! (i + t) = ys ! t)"

definition border :: "'a list \<Rightarrow> nat \<Rightarrow> nat \<Rightarrow> bool" where
  "border p q m \<longleftrightarrow> m < q \<and> agree p (q - m) p m"

definition longest_border :: "'a list \<Rightarrow> nat \<Rightarrow> nat \<Rightarrow> bool" where
  "longest_border p q m \<longleftrightarrow> border p q m \<and> (\<forall>m'. border p q m' \<longrightarrow> m' \<le> m)"

lemma agree_mono: "agree xs i ys n \<Longrightarrow> m \<le> n \<Longrightarrow> agree xs i ys m"
  by (simp add: agree_def)

lemma agree_Suc: "agree xs i ys (Suc n) \<longleftrightarrow> agree xs i ys n \<and> xs ! (i + n) = ys ! n"
  by (auto simp: agree_def less_Suc_eq)

lemma agree_0 [simp]: "agree xs i ys 0"
  by (simp add: agree_def)

text \<open>An occurrence that ends where another one ends is a border of it, and conversely.\<close>

lemma agree_border:
  assumes "agree xs (e - q) p q" and "q \<le> e" and "m < q"
  shows "agree xs (e - m) p m \<longleftrightarrow> border p q m"
proof -
  have "xs ! (e - m + t) = p ! (q - m + t)" if "t < m" for t
  proof -
    have "q - m + t < q" "e - q + (q - m + t) = e - m + t" using assms that by auto
    then show ?thesis using assms(1) unfolding agree_def by metis
  qed
  then show ?thesis using assms(3) by (auto simp: agree_def border_def)
qed

lemma border_Suc: "border p (Suc q) (Suc m) \<longleftrightarrow> border p q m \<and> p ! q = p ! m"
  by (auto simp: border_def agree_Suc)

lemma border_0 [simp]: "border p q 0 \<longleftrightarrow> 0 < q"
  by (simp add: border_def)

section \<open>The failure table\<close>

definition lps_inv :: "'a list \<Rightarrow> nat list \<Rightarrow> nat \<Rightarrow> nat \<Rightarrow> bool" where
  "lps_inv p lps prev i \<longleftrightarrow> length lps = length p \<and> border p i prev \<and>
     (\<forall>q. 0 < q \<and> q \<le> i \<and> q \<le> length p \<longrightarrow> longest_border p q (lps ! (q - 1))) \<and>
     (\<forall>m. border p (Suc i) m \<longrightarrow> m \<le> Suc prev)"

lemma lps_inv_start: "lps_inv p (replicate (length p) 0) 0 1"
proof -
  have "longest_border p q (replicate (length p) 0 ! (q - 1))" if "0 < q" "q \<le> 1" "q \<le> length p" for q
  proof -
    have "q = 1" "0 < length p" using that by auto
    then show ?thesis by (auto simp: longest_border_def border_def)
  qed
  then show ?thesis by (auto simp: lps_inv_def border_def)
qed

lemma lps_inv_extend:
  assumes "lps_inv p lps prev i" and "i < length p" and "longest_border p (Suc i) m" and "m = 0 \<or> border p (Suc i) m"
  shows "lps_inv p (lps[i := m]) m (Suc i)"
proof -
  have "longest_border p q (lps[i := m] ! (q - 1))" if "0 < q" "q \<le> Suc i" "q \<le> length p" for q
    using that assms(1-3) by (cases "q = Suc i") (auto simp: lps_inv_def nth_list_update)
  moreover have "m' \<le> Suc m" if "border p (Suc (Suc i)) m'" for m'
    using that assms(3) by (cases m') (auto simp: border_Suc longest_border_def)
  ultimately show ?thesis using assms by (auto simp: lps_inv_def longest_border_def)
qed

lemma lps_inv_match:
  assumes "lps_inv p lps prev i" and "i < length p" and "p ! i = p ! prev"
  shows "lps_inv p (lps[i := Suc prev]) (Suc prev) (Suc i)"
proof -
  have b: "border p (Suc i) (Suc prev)" using assms by (simp add: lps_inv_def border_Suc)
  moreover have "longest_border p (Suc i) (Suc prev)" using b assms(1) by (simp add: longest_border_def lps_inv_def)
  ultimately show ?thesis using lps_inv_extend [OF assms(1,2)] by blast
qed

lemma lps_inv_mismatch:
  assumes "lps_inv p lps prev i" and "i < length p" and "p ! i \<noteq> p ! prev" and "border p (Suc i) m"
  shows "m = 0 \<or> m \<le> prev \<and> border p prev (m - 1)"
proof (cases m)
  case (Suc l)
  have b: "border p i prev" "m \<le> Suc prev" using assms(1,4) by (auto simp: lps_inv_def)
  have l: "border p i l" "p ! i = p ! l" using assms(4) Suc by (auto simp: border_Suc)
  have "l \<noteq> prev" using assms(3) l(2) by auto
  with b(2) Suc have less: "l < prev" by simp
  have "agree p (i - prev) p prev" "prev \<le> i" using b(1) by (auto simp: border_def)
  from agree_border [OF this less] l(1) Suc less show ?thesis by (simp add: border_def)
qed simp

lemma lps_inv_back:
  assumes "lps_inv p lps prev i" and "i < length p" and "p ! i \<noteq> p ! prev" and "prev \<noteq> 0"
  shows "lps_inv p lps (lps ! (prev - 1)) i" and "lps ! (prev - 1) < prev"
proof -
  have b: "border p i prev" using assms(1) by (simp add: lps_inv_def)
  then have le: "prev \<le> i" "agree p (i - prev) p prev" by (auto simp: border_def)
  have l: "longest_border p prev (lps ! (prev - 1))"
    using assms(1,2,4) le(1) by (auto simp: lps_inv_def)
  then show less: "lps ! (prev - 1) < prev" by (simp add: longest_border_def border_def)
  have "agree p (i - lps ! (prev - 1)) p (lps ! (prev - 1))"
    using agree_border [OF le(2,1) less] l by (simp add: longest_border_def)
  then have bb: "border p i (lps ! (prev - 1))" using less le(1) by (simp add: border_def)
  have "m \<le> Suc (lps ! (prev - 1))" if "border p (Suc i) m" for m
    using lps_inv_mismatch [OF assms(1-3) that] l by (auto simp: longest_border_def)
  with bb show "lps_inv p lps (lps ! (prev - 1)) i" using assms(1) by (auto simp: lps_inv_def)
qed

lemma lps_inv_none:
  assumes "lps_inv p lps 0 i" and "i < length p" and "p ! i \<noteq> p ! 0"
  shows "lps_inv p (lps[i := 0]) 0 (Suc i)"
proof -
  have "longest_border p (Suc i) 0"
    using lps_inv_mismatch [OF assms] by (auto simp: longest_border_def)
  from lps_inv_extend [OF assms(1,2) this] show ?thesis by simp
qed

lemma lps_loop_spec:
  assumes "lps_inv p lps prev i"
  shows "\<exists>lps'. lps_loop p lps prev i = Some lps' \<and> length lps' = length p \<and>
    (\<forall>q. 0 < q \<and> q \<le> length p \<longrightarrow> longest_border p q (lps' ! (q - 1)))"
  using assms
proof (induction "2 * (length p - i) + prev" arbitrary: lps prev i rule: less_induct)
  case less
  note inv = less.prems
  have unfold: "lps_loop p lps prev i = (if i < length p
      then if p ! i = p ! prev then lps_loop p (lps[i := prev + 1]) (prev + 1) (i + 1)
           else if prev \<noteq> 0 then lps_loop p lps (lps ! (prev - 1)) i
           else lps_loop p (lps[i := 0]) prev (i + 1)
      else Some lps)" by (subst lps_loop.simps) simp
  show ?case
  proof (cases "i < length p")
    case False
    then show ?thesis using inv unfold by (auto simp: lps_inv_def)
  next
    case i: True
    consider "p ! i = p ! prev" | "p ! i \<noteq> p ! prev" "prev \<noteq> 0" | "p ! i \<noteq> p ! prev" "prev = 0" by blast
    then show ?thesis
    proof cases
      case 1
      from less.hyps [OF _ lps_inv_match [OF inv i 1]] 1 i show ?thesis by (simp add: unfold)
    next
      case 2
      note b = lps_inv_back [OF inv i 2]
      from less.hyps [OF _ b(1)] b(2) 2 i show ?thesis by (simp add: unfold)
    next
      case 3
      have inv0: "lps_inv p lps 0 i" and ne: "p ! i \<noteq> p ! 0" using inv 3 by simp_all
      from less.hyps [OF _ lps_inv_none [OF inv0 i ne]] 3 i show ?thesis unfolding unfold by simp
    qed
  qed
qed

lemma kmp_lps_array_spec:
  obtains lps where "kmp_lps_array p = Some lps" and "length lps = length p"
    and "\<And>q. 0 < q \<Longrightarrow> q \<le> length p \<Longrightarrow> longest_border p q (lps ! (q - 1))"
  using lps_loop_spec [OF lps_inv_start, of p] unfolding kmp_lps_array_def by auto
section \<open>The search\<close>

text \<open>Where the last \<open>n\<close> tokens occur before themselves, without overlap.\<close>

definition occurs :: "int list \<Rightarrow> nat \<Rightarrow> nat \<Rightarrow> bool" where
  "occurs ctx n s \<longleftrightarrow> s + n + n \<le> length ctx \<and> take n (drop s ctx) = drop (length ctx - n) ctx"

definition first_match :: "int list \<Rightarrow> nat \<Rightarrow> nat option" where
  "first_match ctx n = find (occurs ctx n) [0..<length ctx]"

lemma occurs_agree:
  "n \<le> length ctx \<Longrightarrow> occurs ctx n s \<longleftrightarrow> s + n + n \<le> length ctx \<and> agree ctx s (drop (length ctx - n) ctx) n"
  by (auto simp: occurs_def agree_def list_eq_iff_nth_eq)

lemma first_match_Some:
  "first_match ctx n = Some s \<longleftrightarrow> s < length ctx \<and> occurs ctx n s \<and> (\<forall>s' < s. \<not> occurs ctx n s')"
  unfolding first_match_def find_Some_iff
  by (auto intro!: exI [of _ s])

lemma first_match_None: "0 < n \<Longrightarrow> first_match ctx n = None \<longleftrightarrow> (\<forall>s. \<not> occurs ctx n s)"
  by (auto simp: first_match_def find_None_iff occurs_def)

definition kmp_inv :: "int list \<Rightarrow> int list \<Rightarrow> nat \<Rightarrow> nat \<Rightarrow> nat \<Rightarrow> bool" where
  "kmp_inv ctx pat n i j \<longleftrightarrow> j < n \<and> j \<le> i \<and> agree ctx (i - j) pat j \<and> (\<forall>s. s < i - j \<longrightarrow> \<not> occurs ctx n s)"

lemma kmp_inv_shift:
  assumes "kmp_inv ctx pat n i j" and "n \<le> length ctx" and "pat = drop (length ctx - n) ctx"
    and "ctx ! i \<noteq> pat ! j" and "longest_border pat j l"
  shows "kmp_inv ctx pat n i l" and "l < j"
proof -
  note occ = occurs_agree [OF assms(2), folded assms(3)]
  have j: "j < n" "j \<le> i" "agree ctx (i - j) pat j" and old: "\<And>s. s < i - j \<Longrightarrow> \<not> occurs ctx n s"
    using assms(1) by (auto simp: kmp_inv_def)
  show less: "l < j" using assms(5) by (simp add: longest_border_def border_def)
  have a: "agree ctx (i - l) pat l" using agree_border [OF j(3,2) less] assms(5) by (simp add: longest_border_def)
  have "\<not> occurs ctx n s" if "s < i - l" for s
  proof
    assume "occurs ctx n s"
    then have s: "agree ctx s pat n" "i - j \<le> s" using old [of s] by (auto simp: occ not_less intro: leI)
    have "s \<noteq> i - j"
    proof
      assume "s = i - j"
      then have "ctx ! i = pat ! j" using s(1) j(1,2) unfolding agree_def by (metis le_add_diff_inverse2)
      with assms(4) show False by simp
    qed
    then have m: "i - s < j" "s = i - (i - s)" using s(2) that by auto
    have "agree ctx s pat (i - s)" by (rule agree_mono [OF s(1)]) (use m j(1) in simp)
    then have "border pat j (i - s)" using agree_border [OF j(3,2) m(1)] m(2) by simp
    with assms(5) that show False by (auto simp: longest_border_def)
  qed
  then show "kmp_inv ctx pat n i l" using a less j by (simp add: kmp_inv_def)
qed

lemma kmp_inv_end:
  assumes "kmp_inv ctx pat n i j" and "\<not> int i < int (length ctx) - int n" and "0 < n"
  shows "first_match ctx n = None"
proof -
  have "\<not> occurs ctx n s" for s
    using assms(1,2) by (cases "s < i - j") (auto simp: kmp_inv_def occurs_def)
  then show ?thesis using first_match_None [OF assms(3)] by blast
qed

lemma kmp_inv_found:
  assumes "kmp_inv ctx pat n i j" and "int i < int (length ctx) - int n" and "n \<le> length ctx"
    and "pat = drop (length ctx - n) ctx" and "ctx ! i = pat ! j" and "Suc j = n"
  shows "first_match ctx n = Some (i - j)"
proof -
  note occ = occurs_agree [OF assms(3), folded assms(4)]
  have "agree ctx (i - j) pat n" using assms(1,5,6) by (auto simp: kmp_inv_def agree_Suc)
  then have "occurs ctx n (i - j)" using assms(1,2,6) by (auto simp: occ kmp_inv_def)
  moreover have "i - j < length ctx" using assms(2) by linarith
  ultimately show ?thesis using assms(1) by (simp add: first_match_Some kmp_inv_def)
qed

lemma kmp_loop_spec:
  assumes "0 < n" and "n \<le> length ctx" and "pat = drop (length ctx - n) ctx"
    and tab: "\<And>q. 0 < q \<Longrightarrow> q \<le> length pat \<Longrightarrow> longest_border pat q (lps ! (q - 1))"
    and "kmp_inv ctx pat n i j"
  shows "kmp_loop ctx pat lps (int n) k i j =
    Some (map_option (\<lambda>s. py_slice ctx (int (s + n)) (int (s + n) + k)) (first_match ctx n))"
  using assms(5)
proof (induction "2 * (length ctx - i) + j" arbitrary: i j rule: less_induct)
  case less
  note inv = less.prems
  have j: "j < n" "j \<le> i" using inv by (auto simp: kmp_inv_def)
  show ?case
  proof (cases "int i < int (length ctx) - int n")
    case False
    from kmp_inv_end [OF inv this assms(1)] False show ?thesis by (subst kmp_loop.simps) simp
  next
    case i: True
    then have more: "2 * (length ctx - Suc i) + Suc j < 2 * (length ctx - i) + j" by linarith
    consider "ctx ! i = pat ! j" "Suc j = n" | "ctx ! i = pat ! j" "Suc j \<noteq> n" | "ctx ! i \<noteq> pat ! j" "j \<noteq> 0"
      | "ctx ! i \<noteq> pat ! j" "j = 0" by blast
    then show ?thesis
    proof cases
      case 1
      from kmp_inv_found [OF inv i assms(2,3) 1] 1 i j(2) show ?thesis
        by (subst kmp_loop.simps) (auto simp: add.commute)
    next
      case 2
      have "kmp_inv ctx pat n (Suc i) (Suc j)" using 2 inv by (simp add: kmp_inv_def agree_Suc)
      from less.hyps [OF more this] 2 i show ?thesis by (subst kmp_loop.simps) simp
    next
      case 3
      have "longest_border pat j (lps ! (j - 1))" using tab [of j] 3(2) j(1) assms(2,3) by simp
      note s = kmp_inv_shift [OF inv assms(2,3) 3(1) this]
      from less.hyps [OF _ s(1)] s(2) 3 i show ?thesis by (subst kmp_loop.simps) simp
    next
      case 4
      have "\<not> occurs ctx n i" using 4 assms(1) by (auto simp: occurs_agree [OF assms(2)] assms(3) agree_def)
      then have "kmp_inv ctx pat n (Suc i) 0" using inv 4(2) by (auto simp: kmp_inv_def less_Suc_eq)
      from less.hyps [OF _ this] more 4 i show ?thesis by (subst kmp_loop.simps) simp
    qed
  qed
qed

lemma find_subarray_kmp_spec:
  assumes "0 < n"
  shows "find_subarray_kmp ctx (int n) k =
    Some (Ok (map_option (\<lambda>s. py_slice ctx (int (s + n)) (int (s + n) + k)) (first_match ctx n)))"
proof -
  let ?pat = "drop (length ctx - n) ctx"
  obtain lps where lps: "kmp_lps_array ?pat = Some lps" "\<And>q. 0 < q \<Longrightarrow> q \<le> length ?pat \<Longrightarrow> longest_border ?pat q (lps ! (q - 1))"
    by (rule kmp_lps_array_spec [of ?pat]) blast
  have "kmp_loop ctx ?pat lps (int n) k 0 0 =
      Some (map_option (\<lambda>s. py_slice ctx (int (s + n)) (int (s + n) + k)) (first_match ctx n))"
  proof (cases "n \<le> length ctx")
    case True
    show ?thesis by (rule kmp_loop_spec [OF assms True refl lps(2)]) (use assms in \<open>simp_all add: kmp_inv_def\<close>)
  next
    case False
    then have "first_match ctx n = None" using first_match_None [OF assms] by (simp add: occurs_def)
    then show ?thesis using False by (subst kmp_loop.simps) simp
  qed
  then show ?thesis using assms lps(1) by (simp add: find_subarray_kmp_def)
qed

section \<open>Proposing\<close>

text \<open>
  The reference: the longest suffix of the allowed lengths that occurs before itself, at its
  first occurrence, and up to \<open>k\<close> tokens that followed there.
\<close>

fun ngram_ref :: "int list \<Rightarrow> int \<Rightarrow> nat list \<Rightarrow> int list option" where
  "ngram_ref ctx k [] = None"
| "ngram_ref ctx k (n # ns) =
     (case first_match ctx n of Some s \<Rightarrow> Some (take (nat k) (drop (s + n) ctx)) | None \<Rightarrow> ngram_ref ctx k ns)"

lemma propose_loop_ref:
  assumes "0 < k" and "\<forall>n \<in> set ns. 0 < n"
  shows "propose_loop ctx k (map int ns) = Some (Ok (ngram_ref ctx k ns))"
  using assms(2)
proof (induction ns)
  case (Cons n ns)
  then show ?case using assms(1)
    by (cases "first_match ctx n") (simp_all add: find_subarray_kmp_spec py_slice_nonneg nat_add_distrib)
qed simp

lemma map_int_upt: "map int [m..<n] = [int m..int n - 1]"
proof (induction n)
  case (Suc n)
  then show ?case using upto_rec2 [of "int m" "int n"] by (auto simp: not_le)
qed simp

lemma ngram_lengths: "0 < a \<Longrightarrow> rev [a..b] = map int (rev [nat a..<Suc (nat b)])"
  by (cases "0 \<le> b") (simp_all add: rev_map [symmetric] map_int_upt del: upt_Suc)

lemma ngram_ref_Some:
  assumes "ngram_ref ctx k ns = Some d" and "0 < k"
  shows "\<exists>n \<in> set ns. \<exists>s. first_match ctx n = Some s \<and> d = take (nat k) (drop (s + n) ctx)"
  using assms(1)
proof (induction ns)
  case (Cons n ns)
  then show ?case by (cases "first_match ctx n") auto
qed simp

lemma ngram_ref_bounds:
  assumes "ngram_ref ctx k ns = Some d" and "0 < k" and "\<forall>n \<in> set ns. 0 < n"
  shows "d \<noteq> [] \<and> int (length d) \<le> k"
proof -
  obtain n s where d: "n \<in> set ns" "first_match ctx n = Some s" "d = take (nat k) (drop (s + n) ctx)"
    using ngram_ref_Some [OF assms(1,2)] by blast
  then have "s + n < length ctx" using assms(3) by (auto simp: first_match_Some occurs_def)
  then show ?thesis using d(3) assms(2) by auto
qed

text \<open>
  C35.  The prefix table of the pattern is computed in finitely many steps, for every pattern,
  and is right: entry \<open>q - 1\<close> is the length of the longest proper prefix of the first \<open>q\<close>
  tokens that is also their suffix.
\<close>

theorem lps_array_total:
  "\<exists>lps. kmp_lps_array pat = Some lps \<and> length lps = length pat \<and>
     (\<forall>q. 0 < q \<and> q \<le> length pat \<longrightarrow> longest_border pat q (lps ! (q - 1)))"
  by (rule kmp_lps_array_spec [of pat]) blast

lemma lps_array_total_witness:
  "\<exists>lps. kmp_lps_array [1, 2, 1, 2, 3] = Some lps \<and> longest_border [1, 2, 1, 2, 3 :: int] 4 (lps ! 3) \<and> lps ! 3 = 2"
proof -
  obtain lps where t: "kmp_lps_array [1, 2, 1, 2, 3] = Some lps"
      "\<forall>q. 0 < q \<and> q \<le> length [1, 2, 1, 2, 3 :: int] \<longrightarrow> longest_border [1, 2, 1, 2, 3 :: int] q (lps ! (q - 1))"
    using lps_array_total [of "[1, 2, 1, 2, 3]"] by blast
  from t(2) [rule_format, of 4] have l: "longest_border [1, 2, 1, 2, 3 :: int] 4 (lps ! 3)" by simp
  have "border [1, 2, 1, 2, 3 :: int] 4 2" by (auto simp: border_def agree_def less_Suc_eq numeral_eq_Suc)
  moreover have "\<not> border [1, 2, 1, 2, 3 :: int] 4 3" by (auto simp: border_def agree_def numeral_eq_Suc)
  moreover have "lps ! 3 < 4" using l by (simp add: longest_border_def border_def)
  ultimately have "2 \<le> lps ! 3" "lps ! 3 \<noteq> 3" using l by (auto simp: longest_border_def)
  with \<open>lps ! 3 < 4\<close> have "lps ! 3 = 2" by simp
  with t l show ?thesis by blast
qed

text \<open>
  C34.  The proposer returns, never raises, and agrees with a direct search: of the suffixes of
  allowed length that occur earlier without overlap it takes the longest, at its first
  occurrence, and proposes the tokens that followed.  A draft is not empty, has at most the
  configured number of tokens and does not go beyond the model length.
\<close>

theorem ngram_propose_correct:
  assumes "0 < min_n p"
  shows "let k = min (ng_k p) (ng_max_model_len p - int (length ctx));
      draft = ngram_ref ctx k (rev [nat (min_n p)..<Suc (nat (max_n p))])
    in propose p ctx = Some (Ok (if k \<le> 0 then None else draft)) \<and>
      (0 < k \<longrightarrow> (\<forall>d. draft = Some d \<longrightarrow> d \<noteq> [] \<and> int (length d) \<le> ng_k p \<and> int (length ctx + length d) \<le> ng_max_model_len p))"
proof -
  define k where "k = min (ng_k p) (ng_max_model_len p - int (length ctx))"
  let ?ns = "rev [nat (min_n p)..<Suc (nat (max_n p))]"
  have pos: "\<forall>n \<in> set ?ns. 0 < n" using assms by auto
  have "propose p ctx = Some (Ok (if k \<le> 0 then None else ngram_ref ctx k ?ns))"
    using propose_loop_ref [OF _ pos, of k ctx]
    by (simp add: propose_def ngram_lengths [OF assms] k_def [symmetric] del: upt_Suc)
  moreover have "d \<noteq> [] \<and> int (length d) \<le> ng_k p \<and> int (length ctx + length d) \<le> ng_max_model_len p"
    if "0 < k" "ngram_ref ctx k ?ns = Some d" for d
    using ngram_ref_bounds [OF that(2,1) pos] by (auto simp: k_def)
  ultimately show ?thesis unfolding Let_def k_def [symmetric] by blast
qed

lemma ngram_propose_correct_witness:
  "propose \<lparr>min_n = 2, max_n = 3, ng_k = 4, ng_max_model_len = 100\<rparr> [1, 2, 3, 4, 2, 3] = Some (Ok (Some [4, 2, 3]))"
  using ngram_propose_correct [of "\<lparr>min_n = 2, max_n = 3, ng_k = 4, ng_max_model_len = 100\<rparr>" "[1, 2, 3, 4, 2, 3]"]
  by (simp add: first_match_def occurs_def upt_rec)

end
