(* ===== verification/Middleware.thy ===== *)
theory Middleware
  imports Prelude Complex_Main
begin

text \<open>
  \<open>middleware/src\<close>: the FastAPI service in front of the inference server.  \<open>database.py\<close>
  keeps projects, token usage and error logs in a DuckDB file behind one lock,
  \<open>routes.py\<close> has the three handlers.  DuckDB and the HTTP client are parameters: an
  engine opens the file and executes one statement, a client posts one request.  SQL texts
  are trees with their placeholders in the order of the text, values are bound to
  placeholders by position, and a statement takes effect when it returns (autocommit).
\<close>

section \<open>Values, statements and exceptions\<close>

record datetime =
  dt_year :: int
  dt_month :: int
  dt_day :: int
  dt_hour :: int
  dt_minute :: int
  dt_second :: int
  dt_microsecond :: int

datatype sql_value = SqlNull | SqlText string | SqlInt int | SqlTimestamp datetime

type_synonym sql_rows = "sql_value list list"

record sql_column =
  col_name :: string
  col_type :: string
  col_primary_key :: bool
  col_default :: "string option"

text \<open>\<open>q_where\<close> are the columns compared with a placeholder, \<open>q_order\<close> the column of \<open>ORDER BY ... DESC\<close>.\<close>

record sql_query =
  q_columns :: "string list"
  q_from :: string
  q_where :: "string list"
  q_order :: "string option"
  q_limit :: bool

text \<open>\<open>Insert\<close> has the columns and the number of placeholders in \<open>VALUES (?, ...)\<close>; the \<open>i\<close>-th placeholder is
  for the \<open>i\<close>-th column.\<close>

datatype sql =
    CreateTable string "sql_column list" "(string \<times> string \<times> string) list"
  | CreateSequence string int
  | CreateView string sql_query
  | Insert string "string list" nat
  | Select sql_query

fun placeholders :: "sql \<Rightarrow> string list" where
  "placeholders (Insert t cs k) = map (\<lambda>i. if i < length cs then cs ! i else ''?'') [0..<k]"
| "placeholders (Select q) = q_where q @ (if q_limit q then [''LIMIT''] else [])"
| "placeholders _ = []"

datatype mw_error =
    PyError py_error
  | DuckDBError string
  | RequestError string string
  | HTTPStatusError int string string string
  | OtherError string

record 'db duckdb =
  dd_connect :: "'db \<Rightarrow> mw_error + unit"
  dd_execute :: "sql \<Rightarrow> sql_value list \<Rightarrow> 'db \<Rightarrow> (mw_error + sql_rows) \<times> 'db"

section \<open>The database module\<close>

subsection \<open>Schema\<close>

definition column :: "string \<Rightarrow> string \<Rightarrow> sql_column" where
  "column n t = \<lparr>col_name = n, col_type = t, col_primary_key = False, col_default = None\<rparr>"

definition projects_table :: sql where
  "projects_table = CreateTable ''projects'' [(column ''project_id'' ''TEXT'')\<lparr>col_primary_key := True\<rparr>] []"

definition access_logs_table :: sql where
  "access_logs_table = CreateTable ''access_logs''
     [(column ''access_logs_id'' ''INTEGER'')\<lparr>col_primary_key := True, col_default := Some ''nextval('seq_access_logs_id')''\<rparr>,
      column ''project_id'' ''TEXT'', column ''project_source'' ''TEXT'',
      column ''tokens_in'' ''INTEGER'', column ''tokens_out'' ''INTEGER'',
      (column ''timestamp'' ''TIMESTAMP'')\<lparr>col_default := Some ''CURRENT_TIMESTAMP''\<rparr>]
     [(''project_id'', ''projects'', ''project_id'')]"

definition recent_erro_log_view :: sql where
  "recent_erro_log_view = CreateView ''recent_erro_log_view''
     \<lparr>q_columns = [''erro_id'', ''project_id'', ''inference_log'', ''middleware_log'', ''timestamp''],
      q_from = ''erro_log'', q_where = [], q_order = Some ''timestamp'', q_limit = False\<rparr>"

definition erro_log_table :: sql where
  "erro_log_table = CreateTable ''erro_log''
     [(column ''erro_id'' ''INTEGER'')\<lparr>col_primary_key := True, col_default := Some ''nextval('seq_erro_log_id')''\<rparr>,
      column ''project_id'' ''TEXT'', column ''inference_log'' ''TEXT'', column ''middleware_log'' ''TEXT'',
      (column ''timestamp'' ''TIMESTAMP'')\<lparr>col_default := Some ''CURRENT_TIMESTAMP''\<rparr>]
     [(''project_id'', ''projects'', ''project_id'')]"

definition init_statements :: "sql list" where
  "init_statements =
     [projects_table, CreateSequence ''seq_access_logs_id'' 1, access_logs_table, recent_erro_log_view,
      CreateSequence ''seq_erro_log_id'' 1, erro_log_table]"

definition with_connection ::
  "'db duckdb \<Rightarrow> ('db \<Rightarrow> (mw_error + 'a) \<times> 'db) \<Rightarrow> 'db \<Rightarrow> (mw_error + 'a) \<times> 'db" where
  "with_connection e body db = (case dd_connect e db of Inl x \<Rightarrow> (Inl x, db) | Inr _ \<Rightarrow> body db)"

fun execute_all :: "'db duckdb \<Rightarrow> sql list \<Rightarrow> 'db \<Rightarrow> (mw_error + unit) \<times> 'db" where
  "execute_all e [] db = (Inr (), db)"
| "execute_all e (q # qs) db =
     (case dd_execute e q [] db of
        (Inl x, db') \<Rightarrow> (Inl x, db')
      | (Inr _, db') \<Rightarrow> execute_all e qs db')"

definition init_db :: "'db duckdb \<Rightarrow> 'db \<Rightarrow> (mw_error + unit) \<times> 'db" where
  "init_db e = with_connection e (execute_all e init_statements)"

text \<open>\<open>lifespan\<close> of \<open>core.py\<close>: the application serves requests when the schema is in place.\<close>

definition lifespan :: "'db duckdb \<Rightarrow> 'db \<Rightarrow> bool \<times> 'db" where
  "lifespan e db = (case init_db e db of (Inl x, db') \<Rightarrow> (False, db') | (Inr _, db') \<Rightarrow> (True, db'))"

text \<open>Which of \<open>n\<close> starts in a row reach the point where requests are served.\<close>

fun starts :: "'db duckdb \<Rightarrow> nat \<Rightarrow> 'db \<Rightarrow> bool list \<times> 'db" where
  "starts e 0 db = ([], db)"
| "starts e (Suc n) db =
     (let (up, db1) = lifespan e db; (ups, db2) = starts e n db1 in (up # ups, db2))"

subsection \<open>Operations under the lock\<close>

record 'db service =
  sv_db :: 'db
  db_lock :: bool

text \<open>\<open>None\<close> is waiting for a lock that is held; the lock is released on exceptions too.\<close>

definition with_db_lock ::
  "('db \<Rightarrow> (mw_error + 'a) \<times> 'db) \<Rightarrow> 'db service \<Rightarrow> ((mw_error + 'a) \<times> 'db service) option" where
  "with_db_lock body s =
     (if db_lock s then None
      else let s1 = s\<lparr>db_lock := True\<rparr>; (r, db) = body (sv_db s1)
           in Some (r, s1\<lparr>sv_db := db, db_lock := False\<rparr>))"

definition insert_usage ::
  "'db duckdb \<Rightarrow> string \<Rightarrow> string \<Rightarrow> int \<Rightarrow> int \<Rightarrow> 'db service \<Rightarrow> ((mw_error + unit) \<times> 'db service) option" where
  "insert_usage e project_id project_source tokens_in tokens_out =
     with_db_lock (with_connection e (\<lambda>db.
       let (r, db') = dd_execute e
             (Insert ''access_logs'' [''project_id'', ''project_source'', ''tokens_in'', ''tokens_out''] 4)
             [SqlText project_id, SqlText project_source, SqlInt tokens_in, SqlInt tokens_out] db
       in (map_sum id (\<lambda>_. ()) r, db')))"

definition datetime_init :: "int \<Rightarrow> int \<Rightarrow> int \<Rightarrow> int \<Rightarrow> int \<Rightarrow> int \<Rightarrow> int \<Rightarrow> mw_error + datetime" where
  "datetime_init y mo d h mi s us =
     (let leap = y mod 4 = 0 \<and> (y mod 100 \<noteq> 0 \<or> y mod 400 = 0);
          days = (if mo = 2 then (if leap then 29 else 28) else if mo \<in> {4, 6, 9, 11} then 30 else 31)
      in if 1 \<le> y \<and> y \<le> 9999 \<and> 1 \<le> mo \<and> mo \<le> 12 \<and> 1 \<le> d \<and> d \<le> days \<and>
            0 \<le> h \<and> h \<le> 23 \<and> 0 \<le> mi \<and> mi \<le> 59 \<and> 0 \<le> s \<and> s \<le> 59 \<and> 0 \<le> us \<and> us \<le> 999999
         then Inr \<lparr>dt_year = y, dt_month = mo, dt_day = d, dt_hour = h, dt_minute = mi, dt_second = s, dt_microsecond = us\<rparr>
         else Inl (PyError ValueError))"

text \<open>An empty project id is false, so it does not filter.\<close>

definition usage_query :: "datetime \<Rightarrow> string option \<Rightarrow> sql_query \<times> sql_value list" where
  "usage_query month_start project_id =
     (let query = \<lparr>q_columns = [''project_id'', ''tokens_usage'', ''last_update''], q_from = ''tokens_usage_view'',
                   q_where = [''month''], q_order = None, q_limit = False\<rparr>;
          params = [SqlTimestamp month_start]
      in case project_id of
           None \<Rightarrow> (query, params)
         | Some p \<Rightarrow>
             if p = [] then (query, params)
             else (query\<lparr>q_where := q_where query @ [''project_id'']\<rparr>, params @ [SqlText p]))"

definition query_usage_month ::
  "'db duckdb \<Rightarrow> string option \<Rightarrow> int \<Rightarrow> int \<Rightarrow> 'db service \<Rightarrow> ((mw_error + sql_rows) \<times> 'db service) option" where
  "query_usage_month e project_id year month s =
     (case datetime_init year month 1 0 0 0 0 of
        Inl x \<Rightarrow> Some (Inl x, s)
      | Inr month_start \<Rightarrow>
          with_db_lock (with_connection e (\<lambda>db.
            let (query, params) = usage_query month_start project_id in dd_execute e (Select query) params db)) s)"

definition errors_query :: "int \<Rightarrow> string option \<Rightarrow> sql_query \<times> sql_value list" where
  "errors_query n project_id =
     (let query = \<lparr>q_columns = [''erro_id'', ''project_id'', ''inference_log'', ''middleware_log'', ''timestamp''],
                   q_from = ''recent_erro_log_view'', q_where = [], q_order = None, q_limit = False\<rparr>;
          params = [];
          query = (if project_id \<noteq> None then query\<lparr>q_where := [''project_id'']\<rparr> else query);
          query = query\<lparr>q_order := Some ''timestamp'', q_limit := True\<rparr>;
          params = params @ [SqlInt n];
          params = (case project_id of None \<Rightarrow> params | Some p \<Rightarrow> SqlText p # params)
      in (query, params))"

definition get_last_error_logs ::
  "'db duckdb \<Rightarrow> int \<Rightarrow> string option \<Rightarrow> 'db service \<Rightarrow> ((mw_error + sql_rows) \<times> 'db service) option" where
  "get_last_error_logs e n project_id =
     with_db_lock (with_connection e (\<lambda>db.
       let (query, params) = errors_query n project_id in dd_execute e (Select query) params db))"

subsection \<open>Coroutines\<close>

text \<open>
  \<open>asyncio.to_thread\<close> calls its argument in a thread and returns what the call returns.
  Calling a coroutine function returns a coroutine object and runs nothing of its body.
\<close>

datatype py_value = PyNone | PyRows sql_rows | PyCoroutine

type_synonym 'db handler = "'db service \<Rightarrow> ((mw_error + py_value) \<times> 'db service) option"

definition to_thread :: "'db handler \<Rightarrow> 'db handler" where
  "to_thread f s = f s"

definition call_coroutine_function :: "'db handler" where
  "call_coroutine_function s = Some (Inr PyCoroutine, s)"

text \<open>A body whose last statement awaits and drops the value returns \<open>None\<close>.\<close>

definition returns_none :: "'db handler \<Rightarrow> 'db handler" where
  "returns_none f s = map_option (map_prod (map_sum id (\<lambda>_. PyNone)) id) (f s)"

definition rows_value :: "('db service \<Rightarrow> ((mw_error + sql_rows) \<times> 'db service) option) \<Rightarrow> 'db handler" where
  "rows_value f s = map_option (map_prod (map_sum id PyRows) id) (f s)"

text \<open>The thread runs \<open>async_insert_usage\<close> again, not \<open>insert_usage\<close>.\<close>

definition async_insert_usage :: "'db duckdb \<Rightarrow> string \<Rightarrow> string \<Rightarrow> int \<Rightarrow> int \<Rightarrow> 'db handler" where
  "async_insert_usage e project_id project_source tokens_in tokens_out =
     returns_none (to_thread call_coroutine_function)"

definition async_get_last_error_logs :: "'db duckdb \<Rightarrow> int \<Rightarrow> string option \<Rightarrow> 'db handler" where
  "async_get_last_error_logs e n project_id =
     returns_none (to_thread (rows_value (get_last_error_logs e n project_id)))"

definition async_query_usage_month :: "'db duckdb \<Rightarrow> string option \<Rightarrow> int \<Rightarrow> int \<Rightarrow> 'db handler" where
  "async_query_usage_month e project_id year month =
     to_thread (rows_value (query_usage_month e project_id year month))"

section \<open>The routes\<close>

text \<open>The answer of a handler is the object with one key; the parameters' declared bounds are the guards.\<close>

type_synonym 'db route = "'db service \<Rightarrow> ((mw_error + (string \<times> py_value)) \<times> 'db service) option"

definition errors_params_ok :: "int \<Rightarrow> bool" where
  "errors_params_ok n \<longleftrightarrow> n > 0"

definition usage_params_ok :: "int \<Rightarrow> int \<Rightarrow> bool" where
  "usage_params_ok year month \<longleftrightarrow> 2000 \<le> year \<and> year \<le> 2100 \<and> 1 \<le> month \<and> month \<le> 12"

text \<open>The answer is the object the handler returns; its validation against \<open>response_model\<close> by FastAPI is
  not part of the model.\<close>

definition get_errors :: "'db duckdb \<Rightarrow> int \<Rightarrow> string option \<Rightarrow> 'db route" where
  "get_errors e n project_id s =
     map_option (map_prod (map_sum id (Pair ''errors'')) id) (async_get_last_error_logs e n project_id s)"

definition get_usage_route :: "'db duckdb \<Rightarrow> string option \<Rightarrow> int \<Rightarrow> int \<Rightarrow> 'db route" where
  "get_usage_route e project_id year month s =
     map_option (map_prod (map_sum id (Pair ''usage'')) id) (async_query_usage_month e project_id year month s)"

subsection \<open>Inference\<close>

datatype json = JNull | JBool bool | JInt int | JReal rat | JString string | JList "json list" | JObject "(string \<times> json) list"

record http_response =
  status_code :: int
  resp_text :: string
  resp_json :: "mw_error + json"

record http_client =
  hc_post :: "string \<Rightarrow> (string \<times> string) list \<Rightarrow> json \<Rightarrow> rat \<Rightarrow> mw_error + http_response"
  hc_raise_for_status :: "http_response \<Rightarrow> mw_error + unit"

datatype infer_answer = InferResult json | InferError string int

text \<open>Log lines by their arguments.\<close>

datatype log_line =
    InferenceSuccessful json
  | RequestFailed string string
  | ErrorResponse int string string
  | UnexpectedError string

definition vllm_url :: string where
  "vllm_url = ''http://localhost:8000/v1/completions''"

definition infer_payload :: "string \<Rightarrow> string \<Rightarrow> json" where
  "infer_payload prompt model =
     JObject [(''model'', JString model), (''prompt'', JString prompt), (''max_tokens'', JInt 100), (''temperature'', JReal (7 / 10))]"

fun error_message :: "mw_error \<Rightarrow> string" where
  "error_message (PyError _) = []"
| "error_message (DuckDBError m) = m"
| "error_message (RequestError url m) = m"
| "error_message (HTTPStatusError code url text m) = m"
| "error_message (OtherError m) = m"

text \<open>The body of the \<open>try\<close>, then the handlers in their order.\<close>

definition infer_try :: "http_client \<Rightarrow> string \<Rightarrow> string \<Rightarrow> mw_error + json" where
  "infer_try c prompt model =
     (case hc_post c vllm_url [(''Content-Type'', ''application/json'')] (infer_payload prompt model) 60 of
        Inl x \<Rightarrow> Inl x
      | Inr response \<Rightarrow>
          (case hc_raise_for_status c response of
             Inl x \<Rightarrow> Inl x
           | Inr _ \<Rightarrow> resp_json response))"

definition infer :: "http_client \<Rightarrow> string \<Rightarrow> string \<Rightarrow> infer_answer \<times> log_line list" where
  "infer c prompt model =
     (case infer_try c prompt model of
        Inr result \<Rightarrow> (InferResult result, [InferenceSuccessful result])
      | Inl (RequestError url m) \<Rightarrow>
          (InferError (''Failed to connect to vLLM server: '' @ m) 500, [RequestFailed url m])
      | Inl (HTTPStatusError code url text m) \<Rightarrow>
          (InferError (''vLLM server returned an error: '' @ text) code, [ErrorResponse code url m])
      | Inl x \<Rightarrow>
          (InferError (''An unexpected error occurred: '' @ error_message x) 500, [UnexpectedError (error_message x)]))"

section \<open>What DuckDB documents\<close>

text \<open>
  \<open>relations\<close> are the tables and views of a database.  A statement adds no relation but the
  one it creates, and a query over a relation that does not exist is refused, when a view is
  created from it as when it is run.
\<close>

fun defined_relation :: "sql \<Rightarrow> string set" where
  "defined_relation (CreateTable t cs fks) = {t}"
| "defined_relation (CreateView v q) = {v}"
| "defined_relation _ = {}"

definition catalog_laws :: "'db duckdb \<Rightarrow> ('db \<Rightarrow> string set) \<Rightarrow> bool" where
  "catalog_laws e relations \<longleftrightarrow>
     (\<forall>q ps db. relations (snd (dd_execute e q ps db)) \<subseteq> relations db \<union> defined_relation q) \<and>
     (\<forall>q v ps db. q_from q \<notin> relations db \<longrightarrow>
        (\<exists>m. dd_execute e (CreateView v q) ps db = (Inl (DuckDBError m), db)) \<and>
        (\<exists>m. dd_execute e (Select q) ps db = (Inl (DuckDBError m), db)))"

lemma catalog_lawsD:
  assumes "catalog_laws e relations"
  shows "dd_execute e q ps db = (r, db') \<Longrightarrow> relations db' \<subseteq> relations db \<union> defined_relation q"
    and "q_from w \<notin> relations db \<Longrightarrow> \<exists>m. dd_execute e (CreateView v w) ps db = (Inl (DuckDBError m), db)"
    and "q_from w \<notin> relations db \<Longrightarrow> \<exists>m. dd_execute e (Select w) ps db = (Inl (DuckDBError m), db)"
proof -
  show "relations db' \<subseteq> relations db \<union> defined_relation q" if "dd_execute e q ps db = (r, db')"
  proof -
    have "relations (snd (dd_execute e q ps db)) \<subseteq> relations db \<union> defined_relation q"
      using assms by (simp add: catalog_laws_def)
    then show ?thesis by (simp add: that)
  qed
qed (use assms in \<open>simp_all add: catalog_laws_def\<close>)

lemma execute_all_relations:
  assumes "catalog_laws e relations" and "execute_all e qs db = (r, db')"
  shows "relations db' \<subseteq> relations db \<union> \<Union> (defined_relation ` set qs)"
  using assms(2)
proof (induction qs arbitrary: db)
  case (Cons q qs)
  obtain r1 db1 where q: "dd_execute e q [] db = (r1, db1)" by fastforce
  note grow = catalog_lawsD(1) [OF assms(1) q]
  show ?case
  proof (cases r1)
    case (Inr rows)
    then have "relations db' \<subseteq> relations db1 \<union> \<Union> (defined_relation ` set qs)"
      using Cons.prems q by (intro Cons.IH) simp
    then show ?thesis using grow by auto
  qed (use Cons.prems q grow in auto)
qed simp

text \<open>A view that comes before everything that could create its source stops the list there.\<close>

lemma execute_all_blocked:
  assumes "catalog_laws e relations"
  shows "q_from w \<notin> relations db \<Longrightarrow> \<forall>q \<in> set as. q_from w \<notin> defined_relation q \<Longrightarrow>
    execute_all e (as @ CreateView v w # bs) db = (r, db') \<Longrightarrow> isl r \<and> relations db' \<subseteq> relations db \<union> \<Union> (defined_relation ` set as)"
proof (induction as arbitrary: db)
  case Nil
  then show ?case using catalog_lawsD(2) [OF assms Nil.prems(1), of v "[]"] by auto
next
  case (Cons q as)
  obtain r1 db1 where q: "dd_execute e q [] db = (r1, db1)" by fastforce
  note grow = catalog_lawsD(1) [OF assms q]
  show ?case
  proof (cases r1)
    case (Inr rows)
    have "isl r \<and> relations db' \<subseteq> relations db1 \<union> \<Union> (defined_relation ` set as)"
      by (rule Cons.IH) (use Cons.prems q grow Inr in auto)
    then show ?thesis using grow by auto
  qed (use Cons.prems q grow in auto)
qed

lemma lifespan_blocked:
  assumes "catalog_laws e relations" and "''erro_log'' \<notin> relations db" and "lifespan e db = (up, db')"
  shows "\<not> up" and "relations db' \<subseteq> relations db \<union> {''projects'', ''access_logs''}"
proof -
  obtain r where r: "init_db e db = (r, db')" "up \<longleftrightarrow> \<not> isl r"
    using assms(3) by (auto simp: lifespan_def split: prod.splits sum.splits)
  have "isl r \<and> relations db' \<subseteq> relations db \<union> {''projects'', ''access_logs''}"
  proof (cases "dd_connect e db")
    case (Inl x)
    then have "r = Inl x" "db' = db" using r(1) by (auto simp: init_db_def with_connection_def)
    then show ?thesis by auto
  next
    case (Inr u)
    define w where "w = \<lparr>q_columns = [''erro_id'', ''project_id'', ''inference_log'', ''middleware_log'', ''timestamp''],
      q_from = ''erro_log'', q_where = [], q_order = Some ''timestamp'', q_limit = False\<rparr>"
    have eq: "init_statements = [projects_table, CreateSequence ''seq_access_logs_id'' 1, access_logs_table] @
        CreateView ''recent_erro_log_view'' w # [CreateSequence ''seq_erro_log_id'' 1, erro_log_table]"
      by (simp add: init_statements_def recent_erro_log_view_def w_def)
    have "execute_all e init_statements db = (r, db')" using Inr r(1) by (simp add: init_db_def with_connection_def)
    from execute_all_blocked [OF assms(1) _ _ this [unfolded eq]] assms(2) show ?thesis
      by (simp add: w_def projects_table_def access_logs_table_def insert_commute)
  qed
  then show "\<not> up" and "relations db' \<subseteq> relations db \<union> {''projects'', ''access_logs''}" using r(2) by auto
qed

lemma starts_blocked:
  assumes "catalog_laws e relations"
  shows "''erro_log'' \<notin> relations db \<Longrightarrow> starts e n db = (ups, db') \<Longrightarrow>
    ups = replicate n False \<and> relations db' \<subseteq> relations db \<union> {''projects'', ''access_logs''}"
proof (induction n arbitrary: db ups)
  case (Suc n)
  obtain up db1 ups1 where s: "lifespan e db = (up, db1)" "starts e n db1 = (ups1, db')" "ups = up # ups1"
    using Suc.prems(2) by (auto simp: Let_def split: prod.splits)
  note l = lifespan_blocked [OF assms Suc.prems(1) s(1)]
  have "ups1 = replicate n False \<and> relations db' \<subseteq> relations db1 \<union> {''projects'', ''access_logs''}"
    by (rule Suc.IH [OF _ s(2)]) (use l(2) Suc.prems(1) in auto)
  then show ?case using l s(3) by auto
qed auto

section \<open>One statement per operation\<close>

text \<open>
  The operation ran \<open>stmt\<close> once, with exactly one value for each placeholder, bound as
  \<open>binds\<close> says; its result is the engine's and the lock is as before.
\<close>

definition ran_once ::
  "'db duckdb \<Rightarrow> sql \<Rightarrow> (string \<times> sql_value) list \<Rightarrow> 'db service \<Rightarrow> ((mw_error + sql_rows) \<times> 'db service) \<Rightarrow> bool" where
  "ran_once e stmt binds s out \<longleftrightarrow> map fst binds = placeholders stmt \<and>
     out = (let (r, db) = dd_execute e stmt (map snd binds) (sv_db s) in (r, s\<lparr>sv_db := db\<rparr>))"

lemma with_db_lock_free:
  assumes "\<not> db_lock s"
  shows "with_db_lock body s = Some (fst (body (sv_db s)), s\<lparr>sv_db := snd (body (sv_db s))\<rparr>)"
  using assms by (cases s) (simp add: with_db_lock_def split_beta)

lemma month_start: "usage_params_ok y m \<Longrightarrow> datetime_init y m 1 0 0 0 0 =
    Inr \<lparr>dt_year = y, dt_month = m, dt_day = 1, dt_hour = 0, dt_minute = 0, dt_second = 0, dt_microsecond = 0\<rparr>"
  by (simp add: usage_params_ok_def datetime_init_def Let_def)

text \<open>The value each placeholder must get.\<close>

definition usage_binds :: "datetime \<Rightarrow> string option \<Rightarrow> (string \<times> sql_value) list" where
  "usage_binds start pid = (''month'', SqlTimestamp start) #
     (case pid of None \<Rightarrow> [] | Some p \<Rightarrow> if p = [] then [] else [(''project_id'', SqlText p)])"

definition errors_binds :: "int \<Rightarrow> string option \<Rightarrow> (string \<times> sql_value) list" where
  "errors_binds n pid = (case pid of None \<Rightarrow> [] | Some p \<Rightarrow> [(''project_id'', SqlText p)]) @ [(''LIMIT'', SqlInt n)]"

lemma usage_query_binds:
  "q_from (fst (usage_query d pid)) = ''tokens_usage_view''"
  "snd (usage_query d pid) = map snd (usage_binds d pid)"
  "placeholders (Select (fst (usage_query d pid))) = map fst (usage_binds d pid)"
  by (cases pid; simp add: usage_query_def usage_binds_def Let_def)+

lemma errors_query_binds:
  "q_from (fst (errors_query n pid)) = ''recent_erro_log_view''"
  "snd (errors_query n pid) = map snd (errors_binds n pid)"
  "placeholders (Select (fst (errors_query n pid))) = map fst (errors_binds n pid)"
  by (cases pid; simp add: errors_query_def errors_binds_def Let_def)+

text \<open>An answer with a result comes from an accepted response, an error code from the client's exception.\<close>

lemma infer_result:
  "fst (infer c prompt model) = InferResult j \<longleftrightarrow>
    (\<exists>resp. hc_post c vllm_url [(''Content-Type'', ''application/json'')] (infer_payload prompt model) 60 = Inr resp \<and>
       hc_raise_for_status c resp = Inr () \<and> resp_json resp = Inr j)"
  by (auto simp: infer_def infer_try_def split: sum.splits mw_error.splits)

lemma infer_error_code:
  assumes "fst (infer c prompt model) = InferError msg code" and "code \<noteq> 500"
  shows "\<exists>url text m. infer_try c prompt model = Inl (HTTPStatusError code url text m) \<and>
    msg = ''vLLM server returned an error: '' @ text"
  using assms by (auto simp: infer_def split: sum.splits mw_error.splits)

lemma infer_logs_once: "length (snd (infer c prompt model)) = 1"
  by (auto simp: infer_def split: sum.splits mw_error.splits)

text \<open>An engine that keeps the names of the relations only, for concrete instances.\<close>

fun names_execute :: "sql \<Rightarrow> sql_value list \<Rightarrow> string list \<Rightarrow> (mw_error + sql_rows) \<times> string list" where
  "names_execute (CreateTable t cs fks) ps db = (Inr [], List.insert t db)"
| "names_execute (CreateView v q) ps db =
     (if q_from q \<in> set db then (Inr [], List.insert v db) else (Inl (DuckDBError ''Catalog Error''), db))"
| "names_execute (Select q) ps db =
     (if q_from q \<in> set db then (Inr [], db) else (Inl (DuckDBError ''Catalog Error''), db))"
| "names_execute _ ps db = (Inr [], db)"

definition names_engine :: "string list duckdb" where
  "names_engine = \<lparr>dd_connect = (\<lambda>db. Inr ()), dd_execute = names_execute\<rparr>"

lemma names_engine_laws: "catalog_laws names_engine set"
proof -
  have "set (snd (names_execute q ps db)) \<subseteq> set db \<union> defined_relation q" for q ps db
    by (cases q) auto
  then show ?thesis by (simp add: catalog_laws_def names_engine_def)
qed

section \<open>Properties\<close>

text \<open>
  C37.  The schema is created in an order that never works: the view over \<open>erro_log\<close>
  comes before the table.  On a database without that table no start of the service gets as
  far as serving requests, however often it is retried, and the statements that would create
  the table are never reached; a usage query fails after any number of starts as well,
  because \<open>tokens_usage_view\<close> is not created at all.
\<close>

theorem service_never_starts:
  assumes "catalog_laws e relations" and "''erro_log'' \<notin> relations db" and "''tokens_usage_view'' \<notin> relations db"
    and "usage_params_ok year month"
  shows "fst (starts e n db) = replicate n False \<and> ''erro_log'' \<notin> relations (snd (starts e n db)) \<and>
    (\<exists>x s'. get_usage_route e project_id year month \<lparr>sv_db = snd (starts e n db), db_lock = False\<rparr> = Some (Inl x, s'))"
proof -
  obtain ups db' where s: "starts e n db = (ups, db')" by fastforce
  note b = starts_blocked [OF assms(1,2) s]
  have no: "''tokens_usage_view'' \<notin> relations db'" using b assms(3) by auto
  have "isl (fst (dd_execute e (Select (fst (usage_query d project_id))) ps db'))" for d ps
    using catalog_lawsD(3) [OF assms(1), of "fst (usage_query d project_id)" db' ps] no by (auto simp: usage_query_binds(1))
  then have "\<exists>r s'. query_usage_month e project_id year month \<lparr>sv_db = db', db_lock = False\<rparr> = Some (r, s') \<and> isl r"
    by (cases "dd_connect e db'")
      (auto simp: query_usage_month_def month_start [OF assms(4)] with_db_lock_free with_connection_def split_beta)
  then have "\<exists>x s'. query_usage_month e project_id year month \<lparr>sv_db = db', db_lock = False\<rparr> = Some (Inl x, s')"
    by (auto simp: isl_def)
  then show ?thesis using b assms(2) s
    by (auto simp: get_usage_route_def async_query_usage_month_def to_thread_def rows_value_def)
qed

lemma service_never_starts_witness:
  "fst (starts names_engine 2 []) = [False, False] \<and> ''erro_log'' \<notin> set (snd (starts names_engine 2 [])) \<and>
   (\<exists>x s'. get_usage_route names_engine None 2025 7 \<lparr>sv_db = snd (starts names_engine 2 []), db_lock = False\<rparr> = Some (Inl x, s'))"
  using service_never_starts [OF names_engine_laws, of "[]" 2025 7 2 None]
  by (simp add: usage_params_ok_def numeral_2_eq_2)

text \<open>
  C38.  The three operations of the database module that the handlers use, two queries and the
  recording of usage, each run one statement, with one value per placeholder bound in
  the order of the text, and releases the lock: the month of a usage query is its first
  day at midnight, a project filter is added for a project id that is given (for usage
  queries also not empty) and error logs are limited to \<open>n\<close> rows after the filter.
\<close>

theorem queries_bind_parameters:
  assumes "\<not> db_lock s" and "dd_connect e (sv_db s) = Inr ()" and "usage_params_ok year month"
  shows "let start = \<lparr>dt_year = year, dt_month = month, dt_day = 1, dt_hour = 0, dt_minute = 0, dt_second = 0, dt_microsecond = 0\<rparr>;
      usage = fst (usage_query start project_id); errors = fst (errors_query n project_id) in
    q_from usage = ''tokens_usage_view'' \<and> q_from errors = ''recent_erro_log_view'' \<and>
    (\<exists>out. query_usage_month e project_id year month s = Some out \<and>
      ran_once e (Select usage) (usage_binds start project_id) s out) \<and>
    (\<exists>out. get_last_error_logs e n project_id s = Some out \<and>
      ran_once e (Select errors) (errors_binds n project_id) s out) \<and>
    (\<exists>out cs. insert_usage e project source tin tout s = Some (map_prod (map_sum id (\<lambda>_. ())) id out) \<and>
      ran_once e (Insert ''access_logs'' cs (length cs)) [(''project_id'', SqlText project), (''project_source'', SqlText source),
        (''tokens_in'', SqlInt tin), (''tokens_out'', SqlInt tout)] s out)"
proof -
  let ?start = "\<lparr>dt_year = year, dt_month = month, dt_day = 1, dt_hour = 0, dt_minute = 0, dt_second = 0, dt_microsecond = 0\<rparr>"
  have "\<exists>out. query_usage_month e project_id year month s = Some out \<and>
      ran_once e (Select (fst (usage_query ?start project_id))) (usage_binds ?start project_id) s out"
    unfolding query_usage_month_def month_start [OF assms(3)] ran_once_def usage_query_binds
    using assms(1,2) by (simp add: with_db_lock_free with_connection_def split_beta usage_query_binds(2))
  moreover have "\<exists>out. get_last_error_logs e n project_id s = Some out \<and>
      ran_once e (Select (fst (errors_query n project_id))) (errors_binds n project_id) s out"
    unfolding get_last_error_logs_def ran_once_def errors_query_binds
    using assms(1,2) by (simp add: with_db_lock_free with_connection_def split_beta errors_query_binds(2))
  moreover have "\<exists>out cs. insert_usage e project source tin tout s = Some (map_prod (map_sum id (\<lambda>_. ())) id out) \<and>
      ran_once e (Insert ''access_logs'' cs (length cs)) [(''project_id'', SqlText project), (''project_source'', SqlText source),
        (''tokens_in'', SqlInt tin), (''tokens_out'', SqlInt tout)] s out"
    using assms(1,2) unfolding insert_usage_def ran_once_def
    by (intro exI [of _ "[''project_id'', ''project_source'', ''tokens_in'', ''tokens_out'']"] exI conjI)
      (auto simp: with_db_lock_free with_connection_def split_beta upt_rec numeral_eq_Suc)
  ultimately show ?thesis by (simp only: Let_def usage_query_binds(1) errors_query_binds(1) simp_thms)
qed

lemma queries_bind_parameters_witness:
  "\<exists>out. get_last_error_logs names_engine 10 (Some ''p'') \<lparr>sv_db = [''recent_erro_log_view''], db_lock = False\<rparr> = Some out \<and>
     ran_once names_engine (Select (fst (errors_query 10 (Some ''p''))))
       [(''project_id'', SqlText ''p''), (''LIMIT'', SqlInt 10)] \<lparr>sv_db = [''recent_erro_log_view''], db_lock = False\<rparr> out"
proof -
  let ?s = "\<lparr>sv_db = [''recent_erro_log_view''], db_lock = False\<rparr>"
  have "\<not> db_lock ?s" "dd_connect names_engine (sv_db ?s) = Inr ()" "usage_params_ok 2025 7"
    by (simp_all add: names_engine_def usage_params_ok_def)
  from queries_bind_parameters [OF this, of "Some ''p''" 10] show ?thesis
    by (simp add: Let_def errors_binds_def)
qed

text \<open>
  What a client of the routes gets: \<open>/usage\<close> answers with the rows of the query;
  \<open>/errors\<close> runs its query and answers with nothing, because the coroutine does not return
  the rows; recording usage through \<open>async_insert_usage\<close> reports success and changes
  nothing, because it hands the thread itself instead of \<open>insert_usage\<close>.
\<close>

lemma coroutines_lose_results:
  "get_usage_route e project_id year month s =
     map_option (map_prod (map_sum id (\<lambda>rows. (''usage'', PyRows rows))) id) (query_usage_month e project_id year month s) \<and>
   get_errors e n project_id s =
     map_option (map_prod (map_sum id (\<lambda>rows. (''errors'', PyNone))) id) (get_last_error_logs e n project_id s) \<and>
   async_insert_usage e project source tin tout s = Some (Inr PyNone, s)"
  by (simp add: get_usage_route_def get_errors_def async_query_usage_month_def async_get_last_error_logs_def
      async_insert_usage_def to_thread_def returns_none_def rows_value_def call_coroutine_function_def
      option.map_comp comp_def prod.map_comp sum.map_comp id_def)

end
