(* ===== verification/Request_Outputs.thy ===== *)
theory Request_Outputs
  imports Scheduler_Update
begin

text \<open>
  What the front end hands to its callers: \<open>CompletionOutput\<close> and \<open>RequestOutput\<close> of
  \<open>vllm/outputs.py\<close>, the parameters of a request the front end reads
  (\<open>vllm/sampling_params.py\<close>, \<open>EngineCoreRequest\<close> of \<open>v1/engine/__init__.py\<close>), and
  \<open>RequestOutputCollector\<close> of \<open>v1/engine/output_processor.py\<close>, the mailbox between the task that
  processes outputs and the task that serves one caller.

  Text is a list of Unicode code points, because the code compares with the replacement
  character.  Probabilities are opaque strings, as tensors are.
\<close>

section \<open>Data\<close>

type_synonym ustring = "nat list"

datatype request_output_kind = CUMULATIVE | DELTA | FINAL_ONLY

record frontend_params = sampling_params +
  sp_n :: int
  sp_seed :: "int option"
  sp_stop :: "ustring list"
  sp_include_stop_str :: bool
  sp_detokenize :: bool
  sp_output_kind :: request_output_kind
  sp_skip_special_tokens :: bool
  sp_spaces_between :: bool

record engine_core_request =
  ecr_request_id :: string
  ecr_prompt_token_ids :: "int list"
  ecr_sampling :: "frontend_params option"
  ecr_pooling :: "request_output_kind option"
  ecr_arrival_time :: int
  ecr_lora :: "lora_request option"

fun finish_reason_str :: "finish_reason \<Rightarrow> string" where
  "finish_reason_str STOP = ''stop''"
| "finish_reason_str LENGTH = ''length''"
| "finish_reason_str ABORT = ''abort''"

datatype stop_cause = Stop_Token int | Stop_String ustring

record logprob =
  lp_logprob :: string
  lp_rank :: int
  lp_decoded_token :: "ustring option"

type_synonym logprob_dict = "(int, logprob) dict"

record completion_output =
  co_index :: int
  co_text :: ustring
  co_token_ids :: "int list"
  co_cumulative_logprob :: "string option"
  co_logprobs :: "logprob_dict list option"
  co_finish_reason :: "string option"
  co_stop_reason :: "stop_cause option"

definition co_finished :: "completion_output \<Rightarrow> bool" where
  "co_finished c \<longleftrightarrow> co_finish_reason c \<noteq> None"

text \<open>An entry of \<open>outputs\<close> is \<open>None\<close> for a child of which the parent has no output.\<close>

record request_output =
  ro_request_id :: string
  ro_prompt :: "ustring option"
  ro_prompt_token_ids :: "int list"
  ro_prompt_logprobs :: "logprob_dict option list option"
  ro_outputs :: "completion_output option list"
  ro_finished :: bool
  ro_kv_params :: "string option"
  ro_num_cached_tokens :: int

record pooling_request_output =
  po_request_id :: string
  po_data :: string
  po_prompt_token_ids :: "int list"
  po_finished :: bool

datatype frontend_output =
    Completion_Output request_output | Pooling_Output pooling_request_output | Exception_Output py_error

section \<open>\<open>RequestOutput.add\<close>\<close>

definition merge_deltas :: "completion_output \<Rightarrow> completion_output \<Rightarrow> completion_output res" where
  "merge_deltas c nxt =
     rbind
       (case co_logprobs nxt of
          Some (l # ls) \<Rightarrow>
            (case co_logprobs c of None \<Rightarrow> Err AssertionError | Some cl \<Rightarrow> Ok (Some (cl @ l # ls)))
        | _ \<Rightarrow> Ok (co_logprobs c))
       (\<lambda>lps. Ok (c\<lparr>co_text := co_text c @ co_text nxt, co_token_ids := co_token_ids c @ co_token_ids nxt,
                   co_logprobs := lps, co_cumulative_logprob := co_cumulative_logprob nxt,
                   co_finish_reason := co_finish_reason nxt, co_stop_reason := co_stop_reason nxt\<rparr>))"

fun add_completion ::
  "bool \<Rightarrow> completion_output option \<Rightarrow> completion_output option list \<Rightarrow> completion_output option list res" where
  "add_completion aggregate nxt [] = Ok [nxt]"
| "add_completion aggregate nxt (out # outs) =
     (case (out, nxt) of
        (Some c, Some n) \<Rightarrow>
          if co_index c = co_index n
          then if aggregate then rbind (merge_deltas c n) (\<lambda>c'. Ok (Some c' # outs)) else Ok (nxt # outs)
          else rbind (add_completion aggregate nxt outs) (\<lambda>outs'. Ok (out # outs'))
      | _ \<Rightarrow> Err AttributeError)"

definition RequestOutput_add :: "request_output \<Rightarrow> bool \<Rightarrow> request_output \<Rightarrow> request_output res" where
  "RequestOutput_add next_output aggregate self =
     rbind (rfold (add_completion aggregate) (ro_outputs next_output) (ro_outputs self))
       (\<lambda>outs. Ok (self\<lparr>ro_finished := ro_finished self \<or> ro_finished next_output,
                       ro_kv_params := ro_kv_params next_output, ro_outputs := outs\<rparr>))"

section \<open>\<open>RequestOutputCollector\<close>\<close>

record collector =
  cl_aggregate :: bool
  cl_output :: "frontend_output option"
  cl_ready :: bool

definition collector_init :: "request_output_kind \<Rightarrow> collector" where
  "collector_init kind = \<lparr>cl_aggregate = (kind = DELTA), cl_output = None, cl_ready = False\<rparr>"

text \<open>\<open>PoolingRequestOutput\<close> has no method \<open>add\<close>, and no attribute \<open>kv_transfer_params\<close>.\<close>

definition collector_put :: "frontend_output \<Rightarrow> collector \<Rightarrow> collector res" where
  "collector_put out c =
     (case (cl_output c, out) of
        (None, _) \<Rightarrow> Ok (c\<lparr>cl_output := Some out, cl_ready := True\<rparr>)
      | (Some _, Exception_Output e) \<Rightarrow> Ok (c\<lparr>cl_output := Some out, cl_ready := True\<rparr>)
      | (Some (Completion_Output r), Completion_Output n) \<Rightarrow>
          rbind (RequestOutput_add n (cl_aggregate c) r) (\<lambda>r'. Ok (c\<lparr>cl_output := Some (Completion_Output r')\<rparr>))
      | (Some (Completion_Output r), Pooling_Output n) \<Rightarrow> Err AttributeError
      | (Some (Pooling_Output r), _) \<Rightarrow> Err AttributeError
      | (Some (Exception_Output e), _) \<Rightarrow> Ok c)"

text \<open>
  Reading the mailbox: what is returned or raised, and the mailbox after it.  \<open>get\<close> waits while
  the mailbox is empty: the outer \<open>None\<close>.
\<close>

definition collector_get_nowait :: "collector \<Rightarrow> frontend_output option res \<times> collector" where
  "collector_get_nowait c =
     (let c' = (if cl_output c \<noteq> None then c\<lparr>cl_output := None, cl_ready := False\<rparr> else c)
      in (case cl_output c of Some (Exception_Output e) \<Rightarrow> Err e | out \<Rightarrow> Ok out, c'))"

definition collector_get :: "collector \<Rightarrow> (frontend_output res \<times> collector) option" where
  "collector_get c =
     (case cl_output c of
        None \<Rightarrow> None
      | Some out \<Rightarrow>
          Some (case out of Exception_Output e \<Rightarrow> Err e | _ \<Rightarrow> Ok out, c\<lparr>cl_output := None, cl_ready := False\<rparr>))"

section \<open>The mailbox between producer and consumer\<close>

datatype mailbox_event = Put request_output | Get

text \<open>
  The producer and the consumer run in one event loop, so that their operations are a sequence.
  The run returns what the consumer was handed.
\<close>

fun mailbox_run :: "mailbox_event list \<Rightarrow> collector \<Rightarrow> (request_output list \<times> collector) res" where
  "mailbox_run [] c = Ok ([], c)"
| "mailbox_run (Put r # evs) c = rbind (collector_put (Completion_Output r) c) (mailbox_run evs)"
| "mailbox_run (Get # evs) c =
     (case collector_get_nowait c of
        (Err e, c') \<Rightarrow> Err e
      | (Ok (Some (Completion_Output r)), c') \<Rightarrow>
          rbind (mailbox_run evs c') (\<lambda>(got, c''). Ok (r # got, c''))
      | (Ok _, c') \<Rightarrow> mailbox_run evs c')"

definition puts :: "mailbox_event list \<Rightarrow> request_output list" where
  "puts evs = concat (map (\<lambda>ev. case ev of Put r \<Rightarrow> [r] | Get \<Rightarrow> []) evs)"

lemma puts_simps [simp]: "puts [] = []" "puts (Put r # evs) = r # puts evs" "puts (Get # evs) = puts evs"
  by (simp_all add: puts_def)

definition pending :: "collector \<Rightarrow> request_output list" where
  "pending c = (case cl_output c of Some (Completion_Output r) \<Rightarrow> [r] | _ \<Rightarrow> [])"

text \<open>
  What the mailbox needs of an observation of outputs: merging two outputs never fails and
  appends what is observed of them.
\<close>

locale mergeable =
  fixes ok :: "request_output \<Rightarrow> bool" and obs :: "request_output \<Rightarrow> 'a list"
  assumes merge: "ok r \<Longrightarrow> ok n \<Longrightarrow>
    \<exists>r'. RequestOutput_add n True r = Ok r' \<and> ok r' \<and> obs r' = obs r @ obs n"
begin

definition holds :: "collector \<Rightarrow> bool" where
  "holds c \<longleftrightarrow> cl_aggregate c \<and> (\<forall>out. cl_output c = Some out \<longrightarrow> (\<exists>r. out = Completion_Output r \<and> ok r))"

lemma holds_put:
  assumes "holds c" and "ok n"
  obtains c' where "collector_put (Completion_Output n) c = Ok c'" and "holds c'"
    and "concat (map obs (pending c')) = concat (map obs (pending c)) @ obs n"
proof (cases "cl_output c")
  case None
  let ?c = "c\<lparr>cl_output := Some (Completion_Output n), cl_ready := True\<rparr>"
  have "collector_put (Completion_Output n) c = Ok ?c" using None by (simp add: collector_put_def)
  moreover have "holds ?c" "concat (map obs (pending ?c)) = concat (map obs (pending c)) @ obs n"
    using None assms by (simp_all add: holds_def pending_def)
  ultimately show thesis by (rule that)
next
  case (Some out)
  with assms(1) obtain r where r: "cl_output c = Some (Completion_Output r)" "ok r" and a: "cl_aggregate c"
    by (auto simp: holds_def)
  from merge [OF r(2) assms(2)] obtain r' where
    r': "RequestOutput_add n True r = Ok r'" "ok r'" "obs r' = obs r @ obs n" by blast
  let ?c = "c\<lparr>cl_output := Some (Completion_Output r')\<rparr>"
  have "collector_put (Completion_Output n) c = Ok ?c" using r r' a by (simp add: collector_put_def)
  moreover have "holds ?c" "concat (map obs (pending ?c)) = concat (map obs (pending c)) @ obs n"
    using r r' a by (simp_all add: holds_def pending_def)
  ultimately show thesis by (rule that)
qed

lemma mailbox_run_obs:
  assumes "holds c" and "\<forall>r \<in> set (puts evs). ok r"
  shows "\<exists>got c'. mailbox_run evs c = Ok (got, c') \<and> holds c' \<and>
    concat (map obs (got @ pending c')) = concat (map obs (pending c @ puts evs))"
  using assms
proof (induction evs arbitrary: c)
  case Nil
  then show ?case by simp
next
  case (Cons ev evs)
  show ?case
  proof (cases ev)
    case (Put r)
    obtain c1 where c1: "collector_put (Completion_Output r) c = Ok c1" "holds c1"
      "concat (map obs (pending c1)) = concat (map obs (pending c)) @ obs r"
      by (rule holds_put [OF Cons.prems(1), of r]) (use Cons.prems(2) Put in auto)
    from Cons.IH [OF c1(2)] Cons.prems(2) Put obtain got c' where
      "mailbox_run evs c1 = Ok (got, c')" "holds c'"
      "concat (map obs (got @ pending c')) = concat (map obs (pending c1 @ puts evs))" by auto
    with c1 Put show ?thesis by simp
  next
    case Get
    let ?c = "c\<lparr>cl_output := None, cl_ready := False\<rparr>"
    show ?thesis
    proof (cases "cl_output c")
      case None
      with Cons Get show ?thesis by (simp add: collector_get_nowait_def)
    next
      case (Some out)
      with Cons.prems(1) obtain r where r: "cl_output c = Some (Completion_Output r)" by (auto simp: holds_def)
      have "holds ?c" "pending ?c = []" using Cons.prems(1) by (simp_all add: holds_def pending_def)
      with Cons.IH [of ?c] Cons.prems(2) Get obtain got c' where
        "mailbox_run evs ?c = Ok (got, c')" "holds c'" "concat (map obs (got @ pending c')) = concat (map obs (puts evs))"
        by auto
      with r Get show ?thesis by (simp add: collector_get_nowait_def pending_def)
    qed
  qed
qed

end

text \<open>The outputs of one stream of deltas: one entry per index, with log probabilities all or none.\<close>

fun uniform :: "bool \<Rightarrow> completion_output option list \<Rightarrow> bool" where
  "uniform lps [] \<longleftrightarrow> True"
| "uniform lps (None # outs) \<longleftrightarrow> False"
| "uniform lps (Some c # outs) \<longleftrightarrow>
     (co_logprobs c \<noteq> None \<longleftrightarrow> lps) \<and> co_index c \<notin> set (map (co_index \<circ> the) outs) \<and> uniform lps outs"

definition delta_output :: "bool \<Rightarrow> request_output \<Rightarrow> bool" where
  "delta_output lps r \<longleftrightarrow> uniform lps (ro_outputs r)"

fun at_index :: "int \<Rightarrow> (completion_output \<Rightarrow> 'a list) \<Rightarrow> completion_output option list \<Rightarrow> 'a list" where
  "at_index i f [] = []"
| "at_index i f (out # outs) = (if co_index (the out) = i then f (the out) else []) @ at_index i f outs"

lemma at_index_none: "i \<notin> set (map (co_index \<circ> the) outs) \<Longrightarrow> at_index i f outs = []"
  by (induction outs) auto

lemma merge_deltas_Ok:
  assumes "co_logprobs c \<noteq> None \<longleftrightarrow> lps" and "co_logprobs n \<noteq> None \<longleftrightarrow> lps"
  shows "\<exists>c'. merge_deltas c n = Ok c' \<and> co_index c' = co_index c \<and> co_text c' = co_text c @ co_text n \<and>
    co_token_ids c' = co_token_ids c @ co_token_ids n \<and> (co_logprobs c' \<noteq> None \<longleftrightarrow> lps)"
proof -
  obtain l where "(case co_logprobs n of
      Some (l # ls) \<Rightarrow> (case co_logprobs c of None \<Rightarrow> Err AssertionError | Some cl \<Rightarrow> Ok (Some (cl @ l # ls)))
    | _ \<Rightarrow> Ok (co_logprobs c)) = Ok l" and "l \<noteq> None \<longleftrightarrow> lps"
    using assms by (cases "co_logprobs n"; cases "co_logprobs c"; cases "the (co_logprobs n)") auto
  then show ?thesis unfolding merge_deltas_def by simp
qed

lemma add_completion_Ok:
  assumes "uniform lps outs" and "co_logprobs n \<noteq> None \<longleftrightarrow> lps"
  shows "\<exists>outs'. add_completion True (Some n) outs = Ok outs' \<and> uniform lps outs' \<and>
    set (map (co_index \<circ> the) outs') = insert (co_index n) (set (map (co_index \<circ> the) outs)) \<and>
    (\<forall>i. at_index i co_text outs' = at_index i co_text outs @ at_index i co_text [Some n] \<and>
         at_index i co_token_ids outs' = at_index i co_token_ids outs @ at_index i co_token_ids [Some n])"
  using assms
proof (induction lps outs rule: uniform.induct)
  case (1 lps)
  then show ?case by simp
next
  case (2 lps outs)
  then show ?case by simp
next
  case (3 lps c outs)
  show ?case
  proof (cases "co_index c = co_index n")
    case True
    from merge_deltas_Ok [OF _ 3(3), of c] 3(2) obtain c' where
      c': "merge_deltas c n = Ok c'" "co_index c' = co_index c" "co_text c' = co_text c @ co_text n"
      "co_token_ids c' = co_token_ids c @ co_token_ids n" "co_logprobs c' \<noteq> None \<longleftrightarrow> lps" by auto
    have fresh: "co_index n \<notin> set (map (co_index \<circ> the) outs)" using 3(2) True by simp
    have "add_completion True (Some n) (Some c # outs) = Ok (Some c' # outs)" using c' True by simp
    then show ?thesis
      using c' True 3(2) at_index_none [OF fresh, of co_text] at_index_none [OF fresh, of co_token_ids] by simp
  next
    case False
    from 3 obtain outs' where o': "add_completion True (Some n) outs = Ok outs'" "uniform lps outs'"
      "set (map (co_index \<circ> the) outs') = insert (co_index n) (set (map (co_index \<circ> the) outs))"
      "\<forall>i. at_index i co_text outs' = at_index i co_text outs @ at_index i co_text [Some n] \<and>
         at_index i co_token_ids outs' = at_index i co_token_ids outs @ at_index i co_token_ids [Some n]"
      by (meson uniform.simps(3))
    have "add_completion True (Some n) (Some c # outs) = Ok (Some c # outs')" using o'(1) False by simp
    then show ?thesis using False 3(2) o'(2-4) by (simp add: insert_commute)
  qed
qed

lemma add_completions_Ok:
  assumes "uniform lps ns" and "uniform lps outs"
  shows "\<exists>outs'. rfold (add_completion True) ns outs = Ok outs' \<and> uniform lps outs' \<and>
    (\<forall>i. at_index i co_text outs' = at_index i co_text outs @ at_index i co_text ns \<and>
         at_index i co_token_ids outs' = at_index i co_token_ids outs @ at_index i co_token_ids ns)"
  using assms
proof (induction lps ns arbitrary: outs rule: uniform.induct)
  case (3 lps n ns)
  from add_completion_Ok [OF 3(3), of n] 3(2) obtain outs1 where
    o1: "add_completion True (Some n) outs = Ok outs1" "uniform lps outs1"
    "\<forall>i. at_index i co_text outs1 = at_index i co_text outs @ at_index i co_text [Some n] \<and>
       at_index i co_token_ids outs1 = at_index i co_token_ids outs @ at_index i co_token_ids [Some n]"
    by (meson uniform.simps(3))
  from 3(1) [OF _ o1(2)] 3(2) obtain outs' where
    "rfold (add_completion True) ns outs1 = Ok outs'" "uniform lps outs'"
    "\<forall>i. at_index i co_text outs' = at_index i co_text outs1 @ at_index i co_text ns \<and>
       at_index i co_token_ids outs' = at_index i co_token_ids outs1 @ at_index i co_token_ids ns"
    by (meson uniform.simps(3))
  with o1 show ?case by (intro exI [of _ outs']) simp
qed simp_all

lemma RequestOutput_add_Ok:
  assumes "delta_output lps r" and "delta_output lps n"
  shows "\<exists>r'. RequestOutput_add n True r = Ok r' \<and> delta_output lps r' \<and>
    at_index i co_text (ro_outputs r') = at_index i co_text (ro_outputs r) @ at_index i co_text (ro_outputs n) \<and>
    at_index i co_token_ids (ro_outputs r') =
      at_index i co_token_ids (ro_outputs r) @ at_index i co_token_ids (ro_outputs n)"
  using add_completions_Ok [of lps "ro_outputs n" "ro_outputs r"] assms
  by (auto simp: RequestOutput_add_def delta_output_def)

interpretation texts: mergeable "delta_output lps" "\<lambda>r. at_index i co_text (ro_outputs r)" for lps i
  by unfold_locales (use RequestOutput_add_Ok in blast)

interpretation tokens: mergeable "delta_output lps" "\<lambda>r. at_index i co_token_ids (ro_outputs r)" for lps i
  by unfold_locales (use RequestOutput_add_Ok in blast)

text \<open>
  C17. Streaming loses and repeats nothing, however far the consumer falls behind: for every
  sequence of puts and gets on the mailbox of a streamed request no operation fails, and for
  every completion the texts handed to the consumer, followed by what is still in the mailbox,
  concatenate to the texts put into it; likewise the tokens.
\<close>

theorem delta_mailbox_lossless:
  assumes "\<forall>r \<in> set (puts evs). delta_output lps r"
  shows "\<exists>got c. mailbox_run evs (collector_init DELTA) = Ok (got, c) \<and>
    (\<forall>i. concat (map (\<lambda>r. at_index i co_text (ro_outputs r)) (got @ pending c)) =
         concat (map (\<lambda>r. at_index i co_text (ro_outputs r)) (puts evs))) \<and>
    (\<forall>i. concat (map (\<lambda>r. at_index i co_token_ids (ro_outputs r)) (got @ pending c)) =
         concat (map (\<lambda>r. at_index i co_token_ids (ro_outputs r)) (puts evs)))"
proof -
  have start: "texts.holds lps (collector_init DELTA)" "tokens.holds lps (collector_init DELTA)"
    "pending (collector_init DELTA) = []"
    by (simp_all add: texts.holds_def tokens.holds_def collector_init_def pending_def)
  note tx = texts.mailbox_run_obs [OF start(1) assms, unfolded start(3) append_Nil]
    and tk = tokens.mailbox_run_obs [OF start(2) assms, unfolded start(3) append_Nil]
  from tx [of 0] obtain got c where run: "mailbox_run evs (collector_init DELTA) = Ok (got, c)" by blast
  show ?thesis
  proof (intro exI conjI allI)
    show "mailbox_run evs (collector_init DELTA) = Ok (got, c)" by (rule run)
    show "concat (map (\<lambda>r. at_index i co_text (ro_outputs r)) (got @ pending c)) =
         concat (map (\<lambda>r. at_index i co_text (ro_outputs r)) (puts evs))" for i
      using tx [of i] unfolding run by auto
    show "concat (map (\<lambda>r. at_index i co_token_ids (ro_outputs r)) (got @ pending c)) =
         concat (map (\<lambda>r. at_index i co_token_ids (ro_outputs r)) (puts evs))" for i
      using tk [of i] unfolding run by auto
  qed
qed

definition demo_delta :: "int \<Rightarrow> nat \<Rightarrow> bool \<Rightarrow> request_output" where
  "demo_delta i ch fin =
     \<lparr>ro_request_id = ''r'', ro_prompt = None, ro_prompt_token_ids = [1], ro_prompt_logprobs = None,
      ro_outputs = [Some \<lparr>co_index = i, co_text = [ch], co_token_ids = [int ch], co_cumulative_logprob = None,
        co_logprobs = None, co_finish_reason = (if fin then Some ''stop'' else None), co_stop_reason = None\<rparr>],
      ro_finished = fin, ro_kv_params = None, ro_num_cached_tokens = 0\<rparr>"

theorem delta_mailbox_lossless_witness:
  "\<exists>got c. mailbox_run [Put (demo_delta 0 97 False), Put (demo_delta 1 98 False), Put (demo_delta 0 99 False), Get,
      Get, Put (demo_delta 0 100 True)] (collector_init DELTA) = Ok (got, c) \<and>
    concat (map (\<lambda>r. at_index 0 co_text (ro_outputs r)) (got @ pending c)) = [97, 99, 100]"
  using delta_mailbox_lossless [of "[Put (demo_delta 0 97 False), Put (demo_delta 1 98 False),
      Put (demo_delta 0 99 False), Get, Get, Put (demo_delta 0 100 True)]" False]
  by (auto simp: demo_delta_def delta_output_def)

text \<open>A second output of a pooling request cannot be merged: its class has no method for it.\<close>

lemma pooling_mailbox_raises:
  "cl_output c = Some (Pooling_Output r) \<Longrightarrow> collector_put (Pooling_Output n) c = Err AttributeError"
  by (simp add: collector_put_def)

end
