(* ===== verification/Detokenizer.thy ===== *)
theory Detokenizer
  imports Request_Outputs "HOL-Library.Sublist"
begin

text \<open>
  From tokens to text: \<open>v1/engine/detokenizer.py\<close>, the helpers of
  \<open>transformers_utils/detokenizer_utils.py\<close> it calls, and \<open>StopChecker.check_stop_strings\<close> of
  \<open>engine/output_processor/stop_checker.py\<close>.

  The tokenizer is a library: a record of the functions the code calls.  A \<open>DecodeStream\<close> is
  represented by the tokens it was given since it was created, from which \<open>tk_step\<close> computes
  what the next step returns or raises; the code replaces the stream after an exception, so its
  state after one is never used.  \<open>tk_fast_class\<close> says whether the tokenizer is a
  \<open>PreTrainedTokenizerFast\<close> and the installed version has \<open>DecodeStream\<close>.  \<open>tk_decode\<close> is the
  method of the tokenizer, \<open>tk_raw_decode\<close> that of the Rust object inside a fast one.  The
  library's exception for an invalid prefix, when it comes back at once, is \<open>RuntimeError\<close> here.
\<close>

section \<open>Strings\<close>

definition py_take :: "'a list \<Rightarrow> int \<Rightarrow> 'a list" where
  "py_take xs b = take (clamp_index (length xs) b) xs"

definition py_drop :: "'a list \<Rightarrow> int \<Rightarrow> 'a list" where
  "py_drop xs a = drop (clamp_index (length xs) a) xs"

fun find_first :: "'a list \<Rightarrow> 'a list \<Rightarrow> nat option" where
  "find_first sub [] = (if sub = [] then Some 0 else None)"
| "find_first sub (x # xs) =
     (if take (length sub) (x # xs) = sub then Some 0 else map_option Suc (find_first sub xs))"

text \<open>\<open>str.find\<close> with a start index.\<close>

definition py_find :: "'a list \<Rightarrow> 'a list \<Rightarrow> int \<Rightarrow> int" where
  "py_find xs sub start =
     (if start > int (length xs) then - 1
      else let i = clamp_index (length xs) start
           in case find_first sub (drop i xs) of None \<Rightarrow> - 1 | Some j \<Rightarrow> int (i + j))"

fun join :: "'a list \<Rightarrow> 'a list list \<Rightarrow> 'a list" where
  "join sep [] = []"
| "join sep [x] = x"
| "join sep (x # y # ys) = x @ sep @ join sep (y # ys)"

section \<open>Stop strings\<close>

fun stop_strings_loop :: "ustring \<Rightarrow> int \<Rightarrow> bool \<Rightarrow> ustring list \<Rightarrow> (ustring \<times> int) option" where
  "stop_strings_loop output_text new_char_count include_in_output [] = None"
| "stop_strings_loop output_text new_char_count include_in_output (stop_str # stops) =
     (let stop_string_len = int (length stop_str);
          stop_index = py_find output_text stop_str (1 - new_char_count - stop_string_len)
      in if stop_index = - 1 then stop_strings_loop output_text new_char_count include_in_output stops
         else if include_in_output
         then if stop_index + stop_string_len \<ge> int (length output_text) then Some (stop_str, - 1)
              else Some (stop_str, stop_index + stop_string_len)
         else Some (stop_str, stop_index))"

definition check_stop_strings :: "ustring \<Rightarrow> int \<Rightarrow> ustring list \<Rightarrow> bool \<Rightarrow> (ustring \<times> int) option" where
  "check_stop_strings output_text new_char_count stop include_in_output =
     (if new_char_count = 0 \<or> stop = [] then None
      else stop_strings_loop output_text new_char_count include_in_output stop)"

section \<open>Tokenizers\<close>

datatype step_result = Step "ustring option" | Invalid_Prefix | Step_Raises py_error

record tokenizer =
  tk_fast_class :: bool
  tk_is_fast :: bool
  tk_len :: int
  tk_decode :: "int list \<Rightarrow> ustring option"
  tk_raw_decode :: "int list \<Rightarrow> ustring"
  tk_step :: "bool \<Rightarrow> int list \<Rightarrow> int \<Rightarrow> step_result"
  tk_added_tokens :: "(int, ustring) dict"
  tk_convert_ids :: "bool \<Rightarrow> int list \<Rightarrow> ustring option list"
  tk_to_string :: "ustring option list \<Rightarrow> ustring res"
  tk_special_tokens :: "ustring list"
  tk_added_vocab :: "ustring list"

definition replacement_char :: nat where
  "replacement_char = 65533"

section \<open>\<open>detokenizer_utils\<close>\<close>

definition replace_none_with_empty :: "ustring option list \<Rightarrow> ustring option list" where
  "replace_none_with_empty = map (\<lambda>t. case t of None \<Rightarrow> Some [] | Some s \<Rightarrow> Some s)"

fun added_encoders_loop ::
  "tokenizer \<Rightarrow> bool \<Rightarrow> ustring option list \<Rightarrow> ustring list \<Rightarrow> ustring option list
   \<Rightarrow> (ustring list \<times> ustring option list) res" where
  "added_encoders_loop tk skip [] sub_texts current = Ok (sub_texts, current)"
| "added_encoders_loop tk skip (t # ts) sub_texts current =
     (if skip \<and> t \<in> Some ` set (tk_special_tokens tk) then added_encoders_loop tk skip ts sub_texts current
      else case t of
          Some w \<Rightarrow>
            if w \<in> set (tk_added_vocab tk)
            then if current \<noteq> []
                 then rbind (tk_to_string tk current) (\<lambda>s. added_encoders_loop tk skip ts (sub_texts @ [s, w]) [])
                 else added_encoders_loop tk skip ts (sub_texts @ [w]) current
            else added_encoders_loop tk skip ts sub_texts (current @ [t])
        | None \<Rightarrow> added_encoders_loop tk skip ts sub_texts (current @ [t]))"

definition convert_tokens_to_string_with_added_encoders ::
  "tokenizer \<Rightarrow> ustring option list \<Rightarrow> bool \<Rightarrow> bool \<Rightarrow> ustring res" where
  "convert_tokens_to_string_with_added_encoders tk output_tokens skip spaces =
     rbind (added_encoders_loop tk skip output_tokens [] []) (\<lambda>(sub_texts, current).
     rbind (if current \<noteq> [] then rbind (tk_to_string tk current) (\<lambda>s. Ok (sub_texts @ [s])) else Ok sub_texts)
       (\<lambda>subs. Ok (join (if spaces then [32] else []) subs)))"

definition INITIAL_INCREMENTAL_DETOKENIZATION_OFFSET :: int where
  "INITIAL_INCREMENTAL_DETOKENIZATION_OFFSET = 5"

definition convert_prompt_ids_to_tokens ::
  "tokenizer \<Rightarrow> int list \<Rightarrow> bool \<Rightarrow> ustring option list \<times> int \<times> int" where
  "convert_prompt_ids_to_tokens tk prompt_ids skip =
     (let new_tokens = tk_convert_ids tk skip (py_drop prompt_ids (- INITIAL_INCREMENTAL_DETOKENIZATION_OFFSET - 2));
          read_offset = int (length new_tokens);
          prefix_offset = max (read_offset - INITIAL_INCREMENTAL_DETOKENIZATION_OFFSET) 0
      in (replace_none_with_empty new_tokens, prefix_offset, read_offset))"

definition convert_ids_list_to_tokens :: "tokenizer \<Rightarrow> int list \<Rightarrow> ustring list" where
  "convert_ids_list_to_tokens tk token_ids =
     map (\<lambda>t. case tk_decode tk [t] of None \<Rightarrow> [] | Some s \<Rightarrow> s) token_ids"

definition tokens_to_text :: "tokenizer \<Rightarrow> bool \<Rightarrow> bool \<Rightarrow> ustring option list \<Rightarrow> ustring res" where
  "tokens_to_text tk skip spaces toks =
     (if tk_is_fast tk \<or> tk_added_vocab tk = [] then tk_to_string tk toks
      else convert_tokens_to_string_with_added_encoders tk toks skip spaces)"

definition detokenize_incrementally ::
  "tokenizer \<Rightarrow> int list \<Rightarrow> ustring option list option \<Rightarrow> int \<Rightarrow> int \<Rightarrow> bool \<Rightarrow> bool
   \<Rightarrow> (ustring option list \<times> ustring \<times> int \<times> int) res" where
  "detokenize_incrementally tk all_input_ids prev prefix_offset0 read_offset0 skip spaces =
     rbind (py_index all_input_ids (- 1)) (\<lambda>new_token_id.
     let (prev_tokens, prefix_offset, read_offset) =
           (case prev of
              None \<Rightarrow> convert_prompt_ids_to_tokens tk (py_take all_input_ids (- 1)) skip
            | Some p \<Rightarrow> (p, prefix_offset0, read_offset0));
         new_tokens0 =
           (if 0 \<le> new_token_id \<and> new_token_id < tk_len tk then tk_convert_ids tk skip [new_token_id] else [Some []]);
         output_tokens = prev_tokens @ new_tokens0;
         new_tokens = (if prev = None then output_tokens else new_tokens0)
     in rbind (tokens_to_text tk skip spaces (py_slice output_tokens prefix_offset read_offset)) (\<lambda>prefix_text.
        rbind (tokens_to_text tk skip spaces (py_drop output_tokens prefix_offset)) (\<lambda>new_text.
        if length new_text \<le> length prefix_text \<or> (new_text \<noteq> [] \<and> last new_text = replacement_char)
        then Ok (new_tokens, [], prefix_offset, read_offset)
        else Ok (new_tokens, drop (length prefix_text) new_text, read_offset, int (length output_tokens)))))"

section \<open>Incremental detokenizers\<close>

record fast_decoder =
  fd_skip_special_tokens :: bool
  fd_stream :: "int list"
  fd_spaces_between :: bool
  fd_added_token_ids :: "(int, ustring) dict"
  fd_last_special :: bool

record slow_decoder =
  sd_tokens :: "ustring option list"
  sd_prefix_offset :: int
  sd_read_offset :: int
  sd_prompt_len :: int
  sd_skip_special_tokens :: bool
  sd_spaces_between :: bool

datatype decoder = No_Decoder | Fast_Decoder tokenizer fast_decoder | Slow_Decoder tokenizer slow_decoder

record detokenizer =
  dt_token_ids :: "int list"
  dt_stop :: "ustring list"
  dt_include_stop_str :: bool
  dt_stop_buffer_length :: int
  dt_last_offset :: int
  dt_output_text :: ustring
  dt_decoder :: decoder

definition protected_step :: "tokenizer \<Rightarrow> int \<Rightarrow> fast_decoder \<Rightarrow> (ustring option \<times> fast_decoder) res" where
  "protected_step tk tid fd =
     (case tk_step tk (fd_skip_special_tokens fd) (fd_stream fd) tid of
        Step t \<Rightarrow> Ok (t, fd\<lparr>fd_stream := fd_stream fd @ [tid]\<rparr>)
      | Step_Raises e \<Rightarrow> Err e
      | Invalid_Prefix \<Rightarrow>
          (case tk_step tk (fd_skip_special_tokens fd) [] tid of
             Step t \<Rightarrow> Ok (t, fd\<lparr>fd_stream := [tid]\<rparr>)
           | Step_Raises e \<Rightarrow> Err e
           | Invalid_Prefix \<Rightarrow> Err RuntimeError))"

definition fast_decode_next :: "tokenizer \<Rightarrow> int \<Rightarrow> fast_decoder \<Rightarrow> (ustring \<times> fast_decoder) res" where
  "fast_decode_next tk tid fd =
     rbind (protected_step tk tid fd) (\<lambda>(token, fd1).
       if fd_spaces_between fd1 then Ok (case token of None \<Rightarrow> [] | Some s \<Rightarrow> s, fd1)
       else let special_token = map_of (fd_added_token_ids fd1) tid;
                token' = (if special_token \<noteq> None \<and> fd_last_special fd1 then special_token else token)
            in Ok (case token' of None \<Rightarrow> [] | Some s \<Rightarrow> s, fd1\<lparr>fd_last_special := special_token \<noteq> None\<rparr>))"

definition slow_decode_next :: "tokenizer \<Rightarrow> int list \<Rightarrow> slow_decoder \<Rightarrow> (ustring \<times> slow_decoder) res" where
  "slow_decode_next tk token_ids sd =
     rbind (detokenize_incrementally tk token_ids (Some (sd_tokens sd)) (sd_prefix_offset sd) (sd_read_offset sd)
              (sd_skip_special_tokens sd) (sd_spaces_between sd))
       (\<lambda>(new_tokens, decoded_text, prefix_offset, read_offset).
         Ok (decoded_text, sd\<lparr>sd_tokens := sd_tokens sd @ new_tokens, sd_prefix_offset := prefix_offset,
                              sd_read_offset := read_offset\<rparr>))"

definition decode_next :: "int \<Rightarrow> detokenizer \<Rightarrow> (ustring \<times> detokenizer) res" where
  "decode_next tid d =
     (case dt_decoder d of
        No_Decoder \<Rightarrow> Err NotImplementedError
      | Fast_Decoder tk fd \<Rightarrow>
          rbind (fast_decode_next tk tid fd) (\<lambda>(s, fd'). Ok (s, d\<lparr>dt_decoder := Fast_Decoder tk fd'\<rparr>))
      | Slow_Decoder tk sd \<Rightarrow>
          rbind (slow_decode_next tk (dt_token_ids d) sd) (\<lambda>(s, sd'). Ok (s, d\<lparr>dt_decoder := Slow_Decoder tk sd'\<rparr>)))"

definition output_token_ids_of :: "detokenizer \<Rightarrow> int list" where
  "output_token_ids_of d =
     (case dt_decoder d of
        Slow_Decoder tk sd \<Rightarrow>
          if sd_prompt_len sd = 0 then dt_token_ids d else py_drop (dt_token_ids d) (sd_prompt_len sd)
      | _ \<Rightarrow> dt_token_ids d)"

definition append_token :: "int \<Rightarrow> detokenizer \<Rightarrow> detokenizer res" where
  "append_token tid d =
     rbind (decode_next tid (d\<lparr>dt_token_ids := dt_token_ids d @ [tid]\<rparr>))
       (\<lambda>(s, d'). Ok (d'\<lparr>dt_output_text := dt_output_text d' @ s\<rparr>))"

definition evaluate_stop_strings :: "nat \<Rightarrow> detokenizer \<Rightarrow> ustring option \<times> detokenizer" where
  "evaluate_stop_strings offset_before d =
     (if dt_stop d = [] then (None, d)
      else case check_stop_strings (dt_output_text d) (int (length (dt_output_text d)) - int offset_before)
                  (dt_stop d) (dt_include_stop_str d) of
             None \<Rightarrow> (None, d)
           | Some (stop_string, truncate_to) \<Rightarrow>
               (Some stop_string,
                if truncate_to \<noteq> - 1 then d\<lparr>dt_output_text := py_take (dt_output_text d) truncate_to\<rparr> else d))"

definition base_update :: "int list \<Rightarrow> bool \<Rightarrow> detokenizer \<Rightarrow> (ustring option \<times> detokenizer) res" where
  "base_update new_token_ids stop_terminated d =
     (if new_token_ids = [] then Ok (None, d)
      else let skip = stop_terminated \<and> \<not> dt_include_stop_str d;
               toks = (if skip then butlast new_token_ids else new_token_ids);
               offset_before = length (dt_output_text d)
           in rbind (rfold append_token toks d) (\<lambda>d1.
              if stop_terminated
              then Ok (None, if skip then d1\<lparr>dt_token_ids := dt_token_ids d1 @ [last new_token_ids]\<rparr> else d1)
              else Ok (evaluate_stop_strings offset_before d1)))"

definition detokenizer_update :: "int list \<Rightarrow> bool \<Rightarrow> detokenizer \<Rightarrow> (ustring option \<times> detokenizer) res" where
  "detokenizer_update new_token_ids stop_terminated d =
     (case dt_decoder d of
        No_Decoder \<Rightarrow> Ok (None, d\<lparr>dt_token_ids := dt_token_ids d @ new_token_ids\<rparr>)
      | _ \<Rightarrow> base_update new_token_ids stop_terminated d)"

definition get_next_output_text :: "bool \<Rightarrow> bool \<Rightarrow> detokenizer \<Rightarrow> ustring \<times> detokenizer" where
  "get_next_output_text finished delta d =
     (case dt_decoder d of
        No_Decoder \<Rightarrow> ([], d)
      | _ \<Rightarrow>
          let buffer_length = (if finished then 0 else dt_stop_buffer_length d)
          in if \<not> delta
             then (if buffer_length \<noteq> 0 then py_take (dt_output_text d) (- buffer_length) else dt_output_text d, d)
             else let len = int (length (dt_output_text d)) - buffer_length; last_offset = dt_last_offset d
                  in if last_offset < len
                     then (py_slice (dt_output_text d) last_offset len, d\<lparr>dt_last_offset := len\<rparr>)
                     else ([], d))"

section \<open>Constructors\<close>

definition base_init :: "frontend_params \<Rightarrow> decoder \<Rightarrow> detokenizer" where
  "base_init params dec =
     \<lparr>dt_token_ids = [], dt_stop = sp_stop params, dt_include_stop_str = sp_include_stop_str params,
      dt_stop_buffer_length =
        (if sp_stop params \<noteq> [] \<and> \<not> sp_include_stop_str params
         then int (Max (set (map length (sp_stop params)))) - 1 else 0),
      dt_last_offset = 0, dt_output_text = [], dt_decoder = dec\<rparr>"

fun safe_suffix :: "tokenizer \<Rightarrow> int list \<Rightarrow> int list \<Rightarrow> int list" where
  "safe_suffix tk prompt [] = prompt"
| "safe_suffix tk prompt (i # is) =
     (let suffix = py_drop prompt (- i)
      in if replacement_char \<notin> set (tk_raw_decode tk suffix) then suffix
         else safe_suffix tk prompt is)"

definition fast_init :: "tokenizer \<Rightarrow> engine_core_request \<Rightarrow> frontend_params \<Rightarrow> fast_decoder res" where
  "fast_init tk request params =
     (let prompt = ecr_prompt_token_ids request;
          prompt_len = int (length prompt);
          prompt_suffix = (if prompt_len > 4 then safe_suffix tk prompt [4..min (prompt_len + 1) 24 - 1] else prompt);
          fd0 = \<lparr>fd_skip_special_tokens = sp_skip_special_tokens params, fd_stream = [], fd_spaces_between = True,
                 fd_added_token_ids = [], fd_last_special = False\<rparr>
      in rbind (rfold (\<lambda>tid fd. rbind (protected_step tk tid fd) (\<lambda>(_, fd'). Ok fd')) prompt_suffix fd0) (\<lambda>fd1.
         let spaces = sp_skip_special_tokens params \<or> sp_spaces_between params
         in Ok (if \<not> spaces \<and> tk_added_tokens tk \<noteq> []
                then fd1\<lparr>fd_spaces_between := False, fd_added_token_ids := tk_added_tokens tk\<rparr>
                else fd1\<lparr>fd_spaces_between := True\<rparr>)))"

definition slow_init :: "tokenizer \<Rightarrow> engine_core_request \<Rightarrow> frontend_params \<Rightarrow> slow_decoder" where
  "slow_init tk request params =
     (let (toks, prefix_offset, read_offset) =
            convert_prompt_ids_to_tokens tk (ecr_prompt_token_ids request) (sp_skip_special_tokens params)
      in \<lparr>sd_tokens = toks, sd_prefix_offset = prefix_offset, sd_read_offset = read_offset,
          sd_prompt_len = int (length (ecr_prompt_token_ids request)),
          sd_skip_special_tokens = sp_skip_special_tokens params, sd_spaces_between = sp_spaces_between params\<rparr>)"

definition detokenizer_from_new_request :: "tokenizer option \<Rightarrow> engine_core_request \<Rightarrow> detokenizer res" where
  "detokenizer_from_new_request tokenizer request =
     (case ecr_sampling request of
        None \<Rightarrow> Err AssertionError
      | Some params \<Rightarrow>
          (case tokenizer of
             None \<Rightarrow>
               Ok \<lparr>dt_token_ids = [], dt_stop = [], dt_include_stop_str = False, dt_stop_buffer_length = 0,
                   dt_last_offset = 0, dt_output_text = [], dt_decoder = No_Decoder\<rparr>
           | Some tk \<Rightarrow>
               if tk_fast_class tk
               then rbind (fast_init tk request params) (\<lambda>fd. Ok (base_init params (Fast_Decoder tk fd)))
               else Ok ((base_init params (Slow_Decoder tk (slow_init tk request params)))
                          \<lparr>dt_token_ids := ecr_prompt_token_ids request\<rparr>)))"

section \<open>The search for stop strings\<close>

definition occurs_at :: "'a list \<Rightarrow> 'a list \<Rightarrow> nat \<Rightarrow> bool" where
  "occurs_at sub xs i \<longleftrightarrow> prefix sub (drop i xs)"

definition first_at :: "'a list \<Rightarrow> 'a list \<Rightarrow> nat \<Rightarrow> bool" where
  "first_at sub xs i \<longleftrightarrow> i \<le> length xs \<and> occurs_at sub xs i \<and> (\<forall>j < i. \<not> occurs_at sub xs j)"

lemma prefix_take: "prefix sub xs \<longleftrightarrow> take (length sub) xs = sub"
  by (metis append_eq_conv_conj prefix_def take_is_prefix)

lemma sublist_occurs: "sublist sub xs \<longleftrightarrow> (\<exists>i \<le> length xs. occurs_at sub xs i)"
proof
  assume "sublist sub xs"
  then obtain ps ss where "xs = ps @ sub @ ss" by (auto simp: sublist_def)
  then have "length ps \<le> length xs \<and> occurs_at sub xs (length ps)" by (simp add: occurs_at_def)
  then show "\<exists>i \<le> length xs. occurs_at sub xs i" by blast
next
  assume "\<exists>i \<le> length xs. occurs_at sub xs i"
  then obtain i where "prefix sub (drop i xs)" by (auto simp: occurs_at_def)
  then obtain ss where "drop i xs = sub @ ss" by (auto simp: prefix_def)
  then have "xs = take i xs @ sub @ ss" by (metis append_take_drop_id)
  then show "sublist sub xs" by (metis sublist_appendI)
qed

lemma occurs_length: "occurs_at sub xs i \<Longrightarrow> sub \<noteq> [] \<Longrightarrow> i + length sub \<le> length xs"
  using prefix_length_le [of sub "drop i xs"] by (cases "i \<le> length xs") (auto simp: occurs_at_def)

lemma occurs_append: "occurs_at sub xs i \<Longrightarrow> i \<le> length xs \<Longrightarrow> occurs_at sub (xs @ ys) i"
  by (simp add: occurs_at_def prefix_prefix)

lemma occurs_in_left:
  assumes "occurs_at sub (xs @ ys) i" and "i + length sub \<le> length xs"
  shows "occurs_at sub xs i"
proof -
  have "take (length sub) (drop i xs) = take (length sub) (drop i (xs @ ys))" using assms(2) by simp
  also have "take (length sub) (drop i (xs @ ys)) = sub" using assms(1) by (simp only: occurs_at_def prefix_take)
  finally show ?thesis by (simp add: occurs_at_def prefix_take)
qed

lemma find_first_spec:
  "case find_first sub xs of None \<Rightarrow> \<not> sublist sub xs | Some j \<Rightarrow> first_at sub xs j"
proof (induction xs)
  case Nil
  show ?case by (simp add: first_at_def occurs_at_def)
next
  case (Cons x xs)
  show ?case
  proof (cases "prefix sub (x # xs)")
    case True
    then show ?thesis by (simp add: prefix_take first_at_def occurs_at_def)
  next
    case False
    then have step: "find_first sub (x # xs) = map_option Suc (find_first sub xs)" by (simp add: prefix_take)
    show ?thesis
    proof (cases "find_first sub xs")
      case None
      with Cons.IH False show ?thesis unfolding step by (simp add: sublist_Cons_right)
    next
      case (Some j)
      with Cons.IH have f: "first_at sub xs j" by simp
      have "\<not> occurs_at sub (x # xs) i" if "i < Suc j" for i
        using that False f by (cases i) (auto simp: occurs_at_def first_at_def)
      with f Some show ?thesis unfolding step by (simp add: first_at_def) (simp add: occurs_at_def)
    qed
  qed
qed

lemma find_first_None: "find_first sub xs = None \<longleftrightarrow> \<not> sublist sub xs"
  using find_first_spec [of sub xs] by (auto simp: sublist_occurs first_at_def split: option.splits)

lemma first_at_unique: "first_at sub xs i \<Longrightarrow> first_at sub xs j \<Longrightarrow> i = j"
  by (metis first_at_def linorder_neqE_nat)

lemma find_first_Some: "find_first sub xs = Some j \<longleftrightarrow> first_at sub xs j"
proof
  assume "find_first sub xs = Some j"
  then show "first_at sub xs j" using find_first_spec [of sub xs] by simp
next
  assume f: "first_at sub xs j"
  then have "find_first sub xs \<noteq> None" by (auto simp: find_first_None sublist_occurs first_at_def)
  then obtain k where "find_first sub xs = Some k" by auto
  with f find_first_spec [of sub xs] show "find_first sub xs = Some j" by (auto dest: first_at_unique)
qed

text \<open>The text before the first occurrence does not contain the string.\<close>

lemma first_at_free: "first_at sub xs i \<Longrightarrow> sub \<noteq> [] \<Longrightarrow> \<not> sublist sub (take i xs)"
  unfolding sublist_occurs
proof (intro notI, elim exE conjE)
  fix j
  assume f: "first_at sub xs i" and ne: "sub \<noteq> []" and j: "j \<le> length (take i xs)" "occurs_at sub (take i xs) j"
  have "j + length sub \<le> length (take i xs)" using j(2) ne by (rule occurs_length)
  then have "j < i" using ne by (cases sub) auto
  moreover have "occurs_at sub xs j" using occurs_append [OF j(2,1), of "drop i xs"] by simp
  ultimately show False using f by (simp add: first_at_def)
qed

lemma find_first_skip:
  assumes "\<forall>p < i. \<not> occurs_at sub xs p" and "i \<le> length xs"
  shows "find_first sub xs = map_option ((+) i) (find_first sub (drop i xs))"
proof (cases "find_first sub (drop i xs)")
  case None
  have "\<not> occurs_at sub xs p" if "p \<le> length xs" for p
  proof (cases "p < i")
    case False
    then have "\<not> occurs_at sub (drop i xs) (p - i)"
      using None that by (auto simp: find_first_None sublist_occurs)
    with False show ?thesis by (simp add: occurs_at_def)
  qed (use assms(1) in simp)
  then have "find_first sub xs = None" by (auto simp: find_first_None sublist_occurs)
  with None show ?thesis by simp
next
  case (Some j)
  then have f: "first_at sub (drop i xs) j" by (simp add: find_first_Some)
  have "\<not> occurs_at sub xs p" if "p < i + j" for p
  proof (cases "p < i")
    case False
    then have "p - i < j" using that by simp
    then have "\<not> occurs_at sub (drop i xs) (p - i)" using f by (simp add: first_at_def)
    with False show ?thesis by (simp add: occurs_at_def)
  qed (use assms(1) in simp)
  then have "first_at sub xs (i + j)" using f assms(2) by (auto simp: first_at_def occurs_at_def add.commute)
  then have "find_first sub xs = Some (i + j)" by (simp add: find_first_Some)
  with Some show ?thesis by simp
qed

text \<open>An occurrence that uses a new character starts inside the window the code searches.\<close>

lemma window_search:
  assumes "sub \<noteq> []" and "\<not> sublist sub old" and "new \<noteq> []"
  shows "py_find (old @ new) sub (1 - int (length new) - int (length sub)) =
           (case find_first sub (old @ new) of None \<Rightarrow> - 1 | Some j \<Rightarrow> int j)"
proof -
  let ?T = "old @ new"
  define i where "i = clamp_index (length ?T) (1 - int (length new) - int (length sub))"
  have len: "1 \<le> int (length new)" "1 \<le> int (length sub)" using assms by (cases new; simp) (cases sub; use assms in simp)
  then have i: "i = nat (max 0 (int (length old) + 1 - int (length sub)))"
    by (simp add: i_def clamp_index_def)
  have "\<not> occurs_at sub ?T p" if "p < i" for p
  proof
    assume "occurs_at sub ?T p"
    moreover have "p + length sub \<le> length old" using that i by linarith
    ultimately have "occurs_at sub old p" by (rule occurs_in_left)
    with assms(2) \<open>p + length sub \<le> length old\<close> show False by (auto simp: sublist_occurs)
  qed
  moreover have "i \<le> length ?T" using i len by simp
  ultimately have "find_first sub ?T = map_option ((+) i) (find_first sub (drop i ?T))"
    by (intro find_first_skip) auto
  moreover have "\<not> 1 - int (length new) - int (length sub) > int (length ?T)" using len by simp
  ultimately show ?thesis
    unfolding py_find_def i_def [symmetric] Let_def by (cases "find_first sub (drop i ?T)") simp_all
qed

definition stop_free :: "ustring list \<Rightarrow> ustring \<Rightarrow> bool" where
  "stop_free stop tx \<longleftrightarrow> (\<forall>s \<in> set stop. \<not> sublist s tx)"

text \<open>The reference: look for each stop string in the whole text.\<close>

fun whole_search :: "ustring \<Rightarrow> bool \<Rightarrow> ustring list \<Rightarrow> (ustring \<times> nat) option" where
  "whole_search tx incl [] = None"
| "whole_search tx incl (s # ss) =
     (case find_first s tx of
        None \<Rightarrow> whole_search tx incl ss
      | Some p \<Rightarrow> Some (s, if incl then p + length s else p))"

lemma stop_strings_loop_whole:
  assumes "\<forall>s \<in> set stop. s \<noteq> []" and "stop_free stop old" and "new \<noteq> []"
  shows "stop_strings_loop (old @ new) (int (length new)) incl stop =
           map_option (\<lambda>(s, p). (s, if incl \<and> p \<ge> length (old @ new) then - 1 else int p))
             (whole_search (old @ new) incl stop)"
  using assms(1,2)
proof (induction stop)
  case Nil
  show ?case by simp
next
  case (Cons s ss)
  then have find: "py_find (old @ new) s (1 - int (length new) - int (length s)) =
      (case find_first s (old @ new) of None \<Rightarrow> - 1 | Some j \<Rightarrow> int j)"
    using assms(3) by (intro window_search) (auto simp: stop_free_def)
  show ?case
  proof (cases "find_first s (old @ new)")
    case None
    with find Cons show ?thesis by (simp add: stop_free_def)
  next
    case (Some j)
    with find show ?thesis by (simp add: Let_def)
  qed
qed

lemma whole_search_None: "whole_search tx incl stop = None \<longleftrightarrow> stop_free stop tx"
proof (induction stop)
  case (Cons s ss)
  have "find_first s tx = None \<longleftrightarrow> \<not> sublist s tx" by (rule find_first_None)
  with Cons show ?case by (cases "find_first s tx") (auto simp: stop_free_def)
qed (simp add: stop_free_def)

lemma whole_search_Some:
  assumes "whole_search tx incl stop = Some (s, k)"
  obtains p where "s \<in> set stop" and "first_at s tx p" and "k = (if incl then p + length s else p)"
proof -
  have "\<exists>p. s \<in> set stop \<and> first_at s tx p \<and> k = (if incl then p + length s else p)"
    using assms
  proof (induction stop)
    case (Cons t ss)
    then show ?case by (cases "find_first t tx") (auto simp: find_first_Some split: if_splits)
  qed simp
  then show thesis using that by blast
qed


section \<open>What an update does\<close>

lemma decode_next_frame:
  assumes "decode_next t d = Ok (s, d')"
  shows "d' = d\<lparr>dt_decoder := dt_decoder d'\<rparr>" and "dt_decoder d \<noteq> No_Decoder" and "dt_decoder d' \<noteq> No_Decoder"
  using assms by (auto simp: decode_next_def res_simps split: decoder.splits)

text \<open>The text the new tokens decode to, and what stays.\<close>

definition extended :: "detokenizer \<Rightarrow> int list \<Rightarrow> ustring \<Rightarrow> decoder \<Rightarrow> detokenizer" where
  "extended d toks s dec =
     d\<lparr>dt_token_ids := dt_token_ids d @ toks, dt_output_text := dt_output_text d @ s, dt_decoder := dec\<rparr>"

lemma extended_simps [simp]:
  "dt_token_ids (extended d toks s dec) = dt_token_ids d @ toks"
  "dt_output_text (extended d toks s dec) = dt_output_text d @ s"
  "dt_decoder (extended d toks s dec) = dec"
  "dt_stop (extended d toks s dec) = dt_stop d"
  "dt_include_stop_str (extended d toks s dec) = dt_include_stop_str d"
  "dt_stop_buffer_length (extended d toks s dec) = dt_stop_buffer_length d"
  "dt_last_offset (extended d toks s dec) = dt_last_offset d"
  "extended (extended d toks s dec) toks' s' dec' = extended d (toks @ toks') (s @ s') dec'"
  "extended d [] [] (dt_decoder d) = d"
  by (simp_all add: extended_def)

lemma append_token_extended:
  assumes "append_token t d = Ok d'"
  shows "\<exists>s dec. d' = extended d [t] s dec \<and> dec \<noteq> No_Decoder"
proof -
  from assms obtain s d1 where dec: "decode_next t (d\<lparr>dt_token_ids := dt_token_ids d @ [t]\<rparr>) = Ok (s, d1)"
    and d': "d' = d1\<lparr>dt_output_text := dt_output_text d1 @ s\<rparr>"
    by (auto simp: append_token_def res_simps)
  have "d1 = d\<lparr>dt_token_ids := dt_token_ids d @ [t], dt_decoder := dt_decoder d1\<rparr>" "dt_decoder d1 \<noteq> No_Decoder"
    using decode_next_frame [OF dec] by simp_all
  then obtain dc where "d1 = d\<lparr>dt_token_ids := dt_token_ids d @ [t], dt_decoder := dc\<rparr>" "dc \<noteq> No_Decoder" by blast
  then have "d' = extended d [t] s dc" by (simp add: d' extended_def)
  with \<open>dc \<noteq> No_Decoder\<close> show ?thesis by blast
qed

lemma append_tokens_extended:
  assumes "rfold append_token toks d = Ok d'" and "dt_decoder d \<noteq> No_Decoder"
  shows "\<exists>s dec. d' = extended d toks s dec \<and> dec \<noteq> No_Decoder"
  using assms
proof (induction toks arbitrary: d)
  case Nil
  then have "d' = extended d [] [] (dt_decoder d)" by simp
  with Nil show ?case by blast
next
  case (Cons t toks)
  from Cons.prems(1) obtain d1 where one: "append_token t d = Ok d1" and rest: "rfold append_token toks d1 = Ok d'"
    by (auto simp: rbind_eq_Ok)
  from append_token_extended [OF one] obtain s dec where d1: "d1 = extended d [t] s dec" "dec \<noteq> No_Decoder" by blast
  with Cons.IH [OF rest] obtain s' dec' where "d' = extended d1 toks s' dec'" "dec' \<noteq> No_Decoder" by auto
  with d1 have "d' = extended d (t # toks) (s @ s') dec'" by simp
  with \<open>dec' \<noteq> No_Decoder\<close> show ?case by blast
qed

text \<open>The stop strings are evaluated on the whole text, and the text is cut at the first occurrence.\<close>

lemma evaluate_stop_strings_whole:
  assumes "\<forall>w \<in> set (dt_stop d). w \<noteq> []" and "stop_free (dt_stop d) old" and "dt_output_text d = old @ new"
  shows "evaluate_stop_strings (length old) d =
           (case whole_search (old @ new) (dt_include_stop_str d) (dt_stop d) of
              None \<Rightarrow> (None, d)
            | Some (w, k) \<Rightarrow> (Some w, d\<lparr>dt_output_text := take k (old @ new)\<rparr>))"
proof (cases "whole_search (old @ new) (dt_include_stop_str d) (dt_stop d)")
  case None
  have "check_stop_strings (old @ new) (int (length new)) (dt_stop d) (dt_include_stop_str d) = None"
    unfolding check_stop_strings_def using None stop_strings_loop_whole [OF assms(1,2), of new "dt_include_stop_str d"] by simp
  with None assms(3) show ?thesis by (simp add: evaluate_stop_strings_def)
next
  case (Some wk)
  obtain w k where wk: "wk = (w, k)" by (cases wk)
  have ne: "dt_stop d \<noteq> []" "new \<noteq> []"
    using Some assms(2) whole_search_None [of "old" "dt_include_stop_str d" "dt_stop d"] by auto
  have "check_stop_strings (old @ new) (int (length new)) (dt_stop d) (dt_include_stop_str d) =
      Some (w, if dt_include_stop_str d \<and> k \<ge> length (old @ new) then - 1 else int k)"
    unfolding check_stop_strings_def using ne stop_strings_loop_whole [OF assms(1,2) ne(2), of "dt_include_stop_str d"]
    by (simp add: Some wk)
  moreover have "py_take (old @ new) (int k) = take k (old @ new)"
    by (cases "k \<le> length (old @ new)") (simp_all add: py_take_def clamp_index_def)
  moreover have "d\<lparr>dt_output_text := take k (old @ new)\<rparr> = d" if "k \<ge> length (old @ new)"
    using that assms(3) by simp
  ultimately show ?thesis using ne assms(3) Some wk
    by (cases "dt_include_stop_str d \<and> k \<ge> length (old @ new)") (auto simp: evaluate_stop_strings_def)
qed

text \<open>The branches of an update of a detokenizer with a tokenizer.\<close>

lemma update_extended:
  assumes "detokenizer_update toks term d = Ok (r, d')" and "dt_decoder d \<noteq> No_Decoder" and "term \<or> toks = []"
  shows "\<exists>s dec. d' = extended d toks s dec \<and> dec \<noteq> No_Decoder \<and> r = None"
proof (cases "toks = []")
  case True
  with assms(1,2) have "d' = extended d [] [] (dt_decoder d) \<and> r = None"
    by (auto simp: detokenizer_update_def base_update_def split: decoder.splits)
  with True assms(2) show ?thesis by blast
next
  case False
  define skip where "skip = (\<not> dt_include_stop_str d)"
  define toks' where "toks' = (if skip then butlast toks else toks)"
  have upd: "base_update toks True d = Ok (r, d')"
    using assms False by (simp add: detokenizer_update_def split: decoder.splits)
  obtain d1 where fold: "rfold append_token toks' d = Ok d1" and r: "r = None"
    and d': "d' = (if skip then d1\<lparr>dt_token_ids := dt_token_ids d1 @ [last toks]\<rparr> else d1)"
    using upd False unfolding base_update_def Let_def
    by (simp add: skip_def [symmetric] toks'_def [symmetric] rbind_eq_Ok) blast
  from append_tokens_extended [OF fold assms(2)] obtain s dec where d1: "d1 = extended d toks' s dec" "dec \<noteq> No_Decoder"
    by blast
  have "toks' @ [last toks] = toks" if skip using that False by (simp add: toks'_def)
  then have "d' = extended d toks s dec" using d' d1 by (cases skip) (simp_all add: toks'_def extended_def)
  with d1 r show ?thesis by blast
qed

lemma update_cases:
  assumes "detokenizer_update toks term d = Ok (r, d')" and "dt_decoder d \<noteq> No_Decoder"
    and "\<forall>s \<in> set (dt_stop d). s \<noteq> []" and "stop_free (dt_stop d) (dt_output_text d)"
  obtains s dec where "d' = extended d toks s dec" and "dec \<noteq> No_Decoder" and "r = None"
      and "\<not> term \<longrightarrow> stop_free (dt_stop d) (dt_output_text d @ s)"
    | s dec w p where "\<not> term" and "r = Some w" and "w \<in> set (dt_stop d)" and "dec \<noteq> No_Decoder"
      and "first_at w (dt_output_text d @ s) p"
      and "d' = (extended d toks s dec)\<lparr>dt_output_text :=
                   take (if dt_include_stop_str d then p + length w else p) (dt_output_text d @ s)\<rparr>"
proof (cases "term \<or> toks = []")
  case True
  with update_extended [OF assms(1,2)] obtain s dec where e: "d' = extended d toks s dec" "dec \<noteq> No_Decoder" "r = None"
    by blast
  show thesis
  proof (cases "term")
    case True
    with e show thesis by (intro that(1) [of s dec]) simp_all
  next
    case False
    with \<open>term \<or> toks = []\<close> assms(1,2) have "toks = []" "d' = d"
      by (auto simp: detokenizer_update_def base_update_def split: decoder.splits)
    with e(3) assms(2,4) show thesis by (intro that(1) [of "[]" "dt_decoder d"]) simp_all
  qed
next
  case False
  then have nt: "\<not> term" and ne: "toks \<noteq> []" by auto
  let ?i = "dt_include_stop_str d"
  obtain d1 where fold: "rfold append_token toks d = Ok d1"
    and ev: "evaluate_stop_strings (length (dt_output_text d)) d1 = (r, d')"
    using assms(1,2) nt ne
    by (auto simp: detokenizer_update_def base_update_def rbind_eq_Ok split: decoder.splits)
  from append_tokens_extended [OF fold assms(2)] obtain s dec where d1: "d1 = extended d toks s dec" "dec \<noteq> No_Decoder"
    by blast
  have ev': "(r, d') = (case whole_search (dt_output_text d @ s) ?i (dt_stop d) of None \<Rightarrow> (None, d1)
      | Some (w, k) \<Rightarrow> (Some w, d1\<lparr>dt_output_text := take k (dt_output_text d @ s)\<rparr>))"
    using evaluate_stop_strings_whole [of d1 "dt_output_text d" s] assms(3,4) d1(1) ev by simp
  show thesis
  proof (cases "whole_search (dt_output_text d @ s) ?i (dt_stop d)")
    case None
    then have "stop_free (dt_stop d) (dt_output_text d @ s)" by (simp add: whole_search_None)
    with ev' None d1 show thesis by (intro that(1) [of s dec]) simp_all
  next
    case (Some wk)
    then obtain w k where wk: "whole_search (dt_output_text d @ s) ?i (dt_stop d) = Some (w, k)" by (cases wk) auto
    from whole_search_Some [OF wk] obtain p where w: "w \<in> set (dt_stop d)" "first_at w (dt_output_text d @ s) p"
      and k: "k = (if ?i then p + length w else p)" .
    have "r = Some w" "d' = (extended d toks s dec)\<lparr>dt_output_text := take k (dt_output_text d @ s)\<rparr>"
      using ev' wk d1(1) by simp_all
    with nt w d1(2) show thesis unfolding k by (intro that(2))
  qed
qed

section \<open>Streaming\<close>

definition hold_back :: "detokenizer \<Rightarrow> nat" where
  "hold_back d = (if dt_stop d \<noteq> [] \<and> \<not> dt_include_stop_str d then Max (set (map length (dt_stop d))) - 1 else 0)"

text \<open>
  A detokenizer between two outputs of a request that is not finished: no stop string has
  occurred, and the text sent so far is all but the characters held back.
\<close>

definition streaming :: "detokenizer \<Rightarrow> ustring \<Rightarrow> bool" where
  "streaming d sent \<longleftrightarrow> dt_decoder d \<noteq> No_Decoder \<and> (\<forall>w \<in> set (dt_stop d). w \<noteq> []) \<and>
     stop_free (dt_stop d) (dt_output_text d) \<and> dt_stop_buffer_length d = int (hold_back d) \<and>
     sent = take (length (dt_output_text d) - hold_back d) (dt_output_text d) \<and> dt_last_offset d = int (length sent)"

lemma hold_back_ge: "w \<in> set (dt_stop d) \<Longrightarrow> \<not> dt_include_stop_str d \<Longrightarrow> length w - 1 \<le> hold_back d"
  by (auto simp: hold_back_def intro!: diff_le_mono Max_ge)

lemma hold_back_frame [simp]:
  "hold_back (extended d toks s dec) = hold_back d" "hold_back (d\<lparr>dt_last_offset := x\<rparr>) = hold_back d"
  by (simp_all add: hold_back_def)

lemma delta_text:
  assumes "dt_decoder d \<noteq> No_Decoder" and "dt_last_offset d = int n" and "n \<le> m"
    and "m = length (dt_output_text d) - b" and "(if finished then 0 else dt_stop_buffer_length d) = int b"
    and "get_next_output_text finished True d = (delta, d')"
  shows "take n (dt_output_text d) @ delta = take m (dt_output_text d) \<and> d' = d\<lparr>dt_last_offset := int m\<rparr>"
proof -
  let ?T = "dt_output_text d" and ?k = "int (length (dt_output_text d)) - int b"
  have get: "(if int n < ?k then (py_slice ?T (int n) ?k, d\<lparr>dt_last_offset := ?k\<rparr>) else ([], d)) = (delta, d')"
    using assms(6) unfolding get_next_output_text_def assms(5) Let_def assms(2)
    by (cases "dt_decoder d") (use assms(1) in simp_all)
  show ?thesis
  proof (cases "n < m")
    case True
    then have lt: "int n < ?k" and k: "?k = int m" using assms(4) by linarith+
    from get lt have "delta = py_slice ?T (int n) (int m)" "d' = d\<lparr>dt_last_offset := int m\<rparr>"
      unfolding k by simp_all
    moreover have "py_slice ?T (int n) (int m) = take (m - n) (drop n ?T)" by (simp add: py_slice_nonneg)
    ultimately show ?thesis using True by (metis le_add_diff_inverse less_imp_le take_add)
  next
    case False
    with assms(3,4) have "n = m" "\<not> int n < ?k" by linarith+
    with get assms(2) show ?thesis by simp
  qed
qed

text \<open>While the request runs, each delta extends what was sent.\<close>

lemma streaming_step:
  assumes "streaming d sent" and "detokenizer_update toks False d = Ok (None, d1)"
    and "get_next_output_text False True d1 = (delta, d')"
  shows "streaming d' (sent @ delta)"
proof -
  have st: "dt_decoder d \<noteq> No_Decoder" "\<forall>w \<in> set (dt_stop d). w \<noteq> []" "stop_free (dt_stop d) (dt_output_text d)"
    "dt_stop_buffer_length d = int (hold_back d)" "sent = take (length (dt_output_text d) - hold_back d) (dt_output_text d)"
    "dt_last_offset d = int (length sent)"
    using assms(1) by (auto simp: streaming_def)
  obtain s dec where e: "d1 = extended d toks s dec" "dec \<noteq> No_Decoder" "stop_free (dt_stop d) (dt_output_text d @ s)"
    using update_cases [OF assms(2) st(1-3)] by auto
  let ?m = "length (dt_output_text d1) - hold_back d"
  have "length sent \<le> ?m" and sent: "sent = take (length sent) (dt_output_text d1)" using st(5) e(1) by auto
  from delta_text [OF _ _ this(1) refl _ assms(3)] have
    "take (length sent) (dt_output_text d1) @ delta = take ?m (dt_output_text d1) \<and> d' = d1\<lparr>dt_last_offset := int ?m\<rparr>"
    using st(4,6) e(1,2) by simp
  then have "sent @ delta = take ?m (dt_output_text d1)" "d' = d1\<lparr>dt_last_offset := int ?m\<rparr>" using sent by simp_all
  moreover from this(1) have "length (sent @ delta) = ?m" by simp
  ultimately show ?thesis using st(2,4) e unfolding streaming_def by simp
qed

lemma prefix_of_take: "length xs \<le> n \<Longrightarrow> prefix xs ys \<Longrightarrow> prefix xs (take n ys)"
  by (auto simp: prefix_def)

text \<open>At the end, everything that was held back and not cut off is sent.\<close>

lemma streaming_last:
  assumes "streaming d sent" and "detokenizer_update toks term d = Ok (r, d1)"
    and "get_next_output_text True True d1 = (delta, d')"
  shows "sent @ delta = dt_output_text d1"
proof -
  have st: "dt_decoder d \<noteq> No_Decoder" "\<forall>w \<in> set (dt_stop d). w \<noteq> []" "stop_free (dt_stop d) (dt_output_text d)"
    "dt_stop_buffer_length d = int (hold_back d)" "sent = take (length (dt_output_text d) - hold_back d) (dt_output_text d)"
    "dt_last_offset d = int (length sent)"
    using assms(1) by (auto simp: streaming_def)
  have "dt_decoder d1 \<noteq> No_Decoder \<and> dt_last_offset d1 = dt_last_offset d \<and>
      dt_stop_buffer_length d1 = dt_stop_buffer_length d \<and> prefix sent (dt_output_text d1)"
    using assms(2) st(1-3)
  proof (cases rule: update_cases)
    case (1 s dec)
    then show ?thesis using st(5) by (simp add: take_is_prefix prefix_prefix)
  next
    case (2 s dec w p)
    let ?T = "dt_output_text d @ s"
    have w: "w \<noteq> []" using st(2) 2(3) by auto
    have occ: "occurs_at w ?T p" using 2(5) by (simp add: first_at_def)
    have new: "length (dt_output_text d) < p + length w"
    proof (rule ccontr)
      assume "\<not> ?thesis"
      then have p: "p + length w \<le> length (dt_output_text d)" by simp
      from occurs_in_left [OF occ p] p have "sublist w (dt_output_text d)"
        unfolding sublist_occurs by (intro exI [of _ p]) simp
      with st(3) 2(3) show False by (simp add: stop_free_def)
    qed
    have "length sent \<le> (if dt_include_stop_str d then p + length w else p)"
      using new st(5) hold_back_ge [OF 2(3)] w by (cases "dt_include_stop_str d") auto
    moreover have "prefix sent ?T" using st(5) by (simp add: take_is_prefix prefix_prefix)
    ultimately have "prefix sent (take (if dt_include_stop_str d then p + length w else p) ?T)"
      by (rule prefix_of_take)
    then show ?thesis using 2 by simp
  qed
  then have d1: "dt_decoder d1 \<noteq> No_Decoder" "dt_last_offset d1 = int (length sent)"
    and pre: "prefix sent (dt_output_text d1)" using st(6) by simp_all
  from delta_text [OF d1 prefix_length_le [OF pre] _ _ assms(3)] pre show ?thesis by (simp add: prefix_take)
qed

text \<open>A new detokenizer has sent nothing.\<close>

lemma streaming_init:
  assumes "detokenizer_from_new_request (Some tk) request = Ok d" and "ecr_sampling request = Some params"
    and "\<forall>w \<in> set (sp_stop params). w \<noteq> []"
  shows "streaming d []"
proof -
  have "0 < Max (length ` set (sp_stop params))" if "sp_stop params \<noteq> []"
    using that assms(3) by (subst Max_gr_iff) (auto simp: neq_Nil_conv)
  moreover have "stop_free (sp_stop params) []" using assms(3) by (auto simp: stop_free_def)
  moreover obtain ids dec where "d = (base_init params dec)\<lparr>dt_token_ids := ids\<rparr>" "dec \<noteq> No_Decoder"
    using assms(1,2) by (auto simp: detokenizer_from_new_request_def rbind_eq_Ok base_init_def split: if_splits)
  ultimately show ?thesis using assms(3)
    by (auto simp: streaming_def base_init_def hold_back_def)
qed

lemma first_at_Least: "first_at w xs p \<Longrightarrow> (LEAST p. prefix w (drop p xs)) = p"
  by (rule Least_equality) (auto simp: first_at_def occurs_at_def not_less [symmetric])

lemma whole_search_find:
  "whole_search tx incl stop =
     map_option (\<lambda>w. (w, (LEAST p. prefix w (drop p tx)) + (if incl then length w else 0)))
       (find (\<lambda>w. sublist w tx) stop)"
proof (induction stop)
  case (Cons w ws)
  show ?case
  proof (cases "find_first w tx")
    case None
    then have "\<not> sublist w tx" by (simp add: find_first_None)
    with None Cons show ?thesis by simp
  next
    case (Some p)
    then have "first_at w tx p" by (simp add: find_first_Some)
    moreover from this have "sublist w tx" by (auto simp: sublist_occurs first_at_def)
    ultimately show ?thesis using Some by (simp add: first_at_Least)
  qed
qed simp

text \<open>
  C15. The incremental check for stop strings looks only at the end of the text: from
  \<open>len(stop) - 1\<close> characters before the new ones.  Provided the text had no stop string before, it
  answers like a search of the whole text: the first string of the list that occurs, with the
  position of its first occurrence, or the position after it, or \<open>-1\<close> when that is the end.
\<close>

theorem stop_check_complete:
  assumes "\<forall>w \<in> set stop. w \<noteq> []" and "\<forall>w \<in> set stop. \<not> sublist w old"
  shows "check_stop_strings (old @ new) (int (length new)) stop incl =
    (case find (\<lambda>w. sublist w (old @ new)) stop of
       None \<Rightarrow> None
     | Some w \<Rightarrow>
         let p = (LEAST p. prefix w (drop p (old @ new)))
         in Some (w, if \<not> incl then int p
                     else if p + length w = length (old @ new) then - 1 else int (p + length w)))"
proof (cases "new = []")
  case True
  moreover from this assms(2) have "find (\<lambda>w. sublist w (old @ new)) stop = None" by (simp add: find_None_iff)
  ultimately show ?thesis by (simp add: check_stop_strings_def)
next
  case False
  let ?T = "old @ new"
  have "check_stop_strings ?T (int (length new)) stop incl = map_option
      (\<lambda>(w, p). (w, if incl \<and> p \<ge> length ?T then - 1 else int p)) (whole_search ?T incl stop)"
    using stop_strings_loop_whole [of stop old new incl] assms False
    by (cases "stop = []") (simp_all add: check_stop_strings_def stop_free_def)
  moreover have "(LEAST p. prefix w (drop p ?T)) + length w \<le> length ?T" if "find (\<lambda>w. sublist w ?T) stop = Some w" for w
  proof -
    have w: "w \<in> set stop" "sublist w ?T" using that by (auto simp: find_Some_iff)
    then obtain q where q: "first_at w ?T q" by (metis find_first_None find_first_Some not_None_eq)
    then have "q + length w \<le> length ?T" using w(1) assms(1) by (intro occurs_length) (auto simp: first_at_def)
    then show ?thesis unfolding first_at_Least [OF q] .
  qed
  ultimately show ?thesis unfolding whole_search_find
    by (cases "find (\<lambda>w. sublist w ?T) stop") (auto simp: Let_def dest: le_antisym)
qed

theorem stop_check_complete_witness:
  "check_stop_strings ([97, 98] @ [99, 100]) 2 [[120], [98, 99]] False = Some ([98, 99], 1)"
proof -
  have "(LEAST p. prefix [98, 99] (drop p ([97, 98] @ [99, 100 :: nat]))) = 1"
    by (rule first_at_Least) (auto simp: first_at_def occurs_at_def)
  then show ?thesis using stop_check_complete [of "[[120], [98, 99]]" "[97, 98]" "[99, 100]" False]
    by (simp add: sublist_Cons_right Let_def)
qed

text \<open>
  The list decides, not the text: when one update brings two stop strings, the text is cut at the
  one that comes first in the list, and may keep the other one.
\<close>

lemma cut_keeps_other_stop_string:
  "check_stop_strings [120, 97, 98] 2 [[98], [97]] False = Some ([98], 2)"
  "sublist [97] (take 2 [120, 97, 98 :: nat])"
  by (simp_all add: check_stop_strings_def py_find_def clamp_index_def Let_def sublist_Cons_right)

end
