(* ===== verification/Logprobs_Processor.thy ===== *)
theory Logprobs_Processor
  imports Detokenizer
begin

text \<open>
  \<open>v1/engine/logprobs.py\<close>: the log probabilities of the sampled tokens and of the prompt of one
  request.  The scheduler passes tensors through as opaque strings; \<open>row_of\<close> and \<open>tensor_of\<close> of the
  environment read them (\<open>tolist\<close>), and \<open>fadd\<close> is the addition of floats.
\<close>

section \<open>The model\<close>

record logprob_row =
  row_token_ids :: "int list"
  row_logprobs :: "string list"
  row_rank :: int

record logprob_env =
  row_of :: "string \<Rightarrow> logprob_row"
  tensor_of :: "string \<Rightarrow> nat \<times> logprob_row list"
  fadd :: "string \<Rightarrow> string \<Rightarrow> string"

record logprobs_processor =
  lpp_tokenizer :: "tokenizer option"
  lpp_logprobs :: "logprob_dict list option"
  lpp_prompt_logprobs :: "logprob_dict option list option"
  lpp_cumulative_logprob :: "string option"
  lpp_num_logprobs :: "int option"
  lpp_num_prompt_logprobs :: "int option"

definition logprobs_from_new_request :: "tokenizer option \<Rightarrow> engine_core_request \<Rightarrow> logprobs_processor res" where
  "logprobs_from_new_request tokenizer request =
     (case ecr_sampling request of
        None \<Rightarrow> Err AssertionError
      | Some params \<Rightarrow>
          Ok \<lparr>lpp_tokenizer = tokenizer,
              lpp_logprobs = (if logprobs params = None then None else Some []),
              lpp_prompt_logprobs = (if prompt_logprobs params = None then None else Some [None]),
              lpp_cumulative_logprob = (if logprobs params = None then None else Some ''0.0''),
              lpp_num_logprobs = logprobs params, lpp_num_prompt_logprobs = prompt_logprobs params\<rparr>)"

text \<open>
  \<open>zip\<close> stops with the shortest argument; the decoded tokens are \<open>None\<close> for the endless
  iterator \<open>NONES\<close>.
\<close>

definition make_logprob_dict ::
  "string list \<Rightarrow> int list \<Rightarrow> ustring list option \<Rightarrow> int \<Rightarrow> int \<Rightarrow> logprob_dict" where
  "make_logprob_dict lps token_ids decoded rank num_logprobs =
     (let ranks = rank # [1..num_logprobs];
          toks = (case decoded of None \<Rightarrow> replicate (length token_ids) None | Some ts \<Rightarrow> map Some ts)
      in foldl (\<lambda>d (t, l, r, s). AList.update t \<lparr>lp_logprob = l, lp_rank = r, lp_decoded_token = s\<rparr> d) []
           (zip token_ids (zip lps (zip ranks toks))))"

definition update_sample_row :: "logprob_env \<Rightarrow> string \<Rightarrow> logprobs_processor \<Rightarrow> logprobs_processor res" where
  "update_sample_row env row self =
     (let r = row_of env row;
          decoded = map_option (\<lambda>tk. convert_ids_list_to_tokens tk (row_token_ids r)) (lpp_tokenizer self)
      in rbind (py_index (row_logprobs r) 0) (\<lambda>sampled.
         case (lpp_num_logprobs self, lpp_logprobs self, lpp_cumulative_logprob self) of
           (Some num, Some lps, Some cum) \<Rightarrow>
             Ok (self\<lparr>lpp_cumulative_logprob := Some (fadd env cum sampled),
                      lpp_logprobs := Some (lps @ [make_logprob_dict (row_logprobs r) (row_token_ids r) decoded (row_rank r) num])\<rparr>)
         | _ \<Rightarrow> Err AssertionError))"

definition update_sample_logprobs :: "logprob_env \<Rightarrow> string list \<Rightarrow> logprobs_processor \<Rightarrow> logprobs_processor res" where
  "update_sample_logprobs env rows self =
     rbind (py_assert (lpp_num_logprobs self \<noteq> None)) (\<lambda>_.
     rbind (py_assert (lpp_logprobs self \<noteq> None)) (\<lambda>_.
     rbind (py_assert (lpp_cumulative_logprob self \<noteq> None)) (\<lambda>_.
       rfold (update_sample_row env) rows self)))"

definition update_prompt_logprobs :: "logprob_env \<Rightarrow> string \<Rightarrow> logprobs_processor \<Rightarrow> logprobs_processor res" where
  "update_prompt_logprobs env tensors self =
     (case (lpp_num_prompt_logprobs self, lpp_prompt_logprobs self) of
        (Some num, Some plps) \<Rightarrow>
          (let (num_logprobs, rows) = tensor_of env tensors;
               decoded = map_option (\<lambda>tk. convert_ids_list_to_tokens tk (concat (map row_token_ids rows))) (lpp_tokenizer self);
               entry = (\<lambda>pos. make_logprob_dict (row_logprobs (rows ! pos)) (row_token_ids (rows ! pos))
                          (map_option (\<lambda>ts. take num_logprobs (drop (pos * num_logprobs) ts)) decoded) (row_rank (rows ! pos)) num)
           in Ok (self\<lparr>lpp_prompt_logprobs := Some (plps @ map (\<lambda>pos. Some (entry pos)) [0..<length rows])\<rparr>))
      | _ \<Rightarrow> Err AssertionError)"

definition pop_prompt_logprobs :: "logprobs_processor \<Rightarrow> logprob_dict option list option \<times> logprobs_processor" where
  "pop_prompt_logprobs self =
     (let plp = lpp_prompt_logprobs self
      in (plp, if plp \<noteq> None \<and> plp \<noteq> Some [] then self\<lparr>lpp_prompt_logprobs := Some []\<rparr> else self))"

definition logprobs_update_from_output :: "logprob_env \<Rightarrow> engine_core_output \<Rightarrow> logprobs_processor \<Rightarrow> logprobs_processor res" where
  "logprobs_update_from_output env out self =
     rbind (case eo_new_logprobs out of None \<Rightarrow> Ok self | Some rows \<Rightarrow> update_sample_logprobs env rows self) (\<lambda>self1.
       case eo_prompt_logprobs out of None \<Rightarrow> Ok self1 | Some t \<Rightarrow> update_prompt_logprobs env t self1)"

section \<open>One entry per token\<close>

lemma update_sample_row_length:
  assumes "update_sample_row env row p = Ok p'"
  shows "\<exists>lps d. lpp_logprobs p = Some lps \<and> lpp_logprobs p' = Some (lps @ [d])"
    and "lpp_prompt_logprobs p' = lpp_prompt_logprobs p" and "lpp_num_logprobs p' = lpp_num_logprobs p"
    and "lpp_num_prompt_logprobs p' = lpp_num_prompt_logprobs p"
  using assms
  by (cases "lpp_num_logprobs p"; cases "lpp_logprobs p"; cases "lpp_cumulative_logprob p";
      auto simp: update_sample_row_def Let_def rbind_eq_Ok)+

lemma update_sample_rows_length:
  assumes "rfold (update_sample_row env) rows p = Ok p'" and "lpp_logprobs p = Some lps"
  shows "\<exists>ds. length ds = length rows \<and> lpp_logprobs p' = Some (lps @ ds)"
  using assms
proof (induction rows arbitrary: p lps)
  case (Cons row rows)
  from Cons.prems(1) obtain p1 where one: "update_sample_row env row p = Ok p1"
    and rest: "rfold (update_sample_row env) rows p1 = Ok p'" by (auto simp: rbind_eq_Ok)
  from update_sample_row_length(1) [OF one] Cons.prems(2) obtain d where "lpp_logprobs p1 = Some (lps @ [d])" by auto
  from Cons.IH [OF rest this] obtain ds where "length ds = length rows" "lpp_logprobs p' = Some (lps @ d # ds)" by auto
  then show ?case by (intro exI [of _ "d # ds"]) simp
qed simp

text \<open>
  Streaming slices the last \<open>len(token_ids)\<close> entries.  With no new token this is the slice from
  \<open>-0\<close>, which is the whole list and not the empty one.
\<close>

lemma slice_minus_zero: "py_drop xs (- int 0) = xs"
  by (simp add: py_drop_def clamp_index_def)

end
