(* ===== verification/Parallel_Sampling.thy ===== *)
theory Parallel_Sampling
  imports Request_Outputs
begin

text \<open>
  \<open>v1/engine/parallel_sampling.py\<close>: a request for \<open>n\<close> completions becomes \<open>n\<close> child requests that
  share one \<open>ParentRequest\<close>, which knows the children still running and, for callers that want
  only the final result, collects their outputs.

  The set of children is a list without duplicates.  The code iterates over the set only to abort
  every child of it, and no result depends on the order.
\<close>

section \<open>Numbers as strings\<close>

definition digit_char :: "nat \<Rightarrow> char" where
  "digit_char d = char_of (48 + d)"

fun nat_str :: "nat \<Rightarrow> string" where
  "nat_str n = (if n < 10 then [digit_char n] else nat_str (n div 10) @ [digit_char (n mod 10)])"

declare nat_str.simps [simp del]

definition int_str :: "int \<Rightarrow> string" where
  "int_str i = (if i < 0 then CHR ''-'' # nat_str (nat (- i)) else nat_str (nat i))"

section \<open>The model\<close>

record parent_request =
  pr_request_id :: string
  pr_sampling_params :: frontend_params
  pr_child_requests :: "string list"
  pr_output_aggregator :: "completion_output option list"
  pr_max_num_generation_tokens :: int
  pr_cached_child_params :: "frontend_params option"

definition ParentRequest_init :: "string \<Rightarrow> frontend_params \<Rightarrow> parent_request" where
  "ParentRequest_init rid params =
     \<lparr>pr_request_id = rid, pr_sampling_params = params, pr_child_requests = [],
      pr_output_aggregator = (if sp_output_kind params = FINAL_ONLY then replicate (nat (sp_n params)) None else []),
      pr_max_num_generation_tokens = 0, pr_cached_child_params = None\<rparr>"

definition get_child_sampling_params :: "int \<Rightarrow> parent_request \<Rightarrow> frontend_params \<times> parent_request" where
  "get_child_sampling_params index p =
     (case pr_cached_child_params p of
        Some params \<Rightarrow> (params, p)
      | None \<Rightarrow>
          let child_params = (pr_sampling_params p)\<lparr>sp_n := 1\<rparr>
          in (case sp_seed (pr_sampling_params p) of
                None \<Rightarrow> (child_params, p\<lparr>pr_cached_child_params := Some child_params\<rparr>)
              | Some seed \<Rightarrow> (child_params\<lparr>sp_seed := Some (seed + index)\<rparr>, p)))"

definition child_id :: "string \<Rightarrow> int \<Rightarrow> string" where
  "child_id rid index = int_str index @ ''_'' @ rid"

definition get_child_info :: "int \<Rightarrow> parent_request \<Rightarrow> (string \<times> frontend_params) \<times> parent_request" where
  "get_child_info index p =
     (let child_req_id = child_id (pr_request_id p) index;
          p1 = p\<lparr>pr_child_requests := (if child_req_id \<in> set (pr_child_requests p) then pr_child_requests p
                                        else pr_child_requests p @ [child_req_id])\<rparr>;
          (params, p2) = get_child_sampling_params index p1
      in ((child_req_id, params), p2))"

definition list_assign :: "'a list \<Rightarrow> int \<Rightarrow> 'a \<Rightarrow> 'a list res" where
  "list_assign xs i v =
     (let n = int (length xs); j = (if i < 0 then n + i else i)
      in if 0 \<le> j \<and> j < n then Ok (xs[nat j := v]) else Err IndexError)"

definition parent_get_outputs ::
  "string \<Rightarrow> completion_output \<Rightarrow> parent_request
   \<Rightarrow> ((string \<times> completion_output option list \<times> bool) \<times> parent_request) res" where
  "parent_get_outputs child_request_id out p =
     rbind
       (if co_finished out
        then if child_request_id \<in> set (pr_child_requests p)
             then Ok (p\<lparr>pr_child_requests := remove1 child_request_id (pr_child_requests p)\<rparr>) else Err KeyError
        else Ok p)
       (\<lambda>p1. if sp_output_kind (pr_sampling_params p1) \<noteq> FINAL_ONLY
             then Ok ((pr_request_id p1, [Some out], pr_child_requests p1 = []), p1)
             else rbind (list_assign (pr_output_aggregator p1) (co_index out) (Some out)) (\<lambda>agg.
                  let p2 = p1\<lparr>pr_output_aggregator := agg\<rparr>
                  in Ok ((pr_request_id p2, if pr_child_requests p2 \<noteq> [] then [] else agg, pr_child_requests p2 = []), p2)))"

definition observe_num_generation_tokens :: "int \<Rightarrow> parent_request \<Rightarrow> int \<times> parent_request" where
  "observe_num_generation_tokens num p =
     (let m = max num (pr_max_num_generation_tokens p) in (m, p\<lparr>pr_max_num_generation_tokens := m\<rparr>))"

text \<open>The children \<open>0, \<dots>, n - 1\<close> in the order the engine makes them.\<close>

fun get_children :: "int list \<Rightarrow> parent_request \<Rightarrow> (string \<times> frontend_params) list \<times> parent_request" where
  "get_children [] p = ([], p)"
| "get_children (i # is) p =
     (let (info, p1) = get_child_info i p; (infos, p2) = get_children is p1 in (info # infos, p2))"

text \<open>Handing outputs of children to their parent, one after the other.\<close>

fun parent_collect ::
  "(string \<times> completion_output) list \<Rightarrow> parent_request
   \<Rightarrow> ((string \<times> completion_output option list \<times> bool) list \<times> parent_request) res" where
  "parent_collect [] p = Ok ([], p)"
| "parent_collect ((cid, out) # outs) p =
     rbind (parent_get_outputs cid out p) (\<lambda>(r, p1).
     rbind (parent_collect outs p1) (\<lambda>(rs, p2). Ok (r # rs, p2)))"

section \<open>Child identifiers\<close>

fun str_nat :: "string \<Rightarrow> nat" where
  "str_nat s = foldl (\<lambda>n c. 10 * n + (of_char c - 48)) 0 s"

lemma of_char_digit: "d < 10 \<Longrightarrow> of_char (digit_char d) = (48 + d :: nat)"
  by (simp add: digit_char_def of_char_of)

lemma str_nat_str: "str_nat (nat_str n) = n"
proof (induction n rule: nat_str.induct)
  case (1 n)
  show ?case
  proof (cases "n < 10")
    case True
    then show ?thesis by (simp add: nat_str.simps [of n] of_char_digit)
  next
    case False
    with 1 show ?thesis by (simp add: nat_str.simps [of n] of_char_digit)
  qed
qed

lemma nat_str_digits: "set (nat_str n) \<subseteq> digit_char ` {..<10}"
proof (induction n rule: nat_str.induct)
  case (1 n)
  then show ?case by (subst nat_str.simps) auto
qed

lemma underscore_not_digit: "CHR ''_'' \<notin> set (nat_str n)" "CHR ''-'' \<notin> set (nat_str n)"
proof -
  have "c \<in> digit_char ` {..<10} \<Longrightarrow> 48 \<le> (of_char c :: nat) \<and> (of_char c :: nat) < 58" for c
    by (auto simp: of_char_digit)
  from this [of "CHR ''_''"] this [of "CHR ''-''"] nat_str_digits [of n]
  show "CHR ''_'' \<notin> set (nat_str n)" "CHR ''-'' \<notin> set (nat_str n)" by auto
qed

lemma nat_str_inject: "nat_str a = nat_str b \<longleftrightarrow> a = b"
  by (metis str_nat_str)

lemma int_str_inject: "int_str i = int_str j \<longleftrightarrow> i = j"
proof -
  have neg: "nat_str a \<noteq> CHR ''-'' # s" "CHR ''-'' # s \<noteq> nat_str a" for a s
    using underscore_not_digit(2) [of a] by (metis list.set_intros(1))+
  show ?thesis
    by (cases "i < 0"; cases "j < 0") (auto simp: int_str_def nat_str_inject neg)
qed

lemma underscore_not_in_int_str: "CHR ''_'' \<notin> set (int_str i)"
  using underscore_not_digit(1) by (auto simp: int_str_def)

text \<open>A child identifier determines the parent and the index.\<close>

lemma child_id_inject: "child_id rid i = child_id rid' j \<longleftrightarrow> rid = rid' \<and> i = j"
proof
  assume eq: "child_id rid i = child_id rid' j"
  have cut: "takeWhile (\<lambda>c. c \<noteq> CHR ''_'') (child_id r k) = int_str k" for r k
    using underscore_not_in_int_str [of k] unfolding child_id_def by (subst takeWhile_append2) auto
  from eq cut [of rid i] cut [of rid' j] have "int_str i = int_str j" by simp
  with eq show "rid = rid' \<and> i = j" by (simp add: int_str_inject child_id_def)
qed simp


section \<open>Collecting the children\<close>

definition new_parent :: "string \<Rightarrow> frontend_params \<Rightarrow> parent_request" where
  "new_parent rid params = snd (get_children [0..sp_n params - 1] (ParentRequest_init rid params))"

lemma get_child_info_frame:
  assumes "get_child_info i p = (info, p')"
  shows "fst info = child_id (pr_request_id p) i" and "pr_request_id p' = pr_request_id p"
    and "pr_sampling_params p' = pr_sampling_params p" and "pr_output_aggregator p' = pr_output_aggregator p"
    and "set (pr_child_requests p') = insert (child_id (pr_request_id p) i) (set (pr_child_requests p))"
    and "distinct (pr_child_requests p) \<Longrightarrow> distinct (pr_child_requests p')"
  using assms
  by (auto simp: get_child_info_def get_child_sampling_params_def Let_def split: prod.splits option.splits if_splits)

lemma get_children_frame:
  assumes "get_children is p = (infos, p')"
  shows "map fst infos = map (child_id (pr_request_id p)) is \<and> pr_request_id p' = pr_request_id p \<and>
    pr_sampling_params p' = pr_sampling_params p \<and> pr_output_aggregator p' = pr_output_aggregator p \<and>
    set (pr_child_requests p') = child_id (pr_request_id p) ` set is \<union> set (pr_child_requests p) \<and>
    (distinct (pr_child_requests p) \<longrightarrow> distinct (pr_child_requests p'))"
  using assms
proof (induction "is" arbitrary: p infos p')
  case (Cons i "is")
  obtain info p1 where one: "get_child_info i p = (info, p1)" by fastforce
  obtain infos' p2 where rest: "get_children is p1 = (infos', p2)" by fastforce
  from Cons.prems one rest have "infos = info # infos'" "p' = p2" by auto
  with Cons.IH [OF rest] get_child_info_frame [OF one] show ?case by auto
qed simp

lemma new_parent_fields:
  shows "pr_request_id (new_parent rid params) = rid" and "pr_sampling_params (new_parent rid params) = params"
    and "distinct (pr_child_requests (new_parent rid params))"
    and "set (pr_child_requests (new_parent rid params)) = child_id rid ` {0..sp_n params - 1}"
    and "sp_output_kind params = FINAL_ONLY \<Longrightarrow>
      pr_output_aggregator (new_parent rid params) = replicate (nat (sp_n params)) None"
proof -
  obtain infos p where "get_children [0..sp_n params - 1] (ParentRequest_init rid params) = (infos, p)" by fastforce
  with get_children_frame [OF this]
  show "pr_request_id (new_parent rid params) = rid" and "pr_sampling_params (new_parent rid params) = params"
    and "distinct (pr_child_requests (new_parent rid params))"
    and "set (pr_child_requests (new_parent rid params)) = child_id rid ` {0..sp_n params - 1}"
    and "sp_output_kind params = FINAL_ONLY \<Longrightarrow>
      pr_output_aggregator (new_parent rid params) = replicate (nat (sp_n params)) None"
    by (simp_all add: new_parent_def ParentRequest_init_def)
qed

text \<open>
  A parent whose children \<open>is\<close> are still running: \<open>done\<close> have reported.
\<close>

definition parent_waits :: "parent_request \<Rightarrow> nat \<Rightarrow> (nat \<Rightarrow> completion_output) \<Rightarrow> nat set \<Rightarrow> bool" where
  "parent_waits p n c rem \<longleftrightarrow> sp_output_kind (pr_sampling_params p) = FINAL_ONLY \<and> rem \<subseteq> {..<n} \<and>
     distinct (pr_child_requests p) \<and>
     set (pr_child_requests p) = (\<lambda>i. child_id (pr_request_id p) (int i)) ` rem \<and>
     pr_output_aggregator p = map (\<lambda>i. if i \<in> rem then None else Some (c i)) [0..<n]"

lemma parent_waits_step:
  assumes "parent_waits p n c rem" and "i \<in> rem" and "co_index (c i) = int i" and "co_finished (c i)"
  obtains p' where "parent_get_outputs (child_id (pr_request_id p) (int i)) (c i) p =
      Ok ((pr_request_id p, if rem = {i} then map (\<lambda>i. Some (c i)) [0..<n] else [], rem = {i}), p')"
    and "parent_waits p' n c (rem - {i})" and "pr_request_id p' = pr_request_id p"
proof -
  let ?id = "\<lambda>i. child_id (pr_request_id p) (int i)"
  let ?p = "p\<lparr>pr_child_requests := remove1 (?id i) (pr_child_requests p),
    pr_output_aggregator := map (\<lambda>j. if j \<in> rem - {i} then None else Some (c j)) [0..<n]\<rparr>"
  have p: "sp_output_kind (pr_sampling_params p) = FINAL_ONLY" "rem \<subseteq> {..<n}" "distinct (pr_child_requests p)"
    "set (pr_child_requests p) = ?id ` rem" "pr_output_aggregator p = map (\<lambda>i. if i \<in> rem then None else Some (c i)) [0..<n]"
    using assms(1) by (auto simp: parent_waits_def)
  have i: "i < n" "?id i \<in> set (pr_child_requests p)" using p assms(2) by auto
  have rm: "set (remove1 (?id i) (pr_child_requests p)) = ?id ` (rem - {i})"
    using p(3,4) by (auto simp: set_remove1_eq child_id_inject)
  then have empty: "remove1 (?id i) (pr_child_requests p) = [] \<longleftrightarrow> rem = {i}"
    using assms(2) set_empty [of "remove1 (?id i) (pr_child_requests p)"] by auto
  have "list_assign (pr_output_aggregator p) (int i) (Some (c i)) =
      Ok (map (\<lambda>j. if j \<in> rem - {i} then None else Some (c j)) [0..<n])"
    unfolding list_assign_def p(5) using i(1) by (auto simp: Let_def list_eq_iff_nth_eq nth_list_update)
  then have "parent_get_outputs (?id i) (c i) p =
      Ok ((pr_request_id p, if rem = {i} then map (\<lambda>i. Some (c i)) [0..<n] else [], rem = {i}), ?p)"
    using i(2) assms(3,4) p(1) empty by (auto simp: parent_get_outputs_def Let_def)
  moreover have "parent_waits ?p n c (rem - {i})" using p rm by (auto simp: parent_waits_def)
  moreover have "pr_request_id ?p = pr_request_id p" by simp
  ultimately show thesis by (rule that)
qed

lemma parent_collects:
  assumes "parent_waits p n c (set js)" and "distinct js" and "js \<noteq> []"
    and "\<forall>i < n. co_index (c i) = int i \<and> co_finished (c i)"
  shows "\<exists>p'. parent_collect (map (\<lambda>i. (child_id (pr_request_id p) (int i), c i)) js) p =
     Ok (replicate (length js - 1) (pr_request_id p, [], False) @
           [(pr_request_id p, map (\<lambda>i. Some (c i)) [0..<n], True)], p')"
  using assms(1-3)
proof (induction js arbitrary: p)
  case (Cons i js)
  have i: "i < n" using Cons.prems(1) by (auto simp: parent_waits_def)
  obtain p1 where step: "parent_get_outputs (child_id (pr_request_id p) (int i)) (c i) p =
      Ok ((pr_request_id p, if set (i # js) = {i} then map (\<lambda>i. Some (c i)) [0..<n] else [], set (i # js) = {i}), p1)"
    and w: "parent_waits p1 n c (set (i # js) - {i})" and id: "pr_request_id p1 = pr_request_id p"
    by (rule parent_waits_step [OF Cons.prems(1), of i]) (use i assms(4) in auto)
  have rem: "set (i # js) - {i} = set js" and last: "set (i # js) = {i} \<longleftrightarrow> js = []"
    using Cons.prems(2) by (cases js; auto)+
  show ?case
  proof (cases "js = []")
    case True
    with step last show ?thesis by simp
  next
    case False
    with Cons.IH [of p1] w Cons.prems(2) rem id obtain p' where
      "parent_collect (map (\<lambda>i. (child_id (pr_request_id p) (int i), c i)) js) p1 =
        Ok (replicate (length js - 1) (pr_request_id p, [], False) @
              [(pr_request_id p, map (\<lambda>i. Some (c i)) [0..<n], True)], p')" by auto
    with step last False show ?thesis by (cases js) auto
  qed
qed simp

text \<open>
  C16. A request for \<open>n\<close> completions whose caller wants only the final result gets it exactly once
  and complete: in whatever order the children finish, the parent answers with nothing until the
  last one, and then with all \<open>n\<close> outputs, each at its index, marked as finished.
\<close>

theorem parallel_sampling_collects:
  assumes "sp_output_kind params = FINAL_ONLY" and "1 \<le> sp_n params"
    and "distinct js" and "set js = {..<nat (sp_n params)}"
    and "\<forall>i < nat (sp_n params). co_index (c i) = int i \<and> co_finished (c i)"
  shows "\<exists>p'. parent_collect (map (\<lambda>i. (child_id rid (int i), c i)) js) (new_parent rid params) =
     Ok (replicate (nat (sp_n params) - 1) (rid, [], False) @
           [(rid, map (\<lambda>i. Some (c i)) [0..<nat (sp_n params)], True)], p')"
proof -
  let ?p = "new_parent rid params" and ?n = "nat (sp_n params)"
  have range: "{0..sp_n params - 1} = int ` {..<?n}"
  proof (intro equalityI subsetI)
    fix x assume "x \<in> {0..sp_n params - 1}"
    then have "x = int (nat x)" "nat x < ?n" by auto
    then show "x \<in> int ` {..<?n}" by blast
  qed auto
  note f = new_parent_fields [where rid = rid and params = params]
  have "pr_output_aggregator ?p = map (\<lambda>i. if i \<in> set js then None else Some (c i)) [0..<?n]"
  proof -
    have "map (\<lambda>i. if i \<in> set js then None else Some (c i)) [0..<?n] = map (\<lambda>_. None) [0..<?n]"
      by (rule map_cong) (auto simp: assms(4))
    then show ?thesis using f(5) [OF assms(1)] by (simp add: map_replicate_const)
  qed
  moreover have "set (pr_child_requests ?p) = (\<lambda>i. child_id rid (int i)) ` set js"
    unfolding f(4) range assms(4) by (simp add: image_image)
  moreover have "set js \<subseteq> {..<?n}" using assms(4) by simp
  ultimately have w: "parent_waits ?p ?n c (set js)" using f(1-3) assms(1) by (simp add: parent_waits_def)
  have len: "length js = ?n" using distinct_card [OF assms(3)] assms(4) by simp
  with assms(2) have "js \<noteq> []" by auto
  from parent_collects [OF w assms(3) this assms(5)] show ?thesis unfolding len f(1) .
qed

definition demo_params :: "request_output_kind \<Rightarrow> int \<Rightarrow> ustring list \<Rightarrow> frontend_params" where
  "demo_params kind n stop =
     \<lparr>sp_max_tokens = Some 16, ignore_eos = False, stop_token_ids = None, prompt_logprobs = None, logprobs = None,
      guided_decoding = None, extra_args = None, sp_n = n, sp_seed = None, sp_stop = stop, sp_include_stop_str = False,
      sp_detokenize = True, sp_output_kind = kind, sp_skip_special_tokens = True, sp_spaces_between = True\<rparr>"

definition demo_completion :: "nat \<Rightarrow> completion_output" where
  "demo_completion i =
     \<lparr>co_index = int i, co_text = [97 + i], co_token_ids = [int i], co_cumulative_logprob = None, co_logprobs = None,
      co_finish_reason = Some ''stop'', co_stop_reason = None\<rparr>"

theorem parallel_sampling_collects_witness:
  "\<exists>p'. parent_collect (map (\<lambda>i. (child_id ''r'' (int i), demo_completion i)) [2, 0, 1])
      (new_parent ''r'' (demo_params FINAL_ONLY 3 [])) =
     Ok ([(''r'', [], False), (''r'', [], False),
          (''r'', [Some (demo_completion 0), Some (demo_completion 1), Some (demo_completion 2)], True)], p')"
proof -
  have set: "set [2, 0, 1] = {..<nat (sp_n (demo_params FINAL_ONLY 3 []))}" by (auto simp: demo_params_def)
  have upt: "[0..<3] = [0, 1, 2 :: nat]" by (simp add: upt_rec)
  show ?thesis
    using parallel_sampling_collects [OF _ _ _ set, of demo_completion "''r''"]
    by (simp add: demo_params_def demo_completion_def co_finished_def upt numeral_eq_Suc)
qed

end
