(* ===== verification/Frontend_Stats.thy ===== *)
theory Frontend_Stats
  imports Parallel_Sampling
begin

text \<open>
  \<open>v1/metrics/stats.py\<close>: what the front end counts per iteration and per request, and the requests
  waiting and running per LoRA adapter.  Times are integers, as in the rest of the development.
\<close>

section \<open>Records\<close>

record lora_stats =
  ls_waiting :: "string set"
  ls_running :: "string set"

type_synonym lora_states = "(string, lora_stats) dict"

record request_state_stats =
  qs_num_generation_tokens :: int
  qs_arrival_time :: int
  qs_queued_ts :: int
  qs_scheduled_ts :: int
  qs_first_token_ts :: int
  qs_last_token_ts :: int

record finished_request_stats =
  fs_finish_reason :: finish_reason
  fs_e2e_latency :: int
  fs_num_prompt_tokens :: int
  fs_num_generation_tokens :: int
  fs_max_tokens_param :: "int option"
  fs_queued_time :: int
  fs_prefill_time :: int
  fs_inference_time :: int
  fs_decode_time :: int

record iteration_stats =
  is_timestamp :: int
  is_num_generation_tokens :: int
  is_num_prompt_tokens :: int
  is_num_preempted_reqs :: int
  is_finished_requests :: "finished_request_stats list"
  is_max_num_generation_tokens :: "int list"
  is_n_params :: "int list"
  is_time_to_first_tokens :: "int list"
  is_time_per_output_tokens :: "int list"
  is_waiting_lora_adapters :: "(string, nat) dict"
  is_running_lora_adapters :: "(string, nat) dict"

definition RequestStateStats_init :: "int \<Rightarrow> request_state_stats" where
  "RequestStateStats_init arrival =
     \<lparr>qs_num_generation_tokens = 0, qs_arrival_time = arrival, qs_queued_ts = 0, qs_scheduled_ts = 0,
      qs_first_token_ts = 0, qs_last_token_ts = 0\<rparr>"

definition IterationStats_init :: "int \<Rightarrow> iteration_stats" where
  "IterationStats_init now =
     \<lparr>is_timestamp = now, is_num_generation_tokens = 0, is_num_prompt_tokens = 0, is_num_preempted_reqs = 0,
      is_finished_requests = [], is_max_num_generation_tokens = [], is_n_params = [], is_time_to_first_tokens = [],
      is_time_per_output_tokens = [], is_waiting_lora_adapters = [], is_running_lora_adapters = []\<rparr>"

section \<open>LoRA adapters\<close>

text \<open>\<open>get_stats\<close> inserts an entry for an unknown adapter; the caller gets the entry and the table.\<close>

definition lora_get_stats :: "string option \<Rightarrow> lora_states \<Rightarrow> lora_stats option \<times> lora_states" where
  "lora_get_stats name ls =
     (case name of
        None \<Rightarrow> (None, ls)
      | Some n \<Rightarrow>
          (case map_of ls n of
             None \<Rightarrow> let st = \<lparr>ls_waiting = {}, ls_running = {}\<rparr> in (Some st, AList.update n st ls)
           | Some st \<Rightarrow> (Some st, ls)))"

definition lora_put :: "string option \<Rightarrow> lora_stats option \<Rightarrow> lora_states \<Rightarrow> lora_states" where
  "lora_put name st ls = (case (name, st) of (Some n, Some s) \<Rightarrow> AList.update n s ls | _ \<Rightarrow> ls)"

definition lora_add_request :: "string option \<Rightarrow> string \<Rightarrow> lora_states \<Rightarrow> lora_states" where
  "lora_add_request name rid ls =
     (case lora_get_stats name ls of
        (None, ls1) \<Rightarrow> ls1
      | (Some st, ls1) \<Rightarrow> lora_put name (Some (st\<lparr>ls_waiting := insert rid (ls_waiting st)\<rparr>)) ls1)"

definition lora_finish_request :: "string option \<Rightarrow> string \<Rightarrow> lora_states \<Rightarrow> lora_states res" where
  "lora_finish_request name rid ls =
     (case name of
        None \<Rightarrow> Ok ls
      | Some n \<Rightarrow>
          rbind (dict_get n ls) (\<lambda>st.
            if rid \<in> ls_running st then Ok (AList.update n (st\<lparr>ls_running := ls_running st - {rid}\<rparr>) ls) else Err KeyError))"

definition lora_abort_request :: "string option \<Rightarrow> string \<Rightarrow> lora_states \<Rightarrow> lora_states res" where
  "lora_abort_request name rid ls =
     (case name of
        None \<Rightarrow> Ok ls
      | Some n \<Rightarrow>
          rbind (dict_get n ls) (\<lambda>st.
            Ok (AList.update n (st\<lparr>ls_waiting := ls_waiting st - {rid}, ls_running := ls_running st - {rid}\<rparr>) ls)))"

definition lora_scheduled_request :: "string \<Rightarrow> lora_stats option \<Rightarrow> lora_stats option res" where
  "lora_scheduled_request rid st =
     (case st of
        None \<Rightarrow> Ok None
      | Some s \<Rightarrow>
          if rid \<in> ls_waiting s
          then Ok (Some (s\<lparr>ls_waiting := ls_waiting s - {rid}, ls_running := insert rid (ls_running s)\<rparr>)) else Err KeyError)"

definition lora_preempted_request :: "string \<Rightarrow> lora_stats option \<Rightarrow> lora_stats option res" where
  "lora_preempted_request rid st =
     (case st of
        None \<Rightarrow> Ok None
      | Some s \<Rightarrow>
          if rid \<in> ls_running s
          then Ok (Some (s\<lparr>ls_running := ls_running s - {rid}, ls_waiting := insert rid (ls_waiting s)\<rparr>)) else Err KeyError)"

definition lora_update_iteration_stats :: "lora_states \<Rightarrow> iteration_stats \<Rightarrow> iteration_stats" where
  "lora_update_iteration_stats ls it =
     foldl (\<lambda>it (name, st).
        let it1 = (if ls_waiting st \<noteq> {}
                   then it\<lparr>is_waiting_lora_adapters := AList.update name (card (ls_waiting st)) (is_waiting_lora_adapters it)\<rparr> else it)
        in (if ls_running st \<noteq> {}
            then it1\<lparr>is_running_lora_adapters := AList.update name (card (ls_running st)) (is_running_lora_adapters it1)\<rparr> else it1))
       it ls"

section \<open>Iterations\<close>

definition update_from_event ::
  "string \<Rightarrow> event_type \<times> int \<Rightarrow> request_state_stats \<times> lora_stats option \<times> iteration_stats
   \<Rightarrow> (request_state_stats \<times> lora_stats option \<times> iteration_stats) res" where
  "update_from_event rid ev acc =
     (case acc of (qs, ls, it) \<Rightarrow>
      (case ev of
         (QUEUED, ts) \<Rightarrow>
           Ok (qs\<lparr>qs_queued_ts := ts\<rparr>, map_option (\<lambda>s. s\<lparr>ls_waiting := insert rid (ls_waiting s)\<rparr>) ls, it)
       | (SCHEDULED, ts) \<Rightarrow>
           rbind (lora_scheduled_request rid ls) (\<lambda>ls1.
             Ok (if qs_scheduled_ts qs = 0 then qs\<lparr>qs_scheduled_ts := ts\<rparr> else qs, ls1, it))
       | (EV_PREEMPTED, ts) \<Rightarrow>
           rbind (lora_preempted_request rid ls) (\<lambda>ls1.
             Ok (qs, ls1, it\<lparr>is_num_preempted_reqs := is_num_preempted_reqs it + 1\<rparr>))))"

definition stats_update_from_output ::
  "engine_core_output \<Rightarrow> int \<Rightarrow> bool \<Rightarrow> int \<Rightarrow> request_state_stats \<Rightarrow> lora_stats option \<Rightarrow> iteration_stats
   \<Rightarrow> (request_state_stats \<times> lora_stats option \<times> iteration_stats) res" where
  "stats_update_from_output out ts is_prefilling prompt_len qs ls it =
     (let n = int (length (eo_new_token_ids out));
          it1 = it\<lparr>is_num_generation_tokens := is_num_generation_tokens it + n\<rparr>;
          it2 = (if is_prefilling
                 then it1\<lparr>is_num_prompt_tokens := is_num_prompt_tokens it1 + prompt_len,
                          is_time_to_first_tokens := is_time_to_first_tokens it1 @ [is_timestamp it1 - qs_arrival_time qs]\<rparr>
                 else it1);
          qs1 = qs\<lparr>qs_num_generation_tokens := qs_num_generation_tokens qs + n\<rparr>
      in rbind (case eo_events out of None \<Rightarrow> Ok (qs1, ls, it2)
                | Some evs \<Rightarrow> rfold (update_from_event (eo_request_id out)) evs (qs1, ls, it2))
           (\<lambda>(qs2, ls2, it3).
              if is_prefilling then Ok (qs2\<lparr>qs_first_token_ts := ts, qs_last_token_ts := ts\<rparr>, ls2, it3)
              else Ok (qs2\<lparr>qs_last_token_ts := ts\<rparr>, ls2,
                       it3\<lparr>is_time_per_output_tokens := is_time_per_output_tokens it3 @ [ts - qs_last_token_ts qs2]\<rparr>)))"

definition update_from_finished_request ::
  "finish_reason \<Rightarrow> int \<Rightarrow> int option \<Rightarrow> request_state_stats \<Rightarrow> iteration_stats \<Rightarrow> iteration_stats" where
  "update_from_finished_request reason n_prompt max_tokens_param qs it =
     it\<lparr>is_finished_requests := is_finished_requests it @
       [\<lparr>fs_finish_reason = reason, fs_e2e_latency = is_timestamp it - qs_arrival_time qs,
         fs_num_prompt_tokens = n_prompt, fs_num_generation_tokens = qs_num_generation_tokens qs,
         fs_max_tokens_param = max_tokens_param, fs_queued_time = qs_scheduled_ts qs - qs_queued_ts qs,
         fs_prefill_time = qs_first_token_ts qs - qs_scheduled_ts qs,
         fs_inference_time = qs_last_token_ts qs - qs_scheduled_ts qs,
         fs_decode_time = qs_last_token_ts qs - qs_first_token_ts qs\<rparr>]\<rparr>"

text \<open>\<open>ParentRequest.observe_finished_request\<close>.\<close>

definition observe_finished_request ::
  "parent_request option \<Rightarrow> int \<Rightarrow> iteration_stats \<Rightarrow> parent_request option \<times> iteration_stats" where
  "observe_finished_request parent num it =
     (let n_param = (case parent of Some p \<Rightarrow> sp_n (pr_sampling_params p) | None \<Rightarrow> 1);
          (num1, parent1) =
            (case parent of
               Some p \<Rightarrow> (let (m, p1) = observe_num_generation_tokens num p in (m, Some p1))
             | None \<Rightarrow> (num, None));
          done = (case parent1 of Some p \<Rightarrow> pr_child_requests p = [] | None \<Rightarrow> True)
      in (parent1,
          if done then it\<lparr>is_max_num_generation_tokens := is_max_num_generation_tokens it @ [num1],
                          is_n_params := is_n_params it @ [n_param]\<rparr>
          else it))"

end
