(* ===== verification/Output_Processor.thy ===== *)
theory Output_Processor
  imports Logprobs_Processor Frontend_Stats
begin

text \<open>
  \<open>v1/engine/output_processor.py\<close> and the fan-out of \<open>v1/engine/llm_engine.py\<close> and
  \<open>v1/engine/async_llm.py\<close>: what the engine core reports for a request becomes outputs for its
  caller.

  Parent requests and mailboxes are shared objects: a child request and the table of parents
  point to the same parent, the children of a request to the same mailbox.  They are kept in
  stores from addresses to objects, \<open>op_parents\<close> and \<open>op_queues\<close>, and the state of a request holds
  addresses.  The messages to the engine core are results of the operations.
\<close>

section \<open>Records\<close>

record request_state =
  rs_request_id :: string
  rs_parent_req :: "nat option"
  rs_request_index :: int
  rs_lora_name :: "string option"
  rs_output_kind :: request_output_kind
  rs_prompt :: "ustring option"
  rs_prompt_token_ids :: "int list"
  rs_logprobs_processor :: "logprobs_processor option"
  rs_detokenizer :: "detokenizer option"
  rs_max_tokens_param :: "int option"
  rs_is_prefilling :: bool
  rs_queue :: "nat option"
  rs_stats :: "request_state_stats option"

record output_processor =
  op_log_stats :: bool
  op_tokenizer :: "(lora_request option \<Rightarrow> tokenizer) option"
  op_request_states :: "(string, request_state) dict"
  op_parent_requests :: "(string, nat) dict"
  op_lora_states :: lora_states
  op_parents :: "nat \<Rightarrow> parent_request option"
  op_queues :: "nat \<Rightarrow> collector option"

record processor_output =
  pp_request_outputs :: "frontend_output list"
  pp_reqs_to_abort :: "string list"

definition OutputProcessor_init :: "(lora_request option \<Rightarrow> tokenizer) option \<Rightarrow> bool \<Rightarrow> output_processor" where
  "OutputProcessor_init tokenizer log_stats =
     \<lparr>op_log_stats = log_stats, op_tokenizer = tokenizer, op_request_states = [], op_parent_requests = [],
      op_lora_states = [], op_parents = (\<lambda>_. None), op_queues = (\<lambda>_. None)\<rparr>"

definition parent_at :: "nat \<Rightarrow> output_processor \<Rightarrow> parent_request res" where
  "parent_at a self = (case op_parents self a of None \<Rightarrow> Err AttributeError | Some p \<Rightarrow> Ok p)"

definition queue_at :: "nat \<Rightarrow> output_processor \<Rightarrow> collector res" where
  "queue_at a self = (case op_queues self a of None \<Rightarrow> Err AttributeError | Some q \<Rightarrow> Ok q)"

section \<open>\<open>RequestState\<close>\<close>

definition RequestState_from_new_request ::
  "tokenizer option \<Rightarrow> engine_core_request \<Rightarrow> ustring option \<Rightarrow> nat option \<Rightarrow> int \<Rightarrow> nat option \<Rightarrow> bool
   \<Rightarrow> request_state res" where
  "RequestState_from_new_request tokenizer request prompt parent_req request_index queue log_stats =
     (let make = (\<lambda>kind lpp detok max_param.
            \<lparr>rs_request_id = ecr_request_id request, rs_parent_req = parent_req, rs_request_index = request_index,
             rs_lora_name = map_option lora_name (ecr_lora request), rs_output_kind = kind, rs_prompt = prompt,
             rs_prompt_token_ids = ecr_prompt_token_ids request, rs_logprobs_processor = lpp, rs_detokenizer = detok,
             rs_max_tokens_param = max_param, rs_is_prefilling = True, rs_queue = queue,
             rs_stats = (if log_stats then Some (RequestStateStats_init (ecr_arrival_time request)) else None)\<rparr>)
      in case ecr_sampling request of
           Some params \<Rightarrow>
             (let tk = (if sp_detokenize params then tokenizer else None)
              in rbind (logprobs_from_new_request tk request) (\<lambda>lpp.
                 rbind (detokenizer_from_new_request tk request) (\<lambda>detok.
                   Ok (make (sp_output_kind params) (Some lpp) (Some detok) (sp_max_tokens params)))))
         | None \<Rightarrow>
             (case ecr_pooling request of
                None \<Rightarrow> Err AssertionError
              | Some kind \<Rightarrow> Ok (make kind None None None)))"

definition new_completion_output ::
  "int list \<Rightarrow> finish_reason option \<Rightarrow> stop_cause option \<Rightarrow> request_state \<Rightarrow> (completion_output \<times> request_state) res" where
  "new_completion_output token_ids finish_reason stop_why st =
     (case (rs_detokenizer st, rs_logprobs_processor st) of
        (Some detok, Some lpp) \<Rightarrow>
          (let finished = finish_reason \<noteq> None;
               delta = rs_output_kind st = DELTA;
               (new_text, detok') = get_next_output_text finished delta detok;
               ids = (if delta then token_ids else output_token_ids_of detok');
               lps = (case lpp_logprobs lpp of
                        Some (l # ls) \<Rightarrow> Some (if delta then py_drop (l # ls) (- int (length ids)) else l # ls)
                      | other \<Rightarrow> other)
           in Ok (\<lparr>co_index = rs_request_index st, co_text = new_text, co_token_ids = ids,
                   co_cumulative_logprob = lpp_cumulative_logprob lpp, co_logprobs = lps,
                   co_finish_reason = map_option finish_reason_str finish_reason,
                   co_stop_reason = (if finished then stop_why else None)\<rparr>,
                  st\<lparr>rs_detokenizer := Some detok'\<rparr>))
      | _ \<Rightarrow> Err AssertionError)"

definition new_request_output ::
  "string \<Rightarrow> completion_output option list \<Rightarrow> bool \<Rightarrow> string option \<Rightarrow> int \<Rightarrow> request_state
   \<Rightarrow> (frontend_output \<times> request_state) res" where
  "new_request_output rid outputs finished kv_params n_cached st =
     (if outputs = [] then Err IndexError
      else case rs_logprobs_processor st of
        None \<Rightarrow> Err AssertionError
      | Some lpp \<Rightarrow>
          (let (plps, lpp') = (if rs_output_kind st = DELTA then pop_prompt_logprobs lpp else (lpp_prompt_logprobs lpp, lpp))
           in Ok (Completion_Output \<lparr>ro_request_id = rid, ro_prompt = rs_prompt st,
                     ro_prompt_token_ids = rs_prompt_token_ids st, ro_prompt_logprobs = plps, ro_outputs = outputs,
                     ro_finished = finished, ro_kv_params = kv_params, ro_num_cached_tokens = n_cached\<rparr>,
                  st\<lparr>rs_logprobs_processor := Some lpp'\<rparr>)))"

definition make_request_output ::
  "int list \<Rightarrow> string option \<Rightarrow> finish_reason option \<Rightarrow> stop_cause option \<Rightarrow> string option \<Rightarrow> int \<Rightarrow> request_state
   \<Rightarrow> output_processor \<Rightarrow> (frontend_output option \<times> request_state \<times> output_processor) res" where
  "make_request_output new_token_ids pooled finish_reason stop_why kv_params n_cached st self =
     (let finished = finish_reason \<noteq> None
      in if \<not> finished \<and> rs_output_kind st = FINAL_ONLY then Ok (None, st, self)
         else case pooled of
           Some data \<Rightarrow>
             Ok (Some (Pooling_Output \<lparr>po_request_id = rs_request_id st, po_data = data,
                         po_prompt_token_ids = rs_prompt_token_ids st, po_finished = finished\<rparr>), st, self)
         | None \<Rightarrow>
             rbind (new_completion_output new_token_ids finish_reason stop_why st) (\<lambda>(out, st1).
               case rs_parent_req st1 of
                 None \<Rightarrow>
                   rbind (new_request_output (rs_request_id st1) [Some out] finished kv_params n_cached st1)
                     (\<lambda>(r, st2). Ok (Some r, st2, self))
               | Some a \<Rightarrow>
                   rbind (parent_at a self) (\<lambda>p.
                   rbind (parent_get_outputs (rs_request_id st1) out p) (\<lambda>((rid, outputs, fin), p1).
                   let self1 = self\<lparr>op_parents := (op_parents self)(a \<mapsto> p1)\<rparr>
                   in if outputs = [] then Ok (None, st1, self1)
                      else rbind (new_request_output rid outputs fin kv_params n_cached st1)
                             (\<lambda>(r, st2). Ok (Some r, st2, self1))))))"

section \<open>\<open>OutputProcessor\<close>\<close>

definition get_num_unfinished_requests_op :: "output_processor \<Rightarrow> nat" where
  "get_num_unfinished_requests_op self = length (op_request_states self)"

definition has_unfinished_requests_op :: "output_processor \<Rightarrow> bool" where
  "has_unfinished_requests_op self \<longleftrightarrow> length (op_request_states self) > 0"

definition propagate_error :: "py_error \<Rightarrow> output_processor \<Rightarrow> output_processor res" where
  "propagate_error e self =
     rfold (\<lambda>(_, st) op.
        case rs_queue st of
          None \<Rightarrow> Err AssertionError
        | Some a \<Rightarrow> rbind (queue_at a op) (\<lambda>q. rbind (collector_put (Exception_Output e) q) (\<lambda>q'.
                     Ok (op\<lparr>op_queues := (op_queues op)(a \<mapsto> q')\<rparr>))))
       (op_request_states self) self"

text \<open>
  \<open>abort_requests\<close> calls itself with the children of a parent.  A child is an id of a request, so
  that the inner call meets a parent only when a child has the id of another parent; the fuel
  bounds the depth by the number of parents, each level removing one.
\<close>

fun abort_loop :: "nat \<Rightarrow> string list \<Rightarrow> output_processor \<Rightarrow> (string list \<times> output_processor) res" where
  "abort_loop fuel [] self = Ok ([], self)"
| "abort_loop fuel (rid # rids) self =
     rbind
       (case map_of (op_request_states self) rid of
          Some st \<Rightarrow>
            rbind (lora_abort_request (rs_lora_name st) (rs_request_id st) (op_lora_states self)) (\<lambda>ls.
              Ok ([rid], self\<lparr>op_request_states := AList.delete rid (op_request_states self), op_lora_states := ls\<rparr>))
        | None \<Rightarrow>
            (case map_of (op_parent_requests self) rid of
               None \<Rightarrow> Ok ([], self)
             | Some a \<Rightarrow>
                 (let self1 = self\<lparr>op_parent_requests := AList.delete rid (op_parent_requests self)\<rparr>
                  in rbind (parent_at a self) (\<lambda>p.
                     if pr_child_requests p = [] then Ok ([], self1)
                     else case fuel of
                            0 \<Rightarrow> Err RuntimeError
                          | Suc fuel' \<Rightarrow>
                              rbind (abort_loop fuel' (pr_child_requests p) self1)
                                (\<lambda>(_, self2). Ok (pr_child_requests p, self2))))))
       (\<lambda>(ids, self1). rbind (abort_loop fuel rids self1) (\<lambda>(ids', self2). Ok (ids @ ids', self2)))"

definition abort_requests :: "string list \<Rightarrow> output_processor \<Rightarrow> (string list \<times> output_processor) res" where
  "abort_requests request_ids self = abort_loop (length (op_parent_requests self)) request_ids self"

definition op_add_request ::
  "engine_core_request \<Rightarrow> ustring option \<Rightarrow> nat option \<Rightarrow> int \<Rightarrow> nat option \<Rightarrow> output_processor \<Rightarrow> output_processor res" where
  "op_add_request request prompt parent_req request_index queue self =
     (let rid = ecr_request_id request
      in if rid \<in> set (map fst (op_request_states self)) then Err ValueError
         else let tokenizer = map_option (\<lambda>f. f (ecr_lora request)) (op_tokenizer self)
              in rbind (RequestState_from_new_request tokenizer request prompt parent_req request_index queue (op_log_stats self)) (\<lambda>st.
                 let self1 = self\<lparr>op_request_states := AList.update rid st (op_request_states self),
                                  op_lora_states := lora_add_request (rs_lora_name st) (rs_request_id st) (op_lora_states self)\<rparr>
                 in case parent_req of
                      None \<Rightarrow> Ok self1
                    | Some a \<Rightarrow> rbind (parent_at a self1) (\<lambda>p.
                        Ok (self1\<lparr>op_parent_requests := AList.update (pr_request_id p) a (op_parent_requests self1)\<rparr>))))"

section \<open>Processing the outputs of the engine core\<close>

definition op_update_stats_from_output ::
  "engine_core_output \<Rightarrow> int option \<Rightarrow> request_state \<Rightarrow> output_processor \<times> iteration_stats option
   \<Rightarrow> (request_state \<times> output_processor \<times> iteration_stats option) res" where
  "op_update_stats_from_output out ts st acc =
     (case acc of (self, it) \<Rightarrow>
      (case it of
         None \<Rightarrow> Ok (st, self, None)
       | Some i \<Rightarrow>
           (let (ls, states) = lora_get_stats (rs_lora_name st) (op_lora_states self)
            in case (ts, rs_stats st) of
                 (Some t, Some qs) \<Rightarrow>
                   rbind (stats_update_from_output out t (rs_is_prefilling st) (int (length (rs_prompt_token_ids st))) qs ls i)
                     (\<lambda>(qs', ls', i'). Ok (st\<lparr>rs_stats := Some qs'\<rparr>,
                        self\<lparr>op_lora_states := lora_put (rs_lora_name st) ls' states\<rparr>, Some i'))
               | _ \<Rightarrow> Err AssertionError)))"

definition op_update_stats_from_finished ::
  "finish_reason \<Rightarrow> request_state \<Rightarrow> output_processor \<times> iteration_stats option
   \<Rightarrow> (output_processor \<times> iteration_stats option) res" where
  "op_update_stats_from_finished finish_reason st acc =
     (case acc of (self, it) \<Rightarrow>
      (case it of
         None \<Rightarrow> Ok (self, None)
       | Some i \<Rightarrow>
           (case rs_stats st of
              None \<Rightarrow> Err AssertionError
            | Some qs \<Rightarrow>
                (let i1 = update_from_finished_request finish_reason (int (length (rs_prompt_token_ids st))) (rs_max_tokens_param st) qs i
                 in rbind (lora_finish_request (rs_lora_name st) (rs_request_id st) (op_lora_states self)) (\<lambda>ls.
                    let parent = (case rs_parent_req st of None \<Rightarrow> None | Some a \<Rightarrow> op_parents self a);
                        (parent', i2) = observe_finished_request parent (qs_num_generation_tokens qs) i1
                    in Ok (self\<lparr>op_lora_states := ls,
                                op_parents := (case rs_parent_req st of None \<Rightarrow> op_parents self
                                               | Some a \<Rightarrow> (op_parents self)(a := parent'))\<rparr>, Some i2))))))"

definition detokenize_and_logprobs ::
  "logprob_env \<Rightarrow> engine_core_output \<Rightarrow> request_state \<Rightarrow> (ustring option \<times> request_state) res" where
  "detokenize_and_logprobs env out st =
     (case (rs_detokenizer st, rs_logprobs_processor st) of
        (Some detok, Some lpp) \<Rightarrow>
          rbind (detokenizer_update (eo_new_token_ids out) (eo_finish_reason out = Some STOP) detok) (\<lambda>(stop_string, detok').
          rbind (logprobs_update_from_output env out lpp) (\<lambda>lpp'.
            Ok (stop_string, st\<lparr>rs_detokenizer := Some detok', rs_logprobs_processor := Some lpp'\<rparr>)))
      | _ \<Rightarrow> Err AssertionError)"

record process_acc =
  pa_self :: output_processor
  pa_stats :: "iteration_stats option"
  pa_outputs :: "frontend_output list"
  pa_aborts :: "string list"

definition deliver :: "frontend_output option \<Rightarrow> request_state \<Rightarrow> process_acc \<Rightarrow> process_acc res" where
  "deliver out st acc =
     (case out of
        None \<Rightarrow> Ok acc
      | Some r \<Rightarrow>
          (case rs_queue st of
             None \<Rightarrow> Ok (acc\<lparr>pa_outputs := pa_outputs acc @ [r]\<rparr>)
           | Some a \<Rightarrow>
               rbind (queue_at a (pa_self acc)) (\<lambda>q. rbind (collector_put r q) (\<lambda>q'.
                 Ok (acc\<lparr>pa_self := (pa_self acc)\<lparr>op_queues := (op_queues (pa_self acc))(a \<mapsto> q')\<rparr>\<rparr>)))))"

definition free_completed ::
  "engine_core_output \<Rightarrow> finish_reason \<Rightarrow> request_state \<Rightarrow> process_acc \<Rightarrow> process_acc res" where
  "free_completed out finish_reason st acc =
     (let rid = eo_request_id out;
          self = pa_self acc;
          self1 = self\<lparr>op_request_states := AList.delete rid (op_request_states self)\<rparr>
      in rbind
           (case rs_parent_req st of
              None \<Rightarrow> Ok self1
            | Some a \<Rightarrow> rbind (parent_at a self1) (\<lambda>p.
                Ok (if pr_child_requests p = []
                    then self1\<lparr>op_parent_requests := AList.delete (pr_request_id p) (op_parent_requests self1)\<rparr> else self1)))
           (\<lambda>self2. rbind (op_update_stats_from_finished finish_reason st (self2, pa_stats acc)) (\<lambda>(self3, it).
              Ok (acc\<lparr>pa_self := self3, pa_stats := it,
                      pa_aborts := pa_aborts acc @ (if eo_finish_reason out = None then [rid] else [])\<rparr>))))"

definition process_output :: "logprob_env \<Rightarrow> int option \<Rightarrow> engine_core_output \<Rightarrow> process_acc \<Rightarrow> process_acc res" where
  "process_output env ts out acc =
     (case map_of (op_request_states (pa_self acc)) (eo_request_id out) of
        None \<Rightarrow> Ok acc
      | Some st \<Rightarrow>
          rbind (op_update_stats_from_output out ts st (pa_self acc, pa_stats acc)) (\<lambda>(st1, self1, it).
          let st2 = st1\<lparr>rs_is_prefilling := False\<rparr>
          in rbind (if eo_pooling_output out = None then detokenize_and_logprobs env out st2 else Ok (None, st2))
               (\<lambda>(stop_string, st3).
             let stopped = (case stop_string of Some (c # cs) \<Rightarrow> True | _ \<Rightarrow> False);
                 finish_reason = (if stopped then Some STOP else eo_finish_reason out);
                 stop_why = (if stopped then map_option Stop_String stop_string else map_option Stop_Token (eo_stop_reason out))
             in rbind (make_request_output (eo_new_token_ids out) (eo_pooling_output out) finish_reason stop_why
                         (eo_kv_params out) (eo_num_cached_tokens out) st3 self1) (\<lambda>(r, st4, self2).
                rbind (deliver r st4 (acc\<lparr>pa_self := self2\<lparr>op_request_states :=
                          AList.update (eo_request_id out) st4 (op_request_states self2)\<rparr>, pa_stats := it\<rparr>)) (\<lambda>acc1.
                case finish_reason of None \<Rightarrow> Ok acc1 | Some fr \<Rightarrow> free_completed out fr st4 acc1)))))"

definition process_outputs ::
  "logprob_env \<Rightarrow> engine_core_output list \<Rightarrow> int option \<Rightarrow> iteration_stats option \<Rightarrow> output_processor
   \<Rightarrow> (processor_output \<times> iteration_stats option \<times> output_processor) res" where
  "process_outputs env outs ts it self =
     rbind (rfold (process_output env ts) outs \<lparr>pa_self = self, pa_stats = it, pa_outputs = [], pa_aborts = []\<rparr>) (\<lambda>acc.
       Ok (\<lparr>pp_request_outputs = pa_outputs acc, pp_reqs_to_abort = pa_aborts acc\<rparr>,
           map_option (lora_update_iteration_stats (op_lora_states (pa_self acc))) (pa_stats acc), pa_self acc))"

section \<open>The engine front ends\<close>

text \<open>
  \<open>add_request\<close> of \<open>LLMEngine\<close> and of \<open>AsyncLLM\<close>.  \<open>request\<close> is what \<open>process_inputs\<close> returns, \<open>a\<close> and
  \<open>q\<close> are addresses not in use.  The result lists the requests sent to the engine core.
\<close>

fun fan_out ::
  "nat \<Rightarrow> engine_core_request \<Rightarrow> ustring option \<Rightarrow> nat option \<Rightarrow> int list \<Rightarrow> output_processor
   \<Rightarrow> (engine_core_request list \<times> output_processor) res" where
  "fan_out a request prompt queue [] self = Ok ([], self)"
| "fan_out a request prompt queue (idx # idxs) self =
     rbind (parent_at a self) (\<lambda>p.
     let ((rid, params), p1) = get_child_info idx p;
         child = request\<lparr>ecr_request_id := rid, ecr_sampling := Some params\<rparr>
     in rbind (op_add_request child prompt (Some a) idx queue (self\<lparr>op_parents := (op_parents self)(a \<mapsto> p1)\<rparr>)) (\<lambda>self1.
        rbind (fan_out a request prompt queue idxs self1) (\<lambda>(sent, self2). Ok (child # sent, self2))))"

definition engine_add_request ::
  "string \<Rightarrow> engine_core_request \<Rightarrow> ustring option \<Rightarrow> nat option \<Rightarrow> nat \<Rightarrow> output_processor
   \<Rightarrow> (engine_core_request list \<times> output_processor) res" where
  "engine_add_request rid request prompt queue a self =
     (let n = (case ecr_sampling request of Some params \<Rightarrow> sp_n params | None \<Rightarrow> 1)
      in if n = 1
         then rbind (op_add_request request prompt None 0 queue self) (\<lambda>self1. Ok ([request], self1))
         else case ecr_sampling request of
                None \<Rightarrow> Err AttributeError
              | Some params \<Rightarrow>
                  fan_out a request prompt queue [0..n - 1]
                    (self\<lparr>op_parents := (op_parents self)(a \<mapsto> ParentRequest_init rid params)\<rparr>))"

definition LLMEngine_add_request ::
  "string \<Rightarrow> engine_core_request \<Rightarrow> ustring option \<Rightarrow> nat \<Rightarrow> output_processor
   \<Rightarrow> (engine_core_request list \<times> output_processor) res" where
  "LLMEngine_add_request rid request prompt a self = engine_add_request rid request prompt None a self"

definition AsyncLLM_add_request ::
  "bool \<Rightarrow> string \<Rightarrow> engine_core_request \<Rightarrow> ustring option \<Rightarrow> nat \<Rightarrow> nat \<Rightarrow> output_processor
   \<Rightarrow> (engine_core_request list \<times> output_processor) res" where
  "AsyncLLM_add_request errored rid request prompt a q self =
     (if errored then Err RuntimeError
      else let kind = (case ecr_sampling request of
                         Some params \<Rightarrow> sp_output_kind params
                       | None \<Rightarrow> (case ecr_pooling request of Some k \<Rightarrow> k | None \<Rightarrow> CUMULATIVE))
           in engine_add_request rid request prompt (Some q) a
                (self\<lparr>op_queues := (op_queues self)(q \<mapsto> collector_init kind)\<rparr>))"

text \<open>\<open>LLMEngine.step\<close> after the engine core answered: the outputs and the requests to abort there.\<close>

definition LLMEngine_step_outputs ::
  "logprob_env \<Rightarrow> int \<Rightarrow> int \<Rightarrow> engine_core_output list \<Rightarrow> output_processor
   \<Rightarrow> (frontend_output list \<times> string list \<times> output_processor) res" where
  "LLMEngine_step_outputs env now ts outs self =
     rbind (process_outputs env outs (Some ts) (if op_log_stats self then Some (IterationStats_init now) else None) self)
       (\<lambda>(pp, it, self1). Ok (pp_request_outputs pp, pp_reqs_to_abort pp, self1))"

end
