(* ===== verification/Output_Processing.thy ===== *)
theory Output_Processing
  imports Output_Processor
begin

text \<open>
  What the output processor does to its tables: the requests it knows, the parents, and the
  store of parent objects.  The invariant \<open>op_inv\<close> says that requests and parents point to each
  other; every operation keeps it, and what is told to the engine core is exactly the
  difference between the requests known before and after.
\<close>

section \<open>What one output changes\<close>

text \<open>The fields of a request that processing never changes.\<close>

definition same_request :: "request_state \<Rightarrow> request_state \<Rightarrow> bool" where
  "same_request st st' \<longleftrightarrow> rs_request_id st' = rs_request_id st \<and> rs_parent_req st' = rs_parent_req st \<and>
     rs_request_index st' = rs_request_index st \<and> rs_lora_name st' = rs_lora_name st \<and>
     rs_output_kind st' = rs_output_kind st \<and> rs_queue st' = rs_queue st"

lemma same_request_refl [simp]: "same_request st st"
  by (simp add: same_request_def)

lemma same_request_trans: "same_request a b \<Longrightarrow> same_request b c \<Longrightarrow> same_request a c"
  by (simp add: same_request_def)

lemma same_request_upd [simp]:
  "same_request st (st\<lparr>rs_stats := x\<rparr>)" "same_request st (st\<lparr>rs_is_prefilling := b\<rparr>)"
  "same_request st (st\<lparr>rs_detokenizer := d\<rparr>)" "same_request st (st\<lparr>rs_logprobs_processor := l\<rparr>)"
  by (simp_all add: same_request_def)

lemma update_keys: "set (map fst (AList.update k v d)) = insert k (set (map fst d))"
  by (simp add: dom_map_of_conv_image_fst [symmetric] update_conv')

lemma lora_get_stats_keys:
  assumes "lora_get_stats name ls = (st, ls')"
  shows "set (map fst ls') = (case name of None \<Rightarrow> set (map fst ls) | Some n \<Rightarrow> insert n (set (map fst ls)))"
proof (cases name)
  case None
  with assms show ?thesis by (simp add: lora_get_stats_def)
next
  case (Some n)
  show ?thesis
  proof (cases "map_of ls n")
    case None
    with assms Some have "ls' = AList.update n \<lparr>ls_waiting = {}, ls_running = {}\<rparr> ls"
      by (simp add: lora_get_stats_def Let_def)
    with Some show ?thesis by (simp only: update_keys option.case)
  next
    case st: (Some st')
    then have "n \<in> set (map fst ls)" by (metis domI dom_map_of_conv_image_fst set_map)
    moreover from assms Some st have "ls' = ls" by (simp add: lora_get_stats_def)
    ultimately show ?thesis using Some by auto
  qed
qed

lemma lora_put_keys: "set (map fst ls) \<subseteq> set (map fst (lora_put name st ls))"
  by (auto simp: lora_put_def update_keys simp del: set_map split: option.splits)

lemma op_update_stats_frame:
  assumes "op_update_stats_from_output out ts st (self, it) = Ok (st', self', it')"
  obtains ls where "self' = self\<lparr>op_lora_states := ls\<rparr>" and "set (map fst (op_lora_states self)) \<subseteq> set (map fst ls)"
    and "same_request st st'" and "rs_detokenizer st' = rs_detokenizer st"
    and "rs_logprobs_processor st' = rs_logprobs_processor st"
proof (cases it)
  case None
  with assms have "self' = self\<lparr>op_lora_states := op_lora_states self\<rparr>" "st' = st"
    by (simp_all add: op_update_stats_from_output_def)
  then show thesis by (intro that [of "op_lora_states self"]) simp_all
next
  case (Some i)
  obtain ls states where l: "lora_get_stats (rs_lora_name st) (op_lora_states self) = (ls, states)" by fastforce
  obtain t qs where t: "ts = Some t" "rs_stats st = Some qs"
    using assms Some l by (cases ts; cases "rs_stats st") (auto simp: op_update_stats_from_output_def)
  obtain qs' ls' i' where "st' = st\<lparr>rs_stats := Some qs'\<rparr>"
    "self' = self\<lparr>op_lora_states := lora_put (rs_lora_name st) ls' states\<rparr>"
    using assms Some l t by (auto simp: op_update_stats_from_output_def rbind_eq_Ok)
  moreover have "set (map fst (op_lora_states self)) \<subseteq> set (map fst (lora_put (rs_lora_name st) ls' states))"
    using lora_get_stats_keys [OF l] lora_put_keys [of states] by (auto split: option.splits)
  ultimately show thesis by (intro that) simp_all
qed

lemma detokenize_and_logprobs_frame:
  assumes "detokenize_and_logprobs env out st = Ok (s, st')"
  obtains d d' lpp lpp' where "rs_detokenizer st = Some d" and "rs_logprobs_processor st = Some lpp"
    and "detokenizer_update (eo_new_token_ids out) (eo_finish_reason out = Some STOP) d = Ok (s, d')"
    and "logprobs_update_from_output env out lpp = Ok lpp'"
    and "st' = st\<lparr>rs_detokenizer := Some d', rs_logprobs_processor := Some lpp'\<rparr>"
proof -
  obtain d lpp where d: "rs_detokenizer st = Some d" "rs_logprobs_processor st = Some lpp"
    using assms by (cases "rs_detokenizer st"; cases "rs_logprobs_processor st") (auto simp: detokenize_and_logprobs_def)
  with assms show thesis by (auto simp: detokenize_and_logprobs_def rbind_eq_Ok intro: that)
qed

lemma new_completion_output_frame:
  assumes "new_completion_output toks fr why st = Ok (c, st')"
  obtains d lpp s d' where "rs_detokenizer st = Some d" and "rs_logprobs_processor st = Some lpp"
    and "get_next_output_text (fr \<noteq> None) (rs_output_kind st = DELTA) d = (s, d')"
    and "st' = st\<lparr>rs_detokenizer := Some d'\<rparr>" and "co_text c = s"
    and "co_token_ids c = (if rs_output_kind st = DELTA then toks else output_token_ids_of d')"
    and "co_finished c \<longleftrightarrow> fr \<noteq> None" and "co_index c = rs_request_index st"
proof -
  obtain d lpp where d: "rs_detokenizer st = Some d" "rs_logprobs_processor st = Some lpp"
    using assms by (cases "rs_detokenizer st"; cases "rs_logprobs_processor st") (auto simp: new_completion_output_def)
  obtain s d' where g: "get_next_output_text (fr \<noteq> None) (rs_output_kind st = DELTA) d = (s, d')" by fastforce
  have "st' = st\<lparr>rs_detokenizer := Some d'\<rparr>" "co_text c = s" "co_index c = rs_request_index st"
    "co_token_ids c = (if rs_output_kind st = DELTA then toks else output_token_ids_of d')" "co_finished c \<longleftrightarrow> fr \<noteq> None"
    using assms d g by (auto simp: new_completion_output_def Let_def co_finished_def)
  with d g show thesis by (intro that)
qed

lemma new_request_output_frame:
  assumes "new_request_output rid outs fin kv n st = Ok (r, st')"
  obtains ro lpp where "r = Completion_Output ro" and "ro_outputs ro = outs" and "ro_finished ro = fin"
    and "ro_request_id ro = rid" and "st' = st\<lparr>rs_logprobs_processor := Some lpp\<rparr>"
  using assms
  by (auto simp: new_request_output_def Let_def split: if_splits option.splits prod.splits intro: that)

text \<open>Two states of a parent with the same identity and children.\<close>

definition same_family :: "parent_request \<Rightarrow> parent_request \<Rightarrow> bool" where
  "same_family p p' \<longleftrightarrow> pr_request_id p' = pr_request_id p \<and> pr_child_requests p' = pr_child_requests p"

lemma parent_get_outputs_frame:
  assumes "parent_get_outputs k c p = Ok (r, p')"
  shows "co_finished c \<Longrightarrow> k \<in> set (pr_child_requests p) \<and> pr_request_id p' = pr_request_id p \<and>
      pr_child_requests p' = remove1 k (pr_child_requests p)"
    and "\<not> co_finished c \<Longrightarrow> same_family p p'"
proof -
  obtain p1 where p1: "(if co_finished c then if k \<in> set (pr_child_requests p)
        then Ok (p\<lparr>pr_child_requests := remove1 k (pr_child_requests p)\<rparr>) else Err KeyError else Ok p) = Ok p1"
    and rest: "(if sp_output_kind (pr_sampling_params p1) \<noteq> FINAL_ONLY
             then Ok ((pr_request_id p1, [Some c], pr_child_requests p1 = []), p1)
             else rbind (list_assign (pr_output_aggregator p1) (co_index c) (Some c)) (\<lambda>agg.
                  let p2 = p1\<lparr>pr_output_aggregator := agg\<rparr>
                  in Ok ((pr_request_id p2, if pr_child_requests p2 \<noteq> [] then [] else agg, pr_child_requests p2 = []), p2)))
       = Ok (r, p')"
    using assms unfolding parent_get_outputs_def rbind_eq_Ok by blast
  have "same_family p1 p'" using rest
    by (cases "sp_output_kind (pr_sampling_params p1) = FINAL_ONLY") (auto simp: rbind_eq_Ok Let_def same_family_def)
  then show "co_finished c \<Longrightarrow> k \<in> set (pr_child_requests p) \<and> pr_request_id p' = pr_request_id p \<and>
      pr_child_requests p' = remove1 k (pr_child_requests p)" and "\<not> co_finished c \<Longrightarrow> same_family p p'"
    using p1 by (auto simp: same_family_def split: if_splits)
qed

text \<open>
  Making the output of a request changes of the processor only the parent of the request, and
  takes a child that finished from it.
\<close>

lemma make_request_output_frame:
  assumes "make_request_output toks pooled fr why kv n st self = Ok (r, st', self')" and "rs_request_id st = k"
  obtains H where "self' = self\<lparr>op_parents := H\<rparr>" and "same_request st st'"
    and "rs_parent_req st = None \<longrightarrow> H = op_parents self"
    and "\<forall>a. rs_parent_req st = Some a \<and> fr = None \<longrightarrow> H = op_parents self \<or>
           (\<exists>p p'. op_parents self a = Some p \<and> same_family p p' \<and> H = (op_parents self)(a \<mapsto> p'))"
    and "\<forall>a. rs_parent_req st = Some a \<and> fr \<noteq> None \<and> pooled = None \<longrightarrow>
           (\<exists>p p'. op_parents self a = Some p \<and> k \<in> set (pr_child_requests p) \<and> pr_request_id p' = pr_request_id p \<and>
              pr_child_requests p' = remove1 k (pr_child_requests p) \<and> H = (op_parents self)(a \<mapsto> p'))"
proof (cases "(fr = None \<and> rs_output_kind st = FINAL_ONLY) \<or> pooled \<noteq> None")
  case True
  with assms have "self' = self\<lparr>op_parents := op_parents self\<rparr>" "st' = st"
    by (auto simp: make_request_output_def Let_def split: if_splits option.splits)
  with True show thesis by (intro that [of "op_parents self"]) auto
next
  case False
  then obtain c st1 where c: "new_completion_output toks fr why st = Ok (c, st1)" and
    rest: "(case rs_parent_req st1 of
        None \<Rightarrow> rbind (new_request_output (rs_request_id st1) [Some c] (fr \<noteq> None) kv n st1) (\<lambda>(r, st2). Ok (Some r, st2, self))
      | Some a \<Rightarrow>
          rbind (parent_at a self) (\<lambda>p.
          rbind (parent_get_outputs (rs_request_id st1) c p) (\<lambda>((rid, outputs, fin), p1).
          let self1 = self\<lparr>op_parents := (op_parents self)(a \<mapsto> p1)\<rparr>
          in if outputs = [] then Ok (None, st1, self1)
             else rbind (new_request_output rid outputs fin kv n st1) (\<lambda>(r, st2). Ok (Some r, st2, self1)))))
      = Ok (r, st', self')"
    using assms(1) unfolding make_request_output_def Let_def by (auto simp: rbind_eq_Ok split: if_splits)
  from c have st1: "same_request st st1" and fin: "co_finished c \<longleftrightarrow> fr \<noteq> None"
    by (auto elim!: new_completion_output_frame)
  show thesis
  proof (cases "rs_parent_req st")
    case None
    with st1 rest obtain r' where "new_request_output (rs_request_id st1) [Some c] (fr \<noteq> None) kv n st1 = Ok (r', st')"
      "self' = self" by (auto simp: rbind_eq_Ok same_request_def)
    moreover from this(1) have "same_request st1 st'" by (auto elim!: new_request_output_frame)
    ultimately show thesis using None st1 by (intro that [of "op_parents self"]) (auto intro: same_request_trans)
  next
    case (Some a)
    with st1 have a: "rs_parent_req st1 = Some a" "rs_request_id st1 = k" using assms(2) by (simp_all add: same_request_def)
    from rest obtain p rid outs f p1 where p: "op_parents self a = Some p"
      and g: "parent_get_outputs k c p = Ok ((rid, outs, f), p1)"
      and out: "(if outs = [] then Ok (None, st1, self\<lparr>op_parents := (op_parents self)(a \<mapsto> p1)\<rparr>)
         else rbind (new_request_output rid outs f kv n st1) (\<lambda>(r, st2). Ok (Some r, st2, self\<lparr>op_parents := (op_parents self)(a \<mapsto> p1)\<rparr>)))
         = Ok (r, st', self')"
      unfolding a option.case by (auto simp: rbind_eq_Ok parent_at_def Let_def split: option.splits)
    have "self' = self\<lparr>op_parents := (op_parents self)(a \<mapsto> p1)\<rparr> \<and> same_request st1 st'"
      using out by (cases "outs = []") (auto simp: rbind_eq_Ok elim!: new_request_output_frame)
    moreover note parent_get_outputs_frame [OF g, unfolded fin]
    ultimately show thesis using Some p st1
      by (intro that [of "(op_parents self)(a \<mapsto> p1)"]) (auto intro: same_request_trans)
  qed
qed

lemma deliver_frame:
  assumes "deliver r st acc = Ok acc'"
  obtains Q outs where "acc' = acc\<lparr>pa_self := (pa_self acc)\<lparr>op_queues := Q\<rparr>, pa_outputs := outs\<rparr>"
    and "rs_queue st = None \<longrightarrow> outs = pa_outputs acc @ (case r of None \<Rightarrow> [] | Some x \<Rightarrow> [x])"
proof (cases "r = None \<or> rs_queue st = None")
  case True
  with assms show thesis
    by (intro that [where Q = "op_queues (pa_self acc)" and outs = "pa_outputs acc'"]) (auto simp: deliver_def split: option.splits)
next
  case False
  then obtain x a where x: "r = Some x" "rs_queue st = Some a" by auto
  with assms obtain q' where "acc' = acc\<lparr>pa_self := (pa_self acc)\<lparr>op_queues := (op_queues (pa_self acc))(a \<mapsto> q')\<rparr>\<rparr>"
    by (auto simp: deliver_def rbind_eq_Ok)
  with x show thesis by (intro that [where Q = "(op_queues (pa_self acc))(a \<mapsto> q')" and outs = "pa_outputs acc"]) simp_all
qed

lemma lora_finish_keys: "lora_finish_request name rid ls = Ok ls' \<Longrightarrow> set (map fst ls) \<subseteq> set (map fst ls')"
  by (auto simp: lora_finish_request_def rbind_eq_Ok update_keys simp del: set_map split: option.splits if_splits)

lemma observe_finished_family:
  assumes "observe_finished_request parent num it = (parent', it')"
  shows "parent = None \<Longrightarrow> parent' = None"
    and "parent = Some p \<Longrightarrow> \<exists>p'. parent' = Some p' \<and> same_family p p'"
  using assms
  by (auto simp: observe_finished_request_def observe_num_generation_tokens_def same_family_def Let_def split: option.splits)

text \<open>A store that differs only in what does not matter for the family of one parent.\<close>

definition family_upd :: "(nat \<Rightarrow> parent_request option) \<Rightarrow> (nat \<Rightarrow> parent_request option) \<Rightarrow> bool" where
  "family_upd H H' \<longleftrightarrow> (\<forall>a. (H a = None \<longleftrightarrow> H' a = None) \<and> (\<forall>p p'. H a = Some p \<and> H' a = Some p' \<longrightarrow> same_family p p'))"

lemma family_upd_refl [simp]: "family_upd H H"
  by (auto simp: family_upd_def same_family_def)

lemma family_upd_trans: "family_upd H H1 \<Longrightarrow> family_upd H1 H2 \<Longrightarrow> family_upd H H2"
  unfolding family_upd_def same_family_def by (metis option.exhaust)

lemma family_upd_one: "H a = Some p \<Longrightarrow> same_family p p' \<Longrightarrow> family_upd H (H(a \<mapsto> p'))"
  by (auto simp: family_upd_def same_family_def)

lemma stats_from_finished_frame:
  assumes "op_update_stats_from_finished fr st (self, it) = Ok (self', it')"
  obtains ls H where "self' = self\<lparr>op_lora_states := ls, op_parents := H\<rparr>"
    and "set (map fst (op_lora_states self)) \<subseteq> set (map fst ls)" and "family_upd (op_parents self) H"
proof (cases it)
  case None
  with assms show thesis
    by (intro that [where ls = "op_lora_states self" and H = "op_parents self"]) (simp_all add: op_update_stats_from_finished_def)
next
  case (Some i)
  obtain qs where qs: "rs_stats st = Some qs"
    using assms Some by (cases "rs_stats st") (auto simp: op_update_stats_from_finished_def)
  let ?i = "update_from_finished_request fr (int (length (rs_prompt_token_ids st))) (rs_max_tokens_param st) qs i"
  let ?parent = "case rs_parent_req st of None \<Rightarrow> None | Some a \<Rightarrow> op_parents self a"
  obtain parent' i2 where ob: "observe_finished_request ?parent (qs_num_generation_tokens qs) ?i = (parent', i2)" by fastforce
  obtain ls where ls: "lora_finish_request (rs_lora_name st) (rs_request_id st) (op_lora_states self) = Ok ls"
    and self': "self' = self\<lparr>op_lora_states := ls, op_parents := (case rs_parent_req st of None \<Rightarrow> op_parents self
        | Some a \<Rightarrow> (op_parents self)(a := parent'))\<rparr>"
    using assms Some qs ob by (auto simp: op_update_stats_from_finished_def rbind_eq_Ok Let_def)
  have "family_upd (op_parents self) (case rs_parent_req st of None \<Rightarrow> op_parents self | Some a \<Rightarrow> (op_parents self)(a := parent'))"
  proof (cases "rs_parent_req st")
    case (Some a)
    then show ?thesis using observe_finished_family [OF ob]
      by (cases "op_parents self a") (auto simp: family_upd_one fun_upd_idem)
  qed simp
  with self' lora_finish_keys [OF ls] show thesis by (rule that)
qed

text \<open>One output of a request that is known: it goes on, or it is forgotten.\<close>

definition kept_fields :: "output_processor \<Rightarrow> output_processor \<Rightarrow> bool" where
  "kept_fields self self' \<longleftrightarrow> op_log_stats self' = op_log_stats self \<and> op_tokenizer self' = op_tokenizer self \<and>
     set (map fst (op_lora_states self)) \<subseteq> set (map fst (op_lora_states self'))"

lemma kept_fields_trans: "kept_fields a b \<Longrightarrow> kept_fields b c \<Longrightarrow> kept_fields a c"
  using subset_trans [of "set (map fst (op_lora_states a))" "set (map fst (op_lora_states b))"
    "set (map fst (op_lora_states c))"] by (simp add: kept_fields_def del: set_map)

definition after_running :: "string \<Rightarrow> request_state \<Rightarrow> process_acc \<Rightarrow> process_acc \<Rightarrow> bool" where
  "after_running k st' acc acc' \<longleftrightarrow>
     op_request_states (pa_self acc') = AList.update k st' (op_request_states (pa_self acc)) \<and>
     op_parent_requests (pa_self acc') = op_parent_requests (pa_self acc) \<and>
     family_upd (op_parents (pa_self acc)) (op_parents (pa_self acc')) \<and> pa_aborts acc' = pa_aborts acc"

definition after_finished :: "string \<Rightarrow> request_state \<Rightarrow> bool \<Rightarrow> process_acc \<Rightarrow> process_acc \<Rightarrow> bool" where
  "after_finished k st by_engine acc acc' \<longleftrightarrow>
     op_request_states (pa_self acc') = AList.delete k (op_request_states (pa_self acc)) \<and>
     pa_aborts acc' = pa_aborts acc @ (if by_engine then [] else [k]) \<and>
     (rs_parent_req st = None \<longrightarrow> op_parent_requests (pa_self acc') = op_parent_requests (pa_self acc) \<and>
        family_upd (op_parents (pa_self acc)) (op_parents (pa_self acc'))) \<and>
     (\<forall>a. rs_parent_req st = Some a \<longrightarrow> (\<exists>p p'. op_parents (pa_self acc) a = Some p \<and> k \<in> set (pr_child_requests p) \<and>
        pr_request_id p' = pr_request_id p \<and> pr_child_requests p' = remove1 k (pr_child_requests p) \<and>
        family_upd ((op_parents (pa_self acc))(a \<mapsto> p')) (op_parents (pa_self acc')) \<and>
        op_parent_requests (pa_self acc') =
          (if pr_child_requests p' = [] then AList.delete (pr_request_id p) (op_parent_requests (pa_self acc))
           else op_parent_requests (pa_self acc))))"

lemma free_completed_frame:
  assumes "free_completed out fr st acc = Ok acc'" and "eo_request_id out = k"
  obtains "kept_fields (pa_self acc) (pa_self acc')"
    and "op_request_states (pa_self acc') = AList.delete k (op_request_states (pa_self acc))"
    and "pa_aborts acc' = pa_aborts acc @ (if eo_finish_reason out = None then [k] else [])"
    and "family_upd (op_parents (pa_self acc)) (op_parents (pa_self acc'))"
    and "op_parent_requests (pa_self acc') =
      (case rs_parent_req st of None \<Rightarrow> op_parent_requests (pa_self acc)
       | Some a \<Rightarrow> (case op_parents (pa_self acc) a of None \<Rightarrow> op_parent_requests (pa_self acc)
           | Some p \<Rightarrow> if pr_child_requests p = [] then AList.delete (pr_request_id p) (op_parent_requests (pa_self acc))
                       else op_parent_requests (pa_self acc)))"
    and "pa_outputs acc' = pa_outputs acc" and "\<forall>a. rs_parent_req st = Some a \<longrightarrow> op_parents (pa_self acc) a \<noteq> None"
proof -
  let ?s1 = "(pa_self acc)\<lparr>op_request_states := AList.delete k (op_request_states (pa_self acc))\<rparr>"
  obtain s2 s3 it where
    s2: "(case rs_parent_req st of None \<Rightarrow> Ok ?s1 | Some a \<Rightarrow> rbind (parent_at a ?s1) (\<lambda>p.
        Ok (if pr_child_requests p = []
            then ?s1\<lparr>op_parent_requests := AList.delete (pr_request_id p) (op_parent_requests ?s1)\<rparr> else ?s1))) = Ok s2"
    and s3: "op_update_stats_from_finished fr st (s2, pa_stats acc) = Ok (s3, it)"
    and acc': "acc' = acc\<lparr>pa_self := s3, pa_stats := it,
        pa_aborts := pa_aborts acc @ (if eo_finish_reason out = None then [k] else [])\<rparr>"
    using assms unfolding free_completed_def Let_def rbind_eq_Ok by (auto simp del: option.case)
  from s3 obtain ls H where s3': "s3 = s2\<lparr>op_lora_states := ls, op_parents := H\<rparr>"
    "set (map fst (op_lora_states s2)) \<subseteq> set (map fst ls)" "family_upd (op_parents s2) H"
    by (rule stats_from_finished_frame)
  have "op_parents s2 = op_parents (pa_self acc) \<and> op_request_states s2 = op_request_states ?s1 \<and>
      op_lora_states s2 = op_lora_states (pa_self acc) \<and> op_log_stats s2 = op_log_stats (pa_self acc) \<and>
      op_tokenizer s2 = op_tokenizer (pa_self acc) \<and>
      (\<forall>a. rs_parent_req st = Some a \<longrightarrow> op_parents (pa_self acc) a \<noteq> None) \<and>
      op_parent_requests s2 = (case rs_parent_req st of None \<Rightarrow> op_parent_requests (pa_self acc)
       | Some a \<Rightarrow> (case op_parents (pa_self acc) a of None \<Rightarrow> op_parent_requests (pa_self acc)
           | Some p \<Rightarrow> if pr_child_requests p = [] then AList.delete (pr_request_id p) (op_parent_requests (pa_self acc))
                       else op_parent_requests (pa_self acc)))"
    using s2 by (cases "rs_parent_req st"; cases "op_parents (pa_self acc) (the (rs_parent_req st))")
      (auto simp: rbind_eq_Ok parent_at_def)
  with s3' acc' show thesis by (intro that) (simp_all add: kept_fields_def)
qed

text \<open>The steps of \<open>process_output\<close> for a request it knows.\<close>

lemma process_output_steps:
  assumes "process_output env ts out acc = Ok acc'" and "map_of (op_request_states (pa_self acc)) (eo_request_id out) = Some st"
  obtains st1 self1 it stop st3 fr why r st4 self2 acc1 where
    "op_update_stats_from_output out ts st (pa_self acc, pa_stats acc) = Ok (st1, self1, it)"
    and "(if eo_pooling_output out = None then detokenize_and_logprobs env out (st1\<lparr>rs_is_prefilling := False\<rparr>)
          else Ok (None, st1\<lparr>rs_is_prefilling := False\<rparr>)) = Ok (stop, st3)"
    and "fr = (case stop of Some (c # cs) \<Rightarrow> Some STOP | _ \<Rightarrow> eo_finish_reason out)"
    and "make_request_output (eo_new_token_ids out) (eo_pooling_output out) fr why (eo_kv_params out)
           (eo_num_cached_tokens out) st3 self1 = Ok (r, st4, self2)"
    and "deliver r st4 (acc\<lparr>pa_self := self2\<lparr>op_request_states :=
           AList.update (eo_request_id out) st4 (op_request_states self2)\<rparr>, pa_stats := it\<rparr>) = Ok acc1"
    and "(case fr of None \<Rightarrow> Ok acc1 | Some f \<Rightarrow> free_completed out f st4 acc1) = Ok acc'"
proof -
  obtain st1 self1 it where a: "op_update_stats_from_output out ts st (pa_self acc, pa_stats acc) = Ok (st1, self1, it)"
    using assms unfolding process_output_def by (cases "op_update_stats_from_output out ts st (pa_self acc, pa_stats acc)") auto
  let ?st2 = "st1\<lparr>rs_is_prefilling := False\<rparr>"
  let ?m = "if eo_pooling_output out = None then detokenize_and_logprobs env out ?st2 else Ok (None, ?st2)"
  obtain stop st3 where b: "?m = Ok (stop, st3)"
    using assms a unfolding process_output_def by (cases ?m) (auto simp: Let_def)
  define stopped where "stopped = (case stop of Some (c # cs) \<Rightarrow> True | _ \<Rightarrow> False)"
  define fr where "fr = (if stopped then Some STOP else eo_finish_reason out)"
  define why where "why = (if stopped then map_option Stop_String stop else map_option Stop_Token (eo_stop_reason out))"
  have rest: "rbind (make_request_output (eo_new_token_ids out) (eo_pooling_output out) fr why (eo_kv_params out)
      (eo_num_cached_tokens out) st3 self1) (\<lambda>(r, st4, self2).
        rbind (deliver r st4 (acc\<lparr>pa_self := self2\<lparr>op_request_states :=
           AList.update (eo_request_id out) st4 (op_request_states self2)\<rparr>, pa_stats := it\<rparr>)) (\<lambda>acc1.
        case fr of None \<Rightarrow> Ok acc1 | Some f \<Rightarrow> free_completed out f st4 acc1)) = Ok acc'"
    using assms unfolding process_output_def fr_def why_def stopped_def option.case assms(2)
    by (simp only: a b rbind.simps prod.case Let_def)
  have fr: "fr = (case stop of Some (c # cs) \<Rightarrow> Some STOP | _ \<Rightarrow> eo_finish_reason out)"
    by (simp add: fr_def stopped_def split: option.splits list.splits)
  from rest a b fr show thesis unfolding rbind_eq_Ok by (elim exE conjE) (auto simp: rbind_eq_Ok intro: that split: prod.splits)
qed

lemma delete_update_same: "AList.delete k (AList.update k v d) = AList.delete k d"
  by (induction d) auto

text \<open>What has changed when the output is delivered and a finished request not yet forgotten.\<close>

lemma process_output_delivered:
  assumes "process_output env ts out acc = Ok acc'" and "map_of (op_request_states (pa_self acc)) k = Some st"
    and "eo_request_id out = k" and "rs_request_id st = k"
  obtains st4 fr acc1 where "same_request st st4" and "kept_fields (pa_self acc) (pa_self acc1)"
    and "op_request_states (pa_self acc1) = AList.update k st4 (op_request_states (pa_self acc))"
    and "op_parent_requests (pa_self acc1) = op_parent_requests (pa_self acc)" and "pa_aborts acc1 = pa_aborts acc"
    and "(case fr of None \<Rightarrow> Ok acc1 | Some f \<Rightarrow> free_completed out f st4 acc1) = Ok acc'"
    and "fr = None \<longrightarrow> eo_finish_reason out = None"
    and "rs_parent_req st = None \<or> fr = None \<longrightarrow> family_upd (op_parents (pa_self acc)) (op_parents (pa_self acc1))"
    and "\<forall>a. rs_parent_req st = Some a \<and> fr \<noteq> None \<and> eo_pooling_output out = None \<longrightarrow>
       (\<exists>p p'. op_parents (pa_self acc) a = Some p \<and> k \<in> set (pr_child_requests p) \<and> pr_request_id p' = pr_request_id p \<and>
          pr_child_requests p' = remove1 k (pr_child_requests p) \<and>
          op_parents (pa_self acc1) = (op_parents (pa_self acc))(a \<mapsto> p'))"
proof -
  from assms(1) assms(2) [folded assms(3)] obtain st1 self1 it stop st3 fr why r st4 self2 acc1 where
    a: "op_update_stats_from_output out ts st (pa_self acc, pa_stats acc) = Ok (st1, self1, it)"
    and b: "(if eo_pooling_output out = None then detokenize_and_logprobs env out (st1\<lparr>rs_is_prefilling := False\<rparr>)
          else Ok (None, st1\<lparr>rs_is_prefilling := False\<rparr>)) = Ok (stop, st3)"
    and fr: "fr = (case stop of Some (c # cs) \<Rightarrow> Some STOP | _ \<Rightarrow> eo_finish_reason out)"
    and m: "make_request_output (eo_new_token_ids out) (eo_pooling_output out) fr why (eo_kv_params out)
           (eo_num_cached_tokens out) st3 self1 = Ok (r, st4, self2)"
    and d: "deliver r st4 (acc\<lparr>pa_self := self2\<lparr>op_request_states :=
           AList.update (eo_request_id out) st4 (op_request_states self2)\<rparr>, pa_stats := it\<rparr>) = Ok acc1"
    and e: "(case fr of None \<Rightarrow> Ok acc1 | Some f \<Rightarrow> free_completed out f st4 acc1) = Ok acc'"
    by (rule process_output_steps)
  from a obtain ls where ls: "self1 = (pa_self acc)\<lparr>op_lora_states := ls\<rparr>"
    "set (map fst (op_lora_states (pa_self acc))) \<subseteq> set (map fst ls)" and st1: "same_request st st1"
    by (rule op_update_stats_frame)
  have "same_request st1 st3"
    using b by (cases "eo_pooling_output out = None") (auto elim!: detokenize_and_logprobs_frame simp: same_request_def)
  with st1 have st3: "same_request st st3" by (rule same_request_trans)
  then have k3: "rs_request_id st3 = k" and p3: "rs_parent_req st3 = rs_parent_req st" using assms(4) by (simp_all add: same_request_def)
  from m k3 obtain H where H: "self2 = self1\<lparr>op_parents := H\<rparr>" "same_request st3 st4"
    "rs_parent_req st = None \<longrightarrow> H = op_parents self1"
    "\<forall>a. rs_parent_req st = Some a \<and> fr = None \<longrightarrow> H = op_parents self1 \<or>
       (\<exists>p p'. op_parents self1 a = Some p \<and> same_family p p' \<and> H = (op_parents self1)(a \<mapsto> p'))"
    "\<forall>a. rs_parent_req st = Some a \<and> fr \<noteq> None \<and> eo_pooling_output out = None \<longrightarrow>
       (\<exists>p p'. op_parents self1 a = Some p \<and> k \<in> set (pr_child_requests p) \<and> pr_request_id p' = pr_request_id p \<and>
          pr_child_requests p' = remove1 k (pr_child_requests p) \<and> H = (op_parents self1)(a \<mapsto> p'))"
    unfolding p3 [symmetric] by (rule make_request_output_frame)
  let ?acc = "acc\<lparr>pa_self := self2\<lparr>op_request_states := AList.update k st4 (op_request_states self2)\<rparr>, pa_stats := it\<rparr>"
  from d obtain Q outs where acc1: "acc1 = ?acc\<lparr>pa_self := (pa_self ?acc)\<lparr>op_queues := Q\<rparr>, pa_outputs := outs\<rparr>"
    unfolding assms(3) by (rule deliver_frame)
  have "rs_parent_req st = None \<or> fr = None \<longrightarrow> family_upd (op_parents (pa_self acc)) (op_parents (pa_self acc1))"
    using H(1,3,4) ls(1) acc1 by (cases "rs_parent_req st") (auto intro: family_upd_one)
  moreover have "fr = None \<longrightarrow> eo_finish_reason out = None" using fr by (simp split: option.splits list.splits)
  moreover have "kept_fields (pa_self acc) (pa_self acc1)" using acc1 H(1) ls by (simp add: kept_fields_def)
  ultimately show thesis using same_request_trans [OF st3 H(2)] e acc1 H(1,5) ls(1) by (intro that [of st4 acc1 fr]) simp_all
qed

lemma process_output_frame:
  assumes "process_output env ts out acc = Ok acc'" and "map_of (op_request_states (pa_self acc)) k = Some st"
    and "eo_request_id out = k" and "rs_request_id st = k" and "rs_parent_req st \<noteq> None \<longrightarrow> eo_pooling_output out = None"
  obtains st' where "kept_fields (pa_self acc) (pa_self acc')" and "same_request st st'" and "after_running k st' acc acc'"
      and "eo_finish_reason out = None"
    | "kept_fields (pa_self acc) (pa_self acc')" and "after_finished k st (eo_finish_reason out \<noteq> None) acc acc'"
proof (rule process_output_delivered [OF assms(1-4)])
  fix st4 fr acc1
  assume st4: "same_request st st4" and kept: "kept_fields (pa_self acc) (pa_self acc1)"
    and acc1: "op_request_states (pa_self acc1) = AList.update k st4 (op_request_states (pa_self acc))"
      "op_parent_requests (pa_self acc1) = op_parent_requests (pa_self acc)" "pa_aborts acc1 = pa_aborts acc"
    and e: "(case fr of None \<Rightarrow> Ok acc1 | Some f \<Rightarrow> free_completed out f st4 acc1) = Ok acc'"
    and fin: "fr = None \<longrightarrow> eo_finish_reason out = None"
    and fam: "rs_parent_req st = None \<or> fr = None \<longrightarrow> family_upd (op_parents (pa_self acc)) (op_parents (pa_self acc1))"
    and par: "\<forall>a. rs_parent_req st = Some a \<and> fr \<noteq> None \<and> eo_pooling_output out = None \<longrightarrow>
       (\<exists>p p'. op_parents (pa_self acc) a = Some p \<and> k \<in> set (pr_child_requests p) \<and> pr_request_id p' = pr_request_id p \<and>
          pr_child_requests p' = remove1 k (pr_child_requests p) \<and>
          op_parents (pa_self acc1) = (op_parents (pa_self acc))(a \<mapsto> p'))"
  show thesis
  proof (cases fr)
    case None
    with e acc1 fam have "after_running k st4 acc acc'" "acc' = acc1" by (simp_all add: after_running_def)
    with kept st4 fin None show thesis by (intro that(1)) simp_all
  next
    case (Some f)
    with e have "free_completed out f st4 acc1 = Ok acc'" by simp
    then show thesis
    proof (rule free_completed_frame [OF _ assms(3)])
      assume k: "kept_fields (pa_self acc1) (pa_self acc')"
        and f: "op_request_states (pa_self acc') = AList.delete k (op_request_states (pa_self acc1))"
        "pa_aborts acc' = pa_aborts acc1 @ (if eo_finish_reason out = None then [k] else [])"
        "family_upd (op_parents (pa_self acc1)) (op_parents (pa_self acc'))"
        "op_parent_requests (pa_self acc') =
          (case rs_parent_req st4 of None \<Rightarrow> op_parent_requests (pa_self acc1)
           | Some a \<Rightarrow> (case op_parents (pa_self acc1) a of None \<Rightarrow> op_parent_requests (pa_self acc1)
               | Some p \<Rightarrow> if pr_child_requests p = [] then AList.delete (pr_request_id p) (op_parent_requests (pa_self acc1))
                           else op_parent_requests (pa_self acc1)))"
      have "kept_fields (pa_self acc) (pa_self acc')" using kept k by (rule kept_fields_trans)
      moreover have "after_finished k st (eo_finish_reason out \<noteq> None) acc acc'"
      proof (cases "rs_parent_req st")
        case None
        with f acc1 st4 fam show ?thesis
          by (auto simp: after_finished_def delete_update_same same_request_def intro: family_upd_trans)
      next
        case (Some a)
        with par assms(5) \<open>fr = Some f\<close> obtain p p' where
          "op_parents (pa_self acc) a = Some p" "k \<in> set (pr_child_requests p)" "pr_request_id p' = pr_request_id p"
          "pr_child_requests p' = remove1 k (pr_child_requests p)" "op_parents (pa_self acc1) = (op_parents (pa_self acc))(a \<mapsto> p')"
          by auto
        moreover from this f(3,4) acc1(2) st4 Some have
          "family_upd ((op_parents (pa_self acc))(a \<mapsto> p')) (op_parents (pa_self acc'))"
          "op_parent_requests (pa_self acc') =
            (if pr_child_requests p' = [] then AList.delete (pr_request_id p) (op_parent_requests (pa_self acc))
             else op_parent_requests (pa_self acc))" by (simp_all add: same_request_def)
        ultimately show ?thesis using f(1,2) acc1 Some unfolding after_finished_def
          by (intro conjI allI impI exI [of _ p] exI [of _ p']) (simp_all add: delete_update_same)
      qed
      ultimately show thesis by (rule that(2))
    qed
  qed
qed


section \<open>Requests and their parents\<close>

text \<open>
  The tables agree: a request with a parent is one of its children and the parent is in the
  table; a parent in the table has children, and all of them are known.
\<close>

definition linked ::
  "(string \<Rightarrow> request_state option) \<Rightarrow> (string \<Rightarrow> nat option) \<Rightarrow> (nat \<Rightarrow> parent_request option) \<Rightarrow> bool" where
  "linked S P H \<longleftrightarrow>
     (\<forall>k st. S k = Some st \<longrightarrow> rs_request_id st = k) \<and>
     (\<forall>k st a. S k = Some st \<and> rs_parent_req st = Some a \<longrightarrow>
        (\<exists>p. H a = Some p \<and> k \<in> set (pr_child_requests p) \<and> P (pr_request_id p) = Some a)) \<and>
     (\<forall>i a. P i = Some a \<longrightarrow> (\<exists>p. H a = Some p \<and> pr_request_id p = i \<and> pr_child_requests p \<noteq> [] \<and>
        distinct (pr_child_requests p) \<and>
        (\<forall>c \<in> set (pr_child_requests p). \<exists>st. S c = Some st \<and> rs_parent_req st = Some a)))"

lemma linked_id: "linked S P H \<Longrightarrow> S k = Some st \<Longrightarrow> rs_request_id st = k"
  by (simp add: linked_def)

lemma linked_parent:
  assumes "linked S P H" and "S k = Some st" and "rs_parent_req st = Some a"
  obtains p where "H a = Some p" and "k \<in> set (pr_child_requests p)" and "P (pr_request_id p) = Some a"
  using assms unfolding linked_def by blast

lemma linked_table:
  assumes "linked S P H" and "P i = Some a"
  obtains p where "H a = Some p" and "pr_request_id p = i" and "pr_child_requests p \<noteq> []"
    and "distinct (pr_child_requests p)"
    and "\<forall>c \<in> set (pr_child_requests p). \<exists>st. S c = Some st \<and> rs_parent_req st = Some a"
  using assms unfolding linked_def by blast

lemma linkedI:
  assumes "\<And>k st. S k = Some st \<Longrightarrow> rs_request_id st = k"
    and "\<And>k st a. S k = Some st \<Longrightarrow> rs_parent_req st = Some a \<Longrightarrow>
        \<exists>p. H a = Some p \<and> k \<in> set (pr_child_requests p) \<and> P (pr_request_id p) = Some a"
    and "\<And>i a. P i = Some a \<Longrightarrow> \<exists>p. H a = Some p \<and> pr_request_id p = i \<and> pr_child_requests p \<noteq> [] \<and>
        distinct (pr_child_requests p) \<and>
        (\<forall>c \<in> set (pr_child_requests p). \<exists>st. S c = Some st \<and> rs_parent_req st = Some a)"
  shows "linked S P H"
  using assms unfolding linked_def by blast

lemma linked_family:
  assumes "linked S P H" and "family_upd H H'"
  shows "linked S P H'"
proof -
  have get: "\<exists>p'. H' a = Some p' \<and> same_family p p'" if "H a = Some p" for a p
    using assms(2) that unfolding family_upd_def by (metis option.exhaust option.distinct(1))
  show ?thesis
  proof (rule linkedI)
    fix k st assume "S k = Some st"
    then show "rs_request_id st = k" using assms(1) by (rule linked_id [rotated])
  next
    fix k st a assume st: "S k = Some st" "rs_parent_req st = Some a"
    obtain p where p: "H a = Some p" "k \<in> set (pr_child_requests p)" "P (pr_request_id p) = Some a"
      by (rule linked_parent [OF assms(1) st])
    from get [OF p(1)] p(2,3) show "\<exists>p. H' a = Some p \<and> k \<in> set (pr_child_requests p) \<and> P (pr_request_id p) = Some a"
      by (auto simp: same_family_def)
  next
    fix i a assume i: "P i = Some a"
    obtain p where p: "H a = Some p" "pr_request_id p = i" "pr_child_requests p \<noteq> []" "distinct (pr_child_requests p)"
      "\<forall>c \<in> set (pr_child_requests p). \<exists>st. S c = Some st \<and> rs_parent_req st = Some a"
      by (rule linked_table [OF assms(1) i])
    from get [OF p(1)] p(2-5) show "\<exists>p. H' a = Some p \<and> pr_request_id p = i \<and> pr_child_requests p \<noteq> [] \<and>
        distinct (pr_child_requests p) \<and> (\<forall>c \<in> set (pr_child_requests p). \<exists>st. S c = Some st \<and> rs_parent_req st = Some a)"
      by (auto simp: same_family_def)
  qed
qed

lemma linked_same:
  assumes "linked S P H" and "S k = Some st" and "same_request st st'"
  shows "linked (S(k \<mapsto> st')) P H"
proof (rule linkedI)
  fix j s assume "(S(k \<mapsto> st')) j = Some s"
  then show "rs_request_id s = j" using assms linked_id [OF assms(1)] by (auto simp: same_request_def split: if_splits)
next
  fix j s a assume "(S(k \<mapsto> st')) j = Some s" "rs_parent_req s = Some a"
  then obtain s' where "S j = Some s'" "rs_parent_req s' = Some a" using assms by (auto simp: same_request_def split: if_splits)
  then show "\<exists>p. H a = Some p \<and> j \<in> set (pr_child_requests p) \<and> P (pr_request_id p) = Some a"
    using assms(1) unfolding linked_def by blast
next
  fix i a assume i: "P i = Some a"
  obtain p where "H a = Some p" "pr_request_id p = i" "pr_child_requests p \<noteq> []" "distinct (pr_child_requests p)"
    "\<forall>c \<in> set (pr_child_requests p). \<exists>st. S c = Some st \<and> rs_parent_req st = Some a"
    by (rule linked_table [OF assms(1) i])
  then show "\<exists>p. H a = Some p \<and> pr_request_id p = i \<and> pr_child_requests p \<noteq> [] \<and> distinct (pr_child_requests p) \<and>
     (\<forall>c \<in> set (pr_child_requests p). \<exists>st. (S(k \<mapsto> st')) c = Some st \<and> rs_parent_req st = Some a)"
    using assms(2,3) by (intro exI [of _ p]) (auto simp: same_request_def)
qed

lemma linked_remove_plain:
  assumes "linked S P H" and "S k = Some st" and "rs_parent_req st = None"
  shows "linked (S(k := None)) P H"
proof (rule linkedI)
  fix i a assume i: "P i = Some a"
  obtain p where "H a = Some p" "pr_request_id p = i" "pr_child_requests p \<noteq> []" "distinct (pr_child_requests p)"
    "\<forall>c \<in> set (pr_child_requests p). \<exists>st. S c = Some st \<and> rs_parent_req st = Some a"
    by (rule linked_table [OF assms(1) i])
  then show "\<exists>p. H a = Some p \<and> pr_request_id p = i \<and> pr_child_requests p \<noteq> [] \<and> distinct (pr_child_requests p) \<and>
     (\<forall>c \<in> set (pr_child_requests p). \<exists>st. (S(k := None)) c = Some st \<and> rs_parent_req st = Some a)"
    using assms(2,3) by (intro exI [of _ p]) auto
qed (use assms(1) in \<open>auto simp: linked_def split: if_splits\<close>)

text \<open>A child leaves; its parent goes with the last one.\<close>

lemma linked_remove_child:
  assumes "linked S P H" and "S k = Some st" and "rs_parent_req st = Some a" and "H a = Some p"
    and "pr_request_id p' = pr_request_id p" and "pr_child_requests p' = remove1 k (pr_child_requests p)"
  shows "linked (S(k := None)) (if pr_child_requests p' = [] then P(pr_request_id p := None) else P) (H(a \<mapsto> p'))"
    (is "linked _ ?P _")
proof (rule linkedI)
  show "\<And>j s. (S(k := None)) j = Some s \<Longrightarrow> rs_request_id s = j"
    using linked_id [OF assms(1)] by (auto split: if_splits)
  have reg: "P (pr_request_id p) = Some a" using linked_parent [OF assms(1-3)] assms(4) by auto
  then have d: "distinct (pr_child_requests p)" using linked_table [OF assms(1) reg] assms(4) by auto
  fix j s b assume s: "(S(k := None)) j = Some s" "rs_parent_req s = Some b"
  then have s': "S j = Some s" "j \<noteq> k" by (auto split: if_splits)
  obtain q where q: "H b = Some q" "j \<in> set (pr_child_requests q)" "P (pr_request_id q) = Some b"
    by (rule linked_parent [OF assms(1) s'(1) s(2)])
  show "\<exists>p. (H(a \<mapsto> p')) b = Some p \<and> j \<in> set (pr_child_requests p) \<and> ?P (pr_request_id p) = Some b"
  proof (cases "b = a")
    case True
    with q assms(4) have "j \<in> set (pr_child_requests p)" by simp
    then have "j \<in> set (pr_child_requests p')" using assms(6) s'(2) by simp
    with True reg assms(5) show ?thesis by auto
  next
    case False
    with reg q have "pr_request_id q \<noteq> pr_request_id p" by auto
    with False q show ?thesis by auto
  qed
next
  have reg: "P (pr_request_id p) = Some a" using linked_parent [OF assms(1-3)] assms(4) by auto
  then have d: "distinct (pr_child_requests p)" using linked_table [OF assms(1) reg] assms(4) by auto
  fix i b assume i: "?P i = Some b"
  then have pi: "P i = Some b" by (auto split: if_splits)
  obtain q where q: "H b = Some q" "pr_request_id q = i" "pr_child_requests q \<noteq> []" "distinct (pr_child_requests q)"
    "\<forall>c \<in> set (pr_child_requests q). \<exists>st. S c = Some st \<and> rs_parent_req st = Some b"
    by (rule linked_table [OF assms(1) pi])
  show "\<exists>p. (H(a \<mapsto> p')) b = Some p \<and> pr_request_id p = i \<and> pr_child_requests p \<noteq> [] \<and> distinct (pr_child_requests p) \<and>
     (\<forall>c \<in> set (pr_child_requests p). \<exists>st. (S(k := None)) c = Some st \<and> rs_parent_req st = Some b)"
  proof (cases "b = a")
    case True
    with i q(1,2) assms(4) have "pr_child_requests p' \<noteq> []" by (auto split: if_splits)
    moreover have "c \<in> set (pr_child_requests p) \<and> c \<noteq> k" if "c \<in> set (pr_child_requests p')" for c
      using that d assms(6) by (simp add: set_remove1_eq)
    ultimately show ?thesis using True q assms(4-6) d by (intro exI [of _ p']) auto
  next
    case False
    then have "\<forall>c \<in> set (pr_child_requests q). c \<noteq> k" using q(5) assms(2,3) by auto
    with False q show ?thesis by (intro exI [of _ q]) auto
  qed
qed

section \<open>The invariant of the output processor\<close>

definition op_inv :: "output_processor \<Rightarrow> bool" where
  "op_inv self \<longleftrightarrow> wf_dict (op_request_states self) \<and> wf_dict (op_parent_requests self) \<and>
     linked (map_of (op_request_states self)) (map_of (op_parent_requests self)) (op_parents self) \<and>
     (\<forall>k st n. map_of (op_request_states self) k = Some st \<and> rs_lora_name st = Some n \<longrightarrow>
        n \<in> set (map fst (op_lora_states self)))"

definition known :: "output_processor \<Rightarrow> string set" where
  "known self = dom (map_of (op_request_states self))"

definition pooled_ok :: "engine_core_output list \<Rightarrow> output_processor \<Rightarrow> bool" where
  "pooled_ok outs self \<longleftrightarrow> (\<forall>out \<in> set outs. \<forall>st. map_of (op_request_states self) (eo_request_id out) = Some st \<and>
     rs_parent_req st \<noteq> None \<longrightarrow> eo_pooling_output out = None)"

text \<open>No request gets a parent while outputs are processed.\<close>

definition parents_only :: "output_processor \<Rightarrow> output_processor \<Rightarrow> bool" where
  "parents_only self self' \<longleftrightarrow> (\<forall>k st'. map_of (op_request_states self') k = Some st' \<longrightarrow>
     (\<exists>st. map_of (op_request_states self) k = Some st \<and> same_request st st'))"

lemma pooled_ok_parents_only: "pooled_ok outs self \<Longrightarrow> parents_only self self' \<Longrightarrow> pooled_ok outs self'"
  unfolding pooled_ok_def parents_only_def same_request_def by metis

lemma wf_dict_AList [simp]:
  "wf_dict d \<Longrightarrow> map_of (AList.delete k d) = (map_of d)(k := None)"
  by (simp add: delete_conv')

lemma lora_kept:
  assumes "op_inv self" and "kept_fields self self'" and "parents_only self self'"
  shows "\<forall>k st n. map_of (op_request_states self') k = Some st \<and> rs_lora_name st = Some n \<longrightarrow>
        n \<in> set (map fst (op_lora_states self'))"
proof (intro allI impI, elim conjE)
  fix k st n assume "map_of (op_request_states self') k = Some st" "rs_lora_name st = Some n"
  then obtain st0 where "map_of (op_request_states self) k = Some st0" "rs_lora_name st0 = Some n"
    using assms(3) unfolding parents_only_def same_request_def by metis
  then have "n \<in> set (map fst (op_lora_states self))" using assms(1) unfolding op_inv_def by blast
  then show "n \<in> set (map fst (op_lora_states self'))" using assms(2) unfolding kept_fields_def by blast
qed

text \<open>What is told to the engine core about one output.\<close>

lemma process_output_inv:
  assumes "op_inv (pa_self acc)" and "process_output env ts out acc = Ok acc'" and "pooled_ok [out] (pa_self acc)"
  obtains new where "op_inv (pa_self acc')" and "parents_only (pa_self acc) (pa_self acc')"
    and "pa_aborts acc' = pa_aborts acc @ new"
    and "known (pa_self acc') =
      known (pa_self acc) - set new - (if eo_finish_reason out \<noteq> None then {eo_request_id out} else {})"
    and "set new \<subseteq> known (pa_self acc)"
proof (cases "map_of (op_request_states (pa_self acc)) (eo_request_id out)")
  case None
  with assms(2) have "acc' = acc" by (simp add: process_output_def)
  moreover have "eo_request_id out \<notin> known (pa_self acc)" using None by (simp add: known_def domIff)
  ultimately show thesis using assms(1)
    by (intro that [of "[]"]) (auto simp: parents_only_def same_request_def)
next
  case (Some st)
  let ?k = "eo_request_id out"
  let ?S = "map_of (op_request_states (pa_self acc))" and ?P = "map_of (op_parent_requests (pa_self acc))"
  have inv: "wf_dict (op_request_states (pa_self acc))" "wf_dict (op_parent_requests (pa_self acc))"
    "linked ?S ?P (op_parents (pa_self acc))" using assms(1) by (simp_all add: op_inv_def)
  have id: "rs_request_id st = ?k" using inv(3) Some by (rule linked_id)
  have pool: "rs_parent_req st \<noteq> None \<longrightarrow> eo_pooling_output out = None"
    using assms(3) Some by (simp add: pooled_ok_def)
  from assms(2) Some refl id pool show thesis
  proof (rule process_output_frame)
    fix st' assume k: "kept_fields (pa_self acc) (pa_self acc')" and s: "same_request st st'"
      and r: "after_running ?k st' acc acc'" and f: "eo_finish_reason out = None"
    have S': "map_of (op_request_states (pa_self acc')) = ?S(?k \<mapsto> st')" using r by (simp add: after_running_def update_conv')
    then have po: "parents_only (pa_self acc) (pa_self acc')" using Some s by (auto simp: parents_only_def)
    have "wf_dict (op_request_states (pa_self acc'))" "wf_dict (op_parent_requests (pa_self acc'))"
      "linked (map_of (op_request_states (pa_self acc'))) (map_of (op_parent_requests (pa_self acc'))) (op_parents (pa_self acc'))"
      unfolding S' using inv(1,2) r linked_family [OF linked_same [OF inv(3) Some s]] by (simp_all add: after_running_def)
    with lora_kept [OF assms(1) k po] have "op_inv (pa_self acc')" by (simp add: op_inv_def)
    with po r f S' Some show thesis by (intro that [of "[]"]) (auto simp: after_running_def known_def)
  next
    assume k: "kept_fields (pa_self acc) (pa_self acc')" and r: "after_finished ?k st (eo_finish_reason out \<noteq> None) acc acc'"
    have S': "map_of (op_request_states (pa_self acc')) = ?S(?k := None)" using r inv(1) by (simp add: after_finished_def)
    then have po: "parents_only (pa_self acc) (pa_self acc')" by (auto simp: parents_only_def split: if_splits)
    have wf: "wf_dict (op_request_states (pa_self acc'))" using r inv(1) by (simp add: after_finished_def)
    have "wf_dict (op_parent_requests (pa_self acc')) \<and>
      linked (?S(?k := None)) (map_of (op_parent_requests (pa_self acc'))) (op_parents (pa_self acc'))"
    proof (cases "rs_parent_req st")
      case None
      with r inv(2) linked_family [OF linked_remove_plain [OF inv(3) Some None]] show ?thesis
        by (simp add: after_finished_def)
    next
      case (Some a)
      with r obtain p p' where p: "op_parents (pa_self acc) a = Some p" "pr_request_id p' = pr_request_id p"
        "pr_child_requests p' = remove1 ?k (pr_child_requests p)"
        "family_upd ((op_parents (pa_self acc))(a \<mapsto> p')) (op_parents (pa_self acc'))"
        "op_parent_requests (pa_self acc') =
          (if pr_child_requests p' = [] then AList.delete (pr_request_id p) (op_parent_requests (pa_self acc))
           else op_parent_requests (pa_self acc))" unfolding after_finished_def by blast
      from linked_family [OF linked_remove_child [OF inv(3) \<open>?S ?k = Some st\<close> Some p(1-3)] p(4)] p(5) inv(2)
      show ?thesis by (simp split: if_splits)
    qed
    with wf lora_kept [OF assms(1) k po] S' have "op_inv (pa_self acc')" by (simp add: op_inv_def)
    with po r S' Some show thesis
      by (intro that [of "if eo_finish_reason out \<noteq> None then [] else [?k]"]) (auto simp: after_finished_def known_def)
  qed
qed

lemma parents_only_trans: "parents_only a b \<Longrightarrow> parents_only b c \<Longrightarrow> parents_only a c"
  unfolding parents_only_def using same_request_trans by meson

definition finished_ids :: "engine_core_output list \<Rightarrow> string set" where
  "finished_ids outs = eo_request_id ` {out \<in> set outs. eo_finish_reason out \<noteq> None}"

lemma process_outputs_inv:
  assumes "op_inv self" and "process_outputs env outs ts it self = Ok (pp, it', self')" and "pooled_ok outs self"
  shows "op_inv self' \<and> known self' = known self - finished_ids outs - set (pp_reqs_to_abort pp) \<and>
    set (pp_reqs_to_abort pp) \<subseteq> known self"
proof -
  have loop: "op_inv (pa_self acc') \<and> (\<exists>new. pa_aborts acc' = pa_aborts acc @ new \<and>
      known (pa_self acc') = known (pa_self acc) - finished_ids outs - set new \<and> set new \<subseteq> known (pa_self acc))"
    if "rfold (process_output env ts) outs acc = Ok acc'" "op_inv (pa_self acc)" "pooled_ok outs (pa_self acc)" for acc acc'
    using that
  proof (induction outs arbitrary: acc)
    case Nil
    then show ?case by (simp add: finished_ids_def)
  next
    case (Cons out outs)
    from Cons.prems(1) obtain acc1 where one: "process_output env ts out acc = Ok acc1"
      and rest: "rfold (process_output env ts) outs acc1 = Ok acc'" by (auto simp: rbind_eq_Ok)
    have "pooled_ok [out] (pa_self acc)" using Cons.prems(3) by (simp add: pooled_ok_def)
    from Cons.prems(2) one this obtain new where n: "op_inv (pa_self acc1)" "parents_only (pa_self acc) (pa_self acc1)"
      "pa_aborts acc1 = pa_aborts acc @ new"
      "known (pa_self acc1) = known (pa_self acc) - set new - (if eo_finish_reason out \<noteq> None then {eo_request_id out} else {})"
      "set new \<subseteq> known (pa_self acc)" by (rule process_output_inv)
    have "pooled_ok outs (pa_self acc)" using Cons.prems(3) by (simp add: pooled_ok_def)
    then have "pooled_ok outs (pa_self acc1)" using n(2) by (rule pooled_ok_parents_only)
    from Cons.IH [OF rest n(1) this] obtain new' where "op_inv (pa_self acc')" "pa_aborts acc' = pa_aborts acc1 @ new'"
      "known (pa_self acc') = known (pa_self acc1) - finished_ids outs - set new'" "set new' \<subseteq> known (pa_self acc1)" by blast
    with n show ?case by (intro conjI exI [of _ "new @ new'"]) (auto simp: finished_ids_def)
  qed
  obtain acc where acc: "rfold (process_output env ts) outs \<lparr>pa_self = self, pa_stats = it, pa_outputs = [], pa_aborts = []\<rparr> = Ok acc"
    "pp_reqs_to_abort pp = pa_aborts acc" "self' = pa_self acc"
    using assms(2) by (auto simp: process_outputs_def rbind_eq_Ok)
  from loop [OF acc(1)] assms(1,3) acc(2,3) show ?thesis by auto
qed

section \<open>Adding requests\<close>

lemma linked_add_plain:
  assumes "linked S P H" and "S k = None" and "rs_request_id st = k" and "rs_parent_req st = None"
  shows "linked (S(k \<mapsto> st)) P H"
proof (rule linkedI)
  fix i a assume i: "P i = Some a"
  obtain p where p: "H a = Some p" "pr_request_id p = i" "pr_child_requests p \<noteq> []" "distinct (pr_child_requests p)"
    "\<forall>c \<in> set (pr_child_requests p). \<exists>st. S c = Some st \<and> rs_parent_req st = Some a"
    by (rule linked_table [OF assms(1) i])
  then have "\<forall>c \<in> set (pr_child_requests p). c \<noteq> k" using assms(2) by auto
  with p show "\<exists>p. H a = Some p \<and> pr_request_id p = i \<and> pr_child_requests p \<noteq> [] \<and> distinct (pr_child_requests p) \<and>
     (\<forall>c \<in> set (pr_child_requests p). \<exists>s. (S(k \<mapsto> st)) c = Some s \<and> rs_parent_req s = Some a)"
    by (intro exI [of _ p]) auto
qed (use assms in \<open>auto simp: linked_def split: if_splits\<close>)

lemma linked_alloc:
  assumes "linked S P H" and "H a = None"
  shows "linked S P (H(a \<mapsto> p))"
proof (rule linkedI)
  fix k st b assume st: "S k = Some st" "rs_parent_req st = Some b"
  obtain q where q: "H b = Some q" "k \<in> set (pr_child_requests q)" "P (pr_request_id q) = Some b"
    by (rule linked_parent [OF assms(1) st])
  with assms(2) show "\<exists>q. (H(a \<mapsto> p)) b = Some q \<and> k \<in> set (pr_child_requests q) \<and> P (pr_request_id q) = Some b"
    by (intro exI [of _ q]) auto
next
  fix i b assume i: "P i = Some b"
  obtain q where "H b = Some q" "pr_request_id q = i" "pr_child_requests q \<noteq> []" "distinct (pr_child_requests q)"
    "\<forall>c \<in> set (pr_child_requests q). \<exists>st. S c = Some st \<and> rs_parent_req st = Some b"
    by (rule linked_table [OF assms(1) i])
  with assms(2) show "\<exists>q. (H(a \<mapsto> p)) b = Some q \<and> pr_request_id q = i \<and> pr_child_requests q \<noteq> [] \<and> distinct (pr_child_requests q) \<and>
     (\<forall>c \<in> set (pr_child_requests q). \<exists>st. S c = Some st \<and> rs_parent_req st = Some b)"
    by (intro exI [of _ q]) auto
qed (use assms(1) in \<open>simp add: linked_def\<close>)

text \<open>
  A parent that is being filled: it is in the table, or has no child yet and its id is not in the
  table.
\<close>

definition filling :: "(string \<Rightarrow> nat option) \<Rightarrow> nat \<Rightarrow> parent_request \<Rightarrow> bool" where
  "filling P a p \<longleftrightarrow> P (pr_request_id p) = Some a \<or> (P (pr_request_id p) = None \<and> pr_child_requests p = [])"

lemma linked_add_child:
  assumes "linked S P H" and "S k = None" and "rs_request_id st = k" and "rs_parent_req st = Some a"
    and "H a = Some p" and "filling P a p" and "pr_request_id p' = pr_request_id p"
    and "pr_child_requests p' = (if k \<in> set (pr_child_requests p) then pr_child_requests p else pr_child_requests p @ [k])"
  shows "linked (S(k \<mapsto> st)) (P(pr_request_id p \<mapsto> a)) (H(a \<mapsto> p'))"
proof -
  have fam: "distinct (pr_child_requests p) \<and> (\<forall>c \<in> set (pr_child_requests p). \<exists>s. S c = Some s \<and> rs_parent_req s = Some a)"
    using assms(5,6) linked_table [OF assms(1), of "pr_request_id p" a] by (auto simp: filling_def)
  then have k: "k \<notin> set (pr_child_requests p)" using assms(2) by auto
  then have ch: "pr_child_requests p' = pr_child_requests p @ [k]" using assms(8) by simp
  show ?thesis
  proof (rule linkedI)
    show "\<And>j s. (S(k \<mapsto> st)) j = Some s \<Longrightarrow> rs_request_id s = j"
      using assms(3) linked_id [OF assms(1)] by (auto split: if_splits)
  next
    fix j s b assume s: "(S(k \<mapsto> st)) j = Some s" "rs_parent_req s = Some b"
    show "\<exists>q. (H(a \<mapsto> p')) b = Some q \<and> j \<in> set (pr_child_requests q) \<and> (P(pr_request_id p \<mapsto> a)) (pr_request_id q) = Some b"
    proof (cases "j = k")
      case True
      with s assms(4) have "b = a" by simp
      with True ch assms(7) show ?thesis by simp
    next
      case False
      with s have sj: "S j = Some s" by simp
      obtain q where q: "H b = Some q" "j \<in> set (pr_child_requests q)" "P (pr_request_id q) = Some b"
        by (rule linked_parent [OF assms(1) sj s(2)])
      have "b \<noteq> a \<Longrightarrow> pr_request_id q \<noteq> pr_request_id p" using q(3) assms(6) by (auto simp: filling_def)
      with q ch assms(5,7) show ?thesis by (cases "b = a") auto
    qed
  next
    fix i b assume i: "(P(pr_request_id p \<mapsto> a)) i = Some b"
    show "\<exists>q. (H(a \<mapsto> p')) b = Some q \<and> pr_request_id q = i \<and> pr_child_requests q \<noteq> [] \<and> distinct (pr_child_requests q) \<and>
        (\<forall>c \<in> set (pr_child_requests q). \<exists>s. (S(k \<mapsto> st)) c = Some s \<and> rs_parent_req s = Some b)"
    proof (cases "i = pr_request_id p")
      case True
      with i have "b = a" by simp
      with True ch assms(4,7) fam k show ?thesis by (intro exI [of _ p']) auto
    next
      case False
      with i have pi: "P i = Some b" by simp
      obtain q where q: "H b = Some q" "pr_request_id q = i" "pr_child_requests q \<noteq> []" "distinct (pr_child_requests q)"
        "\<forall>c \<in> set (pr_child_requests q). \<exists>s. S c = Some s \<and> rs_parent_req s = Some b"
        by (rule linked_table [OF assms(1) pi])
      have "b \<noteq> a" using q(1,2) False assms(5) by auto
      moreover have "\<forall>c \<in> set (pr_child_requests q). c \<noteq> k" using q(5) assms(2) by auto
      ultimately show ?thesis using q by (intro exI [of _ q]) auto
    qed
  qed
qed

lemma from_new_request_fields:
  assumes "RequestState_from_new_request tk request prompt parent idx queue log = Ok st"
  shows "rs_request_id st = ecr_request_id request" and "rs_parent_req st = parent" and "rs_queue st = queue"
    and "rs_request_index st = idx"
  using assms
  by (auto simp: RequestState_from_new_request_def Let_def rbind_eq_Ok split: option.splits if_splits)

lemma lora_add_keys:
  "set (map fst ls) \<subseteq> set (map fst (lora_add_request name rid ls))"
  "name = Some n \<Longrightarrow> n \<in> set (map fst (lora_add_request name rid ls))"
proof -
  obtain st ls1 where g: "lora_get_stats name ls = (st, ls1)" by fastforce
  note keys = lora_get_stats_keys [OF g]
  have "set (map fst ls1) \<subseteq> set (map fst (lora_add_request name rid ls))"
    using g lora_put_keys [of ls1] by (cases st) (auto simp: lora_add_request_def simp del: set_map)
  with keys show "set (map fst ls) \<subseteq> set (map fst (lora_add_request name rid ls))"
    and "name = Some n \<Longrightarrow> n \<in> set (map fst (lora_add_request name rid ls))"
    by (auto split: option.splits simp del: set_map)
qed

lemma op_add_request_steps:
  assumes "op_add_request request prompt parent idx queue self = Ok self'"
  obtains st where "ecr_request_id request \<notin> known self" and "rs_request_id st = ecr_request_id request"
    and "rs_parent_req st = parent"
    and "op_request_states self' = AList.update (ecr_request_id request) st (op_request_states self)"
    and "op_lora_states self' = lora_add_request (rs_lora_name st) (rs_request_id st) (op_lora_states self)"
    and "op_parents self' = op_parents self"
    and "parent = None \<longrightarrow> op_parent_requests self' = op_parent_requests self"
    and "\<forall>a p. parent = Some a \<and> op_parents self a = Some p \<longrightarrow>
      op_parent_requests self' = AList.update (pr_request_id p) a (op_parent_requests self)"
proof -
  let ?k = "ecr_request_id request"
  have fresh: "?k \<notin> known self" using assms
    by (auto simp: op_add_request_def known_def dom_map_of_conv_image_fst Let_def split: if_splits)
  from assms obtain st where st: "RequestState_from_new_request (map_option (\<lambda>f. f (ecr_lora request)) (op_tokenizer self))
      request prompt parent idx queue (op_log_stats self) = Ok st"
    by (auto simp: op_add_request_def Let_def rbind_eq_Ok split: if_splits)
  let ?s1 = "self\<lparr>op_request_states := AList.update ?k st (op_request_states self),
     op_lora_states := lora_add_request (rs_lora_name st) (rs_request_id st) (op_lora_states self)\<rparr>"
  have rest: "(case parent of None \<Rightarrow> Ok ?s1 | Some a \<Rightarrow> rbind (parent_at a ?s1) (\<lambda>p.
      Ok (?s1\<lparr>op_parent_requests := AList.update (pr_request_id p) a (op_parent_requests ?s1)\<rparr>))) = Ok self'"
    using assms st by (simp add: op_add_request_def Let_def split: if_splits)
  show thesis
    by (rule that [OF fresh from_new_request_fields(1,2) [OF st]])
      (use rest in \<open>auto simp: rbind_eq_Ok parent_at_def split: option.splits\<close>)
qed

lemma lora_added:
  assumes "op_inv self" and "op_request_states self' = AList.update k st (op_request_states self)"
    and "op_lora_states self' = lora_add_request (rs_lora_name st) rid (op_lora_states self)"
  shows "\<forall>j s n. map_of (op_request_states self') j = Some s \<and> rs_lora_name s = Some n \<longrightarrow>
        n \<in> set (map fst (op_lora_states self'))"
proof (intro allI impI, elim conjE)
  fix j s n assume s: "map_of (op_request_states self') j = Some s" "rs_lora_name s = Some n"
  show "n \<in> set (map fst (op_lora_states self'))"
  proof (cases "j = k")
    case True
    with s assms(2) have "rs_lora_name st = Some n" by (simp add: update_conv')
    then show ?thesis unfolding assms(3) by (rule lora_add_keys(2))
  next
    case False
    with s assms(1,2) have "n \<in> set (map fst (op_lora_states self))" by (simp add: update_conv' op_inv_def)
    then show ?thesis unfolding assms(3) using lora_add_keys(1) by blast
  qed
qed

lemma op_add_plain_inv:
  assumes "op_inv self" and "op_add_request request prompt None idx queue self = Ok self'"
  shows "op_inv self' \<and> known self' = insert (ecr_request_id request) (known self)"
  using assms(2)
proof (rule op_add_request_steps)
  fix st
  let ?k = "ecr_request_id request"
  assume a: "?k \<notin> known self" "rs_request_id st = ?k" "rs_parent_req st = None"
    and b: "op_request_states self' = AList.update ?k st (op_request_states self)"
      "op_lora_states self' = lora_add_request (rs_lora_name st) (rs_request_id st) (op_lora_states self)"
      "op_parents self' = op_parents self" "(None :: nat option) = None \<longrightarrow> op_parent_requests self' = op_parent_requests self"
  have "linked ((map_of (op_request_states self))(?k \<mapsto> st)) (map_of (op_parent_requests self)) (op_parents self)"
    using assms(1) a by (intro linked_add_plain) (auto simp: op_inv_def known_def)
  moreover have "map_of (op_request_states self') = (map_of (op_request_states self))(?k \<mapsto> st)"
    using b(1) by (simp add: update_conv')
  ultimately show ?thesis using assms(1) b lora_added [OF assms(1) b(1,2)] by (simp add: op_inv_def known_def)
qed

lemma op_add_child_inv:
  assumes "op_inv self" and "op_parents self a = Some p" and "filling (map_of (op_parent_requests self)) a p"
    and "get_child_info idx p = ((rid, params), p')" and "ecr_request_id child = rid"
    and "op_add_request child prompt (Some a) idx queue (self\<lparr>op_parents := (op_parents self)(a \<mapsto> p')\<rparr>) = Ok self'"
  shows "op_inv self' \<and> known self' = insert rid (known self) \<and> op_parents self' a = Some p' \<and>
    pr_request_id p' = pr_request_id p \<and> filling (map_of (op_parent_requests self')) a p'"
  using assms(6)
proof (rule op_add_request_steps)
  fix st
  let ?self = "self\<lparr>op_parents := (op_parents self)(a \<mapsto> p')\<rparr>"
  assume a: "ecr_request_id child \<notin> known ?self" "rs_request_id st = ecr_request_id child" "rs_parent_req st = Some a"
    and b: "op_request_states self' = AList.update (ecr_request_id child) st (op_request_states ?self)"
      "op_lora_states self' = lora_add_request (rs_lora_name st) (rs_request_id st) (op_lora_states ?self)"
      "op_parents self' = op_parents ?self"
      "\<forall>b q. Some a = Some b \<and> op_parents ?self b = Some q \<longrightarrow>
        op_parent_requests self' = AList.update (pr_request_id q) b (op_parent_requests ?self)"
  have p': "pr_request_id p' = pr_request_id p" "rid = child_id (pr_request_id p) idx"
    "pr_child_requests p' = (if rid \<in> set (pr_child_requests p) then pr_child_requests p else pr_child_requests p @ [rid])"
    using assms(4) by (auto simp: get_child_info_def get_child_sampling_params_def Let_def split: prod.splits option.splits)
  have "linked ((map_of (op_request_states self))(rid \<mapsto> st)) ((map_of (op_parent_requests self))(pr_request_id p \<mapsto> a))
      ((op_parents self)(a \<mapsto> p'))"
    using assms(1-3) a p' by (intro linked_add_child) (auto simp: op_inv_def known_def assms(5))
  moreover have S': "map_of (op_request_states self') = (map_of (op_request_states self))(rid \<mapsto> st)"
    and P': "op_parent_requests self' = AList.update (pr_request_id p) a (op_parent_requests self)"
    using b p'(1) by (simp_all add: update_conv' assms(5))
  moreover have "wf_dict (op_request_states self')" using b(1) assms(1) by (simp add: op_inv_def)
  moreover have "op_inv self'"
    using calculation b(3) assms(1) lora_added [of self self' rid st] b(1,2) unfolding op_inv_def
    by (simp add: assms(5) update_conv' op_inv_def)
  ultimately show ?thesis using b(3) p'(1) by (simp add: known_def filling_def update_conv')
qed

lemma fan_out_inv:
  assumes "op_inv self" and "op_parents self a = Some p" and "filling (map_of (op_parent_requests self)) a p"
    and "fan_out a request prompt queue idxs self = Ok (sent, self')"
  shows "op_inv self' \<and> known self' = known self \<union> ecr_request_id ` set sent"
  using assms
proof (induction idxs arbitrary: self p sent)
  case Nil
  then show ?case by simp
next
  case (Cons idx idxs)
  obtain rid params p' where g: "get_child_info idx p = ((rid, params), p')" by (metis prod.exhaust)
  let ?child = "request\<lparr>ecr_request_id := rid, ecr_sampling := Some params\<rparr>"
  from Cons.prems(2,4) g obtain self1 sent1 where
    add: "op_add_request ?child prompt (Some a) idx queue (self\<lparr>op_parents := (op_parents self)(a \<mapsto> p')\<rparr>) = Ok self1"
    and rest: "fan_out a request prompt queue idxs self1 = Ok (sent1, self')" and sent: "sent = ?child # sent1"
    by (auto simp: parent_at_def rbind_eq_Ok Let_def)
  from op_add_child_inv [OF Cons.prems(1-3) g _ add] have
    "op_inv self1" "op_parents self1 a = Some p'" "filling (map_of (op_parent_requests self1)) a p'"
    "known self1 = insert rid (known self)" by simp_all
  with Cons.IH [OF _ _ _ rest] sent show ?case by auto
qed

lemma engine_add_inv:
  assumes "op_inv self" and "op_parents self a = None" and "map_of (op_parent_requests self) rid = None"
    and "engine_add_request rid request prompt queue a self = Ok (sent, self')"
  shows "op_inv self' \<and> known self' = known self \<union> ecr_request_id ` set sent"
proof (cases "(case ecr_sampling request of Some params \<Rightarrow> sp_n params | None \<Rightarrow> 1) = 1")
  case True
  with assms(4) have "op_add_request request prompt None 0 queue self = Ok self'" "sent = [request]"
    by (auto simp: engine_add_request_def rbind_eq_Ok)
  with op_add_plain_inv [OF assms(1) this(1)] show ?thesis by simp
next
  case False
  then obtain params where params: "ecr_sampling request = Some params" by (cases "ecr_sampling request") auto
  let ?self = "self\<lparr>op_parents := (op_parents self)(a \<mapsto> ParentRequest_init rid params)\<rparr>"
  have "fan_out a request prompt queue [0..sp_n params - 1] ?self = Ok (sent, self')"
    using assms(4) False params by (simp add: engine_add_request_def)
  moreover have "op_inv ?self" using assms(1,2) linked_alloc [where H = "op_parents self" and a = a] by (simp add: op_inv_def)
  moreover have "filling (map_of (op_parent_requests ?self)) a (ParentRequest_init rid params)"
    using assms(3) by (simp add: filling_def ParentRequest_init_def)
  ultimately have "op_inv self' \<and> known self' = known ?self \<union> ecr_request_id ` set sent"
    by (intro fan_out_inv [of ?self a "ParentRequest_init rid params"]) simp_all
  then show ?thesis by (simp add: known_def)
qed

section \<open>Aborting requests\<close>

lemma lora_abort_Ok:
  assumes "\<forall>n. name = Some n \<longrightarrow> n \<in> set (map fst ls)"
  obtains ls' where "lora_abort_request name rid ls = Ok ls'" and "set (map fst ls) \<subseteq> set (map fst ls')"
proof (cases name)
  case None
  then show thesis by (intro that [of ls]) (simp_all add: lora_abort_request_def)
next
  case (Some n)
  with assms have "n \<in> dom (map_of ls)" by (simp add: dom_map_of_conv_image_fst)
  then obtain st where st: "map_of ls n = Some st" by auto
  let ?ls = "AList.update n (st\<lparr>ls_waiting := ls_waiting st - {rid}, ls_running := ls_running st - {rid}\<rparr>) ls"
  have "lora_abort_request name rid ls = Ok ?ls" using Some st by (simp add: lora_abort_request_def dict_get_def)
  moreover have "set (map fst ls) \<subseteq> set (map fst ?ls)" unfolding update_keys by blast
  ultimately show thesis by (rule that)
qed

text \<open>Requests with their adapters known, forgotten one after the other.\<close>

definition loras_known :: "output_processor \<Rightarrow> bool" where
  "loras_known self \<longleftrightarrow> (\<forall>k st n. map_of (op_request_states self) k = Some st \<and> rs_lora_name st = Some n \<longrightarrow>
     n \<in> set (map fst (op_lora_states self)))"

definition forgotten :: "string set \<Rightarrow> output_processor \<Rightarrow> output_processor \<Rightarrow> bool" where
  "forgotten ids self self' \<longleftrightarrow> wf_dict (op_request_states self') \<and> loras_known self' \<and>
     map_of (op_request_states self') = (map_of (op_request_states self)) |` (- ids) \<and>
     op_parent_requests self' = op_parent_requests self \<and> op_parents self' = op_parents self"

lemma abort_one:
  assumes "map_of (op_request_states self) k = Some st" and "wf_dict (op_request_states self)" and "loras_known self"
  obtains ls self' where "lora_abort_request (rs_lora_name st) (rs_request_id st) (op_lora_states self) = Ok ls"
    and "self' = self\<lparr>op_request_states := AList.delete k (op_request_states self), op_lora_states := ls\<rparr>"
    and "forgotten {k} self self'"
proof -
  have "\<forall>n. rs_lora_name st = Some n \<longrightarrow> n \<in> set (map fst (op_lora_states self))"
    using assms(1,3) unfolding loras_known_def by blast
  then obtain ls where ls: "lora_abort_request (rs_lora_name st) (rs_request_id st) (op_lora_states self) = Ok ls"
    "set (map fst (op_lora_states self)) \<subseteq> set (map fst ls)" by (rule lora_abort_Ok)
  let ?s = "self\<lparr>op_request_states := AList.delete k (op_request_states self), op_lora_states := ls\<rparr>"
  have "map_of (op_request_states ?s) = (map_of (op_request_states self)) |` (- {k})"
    using assms(2) by (auto simp: restrict_map_def)
  moreover have "loras_known ?s" using assms(3) ls(2) unfolding loras_known_def
    by (auto simp: assms(2) simp del: set_map split: if_splits)
  ultimately have "forgotten {k} self ?s" using assms(2) by (simp add: forgotten_def)
  with ls(1) show thesis by (intro that [of ls ?s]) simp_all
qed

lemma forgotten_trans:
  "forgotten A a b \<Longrightarrow> forgotten B b c \<Longrightarrow> forgotten (A \<union> B) a c"
  by (simp add: forgotten_def)

lemma abort_known:
  assumes "set ks \<subseteq> known self" and "distinct ks" and "wf_dict (op_request_states self)" and "loras_known self"
  shows "\<exists>self'. abort_loop fuel ks self = Ok (ks, self') \<and> forgotten (set ks) self self'"
  using assms
proof (induction ks arbitrary: self)
  case Nil
  then show ?case by (simp add: forgotten_def restrict_map_def)
next
  case (Cons k ks)
  from Cons.prems(1) obtain st where st: "map_of (op_request_states self) k = Some st" by (auto simp: known_def)
  from st Cons.prems(3,4) obtain ls self1 where
    one: "lora_abort_request (rs_lora_name st) (rs_request_id st) (op_lora_states self) = Ok ls"
    "self1 = self\<lparr>op_request_states := AList.delete k (op_request_states self), op_lora_states := ls\<rparr>"
    and f: "forgotten {k} self self1" by (rule abort_one)
  have "set ks \<subseteq> known self1" using Cons.prems(1,2) f by (auto simp: forgotten_def known_def)
  then obtain self' where "abort_loop fuel ks self1 = Ok (ks, self')" "forgotten (set ks) self1 self'"
    using Cons.IH [of self1] Cons.prems(2) f by (auto simp: forgotten_def)
  with st one forgotten_trans [OF f] show ?case by (intro exI [of _ self']) simp
qed

text \<open>A parent leaves the table together with all its children.\<close>

lemma linked_remove_family:
  assumes "linked S P H" and "P i = Some a" and "H a = Some p"
  shows "linked (S |` (- set (pr_child_requests p))) (P(i := None)) H"
proof -
  have i: "pr_request_id p = i" "\<forall>c \<in> set (pr_child_requests p). \<exists>st. S c = Some st \<and> rs_parent_req st = Some a"
    using linked_table [OF assms(1,2)] assms(3) by auto
  show ?thesis
  proof (rule linkedI)
    show "\<And>k st. (S |` (- set (pr_child_requests p))) k = Some st \<Longrightarrow> rs_request_id st = k"
      using linked_id [OF assms(1)] by (auto simp: restrict_map_def split: if_splits)
  next
    fix k st b assume st: "(S |` (- set (pr_child_requests p))) k = Some st" "rs_parent_req st = Some b"
    then have s: "S k = Some st" "k \<notin> set (pr_child_requests p)" by (auto simp: restrict_map_def split: if_splits)
    obtain q where q: "H b = Some q" "k \<in> set (pr_child_requests q)" "P (pr_request_id q) = Some b"
      by (rule linked_parent [OF assms(1) s(1) st(2)])
    with s(2) assms(2,3) have "pr_request_id q \<noteq> i" by auto
    with q show "\<exists>q. H b = Some q \<and> k \<in> set (pr_child_requests q) \<and> (P(i := None)) (pr_request_id q) = Some b" by auto
  next
    fix j b assume j: "(P(i := None)) j = Some b"
    then have pj: "P j = Some b" "j \<noteq> i" by (auto split: if_splits)
    obtain q where q: "H b = Some q" "pr_request_id q = j" "pr_child_requests q \<noteq> []" "distinct (pr_child_requests q)"
      "\<forall>c \<in> set (pr_child_requests q). \<exists>st. S c = Some st \<and> rs_parent_req st = Some b"
      by (rule linked_table [OF assms(1) pj(1)])
    have "b \<noteq> a" using q(1,2) pj(2) i(1) assms(3) by auto
    then have "\<forall>c \<in> set (pr_child_requests q). c \<notin> set (pr_child_requests p)" using q(5) i(2) by fastforce
    with q show "\<exists>q. H b = Some q \<and> pr_request_id q = j \<and> pr_child_requests q \<noteq> [] \<and> distinct (pr_child_requests q) \<and>
        (\<forall>c \<in> set (pr_child_requests q). \<exists>st. (S |` (- set (pr_child_requests p))) c = Some st \<and> rs_parent_req st = Some b)"
      by (intro exI [of _ q]) (auto simp: restrict_map_def)
  qed
qed

text \<open>The callers abort requests by the ids they were added with, never a child on its own.\<close>

definition external :: "string list \<Rightarrow> output_processor \<Rightarrow> bool" where
  "external ids self \<longleftrightarrow>
     (\<forall>k \<in> set ids. \<forall>st. map_of (op_request_states self) k = Some st \<longrightarrow> rs_parent_req st = None)"

definition aborted :: "string list \<Rightarrow> string list \<Rightarrow> output_processor \<Rightarrow> output_processor \<Rightarrow> bool" where
  "aborted ids gone self self' \<longleftrightarrow> op_inv self' \<and> set gone \<subseteq> known self \<and>
     map_of (op_request_states self') = (map_of (op_request_states self)) |` (- set gone) \<and>
     map_of (op_parent_requests self') \<subseteq>\<^sub>m map_of (op_parent_requests self) \<and> op_parents self' = op_parents self \<and>
     (\<forall>k \<in> set ids. k \<notin> known self' \<and> (k \<notin> known self \<longrightarrow> map_of (op_parent_requests self') k = None))"

lemma op_inv_alt:
  "op_inv self \<longleftrightarrow> wf_dict (op_request_states self) \<and> wf_dict (op_parent_requests self) \<and> loras_known self \<and>
     linked (map_of (op_request_states self)) (map_of (op_parent_requests self)) (op_parents self)"
  by (auto simp: op_inv_def loras_known_def)

lemma abort_step:
  assumes "op_inv self" and "external [k] self" and "fuel = 0 \<longrightarrow> op_parent_requests self = []"
  shows "\<exists>gone self'. abort_loop fuel [k] self = Ok (gone, self') \<and> aborted [k] gone self self'"
proof (cases "map_of (op_request_states self) k")
  case (Some st)
  have inv: "wf_dict (op_request_states self)" "loras_known self" "wf_dict (op_parent_requests self)"
    "linked (map_of (op_request_states self)) (map_of (op_parent_requests self)) (op_parents self)"
    using assms(1) by (simp_all add: op_inv_alt)
  from Some inv(1,2) obtain ls self' where
    one: "lora_abort_request (rs_lora_name st) (rs_request_id st) (op_lora_states self) = Ok ls"
    "self' = self\<lparr>op_request_states := AList.delete k (op_request_states self), op_lora_states := ls\<rparr>"
    and f: "forgotten {k} self self'" by (rule abort_one)
  have "rs_parent_req st = None" using assms(2) Some by (simp add: external_def)
  from linked_remove_plain [OF inv(4) Some this] f inv(3) have "op_inv self'"
    by (simp add: op_inv_alt forgotten_def restrict_complement_singleton_eq)
  with f Some have "aborted [k] [k] self self'" by (auto simp: aborted_def forgotten_def known_def)
  with Some one show ?thesis by (intro exI [of _ "[k]"] exI [of _ self']) simp
next
  case unknown: None
  have inv: "wf_dict (op_request_states self)" "loras_known self" "wf_dict (op_parent_requests self)"
    "linked (map_of (op_request_states self)) (map_of (op_parent_requests self)) (op_parents self)"
    using assms(1) by (simp_all add: op_inv_alt)
  show ?thesis
  proof (cases "map_of (op_parent_requests self) k")
    case None
    with unknown assms(1) have "aborted [k] [] self self" by (auto simp: aborted_def known_def restrict_map_def)
    with unknown None show ?thesis by auto
  next
    case (Some a)
    obtain p where p: "op_parents self a = Some p" "pr_child_requests p \<noteq> []" "distinct (pr_child_requests p)"
      "\<forall>c \<in> set (pr_child_requests p). \<exists>st. map_of (op_request_states self) c = Some st \<and> rs_parent_req st = Some a"
      using linked_table [OF inv(4) Some] by metis
    let ?s = "self\<lparr>op_parent_requests := AList.delete k (op_parent_requests self)\<rparr>"
    obtain fuel' where fuel: "fuel = Suc fuel'" using assms(3) Some by (cases fuel) auto
    have "set (pr_child_requests p) \<subseteq> known ?s" using p(4) by (auto simp: known_def)
    then obtain self' where run: "abort_loop fuel' (pr_child_requests p) ?s = Ok (pr_child_requests p, self')"
      and f: "forgotten (set (pr_child_requests p)) ?s self'"
      using abort_known [of "pr_child_requests p" ?s fuel'] p(3) inv(1,2) by (auto simp: loras_known_def)
    have "op_inv self'"
      using linked_remove_family [OF inv(4) Some p(1)] f inv(3) by (simp add: op_inv_alt forgotten_def)
    then have "aborted [k] (pr_child_requests p) self self'"
      using f inv(3) unknown p(4) unfolding aborted_def
      by (auto simp: forgotten_def known_def map_le_def restrict_map_def split: if_splits)
    moreover have "abort_loop fuel [k] self = Ok (pr_child_requests p, self')"
      using unknown Some p(1,2) fuel run by (simp add: parent_at_def Let_def)
    ultimately show ?thesis by blast
  qed
qed

lemma abort_loop_Cons:
  "abort_loop fuel (k # ks) self = rbind (abort_loop fuel [k] self) (\<lambda>(a, s).
     rbind (abort_loop fuel ks s) (\<lambda>(b, s'). Ok (a @ b, s')))"
  by (simp add: rbind_assoc case_prod_unfold)

lemma abort_loop_total:
  assumes "op_inv self" and "external ids self" and "fuel = 0 \<longrightarrow> op_parent_requests self = []"
  shows "\<exists>gone self'. abort_loop fuel ids self = Ok (gone, self') \<and> aborted ids gone self self'"
  using assms
proof (induction ids arbitrary: self)
  case Nil
  then show ?case by (auto simp: aborted_def restrict_map_def)
next
  case (Cons k ks)
  have "external [k] self" using Cons.prems(2) by (simp add: external_def)
  from abort_step [OF Cons.prems(1) this Cons.prems(3)] obtain a s where
    one: "abort_loop fuel [k] self = Ok (a, s)" and ab: "aborted [k] a self s" by blast
  have "external ks s" using Cons.prems(2) ab by (auto simp: external_def aborted_def restrict_map_def split: if_splits)
  moreover have "fuel = 0 \<longrightarrow> op_parent_requests s = []"
  proof
    assume "fuel = 0"
    with Cons.prems(3) ab have "map_of (op_parent_requests s) \<subseteq>\<^sub>m Map.empty" by (simp add: aborted_def)
    then have "map_of (op_parent_requests s) = Map.empty" by (metis map_le_antisym map_le_empty)
    then show "op_parent_requests s = []" by simp
  qed
  ultimately obtain b s' where rest: "abort_loop fuel ks s = Ok (b, s')" and ab': "aborted ks b s s'"
    using Cons.IH [of s] ab by (auto simp: aborted_def)
  have "aborted (k # ks) (a @ b) self s'" unfolding aborted_def
  proof (intro conjI ballI)
    show "op_inv s'" "set (a @ b) \<subseteq> known self"
      using ab ab' by (auto simp: aborted_def known_def restrict_map_def split: if_splits)
    show "map_of (op_request_states s') = (map_of (op_request_states self)) |` (- set (a @ b))"
      using ab ab' by (simp add: aborted_def Int_commute)
    show "map_of (op_parent_requests s') \<subseteq>\<^sub>m map_of (op_parent_requests self)"
      using ab ab' by (auto simp: aborted_def intro: map_le_trans)
    show "op_parents s' = op_parents self" using ab ab' by (simp add: aborted_def)
  next
    fix j assume j: "j \<in> set (k # ks)"
    have sub: "known s' \<subseteq> known s" "known s \<subseteq> known self" using ab ab' by (auto simp: aborted_def known_def)
    have tab: "map_of (op_parent_requests s') j = None" if "map_of (op_parent_requests s) j = None"
      using ab' that unfolding aborted_def map_le_def by (metis domIff)
    show "j \<notin> known s'" using j ab ab' sub by (auto simp: aborted_def)
    show "j \<notin> known self \<longrightarrow> map_of (op_parent_requests s') j = None"
    proof
      assume "j \<notin> known self"
      with j ab ab' sub tab show "map_of (op_parent_requests s') j = None"
        by (cases "j = k") (auto simp: aborted_def)
    qed
  qed
  moreover have "abort_loop fuel (k # ks) self = Ok (a @ b, s')"
    by (subst abort_loop_Cons) (simp only: one rest rbind.simps prod.case)
  ultimately show ?case by blast
qed

section \<open>Histories\<close>

text \<open>
  The histories of a front end: requests are added under ids that are not in use as parents,
  outputs of the engine core are processed, requests are aborted by the ids they were added
  with, and consumers empty mailboxes.  \<open>live\<close> is the set of requests the engine core knows, by
  what it was sent, what it reported finished, and what it was told to abort.
\<close>

inductive fe_reach :: "output_processor \<Rightarrow> string set \<Rightarrow> bool" where
  start: "fe_reach (OutputProcessor_init tokenizer log_stats) {}"
| added: "fe_reach self live \<Longrightarrow> op_parents self a = None \<Longrightarrow> map_of (op_parent_requests self) rid = None \<Longrightarrow>
    engine_add_request rid request prompt queue a self = Ok (sent, self') \<Longrightarrow>
    fe_reach self' (live \<union> ecr_request_id ` set sent)"
| processed: "fe_reach self live \<Longrightarrow> pooled_ok outs self \<Longrightarrow> process_outputs env outs ts it self = Ok (pp, it', self') \<Longrightarrow>
    fe_reach self' (live - finished_ids outs - set (pp_reqs_to_abort pp))"
| stopped: "fe_reach self live \<Longrightarrow> external ids self \<Longrightarrow> abort_requests ids self = Ok (gone, self') \<Longrightarrow>
    fe_reach self' (live - set gone)"
| mailboxes: "fe_reach self live \<Longrightarrow> fe_reach (self\<lparr>op_queues := Q\<rparr>) live"

lemma abort_requests_total_inv:
  assumes "op_inv self" and "external ids self"
  shows "\<exists>gone self'. abort_requests ids self = Ok (gone, self') \<and> aborted ids gone self self'"
  unfolding abort_requests_def by (rule abort_loop_total [OF assms]) simp

lemma fe_reach_inv: "fe_reach self live \<Longrightarrow> op_inv self \<and> known self = live"
proof (induction rule: fe_reach.induct)
  case (start tokenizer log_stats)
  show ?case by (auto simp: op_inv_def OutputProcessor_init_def linked_def known_def)
next
  case (added self live a rid request prompt queue sent self')
  with engine_add_inv [of self a rid request prompt queue sent self'] show ?case by simp
next
  case (processed self live outs env ts it pp it' self')
  with process_outputs_inv [of self env outs ts it pp it' self'] show ?case by simp
next
  case (stopped self live ids gone self')
  with abort_requests_total_inv [of self ids] have "aborted ids gone self self'" by auto
  with stopped show ?case by (auto simp: aborted_def known_def)
next
  case (mailboxes self live Q)
  then show ?case by (simp add: op_inv_def known_def)
qed

text \<open>A tokenizer in which every token is one character.\<close>

definition char_tokenizer :: tokenizer where
  "char_tokenizer =
     \<lparr>tk_fast_class = True, tk_is_fast = True, tk_len = 1000, tk_decode = (\<lambda>ids. Some (map nat ids)),
      tk_raw_decode = map nat, tk_step = (\<lambda>skip ids t. Step (Some [nat t])), tk_added_tokens = [],
      tk_convert_ids = (\<lambda>skip ids. map (\<lambda>t. Some [nat t]) ids), tk_to_string = (\<lambda>ts. Ok (concat (map the ts))),
      tk_special_tokens = [], tk_added_vocab = []\<rparr>"

definition demo_request :: "request_output_kind \<Rightarrow> engine_core_request" where
  "demo_request kind =
     \<lparr>ecr_request_id = ''r'', ecr_prompt_token_ids = [1, 2], ecr_sampling = Some (demo_params kind 1 [[98, 99]]),
      ecr_pooling = None, ecr_arrival_time = 0, ecr_lora = None\<rparr>"

definition demo_engine_output :: "int list \<Rightarrow> finish_reason option \<Rightarrow> engine_core_output" where
  "demo_engine_output toks fr =
     \<lparr>eo_request_id = ''r'', eo_new_token_ids = toks, eo_new_logprobs = None, eo_prompt_logprobs = None,
      eo_pooling_output = None, eo_finish_reason = fr, eo_stop_reason = None, eo_events = None, eo_kv_params = None,
      eo_num_cached_tokens = 0\<rparr>"

definition demo_env :: logprob_env where
  "demo_env = \<lparr>row_of = (\<lambda>_. \<lparr>row_token_ids = [], row_logprobs = [], row_rank = 0\<rparr>), tensor_of = (\<lambda>_. (0, [])), fadd = (\<lambda>x y. x)\<rparr>"

definition demo_processor :: output_processor where
  "demo_processor = OutputProcessor_init (Some (\<lambda>_. char_tokenizer)) False"

fun ok_of :: "'a res \<Rightarrow> 'a" where
  "ok_of (Ok x) = x"
| "ok_of (Err e) = undefined"

definition demo_pair :: "engine_core_request list \<times> output_processor" where
  "demo_pair = ok_of (engine_add_request ''r''
     ((demo_request DELTA)\<lparr>ecr_sampling := Some (demo_params FINAL_ONLY 2 [])\<rparr>) None None 0 demo_processor)"

lemma demo_pair_reach: "fe_reach (snd demo_pair) {''0_r'', ''1_r''}"
proof -
  let ?r = "(demo_request DELTA)\<lparr>ecr_sampling := Some (demo_params FINAL_ONLY 2 [])\<rparr>"
  have "case engine_add_request ''r'' ?r None None 0 demo_processor of Ok _ \<Rightarrow> True | Err _ \<Rightarrow> False" by code_simp
  then have run: "engine_add_request ''r'' ?r None None 0 demo_processor = Ok (fst demo_pair, snd demo_pair)"
    by (simp add: demo_pair_def split: res.splits)
  have ids: "map ecr_request_id (fst demo_pair) = [''0_r'', ''1_r'']" by code_simp
  have "fe_reach demo_processor {}" unfolding demo_processor_def by (rule fe_reach.start)
  from fe_reach.added [OF this _ _ run] have "fe_reach (snd demo_pair) ({} \<union> ecr_request_id ` set (fst demo_pair))"
    by (simp add: demo_processor_def OutputProcessor_init_def)
  moreover have "ecr_request_id ` set (fst demo_pair) = {''0_r'', ''1_r''}" using arg_cong [OF ids, of set] by simp
  ultimately show ?thesis by simp
qed

text \<open>
  C13. In every history the front end knows exactly the requests the engine core still has: those
  it sent, less those reported finished, less those it asked to abort because a stop string
  ended them or the caller gave up.  No parent outlives its children: when no request is left,
  the table of parents is empty.
\<close>

theorem frontend_tracks_engine:
  assumes "fe_reach self live"
  shows "set (map fst (op_request_states self)) = live \<and> get_num_unfinished_requests_op self = card live \<and>
    (has_unfinished_requests_op self \<longleftrightarrow> live \<noteq> {}) \<and> (live = {} \<longrightarrow> op_parent_requests self = [])"
proof -
  have inv: "op_inv self" and live: "known self = live" using fe_reach_inv [OF assms] by auto
  have keys: "set (map fst (op_request_states self)) = live"
    using live by (simp add: known_def dom_map_of_conv_image_fst)
  have "length (op_request_states self) = card live"
    using inv keys distinct_card [of "map fst (op_request_states self)"] by (simp add: op_inv_def wf_dict_def)
  moreover have "op_parent_requests self = []" if "live = {}"
  proof (rule ccontr)
    assume "op_parent_requests self \<noteq> []"
    then have "map_of (op_parent_requests self) \<noteq> Map.empty" by simp
    then obtain i a where ia: "map_of (op_parent_requests self) i = Some a" by (auto simp: fun_eq_iff)
    have l: "linked (map_of (op_request_states self)) (map_of (op_parent_requests self)) (op_parents self)"
      using inv by (simp add: op_inv_def)
    obtain p where "op_parents self a = Some p" "pr_request_id p = i" and p: "pr_child_requests p \<noteq> []"
      and "distinct (pr_child_requests p)" and
      c: "\<forall>c \<in> set (pr_child_requests p). \<exists>st. map_of (op_request_states self) c = Some st \<and> rs_parent_req st = Some a"
      by (rule linked_table [OF l ia])
    with that live show False using p c by (cases "pr_child_requests p") (auto simp: known_def)
  qed
  ultimately show ?thesis using keys
    by (auto simp: get_num_unfinished_requests_op_def has_unfinished_requests_op_def)
qed

theorem frontend_tracks_engine_witness:
  "set (map fst (op_request_states (snd demo_pair))) = {''0_r'', ''1_r''} \<and>
   get_num_unfinished_requests_op (snd demo_pair) = 2 \<and> has_unfinished_requests_op (snd demo_pair)"
  using frontend_tracks_engine [OF demo_pair_reach] by simp

text \<open>
  C36. Aborting never fails: for any ids, except those of single children, it returns the ids of
  the requests that were running under them, which are the ones it forgets, and no other
  request is touched.  Afterwards no id of the list is running, and an id that stands for a
  parent takes all children with it.
\<close>

theorem abort_requests_complete:
  assumes "fe_reach self live" and "external ids self"
  shows "\<exists>gone self'. abort_requests ids self = Ok (gone, self') \<and> set gone \<subseteq> live \<and>
    map_of (op_request_states self') = (map_of (op_request_states self)) |` (- set gone) \<and>
    (\<forall>k \<in> set ids. map_of (op_request_states self') k = None) \<and>
    (\<forall>k \<in> set ids. \<forall>a p. k \<notin> live \<and> map_of (op_parent_requests self) k = Some a \<and> op_parents self a = Some p \<longrightarrow>
       set (pr_child_requests p) \<subseteq> set gone)"
proof -
  have inv: "op_inv self" and live: "known self = live" using fe_reach_inv [OF assms(1)] by auto
  from abort_requests_total_inv [OF inv assms(2)] obtain gone self' where
    run: "abort_requests ids self = Ok (gone, self')" and ab: "aborted ids gone self self'" by blast
  have "set (pr_child_requests p) \<subseteq> set gone"
    if k: "k \<in> set ids" "k \<notin> live" "map_of (op_parent_requests self) k = Some a" "op_parents self a = Some p" for k a p
  proof
    have l: "linked (map_of (op_request_states self)) (map_of (op_parent_requests self)) (op_parents self)"
      using inv by (simp add: op_inv_def)
    obtain q where q: "op_parents self a = Some q" "pr_request_id q = k"
      "\<forall>c \<in> set (pr_child_requests q). \<exists>st. map_of (op_request_states self) c = Some st \<and> rs_parent_req st = Some a"
      by (rule linked_table [OF l k(3)]) blast
    fix c assume "c \<in> set (pr_child_requests p)"
    with q k(4) obtain st where st: "map_of (op_request_states self) c = Some st" "rs_parent_req st = Some a"
      "pr_request_id p = k" by auto
    show "c \<in> set gone"
    proof (rule ccontr)
      assume "c \<notin> set gone"
      with ab st have st': "map_of (op_request_states self') c = Some st" by (simp add: aborted_def)
      have "op_inv self'" "op_parents self' = op_parents self" using ab by (simp_all add: aborted_def)
      then have l: "linked (map_of (op_request_states self')) (map_of (op_parent_requests self')) (op_parents self)"
        by (simp add: op_inv_def)
      obtain q where "op_parents self a = Some q" "map_of (op_parent_requests self') (pr_request_id q) = Some a"
        by (rule linked_parent [OF l st' st(2)]) blast
      with st(3) k(4) have "map_of (op_parent_requests self') k = Some a" by simp
      with ab k(1,2) live show False by (auto simp: aborted_def)
    qed
  qed
  with run ab live show ?thesis by (intro exI [of _ gone] exI [of _ self']) (auto simp: aborted_def known_def)
qed

theorem abort_requests_complete_witness:
  "\<exists>gone self'. abort_requests [''r''] (snd demo_pair) = Ok (gone, self') \<and> set gone \<subseteq> {''0_r'', ''1_r''}"
proof -
  have "''r'' \<notin> known (snd demo_pair)" using fe_reach_inv [OF demo_pair_reach] by simp
  then have "external [''r''] (snd demo_pair)" by (simp add: external_def known_def domIff)
  from abort_requests_complete [OF demo_pair_reach this] show ?thesis
    by (elim exE conjE) (intro exI conjI, assumption+)
qed

end
