(* ===== verification/Output_Streaming.thy ===== *)
theory Output_Streaming
  imports Output_Processing
begin

text \<open>
  The text a caller gets in pieces and the text a caller gets at the end: one request is followed
  through the output processor in both modes, and the two agree.
\<close>

section \<open>The position of the stream does not matter for the text\<close>

lemma offset_last:
  "d\<lparr>dt_last_offset := x, dt_decoder := y\<rparr> = d\<lparr>dt_decoder := y, dt_last_offset := x\<rparr>"
  "d\<lparr>dt_last_offset := x, dt_token_ids := ts\<rparr> = d\<lparr>dt_token_ids := ts, dt_last_offset := x\<rparr>"
  "d\<lparr>dt_last_offset := x, dt_output_text := s\<rparr> = d\<lparr>dt_output_text := s, dt_last_offset := x\<rparr>"
  by simp_all

lemma decode_next_offset:
  "decode_next t (d\<lparr>dt_last_offset := x\<rparr>) = rbind (decode_next t d) (\<lambda>(s, d'). Ok (s, d'\<lparr>dt_last_offset := x\<rparr>))"
  by (simp add: decode_next_def rbind_assoc case_prod_unfold offset_last split: decoder.split)

lemma append_token_offset:
  "append_token t (d\<lparr>dt_last_offset := x\<rparr>) = rbind (append_token t d) (\<lambda>d'. Ok (d'\<lparr>dt_last_offset := x\<rparr>))"
  by (cases "decode_next t (d\<lparr>dt_token_ids := dt_token_ids d @ [t]\<rparr>)")
    (auto simp: append_token_def decode_next_offset offset_last)

lemma append_tokens_offset:
  "rfold append_token ts (d\<lparr>dt_last_offset := x\<rparr>) = rbind (rfold append_token ts d) (\<lambda>d'. Ok (d'\<lparr>dt_last_offset := x\<rparr>))"
proof (induction ts arbitrary: d)
  case (Cons t ts)
  show ?case by (cases "append_token t d") (simp_all add: append_token_offset Cons.IH)
qed simp

lemma evaluate_stop_strings_offset:
  "evaluate_stop_strings n (d\<lparr>dt_last_offset := x\<rparr>) =
     (case evaluate_stop_strings n d of (s, d') \<Rightarrow> (s, d'\<lparr>dt_last_offset := x\<rparr>))"
  by (simp add: evaluate_stop_strings_def offset_last split: option.split prod.split)

lemma update_offset:
  "detokenizer_update toks stop (d\<lparr>dt_last_offset := x\<rparr>) =
     rbind (detokenizer_update toks stop d) (\<lambda>(s, d'). Ok (s, d'\<lparr>dt_last_offset := x\<rparr>))"
proof -
  have "base_update toks stop (d\<lparr>dt_last_offset := x\<rparr>) =
      rbind (base_update toks stop d) (\<lambda>(s, d'). Ok (s, d'\<lparr>dt_last_offset := x\<rparr>))"
  proof (cases "toks = []")
    case False
    let ?ts = "if stop \<and> \<not> dt_include_stop_str d then butlast toks else toks"
    show ?thesis using False
      by (cases "rfold append_token ?ts d")
        (auto simp: base_update_def Let_def append_tokens_offset evaluate_stop_strings_offset offset_last case_prod_unfold)
  qed (simp add: base_update_def)
  then show ?thesis by (simp add: detokenizer_update_def split: decoder.split)
qed

section \<open>Tokens\<close>

fun prompt_len_of :: "decoder \<Rightarrow> int" where
  "prompt_len_of (Slow_Decoder tk sd) = sd_prompt_len sd"
| "prompt_len_of _ = 0"

lemma output_token_ids_drop: "output_token_ids_of d = py_drop (dt_token_ids d) (prompt_len_of (dt_decoder d))"
  by (cases "dt_decoder d") (simp_all add: output_token_ids_of_def py_drop_def clamp_index_def)

lemma py_drop_append: "0 \<le> n \<Longrightarrow> n \<le> int (length xs) \<Longrightarrow> py_drop (xs @ ys) n = py_drop xs n @ ys"
  by (simp add: py_drop_def clamp_index_def)

lemma append_token_prompt:
  assumes "append_token t d = Ok d'"
  shows "prompt_len_of (dt_decoder d') = prompt_len_of (dt_decoder d)"
  using assms
  by (cases "dt_decoder d")
    (auto simp: append_token_def decode_next_def slow_decode_next_def rbind_eq_Ok)

lemma append_tokens_prompt:
  "rfold append_token ts d = Ok d' \<Longrightarrow> prompt_len_of (dt_decoder d') = prompt_len_of (dt_decoder d)"
proof (induction ts arbitrary: d)
  case (Cons t ts)
  from Cons.prems obtain d1 where "append_token t d = Ok d1" "rfold append_token ts d1 = Ok d'" by (auto simp: rbind_eq_Ok)
  with Cons.IH [of d1] append_token_prompt [of t d d1] show ?case by simp
qed simp

lemma evaluate_stop_strings_frame:
  "dt_decoder (snd (evaluate_stop_strings n d)) = dt_decoder d"
  "dt_token_ids (snd (evaluate_stop_strings n d)) = dt_token_ids d"
  "dt_last_offset (snd (evaluate_stop_strings n d)) = dt_last_offset d"
  by (simp_all add: evaluate_stop_strings_def split: option.split prod.split)

lemma update_prompt:
  assumes "detokenizer_update toks stop d = Ok (s, d')" and "dt_decoder d \<noteq> No_Decoder"
  shows "prompt_len_of (dt_decoder d') = prompt_len_of (dt_decoder d)"
proof (cases "toks = []")
  case True
  with assms have "d' = d" by (auto simp: detokenizer_update_def base_update_def split: decoder.splits)
  then show ?thesis by simp
next
  case False
  let ?ts = "if stop \<and> \<not> dt_include_stop_str d then butlast toks else toks"
  have "base_update toks stop d = Ok (s, d')" using assms by (simp add: detokenizer_update_def split: decoder.splits)
  then obtain d1 where d1: "rfold append_token ?ts d = Ok d1"
    and r: "(if stop then Ok (None, if stop \<and> \<not> dt_include_stop_str d then d1\<lparr>dt_token_ids := dt_token_ids d1 @ [last toks]\<rparr> else d1)
        else Ok (evaluate_stop_strings (length (dt_output_text d)) d1)) = Ok (s, d')"
    using False by (simp only: base_update_def Let_def if_False rbind_eq_Ok) blast
  have "dt_decoder d' = dt_decoder d1"
    using r evaluate_stop_strings_frame(1) [of "length (dt_output_text d)" d1] by (auto split: if_splits)
  with append_tokens_prompt [OF d1] show ?thesis by simp
qed

lemma update_tokens:
  assumes "streaming d sent" and "detokenizer_update toks stop d = Ok (s, d')"
    and "0 \<le> prompt_len_of (dt_decoder d)" and "prompt_len_of (dt_decoder d) \<le> int (length (dt_token_ids d))"
  shows "output_token_ids_of d' = output_token_ids_of d @ toks" and "dt_token_ids d' = dt_token_ids d @ toks"
    and "prompt_len_of (dt_decoder d') = prompt_len_of (dt_decoder d)"
proof -
  have st: "dt_decoder d \<noteq> No_Decoder" "\<forall>w \<in> set (dt_stop d). w \<noteq> []" "stop_free (dt_stop d) (dt_output_text d)"
    using assms(1) by (auto simp: streaming_def)
  show p: "prompt_len_of (dt_decoder d') = prompt_len_of (dt_decoder d)" by (rule update_prompt [OF assms(2) st(1)])
  show t: "dt_token_ids d' = dt_token_ids d @ toks"
    using assms(2) st by (cases rule: update_cases) simp_all
  show "output_token_ids_of d' = output_token_ids_of d @ toks"
    using assms(3,4) by (simp add: output_token_ids_drop p t py_drop_append)
qed

section \<open>One output of a request without parent and mailbox\<close>

definition plain_request :: "string \<Rightarrow> request_state \<Rightarrow> bool" where
  "plain_request k st \<longleftrightarrow> rs_request_id st = k \<and> rs_parent_req st = None \<and> rs_queue st = None \<and> rs_request_index st = 0"

lemma plain_same: "plain_request k st \<Longrightarrow> same_request st st' \<Longrightarrow> plain_request k st'"
  by (simp add: plain_request_def same_request_def)

text \<open>What is sent for one output, and the detokenizer that is kept.\<close>

definition sends ::
  "request_output_kind \<Rightarrow> int list \<Rightarrow> bool \<Rightarrow> detokenizer \<Rightarrow> frontend_output list \<Rightarrow> detokenizer \<Rightarrow> bool" where
  "sends kind toks fin d r d' \<longleftrightarrow>
     (if \<not> fin \<and> kind = FINAL_ONLY then r = [] \<and> d' = d
      else \<exists>ro c. r = [Completion_Output ro] \<and> ro_outputs ro = [Some c] \<and> ro_finished ro = fin \<and> co_index c = 0 \<and>
        get_next_output_text fin (kind = DELTA) d = (co_text c, d') \<and>
        co_token_ids c = (if kind = DELTA then toks else output_token_ids_of d'))"

lemma make_request_output_plain:
  assumes "make_request_output toks None fr why kv n st self = Ok (r, st', self')" and "rs_parent_req st = None"
    and "rs_detokenizer st = Some d" and "rs_request_index st = 0"
  shows "\<exists>d'. sends (rs_output_kind st) toks (fr \<noteq> None) d (case r of None \<Rightarrow> [] | Some x \<Rightarrow> [x]) d' \<and>
    rs_detokenizer st' = Some d'"
proof (cases "fr = None \<and> rs_output_kind st = FINAL_ONLY")
  case True
  with assms(1,3) show ?thesis by (auto simp: make_request_output_def sends_def)
next
  case ne: False
  then obtain c st1 where c: "new_completion_output toks fr why st = Ok (c, st1)" and
    rest: "(case rs_parent_req st1 of
        None \<Rightarrow> rbind (new_request_output (rs_request_id st1) [Some c] (fr \<noteq> None) kv n st1) (\<lambda>(r, st2). Ok (Some r, st2, self))
      | Some a \<Rightarrow>
          rbind (parent_at a self) (\<lambda>p.
          rbind (parent_get_outputs (rs_request_id st1) c p) (\<lambda>((rid, outputs, fin), p1).
          let self1 = self\<lparr>op_parents := (op_parents self)(a \<mapsto> p1)\<rparr>
          in if outputs = [] then Ok (None, st1, self1)
             else rbind (new_request_output rid outputs fin kv n st1) (\<lambda>(r, st2). Ok (Some r, st2, self1)))))
      = Ok (r, st', self')"
    using assms(1) unfolding make_request_output_def Let_def by (auto simp: rbind_eq_Ok split: if_splits)
  from c obtain d' lpp s d2 where f: "rs_detokenizer st = Some d'" "rs_logprobs_processor st = Some lpp"
    "get_next_output_text (fr \<noteq> None) (rs_output_kind st = DELTA) d' = (s, d2)" "st1 = st\<lparr>rs_detokenizer := Some d2\<rparr>"
    "co_text c = s" "co_token_ids c = (if rs_output_kind st = DELTA then toks else output_token_ids_of d2)"
    "co_finished c \<longleftrightarrow> fr \<noteq> None" "co_index c = rs_request_index st" by (rule new_completion_output_frame)
  from rest f(4) assms(2) obtain x where x: "new_request_output (rs_request_id st1) [Some c] (fr \<noteq> None) kv n st1 = Ok (x, st')"
    "r = Some x" by (auto simp: rbind_eq_Ok)
  from x(1) obtain ro lpp' where "x = Completion_Output ro" "ro_outputs ro = [Some c]" "ro_finished ro = (fr \<noteq> None)"
    "ro_request_id ro = rs_request_id st1" "st' = st1\<lparr>rs_logprobs_processor := Some lpp'\<rparr>" by (rule new_request_output_frame)
  with x f assms(3,4) ne show ?thesis by (auto simp: sends_def)
qed

definition finish_of :: "ustring option \<Rightarrow> engine_core_output \<Rightarrow> finish_reason option" where
  "finish_of stop out = (case stop of Some (c # cs) \<Rightarrow> Some STOP | _ \<Rightarrow> eo_finish_reason out)"

lemma plain_delivered:
  assumes "process_output env ts out acc = Ok acc'" and "eo_request_id out = k" and "eo_pooling_output out = None"
    and "map_of (op_request_states (pa_self acc)) k = Some st" and "plain_request k st" and "rs_detokenizer st = Some d"
  obtains stop d1 st3 why self1 r st4 self2 acc1 where
    "detokenizer_update (eo_new_token_ids out) (eo_finish_reason out = Some STOP) d = Ok (stop, d1)"
    and "same_request st st3" and "rs_detokenizer st3 = Some d1"
    and "make_request_output (eo_new_token_ids out) None (finish_of stop out) why (eo_kv_params out)
           (eo_num_cached_tokens out) st3 self1 = Ok (r, st4, self2)" and "same_request st st4"
    and "op_request_states (pa_self acc1) = AList.update k st4 (op_request_states self2)"
    and "pa_outputs acc1 = pa_outputs acc @ (case r of None \<Rightarrow> [] | Some x \<Rightarrow> [x])"
    and "(case finish_of stop out of None \<Rightarrow> Ok acc1 | Some f \<Rightarrow> free_completed out f st4 acc1) = Ok acc'"
proof -
  from assms(1) assms(4) [folded assms(2)] obtain st1 self1 it stop st3 fr why r st4 self2 acc1 where
    a: "op_update_stats_from_output out ts st (pa_self acc, pa_stats acc) = Ok (st1, self1, it)"
    and b: "(if eo_pooling_output out = None then detokenize_and_logprobs env out (st1\<lparr>rs_is_prefilling := False\<rparr>)
          else Ok (None, st1\<lparr>rs_is_prefilling := False\<rparr>)) = Ok (stop, st3)"
    and fr: "fr = (case stop of Some (c # cs) \<Rightarrow> Some STOP | _ \<Rightarrow> eo_finish_reason out)"
    and m: "make_request_output (eo_new_token_ids out) (eo_pooling_output out) fr why (eo_kv_params out)
           (eo_num_cached_tokens out) st3 self1 = Ok (r, st4, self2)"
    and dl: "deliver r st4 (acc\<lparr>pa_self := self2\<lparr>op_request_states :=
           AList.update (eo_request_id out) st4 (op_request_states self2)\<rparr>, pa_stats := it\<rparr>) = Ok acc1"
    and e: "(case fr of None \<Rightarrow> Ok acc1 | Some f \<Rightarrow> free_completed out f st4 acc1) = Ok acc'"
    by (rule process_output_steps)
  from a have st1: "same_request st st1" "rs_detokenizer st1 = Some d"
    using assms(6) by (auto elim!: op_update_stats_frame)
  from b assms(3) have "detokenize_and_logprobs env out (st1\<lparr>rs_is_prefilling := False\<rparr>) = Ok (stop, st3)" by simp
  then obtain d0 d1 lpp lpp' where "rs_detokenizer (st1\<lparr>rs_is_prefilling := False\<rparr>) = Some d0"
    "rs_logprobs_processor (st1\<lparr>rs_is_prefilling := False\<rparr>) = Some lpp" and
    upd: "detokenizer_update (eo_new_token_ids out) (eo_finish_reason out = Some STOP) d0 = Ok (stop, d1)" and
    "logprobs_update_from_output env out lpp = Ok lpp'" and
    st3: "st3 = st1\<lparr>rs_is_prefilling := False, rs_detokenizer := Some d1, rs_logprobs_processor := Some lpp'\<rparr>"
    by (rule detokenize_and_logprobs_frame)
  then have d0: "d0 = d" and same3: "same_request st st3" using st1 by (simp_all add: same_request_def)
  have k3: "rs_request_id st3 = k" using assms(5) same3 by (simp add: plain_request_def same_request_def)
  obtain H where "self2 = self1\<lparr>op_parents := H\<rparr>" and same4: "same_request st3 st4"
    by (rule make_request_output_frame [OF m k3])
  have same: "same_request st st4" by (rule same_request_trans [OF same3 same4])
  then have q4: "rs_queue st4 = None" using assms(5) by (simp add: plain_request_def same_request_def)
  let ?acc = "acc\<lparr>pa_self := self2\<lparr>op_request_states := AList.update k st4 (op_request_states self2)\<rparr>, pa_stats := it\<rparr>"
  from dl obtain Q outs where acc1: "acc1 = ?acc\<lparr>pa_self := (pa_self ?acc)\<lparr>op_queues := Q\<rparr>, pa_outputs := outs\<rparr>"
    and outs: "outs = pa_outputs acc @ (case r of None \<Rightarrow> [] | Some x \<Rightarrow> [x])"
    unfolding assms(2) by (rule deliver_frame) (use q4 in simp)
  from m e have "make_request_output (eo_new_token_ids out) None (finish_of stop out) why (eo_kv_params out)
      (eo_num_cached_tokens out) st3 self1 = Ok (r, st4, self2)"
    "(case finish_of stop out of None \<Rightarrow> Ok acc1 | Some f \<Rightarrow> free_completed out f st4 acc1) = Ok acc'"
    by (simp_all add: finish_of_def fr assms(3))
  with upd d0 same3 st3 same acc1 outs show thesis by (intro that [of stop d1 st3]) simp_all
qed

lemma plain_output:
  assumes "process_output env ts out acc = Ok acc'" and "eo_request_id out = k" and "eo_pooling_output out = None"
    and "map_of (op_request_states (pa_self acc)) k = Some st" and "plain_request k st" and "rs_detokenizer st = Some d"
  obtains stop d1 d2 st' r where
    "detokenizer_update (eo_new_token_ids out) (eo_finish_reason out = Some STOP) d = Ok (stop, d1)"
    and "map_of (op_request_states (pa_self acc')) k = (if finish_of stop out = None then Some st' else None)"
    and "same_request st st'" and "pa_outputs acc' = pa_outputs acc @ r"
    and "sends (rs_output_kind st) (eo_new_token_ids out) (finish_of stop out \<noteq> None) d1 r d2"
    and "rs_detokenizer st' = Some d2"
proof (rule plain_delivered [OF assms])
  fix stop d1 st3 why self1 st4 self2 acc1 and r :: "frontend_output option"
  let ?fr = "finish_of stop out" and ?r = "case r of None \<Rightarrow> [] | Some x \<Rightarrow> [x]"
  assume upd: "detokenizer_update (eo_new_token_ids out) (eo_finish_reason out = Some STOP) d = Ok (stop, d1)"
    and st3: "same_request st st3" "rs_detokenizer st3 = Some d1"
    and m: "make_request_output (eo_new_token_ids out) None ?fr why (eo_kv_params out) (eo_num_cached_tokens out) st3 self1
      = Ok (r, st4, self2)" and st4: "same_request st st4"
    and acc1: "op_request_states (pa_self acc1) = AList.update k st4 (op_request_states self2)" "pa_outputs acc1 = pa_outputs acc @ ?r"
    and e: "(case ?fr of None \<Rightarrow> Ok acc1 | Some f \<Rightarrow> free_completed out f st4 acc1) = Ok acc'"
  have "map_of (op_request_states (pa_self acc')) k = (if ?fr = None then Some st4 else None) \<and> pa_outputs acc' = pa_outputs acc1"
  proof (cases ?fr)
    case None
    with e have "acc' = acc1" by simp
    with None acc1 show ?thesis by (simp add: update_conv')
  next
    case (Some f)
    with e have "free_completed out f st4 acc1 = Ok acc'" by simp
    then have "op_request_states (pa_self acc') = AList.delete k (op_request_states (pa_self acc1))" "pa_outputs acc' = pa_outputs acc1"
      by (auto elim!: free_completed_frame [OF _ assms(2)])
    with Some show ?thesis by (simp add: delete_conv')
  qed
  moreover have "rs_parent_req st3 = None" "rs_output_kind st3 = rs_output_kind st" "rs_request_index st3 = 0"
    using st3(1) assms(5) by (simp_all add: same_request_def plain_request_def)
  moreover from make_request_output_plain [OF m this(1) st3(2) this(3)] obtain d2 where
    "sends (rs_output_kind st3) (eo_new_token_ids out) (?fr \<noteq> None) d1 ?r d2" "rs_detokenizer st4 = Some d2" by blast
  ultimately show thesis using upd st4 acc1(2) by (intro that [of stop d1 st4 ?r d2]) simp_all
qed

section \<open>Two callers of the same request\<close>

definition output_text :: "frontend_output \<Rightarrow> ustring" where
  "output_text out = (case out of Completion_Output r \<Rightarrow> at_index 0 co_text (ro_outputs r) | _ \<Rightarrow> [])"

definition output_tokens :: "frontend_output \<Rightarrow> int list" where
  "output_tokens out = (case out of Completion_Output r \<Rightarrow> at_index 0 co_token_ids (ro_outputs r) | _ \<Rightarrow> [])"

text \<open>The same request, streamed in one processor and collected in the other, between two outputs.\<close>

definition in_step ::
  "string \<Rightarrow> frontend_output list \<Rightarrow> frontend_output list \<Rightarrow> process_acc \<Rightarrow> process_acc \<Rightarrow> bool" where
  "in_step k pre pre' acc acc' \<longleftrightarrow> (\<exists>st st' d.
     map_of (op_request_states (pa_self acc)) k = Some st \<and> plain_request k st \<and> rs_output_kind st = DELTA \<and>
     map_of (op_request_states (pa_self acc')) k = Some st' \<and> plain_request k st' \<and> rs_output_kind st' = FINAL_ONLY \<and>
     rs_detokenizer st = Some d \<and> rs_detokenizer st' = Some (d\<lparr>dt_last_offset := 0\<rparr>) \<and>
     streaming d (concat (map output_text (pre @ pa_outputs acc))) \<and>
     output_token_ids_of d = concat (map output_tokens (pre @ pa_outputs acc)) \<and>
     0 \<le> prompt_len_of (dt_decoder d) \<and> prompt_len_of (dt_decoder d) \<le> int (length (dt_token_ids d)) \<and>
     pre' @ pa_outputs acc' = [])"

definition both_done ::
  "string \<Rightarrow> frontend_output list \<Rightarrow> frontend_output list \<Rightarrow> process_acc \<Rightarrow> process_acc \<Rightarrow> bool" where
  "both_done k pre pre' acc acc' \<longleftrightarrow> map_of (op_request_states (pa_self acc)) k = None \<and>
     map_of (op_request_states (pa_self acc')) k = None \<and>
     (\<exists>ro c. pre' @ pa_outputs acc' = [Completion_Output ro] \<and> ro_outputs ro = [Some c] \<and> ro_finished ro \<and>
        co_text c = concat (map output_text (pre @ pa_outputs acc)) \<and>
        co_token_ids c = concat (map output_tokens (pre @ pa_outputs acc)))"

lemma finished_text: "dt_decoder d \<noteq> No_Decoder \<Longrightarrow> get_next_output_text True False d = (dt_output_text d, d)"
  by (cases "dt_decoder d") (simp_all add: get_next_output_text_def)

lemma next_text_frame:
  assumes "get_next_output_text fin delta d = (s, d')"
  shows "d'\<lparr>dt_last_offset := x\<rparr> = d\<lparr>dt_last_offset := x\<rparr>"
  using assms by (auto simp: get_next_output_text_def Let_def split: decoder.splits if_splits)

lemma output_token_ids_offset [simp]: "output_token_ids_of (d\<lparr>dt_last_offset := x\<rparr>) = output_token_ids_of d"
  by (simp add: output_token_ids_drop)

lemma update_stop_nonempty:
  assumes "streaming d sent" and "detokenizer_update toks stop d = Ok (s, d')"
  shows "s \<noteq> Some []" and "dt_decoder d' \<noteq> No_Decoder"
proof -
  have st: "dt_decoder d \<noteq> No_Decoder" "\<forall>w \<in> set (dt_stop d). w \<noteq> []" "stop_free (dt_stop d) (dt_output_text d)"
    using assms(1) by (auto simp: streaming_def)
  show "s \<noteq> Some []" using assms(2) st by (cases rule: update_cases) (use st(2) in auto)
  show "dt_decoder d' \<noteq> No_Decoder" using assms(2) st by (cases rule: update_cases) auto
qed

lemma in_step_step:
  assumes "in_step k pre pre' acc acc'" and "eo_request_id out = k" and "eo_pooling_output out = None"
    and "process_output env ts out acc = Ok acc1" and "process_output env ts out acc' = Ok acc1'"
  shows "in_step k pre pre' acc1 acc1' \<or> both_done k pre pre' acc1 acc1'"
proof -
  let ?sent = "concat (map output_text (pre @ pa_outputs acc))"
  obtain st st' d where
    st: "map_of (op_request_states (pa_self acc)) k = Some st" "plain_request k st" "rs_output_kind st = DELTA" "rs_detokenizer st = Some d"
    and st': "map_of (op_request_states (pa_self acc')) k = Some st'" "plain_request k st'" "rs_output_kind st' = FINAL_ONLY"
      "rs_detokenizer st' = Some (d\<lparr>dt_last_offset := 0\<rparr>)"
    and d: "streaming d ?sent" "output_token_ids_of d = concat (map output_tokens (pre @ pa_outputs acc))"
      "0 \<le> prompt_len_of (dt_decoder d)" "prompt_len_of (dt_decoder d) \<le> int (length (dt_token_ids d))"
    and empty: "pre' @ pa_outputs acc' = []"
    using assms(1) unfolding in_step_def by auto
  from assms(4,2,3) st(1,2,4) obtain stop d1 d2 s1 r where
    upd: "detokenizer_update (eo_new_token_ids out) (eo_finish_reason out = Some STOP) d = Ok (stop, d1)"
    and S1: "map_of (op_request_states (pa_self acc1)) k = (if finish_of stop out = None then Some s1 else None)"
    and s1: "same_request st s1" and o1: "pa_outputs acc1 = pa_outputs acc @ r"
    and r: "sends (rs_output_kind st) (eo_new_token_ids out) (finish_of stop out \<noteq> None) d1 r d2"
    and d2: "rs_detokenizer s1 = Some d2" by (rule plain_output)
  from assms(5,2,3) st'(1,2,4) obtain stop' d1' d2' s1' r' where
    upd': "detokenizer_update (eo_new_token_ids out) (eo_finish_reason out = Some STOP) (d\<lparr>dt_last_offset := 0\<rparr>) = Ok (stop', d1')"
    and S1': "map_of (op_request_states (pa_self acc1')) k = (if finish_of stop' out = None then Some s1' else None)"
    and s1': "same_request st' s1'" and o1': "pa_outputs acc1' = pa_outputs acc' @ r'"
    and r': "sends (rs_output_kind st') (eo_new_token_ids out) (finish_of stop' out \<noteq> None) d1' r' d2'"
    and d2': "rs_detokenizer s1' = Some d2'" by (rule plain_output)
  have same: "stop' = stop" "d1' = d1\<lparr>dt_last_offset := 0\<rparr>" using upd upd' by (auto simp: update_offset)
  obtain ro c where rr: "r = [Completion_Output ro]" "ro_outputs ro = [Some c]" "co_index c = 0"
    "get_next_output_text (finish_of stop out \<noteq> None) True d1 = (co_text c, d2)"
    "co_token_ids c = eo_new_token_ids out" using r st(3) by (auto simp: sends_def)
  have tx: "concat (map output_text (pre @ pa_outputs acc1)) = ?sent @ co_text c"
    and tok: "concat (map output_tokens (pre @ pa_outputs acc1)) = concat (map output_tokens (pre @ pa_outputs acc)) @ eo_new_token_ids out"
    using o1 rr by (simp_all add: output_text_def output_tokens_def)
  note ut = update_tokens [OF d(1) upd d(3,4)]
  have frame: "d2\<lparr>dt_last_offset := 0\<rparr> = d1\<lparr>dt_last_offset := 0\<rparr>" by (rule next_text_frame [OF rr(4)])
  show ?thesis
  proof (cases "finish_of stop out")
    case None
    then have run: "detokenizer_update (eo_new_token_ids out) False d = Ok (None, d1)"
      using upd update_stop_nonempty(1) [OF d(1) upd] by (auto simp: finish_of_def split: option.splits list.splits)
    have "streaming d2 (concat (map output_text (pre @ pa_outputs acc1)))"
      unfolding tx using None rr(4) by (intro streaming_step [OF d(1) run]) simp
    moreover have "dt_decoder d2 = dt_decoder d1" "dt_token_ids d2 = dt_token_ids d1"
      using frame by (metis detokenizer.select_convs(7) detokenizer.surjective detokenizer.update_convs(5),
          metis detokenizer.select_convs(1) detokenizer.surjective detokenizer.update_convs(5))
    moreover have "r' = []" "d2' = d2\<lparr>dt_last_offset := 0\<rparr>" using r' st'(3) None same frame by (auto simp: sends_def)
    ultimately have "in_step k pre pre' acc1 acc1'" unfolding in_step_def
      using None S1 S1' s1 s1' d2 d2' st st' same o1' empty tok ut d by (intro exI [of _ s1] exI [of _ s1'] exI [of _ d2])
        (auto simp: plain_same output_token_ids_drop same_request_def)
    then show ?thesis ..
  next
    case (Some f)
    have dec: "dt_decoder d1' \<noteq> No_Decoder" using update_stop_nonempty(2) [OF d(1) upd] same(2) by simp
    have "?sent @ co_text c = dt_output_text d1" using Some rr(4) by (intro streaming_last [OF d(1) upd]) simp
    with r' Some same st'(3) finished_text [OF dec] have "both_done k pre pre' acc1 acc1'"
      using S1 S1' o1' empty tx tok ut(1) d(2) by (auto simp: both_done_def sends_def)
    then show ?thesis ..
  qed
qed

lemma both_done_step:
  assumes "both_done k pre pre' acc acc'" and "eo_request_id out = k"
    and "process_output env ts out acc = Ok acc1" and "process_output env ts out acc' = Ok acc1'"
  shows "both_done k pre pre' acc1 acc1'"
  using assms by (simp add: both_done_def process_output_def)

lemma agree_run:
  assumes "in_step k pre pre' acc acc' \<or> both_done k pre pre' acc acc'"
    and "\<forall>out \<in> set outs. eo_request_id out = k \<and> eo_pooling_output out = None"
    and "rfold (process_output env ts) outs acc = Ok acc1" and "rfold (process_output env ts) outs acc' = Ok acc1'"
  shows "in_step k pre pre' acc1 acc1' \<or> both_done k pre pre' acc1 acc1'"
  using assms
proof (induction outs arbitrary: acc acc')
  case (Cons out outs)
  from Cons.prems(3) obtain a where a: "process_output env ts out acc = Ok a" "rfold (process_output env ts) outs a = Ok acc1"
    by (auto simp: rbind_eq_Ok)
  from Cons.prems(4) obtain a' where a': "process_output env ts out acc' = Ok a'" "rfold (process_output env ts) outs a' = Ok acc1'"
    by (auto simp: rbind_eq_Ok)
  have "eo_request_id out = k" "eo_pooling_output out = None" using Cons.prems(2) by auto
  with Cons.prems(1) a(1) a'(1) have "in_step k pre pre' a a' \<or> both_done k pre pre' a a'"
    using in_step_step [of k pre pre' acc acc' out env ts a a'] both_done_step [of k pre pre' acc acc' out env ts a a'] by blast
  from Cons.IH [OF this _ a(2) a'(2)] Cons.prems(2) show ?case by auto
qed simp

text \<open>The engine serves a request with one call per engine step.\<close>

fun serve ::
  "logprob_env \<Rightarrow> (engine_core_output list \<times> int option \<times> iteration_stats option) list \<Rightarrow> output_processor
   \<Rightarrow> (frontend_output list \<times> output_processor) res" where
  "serve env [] self = Ok ([], self)"
| "serve env ((outs, ts, it) # steps) self =
     rbind (process_outputs env outs ts it self) (\<lambda>(pp, _, self1).
     rbind (serve env steps self1) (\<lambda>(rs, self2). Ok (pp_request_outputs pp @ rs, self2)))"

lemma agree_serve:
  assumes "in_step k pre pre' \<lparr>pa_self = self, pa_stats = i, pa_outputs = [], pa_aborts = []\<rparr>
        \<lparr>pa_self = self', pa_stats = i', pa_outputs = [], pa_aborts = []\<rparr> \<or>
      both_done k pre pre' \<lparr>pa_self = self, pa_stats = i, pa_outputs = [], pa_aborts = []\<rparr>
        \<lparr>pa_self = self', pa_stats = i', pa_outputs = [], pa_aborts = []\<rparr>"
    and "\<forall>(outs, ts, it) \<in> set steps. \<forall>out \<in> set outs. eo_request_id out = k \<and> eo_pooling_output out = None"
    and "serve env steps self = Ok (rs, self1)" and "serve env steps self' = Ok (rs', self1')"
  shows "if k \<in> known self1 then k \<in> known self1' \<and> pre' @ rs' = []
    else k \<notin> known self1' \<and> (\<exists>ro c. pre' @ rs' = [Completion_Output ro] \<and> ro_outputs ro = [Some c] \<and> ro_finished ro \<and>
      co_text c = concat (map output_text (pre @ rs)) \<and> co_token_ids c = concat (map output_tokens (pre @ rs)))"
  using assms
proof (induction steps arbitrary: pre pre' self self' rs rs' i i')
  case Nil
  then show ?case by (auto simp: in_step_def both_done_def known_def)
next
  case (Cons step steps)
  obtain outs ts it where step: "step = (outs, ts, it)" by (cases step)
  let ?acc = "\<lparr>pa_self = self, pa_stats = it, pa_outputs = [], pa_aborts = []\<rparr>"
    and ?acc' = "\<lparr>pa_self = self', pa_stats = it, pa_outputs = [], pa_aborts = []\<rparr>"
  from Cons.prems(3) step obtain a rest where a: "rfold (process_output env ts) outs ?acc = Ok a"
    "serve env steps (pa_self a) = Ok (rest, self1)" "rs = pa_outputs a @ rest"
    by (auto simp: process_outputs_def rbind_eq_Ok)
  from Cons.prems(4) step obtain a' rest' where a': "rfold (process_output env ts) outs ?acc' = Ok a'"
    "serve env steps (pa_self a') = Ok (rest', self1')" "rs' = pa_outputs a' @ rest'"
    by (auto simp: process_outputs_def rbind_eq_Ok)
  have "in_step k pre pre' ?acc ?acc' \<or> both_done k pre pre' ?acc ?acc'"
    using Cons.prems(1) by (simp add: in_step_def both_done_def)
  moreover have "\<forall>out \<in> set outs. eo_request_id out = k \<and> eo_pooling_output out = None" using Cons.prems(2) step by auto
  ultimately have "in_step k pre pre' a a' \<or> both_done k pre pre' a a'" using a(1) a'(1) by (rule agree_run)
  then have start: "in_step k (pre @ pa_outputs a) (pre' @ pa_outputs a')
        \<lparr>pa_self = pa_self a, pa_stats = i, pa_outputs = [], pa_aborts = []\<rparr>
        \<lparr>pa_self = pa_self a', pa_stats = i', pa_outputs = [], pa_aborts = []\<rparr> \<or>
      both_done k (pre @ pa_outputs a) (pre' @ pa_outputs a')
        \<lparr>pa_self = pa_self a, pa_stats = i, pa_outputs = [], pa_aborts = []\<rparr>
        \<lparr>pa_self = pa_self a', pa_stats = i', pa_outputs = [], pa_aborts = []\<rparr>"
    by (simp add: in_step_def both_done_def)
  have "\<forall>(outs, ts, it) \<in> set steps. \<forall>out \<in> set outs. eo_request_id out = k \<and> eo_pooling_output out = None"
    using Cons.prems(2) by auto
  from Cons.IH [OF start this a(2) a'(2)] show ?case unfolding a(3) a'(3) append_assoc .
qed

lemma add_plain_state:
  assumes "op_add_request request prompt None 0 None self = Ok self'" and "ecr_sampling request = Some params"
    and "sp_detokenize params" and "op_tokenizer self = Some f" and "\<forall>w \<in> set (sp_stop params). w \<noteq> []"
  obtains st d where "map_of (op_request_states self') (ecr_request_id request) = Some st"
    and "plain_request (ecr_request_id request) st" and "rs_output_kind st = sp_output_kind params" and "rs_detokenizer st = Some d"
    and "detokenizer_from_new_request (Some (f (ecr_lora request))) request = Ok d"
proof -
  from assms(1,4) obtain st where
    st: "RequestState_from_new_request (Some (f (ecr_lora request))) request prompt None 0 None (op_log_stats self) = Ok st"
    and S: "op_request_states self' = AList.update (ecr_request_id request) st (op_request_states self)"
    by (auto simp: op_add_request_def Let_def rbind_eq_Ok split: if_splits)
  from st assms(2,3) obtain d where "detokenizer_from_new_request (Some (f (ecr_lora request))) request = Ok d"
    "rs_detokenizer st = Some d" "rs_output_kind st = sp_output_kind params"
    by (auto simp: RequestState_from_new_request_def Let_def rbind_eq_Ok)
  with S from_new_request_fields [OF st] show thesis by (intro that [of st d]) (simp_all add: plain_request_def update_conv')
qed

lemma new_detokenizer_tokens:
  assumes "detokenizer_from_new_request (Some tk) request = Ok d"
  shows "output_token_ids_of d = []" and "0 \<le> prompt_len_of (dt_decoder d)"
    and "prompt_len_of (dt_decoder d) \<le> int (length (dt_token_ids d))" and "dt_last_offset d = 0"
  using assms
  by (auto simp: detokenizer_from_new_request_def base_init_def slow_init_def Let_def rbind_eq_Ok output_token_ids_drop
      py_drop_def clamp_index_def case_prod_unfold split: option.splits if_splits)

lemma detokenizer_kind_irrelevant:
  assumes "ecr_sampling request = Some params"
  shows "detokenizer_from_new_request tk (request\<lparr>ecr_sampling := Some (params\<lparr>sp_output_kind := kind\<rparr>)\<rparr>) =
    detokenizer_from_new_request tk request"
  using assms by (simp add: detokenizer_from_new_request_def base_init_def fast_init_def slow_init_def split: option.split)

text \<open>
  C12. A caller that is streamed the deltas and a caller that waits for the final output of the same
  request get the same text and the same tokens: whatever the engine core reports, in however
  many steps, and whether a stop string, a stop token or the length ends the request.  While
  the request runs, the second caller gets nothing; when it ends, exactly one output, whose
  text is the concatenation of all deltas.
\<close>

theorem streamed_equals_final:
  assumes "ecr_sampling request = Some params" and "sp_output_kind params = DELTA" and "sp_detokenize params"
    and "op_tokenizer self = Some f" and "\<forall>w \<in> set (sp_stop params). w \<noteq> []"
    and "op_add_request request prompt None 0 None self = Ok self1"
    and "op_add_request (request\<lparr>ecr_sampling := Some (params\<lparr>sp_output_kind := FINAL_ONLY\<rparr>)\<rparr>) prompt None 0 None self = Ok self2"
    and "\<forall>(outs, ts, it) \<in> set steps. \<forall>out \<in> set outs.
      eo_request_id out = ecr_request_id request \<and> eo_pooling_output out = None"
    and "serve env steps self1 = Ok (deltas, self1')" and "serve env steps self2 = Ok (finals, self2')"
  shows "if ecr_request_id request \<in> set (map fst (op_request_states self1')) then finals = []
    else \<exists>ro c. finals = [Completion_Output ro] \<and> ro_outputs ro = [Some c] \<and> ro_finished ro \<and>
      co_text c = concat (map output_text deltas) \<and> co_token_ids c = concat (map output_tokens deltas)"
proof -
  let ?k = "ecr_request_id request" and ?r2 = "request\<lparr>ecr_sampling := Some (params\<lparr>sp_output_kind := FINAL_ONLY\<rparr>)\<rparr>"
  obtain st d where st: "map_of (op_request_states self1) ?k = Some st" "plain_request ?k st" "rs_output_kind st = sp_output_kind params"
    "rs_detokenizer st = Some d" and d: "detokenizer_from_new_request (Some (f (ecr_lora request))) request = Ok d"
    by (rule add_plain_state [OF assms(6,1,3-5)])
  have p2: "ecr_sampling ?r2 = Some (params\<lparr>sp_output_kind := FINAL_ONLY\<rparr>)"
    "sp_detokenize (params\<lparr>sp_output_kind := FINAL_ONLY\<rparr>)" "\<forall>w \<in> set (sp_stop (params\<lparr>sp_output_kind := FINAL_ONLY\<rparr>)). w \<noteq> []"
    using assms(3,5) by simp_all
  obtain st' d' where st': "map_of (op_request_states self2) (ecr_request_id ?r2) = Some st'" "plain_request (ecr_request_id ?r2) st'"
    "rs_output_kind st' = sp_output_kind (params\<lparr>sp_output_kind := FINAL_ONLY\<rparr>)" "rs_detokenizer st' = Some d'"
    and d': "detokenizer_from_new_request (Some (f (ecr_lora ?r2))) ?r2 = Ok d'"
    by (rule add_plain_state [OF assms(7) p2(1,2) assms(4) p2(3)])
  have "d' = d" using d d' detokenizer_kind_irrelevant [OF assms(1)] by simp
  moreover have "d\<lparr>dt_last_offset := 0\<rparr> = d" using new_detokenizer_tokens(4) [OF d] by simp
  moreover note new_detokenizer_tokens [OF d] streaming_init [OF d assms(1,5)]
  ultimately have "in_step ?k [] [] \<lparr>pa_self = self1, pa_stats = None, pa_outputs = [], pa_aborts = []\<rparr>
      \<lparr>pa_self = self2, pa_stats = None, pa_outputs = [], pa_aborts = []\<rparr>"
    unfolding in_step_def using st st' assms(2) by (intro exI [of _ st] exI [of _ st'] exI [of _ d]) simp
  then have "if ?k \<in> known self1' then ?k \<in> known self2' \<and> [] @ finals = []
      else ?k \<notin> known self2' \<and> (\<exists>ro c. [] @ finals = [Completion_Output ro] \<and> ro_outputs ro = [Some c] \<and> ro_finished ro \<and>
        co_text c = concat (map output_text ([] @ deltas)) \<and> co_token_ids c = concat (map output_tokens ([] @ deltas)))"
    by (intro agree_serve [OF disjI1 assms(8-10)])
  then show ?thesis by (auto simp: known_def dom_map_of_conv_image_fst split: if_splits)
qed

definition demo_steps :: "(engine_core_output list \<times> int option \<times> iteration_stats option) list" where
  "demo_steps = map (\<lambda>toks. ([demo_engine_output toks None], None, None)) [[97], [98], [97, 98], [99, 100]]"

definition demo_added :: "request_output_kind \<Rightarrow> output_processor" where
  "demo_added kind = ok_of (op_add_request (demo_request kind) None None 0 None demo_processor)"

lemma demo_added_Ok: "op_add_request (demo_request kind) None None 0 None demo_processor = Ok (demo_added kind)"
proof -
  have "case op_add_request (demo_request kind) None None 0 None demo_processor of Ok _ \<Rightarrow> True | Err _ \<Rightarrow> False"
    by (cases kind; code_simp)
  then show ?thesis by (simp add: demo_added_def split: res.splits)
qed

lemma demo_serve_Ok:
  "\<exists>self'. serve demo_env demo_steps (demo_added DELTA) = Ok (fst (ok_of (serve demo_env demo_steps (demo_added DELTA))), self') \<and>
     ''r'' \<notin> set (map fst (op_request_states self'))"
  "\<exists>finals self'. serve demo_env demo_steps (demo_added FINAL_ONLY) = Ok (finals, self')"
proof -
  have "case serve demo_env demo_steps (demo_added DELTA) of Ok (rs, s) \<Rightarrow> ''r'' \<notin> set (map fst (op_request_states s)) | Err _ \<Rightarrow> False"
    by code_simp
  then show "\<exists>self'. serve demo_env demo_steps (demo_added DELTA) = Ok (fst (ok_of (serve demo_env demo_steps (demo_added DELTA))), self') \<and>
     ''r'' \<notin> set (map fst (op_request_states self'))"
    by (cases "serve demo_env demo_steps (demo_added DELTA)") (auto simp: case_prod_unfold)
  have "case serve demo_env demo_steps (demo_added FINAL_ONLY) of Ok _ \<Rightarrow> True | Err _ \<Rightarrow> False" by code_simp
  then show "\<exists>finals self'. serve demo_env demo_steps (demo_added FINAL_ONLY) = Ok (finals, self')"
    by (cases "serve demo_env demo_steps (demo_added FINAL_ONLY)") auto
qed

text \<open>The text is \<open>ababcd\<close>, cut before the stop string \<open>bc\<close>: the characters 97, 98, 97.\<close>

lemma demo_deltas: "map output_text (fst (ok_of (serve demo_env demo_steps (demo_added DELTA)))) = [[], [97], [98, 97], []]"
  by code_simp

theorem streamed_equals_final_witness:
  "\<exists>finals self' ro c. serve demo_env demo_steps (demo_added FINAL_ONLY) = Ok (finals, self') \<and>
     finals = [Completion_Output ro] \<and> ro_outputs ro = [Some c] \<and> co_text c = [97, 98, 97]"
proof -
  obtain self1 where d: "serve demo_env demo_steps (demo_added DELTA) = Ok (fst (ok_of (serve demo_env demo_steps (demo_added DELTA))), self1)"
    "''r'' \<notin> set (map fst (op_request_states self1))" using demo_serve_Ok(1) by blast
  obtain finals self2 where f: "serve demo_env demo_steps (demo_added FINAL_ONLY) = Ok (finals, self2)" using demo_serve_Ok(2) by blast
  have r: "ecr_sampling (demo_request DELTA) = Some (demo_params DELTA 1 [[98, 99]])"
    "(demo_request DELTA)\<lparr>ecr_sampling := Some ((demo_params DELTA 1 [[98, 99]])\<lparr>sp_output_kind := FINAL_ONLY\<rparr>)\<rparr> = demo_request FINAL_ONLY"
    by (simp_all add: demo_request_def demo_params_def)
  have steps: "\<forall>(outs, ts, it) \<in> set demo_steps. \<forall>out \<in> set outs.
      eo_request_id out = ecr_request_id (demo_request DELTA) \<and> eo_pooling_output out = None"
    by (simp add: demo_steps_def demo_engine_output_def demo_request_def)
  have p: "sp_output_kind (demo_params DELTA 1 [[98, 99]]) = DELTA" "sp_detokenize (demo_params DELTA 1 [[98, 99]])"
    "op_tokenizer demo_processor = Some (\<lambda>_. char_tokenizer)" "\<forall>w \<in> set (sp_stop (demo_params DELTA 1 [[98, 99]])). w \<noteq> []"
    by (simp_all add: demo_params_def demo_processor_def OutputProcessor_init_def)
  have id: "ecr_request_id (demo_request DELTA) = ''r''" by (simp add: demo_request_def)
  have "concat (map output_text (fst (ok_of (serve demo_env demo_steps (demo_added DELTA))))) = [97, 98, 97]"
    by (simp add: demo_deltas)
  with streamed_equals_final [OF r(1) p demo_added_Ok [of DELTA] demo_added_Ok [of FINAL_ONLY, folded r(2)] steps d(1) f] d(2)
  show ?thesis unfolding id using f by auto
qed

text \<open>
  A stop token ends the check for stop strings: when one step brings the text of a stop string and
  then a stop token, the stop string stays in the output although it was to be left out.
\<close>

lemma stop_token_hides_stop_string:
  "(case serve demo_env [([demo_engine_output [98, 99, 2] (Some STOP)], None, None)] (demo_added FINAL_ONLY) of
      Ok (rs, s) \<Rightarrow> map output_text rs = [[98, 99]] | Err _ \<Rightarrow> False)"
  by code_simp

text \<open>
  Without statistics a request of a LoRA adapter is entered into the set of waiting requests and
  never taken out: the set keeps the ids of all requests that ever finished.
\<close>

lemma lora_waiting_leak:
  "(case rbind (op_add_request ((demo_request DELTA)\<lparr>ecr_lora := Some \<lparr>lora_name = ''l'', lora_int_id = 1\<rparr>\<rparr>)
            None None 0 None demo_processor)
          (serve demo_env [([demo_engine_output [97] (Some LENGTH)], None, None)]) of
      Ok (rs, s) \<Rightarrow> length (op_request_states s) = 0 \<and> map (ls_waiting \<circ> snd) (op_lora_states s) = [{''r''}]
    | Err _ \<Rightarrow> False)"
  by code_simp

end
