(* ===== verification/Block_Table.thy ===== *)
theory Block_Table
  imports Prelude
begin

text \<open>
  \<open>v1/worker/block_table.py\<close>: the table a worker keeps of the KV-cache blocks of the requests in
  its batch, one table per KV-cache group, and the slot of the KV cache every scheduled token is
  written to.

  Arrays of numpy and torch are lists of fixed length; \<open>block_table_np\<close> and \<open>block_table_cpu\<close> are
  two names of one array, and so are \<open>slot_mapping_np\<close> and \<open>slot_mapping_cpu\<close>.  Block numbers are
  kept in arrays of 32 bits, in which they fit, and the product with the block size is computed at
  that width.  Rows are numbered from 0 by the callers, so negative row numbers do not occur.
\<close>

section \<open>Arrays\<close>

definition arr_get :: "nat \<Rightarrow> 'a list \<Rightarrow> 'a res" where
  "arr_get i xs = (if i < length xs then Ok (xs ! i) else Err IndexError)"

definition arr_set :: "nat \<Rightarrow> 'a \<Rightarrow> 'a list \<Rightarrow> 'a list res" where
  "arr_set i v xs = (if i < length xs then Ok (xs[i := v]) else Err IndexError)"

text \<open>\<open>row[a:b] = vs\<close>: a slice is clipped to the array, and the values must have its length or be one
  value, which is repeated.\<close>

definition np_assign :: "int \<Rightarrow> int \<Rightarrow> 'a list \<Rightarrow> 'a list \<Rightarrow> 'a list res" where
  "np_assign a b vs row =
     (let i = clamp_index (length row) a; j = max i (clamp_index (length row) b)
      in if length vs = j - i then Ok (take i row @ vs @ drop j row)
         else if length vs = 1 then Ok (take i row @ replicate (j - i) (hd vs) @ drop j row)
         else Err ValueError)"

definition wrap32 :: "int \<Rightarrow> int" where
  "wrap32 x = (x + 2 ^ 31) mod 2 ^ 32 - 2 ^ 31"

lemma wrap32_id: "- (2 ^ 31) \<le> x \<Longrightarrow> x < 2 ^ 31 \<Longrightarrow> wrap32 x = x"
  by (simp add: wrap32_def)

lemma arr_get_Ok [res_simps]: "arr_get i xs = Ok x \<longleftrightarrow> i < length xs \<and> x = xs ! i"
  by (auto simp: arr_get_def)

lemma arr_set_Ok [res_simps]: "arr_set i v xs = Ok ys \<longleftrightarrow> i < length xs \<and> ys = xs[i := v]"
  by (auto simp: arr_set_def)

lemma arr_get_in [simp]: "i < length xs \<Longrightarrow> arr_get i xs = Ok (xs ! i)"
  by (simp add: arr_get_def)

lemma arr_set_in [simp]: "i < length xs \<Longrightarrow> arr_set i v xs = Ok (xs[i := v])"
  by (simp add: arr_set_def)

lemma clamp_index_le [simp]: "clamp_index n i \<le> n"
  by (auto simp: clamp_index_def)

lemma length_np_assign: "np_assign a b vs row = Ok row' \<Longrightarrow> length row' = length row"
  using clamp_index_le [of "length row" a] clamp_index_le [of "length row" b]
  by (auto simp: np_assign_def Let_def max_def split: if_splits)

lemma np_assign_fits:
  assumes "a + length vs \<le> length row"
  shows "np_assign (int a) (int a + int (length vs)) vs row = Ok (take a row @ vs @ drop (a + length vs) row)"
proof -
  have "clamp_index (length row) (int a) = a" "clamp_index (length row) (int a + int (length vs)) = a + length vs"
    using assms by (auto simp: clamp_index_def)
  then show ?thesis by (simp add: np_assign_def)
qed

lemma take_np_assign:
  "a + length vs \<le> length row \<Longrightarrow> take (a + length vs) (take a row @ vs @ drop (a + length vs) row) = take a row @ vs"
  by simp

section \<open>The table of one group\<close>

record block_table =
  bt_block_size :: int
  bt_max_blocks :: int
  bt_rows :: "int list list"
  bt_num_blocks :: "int list"
  bt_slots :: "int list"
  bt_device :: "int list list"
  bt_slots_device :: "int list"

definition BlockTable_init :: "int \<Rightarrow> int \<Rightarrow> int \<Rightarrow> int \<Rightarrow> block_table res" where
  "BlockTable_init block_size max_num_reqs max_num_blocks_per_req max_num_batched_tokens =
     (if max_num_reqs < 0 \<or> max_num_blocks_per_req < 0 \<or> max_num_batched_tokens < 0 then Err RuntimeError
      else
        let zeros = replicate (nat max_num_reqs) (replicate (nat max_num_blocks_per_req) 0);
            slots = replicate (nat max_num_batched_tokens) 0
        in Ok \<lparr>bt_block_size = block_size, bt_max_blocks = max_num_blocks_per_req, bt_rows = zeros,
               bt_num_blocks = replicate (nat max_num_reqs) 0, bt_slots = slots, bt_device = zeros,
               bt_slots_device = slots\<rparr>)"

definition append_row :: "int list \<Rightarrow> nat \<Rightarrow> block_table \<Rightarrow> block_table res" where
  "append_row block_ids row_idx t =
     (if block_ids = [] then Ok t
      else
        let num_blocks = int (length block_ids) in
        rbind (arr_get row_idx (bt_num_blocks t)) (\<lambda>start.
        rbind (arr_set row_idx (start + num_blocks) (bt_num_blocks t)) (\<lambda>ns.
        rbind (arr_get row_idx (bt_rows t)) (\<lambda>row.
        rbind (np_assign start (start + num_blocks) block_ids row) (\<lambda>row'.
        rbind (arr_set row_idx row' (bt_rows t)) (\<lambda>rows.
        Ok (t\<lparr>bt_num_blocks := ns, bt_rows := rows\<rparr>)))))))"

definition add_row :: "int list \<Rightarrow> nat \<Rightarrow> block_table \<Rightarrow> block_table res" where
  "add_row block_ids row_idx t =
     rbind (arr_set row_idx 0 (bt_num_blocks t)) (\<lambda>ns.
     append_row block_ids row_idx (t\<lparr>bt_num_blocks := ns\<rparr>))"

definition move_row :: "nat \<Rightarrow> nat \<Rightarrow> block_table \<Rightarrow> block_table res" where
  "move_row src tgt t =
     rbind (arr_get src (bt_num_blocks t)) (\<lambda>num_blocks.
     rbind (arr_get src (bt_rows t)) (\<lambda>from.
     rbind (arr_get tgt (bt_rows t)) (\<lambda>to_row.
     rbind (np_assign 0 num_blocks (py_slice from 0 num_blocks) to_row) (\<lambda>row'.
     rbind (arr_set tgt row' (bt_rows t)) (\<lambda>rows.
     rbind (arr_set tgt num_blocks (bt_num_blocks t)) (\<lambda>ns.
     Ok (t\<lparr>bt_rows := rows, bt_num_blocks := ns\<rparr>)))))))"

text \<open>Indexing with a list of rows copies them, so the exchange of two rows is safe.\<close>

definition swap_row :: "nat \<Rightarrow> nat \<Rightarrow> block_table \<Rightarrow> block_table res" where
  "swap_row src tgt t =
     rbind (arr_get src (bt_num_blocks t)) (\<lambda>num_blocks_src.
     rbind (arr_get tgt (bt_num_blocks t)) (\<lambda>num_blocks_tgt.
     rbind (arr_get src (bt_rows t)) (\<lambda>row_src.
     rbind (arr_get tgt (bt_rows t)) (\<lambda>row_tgt.
     Ok (t\<lparr>bt_num_blocks := (bt_num_blocks t)[src := num_blocks_tgt, tgt := num_blocks_src],
           bt_rows := (bt_rows t)[src := row_tgt, tgt := row_src]\<rparr>)))))"

text \<open>The slot of one token.  The table is read as one flat array, where a negative index counts
  from the end.\<close>

definition token_slot :: "block_table \<Rightarrow> nat \<times> int \<Rightarrow> int res" where
  "token_slot t p =
     (let block_table_index = int (fst p) * bt_max_blocks t + snd p div bt_block_size t
      in rbind (py_index (concat (bt_rows t)) block_table_index) (\<lambda>block_number.
         Ok (wrap32 (block_number * bt_block_size t) + snd p mod bt_block_size t)))"

text \<open>Division by a block size of zero gives zero in numpy, as in HOL; the remainder is zero
  there and the dividend here, and no block size is zero.  The two arrays have the same length; that
  numpy would repeat an array of one element is left out.\<close>

definition compute_slot_mapping :: "nat list \<Rightarrow> int list \<Rightarrow> block_table \<Rightarrow> block_table res" where
  "compute_slot_mapping req_indices positions t =
     (if length positions \<noteq> length req_indices then Err ValueError
      else rbind (rmap (token_slot t) (zip req_indices positions)) (\<lambda>slots.
           if length (bt_slots t) < length slots then Err ValueError
           else Ok (t\<lparr>bt_slots := slots @ drop (length slots) (bt_slots t)\<rparr>)))"

definition commit_block_table :: "nat \<Rightarrow> block_table \<Rightarrow> block_table" where
  "commit_block_table num_reqs t =
     t\<lparr>bt_device := take num_reqs (bt_rows t) @ drop num_reqs (bt_device t)\<rparr>"

definition commit_slot_mapping :: "nat \<Rightarrow> block_table \<Rightarrow> block_table" where
  "commit_slot_mapping num_tokens t =
     t\<lparr>bt_slots_device := take num_tokens (bt_slots t) @ drop num_tokens (bt_slots_device t)\<rparr>"

definition table_clear :: "block_table \<Rightarrow> block_table" where
  "table_clear t = t\<lparr>bt_device := map (map (\<lambda>_. 0)) (bt_device t), bt_rows := map (map (\<lambda>_. 0)) (bt_rows t)\<rparr>"

section \<open>The tables of all groups\<close>

definition MultiGroupBlockTable_init :: "int \<Rightarrow> int \<Rightarrow> int \<Rightarrow> int list \<Rightarrow> block_table list res" where
  "MultiGroupBlockTable_init max_num_reqs max_model_len max_num_batched_tokens block_sizes =
     rmap (\<lambda>block_size.
       if block_size = 0 then Err ZeroDivisionError
       else BlockTable_init block_size max_num_reqs (cdiv max_model_len block_size) max_num_batched_tokens)
       block_sizes"

text \<open>The loops that pass each group its part of \<open>block_ids\<close>; too few parts raise, more are ignored.\<close>

fun for_groups :: "(int list \<Rightarrow> block_table \<Rightarrow> block_table res) \<Rightarrow> int list list \<Rightarrow> block_table list \<Rightarrow> block_table list res" where
  "for_groups f block_ids [] = Ok []"
| "for_groups f [] (t # ts) = Err IndexError"
| "for_groups f (ids # block_ids) (t # ts) =
     rbind (f ids t) (\<lambda>t'. rbind (for_groups f block_ids ts) (\<lambda>ts'. Ok (t' # ts')))"

definition tables_append_row :: "int list list \<Rightarrow> nat \<Rightarrow> block_table list \<Rightarrow> block_table list res" where
  "tables_append_row block_ids row_idx ts = for_groups (\<lambda>ids t. append_row ids row_idx t) block_ids ts"

definition tables_add_row :: "int list list \<Rightarrow> nat \<Rightarrow> block_table list \<Rightarrow> block_table list res" where
  "tables_add_row block_ids row_idx ts = for_groups (\<lambda>ids t. add_row ids row_idx t) block_ids ts"

definition tables_move_row :: "nat \<Rightarrow> nat \<Rightarrow> block_table list \<Rightarrow> block_table list res" where
  "tables_move_row src tgt ts = rmap (move_row src tgt) ts"

definition tables_swap_row :: "nat \<Rightarrow> nat \<Rightarrow> block_table list \<Rightarrow> block_table list res" where
  "tables_swap_row src tgt ts = rmap (swap_row src tgt) ts"

definition tables_compute_slot_mapping :: "nat list \<Rightarrow> int list \<Rightarrow> block_table list \<Rightarrow> block_table list res" where
  "tables_compute_slot_mapping req_indices positions ts = rmap (compute_slot_mapping req_indices positions) ts"

definition tables_commit_block_table :: "nat \<Rightarrow> block_table list \<Rightarrow> block_table list" where
  "tables_commit_block_table num_reqs ts = map (commit_block_table num_reqs) ts"

definition tables_commit_slot_mapping :: "nat \<Rightarrow> block_table list \<Rightarrow> block_table list" where
  "tables_commit_slot_mapping num_tokens ts = map (commit_slot_mapping num_tokens) ts"

definition tables_clear :: "block_table list \<Rightarrow> block_table list" where
  "tables_clear ts = map table_clear ts"

section \<open>Rows as lists of blocks\<close>

definition wf_table :: "nat \<Rightarrow> block_table \<Rightarrow> bool" where
  "wf_table n t \<longleftrightarrow> 0 < bt_block_size t \<and> 0 \<le> bt_max_blocks t \<and> length (bt_rows t) = n \<and> length (bt_num_blocks t) = n \<and>
     (\<forall>row \<in> set (bt_rows t). int (length row) = bt_max_blocks t) \<and>
     (\<forall>k \<in> set (bt_num_blocks t). 0 \<le> k \<and> k \<le> bt_max_blocks t)"

definition row_blocks :: "nat \<Rightarrow> block_table \<Rightarrow> int list" where
  "row_blocks i t = take (nat (bt_num_blocks t ! i)) (bt_rows t ! i)"

lemma wf_tableD:
  assumes "wf_table n t" and "i < n"
  shows "i < length (bt_rows t)" and "i < length (bt_num_blocks t)"
    and "int (length (bt_rows t ! i)) = bt_max_blocks t"
    and "0 \<le> bt_num_blocks t ! i" and "bt_num_blocks t ! i \<le> bt_max_blocks t"
  using assms by (auto simp: wf_table_def)

lemma length_row_blocks: "wf_table n t \<Longrightarrow> i < n \<Longrightarrow> int (length (row_blocks i t)) = bt_num_blocks t ! i"
  using wf_tableD [of n t i] by (auto simp: row_blocks_def min_def)

lemma wf_table_upd:
  assumes "wf_table n t" and "i < n" and "int (length row) = bt_max_blocks t" and "0 \<le> k" and "k \<le> bt_max_blocks t"
  shows "wf_table n (t\<lparr>bt_num_blocks := (bt_num_blocks t)[i := k], bt_rows := (bt_rows t)[i := row]\<rparr>)"
  using assms set_update_subset_insert [of "bt_rows t" i row] set_update_subset_insert [of "bt_num_blocks t" i k]
  by (auto simp: wf_table_def)

text \<open>What a change of a table comes to: the lists of blocks of its rows afterwards.\<close>

definition rows_become :: "nat \<Rightarrow> (nat \<Rightarrow> int list) \<Rightarrow> block_table \<Rightarrow> block_table \<Rightarrow> bool" where
  "rows_become n f t t' \<longleftrightarrow> wf_table n t' \<and> (\<forall>j<n. row_blocks j t' = f j) \<and>
     bt_block_size t' = bt_block_size t \<and> bt_max_blocks t' = bt_max_blocks t \<and> bt_slots t' = bt_slots t"

lemma append_row_spec:
  assumes "wf_table n t" and "i < n" and "int (length (row_blocks i t) + length ids) \<le> bt_max_blocks t"
  shows "\<exists>t'. append_row ids i t = Ok t' \<and> rows_become n ((\<lambda>j. row_blocks j t)(i := row_blocks i t @ ids)) t t'"
proof (cases "ids = []")
  case True
  then show ?thesis using assms by (auto simp: append_row_def rows_become_def)
next
  case False
  define a where "a = nat (bt_num_blocks t ! i)"
  note wf = wf_tableD [OF assms(1,2)]
  have a: "bt_num_blocks t ! i = int a" using wf by (simp add: a_def)
  have fits: "a + length ids \<le> length (bt_rows t ! i)"
    using assms(3) wf a length_row_blocks [OF assms(1,2)] by linarith
  let ?row = "take a (bt_rows t ! i) @ ids @ drop (a + length ids) (bt_rows t ! i)"
  let ?t = "t\<lparr>bt_num_blocks := (bt_num_blocks t)[i := int a + int (length ids)], bt_rows := (bt_rows t)[i := ?row]\<rparr>"
  have run: "append_row ids i t = Ok ?t"
    using wf False a np_assign_fits [OF fits] by (simp add: append_row_def Let_def)
  have "wf_table n ?t"
    using wf fits assms(1,2) by (intro wf_table_upd) auto
  moreover have "row_blocks i ?t = row_blocks i t @ ids"
    using wf fits by (simp add: row_blocks_def a nat_add_distrib)
  ultimately show ?thesis using run by (auto simp: rows_become_def row_blocks_def)
qed

lemma add_row_spec:
  assumes "wf_table n t" and "i < n" and "int (length ids) \<le> bt_max_blocks t"
  shows "\<exists>t'. add_row ids i t = Ok t' \<and> rows_become n ((\<lambda>j. row_blocks j t)(i := ids)) t t'"
proof -
  note wf = wf_tableD [OF assms(1,2)]
  let ?t = "t\<lparr>bt_num_blocks := (bt_num_blocks t)[i := 0]\<rparr>"
  have "wf_table n ?t"
    using wf_table_upd [OF assms(1,2) wf(3), of 0] wf by (simp add: list_update_id)
  moreover have empty: "row_blocks i ?t = []" using wf by (simp add: row_blocks_def)
  ultimately obtain t' where t': "append_row ids i ?t = Ok t'"
    "rows_become n ((\<lambda>j. row_blocks j ?t)(i := row_blocks i ?t @ ids)) ?t t'"
    using append_row_spec [of n ?t i ids] assms(2,3) by auto
  have "(\<lambda>j. row_blocks j ?t)(i := row_blocks i ?t @ ids) = (\<lambda>j. row_blocks j t)(i := ids)"
    using empty by (auto simp: row_blocks_def fun_eq_iff)
  with t' wf show ?thesis by (auto simp: add_row_def rows_become_def)
qed

lemma move_row_spec:
  assumes "wf_table n t" and "i < n" and "k < n"
  shows "\<exists>t'. move_row i k t = Ok t' \<and> rows_become n ((\<lambda>j. row_blocks j t)(k := row_blocks i t)) t t'"
proof -
  note wf = wf_tableD [OF assms(1,2)] and wf' = wf_tableD [OF assms(1,3)]
  define a where "a = nat (bt_num_blocks t ! i)"
  have a: "bt_num_blocks t ! i = int a" using wf by (simp add: a_def)
  have le: "a \<le> length (bt_rows t ! i)" "a \<le> length (bt_rows t ! k)" using wf wf' a by linarith+
  let ?row = "take a (bt_rows t ! i) @ drop a (bt_rows t ! k)"
  let ?t = "t\<lparr>bt_num_blocks := (bt_num_blocks t)[k := int a], bt_rows := (bt_rows t)[k := ?row]\<rparr>"
  have "py_slice (bt_rows t ! i) 0 (int a) = take a (bt_rows t ! i)" by (simp add: py_slice_nonneg)
  then have "np_assign 0 (int a) (py_slice (bt_rows t ! i) 0 (int a)) (bt_rows t ! k) = Ok ?row"
    using np_assign_fits [of 0 "take a (bt_rows t ! i)" "bt_rows t ! k"] le by (simp add: min_absorb2)
  then have run: "move_row i k t = Ok ?t" using wf wf' a by (simp add: move_row_def)
  have "wf_table n ?t"
    using wf wf' a le assms(1,3) by (intro wf_table_upd) auto
  moreover have "row_blocks k ?t = row_blocks i t"
    using wf' le by (simp add: row_blocks_def a)
  ultimately show ?thesis using run by (auto simp: rows_become_def row_blocks_def)
qed

lemma swap_row_spec:
  assumes "wf_table n t" and "i < n" and "k < n"
  shows "\<exists>t'. swap_row i k t = Ok t' \<and>
     rows_become n ((\<lambda>j. row_blocks j t)(i := row_blocks k t, k := row_blocks i t)) t t'"
proof -
  note wf = wf_tableD [OF assms(1,2)] and wf' = wf_tableD [OF assms(1,3)]
  let ?s = "t\<lparr>bt_num_blocks := (bt_num_blocks t)[i := bt_num_blocks t ! k], bt_rows := (bt_rows t)[i := bt_rows t ! k]\<rparr>"
  let ?t = "t\<lparr>bt_num_blocks := (bt_num_blocks t)[i := bt_num_blocks t ! k, k := bt_num_blocks t ! i],
     bt_rows := (bt_rows t)[i := bt_rows t ! k, k := bt_rows t ! i]\<rparr>"
  have "wf_table n ?s" using wf wf' assms(1,2) by (intro wf_table_upd)
  then have "wf_table n ?t"
    using wf_table_upd [of n ?s k "bt_rows t ! i" "bt_num_blocks t ! i"] wf assms(3) by simp
  moreover have "swap_row i k t = Ok ?t" using wf wf' by (simp add: swap_row_def)
  ultimately show ?thesis using wf wf' assms(1)
    by (auto simp: rows_become_def row_blocks_def wf_table_def nth_list_update)
qed

text \<open>The width is not checked: a single block appended to a full row is lost without an error, since
  numpy lets one value fill an empty slice, and the row counts a block it does not list.\<close>

lemma append_to_full_row:
  "rbind (BlockTable_init 16 1 1 8) (\<lambda>t. rbind (append_row [5] 0 t) (append_row [6] 0)) =
     Ok \<lparr>bt_block_size = 16, bt_max_blocks = 1, bt_rows = [[5]], bt_num_blocks = [2], bt_slots = replicate 8 0,
       bt_device = [[0]], bt_slots_device = replicate 8 0\<rparr>"
  by code_simp

section \<open>Slots\<close>

lemma nth_concat_rows:
  assumes "\<forall>row \<in> set rows. length row = m" and "i < length rows" and "k < m"
  shows "i * m + k < length (concat rows)" and "concat rows ! (i * m + k) = rows ! i ! k"
proof -
  have "i * m + k < length (concat rows) \<and> concat rows ! (i * m + k) = rows ! i ! k"
    using assms
  proof (induction rows arbitrary: i)
    case (Cons row rows)
    then show ?case by (cases i) (auto simp: nth_append add.assoc)
  qed simp
  then show "i * m + k < length (concat rows)" and "concat rows ! (i * m + k) = rows ! i ! k" by auto
qed

lemma token_slot_eq:
  assumes "wf_table n t" and "i < n" and "0 \<le> p" and "p < int (length (row_blocks i t)) * bt_block_size t"
  shows "token_slot t (i, p) =
     Ok (wrap32 (row_blocks i t ! nat (p div bt_block_size t) * bt_block_size t) + p mod bt_block_size t)"
proof -
  note wf = wf_tableD [OF assms(1,2)]
  have bs: "0 < bt_block_size t" using assms(1) by (simp add: wf_table_def)
  define k where "k = nat (p div bt_block_size t)"
  define m where "m = nat (bt_max_blocks t)"
  have k: "p div bt_block_size t = int k" and m: "bt_max_blocks t = int m"
    using assms(3) bs wf by (auto simp: k_def m_def pos_imp_zdiv_nonneg_iff)
  have "p div bt_block_size t < int (length (row_blocks i t))"
    using assms(4) le_div_int_iff [OF bs, of "int (length (row_blocks i t))" p] by linarith
  then have len: "k < length (row_blocks i t)" using k by simp
  have "k < m" using len length_row_blocks [OF assms(1,2)] wf m by linarith
  moreover have "\<forall>row \<in> set (bt_rows t). length row = m" using assms(1) m by (auto simp: wf_table_def)
  ultimately have flat: "i * m + k < length (concat (bt_rows t))" "concat (bt_rows t) ! (i * m + k) = bt_rows t ! i ! k"
    using nth_concat_rows [of "bt_rows t" m i k] wf(1) by auto
  have "py_index (concat (bt_rows t)) (int (i * m + k)) = Ok (bt_rows t ! i ! k)"
    using flat by (simp only: py_index_nonneg of_nat_0_le_iff of_nat_less_iff nat_int)
  moreover have "bt_rows t ! i ! k = row_blocks i t ! k" using len by (simp add: row_blocks_def)
  ultimately show ?thesis by (simp add: token_slot_def Let_def k m flip: k_def)
qed

lemma rmap_Ok_map: "(\<And>x. x \<in> set xs \<Longrightarrow> f x = Ok (g x)) \<Longrightarrow> rmap f xs = Ok (map g xs)"
  by (induction xs) auto

definition slot_of :: "block_table \<Rightarrow> nat \<times> int \<Rightarrow> int" where
  "slot_of t p = row_blocks (fst p) t ! nat (snd p div bt_block_size t) * bt_block_size t + snd p mod bt_block_size t"

text \<open>A token of the batch: a row, and a position its blocks cover.\<close>

definition has_slot :: "nat \<Rightarrow> block_table \<Rightarrow> nat \<times> int \<Rightarrow> bool" where
  "has_slot n t p \<longleftrightarrow> fst p < n \<and> 0 \<le> snd p \<and> snd p < int (length (row_blocks (fst p) t)) * bt_block_size t"

definition blocks_fit :: "nat \<Rightarrow> block_table \<Rightarrow> bool" where
  "blocks_fit n t \<longleftrightarrow> (\<forall>i<n. \<forall>b \<in> set (row_blocks i t). 0 \<le> b \<and> b * bt_block_size t < 2 ^ 31)"

lemma has_slot_index:
  assumes "wf_table n t" and "has_slot n t p"
  shows "nat (snd p div bt_block_size t) < length (row_blocks (fst p) t)"
proof -
  have bs: "0 < bt_block_size t" using assms(1) by (simp add: wf_table_def)
  then have "snd p div bt_block_size t < int (length (row_blocks (fst p) t))"
    using assms(2) le_div_int_iff [OF bs, of "int (length (row_blocks (fst p) t))" "snd p"]
    by (simp add: has_slot_def)
  moreover have "0 \<le> snd p div bt_block_size t"
    using assms(2) bs by (simp add: has_slot_def pos_imp_zdiv_nonneg_iff)
  ultimately show ?thesis by linarith
qed

lemma token_slot_exact:
  assumes "wf_table n t" and "has_slot n t p" and "blocks_fit n t"
  shows "token_slot t p = Ok (slot_of t p)"
proof -
  let ?b = "row_blocks (fst p) t ! nat (snd p div bt_block_size t)"
  have "?b \<in> set (row_blocks (fst p) t)" using has_slot_index [OF assms(1,2)] by simp
  then have "0 \<le> ?b" "?b * bt_block_size t < 2 ^ 31" using assms(2,3) by (auto simp: blocks_fit_def has_slot_def)
  moreover have "0 < bt_block_size t" using assms(1) by (simp add: wf_table_def)
  ultimately have "wrap32 (?b * bt_block_size t) = ?b * bt_block_size t"
    by (intro wrap32_id) (auto intro: order_trans [OF _ mult_nonneg_nonneg])
  then show ?thesis
    using token_slot_eq [OF assms(1), of "fst p" "snd p"] assms(2) by (simp add: slot_of_def has_slot_def)
qed

lemma slot_of_inj:
  assumes "0 < bt_block_size t" and "slot_of t p = slot_of t q"
  shows "row_blocks (fst p) t ! nat (snd p div bt_block_size t) = row_blocks (fst q) t ! nat (snd q div bt_block_size t)"
    and "snd p mod bt_block_size t = snd q mod bt_block_size t"
proof -
  have "slot_of t p div bt_block_size t = row_blocks (fst p) t ! nat (snd p div bt_block_size t)" for p
    using assms(1) by (simp add: slot_of_def)
  moreover have "slot_of t p mod bt_block_size t = snd p mod bt_block_size t" for p
    by (simp add: slot_of_def)
  ultimately show "row_blocks (fst p) t ! nat (snd p div bt_block_size t) = row_blocks (fst q) t ! nat (snd q div bt_block_size t)"
    and "snd p mod bt_block_size t = snd q mod bt_block_size t"
    using assms(2) by metis+
qed

lemma compute_slot_mapping_exact:
  assumes "wf_table n t" and "blocks_fit n t" and "length positions = length req_indices"
    and "length req_indices \<le> length (bt_slots t)" and "\<forall>p \<in> set (zip req_indices positions). has_slot n t p"
  shows "compute_slot_mapping req_indices positions t =
     Ok (t\<lparr>bt_slots := map (slot_of t) (zip req_indices positions) @ drop (length req_indices) (bt_slots t)\<rparr>)"
proof -
  have "rmap (token_slot t) (zip req_indices positions) = Ok (map (slot_of t) (zip req_indices positions))"
    using assms token_slot_exact [OF assms(1) _ assms(2)] by (intro rmap_Ok_map) blast
  then show ?thesis using assms(3,4) by (simp add: compute_slot_mapping_def)
qed

section \<open>Tables of several groups\<close>

text \<open>The operations on rows, and what they mean for the lists of blocks \<open>R g i\<close> of row \<open>i\<close> in
  group \<open>g\<close>.\<close>

datatype row_op = AppendRow "int list list" nat | AddRow "int list list" nat | MoveRow nat nat | SwapRow nat nat

fun tables_step :: "row_op \<Rightarrow> block_table list \<Rightarrow> block_table list res" where
  "tables_step (AppendRow ids i) ts = tables_append_row ids i ts"
| "tables_step (AddRow ids i) ts = tables_add_row ids i ts"
| "tables_step (MoveRow i k) ts = tables_move_row i k ts"
| "tables_step (SwapRow i k) ts = tables_swap_row i k ts"

fun run_row_ops :: "row_op list \<Rightarrow> block_table list \<Rightarrow> block_table list res" where
  "run_row_ops [] ts = Ok ts"
| "run_row_ops (a # ops) ts = rbind (tables_step a ts) (run_row_ops ops)"

type_synonym group_rows = "nat \<Rightarrow> nat \<Rightarrow> int list"

fun rows_step :: "row_op \<Rightarrow> group_rows \<Rightarrow> group_rows" where
  "rows_step (AppendRow ids i) R = (\<lambda>g. (R g)(i := R g i @ ids ! g))"
| "rows_step (AddRow ids i) R = (\<lambda>g. (R g)(i := ids ! g))"
| "rows_step (MoveRow i k) R = (\<lambda>g. (R g)(k := R g i))"
| "rows_step (SwapRow i k) R = (\<lambda>g. (R g)(i := R g k, k := R g i))"

text \<open>An operation fits when its rows exist, it has blocks for every group, and no row becomes longer
  than the table is wide (\<open>caps\<close>).\<close>

fun op_fits :: "nat \<Rightarrow> int list \<Rightarrow> row_op \<Rightarrow> group_rows \<Rightarrow> bool" where
  "op_fits n caps (AppendRow ids i) R \<longleftrightarrow> i < n \<and> length caps \<le> length ids \<and>
     (\<forall>g < length caps. int (length (R g i) + length (ids ! g)) \<le> caps ! g)"
| "op_fits n caps (AddRow ids i) R \<longleftrightarrow> i < n \<and> length caps \<le> length ids \<and>
     (\<forall>g < length caps. int (length (ids ! g)) \<le> caps ! g)"
| "op_fits n caps (MoveRow i k) R \<longleftrightarrow> i < n \<and> k < n"
| "op_fits n caps (SwapRow i k) R \<longleftrightarrow> i < n \<and> k < n"

fun ops_fit :: "nat \<Rightarrow> int list \<Rightarrow> row_op list \<Rightarrow> group_rows \<Rightarrow> bool" where
  "ops_fit n caps [] R \<longleftrightarrow> True"
| "ops_fit n caps (a # ops) R \<longleftrightarrow> op_fits n caps a R \<and> ops_fit n caps ops (rows_step a R)"

definition table_holds :: "nat \<Rightarrow> int \<Rightarrow> int \<Rightarrow> nat \<Rightarrow> block_table \<Rightarrow> (nat \<Rightarrow> int list) \<Rightarrow> bool" where
  "table_holds n bs cap m t f \<longleftrightarrow> wf_table n t \<and> bt_block_size t = bs \<and> bt_max_blocks t = cap \<and>
     length (bt_slots t) = m \<and> (\<forall>i<n. row_blocks i t = f i)"

definition tables_hold :: "nat \<Rightarrow> int list \<Rightarrow> int list \<Rightarrow> nat \<Rightarrow> block_table list \<Rightarrow> group_rows \<Rightarrow> bool" where
  "tables_hold n sizes caps m ts R \<longleftrightarrow> length ts = length sizes \<and> length caps = length sizes \<and>
     (\<forall>g < length sizes. table_holds n (sizes ! g) (caps ! g) m (ts ! g) (R g))"

lemma rows_become_holds:
  assumes "table_holds n bs cap m t f" and "rows_become n h t t'" and "\<forall>i<n. h i = f' i"
  shows "table_holds n bs cap m t' f'"
  using assms by (simp add: table_holds_def rows_become_def)

lemma for_groups_all:
  assumes "length ts \<le> length ids" and "\<forall>g < length ts. \<exists>t'. f (ids ! g) (ts ! g) = Ok t' \<and> P g t'"
  shows "\<exists>ts'. for_groups f ids ts = Ok ts' \<and> length ts' = length ts \<and> (\<forall>g < length ts. P g (ts' ! g))"
  using assms
proof (induction f ids ts arbitrary: P rule: for_groups.induct)
  case (3 f i ids t ts)
  obtain t' where t': "f i t = Ok t'" "P 0 t'" using "3.prems"(2) by (auto dest: spec [of _ 0])
  have "\<forall>g < length ts. \<exists>t'. f (ids ! g) (ts ! g) = Ok t' \<and> P (Suc g) t'"
    using "3.prems"(2) by fastforce
  then obtain ts' where ts': "for_groups f ids ts = Ok ts'" "length ts' = length ts" "\<forall>g < length ts. P (Suc g) (ts' ! g)"
    using "3.IH" [OF t'(1), of "\<lambda>g. P (Suc g)"] "3.prems"(1) by auto
  have "\<forall>g < length (t # ts). P g ((t' # ts') ! g)"
    using t'(2) ts'(3) by (auto simp: nth_Cons split: nat.split)
  then show ?case using t'(1) ts'(1,2) by simp
qed simp_all

lemma rmap_all:
  assumes "\<forall>g < length ts. \<exists>t'. f (ts ! g) = Ok t' \<and> P g t'"
  shows "\<exists>ts'. rmap f ts = Ok ts' \<and> length ts' = length ts \<and> (\<forall>g < length ts. P g (ts' ! g))"
  using assms
proof (induction ts arbitrary: P)
  case (Cons t ts)
  obtain t' where t': "f t = Ok t'" "P 0 t'" using Cons.prems by (auto dest: spec [of _ 0])
  have "\<forall>g < length ts. \<exists>t'. f (ts ! g) = Ok t' \<and> P (Suc g) t'" using Cons.prems by fastforce
  then obtain ts' where ts': "rmap f ts = Ok ts'" "length ts' = length ts" "\<forall>g < length ts. P (Suc g) (ts' ! g)"
    using Cons.IH [of "\<lambda>g. P (Suc g)"] by auto
  have "\<forall>g < length (t # ts). P g ((t' # ts') ! g)"
    using t'(2) ts'(3) by (auto simp: nth_Cons split: nat.split)
  then show ?case using t'(1) ts'(1,2) by simp
qed simp

lemma tables_step_refines:
  assumes "tables_hold n sizes caps m ts R" and "op_fits n caps a R"
  shows "\<exists>ts'. tables_step a ts = Ok ts' \<and> tables_hold n sizes caps m ts' (rows_step a R)"
proof -
  have len: "length ts = length caps" and at: "\<And>g. g < length ts \<Longrightarrow> table_holds n (sizes ! g) (caps ! g) m (ts ! g) (R g)"
    using assms(1) by (simp_all add: tables_hold_def)
  let ?P = "\<lambda>g t'. table_holds n (sizes ! g) (caps ! g) m t' (rows_step a R g)"
  have "\<exists>ts'. tables_step a ts = Ok ts' \<and> length ts' = length ts \<and> (\<forall>g < length ts. ?P g (ts' ! g))"
  proof (cases a)
    case (AppendRow ids i)
    have "\<exists>t'. append_row (ids ! g) i (ts ! g) = Ok t' \<and> ?P g t'" if "g < length ts" for g
      using append_row_spec [of n "ts ! g" i "ids ! g"] at [OF that] that assms(2) AppendRow len
      by (fastforce simp: table_holds_def rows_become_def)
    then show ?thesis using assms(2) AppendRow len for_groups_all [of ts ids "\<lambda>ids t. append_row ids i t" ?P]
      by (simp add: tables_append_row_def)
  next
    case (AddRow ids i)
    have "\<exists>t'. add_row (ids ! g) i (ts ! g) = Ok t' \<and> ?P g t'" if "g < length ts" for g
      using add_row_spec [of n "ts ! g" i "ids ! g"] at [OF that] that assms(2) AddRow len
      by (fastforce simp: table_holds_def rows_become_def)
    then show ?thesis using assms(2) AddRow len for_groups_all [of ts ids "\<lambda>ids t. add_row ids i t" ?P]
      by (simp add: tables_add_row_def)
  next
    case (MoveRow i k)
    have "\<exists>t'. move_row i k (ts ! g) = Ok t' \<and> ?P g t'" if "g < length ts" for g
      using move_row_spec [of n "ts ! g" i k] at [OF that] assms(2) MoveRow
      by (fastforce simp: table_holds_def rows_become_def)
    then show ?thesis using MoveRow rmap_all [of ts "move_row i k" ?P] by (simp add: tables_move_row_def)
  next
    case (SwapRow i k)
    have "\<exists>t'. swap_row i k (ts ! g) = Ok t' \<and> ?P g t'" if "g < length ts" for g
      using swap_row_spec [of n "ts ! g" i k] at [OF that] assms(2) SwapRow
      by (fastforce simp: table_holds_def rows_become_def)
    then show ?thesis using SwapRow rmap_all [of ts "swap_row i k" ?P] by (simp add: tables_swap_row_def)
  qed
  then show ?thesis using assms(1) by (auto simp: tables_hold_def)
qed

lemma run_row_ops_refines:
  assumes "tables_hold n sizes caps m ts R" and "ops_fit n caps ops R"
  shows "\<exists>ts'. run_row_ops ops ts = Ok ts' \<and> tables_hold n sizes caps m ts' (fold rows_step ops R)"
  using assms
proof (induction ops arbitrary: ts R)
  case (Cons a ops)
  then obtain ts' where "tables_step a ts = Ok ts'" "tables_hold n sizes caps m ts' (rows_step a R)"
    using tables_step_refines by fastforce
  then show ?case using Cons by simp
qed simp

lemma new_table_holds:
  assumes "0 < bs" and "0 \<le> max_len" and "0 \<le> max_tok"
  shows "\<exists>t. BlockTable_init bs (int n) (cdiv max_len bs) max_tok = Ok t \<and>
     table_holds n bs (cdiv max_len bs) (nat max_tok) t (\<lambda>_. [])"
proof -
  have "0 \<le> cdiv max_len bs" using assms by (simp add: cdiv_nonneg)
  then show ?thesis using assms
    by (auto simp: BlockTable_init_def table_holds_def wf_table_def row_blocks_def Let_def)
qed

lemma new_tables_hold:
  assumes "\<forall>bs \<in> set sizes. 0 < bs" and "0 \<le> max_len" and "0 \<le> max_tok"
  shows "\<exists>ts. MultiGroupBlockTable_init (int n) max_len max_tok sizes = Ok ts \<and>
     tables_hold n sizes (map (cdiv max_len) sizes) (nat max_tok) ts (\<lambda>_ _. [])"
proof -
  let ?new = "\<lambda>bs. if bs = 0 then Err ZeroDivisionError else BlockTable_init bs (int n) (cdiv max_len bs) max_tok"
  have "\<forall>g < length sizes. \<exists>t. ?new (sizes ! g) = Ok t \<and>
      table_holds n (sizes ! g) (cdiv max_len (sizes ! g)) (nat max_tok) t (\<lambda>_. [])"
    using new_table_holds assms by (metis less_irrefl nth_mem)
  from rmap_all [of sizes ?new, OF this] show ?thesis
    by (auto simp: MultiGroupBlockTable_init_def tables_hold_def)
qed

text \<open>The slot of a token in the KV cache: position \<open>p\<close> of row \<open>i\<close> is in the block \<open>p div bs\<close> of the
  row, at offset \<open>p mod bs\<close>.\<close>

definition kv_slot :: "int \<Rightarrow> (nat \<Rightarrow> int list) \<Rightarrow> nat \<times> int \<Rightarrow> int" where
  "kv_slot bs f p = f (fst p) ! nat (snd p div bs) * bs + snd p mod bs"

text \<open>The blocks of the row cover the position, and their slots can be numbered with 32 bits.\<close>

definition covered :: "nat \<Rightarrow> int \<Rightarrow> (nat \<Rightarrow> int list) \<Rightarrow> nat \<times> int \<Rightarrow> bool" where
  "covered n bs f p \<longleftrightarrow> fst p < n \<and> 0 \<le> snd p \<and> snd p < int (length (f (fst p))) * bs"

definition rows_fit :: "nat \<Rightarrow> int \<Rightarrow> (nat \<Rightarrow> int list) \<Rightarrow> bool" where
  "rows_fit n bs f \<longleftrightarrow> (\<forall>i<n. \<forall>b \<in> set (f i). 0 \<le> b \<and> b * bs < 2 ^ 31)"

lemma held_slot_mapping:
  assumes "table_holds n bs cap m t f" and "rows_fit n bs f" and "length positions = length req_indices"
    and "length req_indices \<le> m" and "\<forall>p \<in> set (zip req_indices positions). covered n bs f p"
  shows "\<exists>t'. compute_slot_mapping req_indices positions t = Ok t' \<and>
     take (length req_indices) (bt_slots t') = map (kv_slot bs f) (zip req_indices positions)"
proof -
  have t: "wf_table n t" "bt_block_size t = bs" "length (bt_slots t) = m" and f: "\<And>i. i < n \<Longrightarrow> row_blocks i t = f i"
    using assms(1) by (simp_all add: table_holds_def)
  have "blocks_fit n t" using assms(2) t f by (simp add: blocks_fit_def rows_fit_def)
  moreover have "\<forall>p \<in> set (zip req_indices positions). has_slot n t p"
    using assms(5) t f by (fastforce simp: has_slot_def covered_def)
  ultimately have "compute_slot_mapping req_indices positions t =
      Ok (t\<lparr>bt_slots := map (slot_of t) (zip req_indices positions) @ drop (length req_indices) (bt_slots t)\<rparr>)"
    using compute_slot_mapping_exact [of n t positions req_indices] assms(3,4) t by simp
  moreover have "map (slot_of t) (zip req_indices positions) = map (kv_slot bs f) (zip req_indices positions)"
    using assms(5) t f by (intro map_cong refl) (fastforce simp: slot_of_def kv_slot_def covered_def)
  ultimately show ?thesis using assms(3) by simp
qed

text \<open>
  C39.  The block tables of a worker.  Tables for any number of groups are created; then rows are
  added, extended, moved and exchanged in any order, each time within the width of the tables.  No
  operation raises, and every row of every table lists exactly the blocks that the same operations
  give on lists.  The slots computed for a batch of tokens, each covered by the blocks of its row in
  every group, are then exact in every group: block number times block size plus offset, without
  wrap-around when the slots of the listed blocks can be numbered with 32 bits.
\<close>

theorem block_tables_refine_rows:
  assumes "\<forall>bs \<in> set sizes. 0 < bs" and "0 \<le> max_len" and "0 \<le> max_tok"
    and "ops_fit n (map (cdiv max_len) sizes) ops (\<lambda>_ _. [])" and "R = fold rows_step ops (\<lambda>_ _. [])"
  shows "\<exists>ts. rbind (MultiGroupBlockTable_init (int n) max_len max_tok sizes) (run_row_ops ops) = Ok ts \<and>
    (\<forall>g < length sizes. \<forall>i < n. row_blocks i (ts ! g) = R g i) \<and>
    (length positions = length req_indices \<and> int (length req_indices) \<le> max_tok \<and>
     (\<forall>g < length sizes. rows_fit n (sizes ! g) (R g) \<and>
        (\<forall>p \<in> set (zip req_indices positions). covered n (sizes ! g) (R g) p)) \<longrightarrow>
     (\<exists>ts'. tables_compute_slot_mapping req_indices positions ts = Ok ts' \<and> length ts' = length sizes \<and>
        (\<forall>g < length sizes. take (length req_indices) (bt_slots (ts' ! g)) =
           map (kv_slot (sizes ! g) (R g)) (zip req_indices positions))))"
proof -
  let ?caps = "map (cdiv max_len) sizes"
  obtain ts0 where ts0: "MultiGroupBlockTable_init (int n) max_len max_tok sizes = Ok ts0"
      "tables_hold n sizes ?caps (nat max_tok) ts0 (\<lambda>_ _. [])"
    using new_tables_hold [OF assms(1-3)] by blast
  obtain ts where ts: "run_row_ops ops ts0 = Ok ts" "tables_hold n sizes ?caps (nat max_tok) ts R"
    using run_row_ops_refines [OF ts0(2) assms(4)] assms(5) by blast
  have len: "length ts = length sizes"
    and held: "\<And>g. g < length sizes \<Longrightarrow> table_holds n (sizes ! g) (?caps ! g) (nat max_tok) (ts ! g) (R g)"
    using ts(2) by (simp_all add: tables_hold_def)
  have "\<exists>ts'. tables_compute_slot_mapping req_indices positions ts = Ok ts' \<and> length ts' = length sizes \<and>
      (\<forall>g < length sizes. take (length req_indices) (bt_slots (ts' ! g)) =
         map (kv_slot (sizes ! g) (R g)) (zip req_indices positions))"
    if "length positions = length req_indices" "int (length req_indices) \<le> max_tok"
      "\<forall>g < length sizes. rows_fit n (sizes ! g) (R g) \<and> (\<forall>p \<in> set (zip req_indices positions). covered n (sizes ! g) (R g) p)"
    unfolding tables_compute_slot_mapping_def len [symmetric]
    using that len held_slot_mapping [OF held] by (intro rmap_all) auto
  moreover have "\<forall>g < length sizes. \<forall>i < n. row_blocks i (ts ! g) = R g i"
    using held by (simp add: table_holds_def)
  ultimately show ?thesis using ts0(1) ts(1) by auto
qed

text \<open>Two groups with blocks of 16 and 32 tokens: two requests are added, one grows, they change
  places; the slots of three tokens.\<close>

definition sample_row_ops :: "row_op list" where
  "sample_row_ops = [AddRow [[5, 6], [9]] 0, AddRow [[7], [8]] 1, AppendRow [[3], []] 0, SwapRow 0 1]"

lemma block_tables_refine_rows_witness:
  "\<exists>ts ts'. rbind (MultiGroupBlockTable_init 2 64 8 [16, 32]) (run_row_ops sample_row_ops) = Ok ts \<and>
     row_blocks 1 (ts ! 0) = [5, 6, 3] \<and> row_blocks 0 (ts ! 1) = [8] \<and>
     tables_compute_slot_mapping [0, 1, 1] [0, 16, 31] ts = Ok ts' \<and>
     take 3 (bt_slots (ts' ! 0)) = [112, 96, 111] \<and> take 3 (bt_slots (ts' ! 1)) = [256, 304, 319]"
proof -
  let ?R = "fold rows_step sample_row_ops (\<lambda>_ _. [])"
  have R: "?R 0 = (\<lambda>_. [])(0 := [7], 1 := [5, 6, 3])" "?R 1 = (\<lambda>_. [])(0 := [8], 1 := [9])"
    by (auto simp: sample_row_ops_def)
  have fit: "ops_fit 2 (map (cdiv 64) [16, 32]) sample_row_ops (\<lambda>_ _. [])"
    by (simp add: sample_row_ops_def cdiv_def less_Suc_eq numeral_2_eq_2)
  have cov: "\<forall>g < length [16, 32]. rows_fit 2 ([16, 32] ! g) (?R g) \<and>
      (\<forall>p \<in> set (zip [0, 1, 1] [0, 16, 31]). covered 2 ([16, 32] ! g) (?R g) p)"
    using R by (simp add: rows_fit_def covered_def less_Suc_eq numeral_2_eq_2)
  obtain ts where ts: "rbind (MultiGroupBlockTable_init 2 64 8 [16, 32]) (run_row_ops sample_row_ops) = Ok ts"
      "\<forall>g < 2. \<forall>i < 2. row_blocks i (ts ! g) = ?R g i"
      "\<exists>ts'. tables_compute_slot_mapping [0, 1, 1] [0, 16, 31] ts = Ok ts' \<and>
        (\<forall>g < 2. take 3 (bt_slots (ts' ! g)) = map (kv_slot ([16, 32] ! g) (?R g)) (zip [0, 1, 1] [0, 16, 31]))"
    using block_tables_refine_rows [OF _ _ _ fit refl, of 8 "[0, 16, 31]" "[0, 1, 1]"] cov
    by (auto simp: numeral_2_eq_2 numeral_3_eq_3)
  then show ?thesis using R by (force simp: kv_slot_def)
qed

end
