(* ===== verification/Logits_Processors.thy ===== *)
theory Logits_Processors
  imports Complex_Main Request_Model
begin

text \<open>
  \<open>v1/sample/logits_processor.py\<close>: how the changes of the batch of a worker are recorded
  (\<open>BatchUpdateBuilder\<close>), and the two logits processors that keep a dictionary from rows of the batch
  to what the requests in them ask for, and follow those records.

  \<open>worker_params\<close> are the fields of \<open>SamplingParams\<close> the two processors read; the set of stop tokens is
  listed in the order in which it is iterated.  A float is the rational number it denotes, and
  \<open>f32\<close> is the rounding to 32 bits when it is stored in a tensor.  The output tokens of a request are
  a list that grows while the request runs and that several objects share, so records refer to it by
  address, and \<open>outs\<close> is the store of those lists.  Token ids fit the 32 bits of the index tensors.
\<close>

section \<open>Parameters\<close>

record worker_params =
  wp_min_tokens :: int
  wp_all_stop_token_ids :: "int list"
  wp_logit_bias :: "(int, rat) dict option"

datatype batch_params = Sampling worker_params | Pooling string

section \<open>Recording changes\<close>

datatype move_directionality = UNIDIRECTIONAL | SWAP

type_synonym added_request = "nat \<times> batch_params \<times> nat"
type_synonym moved_request = "nat \<times> nat \<times> move_directionality"

record batch_update =
  bu_batch_size :: nat
  bu_removed :: "nat list"
  bu_moved :: "moved_request list"
  bu_added :: "added_request list"

record update_builder =
  ub_removed :: "nat list"
  ub_sorted :: bool
  ub_moved :: "moved_request list"
  ub_added :: "added_request list"

definition BatchUpdateBuilder_init :: update_builder where
  "BatchUpdateBuilder_init = \<lparr>ub_removed = [], ub_sorted = False, ub_moved = [], ub_added = []\<rparr>"

definition ensure_removed_sorted :: "update_builder \<Rightarrow> update_builder" where
  "ensure_removed_sorted b =
     (if ub_sorted b then b else b\<lparr>ub_removed := rev (sort (ub_removed b)), ub_sorted := True\<rparr>)"

definition get_removed :: "update_builder \<Rightarrow> nat list \<times> update_builder" where
  "get_removed b = (let b' = ensure_removed_sorted b in (ub_removed b', b'))"

definition removed_append :: "nat \<Rightarrow> update_builder \<Rightarrow> update_builder res" where
  "removed_append index b =
     (if ub_sorted b then Err RuntimeError else Ok (b\<lparr>ub_removed := ub_removed b @ [index]\<rparr>))"

definition has_removed :: "update_builder \<Rightarrow> bool" where
  "has_removed b \<longleftrightarrow> ub_removed b \<noteq> []"

definition peek_removed :: "update_builder \<Rightarrow> nat option \<times> update_builder" where
  "peek_removed b =
     (if has_removed b then let b' = ensure_removed_sorted b in (Some (last (ub_removed b')), b')
      else (None, b))"

definition pop_removed :: "update_builder \<Rightarrow> nat option \<times> update_builder" where
  "pop_removed b =
     (if has_removed b
      then let b' = ensure_removed_sorted b
           in (Some (last (ub_removed b')), b'\<lparr>ub_removed := butlast (ub_removed b')\<rparr>)
      else (None, b))"

definition get_and_reset :: "nat \<Rightarrow> update_builder \<Rightarrow> batch_update option \<times> update_builder" where
  "get_and_reset batch_size b =
     (let b' = b\<lparr>ub_sorted := False\<rparr>
      in if ub_removed b = [] \<and> ub_moved b = [] \<and> ub_added b = [] then (None, b')
         else (Some \<lparr>bu_batch_size = batch_size, bu_removed = ub_removed b, bu_moved = ub_moved b, bu_added = ub_added b\<rparr>,
               b'\<lparr>ub_removed := [], ub_moved := [], ub_added := []\<rparr>))"

text \<open>What the builder promises: the removed rows are read in descending order, peeking and popping give
  the least one, and once they were read no removal is accepted until the reset.\<close>

lemma get_removed_descending:
  assumes "\<not> ub_sorted b"
  shows "sorted (rev (fst (get_removed b)))" and "mset (fst (get_removed b)) = mset (ub_removed b)"
    and "removed_append i (snd (get_removed b)) = Err RuntimeError"
  using assms by (simp_all add: get_removed_def ensure_removed_sorted_def removed_append_def Let_def)

lemma pop_removed_least:
  assumes "\<not> ub_sorted b" and "ub_removed b \<noteq> []"
  shows "fst (pop_removed b) = Some (Min (set (ub_removed b)))" and "fst (peek_removed b) = fst (pop_removed b)"
    and "mset (ub_removed (snd (pop_removed b))) = mset (ub_removed b) - {#Min (set (ub_removed b))#}"
proof -
  obtain x xs where x: "sort (ub_removed b) = x # xs"
    using assms(2) by (metis list.exhaust length_0_conv length_sort)
  have eq: "set (ub_removed b) = insert x (set xs)" "mset (ub_removed b) = add_mset x (mset xs)"
    using x by (metis list.simps(15) set_sort, metis mset.simps(2) mset_sort)
  have "sorted (x # xs)" using x by (metis sorted_sort)
  then have "Min (set (ub_removed b)) = x" unfolding eq by (intro Min_eqI) auto
  then show "fst (pop_removed b) = Some (Min (set (ub_removed b)))" "fst (peek_removed b) = fst (pop_removed b)"
    "mset (ub_removed (snd (pop_removed b))) = mset (ub_removed b) - {#Min (set (ub_removed b))#}"
    using assms x eq(2) by (simp_all add: pop_removed_def peek_removed_def has_removed_def ensure_removed_sorted_def Let_def)
qed

lemma get_and_reset_empties:
  "snd (get_and_reset n b) = BatchUpdateBuilder_init"
  "fst (get_and_reset n b) = None \<longleftrightarrow> ub_removed b = [] \<and> ub_moved b = [] \<and> ub_added b = []"
  by (auto simp: get_and_reset_def BatchUpdateBuilder_init_def Let_def)

section \<open>Logit bias\<close>

record logit_bias_processor =
  lb_biases :: "(nat, (int, rat) dict) dict"
  lb_tensor :: "rat list"
  lb_slice :: "nat list \<times> int list"

definition LogitBias_init :: logit_bias_processor where
  "LogitBias_init = \<lparr>lb_biases = [], lb_tensor = [], lb_slice = ([], [])\<rparr>"

definition bias_of :: "batch_params \<Rightarrow> (int, rat) dict option" where
  "bias_of params =
     (case params of
        Sampling p \<Rightarrow> (case wp_logit_bias p of Some lb \<Rightarrow> if lb = [] then None else Some lb | None \<Rightarrow> None)
      | _ \<Rightarrow> None)"

text \<open>A dictionary with the flag \<open>needs_update\<close> goes through the loops, which are the same for both
  processors that keep a dictionary.  Where the code asks whether a removed entry is true and not
  whether it is \<open>None\<close>, that is the same: no entry is an empty dictionary.\<close>

definition entry_added :: "(added_request \<Rightarrow> 'v option) \<Rightarrow> added_request \<Rightarrow> (nat, 'v) dict \<times> bool \<Rightarrow> (nat, 'v) dict \<times> bool" where
  "entry_added new r s =
     (case new r of
        Some v \<Rightarrow> (AList.update (fst r) v (fst s), True)
      | None \<Rightarrow> (AList.delete (fst r) (fst s), snd s \<or> map_of (fst s) (fst r) \<noteq> None))"

definition entry_removed :: "nat \<Rightarrow> (nat, 'v) dict \<times> bool \<Rightarrow> (nat, 'v) dict \<times> bool" where
  "entry_removed index s = (AList.delete index (fst s), snd s \<or> map_of (fst s) index \<noteq> None)"

definition entry_moved :: "moved_request \<Rightarrow> (nat, 'v) dict \<times> bool \<Rightarrow> (nat, 'v) dict \<times> bool" where
  "entry_moved m s =
     (case m of (a_index, b_index, direct) \<Rightarrow>
        let a_entry = map_of (fst s) a_index; d = AList.delete a_index (fst s) in
        case direct of
          UNIDIRECTIONAL \<Rightarrow>
            (case a_entry of
               None \<Rightarrow> (AList.delete b_index d, snd s \<or> map_of d b_index \<noteq> None)
             | Some v \<Rightarrow> (AList.update b_index v d, True))
        | SWAP \<Rightarrow>
            let b_entry = map_of d b_index;
                d1 = AList.delete b_index d;
                d2 = (case b_entry of Some v \<Rightarrow> AList.update a_index v d1 | None \<Rightarrow> d1);
                d3 = (case a_entry of Some v \<Rightarrow> AList.update b_index v d2 | None \<Rightarrow> d2)
            in (d3, snd s \<or> b_entry \<noteq> None \<or> a_entry \<noteq> None))"

definition update_entries :: "(added_request \<Rightarrow> 'v option) \<Rightarrow> batch_update \<Rightarrow> (nat, 'v) dict \<times> bool \<Rightarrow> (nat, 'v) dict \<times> bool" where
  "update_entries new u s =
     (let s1 = fold (entry_added new) (bu_added u) s
      in if fst s1 = [] then s1
         else fold entry_moved (bu_moved u) (fold entry_removed (bu_removed u) s1))"

definition logit_bias_update_state :: "(rat \<Rightarrow> rat) \<Rightarrow> batch_update option \<Rightarrow> logit_bias_processor \<Rightarrow> logit_bias_processor" where
  "logit_bias_update_state f32 batch_update self =
     (case batch_update of
        None \<Rightarrow> self
      | Some u \<Rightarrow>
          let (biases, needs_update) = update_entries (\<lambda>r. bias_of (fst (snd r))) u (lb_biases self, False)
          in if needs_update
             then \<lparr>lb_biases = biases,
                   lb_tensor = concat (map (\<lambda>(req, lb). map (f32 \<circ> snd) lb) biases),
                   lb_slice = (concat (map (\<lambda>(req, lb). replicate (length lb) req) biases),
                               concat (map (\<lambda>(req, lb). map fst lb) biases))\<rparr>
             else self\<lparr>lb_biases := biases\<rparr>)"

section \<open>Minimal number of tokens\<close>

record min_tokens_processor =
  mt_min_toks :: "(nat, int \<times> nat \<times> int list) dict"
  mt_slice :: "nat list \<times> int list"

definition MinTokens_init :: min_tokens_processor where
  "MinTokens_init = \<lparr>mt_min_toks = [], mt_slice = ([], [])\<rparr>"

definition min_toks_of :: "int list list \<Rightarrow> batch_params \<Rightarrow> nat \<Rightarrow> (int \<times> nat \<times> int list) option" where
  "min_toks_of outs params output_tok_ids =
     (case params of
        Sampling p \<Rightarrow>
          (if wp_min_tokens p \<noteq> 0 \<and> int (length (outs ! output_tok_ids)) < wp_min_tokens p
           then Some (wp_min_tokens p, output_tok_ids, wp_all_stop_token_ids p) else None)
      | _ \<Rightarrow> None)"

definition min_tokens_update_state :: "int list list \<Rightarrow> batch_update option \<Rightarrow> min_tokens_processor \<Rightarrow> min_tokens_processor" where
  "min_tokens_update_state outs batch_update self =
     (let (toks, needs) = (case batch_update of
            None \<Rightarrow> (mt_min_toks self, False)
          | Some u \<Rightarrow> update_entries (\<lambda>r. min_toks_of outs (fst (snd r)) (snd (snd r))) u (mt_min_toks self, False));
          to_remove = map fst (filter (\<lambda>(_, min_toks, out_tok_ids, _). min_toks \<le> int (length (outs ! out_tok_ids))) toks);
          toks' = fold AList.delete to_remove toks
      in if needs \<or> to_remove \<noteq> []
         then \<lparr>mt_min_toks = toks',
               mt_slice = (concat (map (\<lambda>(req, _, _, stop_tok_ids). replicate (length stop_tok_ids) req) toks'),
                           concat (map (\<lambda>(_, _, _, stop_tok_ids). stop_tok_ids) toks'))\<rparr>
         else self\<lparr>mt_min_toks := toks'\<rparr>)"

section \<open>What an update says about the rows\<close>

text \<open>The request of every row, as parameters and address of the output tokens.  An update is applied
  in the order in which the processors read it: added, removed, moved.\<close>

type_synonym row_entry = "batch_params \<times> nat"

type_synonym batch_rows = "nat \<Rightarrow> row_entry option"

definition rows_added :: "added_request \<Rightarrow> batch_rows \<Rightarrow> batch_rows" where
  "rows_added r B = B(fst r \<mapsto> snd r)"

definition rows_removed :: "nat \<Rightarrow> batch_rows \<Rightarrow> batch_rows" where
  "rows_removed i B = B(i := None)"

definition rows_moved :: "moved_request \<Rightarrow> batch_rows \<Rightarrow> batch_rows" where
  "rows_moved m B =
     (case m of (a, b, direct) \<Rightarrow>
        case direct of UNIDIRECTIONAL \<Rightarrow> (B(a := None))(b := B a) | SWAP \<Rightarrow> B(a := B b, b := B a))"

definition apply_changes :: "added_request list \<Rightarrow> nat list \<Rightarrow> moved_request list \<Rightarrow> batch_rows \<Rightarrow> batch_rows" where
  "apply_changes added removed moved B = fold rows_moved moved (fold rows_removed removed (fold rows_added added B))"

definition apply_update :: "batch_update \<Rightarrow> batch_rows \<Rightarrow> batch_rows" where
  "apply_update u = apply_changes (bu_added u) (bu_removed u) (bu_moved u)"

text \<open>The output tokens only grow; \<open>steps\<close> are the calls of \<open>update_state\<close>, one per engine step, each
  with the store of output tokens and the changes of the batch before it.\<close>

definition outs_grow :: "int list list \<Rightarrow> int list list \<Rightarrow> bool" where
  "outs_grow outs outs' \<longleftrightarrow> length outs \<le> length outs' \<and> (\<forall>i<length outs. length (outs ! i) \<le> length (outs' ! i))"

type_synonym step_update = "int list list \<times> batch_update option"

fun run_processor :: "(int list list \<Rightarrow> batch_update option \<Rightarrow> 'p \<Rightarrow> 'p) \<Rightarrow> step_update list \<Rightarrow> 'p \<Rightarrow> 'p" where
  "run_processor f [] p = p"
| "run_processor f ((outs, u) # steps) p = run_processor f steps (f outs u p)"

fun run_rows :: "step_update list \<Rightarrow> batch_rows \<Rightarrow> batch_rows" where
  "run_rows [] B = B"
| "run_rows ((outs, u) # steps) B = run_rows steps (case u of None \<Rightarrow> B | Some v \<Rightarrow> apply_update v B)"

fun last_outs :: "int list list \<Rightarrow> step_update list \<Rightarrow> int list list" where
  "last_outs outs [] = outs"
| "last_outs outs ((outs', u) # steps) = last_outs outs' steps"

text \<open>Output tokens are never taken back, and requests are added with an output list that exists.\<close>

fun steps_ok :: "int list list \<Rightarrow> batch_rows \<Rightarrow> step_update list \<Rightarrow> bool" where
  "steps_ok outs B [] \<longleftrightarrow> True"
| "steps_ok outs B ((outs', u) # steps) \<longleftrightarrow> outs_grow outs outs' \<and> (\<forall>x \<in> ran B. snd x < length outs) \<and>
     steps_ok outs' (case u of None \<Rightarrow> B | Some v \<Rightarrow> apply_update v B) steps"

locale row_processor =
  fixes update :: "int list list \<Rightarrow> batch_update option \<Rightarrow> 'p \<Rightarrow> 'p"
    and in_step :: "int list list \<Rightarrow> 'p \<Rightarrow> batch_rows \<Rightarrow> bool"
  assumes follows: "in_step outs p B \<Longrightarrow> outs_grow outs outs' \<Longrightarrow> (\<forall>x \<in> ran B. snd x < length outs) \<Longrightarrow>
      in_step outs' (update outs' (Some u) p) (apply_update u B)"
    and rests: "in_step outs p B \<Longrightarrow> outs_grow outs outs' \<Longrightarrow> (\<forall>x \<in> ran B. snd x < length outs) \<Longrightarrow>
      in_step outs' (update outs' None p) B"
begin

lemma stays_in_step:
  assumes "in_step outs p B" and "steps_ok outs B steps"
  shows "in_step (last_outs outs steps) (run_processor update steps p) (run_rows steps B)"
  using assms
proof (induction steps arbitrary: outs p B)
  case (Cons s steps)
  obtain outs' u where s: "s = (outs', u)" by (cases s)
  show ?case
  proof (cases u)
    case None
    then show ?thesis using Cons rests [of outs p B outs'] s by simp
  next
    case (Some v)
    then show ?thesis using Cons follows [of outs p B outs' v] s by simp
  qed
qed simp

end

section \<open>The dictionaries follow the rows\<close>

text \<open>A relation between the entry of a row and the request in it.  The loops keep it when it holds of
  an empty row and of a row just filled.\<close>

definition row_wise :: "('v option \<Rightarrow> row_entry option \<Rightarrow> bool) \<Rightarrow> (nat, 'v) dict \<Rightarrow> batch_rows \<Rightarrow> bool" where
  "row_wise Q d B \<longleftrightarrow> (\<forall>i. Q (map_of d i) (B i))"

lemma entry_added_follows:
  assumes "\<And>x. Q (new x) (Some x)" and "row_wise Q (fst s) B"
  shows "row_wise Q (fst (entry_added (\<lambda>r. new (snd r)) r s)) (rows_added r B)"
proof -
  have "map_of (fst (entry_added (\<lambda>r. new (snd r)) r s)) = (map_of (fst s))(fst r := new (snd r))"
    by (auto simp: entry_added_def update_conv' delete_conv' split: option.split)
  then show ?thesis using assms by (simp add: row_wise_def rows_added_def)
qed

lemma entry_removed_follows:
  assumes "Q None None" and "row_wise Q (fst s) B"
  shows "row_wise Q (fst (entry_removed i s)) (rows_removed i B)"
  using assms by (simp add: row_wise_def entry_removed_def rows_removed_def delete_conv')

lemma map_of_entry_moved:
  "map_of (fst (entry_moved (a, b, direct) s)) =
     (case direct of UNIDIRECTIONAL \<Rightarrow> ((map_of (fst s))(a := None))(b := map_of (fst s) a)
      | SWAP \<Rightarrow> (map_of (fst s))(a := map_of (fst s) b, b := map_of (fst s) a))"
  by (cases direct) (auto simp: entry_moved_def Let_def update_conv' delete_conv' fun_eq_iff split: option.split)

lemma entry_moved_follows:
  assumes "Q None None" and "row_wise Q (fst s) B"
  shows "row_wise Q (fst (entry_moved m s)) (rows_moved m B)"
  using assms by (cases m; cases "snd (snd m)")
    (simp_all add: row_wise_def map_of_entry_moved rows_moved_def)

lemma fold_follows:
  assumes "\<And>x s B. P s B \<Longrightarrow> P (f x s) (g x B)" and "P s B"
  shows "P (fold f xs s) (fold g xs B)"
  using assms(2) by (induction xs arbitrary: s B) (auto simp: assms(1))

lemma moves_follow:
  assumes "Q None None" and "row_wise Q (fst s) B"
  shows "row_wise Q (fst (fold entry_moved ms (fold entry_removed rs s))) (fold rows_moved ms (fold rows_removed rs B))"
  using assms fold_follows [of "\<lambda>s. row_wise Q (fst s)" entry_removed rows_removed s B rs]
    fold_follows [of "\<lambda>s. row_wise Q (fst s)" entry_moved rows_moved "fold entry_removed rs s" "fold rows_removed rs B" ms]
  by (simp add: entry_removed_follows entry_moved_follows)

lemma loops_on_empty: "fst (fold entry_moved ms (fold entry_removed rs ([], f))) = []"
proof -
  have "fst (fold entry_removed rs ([], f)) = []" for f
    by (induction rs arbitrary: f) (simp_all add: entry_removed_def)
  moreover have "fst s = [] \<Longrightarrow> fst (fold entry_moved ms s) = []" for s :: "(nat, 'a) dict \<times> bool"
    by (induction ms arbitrary: s) (auto simp: entry_moved_def Let_def split: move_directionality.split)
  ultimately show ?thesis by blast
qed

lemma update_entries_follow:
  assumes "Q None None" and "\<And>x. Q (new x) (Some x)" and "row_wise Q (fst s) B"
  shows "row_wise Q (fst (update_entries (\<lambda>r. new (snd r)) u s)) (apply_update u B)"
proof -
  let ?s1 = "fold (entry_added (\<lambda>r. new (snd r))) (bu_added u) s" and ?B1 = "fold rows_added (bu_added u) B"
  have s1: "row_wise Q (fst ?s1) ?B1"
    using fold_follows [of "\<lambda>s. row_wise Q (fst s)" _ rows_added s B "bu_added u"] entry_added_follows [of Q new, OF assms(2)] assms(3)
    by blast
  note moved = moves_follow [OF assms(1) s1, of "bu_moved u" "bu_removed u"]
  show ?thesis
  proof (cases "fst ?s1 = []")
    case True
    then have "fst (fold entry_moved (bu_moved u) (fold entry_removed (bu_removed u) ?s1)) = fst ?s1"
      using loops_on_empty [of "bu_moved u" "bu_removed u" "snd ?s1"] by (metis prod.collapse)
    with True moved show ?thesis by (simp add: update_entries_def Let_def apply_update_def apply_changes_def)
  next
    case False
    with moved show ?thesis by (simp add: update_entries_def Let_def apply_update_def apply_changes_def)
  qed
qed

text \<open>When the flag stays down, the dictionary is the old one, and so are the tensors made of it.\<close>

lemma delete_absent: "map_of d k = None \<Longrightarrow> AList.delete k d = d"
  by (rule delete_id) (simp add: map_of_eq_None_iff)

lemma entry_flag:
  "\<not> snd (entry_added new r s) \<Longrightarrow> entry_added new r s = s"
  "\<not> snd (entry_removed i s) \<Longrightarrow> entry_removed i s = s"
  "\<not> snd (entry_moved m s) \<Longrightarrow> entry_moved m s = s"
  by (cases s; cases m; auto simp: entry_added_def entry_removed_def entry_moved_def delete_absent Let_def
      split: option.splits move_directionality.splits)+

lemma fold_flag:
  assumes "\<And>x s. \<not> snd (f x s) \<Longrightarrow> f x s = s" and "\<not> snd (fold f xs s)"
  shows "fold f xs s = s"
  using assms(2)
proof (induction xs arbitrary: s)
  case (Cons x xs)
  then have "fold f xs (f x s) = f x s" by simp
  then show ?case using Cons.prems assms(1) [of x s] by simp
qed simp

lemma update_entries_flag:
  assumes "\<not> snd (update_entries new u s)"
  shows "update_entries new u s = s"
proof -
  let ?s1 = "fold (entry_added new) (bu_added u) s"
  let ?s2 = "fold entry_removed (bu_removed u) ?s1"
  show ?thesis
  proof (cases "fst ?s1 = []")
    case True
    then show ?thesis
      using assms fold_flag [OF entry_flag(1)] by (simp add: update_entries_def Let_def)
  next
    case False
    then have u: "update_entries new u s = fold entry_moved (bu_moved u) ?s2" by (simp add: update_entries_def Let_def)
    have 3: "fold entry_moved (bu_moved u) ?s2 = ?s2"
      using assms u fold_flag [OF entry_flag(3)] by simp
    then have 2: "?s2 = ?s1"
      using assms u fold_flag [OF entry_flag(2)] by simp
    then have "?s1 = s"
      using assms u 3 fold_flag [OF entry_flag(1)] by simp
    with u 2 3 show ?thesis by simp
  qed
qed

lemma wf_dict_entries:
  assumes "wf_dict (fst s)"
  shows "wf_dict (fst (update_entries new u s))"
proof -
  have step: "wf_dict (fst (fold f xs s))" if "\<And>x s. wf_dict (fst s) \<Longrightarrow> wf_dict (fst (f x s))" "wf_dict (fst s)"
    for f :: "'x \<Rightarrow> (nat, 'a) dict \<times> bool \<Rightarrow> (nat, 'a) dict \<times> bool" and xs s
    using fold_follows [of "\<lambda>s B. wf_dict (fst s)" f "\<lambda>_ B. B"] that by blast
  have "wf_dict (fst s) \<Longrightarrow> wf_dict (fst (entry_added new r s))" for r s
    by (simp add: entry_added_def split: option.split)
  moreover have "wf_dict (fst s) \<Longrightarrow> wf_dict (fst (entry_removed i s))" for i and s :: "(nat, 'a) dict \<times> bool"
    by (simp add: entry_removed_def)
  moreover have "wf_dict (fst s) \<Longrightarrow> wf_dict (fst (entry_moved m s))" for m and s :: "(nat, 'a) dict \<times> bool"
    by (auto simp: entry_moved_def Let_def split: prod.split move_directionality.split option.split)
  ultimately show ?thesis using assms by (simp add: update_entries_def Let_def step)
qed

section \<open>Logit bias and minimal number of tokens\<close>

definition bias_tensors :: "(rat \<Rightarrow> rat) \<Rightarrow> (nat, (int, rat) dict) dict \<Rightarrow> rat list \<times> nat list \<times> int list" where
  "bias_tensors f32 biases =
     (concat (map (\<lambda>(req, lb). map (f32 \<circ> snd) lb) biases),
      concat (map (\<lambda>(req, lb). replicate (length lb) req) biases),
      concat (map (\<lambda>(req, lb). map fst lb) biases))"

definition bias_in_step :: "(rat \<Rightarrow> rat) \<Rightarrow> int list list \<Rightarrow> logit_bias_processor \<Rightarrow> batch_rows \<Rightarrow> bool" where
  "bias_in_step f32 outs p B \<longleftrightarrow> wf_dict (lb_biases p) \<and>
     (\<forall>i. map_of (lb_biases p) i = Option.bind (B i) (\<lambda>x. bias_of (fst x))) \<and>
     (lb_tensor p, lb_slice p) = bias_tensors f32 (lb_biases p)"

lemma logit_bias_follows:
  assumes "bias_in_step f32 outs p B"
  shows "bias_in_step f32 outs' (logit_bias_update_state f32 (Some u) p) (apply_update u B)"
proof -
  obtain d flag where r: "update_entries (\<lambda>r. bias_of (fst (snd r))) u (lb_biases p, False) = (d, flag)"
    by (meson surj_pair)
  let ?Q = "\<lambda>e x. e = Option.bind x (\<lambda>x. bias_of (fst x))"
  have "row_wise ?Q (fst (lb_biases p, False)) B" using assms by (simp add: bias_in_step_def row_wise_def)
  then have "row_wise ?Q (fst (update_entries (\<lambda>r. bias_of (fst (snd r))) u (lb_biases p, False))) (apply_update u B)"
    by (intro update_entries_follow) simp_all
  then have "row_wise ?Q d (apply_update u B)" by (simp only: r fst_conv)
  moreover have "wf_dict d"
    using assms r wf_dict_entries [of "(lb_biases p, False)" "\<lambda>r. bias_of (fst (snd r))" u] by (simp add: bias_in_step_def)
  moreover have "\<not> flag \<Longrightarrow> d = lb_biases p"
    using r update_entries_flag [of "\<lambda>r. bias_of (fst (snd r))" u "(lb_biases p, False)"] by simp
  ultimately show ?thesis
    using assms r by (cases flag) (simp_all add: bias_in_step_def row_wise_def logit_bias_update_state_def bias_tensors_def)
qed

lemma logit_bias_rests:
  "logit_bias_update_state f32 None p = p" "bias_in_step f32 outs p B \<Longrightarrow> bias_in_step f32 outs' p B"
  by (simp_all add: logit_bias_update_state_def bias_in_step_def)

interpretation bias_rows: row_processor "\<lambda>outs. logit_bias_update_state f32" "bias_in_step f32" for f32
  by unfold_locales (simp_all add: logit_bias_follows logit_bias_rests)

definition toks_slice :: "(nat, int \<times> nat \<times> int list) dict \<Rightarrow> nat list \<times> int list" where
  "toks_slice toks =
     (concat (map (\<lambda>(req, _, _, stop_tok_ids). replicate (length stop_tok_ids) req) toks),
      concat (map (\<lambda>(_, _, _, stop_tok_ids). stop_tok_ids) toks))"

definition toks_in_step :: "int list list \<Rightarrow> min_tokens_processor \<Rightarrow> batch_rows \<Rightarrow> bool" where
  "toks_in_step outs p B \<longleftrightarrow> wf_dict (mt_min_toks p) \<and>
     (\<forall>i. map_of (mt_min_toks p) i = Option.bind (B i) (\<lambda>x. min_toks_of outs (fst x) (snd x))) \<and>
     mt_slice p = toks_slice (mt_min_toks p)"

definition not_reached :: "int list list \<Rightarrow> int \<times> nat \<times> int list \<Rightarrow> bool" where
  "not_reached outs e \<longleftrightarrow> int (length (outs ! fst (snd e))) < fst e"

lemma map_of_prune:
  assumes "wf_dict d"
  shows "map_of (fold AList.delete (map fst (filter (\<lambda>p. \<not> P (snd p)) d)) d) i =
     Option.bind (map_of d i) (\<lambda>e. if P e then Some e else None)"
proof -
  have del: "map_of (fold AList.delete ks d) i = (if i \<in> set ks then None else map_of d i)" for ks and d :: "('a, 'b) dict"
    by (induction ks arbitrary: d) (auto simp: delete_conv')
  have "i \<in> set (map fst (filter (\<lambda>p. \<not> P (snd p)) d)) \<longleftrightarrow> (\<exists>e. map_of d i = Some e \<and> \<not> P e)"
    using assms by (force simp: wf_dict_def dest: map_of_SomeD)
  then show ?thesis by (cases "map_of d i") (auto simp: del)
qed

lemma min_tokens_prune:
  assumes "wf_dict d" and "\<forall>i. Option.bind (map_of d i) (\<lambda>e. if not_reached outs e then Some e else None) =
      Option.bind (B i) (\<lambda>x. min_toks_of outs (fst x) (snd x))"
    and "(d, flag) = (case u of None \<Rightarrow> (mt_min_toks p, False)
      | Some u \<Rightarrow> update_entries (\<lambda>r. min_toks_of outs (fst (snd r)) (snd (snd r))) u (mt_min_toks p, False))"
    and "\<not> flag \<Longrightarrow> mt_slice p = toks_slice d"
  shows "toks_in_step outs (min_tokens_update_state outs u p) B"
proof -
  let ?gone = "map fst (filter (\<lambda>p. \<not> not_reached outs (snd p)) d)"
  have gone: "filter (\<lambda>(_, min_toks, out_tok_ids, _). min_toks \<le> int (length (outs ! out_tok_ids))) d =
      filter (\<lambda>p. \<not> not_reached outs (snd p)) d"
    by (rule filter_cong) (auto simp: not_reached_def)
  define d' where "d' = fold AList.delete ?gone d"
  have "wf_dict e \<Longrightarrow> wf_dict (fold AList.delete ks e)" for ks and e :: "(nat, int \<times> nat \<times> int list) dict"
    by (induction ks arbitrary: e) simp_all
  then have "wf_dict d'" using assms(1) by (simp add: d'_def)
  moreover have "map_of d' i = Option.bind (B i) (\<lambda>x. min_toks_of outs (fst x) (snd x))" for i
    unfolding d'_def map_of_prune [OF assms(1)] using assms(2) by blast
  moreover have "d' = d" if "?gone = []" using that by (simp only: d'_def fold_simps id_apply)
  moreover have "min_tokens_update_state outs u p =
      (if flag \<or> ?gone \<noteq> [] then \<lparr>mt_min_toks = d', mt_slice = toks_slice d'\<rparr> else p\<lparr>mt_min_toks := d'\<rparr>)"
    using assms(3) [symmetric] by (simp add: min_tokens_update_state_def gone d'_def toks_slice_def Let_def)
  ultimately show ?thesis using assms(4) by (auto simp: toks_in_step_def)
qed

lemma keep_min_toks:
  "Option.bind (min_toks_of outs q r) (\<lambda>e. if not_reached outs e then Some e else None) = min_toks_of outs q r"
  by (auto simp: min_toks_of_def not_reached_def split: option.split batch_params.split)

lemma grown_min_toks:
  assumes "length (outs ! r) \<le> length (outs' ! r)"
  shows "Option.bind (min_toks_of outs q r) (\<lambda>e. if not_reached outs' e then Some e else None) = min_toks_of outs' q r"
  using assms by (auto simp: min_toks_of_def not_reached_def split: option.split batch_params.split)

lemma grown_entries:
  assumes "toks_in_step outs p B" and "outs_grow outs outs'" and "\<forall>x \<in> ran B. snd x < length outs"
  shows "Option.bind (map_of (mt_min_toks p) i) (\<lambda>e. if not_reached outs' e then Some e else None) =
     Option.bind (B i) (\<lambda>x. min_toks_of outs' (fst x) (snd x))"
proof (cases "B i")
  case (Some x)
  then have "snd x < length outs" using assms(3) ranI [of B i x] by blast
  then have "length (outs ! snd x) \<le> length (outs' ! snd x)" using assms(2) by (simp add: outs_grow_def)
  then show ?thesis using Some assms(1) grown_min_toks by (simp add: toks_in_step_def)
qed (use assms(1) in \<open>simp add: toks_in_step_def\<close>)

lemma min_tokens_follows:
  assumes "toks_in_step outs p B" and "outs_grow outs outs'" and "\<forall>x \<in> ran B. snd x < length outs"
  shows "toks_in_step outs' (min_tokens_update_state outs' (Some u) p) (apply_update u B)"
proof -
  let ?new = "\<lambda>x. min_toks_of outs' (fst x) (snd x)"
  let ?Q = "\<lambda>e x. Option.bind e (\<lambda>e. if not_reached outs' e then Some e else None) = Option.bind x ?new"
  obtain d flag where r: "update_entries (\<lambda>r. ?new (snd r)) u (mt_min_toks p, False) = (d, flag)"
    by (meson surj_pair)
  have "row_wise ?Q (fst (mt_min_toks p, False)) B" using grown_entries [OF assms] by (simp add: row_wise_def)
  then have "row_wise ?Q (fst (update_entries (\<lambda>r. ?new (snd r)) u (mt_min_toks p, False))) (apply_update u B)"
    by (intro update_entries_follow) (simp_all add: keep_min_toks)
  then have "row_wise ?Q d (apply_update u B)" by (simp only: r fst_conv)
  moreover have "wf_dict d"
    using assms(1) r wf_dict_entries [of "(mt_min_toks p, False)" "\<lambda>r. ?new (snd r)" u] by (simp add: toks_in_step_def)
  moreover have "\<not> flag \<Longrightarrow> d = mt_min_toks p"
    using r update_entries_flag [of "\<lambda>r. ?new (snd r)" u "(mt_min_toks p, False)"] by simp
  ultimately show ?thesis using r assms(1)
    by (intro min_tokens_prune [where d = d and flag = flag]) (auto simp: row_wise_def toks_in_step_def)
qed

lemma min_tokens_rests:
  assumes "toks_in_step outs p B" and "outs_grow outs outs'" and "\<forall>x \<in> ran B. snd x < length outs"
  shows "toks_in_step outs' (min_tokens_update_state outs' None p) B"
  using assms grown_entries [OF assms]
  by (intro min_tokens_prune [where d = "mt_min_toks p" and flag = False]) (auto simp: toks_in_step_def)

interpretation toks_rows: row_processor min_tokens_update_state toks_in_step
  by unfold_locales (simp_all add: min_tokens_follows min_tokens_rests)

section \<open>The tensors\<close>

lemma zip_rows:
  "zip (concat (map (\<lambda>(i, v). replicate (length (g v)) i) d)) (concat (map (\<lambda>(i, v). g v) d)) =
     concat (map (\<lambda>(i, v). map (Pair i) (g v)) d)"
proof (induction d)
  case (Cons e d)
  have "zip (replicate (length xs) i) xs = map (Pair i) xs" for i :: 'a and xs :: "'b list"
    by (induction xs) simp_all
  then show ?case using Cons by (cases e) simp
qed simp

lemma zip_keys_values:
  "zip (concat (map (\<lambda>(i, v). map fst v) d)) (concat (map (\<lambda>(i, v). map (f \<circ> snd) v) d)) =
     concat (map (\<lambda>(i, v). map (\<lambda>(t, b). (t, f b)) v) d)"
proof (induction d)
  case (Cons e d)
  have "zip (map fst v) (map (f \<circ> snd) v) = map (\<lambda>(t, b). (t, f b)) v" for v
    by (induction v) (simp_all add: split_beta)
  then show ?case using Cons by (cases e) (simp add: comp_def)
qed simp

lemma set_rows:
  assumes "wf_dict d"
  shows "set (concat (map (\<lambda>(i, v). map (Pair i) (g v)) d)) = {(i, t). \<exists>v. map_of d i = Some v \<and> t \<in> set (g v)}"
  using assms by (fastforce simp: wf_dict_def)

definition bias_set :: "logit_bias_processor \<Rightarrow> (nat \<times> int \<times> rat) set" where
  "bias_set p = set (zip (fst (lb_slice p)) (zip (snd (lb_slice p)) (lb_tensor p)))"

definition censored :: "min_tokens_processor \<Rightarrow> (nat \<times> int) set" where
  "censored p = set (zip (fst (mt_slice p)) (snd (mt_slice p)))"

lemma bias_set_eq:
  assumes "bias_in_step f32 outs p B"
  shows "bias_set p = {(i, t, f32 b) | i t b. \<exists>x lb. B i = Some x \<and> bias_of (fst x) = Some lb \<and> (t, b) \<in> set lb}"
proof -
  let ?d = "lb_biases p" and ?g = "\<lambda>v. map (\<lambda>(t, b). (t, f32 b)) v"
  have "zip (fst (lb_slice p)) (zip (snd (lb_slice p)) (lb_tensor p)) = concat (map (\<lambda>(i, v). map (Pair i) (?g v)) ?d)"
    using assms zip_rows [of ?g ?d] zip_keys_values [of ?d f32] by (simp add: bias_in_step_def bias_tensors_def)
  then have "bias_set p = {(i, t). \<exists>v. map_of ?d i = Some v \<and> t \<in> set (?g v)}"
    using set_rows [of ?d ?g] assms by (simp only: bias_set_def bias_in_step_def)
  then show ?thesis using assms by (force simp: bias_in_step_def bind_eq_Some_conv)
qed

lemma censored_eq:
  assumes "toks_in_step outs p B"
  shows "censored p = {(i, t). \<exists>x. B i = Some x \<and> (\<exists>q. fst x = Sampling q \<and> int (length (outs ! snd x)) < wp_min_tokens q \<and>
      t \<in> set (wp_all_stop_token_ids q))}"
proof -
  let ?d = "mt_min_toks p" and ?g = "\<lambda>v. snd (snd v)"
  have "zip (fst (mt_slice p)) (snd (mt_slice p)) = concat (map (\<lambda>(i, v). map (Pair i) (?g v)) ?d)"
    using assms zip_rows [of ?g ?d] by (simp add: toks_in_step_def toks_slice_def case_prod_unfold)
  then have "censored p = {(i, t). \<exists>v. map_of ?d i = Some v \<and> t \<in> set (?g v)}"
    using set_rows [of ?d ?g] assms by (simp only: censored_def toks_in_step_def)
  then show ?thesis using assms
    by (fastforce simp: toks_in_step_def bind_eq_Some_conv min_toks_of_def split: batch_params.splits if_splits)
qed

lemma new_processors_in_step:
  "bias_in_step f32 [] LogitBias_init Map.empty" "toks_in_step [] MinTokens_init Map.empty"
  by (simp_all add: bias_in_step_def toks_in_step_def LogitBias_init_def MinTokens_init_def bias_tensors_def toks_slice_def wf_dict_def)

text \<open>
  C40.  The logits processors follow the batch.  For every sequence of engine steps, with additions,
  removals, moves and exchanges of rows in any combination and with growing outputs, the
  tensors that the processors apply to the logits are, row by row, what the request now in the row
  asks for.  The bias tensor has exactly the biases of the requests in the batch, each at the row of
  its request and its token; and the stop tokens that are censored are those of the requests that
  have not yet produced their minimal number of tokens.  Nothing is left of a request that
  was removed or replaced.
\<close>

theorem logits_processors_follow_batch:
  assumes "steps_ok [] Map.empty steps" and "B = run_rows steps Map.empty"
  shows "bias_set (run_processor (\<lambda>_. logit_bias_update_state f32) steps LogitBias_init) =
      {(i, t, f32 b) | i t b. \<exists>x lb. B i = Some x \<and> bias_of (fst x) = Some lb \<and> (t, b) \<in> set lb} \<and>
    censored (run_processor min_tokens_update_state steps MinTokens_init) =
      {(i, t). \<exists>x. B i = Some x \<and> (\<exists>q. fst x = Sampling q \<and>
         int (length (last_outs [] steps ! snd x)) < wp_min_tokens q \<and> t \<in> set (wp_all_stop_token_ids q))}"
  using bias_set_eq [OF bias_rows.stays_in_step [OF new_processors_in_step(1) assms(1)]]
    censored_eq [OF toks_rows.stays_in_step [OF new_processors_in_step(2) assms(1)]] assms(2)
  by simp

text \<open>Two requests want three tokens before they stop, the second with a bias on token 9.  After the
  first has its tokens and leaves, the second is moved into its row.\<close>

definition sample_sampling :: "int list \<Rightarrow> (int, rat) dict option \<Rightarrow> batch_params" where
  "sample_sampling stops lb = Sampling \<lparr>wp_min_tokens = 3, wp_all_stop_token_ids = stops, wp_logit_bias = lb\<rparr>"

definition sample_updates :: "step_update list" where
  "sample_updates =
     [([[], []], Some \<lparr>bu_batch_size = 2, bu_removed = [], bu_moved = [],
         bu_added = [(0, sample_sampling [2] None, 0), (1, sample_sampling [2, 7] (Some [(9, 1 / 2)]), 1)]\<rparr>),
      ([[5, 5, 5], [6]], None),
      ([[5, 5, 5], [6, 6]], Some \<lparr>bu_batch_size = 1, bu_removed = [0], bu_moved = [(1, 0, UNIDIRECTIONAL)], bu_added = []\<rparr>)]"

lemma sample_updates_rows:
  "run_rows sample_updates Map.empty = [0 \<mapsto> (sample_sampling [2, 7] (Some [(9, 1 / 2)]), 1)]"
  by (auto simp: sample_updates_def apply_update_def apply_changes_def rows_added_def rows_removed_def rows_moved_def)

lemma logits_processors_follow_batch_witness:
  "bias_set (run_processor (\<lambda>_. logit_bias_update_state (\<lambda>x. x)) sample_updates LogitBias_init) = {(0, 9, 1 / 2)} \<and>
   censored (run_processor min_tokens_update_state sample_updates MinTokens_init) = {(0, 2), (0, 7)}"
proof -
  have "steps_ok [] Map.empty sample_updates"
    by (auto simp: sample_updates_def outs_grow_def less_Suc_eq apply_update_def apply_changes_def rows_added_def ran_def split: if_splits)
  moreover have "last_outs [] sample_updates = [[5, 5, 5], [6, 6]]" by (simp add: sample_updates_def)
  ultimately show ?thesis
    using logits_processors_follow_batch [OF _ sample_updates_rows [symmetric], of "\<lambda>x. x"]
    by (auto simp: sample_sampling_def bias_of_def split: if_splits)
qed

end
