(* ===== verification/Spec2Isabelle.thy ===== *)
theory Spec2Isabelle
  imports Scheduler_Holdings KV_Cache_Config Ngram_Proposer Middleware Output_Streaming
    Block_Table Logits_Processors
begin

text \<open>
  \<^bold>\<open>The program.\<close>  The repository is a language-model service: a small web service
  (\<open>src/middleware\<close>) in front of an inference server (\<open>src/inference_server/vllm\<close>).  What
  decides which request runs when, and which memory it gets, is the core of the V1 engine of
  the inference server, \<open>vllm/v1/core\<close>; what turns the tokens of the engine into the answers of
  the callers is its front end, \<open>vllm/v1/engine\<close>.  This development models both, the part of the
  workers that keeps their batch in step with the scheduler, and the web service, and proves them
  correct where they are.

  One engine step is \<open>Scheduler.schedule\<close>, the execution of the model on the
  workers, and \<open>Scheduler.update_from_output\<close>; between steps clients add and abort requests.
  The scheduler keeps the requests in a running list and a waiting queue, asks the KV-cache
  manager for memory slots, and tells the workers what to compute.  The KV-cache manager
  hashes the tokens of a request block by block to find blocks that earlier requests
  computed, and shares those through reference counts.

  The front end gives every request to the engine core, one child request per completion asked
  for, and keeps a state for it.  \<open>OutputProcessor.process_outputs\<close> takes what the core reports,
  turns tokens into text, looks for stop strings, merges the children of a request, and puts
  the outputs into the mailbox of the caller or returns them.  A stop string found ends a request
  the core still runs, so the front end tells the core to abort it.

  \<^bold>\<open>Theories and sources\<close> (paths below \<open>src/inference_server/vllm/vllm\<close>):

  \<^item> \<open>Prelude\<close>: exceptions as values (\<open>'a res\<close>), Python's division, slices and
    indices, insertion-ordered dictionaries as association lists.
  \<^item> \<open>Request_Model\<close>: \<open>v1/request.py\<close> and \<open>v1/core/sched/utils.py\<close>.  A request is a
    record; methods return the changed record.
  \<^item> \<open>Block_Hashing\<close>: the hash chain and the hit-rate metrics of
    \<open>v1/core/kv_cache_utils.py\<close>.
  \<^item> \<open>Free_Block_Queue\<close>: \<open>KVCacheBlock\<close> and \<open>FreeKVCacheBlockQueue\<close> of the same file.  Blocks are
    objects with identity, so the model is a heap from references to block records, and the
    queue is threaded through it.  Locale \<open>block_queue\<close> is what the pool relies on.
  \<^item> \<open>Block_Pool\<close>: \<open>v1/core/block_pool.py\<close>.  Locale \<open>ref_counted_pool\<close> is what the managers
    rely on; \<open>pool_reach\<close> are the histories of a pool with the references held.
  \<^item> \<open>KV_Cache_Spec\<close>: \<open>v1/kv_cache_interface.py\<close>.
  \<^item> \<open>Single_Type_Manager\<close>: \<open>v1/core/single_type_kv_cache_manager.py\<close>; the subclasses are cases on
    the format.  Locale \<open>prefix_lookup\<close> is what the coordinators rely on.
  \<^item> \<open>KV_Coordinator\<close>: \<open>v1/core/kv_cache_coordinator.py\<close>.
  \<^item> \<open>KV_Cache_Manager\<close>: \<open>v1/core/kv_cache_manager.py\<close>; \<open>kv_reach\<close> are its histories.
  \<^item> \<open>Encoder_Cache\<close>: \<open>v1/core/encoder_cache_manager.py\<close>.
  \<^item> \<open>Request_Queue\<close>: \<open>v1/core/sched/request_queue.py\<close> on a model of Python's \<open>heapq\<close>.  Locale
    \<open>waiting_queue\<close> is the contract of both policies.
  \<^item> \<open>Scheduler_State\<close>: the fields of \<open>Scheduler\<close> (\<open>v1/core/sched/scheduler.py\<close>), construction, and
    the operations on single requests: add, finish, free, encoder inputs, remote transfers.
  \<^item> \<open>Scheduler_Step\<close>: \<open>schedule\<close> with \<open>_update_after_schedule\<close>, and their asynchronous variants
    (\<open>v1/core/sched/async_scheduler.py\<close>).  The local variables of \<open>schedule\<close> are the record
    \<open>sched_acc\<close>; each loop body is one definition that says whether the loop goes on.
  \<^item> \<open>Scheduler_Queues\<close>, \<open>Scheduler_Output\<close>: what a step does to queues, budgets and
    objects, and what it reports.
  \<^item> \<open>Scheduler_Update\<close>: \<open>update_from_output\<close>, and that it keeps the queues well formed.
  \<^item> \<open>Scheduler_Properties\<close>: \<open>sched_reach\<close>, the histories of a scheduler, and its properties.
  \<^item> \<open>KV_Holdings\<close>, \<open>Scheduler_Holdings\<close>: scheduler and KV-cache manager together.  Locale \<open>kv_accounts\<close> is
    what the scheduler relies on; it is interpreted on the manager without prefix caching.
  \<^item> \<open>KV_Cache_Config\<close>: the second half of \<open>v1/core/kv_cache_utils.py\<close>, the sizing and layout of
    the KV cache at start-up.
  \<^item> \<open>Ngram_Proposer\<close>: \<open>v1/spec_decode/ngram_proposer.py\<close>, drafts by string search.
  \<^item> \<open>Request_Outputs\<close>: the outputs (\<open>outputs.py\<close>) and the mailbox of a caller,
    \<open>RequestOutputCollector\<close>.  Locale \<open>mergeable\<close> is what the mailbox relies on: merging two outputs
    concatenates what is observed of them; it is interpreted for texts and for tokens.
  \<^item> \<open>Detokenizer\<close>: \<open>v1/engine/detokenizer.py\<close>, what it calls of
    \<open>transformers_utils/detokenizer_utils.py\<close>, and \<open>StopChecker.check_stop_strings\<close>.
  \<^item> \<open>Parallel_Sampling\<close>: \<open>v1/engine/parallel_sampling.py\<close>, a parent and its children.
  \<^item> \<open>Logprobs_Processor\<close>, \<open>Frontend_Stats\<close>: \<open>v1/engine/logprobs.py\<close> and \<open>v1/metrics/stats.py\<close>.
  \<^item> \<open>Output_Processor\<close>: \<open>v1/engine/output_processor.py\<close>, with \<open>add_request\<close> and \<open>step\<close> of
    \<open>v1/engine/llm_engine.py\<close> and their counterparts in \<open>v1/engine/async_llm.py\<close>.  Parents and
    mailboxes are shared objects and live in stores.
  \<^item> \<open>Output_Processing\<close>: the tables of the output processor.  \<open>op_inv\<close> is their invariant, \<open>fe_reach\<close>
    are the histories of a front end with the requests the engine core still runs.
  \<^item> \<open>Output_Streaming\<close>: a simulation between a streamed request and one answered at the end.
  \<^item> \<open>Block_Table\<close>: \<open>v1/worker/block_table.py\<close>, the blocks of the rows of a batch, as arrays, and the
    slots of the tokens.
  \<^item> \<open>Logits_Processors\<close>: \<open>v1/sample/logits_processor.py\<close>, the records of batch changes and two
    processors.  Locale \<open>row_processor\<close> is their contract: the state is in step with the rows.
  \<^item> \<open>Middleware\<close>: the web service, \<open>src/middleware/src/{database,routes,core}.py\<close>.  SQL statements
    are trees, the lock is a flag of the state, coroutines are handlers from a state to an answer.

  \<^bold>\<open>What is shown.\<close>

  \<^item> Memory: in every history of the pool and of the KV-cache manager, every reference count is
    the number of listings of the block, and the free queue holds exactly the rest, in the
    order of release.  An allocation succeeds exactly when there are enough blocks, hands out
    unheld blocks, and evicts exactly their hashes.  Freeing never raises.  For the manager
    the calls keep a protocol (\<open>slots_asked\<close>); for scheduler and manager together nothing is
    assumed about the calls when prefix caching is off, and no block is leaked.
  \<^item> Prefix caching: with a collision-free hash, equal block hashes mean equal token prefixes;
    a lookup returns the longest cached prefix (full attention) or the longest prefix with a
    cached last window (sliding window), every position that the attention looks at has a block
    with the hash of the request, and at least one token is left to compute.  Publishing
    continues the chain of hashes and makes the blocks found.
  \<^item> Queues: both waiting queues answer like a list in service order, whatever the operations; the
    priority queue when no two requests tie, since with a tie it raises.
  \<^item> Scheduling: in every history the queues are disjoint, duplicate-free and agree with the
    status of the requests; a step keeps the token budget exact, serves first come first served
    up to the order of skipped requests, gives every scheduled request at least one token, and
    reports each exactly once; tokens are appended up to the first stop.
  \<^item> Encoder cache: free and used slots add up to the capacity; the choice of encoder inputs is
    exactly what the scheduled tokens need.
  \<^item> Start-up: a configuration is a partition of the layers over groups and tensors and fits into
    the memory when the number of blocks is not overridden; without padding it has the bytes for
    one request of maximal length, the null block counted, which can be one block short
    (\<open>exact_fit_lacks_a_block\<close> below); the estimated model length is the greatest that fits.
  \<^item> Drafts: the proposer terminates and finds the first occurrence of the longest suffix.
  \<^item> Front end: in every history the front end knows exactly the requests the engine core was
    given and that neither finished nor were aborted; aborting never raises, reports exactly
    what it forgets, and takes all children of a parent along.  What is streamed to a caller
    adds up to the text and the tokens of the final answer; the mailbox loses nothing,
    whatever the order of puts and gets; a parent answers once, with the outputs of all its
    children; searching the end of the text for stop strings finds what a search of the
    whole text finds.
  \<^item> Workers: the rows of the block tables are the lists of blocks that the operations on them say, and
    the slots of the tokens are exact; the tensors of the logits processors are what the requests
    in the rows ask for, whatever was added, removed or moved before.
  \<^item> Web service: queries bind one value per placeholder and release the lock; and three defects:
    the schema can never be created on a new database, error logs are not returned, and usage
    is not recorded.

  \<^bold>\<open>Parameters.\<close>  The hash function and \<open>NONE_HASH\<close> (\<open>hash_fn\<close>; collision freedom is the
  named hypothesis \<open>good_hash\<close>), the answers of the KV connector, the grammar compiler and the
  clock (record \<open>sched_env\<close>, unconstrained), the size of a tensor element, the answers of the
  multi-modal registry, and the order in which the groups of two workers are sorted, which
  compares tensor types; the tokenizer (record \<open>tokenizer\<close>), the contents of tensors and the addition of
  floats (record \<open>logprob_env\<close>), the rounding of a float to 32 bits (\<open>f32\<close>), and the request the input processor makes of a prompt; the database engine (record \<open>duckdb\<close>; what is documented of its catalog is
  the named hypothesis \<open>catalog_laws\<close>) and the HTTP client of the web service.  Tensors are opaque.

  \<^bold>\<open>Integers, fuel and termination.\<close>  Python integers are \<open>int\<close>; the product of block number and
  block size in the slot mapping wraps at 32 bits (\<open>wrap32\<close>).  One definition uses fuel:
  \<open>abort_loop\<close> follows \<open>abort_requests\<close> from a parent to its children, with the number of parents as
  fuel, and \<open>abort_requests_complete\<close> shows that this is enough.  For the rest, the walk along the free queue and the two loops of the string search are \<open>partial_function\<close>s shown to
  return; the binary search has the size of its interval as measure; the loops of \<open>schedule\<close> are
  functions with a measure (requests not yet visited; requests still waiting); the loop over
  preemptions removes a running request in each round; sifting in a heap moves the index.

  \<^bold>\<open>Not modelled.\<close>  Logging and event publishing to the network; the metadata a connector builds
  and the grammar bitmask, which are opaque parts of the output; the engine processes, the API server, the
  model runners and the models (process communication and tensor programs); other tasks that run between the awaits of
  \<open>AsyncLLM.add_request\<close>; and the legacy V0 engine, with the rest of its stop checker.  Times are
  integers and probabilities are opaque, since nothing that is decided depends on their values.
\<close>

section \<open>Start-up and block pool\<close>

text \<open>
  The memory check at start-up counts the null block as usable.  With memory for exactly the ten
  blocks that a request of maximal length needs, it accepts the configuration, and the pool made
  from it has nine.
\<close>

lemma exact_fit_lacks_a_block:
  "rbind (get_kv_cache_config (\<lambda>_. 2) sample_vllm (take 2 sample_layers) 640) (\<lambda>(cfg, _).
   rbind (BlockPool_init (cc_num_blocks cfg) True False) (\<lambda>p.
   Ok (cdiv (cfg_max_model_len sample_vllm) (spec_block_size (group_spec (hd (kv_cache_groups cfg)))),
       cc_num_blocks cfg, get_num_free_blocks p))) = Ok (10, 10, 9)"
  by code_simp

end
